(* ===== verification/Prelude.thy ===== *)
theory Prelude
  imports Complex_Main "HOL-Library.Word"
begin

text \<open>
  Shared material of the development: the saturating and checked arithmetic of Rust's
  \<open>usize\<close>, slices of lists (Rust's \<open>&xs[s..e]\<close>), the comparison of IEEE floats with a
  threshold, and the fact collections the component theories add to.

  Sample indices, lengths and counters of the source have type \<open>usize\<close> (64 bit). They are
  modelled as \<open>nat\<close>. Where the source saturates (\<open>saturating_add\<close>) the bound is written
  out with \<open>usize_max\<close>; where it subtracts under a guard, the natural subtraction is the
  machine's one, and where it slices or subtracts without a guard the model returns an
  option and a theorem shows that the option is never \<open>None\<close>.
\<close>

named_theorems subslice_simps \<open>rewriting of slices\<close>

section \<open>Arithmetic of usize\<close>

definition usize_max :: nat where
  "usize_max = 2 ^ 64 - 1"

definition sat_add :: "nat \<Rightarrow> nat \<Rightarrow> nat" where
  "sat_add a b = min (a + b) usize_max"

definition checked_sub :: "nat \<Rightarrow> nat \<Rightarrow> nat option" where
  "checked_sub a b = (if b \<le> a then Some (a - b) else None)"

definition div_ceil :: "nat \<Rightarrow> nat \<Rightarrow> nat" where
  "div_ceil a b = (if a mod b = 0 then a div b else a div b + 1)"

lemma checked_sub_Some [simp]: "checked_sub a b = Some c \<longleftrightarrow> b \<le> a \<and> c = a - b"
  by (auto simp: checked_sub_def)

lemma checked_sub_None [simp]: "checked_sub a b = None \<longleftrightarrow> a < b"
  by (auto simp: checked_sub_def)

lemma div_ceil_bounds:
  assumes "0 < b"
  shows "a \<le> div_ceil a b * b" and "div_ceil a b * b < a + b"
proof -
  have m: "a mod b < b" using assms by simp
  have d: "a = (a div b) * b + a mod b" by simp
  have c: "div_ceil a b * b = (if a mod b = 0 then (a div b) * b else (a div b) * b + b)"
    by (simp add: div_ceil_def algebra_simps)
  show "a \<le> div_ceil a b * b" unfolding c using d m
    by (cases "a mod b = 0"; simp only: if_True if_False simp_thms; linarith)
  show "div_ceil a b * b < a + b" unfolding c using d m assms
    by (cases "a mod b = 0"; simp only: if_True if_False simp_thms; linarith)
qed

lemma div_ceil_le:
  assumes "0 < b" and "a \<le> k * b"
  shows "div_ceil a b * b \<le> k * b"
proof -
  have "div_ceil a b * b < k * b + b" using div_ceil_bounds(2)[OF assms(1), of a] assms(2) by simp
  then have "div_ceil a b * b < (k + 1) * b" by simp
  then have "div_ceil a b < k + 1" using mult_less_cancel2 by blast
  then show ?thesis by simp
qed

section \<open>Slices\<close>

definition subslice :: "'a list \<Rightarrow> nat \<Rightarrow> nat \<Rightarrow> 'a list" where
  "subslice xs s e = take (e - s) (drop s xs)"

lemma length_subslice [simp]: "length (subslice xs s e) = min e (length xs) - s"
  by (auto simp: subslice_def)

lemma subslice_empty [simp]: "e \<le> s \<Longrightarrow> subslice xs s e = []"
  by (simp add: subslice_def)

lemma subslice_all [simp]: "subslice xs 0 (length xs) = xs"
  by (simp add: subslice_def)

lemma subslice_append_split [subslice_simps]:
  assumes "a \<le> b" "b \<le> c"
  shows "subslice xs a b @ subslice xs b c = subslice xs a c"
proof -
  have "c - a = (b - a) + (c - b)" using assms by simp
  moreover have "drop b xs = drop (b - a) (drop a xs)" using assms by simp
  ultimately show ?thesis unfolding subslice_def using take_add by metis
qed

lemma subslice_append1 [subslice_simps]: "e \<le> length xs \<Longrightarrow> subslice (xs @ ys) s e = subslice xs s e"
  by (cases "s \<le> e") (auto simp: subslice_def)

lemma subslice_drop [subslice_simps]: "d \<le> s \<Longrightarrow> subslice (drop d xs) (s - d) (e - d) = subslice xs s e"
  by (simp add: subslice_def)

lemma subslice_take [subslice_simps]: "e \<le> n \<Longrightarrow> subslice (take n xs) s e = subslice xs s e"
  by (auto simp: subslice_def take_drop min_def)

lemma subslice_slice [subslice_simps]:
  "s' \<le> e' \<Longrightarrow> e' \<le> e - s \<Longrightarrow> subslice (subslice xs s e) s' e' = subslice xs (s + s') (s + e')"
  by (auto simp: subslice_def take_drop min_def add.commute)

lemma subslice_window:
  assumes "r \<le> a" "a \<le> b" "b \<le> e"
  shows "subslice (subslice xs r e) (a - r) (b - r) = subslice xs a b"
proof -
  have "a - r \<le> b - r" "b - r \<le> e - r" using assms by linarith+
  from subslice_slice[OF this] show ?thesis using assms by simp
qed

lemma subslice_to_end: "length xs \<le> e \<Longrightarrow> subslice xs s e = drop s xs"
  by (auto simp: subslice_def)

section \<open>Float comparison\<close>

text \<open>
  The VAD decisions use a 32-bit float only in \<open>p >= threshold\<close>. The float type keeps the
  values such a comparison distinguishes: IEEE NaN (every comparison is false), the
  infinities, and the finite values, which are rationals.
\<close>

datatype float_val = NaN | NInf | Fin rat | PInf

fun float_ge :: "float_val \<Rightarrow> float_val \<Rightarrow> bool" where
  "float_ge NaN _ = False"
| "float_ge _ NaN = False"
| "float_ge PInf _ = True"
| "float_ge _ NInf = True"
| "float_ge (Fin a) (Fin b) = (b \<le> a)"
| "float_ge _ _ = False"

lemma float_ge_NaN_right [simp]: "float_ge p NaN = False"
  by (cases p) auto

section \<open>Failures\<close>

text \<open>
  A Rust function fails by returning an error value or by panicking (an out-of-range slice,
  an arithmetic underflow). Models of code that slices or subtracts without a test return
  \<open>Panic\<close> there, and a theorem shows that it is not reached.
\<close>

datatype 'e fault = Err 'e | Panic

text \<open>The error type of the library, \<open>error.rs\<close>; a source error is its message.\<close>

datatype gigastt_error =
    ModelLoad string
  | Inference string
  | InvalidAudio string
  | Io string
  | InvalidInput string
  | Cancelled
  | AudioTooLong float_val float_val

definition error_code :: "gigastt_error \<Rightarrow> string" where
  "error_code e = (case e of
     ModelLoad _ \<Rightarrow> ''model_load_error''
   | Inference _ \<Rightarrow> ''inference_error''
   | InvalidAudio _ \<Rightarrow> ''invalid_audio''
   | Io _ \<Rightarrow> ''io_error''
   | InvalidInput _ \<Rightarrow> ''invalid_input''
   | Cancelled \<Rightarrow> ''cancelled''
   | AudioTooLong _ _ \<Rightarrow> ''audio_too_long'')"

text \<open>
  The message of an error with its source (\<open>{e:#}\<close>); the two durations of \<open>AudioTooLong\<close> are not
  rendered, no code looks into that message.
\<close>

fun error_display :: "gigastt_error \<Rightarrow> string" where
  "error_display (ModelLoad s) = ''model load error at '' @ s"
| "error_display (Inference s) = ''inference failed: '' @ s"
| "error_display (InvalidAudio s) = ''invalid audio: '' @ s"
| "error_display (Io s) = s"
| "error_display (InvalidInput s) = ''invalid input: '' @ s"
| "error_display Cancelled = ''cancelled''"
| "error_display (AudioTooLong a b) = ''audio too long: ''"

end
