(* ===== verification/Resample.thy ===== *)
theory Resample
  imports Prelude
begin

text \<open>
  The streaming resampler of \<open>inference/audio/resample.rs\<close>: \<open>resample_with_cache\<close> and the
  staging accumulator \<open>ResampleTo16k\<close>. The rubato FIR resampler is third-party code: it is
  the record \<open>rubato_ops\<close> of its constructor, its input limit and its chunk call, with
  an opaque state \<open>'c\<close>. Nothing is assumed about the samples it returns. The scratch vector
  of the source only recycles an allocation, so it is the return value of
  \<open>resample_with_cache\<close> here.
\<close>

type_synonym pcm = "float_val list"

fun is_finite :: "float_val \<Rightarrow> bool" where
  "is_finite (Fin _) = True"
| "is_finite _ = False"

definition sanitize :: "float_val \<Rightarrow> float_val" where
  "sanitize x = (if is_finite x then x else Fin 0)"

datatype resample_error = ResamplerInit | ResamplingFailed | ZeroChunkPanic

record 'c rubato_ops =
  rubato_new :: "nat \<Rightarrow> nat \<Rightarrow> nat \<Rightarrow> 'c option" \<comment> \<open>from rate, to rate, capacity\<close>
  rubato_input_max :: "'c \<Rightarrow> nat"
  rubato_process :: "'c \<Rightarrow> pcm \<Rightarrow> (pcm \<times> 'c) option"

text \<open>Rust's \<open>chunks(n)\<close> for positive \<open>n\<close>; the source panics for \<open>0\<close>, which callers test.\<close>

function chunks :: "nat \<Rightarrow> 'a list \<Rightarrow> 'a list list" where
  "chunks n xs = (if n = 0 \<or> xs = [] then [] else take n xs # chunks n (drop n xs))"
  by pat_completeness auto
termination
  by (relation "measure (\<lambda>(n, xs). length xs)") auto

declare chunks.simps [simp del]

lemma chunks_Nil [simp]: "chunks n [] = []"
  by (simp add: chunks.simps)

lemma chunks_step: "0 < n \<Longrightarrow> xs \<noteq> [] \<Longrightarrow> chunks n xs = take n xs # chunks n (drop n xs)"
  by (subst chunks.simps) simp

lemma concat_chunks: "0 < n \<Longrightarrow> concat (chunks n xs) = xs"
proof (induction n xs rule: chunks.induct)
  case (1 n xs)
  then show ?case by (cases "xs = []") (simp_all add: chunks_step)
qed

lemma chunks_append_full:
  "0 < n \<Longrightarrow> length xs = n \<Longrightarrow> chunks n (xs @ ys) = xs # chunks n ys"
  by (subst chunks.simps) auto

section \<open>resample\_with\_cache\<close>

definition MIN_RESAMPLER_CAPACITY :: nat where "MIN_RESAMPLER_CAPACITY = 4096"

definition process_cached_chunk :: "'c rubato_ops \<Rightarrow> 'c \<Rightarrow> pcm \<Rightarrow> resample_error + (pcm \<times> 'c)" where
  "process_cached_chunk ops r xs =
     (case rubato_process ops r xs of None \<Rightarrow> Inl ResamplingFailed | Some y \<Rightarrow> Inr y)"

fun process_pieces :: "'c rubato_ops \<Rightarrow> 'c \<Rightarrow> pcm list \<Rightarrow> pcm \<Rightarrow> resample_error + (pcm \<times> 'c)" where
  "process_pieces ops r [] out = Inr (out, r)"
| "process_pieces ops r (p # ps) out =
     (case process_cached_chunk ops r p of
        Inl e \<Rightarrow> Inl e
      | Inr (ys, r') \<Rightarrow> process_pieces ops r' ps (out @ ys))"

definition cached_resampler :: "'c rubato_ops \<Rightarrow> nat \<Rightarrow> nat \<Rightarrow> nat \<Rightarrow> 'c option \<Rightarrow> resample_error + 'c" where
  "cached_resampler ops from_r to_r len cache =
     (case cache of
        Some r \<Rightarrow> Inr r
      | None \<Rightarrow> (case rubato_new ops from_r to_r (max len MIN_RESAMPLER_CAPACITY) of
                   None \<Rightarrow> Inl ResamplerInit
                 | Some r \<Rightarrow> Inr r))"

definition resample_with_cache ::
  "'c rubato_ops \<Rightarrow> pcm \<Rightarrow> nat \<Rightarrow> nat \<Rightarrow> 'c option \<Rightarrow> resample_error + (pcm \<times> 'c option)" where
  "resample_with_cache ops samples from_r to_r cache =
     (if samples = [] \<or> from_r = 0 \<or> to_r = 0 then Inr ([], cache)
      else if from_r = to_r then Inr (samples, cache)
      else
        let clean = map sanitize samples in
        case cached_resampler ops from_r to_r (length clean) cache of
          Inl e \<Rightarrow> Inl e
        | Inr r \<Rightarrow>
            (let m = rubato_input_max ops r in
             if length clean \<le> m
             then (case process_cached_chunk ops r clean of
                     Inl e \<Rightarrow> Inl e | Inr (ys, r') \<Rightarrow> Inr (ys, Some r'))
             else if m = 0 then Inl ZeroChunkPanic
             else (case process_pieces ops r (chunks m clean) [] of
                     Inl e \<Rightarrow> Inl e | Inr (ys, r') \<Rightarrow> Inr (ys, Some r'))))"

section \<open>ResampleTo16k\<close>

definition RESAMPLE_STAGING_FRAMES :: nat where "RESAMPLE_STAGING_FRAMES = 48000"

record 'c resample16k =
  from_rate :: nat
  stage :: pcm
  rs_out :: pcm
  cache :: "'c option"

definition resample16k_new :: "nat \<Rightarrow> 'c resample16k" where
  "resample16k_new rate = \<lparr>from_rate = rate, stage = [], rs_out = [], cache = None\<rparr>"

definition stage_extend :: "pcm \<Rightarrow> 'c resample16k \<Rightarrow> 'c resample16k" where
  "stage_extend xs rs = rs\<lparr>stage := stage rs @ xs\<rparr>"

definition rs_drain :: "'c rubato_ops \<Rightarrow> 'c resample16k \<Rightarrow> resample_error + 'c resample16k" where
  "rs_drain ops rs =
     (if stage rs = [] then Inr rs
      else case resample_with_cache ops (stage rs) (from_rate rs) 16000 (cache rs) of
             Inl e \<Rightarrow> Inl e
           | Inr (ys, ca) \<Rightarrow> Inr (rs\<lparr>stage := [], rs_out := rs_out rs @ ys, cache := ca\<rparr>))"

definition flush_full :: "'c rubato_ops \<Rightarrow> 'c resample16k \<Rightarrow> resample_error + 'c resample16k" where
  "flush_full ops rs =
     (if from_rate rs = 16000 \<or> length (stage rs) < RESAMPLE_STAGING_FRAMES then Inr rs
      else rs_drain ops rs)"

definition rs_finish :: "'c rubato_ops \<Rightarrow> 'c resample16k \<Rightarrow> resample_error + pcm" where
  "rs_finish ops rs =
     (if from_rate rs = 16000 then Inr (stage rs)
      else case rs_drain ops rs of Inl e \<Rightarrow> Inl e | Inr rs' \<Rightarrow> Inr (rs_out rs'))"

definition drain_ready_into :: "'c resample16k \<Rightarrow> pcm \<Rightarrow> pcm \<times> 'c resample16k" where
  "drain_ready_into rs dst =
     (if from_rate rs = 16000 then (dst @ stage rs, rs\<lparr>stage := []\<rparr>)
      else (dst @ rs_out rs, rs\<lparr>rs_out := []\<rparr>))"

definition finish_into ::
  "'c rubato_ops \<Rightarrow> 'c resample16k \<Rightarrow> pcm \<Rightarrow> resample_error + (pcm \<times> 'c resample16k)" where
  "finish_into ops rs dst =
     (if from_rate rs = 16000 then Inr (dst @ stage rs, rs\<lparr>stage := []\<rparr>)
      else case rs_drain ops rs of
             Inl e \<Rightarrow> Inl e
           | Inr rs' \<Rightarrow> Inr (dst @ rs_out rs', rs'\<lparr>rs_out := []\<rparr>))"

text \<open>
  The two ways the decoders drive it. The whole-buffer decode stages every packet, flushes
  full chunks and finishes once; the windowed decode also drains what is ready after each
  packet.
\<close>

fun feed_whole :: "'c rubato_ops \<Rightarrow> 'c resample16k \<Rightarrow> pcm list \<Rightarrow> resample_error + pcm" where
  "feed_whole ops rs [] = rs_finish ops rs"
| "feed_whole ops rs (p # ps) =
     (case flush_full ops (stage_extend p rs) of
        Inl e \<Rightarrow> Inl e | Inr rs' \<Rightarrow> feed_whole ops rs' ps)"

fun feed_streamed :: "'c rubato_ops \<Rightarrow> 'c resample16k \<Rightarrow> pcm list \<Rightarrow> pcm \<Rightarrow> resample_error + pcm" where
  "feed_streamed ops rs [] dst =
     (case finish_into ops rs dst of Inl e \<Rightarrow> Inl e | Inr (d, _) \<Rightarrow> Inr d)"
| "feed_streamed ops rs (p # ps) dst =
     (case flush_full ops (stage_extend p rs) of
        Inl e \<Rightarrow> Inl e
      | Inr rs' \<Rightarrow> (case drain_ready_into rs' dst of (d, rs'') \<Rightarrow> feed_streamed ops rs'' ps d))"

lemma flush_full_rate: "flush_full ops rs = Inr rs' \<Longrightarrow> from_rate rs' = from_rate rs"
  by (auto simp: flush_full_def rs_drain_def split: if_splits sum.splits prod.splits)

text \<open>
  The streamed accumulator is the whole-buffer one with a prefix of its output moved out.
\<close>

definition split_of :: "pcm \<Rightarrow> 'c resample16k \<Rightarrow> 'c resample16k \<Rightarrow> bool" where
  "split_of dst rs w \<longleftrightarrow>
     from_rate rs = from_rate w \<and> cache rs = cache w \<and>
     (if from_rate w = 16000 then stage w = dst @ stage rs
      else stage rs = stage w \<and> rs_out w = dst @ rs_out rs)"

lemma rs_drain_split:
  assumes "split_of dst rs w" "from_rate w \<noteq> 16000"
  shows "rel_sum (=) (\<lambda>a b. split_of dst a b \<and> from_rate b = from_rate w)
           (rs_drain ops rs) (rs_drain ops w)"
proof (cases "stage w = []")
  case True
  then show ?thesis using assms by (simp add: split_of_def rs_drain_def)
next
  case False
  have e: "stage rs = stage w" "from_rate rs = from_rate w" "cache rs = cache w"
    using assms by (simp_all add: split_of_def)
  show ?thesis
    using assms False e
    by (cases "resample_with_cache ops (stage w) (from_rate w) 16000 (cache w)")
       (simp_all add: rs_drain_def split_of_def split: prod.split)
qed

lemma flush_full_split:
  assumes "split_of dst rs w"
  shows "rel_sum (=) (split_of dst) (flush_full ops (stage_extend p rs)) (flush_full ops (stage_extend p w))"
proof (cases "from_rate w = 16000")
  case True
  have f: "from_rate rs = 16000" "cache rs = cache w" "stage w = dst @ stage rs"
    using assms True by (simp_all add: split_of_def)
  show ?thesis
    by (simp add: flush_full_def stage_extend_def split_of_def f True)
next
  case False
  have s: "split_of dst (stage_extend p rs) (stage_extend p w)"
    using assms False by (auto simp: split_of_def stage_extend_def)
  moreover have "from_rate (stage_extend p w) \<noteq> 16000" using False by (simp add: stage_extend_def)
  ultimately have "rel_sum (=) (\<lambda>a b. split_of dst a b \<and> from_rate b = from_rate (stage_extend p w))
      (rs_drain ops (stage_extend p rs)) (rs_drain ops (stage_extend p w))"
    by (rule rs_drain_split)
  then have "rel_sum (=) (split_of dst) (rs_drain ops (stage_extend p rs)) (rs_drain ops (stage_extend p w))"
    by (rule sum.rel_mono_strong) auto
  then show ?thesis using s False by (auto simp: flush_full_def split_of_def stage_extend_def)
qed

lemma drain_ready_split:
  assumes "split_of dst rs w" and "drain_ready_into rs dst = (d, rs')"
  shows "split_of d rs' w"
  using assms by (auto simp: split_of_def drain_ready_into_def split: if_splits)

lemma finish_split:
  assumes "split_of dst rs w"
  shows "(case finish_into ops rs dst of Inl e \<Rightarrow> Inl e | Inr (d, _) \<Rightarrow> Inr d) = rs_finish ops w"
proof (cases "from_rate w = 16000")
  case True
  then show ?thesis using assms by (auto simp: split_of_def finish_into_def rs_finish_def)
next
  case False
  then have r: "from_rate rs \<noteq> 16000" using assms by (simp add: split_of_def)
  from rs_drain_split[OF assms False, of ops] False r show ?thesis
    by (cases "rs_drain ops rs"; cases "rs_drain ops w")
       (simp_all add: finish_into_def rs_finish_def split_of_def)
qed

lemma feed_streamed_split:
  "split_of dst rs w \<Longrightarrow> feed_streamed ops rs ps dst = feed_whole ops w ps"
proof (induction ps arbitrary: dst rs w)
  case Nil
  then show ?case by (simp add: finish_split)
next
  case (Cons p ps)
  note f = flush_full_split[OF Cons.prems, of ops p]
  show ?case
  proof (cases "flush_full ops (stage_extend p rs)")
    case (Inl e)
    with f show ?thesis by (cases "flush_full ops (stage_extend p w)") simp_all
  next
    case (Inr rs')
    with f obtain w' where w': "flush_full ops (stage_extend p w) = Inr w'" "split_of dst rs' w'"
      by (cases "flush_full ops (stage_extend p w)") simp_all
    obtain d rs'' where d: "drain_ready_into rs' dst = (d, rs'')" by fastforce
    from Cons.IH[OF drain_ready_split[OF w'(2) d]] show ?thesis
      by (simp add: Inr w'(1) d)
  qed
qed

lemma feed_streamed_whole: "feed_streamed ops (resample16k_new rate) ps [] = feed_whole ops (resample16k_new rate) ps"
  by (rule feed_streamed_split) (simp add: split_of_def resample16k_new_def)

section \<open>Property\<close>

text \<open>
  C20: draining the accumulator after every packet and closing with \<open>finish_into\<close> yields the
  same samples, or the same error, as staging all packets and calling \<open>finish\<close> once, for
  every source rate, every packet split and every behaviour of the resampler.
\<close>
theorem streamed_resample_equals_whole:
  "feed_streamed ops (resample16k_new rate) ps [] = feed_whole ops (resample16k_new rate) ps"
  by (rule feed_streamed_whole)

end
