(* ===== verification/Vad_Regions.thy ===== *)
theory Vad_Regions
  imports Resample
begin

text \<open>
  The batch half of the voice activity detection (\<open>vad/config.rs\<close>, \<open>vad/regions.rs\<close>,
  \<open>vad/silero.rs\<close>): the frame scan with its cancellation polls, and \<open>regions_from_probs\<close>,
  which turns the probability sequence into padded speech regions in four passes. The Silero
  network is third-party code: \<open>silero\<close> is an arbitrary function of one padded frame and the
  recurrent state. The for loops of the source that push onto a vector are folds whose
  step is named.
\<close>

definition VAD_SAMPLE_RATE :: nat where "VAD_SAMPLE_RATE = 16000"
definition VAD_FRAME_SAMPLES :: nat where "VAD_FRAME_SAMPLES = 512"

lemma VAD_FRAME_SAMPLES_eq [simp]: "VAD_FRAME_SAMPLES = 512"
  by (simp add: VAD_FRAME_SAMPLES_def)

record vad_config =
  threshold :: float_val
  min_silence_ms :: nat
  min_speech_ms :: nat
  speech_pad_ms :: nat

definition vad_config_default :: vad_config where
  "vad_config_default =
     \<lparr>threshold = Fin (1/2), min_silence_ms = 500, min_speech_ms = 250, speech_pad_ms = 100\<rparr>"

definition ms_to_samples :: "nat \<Rightarrow> nat" where
  "ms_to_samples ms = (VAD_SAMPLE_RATE * ms) div 1000"

section \<open>The frame scan\<close>

type_synonym 'st scorer = "pcm \<Rightarrow> 'st \<Rightarrow> string + (float_val \<times> 'st)"

text \<open>One window through the model: a short frame is zero-padded, a long one truncated.\<close>

definition run_frame :: "'st scorer \<Rightarrow> 'st scorer" where
  "run_frame silero frame st =
     (let n = min (length frame) VAD_FRAME_SAMPLES in
      silero (take n frame @ replicate (VAD_FRAME_SAMPLES - n) (Fin 0)) st)"

text \<open>
  The abort closure is polled every 64 frames; \<open>since\<close> counts the frames since the last
  poll and \<open>polls\<close> numbers the polls.
\<close>

function frame_scan ::
  "(nat \<Rightarrow> bool) option \<Rightarrow> 'st scorer \<Rightarrow> pcm \<Rightarrow> nat \<Rightarrow> 'st \<Rightarrow> nat \<Rightarrow> nat \<Rightarrow> float_val list
   \<Rightarrow> string + float_val list" where
  "frame_scan ab score xs i st since polls acc =
     (if length xs \<le> i then Inr acc
      else
        let due = (ab \<noteq> None \<and> 64 \<le> since + 1);
            since' = (if ab = None then since else if due then 0 else since + 1);
            polls' = (if due then Suc polls else polls);
            stop = (due \<and> (case ab of None \<Rightarrow> False | Some f \<Rightarrow> f polls));
            fin = min (i + VAD_FRAME_SAMPLES) (length xs)
        in if stop then Inl ''cancelled''
           else case score (subslice xs i fin) st of
                  Inl e \<Rightarrow> Inl e
                | Inr (p, st') \<Rightarrow> frame_scan ab score xs fin st' since' polls' (acc @ [p]))"
  by pat_completeness auto
termination
  by (relation "measure (\<lambda>(ab, score, xs, i, st, since, polls, acc). length xs - i)") auto

declare frame_scan.simps [simp del]

definition frame_probs_with_abort ::
  "'st scorer \<Rightarrow> 'st \<Rightarrow> pcm \<Rightarrow> (nat \<Rightarrow> bool) option \<Rightarrow> string + float_val list" where
  "frame_probs_with_abort score st0 xs ab = frame_scan ab score xs 0 st0 0 0 []"

section \<open>regions\_from\_probs\<close>

text \<open>Pass 1: runs of frames at or above the threshold; an open run is returned apart.\<close>

fun scan_runs ::
  "float_val \<Rightarrow> nat \<Rightarrow> float_val list \<Rightarrow> nat \<Rightarrow> nat option \<Rightarrow> (nat \<times> nat) list \<Rightarrow> (nat \<times> nat) list \<times> nat option" where
  "scan_runs thr fs [] i run acc = (acc, run)"
| "scan_runs thr fs (p # ps) i run acc =
     (let speech = float_ge p thr in
      if speech \<and> run = None then scan_runs thr fs ps (Suc i) (Some (i * fs)) acc
      else if \<not> speech then
        (case run of
           Some s \<Rightarrow> scan_runs thr fs ps (Suc i) None (acc @ [(s, i * fs)])
         | None \<Rightarrow> scan_runs thr fs ps (Suc i) None acc)
      else scan_runs thr fs ps (Suc i) run acc)"

definition raw_runs :: "float_val \<Rightarrow> nat \<Rightarrow> float_val list \<Rightarrow> nat \<Rightarrow> (nat \<times> nat) list" where
  "raw_runs thr fs ps tot =
     (case scan_runs thr fs ps 0 None [] of
        (acc, Some s) \<Rightarrow> acc @ [(s, tot)]
      | (acc, None) \<Rightarrow> acc)"

text \<open>Pass 2: a run that follows the last region by less than \<open>min_silence\<close> extends it.\<close>

definition merge_run :: "nat \<Rightarrow> (nat \<times> nat) list \<Rightarrow> nat \<times> nat \<Rightarrow> (nat \<times> nat) list" where
  "merge_run min_silence mg = (\<lambda>(s, e).
     if mg \<noteq> [] \<and> s - snd (last mg) < min_silence
     then butlast mg @ [(fst (last mg), e)] else mg @ [(s, e)])"

text \<open>Pass 4: append a padded span, or grow the last one when they touch.\<close>

definition push_span :: "(nat \<times> nat) list \<Rightarrow> nat \<times> nat \<Rightarrow> (nat \<times> nat) list" where
  "push_span rs = (\<lambda>(ps, pe).
     if rs \<noteq> [] \<and> ps \<le> snd (last rs)
     then butlast rs @ [(fst (last rs), max (snd (last rs)) pe)] else rs @ [(ps, pe)])"

definition regions_from_probs :: "float_val list \<Rightarrow> nat \<Rightarrow> nat \<Rightarrow> vad_config \<Rightarrow> (nat \<times> nat) list" where
  "regions_from_probs probs fs tot cfg =
     (if probs = [] \<or> tot = 0 then []
      else
        let min_silence = ms_to_samples (min_silence_ms cfg);
            min_speech = ms_to_samples (min_speech_ms cfg);
            pad = ms_to_samples (speech_pad_ms cfg);
            runs = raw_runs (threshold cfg) fs probs tot;
            merged = foldl (merge_run min_silence) [] runs;
            kept = filter (\<lambda>(s, e). min_speech \<le> e - s) merged
        in foldl (\<lambda>rs (s, e). push_span rs (s - pad, min (e + pad) tot)) [] kept)"

definition speech_regions_with_abort ::
  "'st scorer \<Rightarrow> 'st \<Rightarrow> pcm \<Rightarrow> vad_config \<Rightarrow> (nat \<Rightarrow> bool) option \<Rightarrow> string + (nat \<times> nat) list" where
  "speech_regions_with_abort score st0 xs cfg ab =
     (case frame_probs_with_abort score st0 xs ab of
        Inl e \<Rightarrow> Inl e
      | Inr ps \<Rightarrow> Inr (regions_from_probs ps VAD_FRAME_SAMPLES (length xs) cfg))"

text \<open>The silence-free buffer that the engine decodes: the kept spans, concatenated.\<close>

definition speech_of :: "pcm \<Rightarrow> (nat \<times> nat) list \<Rightarrow> pcm" where
  "speech_of xs rs = concat (map (\<lambda>(s, e). subslice xs s e) rs)"

section \<open>Shape of the regions\<close>

text \<open>Non-empty regions in order, separated by at least one sample.\<close>

fun separated :: "(nat \<times> nat) list \<Rightarrow> bool" where
  "separated [] = True"
| "separated [(s, e)] = (s < e)"
| "separated ((s, e) # (s', e') # rs) = (s < e \<and> e < s' \<and> separated ((s', e') # rs))"

lemma separated_snoc:
  "separated (rs @ [(s, e)]) \<longleftrightarrow> separated rs \<and> s < e \<and> (rs \<noteq> [] \<longrightarrow> snd (last rs) < s)"
  by (induction rs rule: separated.induct) auto

lemma separated_append:
  "separated (rs @ (s, e) # ts) \<Longrightarrow> separated (rs @ [(s, e)]) \<and> separated ((s, e) # ts)"
proof (induction rs rule: separated.induct)
  case 1
  then show ?case by (cases ts) auto
next
  case (2 a b)
  then show ?case by (cases ts) auto
qed auto

lemma separated_order:
  assumes "separated ((s, e) # ts)" and "(s', e') \<in> set ts"
  shows "e < s' \<and> s' < e'"
  using assms
proof (induction ts arbitrary: s e)
  case (Cons t ts)
  obtain a b where t: "t = (a, b)" by (cases t)
  from Cons.prems t have "e < a" "separated ((a, b) # ts)" by auto
  moreover from this(2) have "a < b" by (cases ts) auto
  ultimately show ?case using Cons.IH[of a b] Cons.prems(2) t by auto
qed simp

lemma separated_member: "separated rs \<Longrightarrow> (s, e) \<in> set rs \<Longrightarrow> s < e"
  by (induction rs rule: separated.induct) auto

lemma separated_last:
  assumes "separated rs" "(s, e) \<in> set rs"
  shows "(s, e) = last rs \<or> e < fst (last rs)"
proof -
  from assms(2) obtain xs ts where rs: "rs = xs @ (s, e) # ts" by (meson split_list)
  show ?thesis
  proof (cases ts rule: rev_cases)
    case Nil
    then show ?thesis using rs by simp
  next
    case (snoc us l)
    obtain a b where l: "l = (a, b)" by (cases l)
    have "separated ((s, e) # ts)" using assms(1) rs separated_append by blast
    from separated_order[OF this, of a b] snoc l rs show ?thesis by simp
  qed
qed

lemma separated_butlast: "separated rs \<Longrightarrow> rs \<noteq> [] \<Longrightarrow>
  separated (butlast rs) \<and> fst (last rs) < snd (last rs)
  \<and> (butlast rs \<noteq> [] \<longrightarrow> snd (last (butlast rs)) < fst (last rs))"
  by (cases rs rule: rev_cases) (auto simp: separated_snoc)

lemma separated_push: "separated rs \<Longrightarrow> ps < pe \<Longrightarrow> separated (push_span rs (ps, pe))"
  using separated_butlast[of rs]
  by (auto simp: push_span_def separated_snoc less_max_iff_disj)

lemma push_span_nonempty [simp]: "push_span rs x \<noteq> []"
  by (auto simp: push_span_def split: prod.splits)

lemma snd_last_push: "snd (last (push_span rs (ps, pe))) =
  (if rs \<noteq> [] \<and> ps \<le> snd (last rs) then max (snd (last rs)) pe else pe)"
  by (simp add: push_span_def)

text \<open>Growing the end of the last region, as \<open>regions[i].1 = regions[i].1.max(x)\<close> does.\<close>

definition grow_last :: "(nat \<times> nat) list \<Rightarrow> nat \<Rightarrow> (nat \<times> nat) list" where
  "grow_last rs x = butlast rs @ [(fst (last rs), max (snd (last rs)) x)]"

lemma push_span_grow: "pe \<le> x \<Longrightarrow> grow_last (push_span rs (ps, pe)) x = push_span rs (ps, x)"
  by (auto simp: push_span_def grow_last_def max_def)

lemma push_span_cases:
  "push_span rs (ps, pe) = (if rs \<noteq> [] \<and> ps \<le> snd (last rs) then grow_last rs pe else rs @ [(ps, pe)])"
  by (simp add: push_span_def grow_last_def)

lemma grow_last_simps [simp]:
  "grow_last rs x \<noteq> []" "fst (last (grow_last rs x)) = fst (last rs)"
  "snd (last (grow_last rs x)) = max (snd (last rs)) x" "butlast (grow_last rs x) = butlast rs"
  by (simp_all add: grow_last_def)

lemma list_update_last:
  "rs \<noteq> [] \<Longrightarrow> rs[length rs - 1 := (fst (rs ! (length rs - 1)), max (snd (rs ! (length rs - 1))) x)] = grow_last rs x"
  by (cases rs rule: rev_cases) (simp_all add: grow_last_def)

lemmas list_update_last_Suc = list_update_last[unfolded One_nat_def]

lemma separated_grow: "separated rs \<Longrightarrow> rs \<noteq> [] \<Longrightarrow> separated (grow_last rs x)"
  using separated_butlast[of rs] by (auto simp: grow_last_def separated_snoc less_max_iff_disj)

lemma scan_runs_snoc:
  "scan_runs thr fs (ps @ [p]) i run acc =
     (case scan_runs thr fs ps i run acc of (acc', run') \<Rightarrow>
        scan_runs thr fs [p] (i + length ps) run' acc')"
proof (induction ps arbitrary: i run acc)
  case Nil
  then show ?case by simp
next
  case (Cons q ps)
  show ?case by (simp add: Let_def Cons.IH split: option.split)
qed

end
