(* ===== verification/Vad_Segmenter.thy ===== *)
theory Vad_Segmenter
  imports Vad_Regions
begin

text \<open>
  The streaming half of the voice activity detection: \<open>VadSegmenter\<close> of
  \<open>vad/segmenter.rs\<close>. Samples go in block by block; kept audio comes out as soon as a bounded
  look-ahead has decided it. The main lemma is the claim its documentation makes: the regions
  and the samples are those of the batch path, whatever the block sizes.
\<close>

section \<open>State and operations\<close>

record 'st segmenter =
  seg_threshold :: float_val
  min_silence :: nat
  min_speech :: nat
  pad :: nat
  vstate :: 'st
  raw :: pcm
  raw_start :: nat
  pos :: nat
  in_run :: bool
  merged :: "(nat \<times> nat) option"
  open_idx :: "nat option"
  regions :: "(nat \<times> nat) list"
  out_idx :: nat
  copied_to :: nat

definition segmenter_new :: "vad_config \<Rightarrow> 'st \<Rightarrow> 'st segmenter" where
  "segmenter_new cfg st0 =
     \<lparr>seg_threshold = threshold cfg,
      min_silence = ms_to_samples (min_silence_ms cfg),
      min_speech = ms_to_samples (min_speech_ms cfg),
      pad = ms_to_samples (speech_pad_ms cfg),
      vstate = st0, raw = [], raw_start = 0, pos = 0, in_run = False, merged = None,
      open_idx = None, regions = [], out_idx = 0, copied_to = 0\<rparr>"

definition grow_region :: "nat \<Rightarrow> nat \<Rightarrow> 'st segmenter \<Rightarrow> 'st segmenter" where
  "grow_region i x g =
     g\<lparr>regions := (regions g)[i := (fst (regions g ! i), max (snd (regions g ! i)) x)]\<rparr>"

definition push_padded :: "nat \<Rightarrow> nat \<Rightarrow> 'st segmenter \<Rightarrow> 'st segmenter \<times> nat" where
  "push_padded ps pe g =
     (let rs = push_span (regions g) (ps, pe) in (g\<lparr>regions := rs\<rparr>, length rs - 1))"

definition finalize :: "nat \<Rightarrow> nat \<Rightarrow> 'st segmenter \<Rightarrow> 'st segmenter" where
  "finalize ms me g =
     (let g1 = g\<lparr>open_idx := None\<rparr> in
      if me - ms < min_speech g then g1
      else let pe = me + pad g in
           case open_idx g of
             Some i \<Rightarrow> grow_region i pe g1
           | None \<Rightarrow> fst (push_padded (ms - pad g) pe g1))"

definition enter_run :: "'st segmenter \<Rightarrow> 'st segmenter" where
  "enter_run g =
     (if in_run g then g
      else
        let g1 = (case merged g of
                    Some (ms, me) \<Rightarrow>
                      if pos g - me < min_silence g then g else (finalize ms me g)\<lparr>merged := None\<rparr>
                  | None \<Rightarrow> g);
            g2 = (if merged g1 = None then g1\<lparr>merged := Some (pos g, pos g)\<rparr> else g1)
        in g2\<lparr>in_run := True\<rparr>)"

definition extend_open :: "nat \<Rightarrow> 'st segmenter \<Rightarrow> 'st segmenter" where
  "extend_open fin g =
     (case merged g of
        None \<Rightarrow> g
      | Some (ms, _) \<Rightarrow>
          let g1 = g\<lparr>merged := Some (ms, fin)\<rparr> in
          case open_idx g1 of
            Some i \<Rightarrow> grow_region i fin g1
          | None \<Rightarrow>
              if min_speech g1 \<le> fin - ms
              then (case push_padded (ms - pad g1) fin g1 of (g2, i) \<Rightarrow> g2\<lparr>open_idx := Some i\<rparr>)
              else g1)"

definition seg_step :: "float_val \<Rightarrow> nat \<Rightarrow> 'st segmenter \<Rightarrow> 'st segmenter" where
  "seg_step prob fin g =
     (if float_ge prob (seg_threshold g) then (extend_open fin (enter_run g))\<lparr>pos := fin\<rparr>
      else
        let g1 = g\<lparr>in_run := False\<rparr>;
            g2 = (case merged g1 of
                    Some (ms, me) \<Rightarrow>
                      if min_silence g1 \<le> fin - me then (finalize ms me g1)\<lparr>merged := None\<rparr> else g1
                  | None \<Rightarrow> g1)
        in g2\<lparr>pos := fin\<rparr>)"

definition decided_to :: "'st segmenter \<Rightarrow> nat" where
  "decided_to g =
     (let base = (if regions g = [] then 0 else snd (last (regions g)));
          bound = (case merged g of
                     Some (ms, _) \<Rightarrow> if open_idx g \<noteq> None then base else max base (ms - pad g)
                   | None \<Rightarrow> max base (pos g - pad g))
      in min bound (pos g))"

text \<open>
  The release loop. The slice of the retained samples panics when it starts below
  \<open>raw_start\<close> or ends beyond the retained samples.
\<close>

function flush_loop :: "nat \<Rightarrow> 'st segmenter \<Rightarrow> pcm \<Rightarrow> string fault + ('st segmenter \<times> pcm)" where
  "flush_loop decided g out =
     (if length (regions g) \<le> out_idx g then Inr (g, out)
      else
        let s = fst (regions g ! out_idx g); e = snd (regions g ! out_idx g);
            frm = max (copied_to g) s; to = min e decided
        in if frm < to \<and> (frm < raw_start g \<or> length (raw g) < to - raw_start g) then Inl Panic
           else
             let out' = (if frm < to then out @ subslice (raw g) (frm - raw_start g) (to - raw_start g) else out);
                 g' = (if frm < to then g\<lparr>copied_to := to\<rparr> else g)
             in if Suc (out_idx g) < length (regions g)
                then flush_loop decided (g'\<lparr>out_idx := Suc (out_idx g)\<rparr>) out'
                else Inr (g', out'))"
  by pat_completeness auto
termination
  by (relation "measure (\<lambda>(d, g, out). length (regions g) - out_idx g)") (auto split: if_splits)

declare flush_loop.simps [simp del]

definition seg_flush :: "'st segmenter \<Rightarrow> pcm \<Rightarrow> string fault + ('st segmenter \<times> pcm)" where
  "seg_flush g out = flush_loop (min (decided_to g) (raw_start g + length (raw g))) g out"

definition seg_trim :: "'st segmenter \<Rightarrow> 'st segmenter" where
  "seg_trim g =
     (let decided = decided_to g;
          keep_from = (case merged g of
                         Some (ms, _) \<Rightarrow> if open_idx g = None then min decided (ms - pad g) else decided
                       | None \<Rightarrow> decided);
          d = min (keep_from - raw_start g) (length (raw g))
      in if 0 < d then g\<lparr>raw := drop d (raw g), raw_start := raw_start g + d\<rparr> else g)"

lemma pos_seg_step [simp]: "pos (seg_step p fin g) = fin"
  by (simp add: seg_step_def Let_def)

lemma raw_grow [simp]: "raw (grow_region i x g) = raw g" "raw_start (grow_region i x g) = raw_start g"
  by (simp_all add: grow_region_def)

lemma raw_finalize [simp]: "raw (finalize ms me g) = raw g" "raw_start (finalize ms me g) = raw_start g"
  by (simp_all add: finalize_def Let_def push_padded_def split: option.split)

lemma raw_enter [simp]: "raw (enter_run g) = raw g" "raw_start (enter_run g) = raw_start g"
  by (simp_all add: enter_run_def Let_def split: option.split prod.split)

lemma raw_extend [simp]: "raw (extend_open fin g) = raw g" "raw_start (extend_open fin g) = raw_start g"
  by (simp_all add: extend_open_def Let_def push_padded_def split: option.split prod.split)

lemma raw_seg_step [simp]: "raw (seg_step p fin g) = raw g" "raw_start (seg_step p fin g) = raw_start g"
  by (simp_all add: seg_step_def Let_def split: option.split prod.split)

text \<open>The scoring loop of \<open>push_with\<close>: whole frames only.\<close>

function push_frames :: "'st scorer \<Rightarrow> 'st segmenter \<Rightarrow> string fault + 'st segmenter" where
  "push_frames score g =
     (let avail = raw_start g + length (raw g) in
      if pos g + VAD_FRAME_SAMPLES \<le> avail then
        if pos g < raw_start g then Inl Panic
        else
          let off = pos g - raw_start g in
          case score (subslice (raw g) off (off + VAD_FRAME_SAMPLES)) (vstate g) of
            Inl e \<Rightarrow> Inl (Err e)
          | Inr (prob, st') \<Rightarrow>
              push_frames score (seg_step prob (pos g + VAD_FRAME_SAMPLES) (g\<lparr>vstate := st'\<rparr>))
      else Inr g)"
  by pat_completeness auto
termination
  by (relation "measure (\<lambda>(score, g). raw_start g + length (raw g) - pos g)") auto

declare push_frames.simps [simp del]

definition push_with :: "'st scorer \<Rightarrow> pcm \<Rightarrow> 'st segmenter \<Rightarrow> pcm \<Rightarrow> string fault + ('st segmenter \<times> pcm)" where
  "push_with score samples g out =
     (case push_frames score (g\<lparr>raw := raw g @ samples\<rparr>) of
        Inl e \<Rightarrow> Inl e
      | Inr g1 \<Rightarrow>
          (case seg_flush g1 out of
             Inl e \<Rightarrow> Inl e
           | Inr (g2, out') \<Rightarrow> Inr (seg_trim g2, out')))"

text \<open>The scoring loop of \<open>finish_with\<close>: the trailing partial frame too.\<close>

function finish_frames :: "'st scorer \<Rightarrow> nat \<Rightarrow> 'st segmenter \<Rightarrow> string fault + 'st segmenter" where
  "finish_frames score tot g =
     (if pos g < tot then
        if pos g < raw_start g \<or> length (raw g) < pos g - raw_start g then Inl Panic
        else
          let off = pos g - raw_start g; fin = min (off + VAD_FRAME_SAMPLES) (length (raw g)) in
          case score (subslice (raw g) off fin) (vstate g) of
            Inl e \<Rightarrow> Inl (Err e)
          | Inr (prob, st') \<Rightarrow>
              finish_frames score tot (seg_step prob (min (pos g + VAD_FRAME_SAMPLES) tot) (g\<lparr>vstate := st'\<rparr>))
      else Inr g)"
  by pat_completeness auto
termination
  by (relation "measure (\<lambda>(score, tot, g). tot - pos g)") auto

declare finish_frames.simps [simp del]

definition seg_close :: "nat \<Rightarrow> 'st segmenter \<Rightarrow> 'st segmenter" where
  "seg_close tot g =
     (let g1 = (case merged g of
                  Some (ms, me) \<Rightarrow> if in_run g then g\<lparr>merged := Some (ms, tot), in_run := False\<rparr> else g
                | None \<Rightarrow> g);
          g2 = (case merged g1 of
                  Some (ms, me) \<Rightarrow> finalize ms me (g1\<lparr>merged := None\<rparr>)
                | None \<Rightarrow> g1)
      in g2\<lparr>regions := map (\<lambda>(s, e). (s, min e tot)) (regions g2), pos := max (pos g2) tot\<rparr>)"

definition finish_with :: "'st scorer \<Rightarrow> nat \<Rightarrow> 'st segmenter \<Rightarrow> pcm \<Rightarrow> string fault + ('st segmenter \<times> pcm)" where
  "finish_with score tot g out =
     (case finish_frames score tot g of
        Inl e \<Rightarrow> Inl e
      | Inr g1 \<Rightarrow> seg_flush (seg_close tot g1) out)"

section \<open>Decisions: streaming against batch\<close>

text \<open>
  The padded spans of the merged regions \<open>mg\<close>: passes 3 and 4 of \<open>regions_from_probs\<close>
  without the clamp to the signal length, which the segmenter applies only at the end.
\<close>

definition padded :: "nat \<Rightarrow> nat \<Rightarrow> (nat \<times> nat) list \<Rightarrow> (nat \<times> nat) list" where
  "padded msp pd mg = foldl (\<lambda>rs (s, e). push_span rs (s - pd, e + pd)) [] (filter (\<lambda>(s, e). msp \<le> e - s) mg)"

lemma padded_Nil [simp]: "padded msp pd [] = []"
  by (simp add: padded_def)

lemma padded_snoc: "padded msp pd (mg @ [(s, e)]) =
  (if msp \<le> e - s then push_span (padded msp pd mg) (s - pd, e + pd) else padded msp pd mg)"
  by (simp add: padded_def)

lemma merge_run_last:
  assumes "merge_run ms mg (s, e) = F @ [m]"
  shows "snd m = e \<and> (\<forall>e'. merge_run ms mg (s, e') = F @ [(fst m, e')])"
  using assms by (auto simp: merge_run_def split: if_splits)

text \<open>
  The regions of a segmenter whose closed merged regions are \<open>F\<close>: an open region shows up as
  soon as it is long enough to be kept.
\<close>

definition seg_shape :: "'st segmenter \<Rightarrow> (nat \<times> nat) list \<Rightarrow> bool" where
  "seg_shape g F \<longleftrightarrow>
     (case merged g of
        None \<Rightarrow> regions g = padded (min_speech g) (pad g) F \<and> open_idx g = None
      | Some (a, b) \<Rightarrow>
          a < b \<and> b \<le> pos g \<and>
          (if min_speech g \<le> b - a
           then regions g = push_span (padded (min_speech g) (pad g) F) (a - pad g, b)
                \<and> open_idx g = Some (length (regions g) - 1)
           else regions g = padded (min_speech g) (pad g) F \<and> open_idx g = None))"

text \<open>
  The decision invariant: after the frames \<open>ps\<close>, of which all but perhaps the last are full,
  the segmenter holds what the batch passes computed from them.
\<close>

definition dec_inv :: "'st segmenter \<Rightarrow> (nat \<times> nat) list \<Rightarrow> nat option \<Rightarrow> (nat \<times> nat) list \<Rightarrow> bool" where
  "dec_inv g mg run F \<longleftrightarrow>
     seg_shape g F \<and>
     (case run of
        Some s \<Rightarrow> in_run g \<and> s < pos g
          \<and> (\<exists>m. merged g = Some m \<and> merge_run (min_silence g) mg (s, pos g) = F @ [m])
      | None \<Rightarrow> \<not> in_run g \<and>
          (case merged g of
             None \<Rightarrow> F = mg \<and> (mg \<noteq> [] \<longrightarrow> min_silence g \<le> pos g - snd (last mg))
           | Some m \<Rightarrow> mg = F @ [m] \<and> pos g - snd m < min_silence g))"

lemma seg_shape_open:
  assumes "seg_shape g F" and "merged g = Some (a, b)"
  shows "a < b" and "b \<le> pos g"
    and "min_speech g \<le> b - a \<Longrightarrow> regions g = push_span (padded (min_speech g) (pad g) F) (a - pad g, b)"
    and "min_speech g \<le> b - a \<Longrightarrow> open_idx g = Some (length (regions g) - 1)"
    and "\<not> min_speech g \<le> b - a \<Longrightarrow> regions g = padded (min_speech g) (pad g) F"
    and "\<not> min_speech g \<le> b - a \<Longrightarrow> open_idx g = None"
proof -
  note s = assms(1)[unfolded seg_shape_def assms(2) option.case prod.case]
  from s show "a < b" by blast
  from s show "b \<le> pos g" by blast
  from s show "min_speech g \<le> b - a \<Longrightarrow> regions g = push_span (padded (min_speech g) (pad g) F) (a - pad g, b)"
    by presburger
  from s show "min_speech g \<le> b - a \<Longrightarrow> open_idx g = Some (length (regions g) - 1)" by presburger
  from s show "\<not> min_speech g \<le> b - a \<Longrightarrow> regions g = padded (min_speech g) (pad g) F" by presburger
  from s show "\<not> min_speech g \<le> b - a \<Longrightarrow> open_idx g = None" by presburger
qed

lemma finalize_shape:
  assumes "seg_shape g F" and "merged g = Some (a, b)"
  shows "regions (finalize a b g) = padded (min_speech g) (pad g) (F @ [(a, b)])"
    and "open_idx (finalize a b g) = None"
proof -
  show "regions (finalize a b g) = padded (min_speech g) (pad g) (F @ [(a, b)])"
  proof (cases "min_speech g \<le> b - a")
    case True
    note r = seg_shape_open(3)[OF assms True] and o = seg_shape_open(4)[OF assms True]
    from r have "regions g \<noteq> []" by simp
    from list_update_last[OF this, of "b + pad g"] show ?thesis
      using True r o by (simp add: finalize_def grow_region_def padded_snoc push_span_grow)
  next
    case False
    then show ?thesis using assms by (simp add: finalize_def seg_shape_def padded_snoc)
  qed
  show "open_idx (finalize a b g) = None"
    by (auto simp: finalize_def Let_def grow_region_def push_padded_def split: option.split)
qed

lemma finalize_keeps [simp]:
  "min_speech (finalize a b g) = min_speech g" "min_silence (finalize a b g) = min_silence g"
  "pad (finalize a b g) = pad g" "pos (finalize a b g) = pos g" "in_run (finalize a b g) = in_run g"
  "seg_threshold (finalize a b g) = seg_threshold g" "vstate (finalize a b g) = vstate g"
  "merged (finalize a b g) = merged g" "out_idx (finalize a b g) = out_idx g"
  "copied_to (finalize a b g) = copied_to g"
  by (simp_all add: finalize_def Let_def grow_region_def push_padded_def split: option.split)

lemma extend_open_keeps [simp]:
  "min_speech (extend_open x g) = min_speech g" "min_silence (extend_open x g) = min_silence g"
  "pad (extend_open x g) = pad g" "pos (extend_open x g) = pos g" "in_run (extend_open x g) = in_run g"
  "seg_threshold (extend_open x g) = seg_threshold g" "vstate (extend_open x g) = vstate g"
  "out_idx (extend_open x g) = out_idx g" "copied_to (extend_open x g) = copied_to g"
  by (simp_all add: extend_open_def Let_def grow_region_def push_padded_def split: option.split prod.split)

lemma extend_open_shape:
  assumes m: "merged g = Some (a, b)" and b: "b \<le> fin" "a < fin" "pos g \<le> fin"
    and s: "if min_speech g \<le> b - a \<and> open_idx g \<noteq> None
            then regions g = push_span (padded (min_speech g) (pad g) F) (a - pad g, b)
                 \<and> open_idx g = Some (length (regions g) - 1)
            else regions g = padded (min_speech g) (pad g) F \<and> open_idx g = None"
  shows "seg_shape ((extend_open fin g)\<lparr>pos := fin\<rparr>) F" and "merged (extend_open fin g) = Some (a, fin)"
proof -
  show "seg_shape ((extend_open fin g)\<lparr>pos := fin\<rparr>) F"
  proof (cases "min_speech g \<le> b - a \<and> open_idx g \<noteq> None")
    case True
    from s[unfolded if_P[OF True]]
    have r: "regions g = push_span (padded (min_speech g) (pad g) F) (a - pad g, b)"
      and o: "open_idx g = Some (length (regions g) - 1)" by blast+
    from r have ne: "regions g \<noteq> []" by simp
    have gl: "grow_last (regions g) fin = push_span (padded (min_speech g) (pad g) F) (a - pad g, fin)"
      unfolding r by (rule push_span_grow[OF b(1)])
    note up = list_update_last[OF ne, of fin, unfolded gl]
    moreover have "length (push_span (padded (min_speech g) (pad g) F) (a - pad g, fin)) = length (regions g)"
      unfolding up[symmetric] by (rule length_list_update)
    moreover have "min_speech g \<le> fin - a" using True b by linarith
    ultimately show ?thesis using m b o
      by (simp add: extend_open_def seg_shape_def grow_region_def)
  next
    case False
    from s[unfolded if_not_P[OF False]]
    have "regions g = padded (min_speech g) (pad g) F" "open_idx g = None" by blast+
    then show ?thesis using m b
      by (simp add: extend_open_def seg_shape_def push_padded_def Let_def)
  qed
  show "merged (extend_open fin g) = Some (a, fin)"
    using m by (simp add: extend_open_def Let_def grow_region_def push_padded_def split: option.split prod.split)
qed

lemma enter_run_start:
  assumes "dec_inv g mg None F"
  shows "case merged (enter_run g) of
     None \<Rightarrow> False
   | Some (a, b) \<Rightarrow> a \<le> b \<and> b \<le> pos g \<and> a \<le> pos g
       \<and> merge_run (min_silence g) mg (pos g, x) = F @ [(a, x)]
       \<and> (if min_speech g \<le> b - a \<and> open_idx (enter_run g) \<noteq> None
          then regions (enter_run g) = push_span (padded (min_speech g) (pad g) F) (a - pad g, b)
               \<and> open_idx (enter_run g) = Some (length (regions (enter_run g)) - 1)
          else regions (enter_run g) = padded (min_speech g) (pad g) F \<and> open_idx (enter_run g) = None)"
proof (cases "merged g")
  case None
  then show ?thesis using assms
    by (auto simp: dec_inv_def seg_shape_def enter_run_def Let_def merge_run_def)
next
  case (Some m)
  obtain a b where m: "m = (a, b)" by (cases m)
  have sh: "seg_shape g F" and rest: "\<not> in_run g" "mg = F @ [(a, b)]" "pos g - b < min_silence g"
    using assms Some m by (simp_all add: dec_inv_def)
  have e: "enter_run g = g\<lparr>in_run := True\<rparr>"
    using Some m rest by (simp add: enter_run_def Let_def)
  note mg = Some[unfolded m]
  note ab = seg_shape_open(1,2)[OF sh mg]
  have mr: "merge_run (min_silence g) mg (pos g, x) = F @ [(a, x)]"
    using rest by (simp add: merge_run_def)
  show ?thesis
  proof (cases "min_speech g \<le> b - a")
    case True
    note r = seg_shape_open(3)[OF sh mg True] and o = seg_shape_open(4)[OF sh mg True]
    have eq: "merged (g\<lparr>in_run := True\<rparr>) = Some (a, b)" "regions (g\<lparr>in_run := True\<rparr>) = regions g"
      "open_idx (g\<lparr>in_run := True\<rparr>) = open_idx g" using mg by simp_all
    have "open_idx g \<noteq> None" using o by blast
    then show ?thesis unfolding e eq option.case prod.case using ab mr True r o by simp
  next
    case False
    then show ?thesis unfolding e using mg ab mr seg_shape_open(5,6)[OF sh mg False] by simp
  qed
qed

lemma enter_run_keeps [simp]:
  "min_speech (enter_run g) = min_speech g" "min_silence (enter_run g) = min_silence g"
  "pad (enter_run g) = pad g" "pos (enter_run g) = pos g" "in_run (enter_run g)"
  "seg_threshold (enter_run g) = seg_threshold g" "vstate (enter_run g) = vstate g"
  "out_idx (enter_run g) = out_idx g" "copied_to (enter_run g) = copied_to g"
  by (simp_all add: enter_run_def Let_def split: option.split prod.split)

lemma seg_step_keeps [simp]:
  "min_speech (seg_step p x g) = min_speech g" "min_silence (seg_step p x g) = min_silence g"
  "pad (seg_step p x g) = pad g" "seg_threshold (seg_step p x g) = seg_threshold g"
  "vstate (seg_step p x g) = vstate g" "out_idx (seg_step p x g) = out_idx g"
  "copied_to (seg_step p x g) = copied_to g"
  by (simp_all add: seg_step_def Let_def split: option.split prod.split)

lemma seg_shape_cong:
  "min_speech h = min_speech g \<Longrightarrow> pad h = pad g \<Longrightarrow> merged h = merged g \<Longrightarrow> regions h = regions g
   \<Longrightarrow> open_idx h = open_idx g \<Longrightarrow> pos g \<le> pos h \<Longrightarrow> seg_shape g F \<Longrightarrow> seg_shape h F"
  by (auto simp: seg_shape_def split: option.splits)

text \<open>What one more frame does to the batch state: the merged runs and the open run.\<close>

definition batch_step :: "nat \<Rightarrow> bool \<Rightarrow> nat \<Rightarrow> (nat \<times> nat) list \<times> nat option \<Rightarrow> (nat \<times> nat) list \<times> nat option" where
  "batch_step msil speech p = (\<lambda>(mg, run).
     if speech then (mg, if run = None then Some p else run)
     else (case run of Some s \<Rightarrow> merge_run msil mg (s, p) | None \<Rightarrow> mg, None))"

lemma dec_inv_speech_new:
  assumes inv: "dec_inv g mg None F" and p: "float_ge p (seg_threshold g)" and fin: "pos g < fin"
  shows "dec_inv (seg_step p fin g) mg (Some (pos g)) F"
proof -
  note e = enter_run_start[OF inv, of fin]
  then obtain a b where m: "merged (enter_run g) = Some (a, b)" by (auto split: option.splits)
  note e = e[unfolded m option.case prod.case]
  from e have ab: "b \<le> pos g" "a \<le> pos g" and mr: "merge_run (min_silence g) mg (pos g, fin) = F @ [(a, fin)]"
    by blast+
  have bounds: "b \<le> fin" "a < fin" "pos (enter_run g) \<le> fin" using ab fin by simp_all
  have cond: "if min_speech (enter_run g) \<le> b - a \<and> open_idx (enter_run g) \<noteq> None
     then regions (enter_run g) = push_span (padded (min_speech (enter_run g)) (pad (enter_run g)) F) (a - pad (enter_run g), b)
       \<and> open_idx (enter_run g) = Some (length (regions (enter_run g)) - 1)
     else regions (enter_run g) = padded (min_speech (enter_run g)) (pad (enter_run g)) F \<and> open_idx (enter_run g) = None"
    unfolding enter_run_keeps using e by blast
  note x = extend_open_shape[OF m bounds cond]
  show ?thesis using p mr fin x by (simp add: dec_inv_def seg_step_def)
qed

lemma dec_inv_speech_more:
  assumes inv: "dec_inv g mg (Some s) F" and p: "float_ge p (seg_threshold g)" and fin: "pos g < fin"
  shows "dec_inv (seg_step p fin g) mg (Some s) F"
proof -
  from inv obtain a b where m: "merged g = Some (a, b)" and ir: "in_run g" and s: "s < pos g"
    and mr: "merge_run (min_silence g) mg (s, pos g) = F @ [(a, b)]" and sh: "seg_shape g F"
    by (auto simp: dec_inv_def)
  have e: "enter_run g = g" using ir by (simp add: enter_run_def)
  have b: "b = pos g" "merge_run (min_silence g) mg (s, fin) = F @ [(a, fin)]"
    using merge_run_last[OF mr] by auto
  note ab = seg_shape_open(1,2)[OF sh m]
  have cond: "if min_speech g \<le> b - a \<and> open_idx g \<noteq> None
            then regions g = push_span (padded (min_speech g) (pad g) F) (a - pad g, b)
                 \<and> open_idx g = Some (length (regions g) - 1)
            else regions g = padded (min_speech g) (pad g) F \<and> open_idx g = None"
  proof (cases "min_speech g \<le> b - a")
    case True
    note r = seg_shape_open(3)[OF sh m True] and o = seg_shape_open(4)[OF sh m True]
    have "open_idx g \<noteq> None" using o by blast
    then show ?thesis using True r o by presburger
  next
    case False
    then show ?thesis using seg_shape_open(5,6)[OF sh m False] by presburger
  qed
  have "b \<le> fin" "a < fin" "pos g \<le> fin" using ab fin by linarith+
  from extend_open_shape[OF m this cond]
  show ?thesis using p b fin s ir by (simp add: dec_inv_def seg_step_def e)
qed

lemma dec_inv_silence:
  assumes inv: "dec_inv g mg run F" and p: "\<not> float_ge p (seg_threshold g)" and fin: "pos g < fin"
  shows "\<exists>F'. dec_inv (seg_step p fin g) (fst (batch_step (min_silence g) False (pos g) (mg, run))) None F'"
proof (cases "merged g")
  case None
  have run: "run = None" using inv None by (cases run) (simp_all add: dec_inv_def)
  have sh: "seg_shape g F" using inv by (simp add: dec_inv_def)
  have "seg_shape (seg_step p fin g) F"
    by (rule seg_shape_cong[OF _ _ _ _ _ _ sh]) (use p None fin in \<open>simp_all add: seg_step_def\<close>)
  then show ?thesis using inv None p fin run
    by (auto simp: dec_inv_def seg_step_def batch_step_def)
next
  case (Some m)
  obtain a b where m: "m = (a, b)" by (cases m)
  have sh: "seg_shape g F" using inv by (simp add: dec_inv_def)
  have mg': "fst (batch_step (min_silence g) False (pos g) (mg, run)) = F @ [(a, b)]"
    using inv Some m by (auto simp: dec_inv_def batch_step_def split: option.splits)
  let ?g = "g\<lparr>in_run := False\<rparr>"
  have sh': "seg_shape ?g F" by (rule seg_shape_cong[OF _ _ _ _ _ _ sh]) simp_all
  show ?thesis
  proof (cases "min_silence g \<le> fin - b")
    case True
    note f = finalize_shape[OF sh', of a b]
    have "dec_inv (seg_step p fin g) (F @ [(a, b)]) None (F @ [(a, b)])"
      using p Some m True f by (simp add: seg_step_def dec_inv_def seg_shape_def)
    then show ?thesis using mg' by metis
  next
    case False
    have e: "seg_step p fin g = ?g\<lparr>pos := fin\<rparr>" using p Some m False by (simp add: seg_step_def)
    have "seg_shape (seg_step p fin g) F" unfolding e
      by (rule seg_shape_cong[OF _ _ _ _ _ _ sh]) (use fin in simp_all)
    then have "dec_inv (seg_step p fin g) (F @ [(a, b)]) None F"
      using e Some m False by (simp add: dec_inv_def)
    then show ?thesis using mg' by metis
  qed
qed

lemma dec_inv_step:
  assumes "dec_inv g mg run F" and "pos g < fin"
  shows "\<exists>F'. (case batch_step (min_silence g) (float_ge p (seg_threshold g)) (pos g) (mg, run) of
     (mg', run') \<Rightarrow> dec_inv (seg_step p fin g) mg' run' F')"
proof (cases "float_ge p (seg_threshold g)")
  case True
  then show ?thesis
    using dec_inv_speech_new[of g mg F p fin] dec_inv_speech_more[of g mg "the run" F p fin] assms
    by (cases run) (simp_all add: batch_step_def, blast+)
next
  case False
  then show ?thesis using dec_inv_silence[OF assms(1) False assms(2)]
    by (simp add: batch_step_def)
qed

lemma dec_inv_new: "dec_inv (segmenter_new cfg st0) [] None []"
  by (simp add: dec_inv_def seg_shape_def segmenter_new_def)

lemma seg_close_regions:
  assumes inv: "dec_inv g mg run F" and tot: "pos g = tot"
  shows "regions (seg_close tot g) = map (\<lambda>(s, e). (s, min e tot))
           (padded (min_speech g) (pad g)
             (case run of Some s \<Rightarrow> merge_run (min_silence g) mg (s, tot) | None \<Rightarrow> mg))"
proof -
  have sh: "seg_shape g F" using inv by (simp add: dec_inv_def)
  show ?thesis
  proof (cases "merged g")
    case None
    then have "run = None" using inv by (cases run) (simp_all add: dec_inv_def)
    then show ?thesis using inv None sh by (simp add: seg_close_def dec_inv_def seg_shape_def)
  next
    case (Some m)
    obtain a b where m: "m = (a, b)" by (cases m)
    note mg = Some[unfolded m]
    have pick: "(case run of Some s \<Rightarrow> merge_run (min_silence g) mg (s, tot) | None \<Rightarrow> mg) = F @ [(a, b)]"
      using inv mg tot by (auto simp: dec_inv_def split: option.splits)
    have b: "in_run g \<Longrightarrow> b = tot"
      using inv mg tot merge_run_last by (fastforce simp: dec_inv_def split: option.splits)
    let ?h = "if in_run g then g\<lparr>merged := Some (a, tot), in_run := False\<rparr> else g"
    have sh': "seg_shape ?h F" by (rule seg_shape_cong[OF _ _ _ _ _ _ sh]) (use b mg in auto)
    have mh: "merged ?h = Some (a, b)" using b mg by simp
    have "regions (finalize a b (?h\<lparr>merged := None\<rparr>)) = regions (finalize a b ?h)"
      by (simp add: finalize_def Let_def grow_region_def push_padded_def split: option.split)
    then show ?thesis using finalize_shape(1)[OF sh' mh] mg mh pick
      by (simp add: seg_close_def Let_def)
  qed
qed

section \<open>Output: what has been copied\<close>

definition last_end :: "(nat \<times> nat) list \<Rightarrow> nat" where
  "last_end rs = (if rs = [] then 0 else snd (last rs))"

definition kept :: "nat \<Rightarrow> pcm \<Rightarrow> (nat \<times> nat) list \<Rightarrow> pcm" where
  "kept c xs rs = concat (map (\<lambda>(s, e). subslice xs s (min e c)) rs)"

text \<open>
  The regions \<open>rs\<close> with everything before \<open>c\<close> copied, over retained samples that start
  at \<open>r\<close>, the first \<open>k\<close> regions being released entirely.
\<close>

definition reg_inv :: "pcm \<Rightarrow> nat \<Rightarrow> nat \<Rightarrow> nat \<Rightarrow> (nat \<times> nat) list \<Rightarrow> pcm \<Rightarrow> bool" where
  "reg_inv xs c r k rs out \<longleftrightarrow>
     separated rs \<and> out = kept c xs rs \<and> c \<le> last_end rs \<and> k \<le> length rs - 1
     \<and> (\<forall>(s, e) \<in> set (take k rs). e \<le> c)
     \<and> (\<forall>(s, e) \<in> set rs. c < e \<longrightarrow> r \<le> max c s)"

lemma kept_append: "kept c xs (rs @ ts) = kept c xs rs @ kept c xs ts"
  by (simp add: kept_def)

lemma kept_Cons: "kept c xs ((s, e) # ts) = subslice xs s (min e c) @ kept c xs ts"
  by (simp add: kept_def)

lemma kept_Nil [simp]: "kept c xs [] = []"
  by (simp add: kept_def)

lemma kept_later: "\<forall>(s, e) \<in> set rs. c \<le> s \<Longrightarrow> kept c xs rs = []"
  by (induction rs) (auto simp: kept_Cons)

lemma kept_earlier: "\<forall>(s, e) \<in> set rs. e \<le> c \<Longrightarrow> c \<le> d \<Longrightarrow> kept d xs rs = kept c xs rs"
  by (induction rs) (auto simp: kept_Cons min_def)

lemma last_end_push: "last_end (push_span rs (ps, pe)) =
   (if rs \<noteq> [] \<and> ps \<le> snd (last rs) then max (snd (last rs)) pe else pe)"
  by (simp add: last_end_def snd_last_push)

lemma reg_inv_grow:
  assumes i: "reg_inv xs c r k rs out" and ne: "rs \<noteq> []" and r: "r \<le> last_end rs"
  shows "reg_inv xs c r k (grow_last rs x) out"
proof -
  from ne obtain us s e where rs: "rs = us @ [(s, e)]" by (metis prod.collapse rev_exhaust)
  have g: "grow_last rs x = us @ [(s, max e x)]" by (simp add: grow_last_def rs)
  have c: "c \<le> e" using i by (simp add: reg_inv_def rs last_end_def)
  then have "min (max e x) c = c" "min e c = c" by simp_all
  then have "kept c xs [(s, max e x)] = kept c xs [(s, e)]" by (simp add: kept_Cons)
  then show ?thesis unfolding g
    using i r c separated_grow[of rs x] g ne
    by (auto simp: reg_inv_def rs last_end_def kept_append le_max_iff_disj)
qed

lemma reg_inv_push:
  assumes i: "reg_inv xs c r k rs out" and pe: "ps < pe" and r: "r \<le> max ps (last_end rs)"
  shows "reg_inv xs c r k (push_span rs (ps, pe)) out"
proof (cases "rs \<noteq> [] \<and> ps \<le> snd (last rs)")
  case True
  then show ?thesis using reg_inv_grow[OF i, of pe] r
    by (simp add: push_span_cases last_end_def max_def split: if_splits)
next
  case False
  have le: "last_end rs \<le> ps" using False by (auto simp: last_end_def)
  moreover have "c \<le> last_end rs" using i by (simp add: reg_inv_def)
  ultimately have c: "c \<le> ps" by simp
  then have "kept c xs [(ps, pe)] = []" by (simp add: kept_Cons)
  with le show ?thesis using i pe r c False separated_push[of rs ps pe]
    by (auto simp: reg_inv_def push_span_cases last_end_def kept_append)
qed

lemma reg_inv_shrink:
  "reg_inv xs c r k rs out \<Longrightarrow> r' \<le> r \<Longrightarrow> reg_inv xs c r' k rs out"
  by (fastforce simp: reg_inv_def)

text \<open>Where the retained samples must still reach when a region is opened or grows.\<close>

definition free_from :: "'st segmenter \<Rightarrow> nat" where
  "free_from g =
     (case merged g of
        None \<Rightarrow> pos g - pad g
      | Some (ms, _) \<Rightarrow> if open_idx g = None then ms - pad g else 0)"

lemma free_from_cong:
  "merged h = merged g \<Longrightarrow> open_idx h = open_idx g \<Longrightarrow> pos h = pos g \<Longrightarrow> pad h = pad g \<Longrightarrow> free_from h = free_from g"
  by (simp add: free_from_def cong: option.case_cong if_cong)

definition out_inv :: "pcm \<Rightarrow> nat \<Rightarrow> 'st segmenter \<Rightarrow> pcm \<Rightarrow> bool" where
  "out_inv xs avail g out \<longleftrightarrow>
     avail \<le> length xs \<and> raw g = subslice xs (raw_start g) avail
     \<and> raw_start g \<le> pos g \<and> pos g \<le> avail \<and> copied_to g \<le> pos g
     \<and> reg_inv xs (copied_to g) (raw_start g) (out_idx g) (regions g) out
     \<and> (regions g \<noteq> [] \<longrightarrow> fst (last (regions g)) < pos g)
     \<and> raw_start g \<le> max (free_from g) (last_end (regions g))"

lemma seg_shape_open_idx:
  assumes "seg_shape g F" and "open_idx g = Some i"
  shows "i = length (regions g) - 1" and "regions g \<noteq> []" and "merged g \<noteq> None"
proof -
  from assms obtain a b where m: "merged g = Some (a, b)"
    by (cases "merged g") (auto simp: seg_shape_def)
  have l: "min_speech g \<le> b - a" using seg_shape_open(6)[OF assms(1) m] assms(2) by fastforce
  show "i = length (regions g) - 1" using seg_shape_open(4)[OF assms(1) m l] assms(2) by simp
  show "regions g \<noteq> []" using seg_shape_open(3)[OF assms(1) m l] by simp
  show "merged g \<noteq> None" using m by simp
qed

lemma grow_region_last:
  "regions g \<noteq> [] \<Longrightarrow> regions (grow_region (length (regions g) - 1) x g) = grow_last (regions g) x"
  by (simp add: grow_region_def list_update_last_Suc)

lemma fst_last_push: "fst (last (push_span rs (ps, pe))) = (if rs \<noteq> [] \<and> ps \<le> snd (last rs) then fst (last rs) else ps)"
  by (simp add: push_span_def)

lemma last_end_grow: "rs \<noteq> [] \<Longrightarrow> last_end (grow_last rs x) = max (last_end rs) x"
  by (simp add: last_end_def)

text \<open>The region half of the output invariant, before position \<open>p\<close>, with room down to \<open>f\<close>.\<close>

definition reg_ok :: "pcm \<Rightarrow> nat \<Rightarrow> nat \<Rightarrow> nat \<Rightarrow> (nat \<times> nat) list \<Rightarrow> pcm \<Rightarrow> nat \<Rightarrow> nat \<Rightarrow> bool" where
  "reg_ok xs c r k rs out p f \<longleftrightarrow>
     reg_inv xs c r k rs out \<and> (rs \<noteq> [] \<longrightarrow> fst (last rs) < p) \<and> r \<le> max f (last_end rs)"

lemma reg_ok_push:
  assumes "reg_ok xs c r k rs out p f" "f \<le> ps" "ps < pe" "ps < q" "p \<le> q" "r \<le> pe"
  shows "reg_ok xs c r k (push_span rs (ps, pe)) out q f'"
proof -
  have r: "r \<le> max ps (last_end rs)" using assms(1,2) by (auto simp: reg_ok_def)
  from reg_inv_push[OF _ assms(3) r] assms show ?thesis
    by (auto simp: reg_ok_def fst_last_push last_end_push)
qed

lemma reg_ok_grow:
  assumes "reg_ok xs c r k rs out p 0" "rs \<noteq> []" "p \<le> q"
  shows "reg_ok xs c r k (grow_last rs x) out q f'"
proof -
  have r: "r \<le> last_end rs" using assms(1) by (simp add: reg_ok_def)
  from reg_inv_grow[OF _ assms(2) r, of xs c k out x] assms r show ?thesis
    by (auto simp: reg_ok_def last_end_grow)
qed

lemma reg_ok_mono:
  "reg_ok xs c r k rs out p f \<Longrightarrow> p \<le> q \<Longrightarrow> f \<le> f' \<Longrightarrow> reg_ok xs c r k rs out q f'"
  by (auto simp: reg_ok_def)

lemma out_inv_alt: "out_inv xs avail g out \<longleftrightarrow>
     avail \<le> length xs \<and> raw g = subslice xs (raw_start g) avail
     \<and> raw_start g \<le> pos g \<and> pos g \<le> avail \<and> copied_to g \<le> pos g
     \<and> reg_ok xs (copied_to g) (raw_start g) (out_idx g) (regions g) out (pos g) (free_from g)"
  by (auto simp: out_inv_def reg_ok_def)

lemma extend_open_ok:
  assumes m: "merged g = Some (ms, b)" and ms: "ms < fin" and r: "r \<le> fin" and p: "p \<le> fin"
    and i: "\<And>i. open_idx g = Some i \<Longrightarrow> i = length (regions g) - 1 \<and> regions g \<noteq> []"
    and ok: "reg_ok xs c r k (regions g) out p (free_from g)"
  shows "reg_ok xs c r k (regions (extend_open fin g)) out fin (free_from ((extend_open fin g)\<lparr>pos := fin\<rparr>))"
proof (cases "open_idx g")
  case (Some j)
  have "free_from g = 0" using Some m by (simp add: free_from_def)
  then show ?thesis using reg_ok_grow[OF _ _ p] ok i[OF Some] Some m
    by (simp add: extend_open_def grow_region_def list_update_last_Suc)
next
  case None
  have f: "free_from g = ms - pad g" using None m by (simp add: free_from_def)
  show ?thesis
  proof (cases "min_speech g \<le> fin - ms")
    case True
    have "ms - pad g < fin" using ms by simp
    from reg_ok_push[OF ok[unfolded f] order_refl this this p r] show ?thesis
      using None m True by (simp add: extend_open_def push_padded_def Let_def)
  next
    case False
    from reg_ok_mono[OF ok p order_refl] show ?thesis
      using None m False f by (simp add: extend_open_def free_from_def)
  qed
qed

lemma finalize_ok:
  assumes m: "merged g = Some (ms, me)" and ms: "ms < me" "me \<le> p" and r: "r \<le> p" and p: "p \<le> fin"
    and drop: "open_idx g = None \<Longrightarrow> me - ms < min_speech g"
    and i: "\<And>i. open_idx g = Some i \<Longrightarrow> i = length (regions g) - 1 \<and> regions g \<noteq> []"
    and ok: "reg_ok xs c r k (regions g) out p (free_from g)"
  shows "reg_ok xs c r k (regions (finalize ms me g)) out fin (fin - pad g)"
proof (cases "open_idx g")
  case (Some j)
  then have f: "free_from g = 0" using m by (simp add: free_from_def)
  from i[OF Some] have j: "j = length (regions g) - 1" and ne: "regions g \<noteq> []" by blast+
  show ?thesis
  proof (cases "me - ms < min_speech g")
    case True
    then show ?thesis using reg_ok_mono[OF ok p, of "fin - pad g"] f by (simp add: finalize_def)
  next
    case False
    from reg_ok_grow[OF ok[unfolded f] ne p, of "me + pad g"] show ?thesis
      using False Some j ne by (simp add: finalize_def grow_region_def list_update_last_Suc)
  qed
next
  case None
  then have "free_from g = ms - pad g" using m by (simp add: free_from_def)
  moreover have "ms - pad g \<le> fin - pad g" using ms p by simp
  ultimately show ?thesis using reg_ok_mono[OF ok p] drop[OF None] by (simp add: finalize_def)
qed

lemma out_inv_step:
  assumes dec: "dec_inv g mg run F" and out: "out_inv xs avail g out" and fin: "pos g < fin" "fin \<le> avail"
  shows "out_inv xs avail (seg_step p fin g) out"
proof -
  note o = out[unfolded out_inv_alt]
  have sh: "seg_shape g F" using dec by (simp add: dec_inv_def)
  have i: "\<And>i. open_idx g = Some i \<Longrightarrow> i = length (regions g) - 1 \<and> regions g \<noteq> []"
    using seg_shape_open_idx[OF sh] by blast
  have r: "raw_start g \<le> fin" "pos g \<le> fin" using o fin by simp_all
  have "reg_ok xs (copied_to g) (raw_start g) (out_idx g) (regions (seg_step p fin g)) out fin
          (free_from (seg_step p fin g))"
  proof (cases "float_ge p (seg_threshold g)")
    case True
    have e: "\<exists>ms b. merged (enter_run g) = Some (ms, b) \<and> ms < fin \<and> regions (enter_run g) = regions g
      \<and> open_idx (enter_run g) = open_idx g \<and> free_from (enter_run g) = free_from g"
    proof (cases "merged g")
      case None
      then have "\<not> in_run g" "open_idx g = None" using dec by (auto simp: dec_inv_def seg_shape_def split: option.splits)
      then show ?thesis using None fin by (simp add: enter_run_def free_from_def Let_def)
    next
      case (Some m)
      obtain a b where m: "m = (a, b)" by (cases m)
      have "a < fin" using seg_shape_open(1,2)[OF sh Some[unfolded m]] fin by simp
      moreover have "in_run g \<or> pos g - b < min_silence g"
        using dec Some m by (auto simp: dec_inv_def split: option.splits)
      ultimately show ?thesis using Some m by (auto simp: enter_run_def free_from_def Let_def)
    qed
    then obtain ms b where e: "merged (enter_run g) = Some (ms, b)" "ms < fin" "regions (enter_run g) = regions g"
      "open_idx (enter_run g) = open_idx g" "free_from (enter_run g) = free_from g" by blast
    have ok: "reg_ok xs (copied_to g) (raw_start g) (out_idx g) (regions (enter_run g)) out (pos g) (free_from (enter_run g))"
      using o e by simp
    have i': "\<And>i. open_idx (enter_run g) = Some i \<Longrightarrow>
       i = length (regions (enter_run g)) - 1 \<and> regions (enter_run g) \<noteq> []" using e i by simp
    from extend_open_ok[OF e(1,2) r i' ok] show ?thesis
      using True by (simp add: seg_step_def)
  next
    case False
    show ?thesis
    proof (cases "merged g")
      case None
      then have "free_from g \<le> fin - pad g" using r by (simp add: free_from_def)
      with o have "reg_ok xs (copied_to g) (raw_start g) (out_idx g) (regions g) out fin (fin - pad g)"
        using reg_ok_mono[OF _ r(2)] by blast
      then show ?thesis using None False by (simp add: seg_step_def free_from_def)
    next
      case (Some m)
      obtain a b where m: "m = (a, b)" by (cases m)
      note mg = Some[unfolded m]
      note ab = seg_shape_open(1,2)[OF sh mg]
      let ?g = "g\<lparr>in_run := False\<rparr>"
      have drop: "open_idx ?g = None \<Longrightarrow> b - a < min_speech ?g"
        using seg_shape_open(4)[OF sh mg] by (cases "min_speech g \<le> b - a") auto
      have ok: "reg_ok xs (copied_to g) (raw_start g) (out_idx g) (regions ?g) out (pos g) (free_from ?g)"
        using o mg by (cases "open_idx g") (simp_all add: free_from_def)
      have rp: "raw_start g \<le> pos g" using o by simp
      have i': "\<And>i. open_idx ?g = Some i \<Longrightarrow> i = length (regions ?g) - 1 \<and> regions ?g \<noteq> []" using i by simp
      have mg': "merged ?g = Some (a, b)" using mg by simp
      show ?thesis
      proof (cases "min_silence g \<le> fin - b")
        case True
        from finalize_ok[OF mg' ab rp r(2) drop i' ok] show ?thesis
          using False mg True by (simp add: seg_step_def free_from_def)
      next
        case fb: False
        from reg_ok_mono[OF ok r(2) order_refl] show ?thesis
          using False mg fb by (cases "open_idx g") (simp_all add: seg_step_def free_from_def)
      qed
    qed
  qed
  then show ?thesis using o fin by (simp add: out_inv_alt)
qed

section \<open>The release loop\<close>

lemma separated_index:
  "separated rs \<Longrightarrow> i < j \<Longrightarrow> j < length rs \<Longrightarrow> snd (rs ! i) < fst (rs ! j)"
proof (induction rs arbitrary: i j rule: separated.induct)
  case (3 s e s' e' rs)
  then have sep: "separated ((s', e') # rs)" and e: "e < s'" and se: "s' < e'"
    by (auto intro: separated_member)
  obtain j' where j: "j = Suc j'" using 3(3) by (cases j) auto
  show ?case
  proof (cases i)
    case 0
    show ?thesis
    proof (cases j')
      case 0
      then show ?thesis using \<open>i = 0\<close> j e by simp
    next
      case (Suc l)
      then have "rs ! l \<in> set rs" using 3(4) j by simp
      then have "e' < fst (rs ! l)" using separated_order[OF sep, of "fst (rs ! l)" "snd (rs ! l)"] by simp
      then show ?thesis using \<open>i = 0\<close> j Suc e se by simp
    qed
  next
    case (Suc i')
    then show ?thesis using 3(1)[OF sep, of i' j'] 3(3,4) j by simp
  qed
qed auto

lemma kept_copy:
  assumes sep: "separated rs" and k: "k < length rs" and old: "\<forall>(s, e) \<in> set (take k rs). e \<le> c"
    and fs: "fst (rs ! k) = s" "snd (rs ! k) = e" and t: "max c s < t" "t \<le> e"
  shows "kept t xs rs = kept c xs rs @ subslice xs (max c s) t"
proof -
  have rs: "rs = take k rs @ (s, e) # drop (Suc k) rs" using k fs by (metis id_take_nth_drop prod.collapse)
  have ct: "c \<le> t" using t by simp
  have later: "\<forall>(a, b) \<in> set (drop (Suc k) rs). t \<le> a"
  proof (clarify)
    fix a b assume "(a, b) \<in> set (drop (Suc k) rs)"
    moreover have "separated ((s, e) # drop (Suc k) rs)" using sep rs separated_append by metis
    ultimately have "e < a" using separated_order by blast
    then show "t \<le> a" using t by simp
  qed
  have later_c: "\<forall>(a, b) \<in> set (drop (Suc k) rs). c \<le> a" using later ct by fastforce
  have mid: "subslice xs s (min e t) = subslice xs s (min e c) @ subslice xs (max c s) t"
  proof (cases "c \<le> s")
    case True
    then show ?thesis using t by (simp add: max_def min_def)
  next
    case False
    then show ?thesis using t subslice_append_split[of s c t xs] by (simp add: max_def min_def)
  qed
  have "kept t xs rs = kept c xs (take k rs) @ subslice xs s (min e t)"
    unfolding arg_cong[OF rs, of "kept t xs"]
    by (simp add: kept_append kept_Cons kept_later[OF later] kept_earlier[OF old ct])
  also have "kept c xs (take k rs) @ subslice xs s (min e c) = kept c xs rs"
    unfolding arg_cong[OF rs, of "kept c xs"]
    by (simp add: kept_append kept_Cons kept_later[OF later_c])
  then have "kept c xs (take k rs) @ subslice xs s (min e t) = kept c xs rs @ subslice xs (max c s) t"
    by (simp add: mid flip: append_assoc)
  finally show ?thesis .
qed

lemma separated_end_le: "separated rs \<Longrightarrow> (s, e) \<in> set rs \<Longrightarrow> e \<le> last_end rs"
  using separated_last[of rs s e] separated_butlast[of rs]
  by (cases "rs = []") (auto simp: last_end_def dest: sym)

lemma reg_inv_advance:
  assumes i: "reg_inv xs c r k rs out" and c: "c \<le> c'" "c' \<le> last_end rs"
    and k: "k' \<le> length rs - 1" "\<forall>(s, e) \<in> set (take k' rs). e \<le> c'"
  shows "reg_inv xs c' r k' rs (kept c' xs rs)"
proof -
  have "\<forall>(s, e) \<in> set rs. c' < e \<longrightarrow> r \<le> max c' s"
    using i c unfolding reg_inv_def by fastforce
  then show ?thesis using i c k by (simp add: reg_inv_def)
qed

lemma flush_loop_ok:
  assumes "reg_inv xs (copied_to g) (raw_start g) (out_idx g) rs out" and "regions g = rs"
    and "raw g = subslice xs (raw_start g) avail" "raw_start g \<le> avail" "avail \<le> length xs" "d \<le> avail"
    and "\<And>j. Suc j < length rs \<Longrightarrow> snd (rs ! j) \<le> d"
  shows "\<exists>c' k'. flush_loop d g out = Inr (g\<lparr>copied_to := c', out_idx := k'\<rparr>, kept c' xs rs)
     \<and> reg_inv xs c' (raw_start g) k' rs (kept c' xs rs) \<and> copied_to g \<le> c' \<and> c' \<le> max (copied_to g) d
     \<and> (\<forall>(s, e) \<in> set rs. c' < e \<longrightarrow> d \<le> max c' s)"
  using assms
proof (induction "length rs - out_idx g" arbitrary: g out rule: less_induct)
  case less
  note i = less.prems(1)
  let ?k = "out_idx g" and ?c = "copied_to g" and ?r = "raw_start g"
  have o: "out = kept ?c xs rs" using i by (simp add: reg_inv_def)
  show ?case
  proof (cases "length rs \<le> ?k")
    case True
    moreover have "?k \<le> length rs - 1" using i by (simp add: reg_inv_def)
    ultimately have "rs = []" by (cases rs) simp_all
    then show ?thesis using i less.prems(2) o
      by (intro exI[of _ ?c] exI[of _ ?k]) (simp add: flush_loop.simps[of d g])
  next
    case False
    then have k: "?k < length rs" by simp
    obtain s e where se: "fst (rs ! ?k) = s" "snd (rs ! ?k) = e" by blast
    then have mem: "(s, e) \<in> set rs" using k by (metis nth_mem prod.collapse)
    have sep: "separated rs" using i by (simp add: reg_inv_def)
    have "s < e" using separated_member[OF sep mem] .
    define c1 where "c1 = (if max ?c s < min e d then min e d else ?c)"
    have rr: "?r \<le> max ?c s" if "max ?c s < min e d"
      using i mem that unfolding reg_inv_def by fastforce
    have len: "min e d - ?r \<le> length (raw g)"
      using less.prems(3-6) by simp
    have c1: "?c \<le> c1" "c1 \<le> max ?c d" by (simp_all add: c1_def)
    have c1_end: "c1 \<le> last_end rs"
      using i separated_end_le[OF sep mem] by (auto simp: c1_def reg_inv_def)
    have dn: "e \<le> c1 \<or> d \<le> max c1 s" using \<open>s < e\<close> by (auto simp: c1_def)
    have old: "\<forall>(a, b) \<in> set (take ?k rs). b \<le> ?c" using i by (simp add: reg_inv_def)
    have out1: "(if max ?c s < min e d then out @ subslice (raw g) (max ?c s - ?r) (min e d - ?r) else out) = kept c1 xs rs"
    proof (cases "max ?c s < min e d")
      case True
      have "subslice (raw g) (max ?c s - ?r) (min e d - ?r) = subslice xs (max ?c s) (min e d)"
        unfolding less.prems(3) by (rule subslice_window[OF rr[OF True]]) (use True less.prems(6) in simp_all)
      moreover have "kept (min e d) xs rs = kept ?c xs rs @ subslice xs (max ?c s) (min e d)"
        by (rule kept_copy[OF sep k old se True]) simp
      ultimately show ?thesis unfolding c1_def if_P[OF True] o by simp
    next
      case False
      then show ?thesis unfolding c1_def if_not_P[OF False] o by simp
    qed
    let ?g1 = "g\<lparr>copied_to := c1\<rparr>"
    have step: "flush_loop d g out = (if Suc ?k < length rs
        then flush_loop d (?g1\<lparr>out_idx := Suc ?k\<rparr>) (kept c1 xs rs) else Inr (?g1, kept c1 xs rs))"
    proof (cases "max ?c s < min e d")
      case True
      have np: "\<not> (max ?c s < ?r \<or> length (raw g) < min e d - ?r)" using rr[OF True] len by linarith
      show ?thesis unfolding flush_loop.simps[of d g] Let_def less.prems(2) se out1
        using False np True by (simp only: c1_def if_True if_False simp_thms)
    next
      case no: False
      have "copied_to g = c1" using no by (simp only: c1_def if_False)
      then have "?g1 = g" by simp
      then show ?thesis unfolding flush_loop.simps[of d g] Let_def less.prems(2) se out1
        using False no by (simp only: if_False simp_thms)
    qed
    show ?thesis
    proof (cases "Suc ?k < length rs")
      case True
      have "e \<le> d" using less.prems(7)[OF True] se by simp
      then have "e \<le> c1" using \<open>s < e\<close> by (auto simp: c1_def)
      moreover have "\<forall>(a, b) \<in> set (take ?k rs). b \<le> c1" using old c1(1) by fastforce
      moreover have "take (Suc ?k) rs = take ?k rs @ [(s, e)]"
        by (simp add: take_Suc_conv_app_nth[OF k] prod_eq_iff se)
      ultimately have "\<forall>(a, b) \<in> set (take (Suc ?k) rs). b \<le> c1" by simp
      then have "reg_inv xs c1 ?r (Suc ?k) rs (kept c1 xs rs)"
        using True by (intro reg_inv_advance[OF i c1(1) c1_end]) simp_all
      then have "\<exists>c' k'. flush_loop d (?g1\<lparr>out_idx := Suc ?k\<rparr>) (kept c1 xs rs)
          = Inr (?g1\<lparr>out_idx := Suc ?k, copied_to := c', out_idx := k'\<rparr>, kept c' xs rs)
        \<and> reg_inv xs c' ?r k' rs (kept c' xs rs) \<and> c1 \<le> c' \<and> c' \<le> max c1 d
        \<and> (\<forall>(s, e) \<in> set rs. c' < e \<longrightarrow> d \<le> max c' s)"
        using less.hyps[of "?g1\<lparr>out_idx := Suc ?k\<rparr>" "kept c1 xs rs"] less.prems k by simp
      then obtain c' k' where "flush_loop d (?g1\<lparr>out_idx := Suc ?k\<rparr>) (kept c1 xs rs)
          = Inr (g\<lparr>copied_to := c', out_idx := k'\<rparr>, kept c' xs rs)"
        "reg_inv xs c' ?r k' rs (kept c' xs rs)" "c1 \<le> c'" "c' \<le> max c1 d"
        "\<forall>(s, e) \<in> set rs. c' < e \<longrightarrow> d \<le> max c' s" by auto
      then show ?thesis using step True c1 by (intro exI[of _ c'] exI[of _ k']) auto
    next
      case last: False
      have "\<forall>(a, b) \<in> set rs. c1 < b \<longrightarrow> d \<le> max c1 a"
      proof (clarify)
        fix a b assume ab: "(a, b) \<in> set rs" "c1 < b"
        have "rs = take ?k rs @ [(s, e)]" using last k se
          by (metis prod.collapse take_Suc_conv_app_nth take_all linorder_not_less)
        then have "(a, b) \<in> set (take ?k rs) \<or> (a, b) = (s, e)" using ab(1)
          by (metis Un_iff list.set(1,2) set_append singletonD)
        then show "d \<le> max c1 a" using old c1 dn ab(2) by fastforce
      qed
      moreover have "reg_inv xs c1 ?r ?k rs (kept c1 xs rs)"
        using i old c1(1) by (intro reg_inv_advance[OF i c1(1) c1_end]) (auto simp: reg_inv_def)
      ultimately show ?thesis using step last c1 by (intro exI[of _ c1] exI[of _ ?k]) simp
    qed
  qed
qed

section \<open>flush and trim\<close>

lemma decided_to_bounds:
  shows "decided_to g \<le> pos g" and "min (last_end (regions g)) (pos g) \<le> decided_to g"
    and "decided_to g \<le> max (free_from g) (last_end (regions g))"
  by (auto simp: decided_to_def last_end_def free_from_def Let_def split: option.splits)

lemma out_inv_copied:
  assumes "out_inv xs avail g out" and "c' \<le> pos g"
    and "reg_inv xs c' (raw_start g) k' (regions g) out'"
  shows "out_inv xs avail (g\<lparr>copied_to := c', out_idx := k'\<rparr>) out'"
  using assms by (auto simp: out_inv_def free_from_def split: option.splits)

lemma seg_flush_ok:
  assumes out: "out_inv xs avail g out"
  shows "\<exists>c' k'. seg_flush g out = Inr (g\<lparr>copied_to := c', out_idx := k'\<rparr>, kept c' xs (regions g))
    \<and> out_inv xs avail (g\<lparr>copied_to := c', out_idx := k'\<rparr>) (kept c' xs (regions g))
    \<and> (\<forall>(s, e) \<in> set (regions g). c' < e \<longrightarrow> decided_to g \<le> max c' s)"
proof -
  have ra: "raw_start g \<le> avail" "avail \<le> length xs" "pos g \<le> avail"
    and raw: "raw g = subslice xs (raw_start g) avail" and cp: "copied_to g \<le> pos g"
    and ri: "reg_inv xs (copied_to g) (raw_start g) (out_idx g) (regions g) out"
    and fl: "regions g \<noteq> [] \<longrightarrow> fst (last (regions g)) < pos g"
    using out by (auto simp: out_inv_def)
  have d: "min (decided_to g) (raw_start g + length (raw g)) = decided_to g" "decided_to g \<le> avail"
    using ra decided_to_bounds(1)[of g] by (simp_all add: raw)
  have early: "snd (regions g ! j) \<le> decided_to g" if j: "Suc j < length (regions g)" for j
  proof -
    have sep: "separated (regions g)" using ri by (simp add: reg_inv_def)
    have "snd (regions g ! j) < fst (last (regions g))"
    proof -
      have "j < length (regions g) - 1" "length (regions g) - 1 < length (regions g)" using j by linarith+
      from separated_index[OF sep this] show ?thesis using j
        by (subst last_conv_nth) auto
    qed
    moreover have "fst (last (regions g)) < pos g" using fl j by fastforce
    moreover have "fst (last (regions g)) < last_end (regions g)"
      using separated_butlast[OF sep] j by (auto simp: last_end_def)
    ultimately show ?thesis using decided_to_bounds(2)[of g] by linarith
  qed
  from flush_loop_ok[OF ri refl raw ra(1,2) d(2) early] obtain c' k' where
    f: "flush_loop (decided_to g) g out = Inr (g\<lparr>copied_to := c', out_idx := k'\<rparr>, kept c' xs (regions g))"
    "reg_inv xs c' (raw_start g) k' (regions g) (kept c' xs (regions g))"
    "c' \<le> max (copied_to g) (decided_to g)"
    "\<forall>(s, e) \<in> set (regions g). c' < e \<longrightarrow> decided_to g \<le> max c' s" by blast
  have "c' \<le> pos g" using f(3) cp decided_to_bounds(1)[of g] by simp
  from out_inv_copied[OF out this f(2)] show ?thesis using f(1,4) d(1) by (auto simp: seg_flush_def)
qed

definition keep_from :: "'st segmenter \<Rightarrow> nat" where
  "keep_from g =
     (case merged g of
        Some (ms, _) \<Rightarrow> if open_idx g = None then min (decided_to g) (ms - pad g) else decided_to g
      | None \<Rightarrow> decided_to g)"

lemma keep_from_bounds: "keep_from g \<le> decided_to g" "keep_from g \<le> max (free_from g) (last_end (regions g))"
  using decided_to_bounds(3)[of g]
  by (auto simp: keep_from_def free_from_def split: option.splits)

lemma seg_trim_alt: "seg_trim g =
   (let d = min (keep_from g - raw_start g) (length (raw g)) in
    g\<lparr>raw := drop d (raw g), raw_start := raw_start g + d\<rparr>)"
proof -
  define d where "d = min (keep_from g - raw_start g) (length (raw g))"
  have "seg_trim g = (if 0 < d then g\<lparr>raw := drop d (raw g), raw_start := raw_start g + d\<rparr> else g)"
    by (simp only: seg_trim_def keep_from_def Let_def d_def)
  then show ?thesis by (cases "d = 0") (simp_all flip: d_def)
qed

lemma reg_inv_trim:
  assumes "reg_inv xs c r k rs out" and "r' \<le> max r d" and "\<forall>(s, e) \<in> set rs. c < e \<longrightarrow> d \<le> max c s"
  shows "reg_inv xs c r' k rs out"
proof -
  have "\<forall>(s, e) \<in> set rs. c < e \<longrightarrow> r' \<le> max c s"
  proof (clarify)
    fix s e assume "(s, e) \<in> set rs" "c < e"
    with assms(1,3) have "r \<le> max c s" "d \<le> max c s" by (fastforce simp: reg_inv_def)+
    then show "r' \<le> max c s" using assms(2) by linarith
  qed
  then show ?thesis using assms(1) by (simp add: reg_inv_def)
qed

lemma seg_trim_ok:
  assumes out: "out_inv xs avail g out"
    and dn: "\<forall>(s, e) \<in> set (regions g). copied_to g < e \<longrightarrow> decided_to g \<le> max (copied_to g) s"
  shows "out_inv xs avail (seg_trim g) out" and "length (raw (seg_trim g)) \<le> avail - keep_from g"
proof -
  define d where "d = min (keep_from g - raw_start g) (length (raw g))"
  have ra: "raw_start g \<le> avail" "raw_start g \<le> pos g" "avail \<le> length xs" "pos g \<le> avail"
    and raw: "raw g = subslice xs (raw_start g) avail"
    and ri: "reg_inv xs (copied_to g) (raw_start g) (out_idx g) (regions g) out"
    and fr: "raw_start g \<le> max (free_from g) (last_end (regions g))"
    using out by (auto simp: out_inv_def)
  have len: "length (raw g) = avail - raw_start g" using ra by (simp add: raw)
  have kd: "keep_from g \<le> decided_to g" "decided_to g \<le> pos g"
    using keep_from_bounds(1) decided_to_bounds(1) by blast+
  have d: "raw_start g + d \<le> max (raw_start g) (keep_from g)" "d \<le> avail - raw_start g"
    by (simp_all add: d_def len)
  have dr: "drop d (raw g) = subslice xs (raw_start g + d) avail"
    by (simp add: raw subslice_def drop_take add.commute)
  have "reg_inv xs (copied_to g) (raw_start g + d) (out_idx g) (regions g) out"
    using d(1) kd(1) by (intro reg_inv_trim[OF ri _ dn]) simp
  moreover have "raw_start g + d \<le> max (free_from g) (last_end (regions g))"
    using d(1) fr keep_from_bounds(2)[of g] by linarith
  moreover have "raw_start g + d \<le> pos g" using d(1) kd ra by linarith
  ultimately have "out_inv xs avail (g\<lparr>raw := drop d (raw g), raw_start := raw_start g + d\<rparr>) out"
    using out dr free_from_cong[of "g\<lparr>raw := drop d (raw g), raw_start := raw_start g + d\<rparr>" g]
    by (simp add: out_inv_def)
  then show "out_inv xs avail (seg_trim g) out" by (simp add: seg_trim_alt d_def Let_def)
  have "min (keep_from g) avail - raw_start g \<le> d" unfolding d_def len by (simp add: min_def)
  then show "length (raw (seg_trim g)) \<le> avail - keep_from g"
    using len kd ra by (simp add: seg_trim_alt Let_def flip: d_def)
qed

text \<open>The retained prefix is bounded by the three thresholds.\<close>

lemma keep_from_lower:
  assumes dec: "dec_inv g mg run F"
  shows "pos g \<le> keep_from g + min_silence g + min_speech g + pad g"
proof (cases "merged g")
  case None
  then show ?thesis by (simp add: keep_from_def decided_to_def)
next
  case (Some m)
  obtain a b where m: "m = (a, b)" by (cases m)
  note mg = Some[unfolded m]
  have sh: "seg_shape g F" using dec by (simp add: dec_inv_def)
  have ab: "a < b" "b \<le> pos g" using seg_shape_open(1,2)[OF sh mg] by blast+
  have sil: "pos g \<le> b + min_silence g"
  proof (cases run)
    case None
    then have "pos g - b < min_silence g" using dec mg by (simp add: dec_inv_def)
    then show ?thesis by linarith
  next
    case (Some s)
    then show ?thesis using dec mg merge_run_last by (fastforce simp: dec_inv_def)
  qed
  show ?thesis
  proof (cases "min_speech g \<le> b - a")
    case True
    have "b \<le> last_end (regions g)"
      unfolding seg_shape_open(3)[OF sh mg True] by (simp add: last_end_push)
    then have "b \<le> decided_to g" using decided_to_bounds(2)[of g] ab by linarith
    moreover have "keep_from g = decided_to g"
      using seg_shape_open(4)[OF sh mg True] mg by (simp add: keep_from_def)
    ultimately show ?thesis using sil by linarith
  next
    case False
    have o: "open_idx g = None" by (rule seg_shape_open(6)[OF sh mg False])
    have "a - pad g \<le> decided_to g" using mg o ab by (simp add: decided_to_def Let_def)
    then have "keep_from g = a - pad g" using mg o by (simp add: keep_from_def)
    then show ?thesis using sil False ab by linarith
  qed
qed

section \<open>The batch scan, frame by frame\<close>

definition batch_state :: "vad_config \<Rightarrow> float_val list \<Rightarrow> (nat \<times> nat) list \<times> nat option" where
  "batch_state cfg ps =
     (case scan_runs (threshold cfg) VAD_FRAME_SAMPLES ps 0 None [] of
        (acc, run) \<Rightarrow> (foldl (merge_run (ms_to_samples (min_silence_ms cfg))) [] acc, run))"

lemma batch_state_Nil: "batch_state cfg [] = ([], None)"
  by (simp add: batch_state_def)

lemma batch_state_snoc:
  "batch_state cfg (ps @ [p]) =
   batch_step (ms_to_samples (min_silence_ms cfg)) (float_ge p (threshold cfg)) (length ps * VAD_FRAME_SAMPLES) (batch_state cfg ps)"
  by (auto simp: batch_state_def scan_runs_snoc batch_step_def Let_def split: prod.splits option.splits)

lemma scan_runs_starts:
  assumes "\<forall>k < length ps. (i + k) * fs < B" and "\<forall>(s, e) \<in> set acc. s < B" and "\<forall>s. run = Some s \<longrightarrow> s < B"
  shows "(\<forall>(s, e) \<in> set (fst (scan_runs thr fs ps i run acc)). s < B)
    \<and> (\<forall>s. snd (scan_runs thr fs ps i run acc) = Some s \<longrightarrow> s < B)"
  using assms
proof (induction ps arbitrary: i run acc)
  case Nil
  then show ?case by simp
next
  case (Cons p ps)
  have i: "i * fs < B" using Cons.prems(1) by force
  have n: "\<forall>k < length ps. (Suc i + k) * fs < B"
  proof (intro allI impI)
    fix k assume "k < length ps"
    then have "(i + Suc k) * fs < B" using Cons.prems(1) by (metis length_Cons Suc_less_eq)
    then show "(Suc i + k) * fs < B" by simp
  qed
  note go = Cons.IH[OF n]
  show ?case
  proof (cases "float_ge p thr")
    case True
    have "\<forall>s. (if run = None then Some (i * fs) else run) = Some s \<longrightarrow> s < B"
      using i Cons.prems(3) by simp
    from go[OF Cons.prems(2) this] show ?thesis using True by (cases run) simp_all
  next
    case False
    show ?thesis
    proof (cases run)
      case None
      then show ?thesis using False go[OF Cons.prems(2), of None] by simp
    next
      case (Some s)
      then have "\<forall>(a, b) \<in> set (acc @ [(s, i * fs)]). a < B" using Cons.prems(2,3) by simp
      from go[OF this, of None] show ?thesis using False Some by simp
    qed
  qed
qed

lemma merge_run_starts:
  "\<forall>(a, b) \<in> set mg. a < B \<Longrightarrow> s < B \<Longrightarrow> \<forall>(a, b) \<in> set (merge_run ms mg (s, e)). a < B"
  by (cases mg rule: rev_cases) (auto simp: merge_run_def)

lemma merge_runs_starts:
  "\<forall>(a, b) \<in> set acc. a < B \<Longrightarrow> \<forall>(a, b) \<in> set mg. a < B \<Longrightarrow>
   \<forall>(a, b) \<in> set (foldl (merge_run ms) mg acc). a < B"
proof (induction acc arbitrary: mg)
  case (Cons x acc)
  have "\<forall>(a, b) \<in> set (merge_run ms mg (fst x, snd x)). a < B"
    using Cons.prems by (intro merge_run_starts) auto
  then show ?case using Cons by simp
qed simp

abbreviation clamp :: "nat \<Rightarrow> (nat \<times> nat) list \<Rightarrow> (nat \<times> nat) list" where
  "clamp tot \<equiv> map (\<lambda>(s, e). (s, min e tot))"

lemma push_span_clamp:
  assumes "ps \<le> tot"
  shows "clamp tot (push_span rs (ps, pe)) = push_span (clamp tot rs) (ps, min pe tot)"
proof (cases rs rule: rev_cases)
  case (snoc us l)
  obtain a b where "l = (a, b)" by (cases l)
  then show ?thesis using snoc assms by (simp add: push_span_def min_def max_def)
qed (simp add: push_span_def)

lemma padded_clamp:
  assumes "\<forall>(s, e) \<in> set mg. s < tot"
  shows "foldl (\<lambda>rs (s, e). push_span rs (s - pd, min (e + pd) tot)) [] (filter (\<lambda>(s, e). msp \<le> e - s) mg)
         = clamp tot (padded msp pd mg)"
  using assms
proof (induction mg rule: rev_induct)
  case (snoc x mg)
  obtain s e where x: "x = (s, e)" by (cases x)
  have "s - pd \<le> tot" using snoc.prems x by auto
  from push_span_clamp[OF this, of "padded msp pd mg" "e + pd"] snoc x show ?case
    by (simp add: padded_snoc)
qed simp

text \<open>The batch regions in terms of the frame by frame state.\<close>

lemma regions_from_probs_state:
  assumes n: "length ps * VAD_FRAME_SAMPLES < tot + VAD_FRAME_SAMPLES" and t: "tot \<le> length ps * VAD_FRAME_SAMPLES"
  shows "regions_from_probs ps VAD_FRAME_SAMPLES tot cfg =
    clamp tot (padded (ms_to_samples (min_speech_ms cfg)) (ms_to_samples (speech_pad_ms cfg))
      (case snd (batch_state cfg ps) of
         Some s \<Rightarrow> merge_run (ms_to_samples (min_silence_ms cfg)) (fst (batch_state cfg ps)) (s, tot)
       | None \<Rightarrow> fst (batch_state cfg ps)))"
proof (cases "ps = []")
  case True
  then show ?thesis by (simp add: regions_from_probs_def batch_state_Nil)
next
  case False
  let ?msil = "ms_to_samples (min_silence_ms cfg)"
  have tot: "0 < tot" using n False by (cases ps) auto
  obtain acc run where sc: "scan_runs (threshold cfg) VAD_FRAME_SAMPLES ps 0 None [] = (acc, run)" by fastforce
  have b: "\<forall>k < length ps. (0 + k) * VAD_FRAME_SAMPLES < tot"
  proof (intro allI impI)
    fix k assume "k < length ps"
    then have "(k + 1) * 512 \<le> length ps * 512" by (intro mult_le_mono1) simp
    then show "(0 + k) * VAD_FRAME_SAMPLES < tot" using n by simp
  qed
  have st: "\<forall>(s, e) \<in> set acc. s < tot" "\<forall>s. run = Some s \<longrightarrow> s < tot"
    using scan_runs_starts[OF b, of "[]" None "threshold cfg"] sc by simp_all
  have runs: "foldl (merge_run ?msil) [] (raw_runs (threshold cfg) VAD_FRAME_SAMPLES ps tot) =
      (case snd (batch_state cfg ps) of Some s \<Rightarrow> merge_run ?msil (fst (batch_state cfg ps)) (s, tot)
       | None \<Rightarrow> fst (batch_state cfg ps))"
    using sc by (simp add: raw_runs_def batch_state_def split: option.split)
  have "\<forall>(s, e) \<in> set (raw_runs (threshold cfg) VAD_FRAME_SAMPLES ps tot). s < tot"
    using st sc by (auto simp: raw_runs_def split: option.split)
  then have "\<forall>(s, e) \<in> set (foldl (merge_run ?msil) [] (raw_runs (threshold cfg) VAD_FRAME_SAMPLES ps tot)). s < tot"
    by (rule merge_runs_starts) simp
  from padded_clamp[OF this] show ?thesis
    using False tot unfolding runs[symmetric] by (simp add: regions_from_probs_def Let_def)
qed

section \<open>Pushing blocks\<close>

text \<open>
  The state after the frames \<open>ps\<close> of the stream \<open>xs\<close>, of which \<open>avail\<close> samples have arrived.
  The batch scan of the whole stream continues from exactly this network state.
\<close>

definition seg_cfg :: "vad_config \<Rightarrow> 'st segmenter \<Rightarrow> bool" where
  "seg_cfg cfg g \<longleftrightarrow> seg_threshold g = threshold cfg \<and> min_silence g = ms_to_samples (min_silence_ms cfg)
     \<and> min_speech g = ms_to_samples (min_speech_ms cfg) \<and> pad g = ms_to_samples (speech_pad_ms cfg)"

definition batch_scan :: "'st scorer \<Rightarrow> 'st \<Rightarrow> pcm \<Rightarrow> string + float_val list" where
  "batch_scan score st0 xs = frame_scan None score xs 0 st0 0 0 []"

definition seg_at ::
  "vad_config \<Rightarrow> 'st scorer \<Rightarrow> 'st \<Rightarrow> pcm \<Rightarrow> nat \<Rightarrow> 'st segmenter \<Rightarrow> float_val list \<Rightarrow> pcm \<Rightarrow> bool" where
  "seg_at cfg score st0 xs avail g ps out \<longleftrightarrow>
     seg_cfg cfg g \<and> (\<exists>F. dec_inv g (fst (batch_state cfg ps)) (snd (batch_state cfg ps)) F)
     \<and> out_inv xs avail g out \<and> batch_scan score st0 xs = frame_scan None score xs (pos g) (vstate g) 0 0 ps"

lemma frame_scan_step:
  "i < length xs \<Longrightarrow> frame_scan None score xs i st 0 0 acc =
     (case score (subslice xs i (min (i + VAD_FRAME_SAMPLES) (length xs))) st of
        Inl e \<Rightarrow> Inl e
      | Inr (p, st') \<Rightarrow> frame_scan None score xs (min (i + VAD_FRAME_SAMPLES) (length xs)) st' 0 0 (acc @ [p]))"
  by (subst frame_scan.simps) (simp add: Let_def split: sum.split)

lemma dec_inv_vstate: "dec_inv (g\<lparr>vstate := st\<rparr>) mg run F = dec_inv g mg run F"
proof -
  have "seg_shape (g\<lparr>vstate := st\<rparr>) F = seg_shape g F"
    by (cases "merged g") (simp_all add: seg_shape_def)
  then show ?thesis by (cases "merged g"; cases run) (simp_all add: dec_inv_def)
qed

lemma frame_scan_end: "length xs \<le> i \<Longrightarrow> frame_scan None score xs i st 0 0 acc = Inr acc"
  by (subst frame_scan.simps) simp

text \<open>One scored frame, full or final.\<close>

lemma seg_at_frame:
  assumes at: "seg_at cfg score st0 xs avail g ps out" and ps: "pos g = length ps * VAD_FRAME_SAMPLES"
    and lt: "pos g < length xs" and fin: "fin = min (pos g + VAD_FRAME_SAMPLES) (length xs)" "fin \<le> avail"
    and sc: "score (subslice xs (pos g) fin) (vstate g) = Inr (p, st')"
  shows "seg_at cfg score st0 xs avail (seg_step p fin (g\<lparr>vstate := st'\<rparr>)) (ps @ [p]) out"
proof -
  let ?g = "g\<lparr>vstate := st'\<rparr>"
  obtain F where dec: "dec_inv g (fst (batch_state cfg ps)) (snd (batch_state cfg ps)) F" and cf: "seg_cfg cfg g"
    and oi: "out_inv xs avail g out" and bs: "batch_scan score st0 xs = frame_scan None score xs (pos g) (vstate g) 0 0 ps"
    using at by (auto simp: seg_at_def)
  have lt': "pos ?g < fin" using lt fin by simp
  have dec': "dec_inv ?g (fst (batch_state cfg ps)) (snd (batch_state cfg ps)) F"
    using dec by (simp only: dec_inv_vstate)
  have oi': "out_inv xs avail ?g out"
    using oi free_from_cong[of ?g g] by (simp add: out_inv_def)
  have "\<exists>F'. dec_inv (seg_step p fin ?g) (fst (batch_state cfg (ps @ [p]))) (snd (batch_state cfg (ps @ [p]))) F'"
    using dec_inv_step[OF dec' lt', of p] cf ps
    by (simp add: batch_state_snoc seg_cfg_def case_prod_unfold)
  moreover have "batch_scan score st0 xs = frame_scan None score xs fin st' 0 0 (ps @ [p])"
    unfolding bs frame_scan_step[OF lt] using sc fin(1) by simp
  ultimately show ?thesis using cf out_inv_step[OF dec' oi' lt' fin(2)]
    by (simp add: seg_at_def seg_cfg_def)
qed

lemma seg_at_fail:
  assumes "seg_at cfg score st0 xs avail g ps out" and "pos g < length xs"
    and "score (subslice xs (pos g) (min (pos g + VAD_FRAME_SAMPLES) (length xs))) (vstate g) = Inl e"
  shows "batch_scan score st0 xs = Inl e"
  using assms frame_scan_step[OF assms(2), of score "vstate g" ps] by (simp add: seg_at_def)

lemma push_frames_ok:
  assumes "seg_at cfg score st0 xs avail g ps out" and "pos g = length ps * VAD_FRAME_SAMPLES"
  shows "(\<exists>e. push_frames score g = Inl (Err e) \<and> batch_scan score st0 xs = Inl e)
    \<or> (\<exists>g' ps'. push_frames score g = Inr g' \<and> seg_at cfg score st0 xs avail g' ps' out
         \<and> pos g' = length ps' * VAD_FRAME_SAMPLES \<and> avail < pos g' + VAD_FRAME_SAMPLES)"
  using assms
proof (induction "avail - pos g" arbitrary: g ps rule: less_induct)
  case less
  have oi: "out_inv xs avail g out" using less.prems by (simp add: seg_at_def)
  then have ra: "raw_start g \<le> pos g" "pos g \<le> avail" "avail \<le> length xs"
    and raw: "raw g = subslice xs (raw_start g) avail" by (simp_all add: out_inv_def)
  have av: "raw_start g + length (raw g) = avail" using ra by (simp add: raw)
  show ?case
  proof (cases "pos g + VAD_FRAME_SAMPLES \<le> avail")
    case False
    then show ?thesis using less.prems av by (subst push_frames.simps) (auto simp: Let_def)
  next
    case True
    have fin: "pos g + VAD_FRAME_SAMPLES = min (pos g + VAD_FRAME_SAMPLES) (length xs)" using True ra by simp
    have lt: "pos g < length xs" using True ra by simp
    have "raw_start g + (pos g - raw_start g + 512) = pos g + 512" using ra by simp
    then have sl: "subslice (raw g) (pos g - raw_start g) (pos g - raw_start g + VAD_FRAME_SAMPLES)
        = subslice xs (pos g) (pos g + VAD_FRAME_SAMPLES)"
      using subslice_window[of "raw_start g" "pos g" "pos g + 512" avail xs] True ra
      by (simp add: raw Nat.add_diff_assoc2)
    have step: "push_frames score g =
       (case score (subslice xs (pos g) (pos g + VAD_FRAME_SAMPLES)) (vstate g) of
          Inl e \<Rightarrow> Inl (Err e)
        | Inr (prob, st') \<Rightarrow> push_frames score (seg_step prob (pos g + VAD_FRAME_SAMPLES) (g\<lparr>vstate := st'\<rparr>)))"
      using True av ra sl by (subst push_frames.simps) (simp add: Let_def)
    show ?thesis
    proof (cases "score (subslice xs (pos g) (pos g + VAD_FRAME_SAMPLES)) (vstate g)")
      case (Inl e)
      then show ?thesis using step seg_at_fail[OF less.prems(1) lt] fin by simp
    next
      case (Inr r)
      obtain p st' where r: "r = (p, st')" by (cases r)
      let ?g' = "seg_step p (pos g + VAD_FRAME_SAMPLES) (g\<lparr>vstate := st'\<rparr>)"
      have at': "seg_at cfg score st0 xs avail ?g' (ps @ [p]) out"
        by (rule seg_at_frame[OF less.prems lt fin True]) (use Inr r in simp)
      have ps': "pos ?g' = length (ps @ [p]) * VAD_FRAME_SAMPLES" using less.prems(2) by simp
      have "avail - pos ?g' < avail - pos g" using True by simp
      from less.hyps[OF this at' ps'] show ?thesis using step Inr r by simp
    qed
  qed
qed

lemma seg_at_extend:
  assumes at: "seg_at cfg score st0 xs avail g ps out"
    and b: "subslice xs avail (avail + length b) = b" "avail + length b \<le> length xs"
  shows "seg_at cfg score st0 xs (avail + length b) (g\<lparr>raw := raw g @ b\<rparr>) ps out"
proof -
  have oi: "out_inv xs avail g out" using at by (simp add: seg_at_def)
  then have "raw_start g \<le> avail" by (simp add: out_inv_def)
  then have "subslice xs (raw_start g) avail @ b = subslice xs (raw_start g) (avail + length b)"
    using subslice_append_split[of "raw_start g" avail "avail + length b" xs] b(1) by simp
  then have o: "out_inv xs (avail + length b) (g\<lparr>raw := raw g @ b\<rparr>) out"
    using oi b(2) free_from_cong[of "g\<lparr>raw := raw g @ b\<rparr>" g] by (simp add: out_inv_def)
  have d: "dec_inv (g\<lparr>raw := r\<rparr>) mg run F = dec_inv g mg run F" for r mg run F
  proof -
    have "seg_shape (g\<lparr>raw := r\<rparr>) F = seg_shape g F" by (cases "merged g") (simp_all add: seg_shape_def)
    then show ?thesis by (cases "merged g"; cases run) (simp_all add: dec_inv_def)
  qed
  show ?thesis using at o by (simp add: seg_at_def seg_cfg_def d)
qed

lemma dec_inv_buffers: "dec_inv (g\<lparr>copied_to := c, out_idx := k, raw := r, raw_start := t\<rparr>) mg run F = dec_inv g mg run F"
proof -
  have "seg_shape (g\<lparr>copied_to := c, out_idx := k, raw := r, raw_start := t\<rparr>) F = seg_shape g F"
    by (cases "merged g") (simp_all add: seg_shape_def)
  then show ?thesis by (cases "merged g"; cases run) (simp_all add: dec_inv_def)
qed

lemma decided_to_cong:
  "merged h = merged g \<Longrightarrow> open_idx h = open_idx g \<Longrightarrow> pos h = pos g \<Longrightarrow> pad h = pad g
   \<Longrightarrow> regions h = regions g \<Longrightarrow> decided_to h = decided_to g"
  by (simp add: decided_to_def Let_def cong: option.case_cong if_cong)

lemma keep_from_cong:
  "merged h = merged g \<Longrightarrow> open_idx h = open_idx g \<Longrightarrow> pos h = pos g \<Longrightarrow> pad h = pad g
   \<Longrightarrow> regions h = regions g \<Longrightarrow> keep_from h = keep_from g"
  using decided_to_cong[of h g] by (simp add: keep_from_def cong: option.case_cong if_cong)

lemma push_with_ok:
  assumes at: "seg_at cfg score st0 xs avail g ps out" and ps: "pos g = length ps * VAD_FRAME_SAMPLES"
    and b: "subslice xs avail (avail + length b) = b" "avail + length b \<le> length xs"
  shows "(\<exists>e. push_with score b g out = Inl (Err e) \<and> batch_scan score st0 xs = Inl e)
    \<or> (\<exists>g' ps' out'. push_with score b g out = Inr (g', out') \<and> seg_at cfg score st0 xs (avail + length b) g' ps' out'
         \<and> pos g' = length ps' * VAD_FRAME_SAMPLES
         \<and> length (raw g') < VAD_FRAME_SAMPLES + min_silence g' + min_speech g' + pad g')"
proof -
  let ?av = "avail + length b"
  have "pos (g\<lparr>raw := raw g @ b\<rparr>) = length ps * VAD_FRAME_SAMPLES" using ps by simp
  from push_frames_ok[OF seg_at_extend[OF at b] this] show ?thesis
  proof (elim disjE exE conjE)
    fix e assume "push_frames score (g\<lparr>raw := raw g @ b\<rparr>) = Inl (Err e)" "batch_scan score st0 xs = Inl e"
    then show ?thesis by (simp add: push_with_def)
  next
    fix g1 ps'
    assume pf: "push_frames score (g\<lparr>raw := raw g @ b\<rparr>) = Inr g1" and at1: "seg_at cfg score st0 xs ?av g1 ps' out"
      and ps1: "pos g1 = length ps' * VAD_FRAME_SAMPLES" and near: "?av < pos g1 + VAD_FRAME_SAMPLES"
    have oi: "out_inv xs ?av g1 out" and cf: "seg_cfg cfg g1"
      and bs: "batch_scan score st0 xs = frame_scan None score xs (pos g1) (vstate g1) 0 0 ps'"
      using at1 by (simp_all add: seg_at_def)
    obtain F where dec: "dec_inv g1 (fst (batch_state cfg ps')) (snd (batch_state cfg ps')) F"
      using at1 by (auto simp: seg_at_def)
    from seg_flush_ok[OF oi] obtain c' k' where
      fl: "seg_flush g1 out = Inr (g1\<lparr>copied_to := c', out_idx := k'\<rparr>, kept c' xs (regions g1))"
      and oi2: "out_inv xs ?av (g1\<lparr>copied_to := c', out_idx := k'\<rparr>) (kept c' xs (regions g1))"
      and dn: "\<forall>(s, e) \<in> set (regions g1). c' < e \<longrightarrow> decided_to g1 \<le> max c' s" by blast
    let ?g2 = "g1\<lparr>copied_to := c', out_idx := k'\<rparr>"
    have dn2: "\<forall>(s, e) \<in> set (regions ?g2). copied_to ?g2 < e \<longrightarrow> decided_to ?g2 \<le> max (copied_to ?g2) s"
      using dn decided_to_cong[of ?g2 g1] by simp
    note tr = seg_trim_ok[OF oi2 dn2]
    obtain r t where g3: "seg_trim ?g2 = g1\<lparr>copied_to := c', out_idx := k', raw := r, raw_start := t\<rparr>"
      by (simp add: seg_trim_alt Let_def)
    have "seg_at cfg score st0 xs ?av (seg_trim ?g2) ps' (kept c' xs (regions g1))"
      using tr(1) cf dec bs unfolding g3 by (auto simp: seg_at_def seg_cfg_def dec_inv_buffers)
    moreover have "length (raw (seg_trim ?g2)) < VAD_FRAME_SAMPLES + min_silence g1 + min_speech g1 + pad g1"
      using tr(2) keep_from_lower[OF dec] near keep_from_cong[of ?g2 g1] by simp
    moreover have "push_with score b g out = Inr (seg_trim ?g2, kept c' xs (regions g1))"
      by (simp add: push_with_def pf fl)
    moreover have "pos (seg_trim ?g2) = length ps' * VAD_FRAME_SAMPLES" unfolding g3 using ps1 by simp
    moreover have "min_silence (seg_trim ?g2) = min_silence g1" "min_speech (seg_trim ?g2) = min_speech g1"
      "pad (seg_trim ?g2) = pad g1" by (simp_all add: g3)
    ultimately show ?thesis by metis
  qed
qed

lemma seg_at_new: "seg_at cfg score st0 xs 0 (segmenter_new cfg st0) [] []"
proof -
  have "out_inv xs 0 (segmenter_new cfg st0) []"
    by (simp add: out_inv_def segmenter_new_def reg_inv_def last_end_def)
  then show ?thesis using dec_inv_new[of cfg st0]
    by (auto simp: seg_at_def seg_cfg_def batch_state_Nil batch_scan_def segmenter_new_def)
qed

section \<open>Closing the stream\<close>

lemma finish_frames_ok:
  assumes "seg_at cfg score st0 xs (length xs) g ps out"
    and "pos g = min (length ps * VAD_FRAME_SAMPLES) (length xs)"
    and "length ps * VAD_FRAME_SAMPLES < length xs + VAD_FRAME_SAMPLES"
  shows "(\<exists>e. finish_frames score (length xs) g = Inl (Err e) \<and> batch_scan score st0 xs = Inl e)
    \<or> (\<exists>g' ps'. finish_frames score (length xs) g = Inr g' \<and> seg_at cfg score st0 xs (length xs) g' ps' out
         \<and> pos g' = length xs \<and> batch_scan score st0 xs = Inr ps'
         \<and> length xs \<le> length ps' * VAD_FRAME_SAMPLES
         \<and> length ps' * VAD_FRAME_SAMPLES < length xs + VAD_FRAME_SAMPLES)"
  using assms
proof (induction "length xs - pos g" arbitrary: g ps rule: less_induct)
  case less
  have oi: "out_inv xs (length xs) g out"
    and bs: "batch_scan score st0 xs = frame_scan None score xs (pos g) (vstate g) 0 0 ps"
    using less.prems by (simp_all add: seg_at_def)
  then have ra: "raw_start g \<le> pos g" "pos g \<le> length xs"
    and raw: "raw g = subslice xs (raw_start g) (length xs)" by (simp_all add: out_inv_def)
  have av: "length (raw g) = length xs - raw_start g" using ra by (simp add: raw)
  show ?case
  proof (cases "pos g < length xs")
    case False
    then have "finish_frames score (length xs) g = Inr g" by (subst finish_frames.simps) simp
    moreover have "pos g = length xs" "length xs \<le> length ps * VAD_FRAME_SAMPLES"
      using False ra less.prems(2) by simp_all
    moreover have "batch_scan score st0 xs = Inr ps" using bs False by (simp add: frame_scan_end)
    ultimately show ?thesis using less.prems by blast
  next
    case lt: True
    then have ps: "pos g = length ps * VAD_FRAME_SAMPLES" using less.prems(2) by simp
    define fin where "fin = min (pos g + VAD_FRAME_SAMPLES) (length xs)"
    have fin: "fin = min (pos g + VAD_FRAME_SAMPLES) (length xs)" "fin \<le> length xs" "pos g < fin"
      using lt by (simp_all add: fin_def)
    have "min (pos g - raw_start g + VAD_FRAME_SAMPLES) (length (raw g)) = fin - raw_start g"
      unfolding av fin_def using ra by simp
    then have sl: "subslice (raw g) (pos g - raw_start g) (min (pos g - raw_start g + VAD_FRAME_SAMPLES) (length (raw g)))
        = subslice xs (pos g) fin"
      using subslice_window[OF ra(1), of fin "length xs" xs] fin by (simp add: raw)
    have np: "\<not> (pos g < raw_start g \<or> length (raw g) < pos g - raw_start g)" using ra av by simp
    have step: "finish_frames score (length xs) g =
       (case score (subslice xs (pos g) fin) (vstate g) of
          Inl e \<Rightarrow> Inl (Err e)
        | Inr (prob, st') \<Rightarrow> finish_frames score (length xs) (seg_step prob fin (g\<lparr>vstate := st'\<rparr>)))"
      unfolding finish_frames.simps[of score _ g] Let_def sl
      by (simp only: if_P[OF lt] if_not_P[OF np] fin(1))
    show ?thesis
    proof (cases "score (subslice xs (pos g) fin) (vstate g)")
      case (Inl e)
      then show ?thesis using step seg_at_fail[OF less.prems(1) lt] fin by simp
    next
      case (Inr r)
      obtain p st' where r: "r = (p, st')" by (cases r)
      let ?g' = "seg_step p fin (g\<lparr>vstate := st'\<rparr>)"
      have at': "seg_at cfg score st0 xs (length xs) ?g' (ps @ [p]) out"
        by (rule seg_at_frame[OF less.prems(1) ps lt fin(1,2)]) (use Inr r in simp)
      have "pos ?g' = min (length (ps @ [p]) * VAD_FRAME_SAMPLES) (length xs)"
        using ps fin by (simp add: add.commute)
      moreover have "length (ps @ [p]) * VAD_FRAME_SAMPLES < length xs + VAD_FRAME_SAMPLES" using ps lt by simp
      moreover have "length xs - pos ?g' < length xs - pos g" using fin by simp
      ultimately show ?thesis using less.hyps[OF _ at'] step Inr r by simp
    qed
  qed
qed

lemma last_clamp: "rs \<noteq> [] \<Longrightarrow> last (clamp t rs) = (fst (last rs), min (snd (last rs)) t)"
  by (cases rs rule: rev_cases) (auto split: prod.splits)

lemma separated_clamp:
  "separated rs \<Longrightarrow> \<forall>(s, e) \<in> set rs. s < t \<Longrightarrow> separated (clamp t rs)"
  by (induction rs rule: separated.induct) auto

lemma kept_clamp: "c \<le> t \<Longrightarrow> kept c xs (clamp t rs) = kept c xs rs"
  by (induction rs) (auto simp: kept_Cons min.assoc min_absorb2)

lemma reg_ok_clamp:
  assumes ok: "reg_ok xs c r k rs out p f" and b: "p \<le> t" "c \<le> t" "r \<le> t"
  shows "reg_ok xs c r k (clamp t rs) out p f"
proof -
  have i: "reg_inv xs c r k rs out" using ok by (simp add: reg_ok_def)
  then have sep: "separated rs" by (simp add: reg_inv_def)
  have starts: "\<forall>(s, e) \<in> set rs. s < t"
  proof (clarify)
    fix s e assume m: "(s, e) \<in> set rs"
    then have "fst (last rs) < p" using ok by (auto simp: reg_ok_def)
    then show "s < t" using separated_last[OF sep m] separated_member[OF sep m] b(1) by (auto dest: sym)
  qed
  have le: "last_end (clamp t rs) = min (last_end rs) t"
    by (cases "rs = []") (simp_all add: last_end_def last_clamp)
  have tk: "\<forall>(s, e) \<in> set (take k rs). e \<le> c" and k1: "\<forall>(s, e) \<in> set rs. c < e \<longrightarrow> r \<le> max c s"
    using i by (simp_all add: reg_inv_def)
  have "\<forall>(s, e) \<in> set (take k (clamp t rs)). e \<le> c" using tk by (fastforce simp: take_map min_le_iff_disj)
  moreover have "\<forall>(s, e) \<in> set (clamp t rs). c < e \<longrightarrow> r \<le> max c s" using k1 by fastforce
  ultimately have "reg_inv xs c r k (clamp t rs) out"
    using i b le separated_clamp[OF sep starts] by (simp add: reg_inv_def kept_clamp)
  then show ?thesis using ok b le by (auto simp: reg_ok_def last_clamp)
qed

lemma seg_close_out:
  assumes dec: "dec_inv g mg run F" and oi: "out_inv xs (length xs) g out" and p: "pos g = length xs"
  shows "out_inv xs (length xs) (seg_close (length xs) g) out"
    and "merged (seg_close (length xs) g) = None" and "pos (seg_close (length xs) g) = length xs"
proof -
  let ?t = "length xs"
  note o = oi[unfolded out_inv_alt]
  have sh: "seg_shape g F" using dec by (simp add: dec_inv_def)
  define h where "h = (if in_run g then g\<lparr>merged := map_option (\<lambda>(a, b). (a, ?t)) (merged g), in_run := False\<rparr> else g)"
  show "merged (seg_close ?t g) = None"
    by (auto simp: seg_close_def Let_def split: option.splits prod.splits)
  show "pos (seg_close ?t g) = ?t"
    using p by (auto simp: seg_close_def Let_def split: option.splits prod.splits)
  have fr: "raw (seg_close ?t g) = raw g" "raw_start (seg_close ?t g) = raw_start g"
    "copied_to (seg_close ?t g) = copied_to g" "out_idx (seg_close ?t g) = out_idx g" "pad (seg_close ?t g) = pad g"
    by (auto simp: seg_close_def Let_def split: option.splits prod.splits)
  have "reg_ok xs (copied_to g) (raw_start g) (out_idx g) (regions (seg_close ?t g)) out ?t (?t - pad g)"
  proof (cases "merged g")
    case None
    then have "regions (seg_close ?t g) = clamp ?t (regions g)" by (simp add: seg_close_def)
    moreover have "reg_ok xs (copied_to g) (raw_start g) (out_idx g) (regions g) out ?t (?t - pad g)"
      using o None p by (simp add: free_from_def)
    ultimately show ?thesis using reg_ok_clamp o p by simp
  next
    case (Some m)
    obtain a b where m: "m = (a, b)" by (cases m)
    note mg = Some[unfolded m]
    have ab: "a < b" "b \<le> pos g" using seg_shape_open(1,2)[OF sh mg] by blast+
    have b: "in_run g \<Longrightarrow> b = ?t"
      using dec mg p merge_run_last by (fastforce simp: dec_inv_def split: option.splits)
    let ?h = "if in_run g then g\<lparr>merged := Some (a, ?t), in_run := False\<rparr> else g"
    have h: "merged ?h = Some (a, b)" "regions ?h = regions g" "open_idx ?h = open_idx g" "pad ?h = pad g"
      "min_speech ?h = min_speech g" using b mg by simp_all
    have ff: "free_from ?h = free_from g" using h mg p by (cases "open_idx g") (simp_all add: free_from_def)
    have i: "\<And>i. open_idx ?h = Some i \<Longrightarrow> i = length (regions ?h) - 1 \<and> regions ?h \<noteq> []"
      using seg_shape_open_idx[OF sh] unfolding h by blast
    have drop: "open_idx ?h = None \<Longrightarrow> b - a < min_speech ?h"
      using seg_shape_open(4)[OF sh mg] unfolding h by (cases "min_speech g \<le> b - a") auto
    have ok: "reg_ok xs (copied_to g) (raw_start g) (out_idx g) (regions ?h) out (pos g) (free_from ?h)"
      using o unfolding h ff by blast
    have rp: "raw_start g \<le> pos g" "pos g \<le> ?t" using o by simp_all
    from finalize_ok[OF h(1) ab rp drop i ok]
    have "reg_ok xs (copied_to g) (raw_start g) (out_idx g) (regions (finalize a b ?h)) out ?t (?t - pad g)"
      unfolding h .
    moreover have "regions (finalize a b (?h\<lparr>merged := None\<rparr>)) = regions (finalize a b ?h)"
      by (simp add: finalize_def Let_def grow_region_def push_padded_def split: option.split)
    moreover have "regions (seg_close ?t g) = clamp ?t (regions (finalize a b (?h\<lparr>merged := None\<rparr>)))"
      using mg h(1) by (simp add: seg_close_def Let_def)
    ultimately show ?thesis using reg_ok_clamp[of xs _ _ _ _ out ?t _ ?t] o p by simp
  qed
  then show "out_inv xs ?t (seg_close ?t g) out"
    using o p fr \<open>pos (seg_close ?t g) = ?t\<close> \<open>merged (seg_close ?t g) = None\<close>
    by (simp add: out_inv_alt free_from_def)
qed

lemma flush_all:
  assumes oi: "out_inv xs (length xs) g out" and m: "merged g = None" and p: "pos g = length xs"
    and e: "\<forall>(s, e) \<in> set (regions g). e \<le> length xs"
  shows "\<exists>g'. seg_flush g out = Inr (g', speech_of xs (regions g)) \<and> regions g' = regions g"
proof -
  from seg_flush_ok[OF oi] obtain c' k' where
    fl: "seg_flush g out = Inr (g\<lparr>copied_to := c', out_idx := k'\<rparr>, kept c' xs (regions g))"
    and dn: "\<forall>(s, e) \<in> set (regions g). c' < e \<longrightarrow> decided_to g \<le> max c' s" by blast
  have sep: "separated (regions g)" using oi by (simp add: out_inv_def reg_inv_def)
  have "e \<le> c'" if se: "(s, e) \<in> set (regions g)" for s e
  proof (rule ccontr)
    assume "\<not> e \<le> c'"
    then have "decided_to g \<le> max c' s" using dn se by fastforce
    moreover have "e \<le> min (last_end (regions g)) (pos g)"
      using separated_end_le[OF sep se] e se p by fastforce
    moreover have "s < e" using separated_member[OF sep se] .
    ultimately show False using decided_to_bounds(2)[of g] \<open>\<not> e \<le> c'\<close> by linarith
  qed
  then have "kept c' xs (regions g) = speech_of xs (regions g)"
    unfolding kept_def speech_of_def by (intro arg_cong[of _ _ concat] map_cong) auto
  then show ?thesis using fl by (intro exI[of _ "g\<lparr>copied_to := c', out_idx := k'\<rparr>"]) simp
qed

text \<open>
  The batch path as the engine runs it, and the streaming path: push the blocks, then close
  at the total length.
\<close>

definition batch_speech :: "'st scorer \<Rightarrow> 'st \<Rightarrow> vad_config \<Rightarrow> pcm \<Rightarrow> string fault + ((nat \<times> nat) list \<times> pcm)" where
  "batch_speech score st0 cfg xs =
     (case speech_regions_with_abort score st0 xs cfg None of
        Inl e \<Rightarrow> Inl (Err e)
      | Inr rs \<Rightarrow> Inr (rs, speech_of xs rs))"

fun push_blocks :: "'st scorer \<Rightarrow> pcm list \<Rightarrow> 'st segmenter \<Rightarrow> pcm \<Rightarrow> string fault + ('st segmenter \<times> pcm)" where
  "push_blocks score [] g out = Inr (g, out)"
| "push_blocks score (b # bs) g out =
     (case push_with score b g out of Inl e \<Rightarrow> Inl e | Inr (g', out') \<Rightarrow> push_blocks score bs g' out')"

definition stream_speech :: "'st scorer \<Rightarrow> 'st \<Rightarrow> vad_config \<Rightarrow> pcm list \<Rightarrow> string fault + ((nat \<times> nat) list \<times> pcm)" where
  "stream_speech score st0 cfg bs =
     (case push_blocks score bs (segmenter_new cfg st0) [] of
        Inl e \<Rightarrow> Inl e
      | Inr (g, out) \<Rightarrow>
          (case finish_with score (length (concat bs)) g out of
             Inl e \<Rightarrow> Inl e
           | Inr (g', out') \<Rightarrow> Inr (regions g', out')))"

lemma finish_with_ok:
  assumes at: "seg_at cfg score st0 xs (length xs) g ps out"
    and ps: "pos g = length ps * VAD_FRAME_SAMPLES"
  shows "(case finish_with score (length xs) g out of Inl e \<Rightarrow> Inl e | Inr (g', out') \<Rightarrow> Inr (regions g', out'))
     = batch_speech score st0 cfg xs"
proof -
  have bsp: "batch_speech score st0 cfg xs = (case batch_scan score st0 xs of Inl e \<Rightarrow> Inl (Err e)
     | Inr qs \<Rightarrow> Inr (regions_from_probs qs VAD_FRAME_SAMPLES (length xs) cfg,
                     speech_of xs (regions_from_probs qs VAD_FRAME_SAMPLES (length xs) cfg)))"
    by (simp add: batch_speech_def speech_regions_with_abort_def frame_probs_with_abort_def batch_scan_def
        split: sum.split)
  have "pos g \<le> length xs" using at by (simp add: seg_at_def out_inv_def)
  then have "pos g = min (length ps * VAD_FRAME_SAMPLES) (length xs)"
    "length ps * VAD_FRAME_SAMPLES < length xs + VAD_FRAME_SAMPLES" using ps by simp_all
  from finish_frames_ok[OF at this] show ?thesis
  proof (elim disjE exE conjE)
    fix e assume "finish_frames score (length xs) g = Inl (Err e)" "batch_scan score st0 xs = Inl e"
    then show ?thesis by (simp add: finish_with_def bsp)
  next
    fix g1 qs
    assume f: "finish_frames score (length xs) g = Inr g1" and at1: "seg_at cfg score st0 xs (length xs) g1 qs out"
      and p1: "pos g1 = length xs" and q: "batch_scan score st0 xs = Inr qs"
      and l: "length xs \<le> length qs * VAD_FRAME_SAMPLES" "length qs * VAD_FRAME_SAMPLES < length xs + VAD_FRAME_SAMPLES"
    obtain F where dec: "dec_inv g1 (fst (batch_state cfg qs)) (snd (batch_state cfg qs)) F"
      and oi: "out_inv xs (length xs) g1 out" and cf: "seg_cfg cfg g1" using at1 by (auto simp: seg_at_def)
    let ?h = "seg_close (length xs) g1"
    have rg: "regions ?h = regions_from_probs qs VAD_FRAME_SAMPLES (length xs) cfg"
      unfolding seg_close_regions[OF dec p1] regions_from_probs_state[OF l(2,1)]
      using cf by (simp add: seg_cfg_def split: option.split)
    have "\<forall>(s, e) \<in> set (regions ?h). e \<le> length xs"
      unfolding seg_close_regions[OF dec p1] by auto
    from flush_all[OF seg_close_out[OF dec oi p1] this] show ?thesis
      using f q rg by (auto simp: finish_with_def bsp)
  qed
qed

lemma batch_regions_shape:
  assumes "batch_speech score st0 cfg xs = Inr (rs, out)"
  shows "separated rs \<and> (\<forall>(s, e) \<in> set rs. e \<le> length xs)"
proof -
  have at: "seg_at cfg score st0 xs (length xs) ((segmenter_new cfg st0)\<lparr>raw := xs\<rparr>) [] []"
    using seg_at_extend[OF seg_at_new, of xs xs cfg score st0] by (simp add: segmenter_new_def)
  from finish_frames_ok[OF at] obtain g1 qs where
    at1: "seg_at cfg score st0 xs (length xs) g1 qs []" and p1: "pos g1 = length xs"
    and q: "batch_scan score st0 xs = Inr qs" and l: "length xs \<le> length qs * VAD_FRAME_SAMPLES"
      "length qs * VAD_FRAME_SAMPLES < length xs + VAD_FRAME_SAMPLES"
    using assms by (auto simp: segmenter_new_def batch_speech_def speech_regions_with_abort_def
        frame_probs_with_abort_def batch_scan_def)
  obtain F where dec: "dec_inv g1 (fst (batch_state cfg qs)) (snd (batch_state cfg qs)) F"
    and oi: "out_inv xs (length xs) g1 []" and cf: "seg_cfg cfg g1" using at1 by (auto simp: seg_at_def)
  have "rs = regions_from_probs qs VAD_FRAME_SAMPLES (length xs) cfg"
    using assms q by (simp add: batch_speech_def speech_regions_with_abort_def frame_probs_with_abort_def
        flip: batch_scan_def)
  then have rs: "rs = regions (seg_close (length xs) g1)"
    unfolding seg_close_regions[OF dec p1] regions_from_probs_state[OF l(2,1)]
    using cf by (simp add: seg_cfg_def split: option.split)
  show ?thesis
    using seg_close_out(1)[OF dec oi p1] unfolding rs
    by (auto simp: out_inv_def reg_inv_def seg_close_regions[OF dec p1])
qed

lemma push_blocks_ok:
  assumes "seg_at cfg score st0 xs (length xs - length (concat bs)) g ps out"
    and "pos g = length ps * VAD_FRAME_SAMPLES" and "\<exists>pre. xs = pre @ concat bs"
  shows "(case push_blocks score bs g out of
        Inl e \<Rightarrow> Inl e
      | Inr (g, out) \<Rightarrow>
          (case finish_with score (length xs) g out of
             Inl e \<Rightarrow> Inl e | Inr (g', out') \<Rightarrow> Inr (regions g', out')))
     = batch_speech score st0 cfg xs"
  using assms
proof (induction bs arbitrary: g ps out)
  case Nil
  then show ?case using finish_with_ok by simp
next
  case (Cons b bs)
  from Cons.prems(3) obtain pre where xs: "xs = pre @ b @ concat bs" by auto
  let ?av = "length xs - length (concat (b # bs))"
  have av: "?av = length pre" by (simp add: xs)
  have b: "subslice xs ?av (?av + length b) = b" "?av + length b \<le> length xs"
    unfolding av by (simp_all add: xs subslice_def)
  have av': "?av + length b = length xs - length (concat bs)" by (simp add: xs)
  have bsp: "batch_speech score st0 cfg xs = Inl (Err e)" if "batch_scan score st0 xs = Inl e" for e
    using that by (simp add: batch_speech_def speech_regions_with_abort_def frame_probs_with_abort_def batch_scan_def)
  from push_with_ok[OF Cons.prems(1,2) b] show ?case
  proof (elim disjE exE conjE)
    fix e assume "push_with score b g out = Inl (Err e)" "batch_scan score st0 xs = Inl e"
    then show ?thesis using bsp by simp
  next
    fix g' ps' out'
    assume p: "push_with score b g out = Inr (g', out')" and at: "seg_at cfg score st0 xs (?av + length b) g' ps' out'"
      and ps': "pos g' = length ps' * VAD_FRAME_SAMPLES"
    have ex: "\<exists>pre. xs = pre @ concat bs" by (rule exI[of _ "pre @ b"]) (simp add: xs)
    from Cons.IH[OF at[unfolded av'] ps' ex] p show ?thesis by simp
  qed
qed

lemma stream_speech_batch: "stream_speech score st0 cfg bs = batch_speech score st0 cfg (concat bs)"
  using push_blocks_ok[of cfg score st0 "concat bs" bs "segmenter_new cfg st0" "[]" "[]"]
    seg_at_new[of cfg score st0 "concat bs"]
  by (simp add: stream_speech_def segmenter_new_def)

lemma push_blocks_retained:
  assumes "seg_at cfg score st0 xs (length xs - length (concat bs)) g ps out"
    and "pos g = length ps * VAD_FRAME_SAMPLES" and "\<exists>pre. xs = pre @ concat bs"
    and "length (raw g) < VAD_FRAME_SAMPLES + min_silence g + min_speech g + pad g"
    and "push_blocks score bs g out = Inr (g', out')"
  shows "seg_cfg cfg g' \<and> length (raw g') < VAD_FRAME_SAMPLES + min_silence g' + min_speech g' + pad g'"
  using assms
proof (induction bs arbitrary: g ps out)
  case Nil
  then show ?case by (simp add: seg_at_def)
next
  case (Cons b bs)
  from Cons.prems(3) obtain pre where xs: "xs = pre @ b @ concat bs" by auto
  let ?av = "length xs - length (concat (b # bs))"
  have av: "?av = length pre" by (simp add: xs)
  have b: "subslice xs ?av (?av + length b) = b" "?av + length b \<le> length xs"
    unfolding av by (simp_all add: xs subslice_def)
  have av': "?av + length b = length xs - length (concat bs)" by (simp add: xs)
  from push_with_ok[OF Cons.prems(1,2) b] Cons.prems(5) obtain g1 ps1 out1 where
    p: "push_with score b g out = Inr (g1, out1)" and at: "seg_at cfg score st0 xs (?av + length b) g1 ps1 out1"
    and ps1: "pos g1 = length ps1 * VAD_FRAME_SAMPLES"
    and l: "length (raw g1) < VAD_FRAME_SAMPLES + min_silence g1 + min_speech g1 + pad g1" by auto
  have ex: "\<exists>pre. xs = pre @ concat bs" by (rule exI[of _ "pre @ b"]) (simp add: xs)
  from Cons.IH[OF at[unfolded av'] ps1 ex l] Cons.prems(5) p show ?case by simp
qed

section \<open>Properties\<close>

text \<open>
  C7: whatever blocks the samples arrive in, the streaming segmenter gives exactly what the
  batch path gives on their concatenation: the same regions, the same silence-free samples,
  the same model error; it never slices outside its retained samples.
\<close>
theorem vad_streaming_equals_batch:
  "stream_speech score st0 cfg bs = batch_speech score st0 cfg (concat bs)"
  by (rule stream_speech_batch)

text \<open>
  After any number of pushes the segmenter retains fewer samples than one frame plus the
  three look-aheads of its configuration, however long the stream.
\<close>
theorem vad_retained_bound:
  assumes "push_blocks score bs (segmenter_new cfg st0) [] = Inr (g, out)"
  shows "length (raw g) < VAD_FRAME_SAMPLES + ms_to_samples (min_silence_ms cfg)
           + ms_to_samples (min_speech_ms cfg) + ms_to_samples (speech_pad_ms cfg)"
  using push_blocks_retained[of cfg score st0 "concat bs" bs "segmenter_new cfg st0" "[]" "[]" g out]
    seg_at_new[of cfg score st0 "concat bs"] assms
  by (simp add: segmenter_new_def seg_cfg_def)

text \<open>A loud frame and a silent one, scored by the first sample of the frame.\<close>

lemma vad_retained_bound_witness:
  "\<exists>g out. push_blocks (\<lambda>f st. Inr (hd f, st)) [replicate 512 (Fin 1), replicate 600 (Fin 0)]
             (segmenter_new vad_config_default ()) [] = Inr (g, out) \<and> length (raw g) < 14112"
proof -
  let ?sc = "\<lambda>f st. Inr (hd f, st) :: string + (float_val \<times> unit)"
  let ?bs = "[replicate 512 (Fin 1), replicate 600 (Fin 0)]"
  have "stream_speech ?sc () vad_config_default ?bs \<noteq> Inl e" for e
  proof -
    have "\<exists>qs. frame_scan None ?sc ys i () 0 0 acc = Inr qs" for ys i acc
    proof (induction "length ys - i" arbitrary: i acc rule: less_induct)
      case less
      then show ?case by (subst frame_scan.simps) (simp add: Let_def min_def)
    qed
    then obtain qs where "frame_scan None ?sc (concat ?bs) 0 () 0 0 [] = Inr qs" by blast
    then show ?thesis
      unfolding stream_speech_batch batch_speech_def speech_regions_with_abort_def frame_probs_with_abort_def
      by simp
  qed
  then obtain g out where "push_blocks ?sc ?bs (segmenter_new vad_config_default ()) [] = Inr (g, out)"
    by (cases "push_blocks ?sc ?bs (segmenter_new vad_config_default ()) []") (auto simp: stream_speech_def)
  then show ?thesis
    using vad_retained_bound [of ?sc ?bs vad_config_default "()" g out]
    by (auto simp: vad_config_default_def ms_to_samples_def VAD_SAMPLE_RATE_def)
qed

text \<open>
  The speech regions are non-empty, in order, separated from each other, and inside the
  signal; the silence-free buffer has the sum of their lengths.
\<close>
theorem vad_regions_wellformed:
  assumes "batch_speech score st0 cfg xs = Inr (rs, out)"
  shows "separated rs \<and> (\<forall>(s, e) \<in> set rs. e \<le> length xs) \<and> length out = (\<Sum>(s, e)\<leftarrow>rs. e - s)"
proof -
  have out: "out = speech_of xs rs"
    using assms by (auto simp: batch_speech_def split: sum.splits)
  note sh = batch_regions_shape[OF assms]
  have "map (length \<circ> (\<lambda>(s, e). subslice xs s e)) rs = map (\<lambda>(s, e). e - s) rs"
    using sh by (intro map_cong) (auto simp: min_def)
  then have "length out = (\<Sum>(s, e)\<leftarrow>rs. e - s)"
    by (simp only: out speech_of_def length_concat map_map)
  then show ?thesis using sh by blast
qed

lemma vad_regions_wellformed_witness:
  "\<exists>rs out. batch_speech (\<lambda>f st. Inr (Fin 1, st)) () (vad_config_default\<lparr>min_speech_ms := 0\<rparr>) [Fin 1, Fin 2] = Inr (rs, out)
     \<and> rs = [(0, 2)] \<and> length out = 2"
proof -
  have "batch_speech (\<lambda>f st. Inr (Fin 1, st)) () (vad_config_default\<lparr>min_speech_ms := 0\<rparr>) [Fin 1, Fin 2]
      = Inr ([(0, 2)], [Fin 1, Fin 2])"
    by (simp add: batch_speech_def speech_regions_with_abort_def frame_probs_with_abort_def frame_scan.simps
        regions_from_probs_def raw_runs_def vad_config_default_def merge_run_def push_span_def speech_of_def
        subslice_def Let_def ms_to_samples_def VAD_SAMPLE_RATE_def)
  from vad_regions_wellformed [OF this] this show ?thesis by simp
qed

end
