(* ===== verification/Window_Cursor.thy ===== *)
theory Window_Cursor
  imports Prelude
begin

text \<open>
  Long-form window geometry of \<open>inference/audio/stream.rs\<close> and \<open>inference/windows.rs\<close>:
  \<open>WindowSpec\<close> and the pure \<open>WindowCursor\<close> that every PCM source shares. The reference
  definition \<open>ref_windows\<close> says in closed form which windows a recording of a given length
  is cut into; the cursor is shown to produce exactly these, and their geometry (cover,
  overlap, length, frame alignment) is derived from the closed form.
\<close>

section \<open>Constants and WindowSpec\<close>

definition HOP_LENGTH :: nat where "HOP_LENGTH = 160"
definition ENCODER_SUBSAMPLING :: nat where "ENCODER_SUBSAMPLING = 4"

definition FRAME_SAMPLES :: nat where
  "FRAME_SAMPLES = HOP_LENGTH * ENCODER_SUBSAMPLING"

lemma FRAME_SAMPLES_eq [simp]: "FRAME_SAMPLES = 640"
  by (simp add: FRAME_SAMPLES_def HOP_LENGTH_def ENCODER_SUBSAMPLING_def)

record window_spec =
  single_pass_max :: nat
  window :: nat
  stride :: nat

definition window_spec_new :: "nat \<Rightarrow> nat \<Rightarrow> nat \<Rightarrow> window_spec" where
  "window_spec_new spm w ov =
     \<lparr>single_pass_max = spm, window = w,
      stride = max ((w - ov) div FRAME_SAMPLES * FRAME_SAMPLES) FRAME_SAMPLES\<rparr>"

definition overlap :: "window_spec \<Rightarrow> nat" where
  "overlap sp = window sp - stride sp"

definition is_single_pass :: "window_spec \<Rightarrow> nat \<Rightarrow> bool" where
  "is_single_pass sp tot \<longleftrightarrow> tot \<le> single_pass_max sp"

definition flat_spec :: window_spec where
  "flat_spec = window_spec_new usize_max usize_max 0"

definition CHUNK_THRESHOLD_SAMPLES :: nat where "CHUNK_THRESHOLD_SAMPLES = 16000 * 30"
definition CHUNK_WINDOW_SAMPLES_ORT :: nat where "CHUNK_WINDOW_SAMPLES_ORT = 16000 * 24"
definition CHUNK_WINDOW_SAMPLES_ANE :: nat where "CHUNK_WINDOW_SAMPLES_ANE = 16000 * 30"
definition CHUNK_OVERLAP_SAMPLES :: nat where "CHUNK_OVERLAP_SAMPLES = 16000 * 2"

definition chunk_window_samples :: "bool \<Rightarrow> nat" where
  "chunk_window_samples ane =
     (if ane then CHUNK_WINDOW_SAMPLES_ANE else CHUNK_WINDOW_SAMPLES_ORT)"

definition window_spec_for :: "bool \<Rightarrow> bool \<Rightarrow> window_spec" where
  "window_spec_for ane ctc =
     window_spec_new CHUNK_THRESHOLD_SAMPLES (chunk_window_samples ane) CHUNK_OVERLAP_SAMPLES"

text \<open>The specs for which windows cannot leave a hole: the window holds at least one frame.\<close>

definition valid_spec :: "window_spec \<Rightarrow> bool" where
  "valid_spec sp \<longleftrightarrow> 0 < stride sp \<and> FRAME_SAMPLES dvd stride sp \<and> stride sp \<le> window sp"

lemma window_spec_new_valid:
  "FRAME_SAMPLES \<le> w \<Longrightarrow> valid_spec (window_spec_new spm w ov)"
proof -
  assume w: "FRAME_SAMPLES \<le> w"
  have "(w - ov) div 640 * 640 \<le> w - ov" by (rule div_times_less_eq_dividend)
  then have "(w - ov) div 640 * 640 \<le> w" by simp
  moreover have "640 dvd max ((w - ov) div 640 * 640) 640" by (simp add: max_def)
  ultimately show ?thesis using w by (simp add: valid_spec_def window_spec_new_def)
qed

section \<open>WindowCursor\<close>

record window_cursor =
  spec :: window_spec
  next_start :: nat
  prev_start :: "nat option"
  cursor_done :: bool

definition window_cursor_new :: "window_spec \<Rightarrow> window_cursor" where
  "window_cursor_new sp = \<lparr>spec = sp, next_start = 0, prev_start = None, cursor_done = False\<rparr>"

definition last_window_max :: "window_spec \<Rightarrow> nat" where
  "last_window_max sp = max (single_pass_max sp) (window sp)"

definition retain_from :: "window_cursor \<Rightarrow> nat" where
  "retain_from c = next_start c - stride (spec c)"

definition fill_target :: "window_cursor \<Rightarrow> nat" where
  "fill_target c = sat_add (sat_add (next_start c) (last_window_max (spec c))) 1"

definition anchored_start :: "window_cursor \<Rightarrow> nat \<Rightarrow> nat \<Rightarrow> nat" where
  "anchored_start c nominal len =
     (case prev_start c of
        None \<Rightarrow> nominal
      | Some prev \<Rightarrow>
          if len < window (spec c) \<or> overlap (spec c) = 0 then nominal
          else let anchored = div_ceil (len - window (spec c)) FRAME_SAMPLES * FRAME_SAMPLES
               in min (max anchored (prev + FRAME_SAMPLES)) nominal)"

definition cursor_take :: "window_cursor \<Rightarrow> nat \<Rightarrow> bool \<Rightarrow> (nat \<times> nat) option \<times> window_cursor" where
  "cursor_take c avail eof =
     (if cursor_done c then (None, c)
      else if avail \<le> next_start c then (None, c\<lparr>cursor_done := True\<rparr>)
      else
        let start0 = next_start c;
            remaining = avail - start0;
            absorb = (eof \<and> remaining \<le> last_window_max (spec c)
                      \<and> (window (spec c) \<le> remaining \<or> prev_start c = None));
            (start, fin) =
              (if absorb then (start0, avail)
               else let e = min (start0 + window (spec c)) avail in
                    if eof \<and> e = avail then (anchored_start c start0 avail, avail)
                    else (start0, e));
            c' = (if eof \<and> fin = avail then c\<lparr>cursor_done := True\<rparr>
                  else c\<lparr>next_start := start + stride (spec c)\<rparr>)
        in (Some (start, fin), c'\<lparr>prev_start := Some start\<rparr>))"

text \<open>
  Every source asks the cursor until it answers \<open>None\<close>. Nothing in the loop bounds the
  number of answers, so it is a partial function: \<open>None\<close> would mean that it never stops.
\<close>

partial_function (option) drain_cursor :: "window_cursor \<Rightarrow> nat \<Rightarrow> (nat \<times> nat) list option" where
  "drain_cursor c tot =
     (case cursor_take c tot True of
        (None, c') \<Rightarrow> Some []
      | (Some w, c') \<Rightarrow> Option.bind (drain_cursor c' tot) (\<lambda>ws. Some (w # ws)))"

section \<open>The reference windows\<close>

text \<open>How many windows of the full length precede the last one.\<close>

definition n_regular :: "window_spec \<Rightarrow> nat \<Rightarrow> nat" where
  "n_regular sp tot = div_ceil (tot - last_window_max sp) (stride sp)"

definition last_start :: "window_spec \<Rightarrow> nat \<Rightarrow> nat" where
  "last_start sp tot =
     (let nominal = n_regular sp tot * stride sp in
      if n_regular sp tot = 0 \<or> window sp \<le> tot - nominal \<or> overlap sp = 0 then nominal
      else div_ceil (tot - window sp) FRAME_SAMPLES * FRAME_SAMPLES)"

definition ref_windows :: "window_spec \<Rightarrow> nat \<Rightarrow> (nat \<times> nat) list" where
  "ref_windows sp tot =
     (if tot = 0 then []
      else map (\<lambda>i. (i * stride sp, i * stride sp + window sp)) [0..<n_regular sp tot]
           @ [(last_start sp tot, tot)])"

lemma n_regular_less:
  assumes "valid_spec sp" and "k < n_regular sp tot"
  shows "last_window_max sp < tot - k * stride sp"
proof -
  have st: "0 < stride sp" using assms(1) by (simp add: valid_spec_def)
  have "div_ceil (tot - last_window_max sp) (stride sp) * stride sp
        < tot - last_window_max sp + stride sp"
    using div_ceil_bounds(2)[OF st] .
  moreover have "(k + 1) * stride sp \<le> n_regular sp tot * stride sp"
    using assms(2) by (intro mult_le_mono1) simp
  ultimately have "k * stride sp < tot - last_window_max sp"
    by (simp add: n_regular_def)
  then show ?thesis by linarith
qed

lemma regular_end_less:
  assumes "valid_spec sp" and "k < n_regular sp tot"
  shows "k * stride sp + window sp < tot"
proof -
  have "window sp \<le> last_window_max sp" by (simp add: last_window_max_def)
  then show ?thesis using n_regular_less[OF assms] by linarith
qed

lemma n_regular_last:
  assumes "valid_spec sp"
  shows "tot - n_regular sp tot * stride sp \<le> last_window_max sp"
proof -
  have "0 < stride sp" using assms by (simp add: valid_spec_def)
  from div_ceil_bounds(1)[OF this, of "tot - last_window_max sp"]
  show ?thesis by (simp add: n_regular_def)
qed

lemma n_regular_pos_rest:
  assumes v: "valid_spec sp" and t: "0 < tot"
  shows "n_regular sp tot * stride sp < tot"
proof (cases "n_regular sp tot")
  case 0
  then show ?thesis using t by simp
next
  case (Suc k)
  then have "last_window_max sp < tot - k * stride sp"
    using n_regular_less[OF v, of k tot] by simp
  moreover have "stride sp \<le> last_window_max sp"
    using v by (simp add: valid_spec_def last_window_max_def le_max_iff_disj)
  ultimately show ?thesis using Suc by simp
qed

section \<open>The cursor produces the reference windows\<close>

text \<open>The cursor between two windows: \<open>k\<close> regular windows have been yielded.\<close>

definition cursor_at :: "window_spec \<Rightarrow> nat \<Rightarrow> window_cursor" where
  "cursor_at sp k =
     \<lparr>spec = sp, next_start = k * stride sp,
      prev_start = (if k = 0 then None else Some ((k - 1) * stride sp)), cursor_done = False\<rparr>"

lemma cursor_at_0: "cursor_at sp 0 = window_cursor_new sp"
  by (simp add: cursor_at_def window_cursor_new_def)

lemma cursor_take_regular:
  assumes "last_window_max sp < avail - k * stride sp"
  shows "cursor_take (cursor_at sp k) avail eof
         = (Some (k * stride sp, k * stride sp + window sp), cursor_at sp (Suc k))"
proof -
  have w: "window sp \<le> last_window_max sp" by (simp add: last_window_max_def)
  then have "k * stride sp + window sp < avail" using assms by linarith
  then show ?thesis using assms
    by (simp add: cursor_take_def cursor_at_def Let_def min_def add.commute)
qed

lemma anchored_between:
  assumes v: "valid_spec sp" and n: "n_regular sp tot = Suc m"
    and short: "tot - n_regular sp tot * stride sp < window sp"
  shows "m * stride sp + FRAME_SAMPLES \<le> div_ceil (tot - window sp) FRAME_SAMPLES * FRAME_SAMPLES"
    and "div_ceil (tot - window sp) FRAME_SAMPLES * FRAME_SAMPLES \<le> n_regular sp tot * stride sp"
proof -
  obtain q where q: "stride sp = 640 * q" using v by (auto simp: valid_spec_def)
  have "last_window_max sp < tot - m * stride sp" using n_regular_less[OF v, of m tot] n by simp
  moreover have "window sp \<le> last_window_max sp" by (simp add: last_window_max_def)
  ultimately have "m * stride sp < tot - window sp" by linarith
  then have "m * q * 640 < div_ceil (tot - window sp) 640 * 640"
    using div_ceil_bounds(1)[of 640 "tot - window sp"] q by (simp add: ac_simps)
  then have "m * q + 1 \<le> div_ceil (tot - window sp) 640" by simp
  then have "(m * q + 1) * 640 \<le> div_ceil (tot - window sp) 640 * 640" by (rule mult_le_mono1)
  then show "m * stride sp + FRAME_SAMPLES
             \<le> div_ceil (tot - window sp) FRAME_SAMPLES * FRAME_SAMPLES"
    by (simp add: q algebra_simps)
  have "tot - window sp \<le> n_regular sp tot * q * 640"
    using short q by (simp add: ac_simps)
  from div_ceil_le[OF _ this]
  show "div_ceil (tot - window sp) FRAME_SAMPLES * FRAME_SAMPLES \<le> n_regular sp tot * stride sp"
    by (simp add: q ac_simps)
qed

lemma anchored_start_last:
  assumes v: "valid_spec sp" and n: "n_regular sp tot = Suc m"
    and short: "tot - n_regular sp tot * stride sp < window sp"
  shows "anchored_start (cursor_at sp (n_regular sp tot)) (n_regular sp tot * stride sp) tot
         = last_start sp tot"
proof -
  have "last_window_max sp < tot - 0 * stride sp"
    using n_regular_less[OF v, of 0 tot] n by simp
  then have "window sp < tot" by (simp add: last_window_max_def)
  then show ?thesis
    using n short anchored_between[OF v n short]
    by (simp add: anchored_start_def cursor_at_def last_start_def Let_def min_def max_def)
qed

lemma cursor_take_last:
  assumes v: "valid_spec sp" and t: "0 < tot"
  shows "\<exists>c'. cursor_take (cursor_at sp (n_regular sp tot)) tot True
              = (Some (last_start sp tot, tot), c') \<and> cursor_done c'"
proof -
  let ?n = "n_regular sp tot" and ?s = "n_regular sp tot * stride sp"
  have lt: "?s < tot" using n_regular_pos_rest[OF v t] .
  have le: "tot - ?s \<le> last_window_max sp" using n_regular_last[OF v] .
  show ?thesis
  proof (cases "window sp \<le> tot - ?s \<or> ?n = 0")
    case True
    then have "last_start sp tot = ?s" by (auto simp: last_start_def Let_def)
    then show ?thesis using True lt le
      by (auto simp: cursor_take_def cursor_at_def Let_def)
  next
    case False
    then obtain m where m: "?n = Suc m" by (cases ?n) auto
    from False have short: "tot - ?s < window sp" by simp
    have "?s + window sp > tot" using short by linarith
    then show ?thesis
      using anchored_start_last[OF v m short] False lt short
      by (simp add: cursor_take_def Let_def min_def cursor_at_def)
  qed
qed

lemma cursor_take_done: "cursor_done c \<Longrightarrow> cursor_take c avail eof = (None, c)"
  by (simp add: cursor_take_def)

lemma drain_cursor_done: "cursor_done c \<Longrightarrow> drain_cursor c tot = Some []"
  by (subst drain_cursor.simps) (simp add: cursor_take_done)

lemma drain_cursor_at:
  assumes v: "valid_spec sp" and t: "0 < tot"
  shows "k \<le> n_regular sp tot \<Longrightarrow>
    drain_cursor (cursor_at sp k) tot
    = Some (map (\<lambda>i. (i * stride sp, i * stride sp + window sp)) [k..<n_regular sp tot]
            @ [(last_start sp tot, tot)])"
proof (induction "n_regular sp tot - k" arbitrary: k)
  case 0
  then have k: "k = n_regular sp tot" by simp
  from cursor_take_last[OF v t] obtain c' where
    "cursor_take (cursor_at sp k) tot True = (Some (last_start sp tot, tot), c')" "cursor_done c'"
    using k by auto
  then show ?case using k
    by (subst drain_cursor.simps) (simp add: drain_cursor_done)
next
  case (Suc d)
  then have k: "k < n_regular sp tot" by simp
  have "drain_cursor (cursor_at sp (Suc k)) tot
    = Some (map (\<lambda>i. (i * stride sp, i * stride sp + window sp)) [Suc k..<n_regular sp tot]
            @ [(last_start sp tot, tot)])"
    using Suc by (intro Suc.hyps(1)) simp_all
  then show ?case
    using k cursor_take_regular[OF n_regular_less[OF v k], of True]
    by (subst drain_cursor.simps) (simp add: upt_conv_Cons)
qed

lemma drain_cursor_ref:
  assumes "valid_spec sp"
  shows "drain_cursor (window_cursor_new sp) tot = Some (ref_windows sp tot)"
proof (cases "tot = 0")
  case True
  then show ?thesis
    by (subst drain_cursor.simps)
       (simp add: cursor_take_def window_cursor_new_def ref_windows_def)
next
  case False
  then show ?thesis
    using drain_cursor_at[OF assms, of tot 0] by (simp add: cursor_at_0 ref_windows_def)
qed

section \<open>Geometry of the reference windows\<close>

lemma n_regular_0_iff: "0 < stride sp \<Longrightarrow> n_regular sp tot = 0 \<longleftrightarrow> tot \<le> last_window_max sp"
  by (auto simp: n_regular_def div_ceil_def)

lemma last_start_less:
  assumes v: "valid_spec sp" and t: "0 < tot"
  shows "last_start sp tot < tot" and "last_start sp tot \<le> n_regular sp tot * stride sp"
proof -
  let ?s = "n_regular sp tot * stride sp"
  have lt: "?s < tot" using n_regular_pos_rest[OF v t] .
  have "last_start sp tot \<le> ?s"
  proof (cases "n_regular sp tot = 0 \<or> window sp \<le> tot - ?s \<or> overlap sp = 0")
    case True
    then show ?thesis by (auto simp: last_start_def Let_def)
  next
    case False
    then obtain m where m: "n_regular sp tot = Suc m" by (cases "n_regular sp tot") auto
    with False anchored_between(2)[OF v m] show ?thesis by (simp add: last_start_def Let_def)
  qed
  then show "last_start sp tot \<le> ?s" and "last_start sp tot < tot" using lt by simp_all
qed

lemma last_start_after:
  assumes v: "valid_spec sp" and m: "n_regular sp tot = Suc m"
  shows "m * stride sp < last_start sp tot"
proof (cases "window sp \<le> tot - n_regular sp tot * stride sp \<or> overlap sp = 0")
  case True
  moreover have "0 < stride sp" using v by (simp add: valid_spec_def)
  ultimately show ?thesis using m by (auto simp: last_start_def Let_def)
next
  case False
  with anchored_between(1)[OF v m] m show ?thesis by (auto simp: last_start_def Let_def)
qed

lemma last_start_dvd: "valid_spec sp \<Longrightarrow> FRAME_SAMPLES dvd last_start sp tot"
  by (auto simp: last_start_def Let_def valid_spec_def)

lemma last_length:
  assumes v: "valid_spec sp"
  shows "tot - last_start sp tot \<le> last_window_max sp"
    and "last_window_max sp < tot \<Longrightarrow> 0 < overlap sp \<Longrightarrow>
         window sp < tot - last_start sp tot + FRAME_SAMPLES"
proof -
  let ?s = "n_regular sp tot * stride sp"
  have le: "tot - ?s \<le> last_window_max sp" using n_regular_last[OF v] .
  have w: "window sp \<le> last_window_max sp" by (simp add: last_window_max_def)
  note b = div_ceil_bounds[of 640 "tot - window sp"]
  show "tot - last_start sp tot \<le> last_window_max sp"
    using le b(1) w by (simp add: last_start_def Let_def) linarith
  assume long: "last_window_max sp < tot" and ov: "0 < overlap sp"
  have n: "n_regular sp tot \<noteq> 0" using n_regular_0_iff v long by (simp add: valid_spec_def)
  show "window sp < tot - last_start sp tot + FRAME_SAMPLES"
    using n ov b(2) long w by (simp add: last_start_def Let_def) linarith
qed

lemma successively_map_upt:
  assumes "\<And>i. Suc i < n \<Longrightarrow> P (f i) (f (Suc i))" and "0 < n \<Longrightarrow> P (f (n - 1)) x"
  shows "successively P (map f [0..<n] @ [x])"
  using assms
proof (induction n arbitrary: x)
  case 0
  then show ?case by simp
next
  case (Suc n)
  have "successively P (map f [0..<n] @ [f n])"
    using Suc.prems(1) Suc.prems(1)[of "n - 1"] by (intro Suc.IH) auto
  then show ?case using Suc.prems(2) by (simp add: successively_append_iff)
qed

text \<open>
  Two consecutive windows \<open>(s, e)\<close> and \<open>(s', e')\<close>: the first has the full length and stops
  before the end, the second starts later, on the frame grid, and shares at least the
  overlap of the spec with the first, so no sample between them is lost.
\<close>

definition seam_ok :: "window_spec \<Rightarrow> nat \<Rightarrow> (nat \<times> nat) \<Rightarrow> (nat \<times> nat) \<Rightarrow> bool" where
  "seam_ok sp tot = (\<lambda>(s, e) (s', e').
     e = s + window sp \<and> e < tot \<and> s < s' \<and> s' + overlap sp \<le> e \<and> e \<le> e' \<and> e' \<le> tot)"

lemma ref_windows_seams:
  assumes v: "valid_spec sp" and t: "0 < tot"
  shows "successively (seam_ok sp tot) (ref_windows sp tot)"
proof -
  have st: "0 < stride sp" "stride sp \<le> window sp" using v by (auto simp: valid_spec_def)
  note reg = regular_end_less[OF v, of _ tot]
  have "successively (seam_ok sp tot)
     (map (\<lambda>i. (i * stride sp, i * stride sp + window sp)) [0..<n_regular sp tot]
      @ [(last_start sp tot, tot)])"
  proof (rule successively_map_upt)
    fix i assume i: "Suc i < n_regular sp tot"
    then show "seam_ok sp tot (i * stride sp, i * stride sp + window sp)
                 (Suc i * stride sp, Suc i * stride sp + window sp)"
      using reg[of i] reg[of "Suc i"] st by (simp add: seam_ok_def overlap_def)
  next
    assume "0 < n_regular sp tot"
    then obtain m where m: "n_regular sp tot = Suc m" by (cases "n_regular sp tot") auto
    then show "seam_ok sp tot
                 ((n_regular sp tot - 1) * stride sp, (n_regular sp tot - 1) * stride sp + window sp)
                 (last_start sp tot, tot)"
      using reg[of m] last_start_after[OF v m] last_start_less[OF v t] st
      by (simp add: seam_ok_def overlap_def)
  qed
  then show ?thesis using t by (simp add: ref_windows_def)
qed

lemma ref_windows_ends:
  assumes "valid_spec sp" and "0 < tot"
  shows "ref_windows sp tot \<noteq> []" and "fst (hd (ref_windows sp tot)) = 0"
    and "snd (last (ref_windows sp tot)) = tot"
  using assms
  by (auto simp: ref_windows_def hd_append hd_map last_start_def Let_def upt_conv_Cons)

lemma ref_windows_member:
  assumes v: "valid_spec sp" and m: "(s, e) \<in> set (ref_windows sp tot)"
  shows "s < e \<and> e \<le> tot \<and> FRAME_SAMPLES dvd s \<and> e - s \<le> last_window_max sp"
proof -
  have st: "0 < window sp" "640 dvd stride sp" using v by (auto simp: valid_spec_def)
  have t: "0 < tot" using m by (auto simp: ref_windows_def split: if_splits)
  note reg = regular_end_less[OF v, of _ tot]
  show ?thesis
    using m t st reg last_start_less(1)[OF v t] last_start_dvd[OF v, of tot] last_length(1)[OF v]
    by (auto simp: ref_windows_def last_window_max_def less_imp_le)
qed

lemma ref_windows_long:
  assumes v: "valid_spec sp" and l: "last_window_max sp < tot" and ov: "0 < overlap sp"
    and m: "(s, e) \<in> set (ref_windows sp tot)"
  shows "window sp < e - s + FRAME_SAMPLES"
  using m last_length(2)[OF v l ov] by (auto simp: ref_windows_def split: if_splits)

lemma ref_windows_single:
  assumes v: "valid_spec sp" and t: "0 < tot"
  shows "tot \<le> last_window_max sp \<longleftrightarrow> ref_windows sp tot = [(0, tot)]"
proof -
  have st: "0 < stride sp" using v by (simp add: valid_spec_def)
  have "length (ref_windows sp tot) = Suc (n_regular sp tot)"
    using t by (simp add: ref_windows_def)
  then show ?thesis
    using n_regular_0_iff[OF st, of tot] t
    by (auto simp: ref_windows_def last_start_def Let_def)
qed

section \<open>Properties\<close>

text \<open>
  C15: for every spec built by \<open>WindowSpec::new\<close> with a window of at least one encoder frame,
  the drain loop over the cursor stops, and the windows it yields are the reference windows.
\<close>
theorem cursor_yields_reference_windows:
  assumes "FRAME_SAMPLES \<le> w"
  shows "drain_cursor (window_cursor_new (window_spec_new spm w ov)) tot
         = Some (ref_windows (window_spec_new spm w ov) tot)"
  using assms by (intro drain_cursor_ref window_spec_new_valid)

lemma cursor_yields_reference_windows_witness:
  "drain_cursor (window_cursor_new (window_spec_new 1000 2000 640)) 4500
   = Some [(0, 2000), (1280, 3280), (2560, 4500)]"
proof -
  have "n_regular (window_spec_new 1000 2000 640) 4500 = 2"
    by (simp add: n_regular_def last_window_max_def window_spec_new_def div_ceil_def)
  then have "ref_windows (window_spec_new 1000 2000 640) 4500 = [(0, 2000), (1280, 3280), (2560, 4500)]"
    by (simp add: ref_windows_def last_start_def overlap_def window_spec_new_def div_ceil_def
        upt_conv_Cons Let_def)
  then show ?thesis using cursor_yields_reference_windows [of 2000 1000 640 4500] by simp
qed

text \<open>
  The windows the drain loop yields over a non-empty recording cover it: the first starts
  at sample 0, the last ends at the last sample, and each next window starts later, ends no
  earlier, and shares at least the overlap of the spec with the one before it.
\<close>
theorem cursor_windows_cover:
  assumes "FRAME_SAMPLES \<le> w" and "0 < tot"
    and "drain_cursor (window_cursor_new (window_spec_new spm w ov)) tot = Some ws"
  shows "ws \<noteq> [] \<and> fst (hd ws) = 0 \<and> snd (last ws) = tot
    \<and> successively (seam_ok (window_spec_new spm w ov) tot) ws"
proof -
  note v = window_spec_new_valid[OF assms(1), of spm ov]
  have "ws = ref_windows (window_spec_new spm w ov) tot"
    using drain_cursor_ref[OF v, of tot] assms(3) by simp
  then show ?thesis using ref_windows_ends[OF v assms(2)] ref_windows_seams[OF v assms(2)] by simp
qed

lemma cursor_windows_cover_witness:
  "successively (seam_ok (window_spec_new 1000 2000 640) 4500)
     (ref_windows (window_spec_new 1000 2000 640) 4500)"
  using cursor_windows_cover [of 2000 4500 1000 640]
    drain_cursor_ref[OF window_spec_new_valid, of 2000 1000 640 4500] by simp

text \<open>
  Bounds on each yielded window. It is non-empty, inside the recording, starts on the
  encoder frame grid and is no longer than the larger of the single pass bound and the
  window; when the recording does not fit one pass and the spec has an overlap, it is shorter
  than the window by less than one encoder frame.
\<close>
theorem cursor_window_bounds:
  assumes "FRAME_SAMPLES \<le> w"
    and "drain_cursor (window_cursor_new (window_spec_new spm w ov)) tot = Some ws"
    and "(s, e) \<in> set ws"
  shows "s < e \<and> e \<le> tot \<and> FRAME_SAMPLES dvd s \<and> e - s \<le> max spm w
    \<and> (max spm w < tot \<longrightarrow> 0 < overlap (window_spec_new spm w ov) \<longrightarrow> w < e - s + FRAME_SAMPLES)"
proof -
  note v = window_spec_new_valid[OF assms(1), of spm ov]
  have ws: "ws = ref_windows (window_spec_new spm w ov) tot"
    using drain_cursor_ref[OF v, of tot] assms(2) by simp
  have lm: "last_window_max (window_spec_new spm w ov) = max spm w"
    "window (window_spec_new spm w ov) = w"
    by (simp_all add: last_window_max_def window_spec_new_def)
  show ?thesis
    using ref_windows_member[OF v, of s e tot] ref_windows_long[OF v, of tot s e] assms(3) ws lm by simp
qed

text \<open>
  The production spec (24 s windows, 2 s overlap): a recording of 480001 samples ends with
  a window of 383361 samples, one frame short of the window length.
\<close>
lemma cursor_window_bounds_witness:
  "last_start (window_spec_for False False) 480001 = 96640
   \<and> CHUNK_WINDOW_SAMPLES_ORT < 480001 - last_start (window_spec_for False False) 480001 + FRAME_SAMPLES
   \<and> 480001 - last_start (window_spec_for False False) 480001 < CHUNK_WINDOW_SAMPLES_ORT"
proof -
  let ?sp = "window_spec_for False False"
  have sp: "?sp = window_spec_new 480000 384000 32000"
    by (simp add: window_spec_for_def chunk_window_samples_def CHUNK_THRESHOLD_SAMPLES_def
        CHUNK_WINDOW_SAMPLES_ORT_def CHUNK_OVERLAP_SAMPLES_def)
  have n: "n_regular ?sp 480001 = 1"
    by (simp add: sp n_regular_def last_window_max_def window_spec_new_def div_ceil_def)
  have l: "last_start ?sp 480001 = 96640"
    using n by (simp add: sp last_start_def overlap_def window_spec_new_def div_ceil_def Let_def)
  have "(last_start ?sp 480001, 480001) \<in> set (ref_windows ?sp 480001)" by (simp add: ref_windows_def)
  then have "384000 < 480001 - last_start ?sp 480001 + FRAME_SAMPLES"
    using cursor_window_bounds [of 384000 480000 32000 480001]
      drain_cursor_ref[OF window_spec_new_valid, of 384000 480000 32000 480001]
    by (simp add: sp overlap_def window_spec_new_def)
  then show ?thesis using l by (simp add: CHUNK_WINDOW_SAMPLES_ORT_def)
qed

text \<open>
  A recording is decoded in one pass exactly when it is no longer than the larger of the
  single pass bound and the window; one that \<open>is_single_pass\<close> accepts always is.
\<close>
theorem single_pass_iff:
  assumes "FRAME_SAMPLES \<le> w" and "0 < tot"
  shows "drain_cursor (window_cursor_new (window_spec_new spm w ov)) tot = Some [(0, tot)]
         \<longleftrightarrow> is_single_pass (window_spec_new spm w ov) tot \<or> tot \<le> w"
  using ref_windows_single[OF window_spec_new_valid[OF assms(1), of spm ov] assms(2)]
    drain_cursor_ref[OF window_spec_new_valid[OF assms(1), of spm ov], of tot]
  by (auto simp: is_single_pass_def last_window_max_def window_spec_new_def)

lemma single_pass_iff_witness:
  "drain_cursor (window_cursor_new (window_spec_new 480000 384000 32000)) 480000 = Some [(0, 480000)]"
  using single_pass_iff [of 384000 480000 480000 32000]
  by (simp add: is_single_pass_def window_spec_new_def)

end
