(* ===== verification/Pcm_Sources.thy ===== *)
theory Pcm_Sources
  imports Window_Cursor Resample
begin

text \<open>
  The interface \<open>PcmWindows\<close> of \<open>inference/audio/stream.rs\<close> (a source of decode windows),
  the rolling buffer shared by the streaming sources (\<open>next_window\<close> of \<open>stream/file.rs\<close> and
  \<open>vad_windows.rs\<close>), and the buffer-backed source \<open>SliceWindows\<close>.

  Two contracts are stated as locales. \<open>pcm_windows\<close> is what the decode loop needs of a
  source: asked again and again it yields a fixed list of windows and then stops.
  \<open>rolling_fill\<close> is what the rolling buffer needs of its decoder: \<open>fill_to\<close> appends a
  prefix of the rest of the stream, and stops early only at its end.
\<close>

section \<open>The source interface\<close>

type_synonym pcm_window = "nat \<times> pcm"
type_synonym 'a result = "gigastt_error fault + 'a"

locale pcm_windows =
  fixes next_win :: "'s \<Rightarrow> pcm_window option result \<times> 's"
    and remaining :: "'s \<Rightarrow> pcm_window list \<Rightarrow> bool"
  assumes next_Cons: "remaining s (w # ws) \<Longrightarrow>
      \<exists>s'. next_win s = (Inr (Some w), s') \<and> remaining s' ws"
    and next_Nil: "remaining s [] \<Longrightarrow> \<exists>s'. next_win s = (Inr None, s') \<and> remaining s' []"

text \<open>
  The pull loop of the decoders (\<open>while let Some(w) = source.next_window()?\<close>): the body gets
  the window and the accumulator and may fail.
\<close>

partial_function (option) pull_loop ::
  "('s \<Rightarrow> pcm_window option result \<times> 's) \<Rightarrow> ('b \<Rightarrow> pcm_window \<Rightarrow> 'b result) \<Rightarrow> 's \<Rightarrow> 'b
   \<Rightarrow> ('b result \<times> 's) option" where
  "pull_loop next_win body s acc =
     (case next_win s of
        (Inl e, s') \<Rightarrow> Some (Inl e, s')
      | (Inr None, s') \<Rightarrow> Some (Inr acc, s')
      | (Inr (Some w), s') \<Rightarrow>
          (case body acc w of
             Inl e \<Rightarrow> Some (Inl e, s')
           | Inr acc' \<Rightarrow> pull_loop next_win body s' acc'))"

fun fold_windows :: "('b \<Rightarrow> pcm_window \<Rightarrow> 'b result) \<Rightarrow> pcm_window list \<Rightarrow> 'b \<Rightarrow> 'b result" where
  "fold_windows body [] acc = Inr acc"
| "fold_windows body (w # ws) acc =
     (case body acc w of Inl e \<Rightarrow> Inl e | Inr acc' \<Rightarrow> fold_windows body ws acc')"

context pcm_windows begin

lemma pull_loop_fold:
  "remaining s ws \<Longrightarrow> \<exists>s'. pull_loop next_win body s acc = Some (fold_windows body ws acc, s')"
proof (induction ws arbitrary: s acc)
  case Nil
  from next_Nil[OF Nil] obtain s' where "next_win s = (Inr None, s')" by blast
  then show ?case by (subst pull_loop.simps) simp
next
  case (Cons w ws)
  from next_Cons[OF Cons.prems] obtain s' where
    s': "next_win s = (Inr (Some w), s')" "remaining s' ws" by blast
  show ?case
  proof (cases "body acc w")
    case (Inl e)
    then show ?thesis using s' by (subst pull_loop.simps) simp
  next
    case (Inr acc')
    with Cons.IH[OF s'(2), of acc'] s' show ?thesis by (subst pull_loop.simps) simp
  qed
qed

lemma pull_loop_drained:
  "remaining s ws \<Longrightarrow> fold_windows body ws acc = Inr acc' \<Longrightarrow>
   \<exists>s0 s'. pull_loop next_win body s acc = Some (Inr acc', s') \<and> remaining s0 [] \<and> next_win s0 = (Inr None, s')"
proof (induction ws arbitrary: s acc)
  case Nil
  from next_Nil[OF Nil(1)] obtain s' where s': "next_win s = (Inr None, s')" by blast
  then have "pull_loop next_win body s acc = Some (Inr acc', s')"
    using Nil.prems(2) by (subst pull_loop.simps) simp
  then show ?case using s' Nil.prems(1) by blast
next
  case (Cons w ws)
  from next_Cons[OF Cons.prems(1)] obtain s1 where
    s1: "next_win s = (Inr (Some w), s1)" "remaining s1 ws" by blast
  from Cons.prems(2) obtain acc1 where b: "body acc w = Inr acc1" "fold_windows body ws acc1 = Inr acc'"
    by (auto split: sum.splits)
  have "pull_loop next_win body s acc = pull_loop next_win body s1 acc1"
    using s1(1) b(1) by (subst pull_loop.simps) simp
  then show ?case using Cons.IH[OF s1(2) b(2)] by simp
qed

lemma remaining_unique:
  "remaining s ws \<Longrightarrow> remaining s ws' \<Longrightarrow> ws = ws'"
proof (induction ws arbitrary: s ws')
  case Nil
  from next_Nil[OF Nil(1)] Nil(2) show ?case
    by (cases ws') (auto dest: next_Cons)
next
  case (Cons w ws)
  from next_Cons[OF Cons.prems(1)] obtain s' where
    s': "next_win s = (Inr (Some w), s')" "remaining s' ws" by blast
  then obtain ws'' where "ws' = w # ws''" "remaining s' ws''"
    using Cons.prems(2) next_Nil next_Cons by (cases ws') fastforce+
  with Cons.IH[OF s'(2)] show ?case by blast
qed

end

text \<open>
  A source that also knows how many samples it has decoded: \<open>n\<close> is the length of the whole
  stream, which \<open>total\<close> reports once the source is drained.
\<close>

locale counted_windows =
  fixes next_win :: "'s \<Rightarrow> pcm_window option result \<times> 's"
    and total_of :: "'s \<Rightarrow> nat"
    and pending_windows :: "'s \<Rightarrow> pcm_window list \<Rightarrow> nat \<Rightarrow> bool"
  assumes counted_Cons: "pending_windows s (w # ws) n \<Longrightarrow>
      \<exists>s'. next_win s = (Inr (Some w), s') \<and> pending_windows s' ws n"
    and counted_Nil: "pending_windows s [] n \<Longrightarrow>
      \<exists>s'. next_win s = (Inr None, s') \<and> pending_windows s' [] n \<and> total_of s' = n"

sublocale counted_windows \<subseteq> pcm_windows next_win "\<lambda>s ws. \<exists>n. pending_windows s ws n"
proof
  show "\<exists>n. pending_windows s (w # ws) n \<Longrightarrow>
      \<exists>s'. next_win s = (Inr (Some w), s') \<and> (\<exists>n. pending_windows s' ws n)" for s w ws
    using counted_Cons by blast
  show "\<exists>n. pending_windows s [] n \<Longrightarrow>
      \<exists>s'. next_win s = (Inr None, s') \<and> (\<exists>n. pending_windows s' [] n)" for s
    using counted_Nil by blast
qed

section \<open>SliceWindows\<close>

text \<open>The windows of a fully decoded buffer: the reference windows with their samples.\<close>

definition windows_of :: "window_spec \<Rightarrow> pcm \<Rightarrow> pcm_window list" where
  "windows_of sp xs = map (\<lambda>(s, e). (s, subslice xs s e)) (ref_windows sp (length xs))"

record slice_windows =
  sl_samples :: pcm
  sl_cursor :: window_cursor

definition slice_windows_new :: "pcm \<Rightarrow> window_spec \<Rightarrow> slice_windows" where
  "slice_windows_new xs sp = \<lparr>sl_samples = xs, sl_cursor = window_cursor_new sp\<rparr>"

definition slice_next :: "slice_windows \<Rightarrow> pcm_window option result \<times> slice_windows" where
  "slice_next s =
     (let tot = length (sl_samples s) in
      if tot = 0 then (Inr None, s)
      else case cursor_take (sl_cursor s) tot True of
             (None, c) \<Rightarrow> (Inr None, s\<lparr>sl_cursor := c\<rparr>)
           | (Some (a, b), c) \<Rightarrow>
               (if b < a \<or> tot < b then (Inl Panic, s\<lparr>sl_cursor := c\<rparr>)
                else (Inr (Some (a, subslice (sl_samples s) a b)), s\<lparr>sl_cursor := c\<rparr>)))"

text \<open>
  What a cursor still has to yield over \<open>tot\<close> samples: the reference windows from the
  \<open>k\<close>-th on, or nothing once it is done.
\<close>

definition cursor_pending :: "window_spec \<Rightarrow> window_cursor \<Rightarrow> nat \<Rightarrow> (nat \<times> nat) list \<Rightarrow> bool" where
  "cursor_pending sp c tot ws \<longleftrightarrow>
     valid_spec sp \<and>
     ((cursor_done c \<and> ws = [])
      \<or> (0 < tot \<and> (\<exists>k \<le> n_regular sp tot. c = cursor_at sp k \<and> ws = drop k (ref_windows sp tot)))
      \<or> (tot = 0 \<and> c = window_cursor_new sp \<and> ws = []))"

lemma cursor_at_simps [simp]: "spec (cursor_at sp k) = sp" "cursor_done (cursor_at sp k) = False"
  by (simp_all add: cursor_at_def)

lemma length_ref_windows [simp]: "0 < tot \<Longrightarrow> length (ref_windows sp tot) = Suc (n_regular sp tot)"
  by (simp add: ref_windows_def)

lemma cursor_pending_new:
  assumes "valid_spec sp"
  shows "cursor_pending sp (window_cursor_new sp) tot (ref_windows sp tot)"
proof (cases "tot = 0")
  case True
  then show ?thesis using assms by (simp add: cursor_pending_def ref_windows_def)
next
  case False
  have "\<exists>k \<le> n_regular sp tot. window_cursor_new sp = cursor_at sp k
          \<and> ref_windows sp tot = drop k (ref_windows sp tot)"
    by (rule exI[of _ 0]) (simp add: cursor_at_0)
  then show ?thesis using assms False by (simp add: cursor_pending_def)
qed

lemma drop_ref_windows:
  assumes "0 < tot" and "k \<le> n_regular sp tot"
  shows "drop k (ref_windows sp tot) =
    (if k < n_regular sp tot
     then (k * stride sp, k * stride sp + window sp) # drop (Suc k) (ref_windows sp tot)
     else [(last_start sp tot, tot)])"
  using assms by (auto simp: ref_windows_def drop_map upt_conv_Cons)

lemma cursor_pending_subset:
  "cursor_pending sp c tot ws \<Longrightarrow> set ws \<subseteq> set (ref_windows sp tot)"
  by (auto simp: cursor_pending_def dest: in_set_dropD)

lemma cursor_pending_Cons:
  assumes "cursor_pending sp c tot (w # ws)"
  shows "\<exists>c'. cursor_take c tot True = (Some w, c') \<and> cursor_pending sp c' tot ws"
proof -
  from assms obtain k where v: "valid_spec sp" and t: "0 < tot" and c: "c = cursor_at sp k"
    and k: "k \<le> n_regular sp tot" and ws: "drop k (ref_windows sp tot) = w # ws"
    by (auto simp: cursor_pending_def)
  show ?thesis
  proof (cases "k < n_regular sp tot")
    case True
    then have "\<exists>j \<le> n_regular sp tot. cursor_at sp (Suc k) = cursor_at sp j \<and> ws = drop j (ref_windows sp tot)"
      using drop_ref_windows[OF t k] ws by (intro exI[of _ "Suc k"]) simp
    then show ?thesis
      using cursor_take_regular[OF n_regular_less[OF v True], of True] ws drop_ref_windows[OF t k] True v t c
      by (simp add: cursor_pending_def)
  next
    case False
    with k have kn: "k = n_regular sp tot" by simp
    from cursor_take_last[OF v t] obtain c' where
      "cursor_take c tot True = (Some (last_start sp tot, tot), c')" "cursor_done c'"
      using c kn by blast
    then show ?thesis using ws drop_ref_windows[OF t k] kn v by (simp add: cursor_pending_def)
  qed
qed

lemma cursor_pending_Nil:
  assumes "cursor_pending sp c tot []"
  shows "\<exists>c'. cursor_take c tot True = (None, c') \<and> cursor_pending sp c' tot []"
proof -
  have "drop k (ref_windows sp tot) \<noteq> []" if "0 < tot" "k \<le> n_regular sp tot" for k
    using drop_ref_windows[OF that] by simp
  then have "valid_spec sp" "cursor_done c \<or> (tot = 0 \<and> c = window_cursor_new sp)"
    using assms by (auto simp: cursor_pending_def)
  then show ?thesis
    by (auto simp: cursor_pending_def cursor_take_done)
       (auto simp: cursor_take_def window_cursor_new_def)
qed

definition slice_remaining :: "slice_windows \<Rightarrow> pcm_window list \<Rightarrow> bool" where
  "slice_remaining s ws \<longleftrightarrow>
     (\<exists>sp vs. cursor_pending sp (sl_cursor s) (length (sl_samples s)) vs
        \<and> ws = map (\<lambda>(a, b). (a, subslice (sl_samples s) a b)) vs)"

lemma slice_remaining_new:
  "valid_spec sp \<Longrightarrow> slice_remaining (slice_windows_new xs sp) (windows_of sp xs)"
  using cursor_pending_new[of sp "length xs"]
  by (auto simp: slice_remaining_def slice_windows_new_def windows_of_def)

lemma slice_next_Cons:
  assumes "slice_remaining s (w # ws)"
  shows "\<exists>s'. slice_next s = (Inr (Some w), s') \<and> slice_remaining s' ws"
proof -
  let ?n = "length (sl_samples s)"
  from assms obtain sp a b vs where
    p: "cursor_pending sp (sl_cursor s) ?n ((a, b) # vs)"
    and w: "w = (a, subslice (sl_samples s) a b)" "ws = map (\<lambda>(a, b). (a, subslice (sl_samples s) a b)) vs"
    by (auto simp: slice_remaining_def)
  from cursor_pending_Cons[OF p] obtain c' where
    c': "cursor_take (sl_cursor s) ?n True = (Some (a, b), c')" "cursor_pending sp c' ?n vs" by blast
  have "valid_spec sp" using p by (simp add: cursor_pending_def)
  moreover have "(a, b) \<in> set (ref_windows sp ?n)" using cursor_pending_subset[OF p] by simp
  ultimately have "a < b" "b \<le> ?n" using ref_windows_member by blast+
  then have "slice_next s = (Inr (Some w), s\<lparr>sl_cursor := c'\<rparr>)"
    using c'(1) w(1) by (auto simp: slice_next_def Let_def)
  moreover have "slice_remaining (s\<lparr>sl_cursor := c'\<rparr>) ws"
    using c'(2) w(2) by (auto simp: slice_remaining_def)
  ultimately show ?thesis by blast
qed

lemma slice_next_Nil:
  assumes "slice_remaining s []"
  shows "\<exists>s'. slice_next s = (Inr None, s') \<and> slice_remaining s' []"
proof -
  from assms obtain sp where p: "cursor_pending sp (sl_cursor s) (length (sl_samples s)) []"
    by (auto simp: slice_remaining_def)
  from cursor_pending_Nil[OF this] obtain c' where
    c': "cursor_take (sl_cursor s) (length (sl_samples s)) True = (None, c')"
    "cursor_pending sp c' (length (sl_samples s)) []" by blast
  then have "slice_remaining (s\<lparr>sl_cursor := c'\<rparr>) []" by (auto simp: slice_remaining_def)
  with c' assms show ?thesis by (auto simp: slice_next_def Let_def)
qed

interpretation slice_source: pcm_windows slice_next slice_remaining
  by unfold_locales (auto intro: slice_next_Cons slice_next_Nil)

section \<open>The rolling buffer of the streaming sources\<close>

text \<open>
  \<open>FileWindows\<close> and \<open>VadWindows\<close> hold the same five fields beside their decoder (here the
  field \<open>src\<close>): the buffer with the absolute index of its first sample, the number of
  samples produced so far, the end-of-stream flag and the cursor.
\<close>

record 'src rolling =
  src :: 'src
  buf :: pcm
  buf_start_abs :: nat
  avail_total :: nat
  src_eof :: bool
  cursor :: window_cursor

definition rolling_new :: "'src \<Rightarrow> window_spec \<Rightarrow> 'src rolling" where
  "rolling_new x sp = \<lparr>src = x, buf = [], buf_start_abs = 0, avail_total = 0, src_eof = False,
     cursor = window_cursor_new sp\<rparr>"

text \<open>Drop the prefix that no later window can reach (\<open>buf.drain(0..drop)\<close>).\<close>

definition reclaim :: "'src rolling \<Rightarrow> 'src rolling" where
  "reclaim r =
     (let d = min (retain_from (cursor r) - buf_start_abs r) (length (buf r)) in
      if 0 < d then r\<lparr>buf := drop d (buf r), buf_start_abs := buf_start_abs r + d\<rparr> else r)"

text \<open>Lend \<open>&buf[start - buf_start_abs .. end - buf_start_abs]\<close>.\<close>

definition lend :: "'src rolling \<Rightarrow> nat \<Rightarrow> nat \<Rightarrow> pcm_window option result" where
  "lend r s e =
     (if s < buf_start_abs r \<or> e < s \<or> length (buf r) < e - buf_start_abs r then Inl Panic
      else Inr (Some (s, subslice (buf r) (s - buf_start_abs r) (e - buf_start_abs r))))"

text \<open>
  \<open>next_window\<close> over a decoder \<open>fill\<close>. The flag is the extra test of \<open>VadWindows\<close>, which
  yields nothing when the whole stream was silence.
\<close>

definition next_window_via ::
  "(nat \<Rightarrow> 'src rolling \<Rightarrow> unit result \<times> 'src rolling) \<Rightarrow> bool \<Rightarrow> 'src rolling
   \<Rightarrow> pcm_window option result \<times> 'src rolling" where
  "next_window_via fill skip_silent r =
     (if cursor_done (cursor r) then (Inr None, r)
      else case fill (fill_target (cursor r)) (reclaim r) of
             (Inl e, r') \<Rightarrow> (Inl e, r')
           | (Inr _, r') \<Rightarrow>
               if skip_silent \<and> src_eof r' \<and> avail_total r' = 0 then (Inr None, r')
               else case cursor_take (cursor r') (avail_total r') (src_eof r') of
                      (None, c) \<Rightarrow> (Inr None, r'\<lparr>cursor := c\<rparr>)
                    | (Some (s, e), c) \<Rightarrow> (lend r' s e, r'\<lparr>cursor := c\<rparr>))"

text \<open>
  The contract of a decoder. \<open>yields r ys\<close> says that from the state \<open>r\<close> the stream decodes
  to its end without an error, and that \<open>ys\<close> is what it still has to produce.
\<close>

locale rolling_fill =
  fixes fill :: "nat \<Rightarrow> 'src rolling \<Rightarrow> unit result \<times> 'src rolling"
    and yields :: "'src rolling \<Rightarrow> pcm \<Rightarrow> bool"
  assumes fill_ok: "yields r ys \<Longrightarrow> \<exists>r' zs ys'. fill t r = (Inr (), r') \<and> yields r' ys' \<and> ys = zs @ ys'
      \<and> buf r' = buf r @ zs \<and> avail_total r' = avail_total r + length zs
      \<and> buf_start_abs r' = buf_start_abs r \<and> cursor r' = cursor r
      \<and> (src_eof r' \<and> ys' = [] \<or> \<not> src_eof r' \<and> t \<le> avail_total r')"
    and yields_reclaim: "yields r ys \<Longrightarrow> yields (r\<lparr>buf := b, buf_start_abs := n\<rparr>) ys"
    and yields_cursor: "yields r ys \<Longrightarrow> yields (r\<lparr>cursor := c\<rparr>) ys"

text \<open>
  The state between two windows, over the whole stream \<open>xs\<close>: the buffer and what is still
  to come are the stream from \<open>buf_start_abs\<close> on, and nothing the cursor may still ask for
  has been dropped.
\<close>

definition rolling_at ::
  "('src rolling \<Rightarrow> pcm \<Rightarrow> bool) \<Rightarrow> window_spec \<Rightarrow> pcm \<Rightarrow> (nat \<times> nat) list \<Rightarrow> 'src rolling \<Rightarrow> bool" where
  "rolling_at yields sp xs vs r \<longleftrightarrow>
     (\<exists>ys. yields r ys \<and> drop (buf_start_abs r) xs = buf r @ ys)
     \<and> cursor_pending sp (cursor r) (length xs) vs
     \<and> avail_total r = buf_start_abs r + length (buf r)
     \<and> buf_start_abs r \<le> retain_from (cursor r)
     \<and> buf_start_abs r \<le> length xs
     \<and> length xs < usize_max"

definition rolling_remaining ::
  "('src rolling \<Rightarrow> pcm \<Rightarrow> bool) \<Rightarrow> 'src rolling \<Rightarrow> pcm_window list \<Rightarrow> nat \<Rightarrow> bool" where
  "rolling_remaining yields r ws n \<longleftrightarrow>
     (\<exists>sp xs vs. rolling_at yields sp xs vs r \<and> ws = map (\<lambda>(s, e). (s, subslice xs s e)) vs
        \<and> n = length xs
        \<and> (vs = [] \<longrightarrow> avail_total r = n \<and> (src_eof r \<or> \<not> cursor_done (cursor r))))"

lemma cursor_pending_cases:
  assumes "cursor_pending sp c tot vs" and "\<not> cursor_done c"
  obtains (live) k where "0 < tot" "k \<le> n_regular sp tot" "c = cursor_at sp k" "vs = drop k (ref_windows sp tot)"
  | (empty) "tot = 0" "c = window_cursor_new sp" "vs = []"
  using assms by (auto simp: cursor_pending_def)

text \<open>
  The heart of the streaming sources: a decoder that has produced \<open>fill_target\<close> samples, or
  all of them, gets from the cursor the window that the whole buffer would have given.
\<close>

lemma cursor_take_streamed:
  assumes p: "cursor_pending sp c tot vs" and d: "\<not> cursor_done c" and lim: "tot < usize_max"
    and a: "a \<le> tot" and enough: "eof \<and> a = tot \<or> \<not> eof \<and> fill_target c \<le> a"
  shows "cursor_take c a eof = cursor_take c tot True"
  using p d
proof (cases rule: cursor_pending_cases)
  case (live k)
  show ?thesis
  proof (cases "eof")
    case True
    then show ?thesis using enough by simp
  next
    case False
    with enough have f: "fill_target c \<le> a" by simp
    have v: "valid_spec sp" using p by (simp add: cursor_pending_def)
    have "k * stride sp + last_window_max sp + 1 \<le> a"
      using f a lim live(3) by (simp add: fill_target_def sat_add_def cursor_at_def min_def split: if_splits)
    then have "last_window_max sp < a - k * stride sp" "last_window_max sp < tot - k * stride sp"
      using a by linarith+
    then show ?thesis using live(3) by (simp add: cursor_take_regular)
  qed
next
  case empty
  then show ?thesis using enough a
    by (auto simp: fill_target_def sat_add_def window_cursor_new_def usize_max_def)
qed

lemma cursor_take_last_eof:
  assumes p: "cursor_pending sp c tot vs" and d: "\<not> cursor_done c" and lim: "tot < usize_max"
    and a: "a \<le> tot" and enough: "eof \<and> a = tot \<or> \<not> eof \<and> fill_target c \<le> a"
    and t: "cursor_take c tot True = (Some (s, tot), c')"
  shows eof
proof (rule ccontr)
  assume "\<not> eof"
  with enough have f: "fill_target c \<le> a" by simp
  from p d show False
  proof (cases rule: cursor_pending_cases)
    case (live k)
    have "k * stride sp + last_window_max sp + 1 \<le> a"
      using f a lim live(3) by (simp add: fill_target_def sat_add_def cursor_at_def min_def split: if_splits)
    then have l: "last_window_max sp < tot - k * stride sp" using a by linarith
    moreover have "window sp \<le> last_window_max sp" by (simp add: last_window_max_def)
    moreover have "k * stride sp + window sp = tot" using t live(3) l by (simp add: cursor_take_regular)
    ultimately show False by linarith
  next
    case empty
    then show False using t by (simp add: cursor_take_def window_cursor_new_def)
  qed
qed

lemma fill_target_pos: "0 < fill_target c"
  by (simp add: fill_target_def sat_add_def usize_max_def)

lemma cursor_take_end: "cursor_take c a eof = (Some (s, e), c') \<Longrightarrow> e \<le> a"
  by (auto simp: cursor_take_def Let_def split: if_splits)

lemma cursor_take_retain:
  "cursor_take c a eof = (Some (s, e), c') \<Longrightarrow> retain_from c \<le> retain_from c'"
  by (auto simp: cursor_take_def Let_def retain_from_def split: if_splits)

lemma retain_from_le_start:
  assumes p: "cursor_pending sp c tot ((s, e) # vs)" and d: "\<not> cursor_done c"
  shows "retain_from c \<le> s"
  using p d
proof (cases rule: cursor_pending_cases)
  case (live k)
  have v: "valid_spec sp" using p by (simp add: cursor_pending_def)
  show ?thesis
  proof (cases "k < n_regular sp tot")
    case True
    then show ?thesis using live drop_ref_windows[OF live(1,2)]
      by (simp add: retain_from_def cursor_at_def)
  next
    case False
    with live have k: "k = n_regular sp tot" by simp
    then have s: "s = last_start sp tot" using live drop_ref_windows[OF live(1,2)] by simp
    show ?thesis
    proof (cases k)
      case 0
      then show ?thesis using live(3) by (simp add: retain_from_def cursor_at_def)
    next
      case (Suc m)
      then show ?thesis using last_start_after[OF v, of tot m] k live(3) s
        by (simp add: retain_from_def cursor_at_def)
    qed
  qed
qed simp

lemma reclaim_simps [simp]:
  "cursor (reclaim r) = cursor r" "src_eof (reclaim r) = src_eof r"
  "avail_total (reclaim r) = avail_total r" "src (reclaim r) = src r"
  by (simp_all add: reclaim_def Let_def)

text \<open>The last window ends with the stream.\<close>

lemma cursor_pending_last:
  assumes "cursor_pending sp c tot [(s, e)]"
  shows "e = tot"
proof -
  from assms obtain k where "0 < tot" "k \<le> n_regular sp tot" "drop k (ref_windows sp tot) = [(s, e)]"
    by (auto simp: cursor_pending_def)
  then have "last (ref_windows sp tot) = (s, e)"
    by (metis last_drop last.simps length_drop length_greater_0_conv list.size(3) not_Cons_self2 zero_less_diff)
  moreover have "snd (last (ref_windows sp tot)) = tot" using \<open>0 < tot\<close> by (simp add: ref_windows_def)
  ultimately show ?thesis by simp
qed

context rolling_fill begin

lemma avail_le:
  assumes "rolling_at yields sp xs vs r"
  shows "avail_total r \<le> length xs"
proof -
  from assms obtain ys where x: "drop (buf_start_abs r) xs = buf r @ ys"
    and le: "buf_start_abs r \<le> length xs" and av: "avail_total r = buf_start_abs r + length (buf r)"
    by (auto simp: rolling_at_def)
  from arg_cong[OF x, of length] le av show ?thesis by simp
qed

lemma reclaim_at:
  assumes "rolling_at yields sp xs vs r"
  shows "rolling_at yields sp xs vs (reclaim r)"
proof -
  define d where "d = min (retain_from (cursor r) - buf_start_abs r) (length (buf r))"
  obtain ys where y: "yields r ys" and x: "drop (buf_start_abs r) xs = buf r @ ys"
    using assms by (auto simp: rolling_at_def)
  then have "length (buf r) \<le> length xs - buf_start_abs r"
    by (metis le_add1 length_append length_drop)
  moreover have dx: "drop (buf_start_abs r + d) xs = drop d (buf r) @ ys"
    using arg_cong[OF x, of "drop d"] by (simp add: d_def add.commute)
  moreover have r: "reclaim r = (if 0 < d then r\<lparr>buf := drop d (buf r), buf_start_abs := buf_start_abs r + d\<rparr> else r)"
    by (simp add: reclaim_def Let_def d_def)
  moreover have "d \<le> length (buf r)" "d \<le> retain_from (cursor r) - buf_start_abs r"
    by (simp_all add: d_def)
  moreover have "yields (r\<lparr>buf := drop d (buf r), buf_start_abs := buf_start_abs r + d\<rparr>) ys"
    using yields_reclaim[OF y] .
  then have "\<exists>ys. yields (r\<lparr>buf := drop d (buf r), buf_start_abs := buf_start_abs r + d\<rparr>) ys
      \<and> drop (buf_start_abs r + d) xs = drop d (buf r) @ ys" using dx by blast
  ultimately show ?thesis using assms by (simp add: rolling_at_def) linarith
qed

text \<open>What a fill leaves in the buffer, for the two ways \<open>next_window\<close> can go on.\<close>

lemma fill_at:
  assumes "rolling_at yields sp xs vs r"
  shows "\<exists>r'. fill t r = (Inr (), r') \<and> rolling_at yields sp xs vs r' \<and> cursor r' = cursor r
    \<and> (src_eof r' \<and> avail_total r' = length xs \<or> \<not> src_eof r' \<and> t \<le> avail_total r')"
proof -
  from assms obtain ys where y: "yields r ys" and x: "drop (buf_start_abs r) xs = buf r @ ys"
    by (auto simp: rolling_at_def)
  from fill_ok[OF y, of t] obtain r' zs ys' where
    f: "fill t r = (Inr (), r')" "yields r' ys'" "ys = zs @ ys'" "buf r' = buf r @ zs"
       "avail_total r' = avail_total r + length zs" "buf_start_abs r' = buf_start_abs r"
       "cursor r' = cursor r" "src_eof r' \<and> ys' = [] \<or> \<not> src_eof r' \<and> t \<le> avail_total r'"
    by blast
  have x': "drop (buf_start_abs r') xs = buf r' @ ys'" using f x by simp
  then have at: "rolling_at yields sp xs vs r'" using f assms by (auto simp: rolling_at_def)
  then have "buf_start_abs r' \<le> length xs" "avail_total r' = buf_start_abs r' + length (buf r')"
    by (simp_all add: rolling_at_def)
  with arg_cong[OF x', of length] have "avail_total r' + length ys' = length xs" by simp
  then show ?thesis using f at by auto
qed

lemma next_rolling_Cons:
  assumes at: "rolling_at yields sp xs ((s, e) # vs) r"
  shows "\<exists>r'. next_window_via fill skip r = (Inr (Some (s, subslice xs s e)), r')
            \<and> rolling_at yields sp xs vs r' \<and> e \<le> avail_total r' \<and> (e = length xs \<longrightarrow> src_eof r')"
proof -
  have p: "cursor_pending sp (cursor r) (length xs) ((s, e) # vs)"
    and lim: "length xs < usize_max" using at by (simp_all add: rolling_at_def)
  then have nd: "\<not> cursor_done (cursor r)" and v: "valid_spec sp" by (auto simp: cursor_pending_def)
  from fill_at[OF reclaim_at[OF at], of "fill_target (cursor r)"] obtain r2 where
    f: "fill (fill_target (cursor r)) (reclaim r) = (Inr (), r2)"
    and at2: "rolling_at yields sp xs ((s, e) # vs) r2" and c2: "cursor r2 = cursor r"
    and en: "src_eof r2 \<and> avail_total r2 = length xs
             \<or> \<not> src_eof r2 \<and> fill_target (cursor r) \<le> avail_total r2" by auto
  have t: "cursor_take (cursor r) (avail_total r2) (src_eof r2) = cursor_take (cursor r) (length xs) True"
    by (rule cursor_take_streamed[OF p nd lim avail_le[OF at2] en])
  from cursor_pending_Cons[OF p] obtain c' where
    c': "cursor_take (cursor r) (length xs) True = (Some (s, e), c')" "cursor_pending sp c' (length xs) vs"
    by blast
  have m: "s < e" "e \<le> length xs"
    using ref_windows_member[OF v] cursor_pending_subset[OF p] by fastforce+
  have e: "e \<le> avail_total r2" using cursor_take_end t c'(1) by metis
  have s: "buf_start_abs r2 \<le> s"
    using retain_from_le_start[OF p nd] at2 c2 by (simp add: rolling_at_def)
  have b: "e - buf_start_abs r2 \<le> length (buf r2)" using at2 e by (simp add: rolling_at_def)
  obtain ys where y: "yields r2 ys" and x2: "drop (buf_start_abs r2) xs = buf r2 @ ys"
    using at2 by (auto simp: rolling_at_def)
  have "subslice (buf r2) (s - buf_start_abs r2) (e - buf_start_abs r2)
        = subslice (buf r2 @ ys) (s - buf_start_abs r2) (e - buf_start_abs r2)"
    using subslice_append1[OF b] by simp
  also have "\<dots> = subslice xs s e" using subslice_drop[OF s] x2 by metis
  finally have "lend r2 s e = Inr (Some (s, subslice xs s e))"
    using s m b by (simp add: lend_def)
  moreover have "rolling_at yields sp xs vs (r2\<lparr>cursor := c'\<rparr>)"
    using at2 c'(2) yields_cursor cursor_take_retain[OF c'(1)] c2
    by (auto simp: rolling_at_def)
  moreover have "avail_total r2 \<noteq> 0" using e m(1) by simp
  moreover have "e = length xs \<longrightarrow> src_eof r2"
    using cursor_take_last_eof[OF p nd lim avail_le[OF at2] en] c'(1) by blast
  ultimately show ?thesis
    using nd f t c' c2 e by (simp add: next_window_via_def)
qed

lemma next_rolling_Nil:
  assumes at: "rolling_at yields sp xs [] r" and n: "avail_total r = length xs"
    and eof: "src_eof r \<or> \<not> cursor_done (cursor r)"
  shows "\<exists>r'. next_window_via fill skip r = (Inr None, r') \<and> rolling_at yields sp xs [] r'
            \<and> avail_total r' = length xs \<and> src_eof r'"
proof (cases "cursor_done (cursor r)")
  case True
  then show ?thesis using at n eof by (simp add: next_window_via_def)
next
  case nd: False
  have p: "cursor_pending sp (cursor r) (length xs) []" using at by (simp add: rolling_at_def)
  then have e: "length xs = 0" "cursor r = window_cursor_new sp"
    using nd by (auto simp: cursor_pending_def)
  from fill_at[OF reclaim_at[OF at], of "fill_target (cursor r)"] obtain r2 where
    f: "fill (fill_target (cursor r)) (reclaim r) = (Inr (), r2)"
    and at2: "rolling_at yields sp xs [] r2" and c2: "cursor r2 = cursor r"
    and en: "src_eof r2 \<or> fill_target (cursor r) \<le> avail_total r2" by auto
  have a: "avail_total r2 = 0" using avail_le[OF at2] e by simp
  then have eof2: "src_eof r2" using en fill_target_pos[of "cursor r"] by simp
  let ?c = "(window_cursor_new sp)\<lparr>cursor_done := True\<rparr>"
  have t: "cursor_take (cursor r) (avail_total r2) (src_eof r2) = (None, ?c)"
    using e a by (simp add: cursor_take_def window_cursor_new_def)
  have "rolling_at yields sp xs [] (r2\<lparr>cursor := ?c\<rparr>)"
    using at2 yields_cursor c2 e
    by (auto simp: rolling_at_def cursor_pending_def retain_from_def window_cursor_new_def)
  then show ?thesis using nd f t c2 at2 a e eof2 by (simp add: next_window_via_def)
qed

lemma drained_eof:
  assumes "rolling_remaining yields r [] n" and "next_window_via fill skip r = (Inr None, r')"
  shows "src_eof r' \<and> (\<exists>ys. yields r' ys)"
proof -
  from assms(1) obtain sp xs where "rolling_at yields sp xs [] r" "avail_total r = length xs"
    "src_eof r \<or> \<not> cursor_done (cursor r)" by (auto simp: rolling_remaining_def)
  from next_rolling_Nil[OF this, of skip] assms(2) show ?thesis by (auto simp: rolling_at_def)
qed

end

sublocale rolling_fill \<subseteq> counted_windows "next_window_via fill skip" avail_total "rolling_remaining yields"
proof
  fix r w ws n
  assume "rolling_remaining yields r (w # ws) n"
  then obtain sp xs s e vs where at: "rolling_at yields sp xs ((s, e) # vs) r" and n: "n = length xs"
    and w: "w = (s, subslice xs s e)" "ws = map (\<lambda>(s, e). (s, subslice xs s e)) vs"
    by (auto simp: rolling_remaining_def)
  from next_rolling_Cons[OF at, of skip] obtain r' where
    r': "next_window_via fill skip r = (Inr (Some (s, subslice xs s e)), r')"
    "rolling_at yields sp xs vs r'" "e \<le> avail_total r'" "e = length xs \<longrightarrow> src_eof r'" by blast
  have "vs = [] \<longrightarrow> avail_total r' = n \<and> (src_eof r' \<or> \<not> cursor_done (cursor r'))"
    using cursor_pending_last[of sp "cursor r" "length xs" s e] at r'(3,4) avail_le[OF r'(2)] n
    by (auto simp: rolling_at_def)
  then show "\<exists>r'. next_window_via fill skip r = (Inr (Some w), r') \<and> rolling_remaining yields r' ws n"
    using r' w n by (auto simp: rolling_remaining_def)
next
  fix r n
  assume "rolling_remaining yields r [] n"
  then obtain sp xs where "rolling_at yields sp xs [] r" "n = length xs" "avail_total r = length xs"
    "src_eof r \<or> \<not> cursor_done (cursor r)"
    by (auto simp: rolling_remaining_def)
  with next_rolling_Nil[of sp xs r skip]
  show "\<exists>r'. next_window_via fill skip r = (Inr None, r') \<and> rolling_remaining yields r' [] n
      \<and> avail_total r' = n"
    by (auto simp: rolling_remaining_def)
qed

lemma ref_windows_Nil: "ref_windows sp tot = [] \<longleftrightarrow> tot = 0"
  by (simp add: ref_windows_def)

lemma rolling_remaining_new:
  assumes "valid_spec sp" and "yields (rolling_new x sp) xs" and "length xs < usize_max"
  shows "rolling_remaining yields (rolling_new x sp) (windows_of sp xs) (length xs)"
proof -
  have "rolling_at yields sp xs (ref_windows sp (length xs)) (rolling_new x sp)"
    using assms cursor_pending_new[OF assms(1)]
    by (auto simp: rolling_at_def rolling_new_def window_cursor_new_def)
  then show ?thesis unfolding rolling_remaining_def windows_of_def
    by (intro exI[of _ sp] exI[of _ xs] exI[of _ "ref_windows sp (length xs)"])
       (simp add: ref_windows_Nil rolling_new_def window_cursor_new_def)
qed

end
