(* ===== verification/File_Windows.thy ===== *)
theory File_Windows
  imports Pcm_Sources
begin

text \<open>
  The WAVE variant of \<open>FileWindows\<close> (\<open>inference/audio/stream/file.rs\<close>, \<open>wave.rs\<close>) and
  \<open>AudioChunks\<close> (\<open>chunks.rs\<close>). The ryf parser is third-party code: what it hands to the
  decode thread's callback, in order, is a list of blocks, possibly ended by an error; the
  channel between the thread and the reader is the list of messages not yet received. The
  abort closure is an oracle that answers its \<open>n\<close>-th poll.
\<close>

section \<open>WaveSource\<close>

datatype channel_select = Mono | One nat

record stream_block =
  blk_frames :: nat
  planar :: "pcm list"

record wave_block =
  wb_frames :: nat
  wb_samples :: pcm

datatype wave_err = TooLong float_val float_val | Other string

definition pick_plane :: "stream_block \<Rightarrow> channel_select \<Rightarrow> pcm" where
  "pick_plane b ch =
     (case ch of
        Mono \<Rightarrow> (case planar b of [] \<Rightarrow> [] | p # _ \<Rightarrow> p)
      | One k \<Rightarrow> if k < length (planar b) then planar b ! k else [])"

text \<open>What the decode thread sends: every block, then the error if the parser failed.\<close>

definition wave_messages :: "stream_block list \<Rightarrow> wave_err option \<Rightarrow> channel_select \<Rightarrow> (wave_err + wave_block) list" where
  "wave_messages bs err ch =
     map (\<lambda>b. Inr \<lparr>wb_frames = blk_frames b, wb_samples = pick_plane b ch\<rparr>) bs
     @ (case err of None \<Rightarrow> [] | Some e \<Rightarrow> [Inl e])"

record 'c wave_source =
  rx :: "(wave_err + wave_block) list option"
  join_panicked :: "bool option" \<comment> \<open>the handle, with how the thread ended\<close>
  source_frames :: nat
  sample_rate :: nat
  max_samples :: nat
  limit_secs :: float_val
  resampler :: "'c resample16k"
  finished :: bool
  polls :: nat

datatype wave_recv = Block wave_block | Eof

fun recv_block :: "'c wave_source \<Rightarrow> wave_recv result \<times> 'c wave_source" where
  "recv_block w =
     (case rx w of
        None \<Rightarrow> (Inr Eof, w)
      | Some (Inr b # ms) \<Rightarrow> (Inr (Block b), w\<lparr>rx := Some ms\<rparr>)
      | Some (Inl (TooLong observed limit) # ms) \<Rightarrow>
          (Inl (Err (AudioTooLong observed limit)), w\<lparr>rx := Some ms\<rparr>)
      | Some (Inl (Other msg) # ms) \<Rightarrow> (Inl (Err (InvalidAudio msg)), w\<lparr>rx := Some ms\<rparr>)
      | Some [] \<Rightarrow>
          (case join_panicked w of
             Some True \<Rightarrow> (Inl (Err (InvalidAudio ''WAVE decode thread panicked'')),
                           w\<lparr>rx := None, join_panicked := None\<rparr>)
           | _ \<Rightarrow> (Inr Eof, w\<lparr>rx := None, join_panicked := None\<rparr>)))"

section \<open>Budget\<close>

definition audio_too_long_err :: "nat \<Rightarrow> nat \<Rightarrow> float_val \<Rightarrow> gigastt_error" where
  "audio_too_long_err frames rate limit =
     AudioTooLong (Fin (rat_of_nat frames / rat_of_nat rate)) limit"

definition check_budget :: "nat \<Rightarrow> nat \<Rightarrow> nat \<Rightarrow> float_val \<Rightarrow> unit result" where
  "check_budget frames rate maxs limit =
     (if maxs < frames then Inl (Err (audio_too_long_err frames rate limit)) else Inr ())"

text \<open>\<open>(secs * rate as f64) as usize\<close>: the cast truncates and saturates.\<close>

definition max_samples_for_secs :: "float_val option \<Rightarrow> nat \<Rightarrow> nat" where
  "max_samples_for_secs limit rate =
     (case limit of
        Some (Fin s) \<Rightarrow>
          if 0 < s then min (nat \<lfloor>s * rat_of_nat rate\<rfloor>) usize_max else usize_max
      | _ \<Rightarrow> usize_max)"

definition resolve_budget :: "float_val option \<Rightarrow> nat \<Rightarrow> nat \<times> float_val" where
  "resolve_budget limit rate =
     (max_samples_for_secs limit rate,
      (case limit of Some (Fin s) \<Rightarrow> if 0 < s then Fin s else PInf | _ \<Rightarrow> PInf))"

definition MAX_SAMPLE_RATE :: nat where "MAX_SAMPLE_RATE = 192000"

text \<open>\<open>wave_source_from\<close>: the probed rate is checked before anything is decoded.\<close>

definition wave_source_from ::
  "nat \<Rightarrow> float_val option \<Rightarrow> (wave_err + wave_block) list \<Rightarrow> bool \<Rightarrow> 'c wave_source result" where
  "wave_source_from rate limit msgs panics =
     (if rate = 0 \<or> MAX_SAMPLE_RATE < rate then Inl (Err (InvalidAudio ''Unsupported sample rate''))
      else let (maxs, lim) = resolve_budget limit rate in
        Inr \<lparr>rx = Some msgs, join_panicked = Some panics, source_frames = 0, sample_rate = rate,
             max_samples = maxs, limit_secs = lim, resampler = resample16k_new rate,
             finished = False, polls = 0\<rparr>)"

section \<open>fill\_wave\<close>

type_synonym abort = "(nat \<Rightarrow> bool) option"

definition check_decode_abort :: "abort \<Rightarrow> 'c wave_source rolling \<Rightarrow> unit result \<times> 'c wave_source rolling" where
  "check_decode_abort ab r =
     (case ab of
        None \<Rightarrow> (Inr (), r)
      | Some f \<Rightarrow>
          let n = polls (src r); r' = r\<lparr>src := (src r)\<lparr>polls := Suc n\<rparr>\<rparr> in
          if f n then (Inl (Err Cancelled), r') else (Inr (), r'))"

definition resample_fault :: "resample_error \<Rightarrow> gigastt_error fault" where
  "resample_fault e = (if e = ZeroChunkPanic then Panic else Err (InvalidAudio ''Resampling failed''))"

text \<open>Stage one block and drain what is ready (no staging for a block without the channel).\<close>

definition stage_block :: "'c rubato_ops \<Rightarrow> pcm \<Rightarrow> 'c resample16k \<Rightarrow> (pcm \<times> 'c resample16k) result" where
  "stage_block ops xs rs =
     (case (if xs \<noteq> [] then flush_full ops (stage_extend xs rs) else Inr rs) of
        Inl e \<Rightarrow> Inl (resample_fault e)
      | Inr rs' \<Rightarrow> Inr (drain_ready_into rs' []))"

text \<open>The loop body after a block was received.\<close>

definition wave_step ::
  "'c rubato_ops \<Rightarrow> abort \<Rightarrow> wave_block \<Rightarrow> 'c wave_source rolling \<Rightarrow> unit result \<times> 'c wave_source rolling" where
  "wave_step ops ab b r =
     (case check_decode_abort ab r of
        (Inl e, r1) \<Rightarrow> (Inl e, r1)
      | (Inr _, r1) \<Rightarrow>
          let w = (src r1)\<lparr>source_frames := source_frames (src r1) + wb_frames b\<rparr> in
          case check_budget (source_frames w) (sample_rate w) (max_samples w) (limit_secs w) of
            Inl e \<Rightarrow> (Inl e, r1\<lparr>src := w\<rparr>)
          | Inr _ \<Rightarrow>
              (case stage_block ops (wb_samples b) (resampler w) of
                 Inl e \<Rightarrow> (Inl e, r1\<lparr>src := w\<rparr>)
               | Inr (zs, rs) \<Rightarrow>
                   (Inr (), r1\<lparr>src := w\<lparr>resampler := rs\<rparr>, buf := buf r1 @ zs,
                              avail_total := avail_total r1 + length zs\<rparr>)))"

lemma check_decode_abort_keeps:
  "check_decode_abort ab r = (res, r') \<Longrightarrow> rx (src r') = rx (src r) \<and> src_eof r' = src_eof r"
  by (auto simp: check_decode_abort_def Let_def split: option.splits if_splits)

lemma wave_step_rx: "wave_step ops ab b r = (res, r') \<Longrightarrow> rx (src r') = rx (src r)"
  by (auto simp: wave_step_def Let_def check_budget_def split: prod.splits sum.splits if_splits
           dest: check_decode_abort_keeps)

definition rx_size :: "'c wave_source \<Rightarrow> nat" where
  "rx_size w = (case rx w of None \<Rightarrow> 0 | Some ms \<Rightarrow> Suc (length ms))"

lemma recv_block_size: "recv_block w = (Inr (Block b), w') \<Longrightarrow> rx_size w' < rx_size w"
  by (auto simp: rx_size_def split: option.splits list.splits sum.splits wave_err.splits bool.splits)

lemma wave_round_decreases:
  assumes "check_decode_abort ab r = (res, r1)" and "recv_block (src r1) = (Inr (Block b), w)"
    and "wave_step ops ab b (r1\<lparr>src := w\<rparr>) = (res', r2)"
  shows "rx_size (src r2) < rx_size (src r)"
proof -
  have "rx (src r2) = rx w" using wave_step_rx[OF assms(3)] by simp
  moreover have "rx (src r1) = rx (src r)" using check_decode_abort_keeps[OF assms(1)] by simp
  ultimately show ?thesis using recv_block_size[OF assms(2)] by (simp add: rx_size_def)
qed

declare recv_block.simps [simp del]

function fill_wave_loop ::
  "'c rubato_ops \<Rightarrow> abort \<Rightarrow> nat \<Rightarrow> 'c wave_source rolling \<Rightarrow> unit result \<times> 'c wave_source rolling" where
  "fill_wave_loop ops ab target r =
     (if src_eof r \<or> target \<le> avail_total r then (Inr (), r)
      else case check_decode_abort ab r of
        (Inl e, r1) \<Rightarrow> (Inl e, r1)
      | (Inr _, r1) \<Rightarrow>
          (case recv_block (src r1) of
             (Inl e, w) \<Rightarrow> (Inl e, r1\<lparr>src := w\<rparr>)
           | (Inr Eof, w) \<Rightarrow> (Inr (), r1\<lparr>src := w, src_eof := True\<rparr>)
           | (Inr (Block b), w) \<Rightarrow>
               (case wave_step ops ab b (r1\<lparr>src := w\<rparr>) of
                  (Inl e, r2) \<Rightarrow> (Inl e, r2)
                | (Inr _, r2) \<Rightarrow> fill_wave_loop ops ab target r2)))"
  by pat_completeness auto
termination
  by (relation "measure (\<lambda>(ops, ab, target, r). rx_size (src r))")
     (simp_all, metis wave_round_decreases)

declare fill_wave_loop.simps [simp del]

definition finish_stream ::
  "'c rubato_ops \<Rightarrow> 'c wave_source rolling \<Rightarrow> unit result \<times> 'c wave_source rolling" where
  "finish_stream ops r =
     (if src_eof r \<and> \<not> finished (src r)
      then (case finish_into ops (resampler (src r)) [] of
              Inl e \<Rightarrow> (Inl (resample_fault e), r)
            | Inr (zs, rs) \<Rightarrow>
                (Inr (), r\<lparr>src := (src r)\<lparr>resampler := rs, finished := True\<rparr>, buf := buf r @ zs,
                           avail_total := avail_total r + length zs\<rparr>))
      else (Inr (), r))"

definition fill_to_with_abort ::
  "'c rubato_ops \<Rightarrow> abort \<Rightarrow> nat \<Rightarrow> 'c wave_source rolling \<Rightarrow> unit result \<times> 'c wave_source rolling" where
  "fill_to_with_abort ops ab target r =
     (case check_decode_abort ab r of
        (Inl e, r1) \<Rightarrow> (Inl e, r1)
      | (Inr _, r1) \<Rightarrow>
          (case fill_wave_loop ops ab target r1 of
             (Inl e, r2) \<Rightarrow> (Inl e, r2)
           | (Inr _, r2) \<Rightarrow>
               (case check_decode_abort ab r2 of
                  (Inl e, r3) \<Rightarrow> (Inl e, r3)
                | (Inr _, r3) \<Rightarrow> finish_stream ops r3)))"

definition fill_to :: "'c rubato_ops \<Rightarrow> nat \<Rightarrow> 'c wave_source rolling \<Rightarrow> unit result \<times> 'c wave_source rolling" where
  "fill_to ops target r = fill_to_with_abort ops None target r"

definition file_next_window ::
  "'c rubato_ops \<Rightarrow> 'c wave_source rolling \<Rightarrow> pcm_window option result \<times> 'c wave_source rolling" where
  "file_next_window ops r = next_window_via (fill_to ops) False r"

definition drain_to_vec_with_abort :: "'c rubato_ops \<Rightarrow> abort \<Rightarrow> 'c wave_source rolling \<Rightarrow> pcm result" where
  "drain_to_vec_with_abort ops ab r =
     (case fill_to_with_abort ops ab usize_max r of (Inl e, _) \<Rightarrow> Inl e | (Inr _, r') \<Rightarrow> Inr (buf r'))"

definition drain_to_vec :: "'c rubato_ops \<Rightarrow> 'c wave_source rolling \<Rightarrow> pcm result" where
  "drain_to_vec ops r = drain_to_vec_with_abort ops None r"

section \<open>The decoder meets the rolling-buffer contract\<close>

text \<open>The whole stream at once: what the messages still to come decode to.\<close>

fun wave_all :: "'c rubato_ops \<Rightarrow> (wave_err + wave_block) list \<Rightarrow> 'c wave_source \<Rightarrow> pcm result" where
  "wave_all ops [] w =
     (case finish_into ops (resampler w) [] of Inl e \<Rightarrow> Inl (resample_fault e) | Inr (d, _) \<Rightarrow> Inr d)"
| "wave_all ops (Inl (TooLong a b) # ms) w = Inl (Err (AudioTooLong a b))"
| "wave_all ops (Inl (Other m) # ms) w = Inl (Err (InvalidAudio m))"
| "wave_all ops (Inr b # ms) w =
     (let n = source_frames w + wb_frames b in
      case check_budget n (sample_rate w) (max_samples w) (limit_secs w) of
        Inl e \<Rightarrow> Inl e
      | Inr _ \<Rightarrow>
          (case stage_block ops (wb_samples b) (resampler w) of
             Inl e \<Rightarrow> Inl e
           | Inr (zs, rs) \<Rightarrow>
               (case wave_all ops ms (w\<lparr>source_frames := n, resampler := rs\<rparr>) of
                  Inl e \<Rightarrow> Inl e | Inr ys \<Rightarrow> Inr (zs @ ys))))"

lemma wave_all_cong:
  "source_frames w = source_frames v \<Longrightarrow> resampler w = resampler v \<Longrightarrow> sample_rate w = sample_rate v
   \<Longrightarrow> max_samples w = max_samples v \<Longrightarrow> limit_secs w = limit_secs v
   \<Longrightarrow> wave_all ops ms w = wave_all ops ms v"
proof (induction ops ms w arbitrary: v rule: wave_all.induct)
  case (4 ops b ms w)
  have "wave_all ops ms (w\<lparr>source_frames := n, resampler := rs\<rparr>)
        = wave_all ops ms (v\<lparr>source_frames := n, resampler := rs\<rparr>)"
    if "check_budget n (sample_rate w) (max_samples w) (limit_secs w) = Inr u"
       "n = source_frames w + wb_frames b" "stage_block ops (wb_samples b) (resampler w) = Inr (zs, rs)"
    for n u zs rs
    by (rule "4.IH"[OF that(2) that(1) that(3) refl]) (simp_all add: "4.prems")
  then show ?case using "4.prems"
    by (auto simp: Let_def split: sum.split)
qed simp_all

lemma wave_all_rx [simp]: "wave_all ops ms (w\<lparr>rx := z\<rparr>) = wave_all ops ms w"
  by (rule wave_all_cong) simp_all

definition file_live :: "'c rubato_ops \<Rightarrow> pcm \<Rightarrow> 'c wave_source rolling \<Rightarrow> bool" where
  "file_live ops ys r \<longleftrightarrow>
     \<not> src_eof r \<and> \<not> finished (src r) \<and> join_panicked (src r) = Some False
     \<and> (\<exists>ms. rx (src r) = Some ms \<and> wave_all ops ms (src r) = Inr ys)"

definition file_yields :: "'c rubato_ops \<Rightarrow> 'c wave_source rolling \<Rightarrow> pcm \<Rightarrow> bool" where
  "file_yields ops r ys \<longleftrightarrow> (src_eof r \<and> finished (src r) \<and> ys = []) \<or> file_live ops ys r"

lemma wave_step_live:
  assumes "wave_all ops (Inr b # ms) w = Inr ys"
  shows "\<exists>zs ys' w'. wave_step ops None b (r\<lparr>src := w\<lparr>rx := Some ms\<rparr>\<rparr>)
      = (Inr (), r\<lparr>src := w', buf := buf r @ zs, avail_total := avail_total r + length zs\<rparr>)
    \<and> ys = zs @ ys' \<and> wave_all ops ms w' = Inr ys' \<and> rx w' = Some ms
    \<and> join_panicked w' = join_panicked w \<and> finished w' = finished w"
proof -
  let ?n = "source_frames w + wb_frames b"
  from assms obtain zs rs ys' where
    b: "check_budget ?n (sample_rate w) (max_samples w) (limit_secs w) = Inr ()"
    and st: "stage_block ops (wb_samples b) (resampler w) = Inr (zs, rs)"
    and re: "wave_all ops ms (w\<lparr>source_frames := ?n, resampler := rs\<rparr>) = Inr ys'" "ys = zs @ ys'"
    by (auto simp: Let_def split: sum.splits)
  let ?w = "w\<lparr>source_frames := ?n, resampler := rs\<rparr>"
  have "wave_all ops ms (?w\<lparr>rx := Some ms\<rparr>) = Inr ys'" using re by (simp only: wave_all_rx)
  then show ?thesis
    using b st re(2)
    by (intro exI[of _ zs] exI[of _ ys'] exI[of _ "?w\<lparr>rx := Some ms\<rparr>"])
       (simp add: wave_step_def check_decode_abort_def Let_def)
qed

lemma fill_wave_loop_live:
  assumes "file_live ops ys r"
  shows "\<exists>r' zs ys'. fill_wave_loop ops None t r = (Inr (), r') \<and> ys = zs @ ys'
      \<and> buf r' = buf r @ zs \<and> avail_total r' = avail_total r + length zs
      \<and> buf_start_abs r' = buf_start_abs r \<and> cursor r' = cursor r
      \<and> (file_live ops ys' r' \<and> t \<le> avail_total r'
         \<or> src_eof r' \<and> \<not> finished (src r') \<and> (\<exists>rs. finish_into ops (resampler (src r')) [] = Inr (ys', rs)))"
proof -
  from assms obtain ms where "rx (src r) = Some ms" by (auto simp: file_live_def)
  then show ?thesis using assms
  proof (induction ms arbitrary: r ys)
    case Nil
    then have live: "\<not> src_eof r" "\<not> finished (src r)" "join_panicked (src r) = Some False"
      and fin: "\<exists>rs. finish_into ops (resampler (src r)) [] = Inr (ys, rs)"
      by (auto simp: file_live_def split: sum.splits)
    show ?case
    proof (cases "t \<le> avail_total r")
      case True
      then have "fill_wave_loop ops None t r = (Inr (), r)" by (simp add: fill_wave_loop.simps[of _ _ _ r])
      then show ?thesis using Nil.prems True by auto
    next
      case False
      then have "fill_wave_loop ops None t r =
          (Inr (), r\<lparr>src := (src r)\<lparr>rx := None, join_panicked := None\<rparr>, src_eof := True\<rparr>)"
        using live Nil.prems(1)
        by (simp add: fill_wave_loop.simps[of _ _ _ r] check_decode_abort_def recv_block.simps)
      then show ?thesis using live fin by simp
    qed
  next
    case (Cons m ms)
    then have live: "\<not> src_eof r" "\<not> finished (src r)" "join_panicked (src r) = Some False"
      and all: "wave_all ops (m # ms) (src r) = Inr ys" by (auto simp: file_live_def)
    obtain b where m: "m = Inr b"
    proof (cases m)
      case (Inl e)
      with all show ?thesis by (cases e) simp_all
    qed
    show ?case
    proof (cases "t \<le> avail_total r")
      case True
      then have "fill_wave_loop ops None t r = (Inr (), r)" by (simp add: fill_wave_loop.simps[of _ _ _ r])
      then show ?thesis using Cons.prems True by auto
    next
      case False
      from wave_step_live[OF all[unfolded m], of r] obtain zs ys' w' where
        st: "wave_step ops None b (r\<lparr>src := (src r)\<lparr>rx := Some ms\<rparr>\<rparr>)
             = (Inr (), r\<lparr>src := w', buf := buf r @ zs, avail_total := avail_total r + length zs\<rparr>)"
           (is "_ = (_, ?r2)")
        and ys: "ys = zs @ ys'" and w': "wave_all ops ms w' = Inr ys'" "rx w' = Some ms"
          "join_panicked w' = join_panicked (src r)" "finished w' = finished (src r)" by blast
      have loop: "fill_wave_loop ops None t r = fill_wave_loop ops None t ?r2"
        using False live(1) Cons.prems(1) m st
        by (simp add: fill_wave_loop.simps[of _ _ _ r] check_decode_abort_def recv_block.simps)
      have "file_live ops ys' ?r2" using live w' by (simp add: file_live_def)
      with Cons.IH[of ?r2 ys'] w'(2) obtain r' zs' ys'' where
        "fill_wave_loop ops None t ?r2 = (Inr (), r')" "ys' = zs' @ ys''"
        "buf r' = buf r @ zs @ zs'" "avail_total r' = avail_total r + length zs + length zs'"
        "buf_start_abs r' = buf_start_abs r" "cursor r' = cursor r"
        "file_live ops ys'' r' \<and> t \<le> avail_total r'
         \<or> src_eof r' \<and> \<not> finished (src r') \<and> (\<exists>rs. finish_into ops (resampler (src r')) [] = Inr (ys'', rs))"
        by auto
      then show ?thesis using loop ys
        by (intro exI[of _ r'] exI[of _ "zs @ zs'"] exI[of _ ys'']) simp
    qed
  qed
qed

lemma fill_to_ok:
  assumes "file_yields ops r ys"
  shows "\<exists>r' zs ys'. fill_to ops t r = (Inr (), r') \<and> file_yields ops r' ys' \<and> ys = zs @ ys'
      \<and> buf r' = buf r @ zs \<and> avail_total r' = avail_total r + length zs
      \<and> buf_start_abs r' = buf_start_abs r \<and> cursor r' = cursor r
      \<and> (src_eof r' \<and> ys' = [] \<or> \<not> src_eof r' \<and> t \<le> avail_total r')"
proof (cases "src_eof r")
  case True
  then have y: "finished (src r)" "ys = []" using assms by (auto simp: file_yields_def file_live_def)
  then have "fill_to ops t r = (Inr (), r)" using True
    by (auto simp: fill_to_def fill_to_with_abort_def check_decode_abort_def fill_wave_loop.simps[of _ _ _ r]
        finish_stream_def)
  then show ?thesis using assms True y by auto
next
  case False
  then have live: "file_live ops ys r" using assms by (auto simp: file_yields_def)
  from fill_wave_loop_live[OF live, of t] obtain r1 zs ys' where
    l: "fill_wave_loop ops None t r = (Inr (), r1)" "ys = zs @ ys'"
      "buf r1 = buf r @ zs" "avail_total r1 = avail_total r + length zs"
      "buf_start_abs r1 = buf_start_abs r" "cursor r1 = cursor r"
    and d: "file_live ops ys' r1 \<and> t \<le> avail_total r1
       \<or> src_eof r1 \<and> \<not> finished (src r1) \<and> (\<exists>rs. finish_into ops (resampler (src r1)) [] = Inr (ys', rs))"
    by blast
  have f: "fill_to ops t r = finish_stream ops r1"
    using l(1) by (simp add: fill_to_def fill_to_with_abort_def check_decode_abort_def)
  from d show ?thesis
  proof
    assume a: "file_live ops ys' r1 \<and> t \<le> avail_total r1"
    then have "fill_to ops t r = (Inr (), r1)" "\<not> src_eof r1"
      by (simp_all add: f finish_stream_def file_live_def)
    then show ?thesis using a l
      by (intro exI[of _ r1] exI[of _ zs] exI[of _ ys']) (simp add: file_yields_def)
  next
    assume a: "src_eof r1 \<and> \<not> finished (src r1) \<and> (\<exists>rs. finish_into ops (resampler (src r1)) [] = Inr (ys', rs))"
    then obtain rs where rs: "finish_into ops (resampler (src r1)) [] = Inr (ys', rs)" by blast
    let ?r2 = "r1\<lparr>src := (src r1)\<lparr>resampler := rs, finished := True\<rparr>, buf := buf r1 @ ys',
                 avail_total := avail_total r1 + length ys'\<rparr>"
    have "fill_to ops t r = (Inr (), ?r2)" using a rs by (simp add: f finish_stream_def)
    then show ?thesis using a l
      by (intro exI[of _ ?r2] exI[of _ "zs @ ys'"] exI[of _ "[]"]) (simp add: file_yields_def)
  qed
qed

interpretation wave_file: rolling_fill "fill_to ops" "file_yields ops" for ops
proof
  show "file_yields ops r ys \<Longrightarrow> \<exists>r' zs ys'. fill_to ops t r = (Inr (), r') \<and> file_yields ops r' ys'
      \<and> ys = zs @ ys' \<and> buf r' = buf r @ zs \<and> avail_total r' = avail_total r + length zs
      \<and> buf_start_abs r' = buf_start_abs r \<and> cursor r' = cursor r
      \<and> (src_eof r' \<and> ys' = [] \<or> \<not> src_eof r' \<and> t \<le> avail_total r')" for r ys t
    by (rule fill_to_ok)
qed (simp_all add: file_yields_def file_live_def)

section \<open>Windowed decode against flat decode\<close>

lemma wave_step_fails:
  assumes "wave_all ops (Inr b # ms) w = Inl e"
  shows "(\<exists>e' r'. wave_step ops None b (r\<lparr>src := w\<lparr>rx := Some ms\<rparr>\<rparr>) = (Inl e', r'))
    \<or> (\<exists>zs w'. wave_step ops None b (r\<lparr>src := w\<lparr>rx := Some ms\<rparr>\<rparr>)
      = (Inr (), r\<lparr>src := w', buf := buf r @ zs, avail_total := avail_total r + length zs\<rparr>)
        \<and> wave_all ops ms w' = Inl e \<and> rx w' = Some ms
        \<and> join_panicked w' = join_panicked w \<and> finished w' = finished w)"
proof (cases "check_budget (source_frames w + wb_frames b) (sample_rate w) (max_samples w) (limit_secs w)")
  case (Inl e1)
  then show ?thesis by (simp add: wave_step_def check_decode_abort_def Let_def)
next
  case b: (Inr u)
  show ?thesis
  proof (cases "stage_block ops (wb_samples b) (resampler w)")
    case (Inl e2)
    then show ?thesis using b by (simp add: wave_step_def check_decode_abort_def Let_def)
  next
    case (Inr p)
    obtain zs rs where p: "p = (zs, rs)" by (cases p)
    let ?w = "w\<lparr>source_frames := source_frames w + wb_frames b, resampler := rs\<rparr>"
    have "wave_all ops ms ?w = Inl e"
      using assms b Inr p by (simp add: Let_def split: sum.splits)
    moreover have "wave_all ops ms (w\<lparr>rx := Some ms, source_frames := source_frames w + wb_frames b, resampler := rs\<rparr>)
       = wave_all ops ms ?w" by (rule wave_all_cong) simp_all
    ultimately show ?thesis using b Inr p
      by (intro disjI2 exI[of _ zs]
            exI[of _ "w\<lparr>rx := Some ms, source_frames := source_frames w + wb_frames b, resampler := rs\<rparr>"])
         (simp add: wave_step_def check_decode_abort_def Let_def)
  qed
qed

lemma fill_wave_loop_fails:
  assumes "\<not> src_eof r" "\<not> finished (src r)" "join_panicked (src r) = Some False"
    and "rx (src r) = Some ms" "wave_all ops ms (src r) = Inl e"
  shows "(\<exists>e' r'. fill_wave_loop ops None t r = (Inl e', r'))
    \<or> (\<exists>r' zs. fill_wave_loop ops None t r = (Inr (), r') \<and> buf r' = buf r @ zs
         \<and> avail_total r' = avail_total r + length zs
         \<and> (\<not> src_eof r' \<and> t \<le> avail_total r'
             \<or> src_eof r' \<and> \<not> finished (src r') \<and> (\<exists>e'. finish_into ops (resampler (src r')) [] = Inl e')))"
  using assms
proof (induction ms arbitrary: r)
  case Nil
  show ?case
  proof (cases "t \<le> avail_total r")
    case True
    then show ?thesis using Nil.prems by (simp add: fill_wave_loop.simps[of _ _ _ r])
  next
    case False
    then show ?thesis using Nil.prems
      by (simp add: fill_wave_loop.simps[of _ _ _ r] check_decode_abort_def recv_block.simps
            split: sum.splits prod.splits)
  qed
next
  case (Cons m ms)
  show ?case
  proof (cases "t \<le> avail_total r")
    case True
    then show ?thesis using Cons.prems by (simp add: fill_wave_loop.simps[of _ _ _ r])
  next
    case far: False
    show ?thesis
    proof (cases m)
      case (Inl a)
      then show ?thesis using far Cons.prems
        by (cases a) (simp_all add: fill_wave_loop.simps[of _ _ _ r] check_decode_abort_def recv_block.simps)
    next
      case (Inr b)
      have rb: "fill_wave_loop ops None t r =
          (case wave_step ops None b (r\<lparr>src := (src r)\<lparr>rx := Some ms\<rparr>\<rparr>) of
             (Inl e, r2) \<Rightarrow> (Inl e, r2) | (Inr _, r2) \<Rightarrow> fill_wave_loop ops None t r2)"
        using far Cons.prems(1,4) Inr
        by (simp add: fill_wave_loop.simps[of _ _ _ r] check_decode_abort_def recv_block.simps)
      from wave_step_fails[OF Cons.prems(5)[unfolded Inr], of r] show ?thesis
      proof (elim disjE exE conjE)
        fix e' r' assume "wave_step ops None b (r\<lparr>src := (src r)\<lparr>rx := Some ms\<rparr>\<rparr>) = (Inl e', r')"
        then show ?thesis using rb by simp
      next
        fix zs w'
        let ?r2 = "r\<lparr>src := w', buf := buf r @ zs, avail_total := avail_total r + length zs\<rparr>"
        assume w': "wave_step ops None b (r\<lparr>src := (src r)\<lparr>rx := Some ms\<rparr>\<rparr>) = (Inr (), ?r2)"
          "wave_all ops ms w' = Inl e" "rx w' = Some ms"
          "join_panicked w' = join_panicked (src r)" "finished w' = finished (src r)"
        have "(\<exists>e' r'. fill_wave_loop ops None t ?r2 = (Inl e', r'))
          \<or> (\<exists>r' zs'. fill_wave_loop ops None t ?r2 = (Inr (), r') \<and> buf r' = buf ?r2 @ zs'
               \<and> avail_total r' = avail_total ?r2 + length zs'
               \<and> (\<not> src_eof r' \<and> t \<le> avail_total r'
                   \<or> src_eof r' \<and> \<not> finished (src r') \<and> (\<exists>e'. finish_into ops (resampler (src r')) [] = Inl e')))"
          by (rule Cons.IH) (use w' Cons.prems in simp_all)
        then show ?thesis using rb w'(1) by fastforce
      qed
    qed
  qed
qed

lemma drain_to_vec_all:
  assumes live: "\<not> src_eof r" "\<not> finished (src r)" "join_panicked (src r) = Some False" "rx (src r) = Some ms"
    and new: "buf r = []" "avail_total r = 0"
    and d: "drain_to_vec ops r = Inr xs" and lim: "length xs < usize_max"
  shows "wave_all ops ms (src r) = Inr xs"
proof (cases "wave_all ops ms (src r)")
  case (Inr ys)
  then have "file_live ops ys r" using live by (simp add: file_live_def)
  then have "file_yields ops r ys" by (simp add: file_yields_def)
  from fill_to_ok[OF this, of usize_max] obtain r' zs ys' where
    r': "fill_to ops usize_max r = (Inr (), r')" "ys = zs @ ys'" "buf r' = zs"
      "avail_total r' = length zs"
      "src_eof r' \<and> ys' = [] \<or> \<not> src_eof r' \<and> usize_max \<le> avail_total r'"
    using new by auto
  then have "xs = zs" using d by (simp add: drain_to_vec_def drain_to_vec_with_abort_def fill_to_def)
  then show ?thesis using r' lim Inr by auto
next
  case (Inl e)
  from fill_wave_loop_fails[OF live Inl, of usize_max] d lim new show ?thesis
    by (auto simp: drain_to_vec_def drain_to_vec_with_abort_def fill_to_with_abort_def
        check_decode_abort_def finish_stream_def)
qed

lemma wave_open_live:
  assumes "wave_source_from rate limit msgs False = Inr w" and "wave_all ops msgs w = Inr xs"
  shows "file_live ops xs (rolling_new w sp)"
  using assms by (auto simp: wave_source_from_def file_live_def rolling_new_def Let_def split: if_splits prod.splits)

lemma wave_open_drained:
  assumes w: "wave_source_from rate limit msgs False = Inr w"
    and d: "drain_to_vec ops (rolling_new w flat_spec) = Inr xs" and lim: "length xs < usize_max"
  shows "file_live ops xs (rolling_new w sp)"
proof (rule wave_open_live[OF w])
  have "wave_all ops msgs (src (rolling_new w flat_spec)) = Inr xs"
    using w by (intro drain_to_vec_all[OF _ _ _ _ _ _ d lim])
      (auto simp: wave_source_from_def rolling_new_def Let_def split: if_splits prod.splits)
  then show "wave_all ops msgs w = Inr xs" by (simp add: rolling_new_def)
qed

lemma file_remaining_new:
  assumes "valid_spec sp" "file_live ops xs (rolling_new w sp)" "length xs < usize_max"
  shows "rolling_remaining (file_yields ops) (rolling_new w sp) (windows_of sp xs) (length xs)"
  by (rule rolling_remaining_new) (use assms in \<open>simp_all add: file_yields_def\<close>)

section \<open>Property\<close>

text \<open>
  C16: let a WAVE source decode flat to the samples \<open>xs\<close>. Then the windowed source over the
  same messages hands any consumer exactly the windows of \<open>SliceWindows\<close> over \<open>xs\<close>, and
  stops: the pull loop returns the fold of the consumer over these windows, without an error
  or an out-of-range slice of its rolling buffer.
\<close>
theorem file_windows_equal_slice_windows:
  assumes "wave_source_from rate limit msgs False = Inr w"
    and "drain_to_vec ops (rolling_new w flat_spec) = Inr xs" and "length xs < usize_max"
    and "FRAME_SAMPLES \<le> win"
  shows "\<exists>s' t'. pull_loop (file_next_window ops) body (rolling_new w (window_spec_new spm win ov)) acc
           = Some (fold_windows body (windows_of (window_spec_new spm win ov) xs) acc, s')
       \<and> pull_loop slice_next body (slice_windows_new xs (window_spec_new spm win ov)) acc
           = Some (fold_windows body (windows_of (window_spec_new spm win ov) xs) acc, t')"
proof -
  note v = window_spec_new_valid[OF assms(4), of spm ov]
  note rem = file_remaining_new[OF v wave_open_drained[OF assms(1-3)] assms(3)]
  have fn: "file_next_window ops = next_window_via (fill_to ops) False"
    by (simp add: fun_eq_iff file_next_window_def)
  show ?thesis
    using wave_file.pull_loop_fold[OF exI, OF rem, where skip = False and body = body and acc = acc]
      slice_source.pull_loop_fold[OF slice_remaining_new[OF v, of xs], where body = body and acc = acc]
    unfolding fn by blast
qed

text \<open>Two one-sample messages at 16 kHz, an unused resampler, and a consumer that collects.\<close>

definition demo_rubato :: "unit rubato_ops" where
  "demo_rubato = \<lparr>rubato_new = \<lambda>_ _ _. None, rubato_input_max = \<lambda>_. 0, rubato_process = \<lambda>_ _. None\<rparr>"

definition demo_messages :: "(wave_err + wave_block) list" where
  "demo_messages = [Inr \<lparr>wb_frames = 1, wb_samples = [Fin 1]\<rparr>, Inr \<lparr>wb_frames = 1, wb_samples = [Fin 2]\<rparr>]"

lemma demo_source:
  "\<exists>w. wave_source_from 16000 None demo_messages False = Inr (w :: unit wave_source)
     \<and> drain_to_vec demo_rubato (rolling_new w flat_spec) = Inr [Fin 1, Fin 2]"
proof -
  let ?w = "\<lparr>rx = Some demo_messages, join_panicked = Some False, source_frames = 0, sample_rate = 16000,
     max_samples = usize_max, limit_secs = PInf, resampler = resample16k_new 16000, finished = False,
     polls = 0\<rparr> :: unit wave_source"
  have "wave_source_from 16000 None demo_messages False = Inr ?w"
    by (simp add: wave_source_from_def MAX_SAMPLE_RATE_def resolve_budget_def max_samples_for_secs_def)
  moreover have "drain_to_vec demo_rubato (rolling_new ?w flat_spec) = Inr [Fin 1, Fin 2]"
    by (simp add: drain_to_vec_def drain_to_vec_with_abort_def fill_to_with_abort_def check_decode_abort_def
        fill_wave_loop.simps recv_block.simps rolling_new_def demo_messages_def wave_step_def check_budget_def
        stage_block_def flush_full_def stage_extend_def drain_ready_into_def resample16k_new_def Let_def
        finish_stream_def finish_into_def usize_max_def)
  ultimately show ?thesis by blast
qed

lemma file_windows_equal_slice_windows_witness:
  "\<exists>w s'. pull_loop (file_next_window demo_rubato) (\<lambda>ws v. Inr (ws @ [v]))
      (rolling_new w (window_spec_new 480000 384000 32000)) [] = Some (Inr [(0, [Fin 1, Fin 2])], s')"
proof -
  obtain w :: "unit wave_source" where w: "wave_source_from 16000 None demo_messages False = Inr w"
    "drain_to_vec demo_rubato (rolling_new w flat_spec) = Inr [Fin 1, Fin 2]" using demo_source by blast
  have "windows_of (window_spec_new 480000 384000 32000) [Fin 1, Fin 2] = [(0, [Fin 1, Fin 2])]"
    by (simp add: windows_of_def ref_windows_def n_regular_def last_start_def div_ceil_def last_window_max_def
        window_spec_new_def subslice_def Let_def)
  then show ?thesis
    using file_windows_equal_slice_windows [OF w, of 384000 "\<lambda>ws v. Inr (ws @ [v])" 480000 32000 "[]"]
    by (auto simp: usize_max_def)
qed

end
