(* ===== verification/Audio_Chunks.thy ===== *)
theory Audio_Chunks
  imports File_Windows
begin

text \<open>
  \<open>AudioChunks\<close> of \<open>inference/audio/chunks.rs\<close>: consecutive chunks of a fixed length, pulled
  from a source of partition windows. The source is a parameter; \<open>file_chunks_open\<close> puts the
  WAVE source of \<open>File_Windows\<close> under it, as \<open>from_bytes\<close> does.
\<close>

definition PULL_SAMPLES :: nat where "PULL_SAMPLES = 32000"

definition pull_spec :: window_spec where
  "pull_spec = window_spec_new 0 PULL_SAMPLES 0"

record 's audio_chunks =
  ac_src :: 's
  pending :: pcm
  chunk_samples :: nat
  ac_eof :: bool

definition audio_chunks_new :: "'s \<Rightarrow> nat \<Rightarrow> 's audio_chunks" where
  "audio_chunks_new s n = \<lparr>ac_src = s, pending = [], chunk_samples = max n 1, ac_eof = False\<rparr>"

definition file_chunks_open :: "'c wave_source \<Rightarrow> nat \<Rightarrow> 'c wave_source rolling audio_chunks" where
  "file_chunks_open w n = audio_chunks_new (rolling_new w pull_spec) n"

partial_function (option) fill_pending ::
  "('s \<Rightarrow> pcm_window option result \<times> 's) \<Rightarrow> 's audio_chunks \<Rightarrow> (unit result \<times> 's audio_chunks) option" where
  "fill_pending nxt c =
     (if ac_eof c \<or> chunk_samples c \<le> length (pending c) then Some (Inr (), c)
      else case nxt (ac_src c) of
        (Inl e, s') \<Rightarrow> Some (Inl e, c\<lparr>ac_src := s'\<rparr>)
      | (Inr (Some w), s') \<Rightarrow> fill_pending nxt (c\<lparr>ac_src := s', pending := pending c @ snd w\<rparr>)
      | (Inr None, s') \<Rightarrow> fill_pending nxt (c\<lparr>ac_src := s', ac_eof := True\<rparr>))"

definition next_chunk ::
  "('s \<Rightarrow> pcm_window option result \<times> 's) \<Rightarrow> 's audio_chunks \<Rightarrow> (pcm option result \<times> 's audio_chunks) option" where
  "next_chunk nxt c =
     (case fill_pending nxt c of
        None \<Rightarrow> None
      | Some (Inl e, c') \<Rightarrow> Some (Inl e, c')
      | Some (Inr _, c') \<Rightarrow>
          if pending c' = [] then Some (Inr None, c')
          else let n = min (chunk_samples c') (length (pending c')) in
               Some (Inr (Some (take n (pending c'))), c'\<lparr>pending := drop n (pending c')\<rparr>))"

text \<open>The caller's loop: ask for chunks until there are none.\<close>

partial_function (option) collect_chunks ::
  "('s \<Rightarrow> pcm_window option result \<times> 's) \<Rightarrow> 's audio_chunks \<Rightarrow> pcm list \<Rightarrow> pcm list result option" where
  "collect_chunks nxt c acc =
     Option.bind (next_chunk nxt c) (\<lambda>(res, c').
       case res of
         Inl e \<Rightarrow> Some (Inl e)
       | Inr None \<Rightarrow> Some (Inr acc)
       | Inr (Some ch) \<Rightarrow> collect_chunks nxt c' (acc @ [ch]))"

text \<open>What the chunker still has to emit: its pending samples and the windows to come.\<close>

definition chunk_rest :: "'s audio_chunks \<Rightarrow> pcm_window list \<Rightarrow> pcm" where
  "chunk_rest c ws = pending c @ concat (map snd ws)"

context pcm_windows begin

lemma fill_pending_spec:
  assumes "remaining (ac_src c) ws" and "ac_eof c \<Longrightarrow> ws = []"
  shows "\<exists>c' ws'. fill_pending next_win c = Some (Inr (), c') \<and> remaining (ac_src c') ws'
    \<and> chunk_rest c' ws' = chunk_rest c ws \<and> chunk_samples c' = chunk_samples c
    \<and> (ac_eof c' \<longrightarrow> ws' = []) \<and> (ac_eof c' \<or> chunk_samples c \<le> length (pending c'))"
  using assms
proof (induction ws arbitrary: c)
  case Nil
  show ?case
  proof (cases "ac_eof c \<or> chunk_samples c \<le> length (pending c)")
    case True
    then show ?thesis using Nil.prems by (subst fill_pending.simps) auto
  next
    case False
    from next_Nil[OF Nil.prems(1)] obtain s' where s': "next_win (ac_src c) = (Inr None, s')" "remaining s' []"
      by blast
    have "fill_pending next_win c = Some (Inr (), c\<lparr>ac_src := s', ac_eof := True\<rparr>)"
      using False s'(1) by (subst fill_pending.simps, simp, subst fill_pending.simps, simp)
    then show ?thesis using s'(2) by (auto simp: chunk_rest_def)
  qed
next
  case (Cons w ws)
  then have ne: "\<not> ac_eof c" by auto
  show ?case
  proof (cases "chunk_samples c \<le> length (pending c)")
    case True
    then show ?thesis using Cons.prems ne by (subst fill_pending.simps) auto
  next
    case False
    from next_Cons[OF Cons.prems(1)] obtain s' where
      s': "next_win (ac_src c) = (Inr (Some w), s')" "remaining s' ws" by blast
    let ?c = "c\<lparr>ac_src := s', pending := pending c @ snd w\<rparr>"
    have "fill_pending next_win c = fill_pending next_win ?c"
      using False ne s'(1) by (subst fill_pending.simps) simp
    moreover have "chunk_rest ?c ws = chunk_rest c (w # ws)" by (simp add: chunk_rest_def)
    ultimately show ?thesis using Cons.IH[of ?c] s'(2) ne by auto
  qed
qed

lemma next_chunk_spec:
  assumes "remaining (ac_src c) ws" and "ac_eof c \<Longrightarrow> ws = []" and n: "0 < chunk_samples c"
  shows "\<exists>c' ws'. remaining (ac_src c') ws' \<and> (ac_eof c' \<longrightarrow> ws' = []) \<and> chunk_samples c' = chunk_samples c
    \<and> (if chunk_rest c ws = [] then next_chunk next_win c = Some (Inr None, c')
       else next_chunk next_win c = Some (Inr (Some (take (chunk_samples c) (chunk_rest c ws))), c')
         \<and> chunk_rest c' ws' = drop (chunk_samples c) (chunk_rest c ws))"
proof -
  from fill_pending_spec[OF assms(1,2)] obtain c1 ws1 where
    f: "fill_pending next_win c = Some (Inr (), c1)" and r: "remaining (ac_src c1) ws1"
    and e: "chunk_rest c1 ws1 = chunk_rest c ws" "chunk_samples c1 = chunk_samples c"
      "ac_eof c1 \<longrightarrow> ws1 = []" "ac_eof c1 \<or> chunk_samples c \<le> length (pending c1)" by blast
  have emp: "pending c1 = [] \<longleftrightarrow> chunk_rest c ws = []"
  proof -
    have "pending c1 = [] \<longleftrightarrow> chunk_rest c1 ws1 = []"
      using e(2-4) n by (auto simp: chunk_rest_def)
    then show ?thesis using e(1) by simp
  qed
  show ?thesis
  proof (cases "chunk_rest c ws = []")
    case True
    then show ?thesis using f r e emp
      by (intro exI[of _ c1] exI[of _ ws1]) (simp add: next_chunk_def)
  next
    case False
    have tk: "take (min (chunk_samples c) (length (pending c1))) (pending c1) = take (chunk_samples c) (chunk_rest c ws)"
      and dr: "drop (min (chunk_samples c) (length (pending c1))) (pending c1) @ concat (map snd ws1)
               = drop (chunk_samples c) (chunk_rest c ws)"
      using e(2-4) unfolding e(1)[symmetric] by (auto simp: chunk_rest_def min_def)
    let ?c = "c1\<lparr>pending := drop (min (chunk_samples c) (length (pending c1))) (pending c1)\<rparr>"
    have cr: "chunk_rest ?c ws1 = drop (chunk_samples c) (chunk_rest c ws)"
      using dr by (simp add: chunk_rest_def)
    show ?thesis using f r e emp False tk cr
      by (intro exI[of _ ?c] exI[of _ ws1]) (simp add: next_chunk_def Let_def)
  qed
qed

lemma collect_chunks_spec:
  "remaining (ac_src c) ws \<Longrightarrow> (ac_eof c \<Longrightarrow> ws = []) \<Longrightarrow> 0 < chunk_samples c
   \<Longrightarrow> collect_chunks next_win c acc = Some (Inr (acc @ chunks (chunk_samples c) (chunk_rest c ws)))"
proof (induction "length (chunk_rest c ws)" arbitrary: c ws acc rule: less_induct)
  case less
  from next_chunk_spec[OF less.prems] obtain c' ws' where
    r: "remaining (ac_src c') ws'" "ac_eof c' \<longrightarrow> ws' = []" "chunk_samples c' = chunk_samples c"
    and k: "if chunk_rest c ws = [] then next_chunk next_win c = Some (Inr None, c')
       else next_chunk next_win c = Some (Inr (Some (take (chunk_samples c) (chunk_rest c ws))), c')
         \<and> chunk_rest c' ws' = drop (chunk_samples c) (chunk_rest c ws)" by blast
  show ?case
  proof (cases "chunk_rest c ws = []")
    case True
    then show ?thesis using k by (subst collect_chunks.simps) simp
  next
    case False
    then have "length (chunk_rest c' ws') < length (chunk_rest c ws)"
      using k less.prems(3) by simp
    from less.hyps[OF this r(1)] have
      "collect_chunks next_win c' (acc @ [take (chunk_samples c) (chunk_rest c ws)])
       = Some (Inr ((acc @ [take (chunk_samples c) (chunk_rest c ws)])
                    @ chunks (chunk_samples c) (drop (chunk_samples c) (chunk_rest c ws))))"
      using r k False less.prems(3) by simp
    then show ?thesis using k False less.prems(3)
      by (subst collect_chunks.simps) (simp add: chunks_step)
  qed
qed

lemma audio_chunks_all:
  "remaining s ws \<Longrightarrow>
   collect_chunks next_win (audio_chunks_new s n) [] = Some (Inr (chunks (max n 1) (concat (map snd ws))))"
  using collect_chunks_spec[of "audio_chunks_new s n" ws "[]"]
  by (simp add: audio_chunks_new_def chunk_rest_def)

end

section \<open>A zero-overlap spec partitions the stream\<close>

lemma concat_regular:
  "n * w \<le> length xs \<Longrightarrow> concat (map (\<lambda>i. subslice xs (i * w) (i * w + w)) [0..<n]) = take (n * w) xs"
proof (induction n)
  case 0
  then show ?case by simp
next
  case (Suc n)
  have "take (n * w) xs @ subslice xs (n * w) (n * w + w) = take (n * w + w) xs"
    using subslice_append_split[of 0 "n * w" "n * w + w" xs] by (simp add: subslice_def)
  then show ?case using Suc by (simp add: add.commute)
qed

lemma windows_of_partition:
  assumes v: "valid_spec sp" and p: "stride sp = window sp"
  shows "concat (map snd (windows_of sp xs)) = xs"
proof (cases "xs = []")
  case True
  then show ?thesis by (simp add: windows_of_def ref_windows_def)
next
  case False
  let ?n = "n_regular sp (length xs)"
  have n: "?n * window sp < length xs"
    using n_regular_pos_rest[OF v] False p by simp
  have "concat (map (snd \<circ> (\<lambda>(s, e). (s, subslice xs s e)))
          (map (\<lambda>i. (i * stride sp, i * stride sp + window sp)) [0..<?n])) = take (?n * window sp) xs"
    using concat_regular[of ?n "window sp" xs] n p by (simp add: comp_def)
  moreover have "last_start sp (length xs) = ?n * window sp"
    using p by (simp add: last_start_def Let_def overlap_def)
  ultimately show ?thesis using False
    by (simp add: windows_of_def ref_windows_def subslice_to_end comp_assoc)
qed

lemma pull_spec_simps [simp]: "stride pull_spec = 32000" "window pull_spec = 32000" "single_pass_max pull_spec = 0"
  by (simp_all add: pull_spec_def window_spec_new_def PULL_SAMPLES_def)

lemma pull_spec_valid [simp]: "valid_spec pull_spec"
  by (simp add: pull_spec_def PULL_SAMPLES_def window_spec_new_valid)

lemma windows_of_pull: "concat (map snd (windows_of pull_spec xs)) = xs"
  by (rule windows_of_partition) simp_all

section \<open>Property\<close>

text \<open>
  C9: \<open>AudioChunks\<close> over a WAVE source that decodes to \<open>xs\<close> emits, chunk after chunk and then
  nothing, exactly \<open>xs.chunks(n)\<close>, with \<open>n = 0\<close> raised to 1.
\<close>
theorem audio_chunks_equal_chunks:
  assumes "wave_source_from rate limit msgs False = Inr w"
    and "drain_to_vec ops (rolling_new w flat_spec) = Inr xs" and "length xs < usize_max"
  shows "collect_chunks (file_next_window ops) (file_chunks_open w n) [] = Some (Inr (chunks (max n 1) xs))"
proof -
  note rem = file_remaining_new[OF pull_spec_valid wave_open_drained[OF assms] assms(3)]
  have fn: "file_next_window ops = next_window_via (fill_to ops) False"
    by (simp add: fun_eq_iff file_next_window_def)
  show ?thesis
    using wave_file.audio_chunks_all[OF exI, OF rem, where skip = False and n = n]
    unfolding fn file_chunks_open_def windows_of_pull by blast
qed

lemma audio_chunks_equal_chunks_witness:
  "\<exists>w. collect_chunks (file_next_window demo_rubato) (file_chunks_open w 0) [] = Some (Inr [[Fin 1], [Fin 2]])"
proof -
  obtain w :: "unit wave_source" where w: "wave_source_from 16000 None demo_messages False = Inr w"
    "drain_to_vec demo_rubato (rolling_new w flat_spec) = Inr [Fin 1, Fin 2]" using demo_source by blast
  have "chunks (max 0 1) [Fin 1, Fin 2] = [[Fin 1], [Fin 2]]" by (simp add: chunks.simps)
  then show ?thesis using audio_chunks_equal_chunks [OF w, of 0] by (auto simp: usize_max_def)
qed

end
