(* ===== verification/Vad_Windows.thy ===== *)
theory Vad_Windows
  imports Vad_Segmenter Audio_Chunks
begin

text \<open>
  \<open>VadWindows\<close> of \<open>inference/audio/vad_windows.rs\<close>: the windows of the silence-free timeline
  of a streamed container. The raw source is any counted window source; \<open>vad_file\<close> at the
  end of the theory puts the WAVE source under it. The scorer is the Silero call of
  \<open>vad/silero.rs\<close>. The rolling buffer, the cursor and \<open>next_window\<close> are those of
  \<open>Pcm_Sources\<close>, with the test for an all-silent stream switched on.
\<close>

definition VAD_PULL_SAMPLES :: nat where "VAD_PULL_SAMPLES = 32000"
definition ABORT_POLL_BLOCKS :: nat where "ABORT_POLL_BLOCKS = 16"

definition vad_pull_spec :: window_spec where
  "vad_pull_spec = window_spec_new 0 VAD_PULL_SAMPLES 0"

record ('r, 'st) vad_source =
  vw_raw :: 'r
  vw_seg :: "'st segmenter"
  vad_failed :: bool
  blocks :: nat
  abort_polls :: nat

definition vad_windows_new :: "'r \<Rightarrow> 'st \<Rightarrow> vad_config \<Rightarrow> window_spec \<Rightarrow> ('r, 'st) vad_source rolling" where
  "vad_windows_new x st0 cfg sp =
     rolling_new \<lparr>vw_raw = x, vw_seg = segmenter_new cfg st0, vad_failed = False, blocks = 0, abort_polls = 0\<rparr> sp"

definition vw_regions :: "('r, 'st) vad_source rolling \<Rightarrow> (nat \<times> nat) list" where
  "vw_regions r = regions (vw_seg (src r))"

definition needs_fallback :: "('r \<Rightarrow> nat) \<Rightarrow> ('r, 'st) vad_source rolling \<Rightarrow> bool" where
  "needs_fallback total_of r \<longleftrightarrow>
     vad_failed (src r) \<or> (vw_regions r = [] \<and> 0 < total_of (vw_raw (src r)))"

text \<open>
  The poll before each pulled block: the closure is asked every 16 blocks. \<open>abort_polls\<close>
  numbers the questions, and is the model's only addition to the state.
\<close>

definition poll_abort ::
  "(nat \<Rightarrow> bool) option \<Rightarrow> ('r, 'st) vad_source \<Rightarrow> bool \<times> ('r, 'st) vad_source" where
  "poll_abort ab v =
     (case ab of
        None \<Rightarrow> (False, v)
      | Some f \<Rightarrow>
          if ABORT_POLL_BLOCKS \<le> blocks v + 1
          then (f (abort_polls v), v\<lparr>blocks := 0, abort_polls := abort_polls v + 1\<rparr>)
          else (False, v\<lparr>blocks := blocks v + 1\<rparr>))"

text \<open>
  One pulled block: score it, or close the stream. A model failure is not an error of the
  request: the block's output is dropped and the stream ends with \<open>vad_failed\<close> set.
\<close>

definition vad_block ::
  "('r \<Rightarrow> nat) \<Rightarrow> 'st scorer \<Rightarrow> pcm_window option \<Rightarrow> ('r, 'st) vad_source rolling
   \<Rightarrow> unit result \<times> ('r, 'st) vad_source rolling" where
  "vad_block total_of score w r0 =
     (let r = (if w = None then r0\<lparr>src_eof := True\<rparr> else r0);
          scanned = (case w of
                       Some (_, xs) \<Rightarrow> push_with score xs (vw_seg (src r)) (buf r)
                     | None \<Rightarrow> finish_with score (total_of (vw_raw (src r))) (vw_seg (src r)) (buf r))
      in case scanned of
           Inl Panic \<Rightarrow> (Inl Panic, r)
         | Inl (Err e) \<Rightarrow> (Inr (), r\<lparr>src := (src r)\<lparr>vad_failed := True\<rparr>, src_eof := True\<rparr>)
         | Inr (g, out) \<Rightarrow>
             (Inr (), r\<lparr>src := (src r)\<lparr>vw_seg := g\<rparr>, buf := out,
                        avail_total := avail_total r + (length out - length (buf r))\<rparr>))"

partial_function (option) vad_fill_loop ::
  "('r \<Rightarrow> pcm_window option result \<times> 'r) \<Rightarrow> ('r \<Rightarrow> nat) \<Rightarrow> 'st scorer \<Rightarrow> (nat \<Rightarrow> bool) option \<Rightarrow> nat
   \<Rightarrow> ('r, 'st) vad_source rolling \<Rightarrow> (unit result \<times> ('r, 'st) vad_source rolling) option" where
  "vad_fill_loop nxt total_of score ab t r =
     (if src_eof r \<or> t \<le> avail_total r then Some (Inr (), r)
      else case poll_abort ab (src r) of (stop, v) \<Rightarrow>
        if stop then Some (Inl (Err Cancelled), r\<lparr>src := v\<rparr>)
        else
          (case nxt (vw_raw v) of
             (Inl e, x) \<Rightarrow> Some (Inl e, r\<lparr>src := v\<lparr>vw_raw := x\<rparr>\<rparr>)
           | (Inr w, x) \<Rightarrow>
               (case vad_block total_of score w (r\<lparr>src := v\<lparr>vw_raw := x\<rparr>\<rparr>) of
                  (Inl e, r') \<Rightarrow> Some (Inl e, r')
                | (Inr _, r') \<Rightarrow>
                    if vad_failed (src r') then Some (Inr (), r')
                    else vad_fill_loop nxt total_of score ab t r')))"

text \<open>
  The source type wants a total step. A fill that never returns is given an arbitrary failing
  value here; \<open>vad_fill_ok\<close> shows that the loop returns on every stream that decodes.
\<close>

definition vad_fill_to ::
  "('r \<Rightarrow> pcm_window option result \<times> 'r) \<Rightarrow> ('r \<Rightarrow> nat) \<Rightarrow> 'st scorer \<Rightarrow> (nat \<Rightarrow> bool) option \<Rightarrow> nat
   \<Rightarrow> ('r, 'st) vad_source rolling \<Rightarrow> unit result \<times> ('r, 'st) vad_source rolling" where
  "vad_fill_to nxt total_of score ab t r =
     (case vad_fill_loop nxt total_of score ab t r of Some x \<Rightarrow> x | None \<Rightarrow> (Inl Panic, r))"

definition vad_next_window ::
  "('r \<Rightarrow> pcm_window option result \<times> 'r) \<Rightarrow> ('r \<Rightarrow> nat) \<Rightarrow> 'st scorer \<Rightarrow> (nat \<Rightarrow> bool) option
   \<Rightarrow> ('r, 'st) vad_source rolling \<Rightarrow> pcm_window option result \<times> ('r, 'st) vad_source rolling" where
  "vad_next_window nxt total_of score ab = next_window_via (vad_fill_to nxt total_of score ab) True"

section \<open>The segmenter only appends to its output\<close>

definition prepend :: "pcm \<Rightarrow> string fault + ('st segmenter \<times> pcm) \<Rightarrow> string fault + ('st segmenter \<times> pcm)" where
  "prepend z x = map_sum id (map_prod id ((@) z)) x"

lemma prepend_simps [simp]: "prepend z (Inl e) = Inl e" "prepend z (Inr (g, out)) = Inr (g, z @ out)"
  by (simp_all add: prepend_def)

lemma flush_loop_prepend: "flush_loop d g (z @ out) = prepend z (flush_loop d g out)"
proof (induction d g out rule: flush_loop.induct)
  case (1 d g out)
  let ?s = "fst (regions g ! out_idx g)" and ?e = "snd (regions g ! out_idx g)"
  let ?frm = "max (copied_to g) ?s" and ?to = "min ?e d"
  let ?bad = "?frm < ?to \<and> (?frm < raw_start g \<or> length (raw g) < ?to - raw_start g)"
  let ?out = "if ?frm < ?to then out @ subslice (raw g) (?frm - raw_start g) (?to - raw_start g) else out"
  let ?g = "if ?frm < ?to then g\<lparr>copied_to := ?to\<rparr> else g"
  show ?case
  proof (cases "length (regions g) \<le> out_idx g \<or> ?bad")
    case True
    then show ?thesis by (subst (1 2) flush_loop.simps) (auto simp: Let_def)
  next
    case False
    then have a: "\<not> length (regions g) \<le> out_idx g" and b: "\<not> ?bad" by blast+
    have e: "flush_loop d g o' = (if Suc (out_idx g) < length (regions g)
        then flush_loop d (?g\<lparr>out_idx := Suc (out_idx g)\<rparr>)
          (if ?frm < ?to then o' @ subslice (raw g) (?frm - raw_start g) (?to - raw_start g) else o')
        else Inr (?g, if ?frm < ?to then o' @ subslice (raw g) (?frm - raw_start g) (?to - raw_start g) else o'))" for o'
      by (subst flush_loop.simps) (simp only: Let_def if_not_P[OF a] if_not_P[OF b])
    show ?thesis
    proof (cases "Suc (out_idx g) < length (regions g)")
      case True
      have "flush_loop d (?g\<lparr>out_idx := Suc (out_idx g)\<rparr>) (z @ ?out)
          = prepend z (flush_loop d (?g\<lparr>out_idx := Suc (out_idx g)\<rparr>) ?out)"
        by (rule "1.IH"[OF a refl refl refl refl b refl refl True])
      moreover have "(if c then (z @ out) @ x else z @ out) = z @ (if c then out @ x else out)" for c and x :: pcm
        by simp
      ultimately show ?thesis unfolding e if_P[OF True] by (simp only:)
    next
      case False
      then show ?thesis unfolding e by simp
    qed
  qed
qed

lemma push_with_prepend: "push_with score b g (z @ out) = prepend z (push_with score b g out)"
  by (auto simp: push_with_def seg_flush_def flush_loop_prepend prepend_def split: sum.splits)

lemma finish_with_prepend: "finish_with score n g (z @ out) = prepend z (finish_with score n g out)"
  by (auto simp: finish_with_def seg_flush_def flush_loop_prepend split: sum.splits)

lemma push_blocks_prepend: "push_blocks score bs g (z @ out) = prepend z (push_blocks score bs g out)"
proof (induction bs arbitrary: g out)
  case (Cons b bs)
  then show ?case by (simp add: push_with_prepend prepend_def split: sum.split)
qed simp

text \<open>What the segmenter still releases for the blocks to come.\<close>

definition vad_tail :: "'st scorer \<Rightarrow> pcm list \<Rightarrow> nat \<Rightarrow> 'st segmenter \<Rightarrow> string fault + ((nat \<times> nat) list \<times> pcm)" where
  "vad_tail score bs n g =
     (case push_blocks score bs g [] of
        Inl e \<Rightarrow> Inl e
      | Inr (g', out) \<Rightarrow>
          (case finish_with score n g' out of Inl e \<Rightarrow> Inl e | Inr (g'', out') \<Rightarrow> Inr (regions g'', out')))"

lemma stream_speech_tail:
  "stream_speech score st0 cfg bs = vad_tail score bs (length (concat bs)) (segmenter_new cfg st0)"
  by (simp add: stream_speech_def vad_tail_def)

lemma vad_tail_Cons:
  assumes "vad_tail score (b # bs) n g = Inr (rs, ys)"
  shows "\<exists>g' zs ys'. (\<forall>z. push_with score b g z = Inr (g', z @ zs)) \<and> ys = zs @ ys'
    \<and> vad_tail score bs n g' = Inr (rs, ys')"
proof -
  obtain g' zs where p: "push_with score b g [] = Inr (g', zs)"
    using assms by (cases "push_with score b g []") (auto simp: vad_tail_def)
  have "push_with score b g z = Inr (g', z @ zs)" for z
    using push_with_prepend[of score b g z "[]"] p by simp
  moreover have "\<exists>ys'. ys = zs @ ys' \<and> vad_tail score bs n g' = Inr (rs, ys')"
    using assms p push_blocks_prepend[of score bs g' zs "[]"]
    by (cases "push_blocks score bs g' []")
       (auto simp: vad_tail_def finish_with_prepend[of score n _ zs] prepend_def split: sum.splits)
  ultimately show ?thesis by blast
qed

lemma vad_tail_Nil:
  assumes "vad_tail score [] n g = Inr (rs, ys)"
  shows "\<exists>g'. (\<forall>z. finish_with score n g z = Inr (g', z @ ys)) \<and> regions g' = rs"
proof -
  obtain g' where g': "finish_with score n g [] = Inr (g', ys)" "regions g' = rs"
    using assms by (auto simp: vad_tail_def split: sum.splits)
  then show ?thesis using finish_with_prepend[of score n g _ "[]"] by auto
qed

section \<open>VadWindows as a rolling source\<close>

definition quiet :: "(nat \<Rightarrow> bool) option \<Rightarrow> bool" where
  "quiet ab \<longleftrightarrow> (\<forall>f k. ab = Some f \<longrightarrow> \<not> f k)"

text \<open>
  From \<open>r\<close> the silence-free stream still brings \<open>ys\<close>; the regions will end up as \<open>rs\<close>
  and the raw stream will have had \<open>n\<close> samples.
\<close>

definition vad_yields ::
  "('r \<Rightarrow> pcm_window list \<Rightarrow> nat \<Rightarrow> bool) \<Rightarrow> ('r \<Rightarrow> nat) \<Rightarrow> 'st scorer \<Rightarrow> (nat \<Rightarrow> bool) option
   \<Rightarrow> (nat \<times> nat) list \<Rightarrow> nat \<Rightarrow> ('r, 'st) vad_source rolling \<Rightarrow> pcm \<Rightarrow> bool" where
  "vad_yields pend total_of score ab rs n r ys \<longleftrightarrow>
     quiet ab \<and> \<not> vad_failed (src r)
     \<and> (if src_eof r then ys = [] \<and> vw_regions r = rs \<and> total_of (vw_raw (src r)) = n
        else \<exists>ws. pend (vw_raw (src r)) ws n
               \<and> vad_tail score (map snd ws) n (vw_seg (src r)) = Inr (rs, ys))"

lemma poll_abort_quiet:
  "quiet ab \<Longrightarrow> \<exists>b k. poll_abort ab v = (False, v\<lparr>blocks := b, abort_polls := k\<rparr>)"
proof (cases ab)
  case None
  then have "poll_abort ab v = (False, v\<lparr>blocks := blocks v, abort_polls := abort_polls v\<rparr>)"
    by (simp add: poll_abort_def)
  then show ?thesis by blast
next
  case (Some f)
  assume q: "quiet ab"
  show ?thesis
  proof (cases "ABORT_POLL_BLOCKS \<le> blocks v + 1")
    case True
    then show ?thesis using q Some by (auto simp: poll_abort_def quiet_def)
  next
    case False
    then have "poll_abort ab v = (False, v\<lparr>blocks := blocks v + 1, abort_polls := abort_polls v\<rparr>)"
      using Some by (simp add: poll_abort_def)
    then show ?thesis by blast
  qed
qed

context counted_windows begin

lemma vad_fill_loop_ok:
  assumes "vad_yields pending_windows total_of score ab rs n r ys"
  shows "\<exists>r' zs ys'. vad_fill_loop next_win total_of score ab t r = Some (Inr (), r')
      \<and> vad_yields pending_windows total_of score ab rs n r' ys' \<and> ys = zs @ ys'
      \<and> buf r' = buf r @ zs \<and> avail_total r' = avail_total r + length zs
      \<and> buf_start_abs r' = buf_start_abs r \<and> cursor r' = cursor r
      \<and> (src_eof r' \<and> ys' = [] \<or> \<not> src_eof r' \<and> t \<le> avail_total r')"
proof (cases "src_eof r")
  case True
  then show ?thesis using assms
    by (subst vad_fill_loop.simps) (auto simp: vad_yields_def)
next
  case False
  then obtain ws where "pending_windows (vw_raw (src r)) ws n"
    "vad_tail score (map snd ws) n (vw_seg (src r)) = Inr (rs, ys)" "\<not> vad_failed (src r)" "quiet ab"
    using assms by (auto simp: vad_yields_def)
  then show ?thesis using False
  proof (induction ws arbitrary: r ys)
    case Nil
    show ?case
    proof (cases "t \<le> avail_total r")
      case True
      have "vad_yields pending_windows total_of score ab rs n r ys" using Nil
        by (auto simp: vad_yields_def intro!: exI[of _ "[]"])
      then show ?thesis using True Nil.prems(5)
        by (subst vad_fill_loop.simps) (auto intro!: exI[of _ r] exI[of _ "[]"])
    next
      case False
      obtain b k where pa: "poll_abort ab (src r) = (False, (src r)\<lparr>blocks := b, abort_polls := k\<rparr>)"
        using poll_abort_quiet[OF Nil.prems(4)] by blast
      obtain x where x: "next_win (vw_raw (src r)) = (Inr None, x)" "total_of x = n"
        using counted_Nil[OF Nil.prems(1)] by blast
      from vad_tail_Nil[of score n "vw_seg (src r)" rs ys] Nil.prems(2) obtain g' where
        g': "\<And>z. finish_with score n (vw_seg (src r)) z = Inr (g', z @ ys)" "regions g' = rs" by auto
      let ?v = "(src r)\<lparr>blocks := b, abort_polls := k, vw_raw := x\<rparr>"
      let ?r' = "r\<lparr>src := ?v\<lparr>vw_seg := g'\<rparr>, src_eof := True, buf := buf r @ ys,
                   avail_total := avail_total r + length ys\<rparr>"
      have vb: "vad_block total_of score None (r\<lparr>src := ?v\<rparr>) = (Inr (), ?r')"
        using g'(1) x(2) by (simp add: vad_block_def Let_def)
      have "vad_fill_loop next_win total_of score ab t r = vad_fill_loop next_win total_of score ab t ?r'"
        using False Nil.prems(3,5) pa x(1) vb by (subst vad_fill_loop.simps) simp
      also have "\<dots> = Some (Inr (), ?r')" by (subst vad_fill_loop.simps) simp
      finally show ?thesis using Nil.prems g'(2) x(2)
        by (intro exI[of _ ?r'] exI[of _ ys] exI[of _ "[]"]) (simp add: vad_yields_def vw_regions_def)
    qed
  next
    case (Cons w ws)
    show ?case
    proof (cases "t \<le> avail_total r")
      case True
      have "vad_yields pending_windows total_of score ab rs n r ys" using Cons.prems
        by (auto simp: vad_yields_def intro!: exI[of _ "w # ws"])
      then show ?thesis using True Cons.prems(5)
        by (subst vad_fill_loop.simps) (auto intro!: exI[of _ r] exI[of _ "[]"])
    next
      case False
      obtain b k where pa: "poll_abort ab (src r) = (False, (src r)\<lparr>blocks := b, abort_polls := k\<rparr>)"
        using poll_abort_quiet[OF Cons.prems(4)] by blast
      obtain x where x: "next_win (vw_raw (src r)) = (Inr (Some w), x)" "pending_windows x ws n"
        using counted_Cons[OF Cons.prems(1)] by blast
      from vad_tail_Cons[of score "snd w" "map snd ws" n "vw_seg (src r)" rs ys] Cons.prems(2)
      obtain g' zs ys' where g': "\<And>z. push_with score (snd w) (vw_seg (src r)) z = Inr (g', z @ zs)"
        "ys = zs @ ys'" "vad_tail score (map snd ws) n g' = Inr (rs, ys')" by auto
      let ?v = "(src r)\<lparr>blocks := b, abort_polls := k, vw_raw := x\<rparr>"
      let ?r1 = "r\<lparr>src := ?v\<lparr>vw_seg := g'\<rparr>, buf := buf r @ zs, avail_total := avail_total r + length zs\<rparr>"
      have vb: "vad_block total_of score (Some w) (r\<lparr>src := ?v\<rparr>) = (Inr (), ?r1)"
        using g'(1) by (cases w) (simp add: vad_block_def Let_def)
      have lp: "vad_fill_loop next_win total_of score ab t r = vad_fill_loop next_win total_of score ab t ?r1"
        using False Cons.prems(3,5) pa x(1) vb by (subst vad_fill_loop.simps) simp
      have "\<exists>r' zs' ys''. vad_fill_loop next_win total_of score ab t ?r1 = Some (Inr (), r')
        \<and> vad_yields pending_windows total_of score ab rs n r' ys'' \<and> ys' = zs' @ ys''
        \<and> buf r' = buf ?r1 @ zs' \<and> avail_total r' = avail_total ?r1 + length zs'
        \<and> buf_start_abs r' = buf_start_abs ?r1 \<and> cursor r' = cursor ?r1
        \<and> (src_eof r' \<and> ys'' = [] \<or> \<not> src_eof r' \<and> t \<le> avail_total r')"
        by (rule Cons.IH) (use x(2) g'(3) Cons.prems in simp_all)
      then obtain r' zs' ys'' where "vad_fill_loop next_win total_of score ab t ?r1 = Some (Inr (), r')"
        "vad_yields pending_windows total_of score ab rs n r' ys''" "ys' = zs' @ ys''"
        "buf r' = buf r @ zs @ zs'" "avail_total r' = avail_total r + length zs + length zs'"
        "buf_start_abs r' = buf_start_abs r" "cursor r' = cursor r"
        "src_eof r' \<and> ys'' = [] \<or> \<not> src_eof r' \<and> t \<le> avail_total r'" by auto
      then show ?thesis using lp g'(2)
        by (intro exI[of _ r'] exI[of _ "zs @ zs'"] exI[of _ ys'']) simp
    qed
  qed
qed

lemma vad_fill_to_ok:
  "vad_yields pending_windows total_of score ab rs n r ys \<Longrightarrow>
   \<exists>r' zs ys'. vad_fill_to next_win total_of score ab t r = (Inr (), r')
      \<and> vad_yields pending_windows total_of score ab rs n r' ys' \<and> ys = zs @ ys'
      \<and> buf r' = buf r @ zs \<and> avail_total r' = avail_total r + length zs
      \<and> buf_start_abs r' = buf_start_abs r \<and> cursor r' = cursor r
      \<and> (src_eof r' \<and> ys' = [] \<or> \<not> src_eof r' \<and> t \<le> avail_total r')"
  using vad_fill_loop_ok[of score ab rs n r ys t] by (fastforce simp: vad_fill_to_def)

lemma vad_yields_new:
  assumes "pending_windows x ws n" and "n = length (concat (map snd ws))" and "quiet ab"
    and "stream_speech score st0 cfg (map snd ws) = Inr (rs, ys)"
  shows "vad_yields pending_windows total_of score ab rs n (vad_windows_new x st0 cfg sp) ys"
  using assms stream_speech_tail[of score st0 cfg "map snd ws"]
  by (auto simp: vad_yields_def vad_windows_new_def rolling_new_def)

end

text \<open>The container under the VAD: the WAVE source read in flat blocks.\<close>

definition raw_next_window :: "'c rubato_ops \<Rightarrow> 'c wave_source rolling \<Rightarrow> pcm_window option result \<times> 'c wave_source rolling" where
  "raw_next_window ops = next_window_via (fill_to ops) False"

interpretation vad_file: rolling_fill
    "vad_fill_to (raw_next_window ops) avail_total score ab"
    "vad_yields (rolling_remaining (file_yields ops)) avail_total score ab rs n"
  for ops score ab rs n
proof
  show "vad_yields (rolling_remaining (file_yields ops)) avail_total score ab rs n r ys \<Longrightarrow>
    \<exists>r' zs ys'. vad_fill_to (raw_next_window ops) avail_total score ab t r = (Inr (), r')
      \<and> vad_yields (rolling_remaining (file_yields ops)) avail_total score ab rs n r' ys' \<and> ys = zs @ ys'
      \<and> buf r' = buf r @ zs \<and> avail_total r' = avail_total r + length zs
      \<and> buf_start_abs r' = buf_start_abs r \<and> cursor r' = cursor r
      \<and> (src_eof r' \<and> ys' = [] \<or> \<not> src_eof r' \<and> t \<le> avail_total r')" for r ys t
    unfolding raw_next_window_def by (rule wave_file.vad_fill_to_ok)
qed (auto simp: vad_yields_def vw_regions_def split: if_splits)

section \<open>Property\<close>

lemma separated_sum_le:
  "separated ((s, e) # rs) \<Longrightarrow> \<forall>(a, b) \<in> set ((s, e) # rs). b \<le> n \<Longrightarrow> s + (\<Sum>(a, b)\<leftarrow>((s, e) # rs). b - a) \<le> n"
proof (induction rs arbitrary: s e)
  case (Cons x rs)
  obtain a b where "x = (a, b)" by (cases x)
  then show ?case using Cons.IH[of a b] Cons.prems by (cases rs) auto
qed auto

lemma batch_speech_length:
  assumes "batch_speech score st0 cfg xs = Inr (rs, ys)"
  shows "length ys \<le> length xs"
proof -
  have ys: "ys = speech_of xs rs" using assms by (auto simp: batch_speech_def split: sum.splits)
  note sh = batch_regions_shape[OF assms]
  have "map (length \<circ> (\<lambda>(s, e). subslice xs s e)) rs = map (\<lambda>(s, e). e - s) rs"
    using sh by (intro map_cong) (auto simp: min_def)
  then have "length ys = (\<Sum>(s, e)\<leftarrow>rs. e - s)" by (simp only: ys speech_of_def length_concat map_map)
  moreover have "(\<Sum>(s, e)\<leftarrow>rs. e - s) \<le> length xs"
  proof (cases rs)
    case (Cons x ts)
    obtain s e where "x = (s, e)" by (cases x)
    then show ?thesis using separated_sum_le[of s e ts "length xs"] sh Cons by simp
  qed simp
  ultimately show ?thesis by simp
qed

lemma vad_pull_spec_eq: "vad_pull_spec = pull_spec"
  by (simp add: vad_pull_spec_def pull_spec_def VAD_PULL_SAMPLES_def PULL_SAMPLES_def)

lemma vad_windows_pull:
  assumes live: "file_live ops xs (rolling_new w vad_pull_spec)" and lim: "length xs < usize_max"
    and b: "batch_speech score st0 cfg xs = Inr (rs, ys)" and q: "quiet ab" and v: "valid_spec sp"
  shows "\<exists>r'. pull_loop (vad_next_window (raw_next_window ops) avail_total score ab) body
      (vad_windows_new (rolling_new w vad_pull_spec) st0 cfg sp) acc
      = Some (fold_windows body (windows_of sp ys) acc, r')
    \<and> ((\<exists>a. fold_windows body (windows_of sp ys) acc = Inr a) \<longrightarrow>
         vw_regions r' = rs \<and> (needs_fallback avail_total r' \<longleftrightarrow> rs = [] \<and> xs \<noteq> []))"
proof -
  let ?r0 = "vad_windows_new (rolling_new w vad_pull_spec) st0 cfg sp"
  have pull: "rolling_remaining (file_yields ops) (rolling_new w vad_pull_spec) (windows_of pull_spec xs) (length xs)"
    using file_remaining_new[OF _ live lim] by (simp add: vad_pull_spec_eq)
  have "stream_speech score st0 cfg (map snd (windows_of pull_spec xs)) = Inr (rs, ys)"
    unfolding stream_speech_batch windows_of_pull by (rule b)
  from wave_file.vad_yields_new[OF pull _ q this] windows_of_pull[of xs]
  have "vad_yields (rolling_remaining (file_yields ops)) avail_total score ab rs (length xs) ?r0 ys" by simp
  moreover have "length ys < usize_max" using batch_speech_length[OF b] lim by simp
  ultimately have rem: "rolling_remaining (vad_yields (rolling_remaining (file_yields ops)) avail_total score ab rs (length xs))
      ?r0 (windows_of sp ys) (length ys)"
    unfolding vad_windows_new_def by (intro rolling_remaining_new v)
  show ?thesis
  proof (cases "fold_windows body (windows_of sp ys) acc")
    case (Inl e)
    from vad_file.pull_loop_fold[OF exI, OF rem, where skip = True and body = body and acc = acc] Inl show ?thesis
      by (auto simp: vad_next_window_def)
  next
    case (Inr a)
    from vad_file.pull_loop_drained[OF exI, OF rem Inr, where skip = True] obtain s0 n r' where
      p: "pull_loop (vad_next_window (raw_next_window ops) avail_total score ab) body ?r0 acc = Some (Inr a, r')"
      and s0: "rolling_remaining (vad_yields (rolling_remaining (file_yields ops)) avail_total score ab rs (length xs)) s0 [] n"
      "next_window_via (vad_fill_to (raw_next_window ops) avail_total score ab) True s0 = (Inr None, r')"
      unfolding vad_next_window_def by blast
    from vad_file.drained_eof[OF s0] obtain zs where
      "src_eof r'" "vad_yields (rolling_remaining (file_yields ops)) avail_total score ab rs (length xs) r' zs" by blast
    then have "vw_regions r' = rs" "\<not> vad_failed (src r')" "avail_total (vw_raw (src r')) = length xs"
      by (simp_all add: vad_yields_def)
    then show ?thesis using p Inr by (simp add: needs_fallback_def)
  qed
qed

text \<open>
  Let a WAVE source decode flat to \<open>xs\<close>, let the batch VAD keep the regions \<open>rs\<close> with the
  samples \<open>ys\<close>, and let the abort closure stay quiet. Then \<open>VadWindows\<close> hands any consumer the
  windows of \<open>ys\<close> and stops; a drained source holds the batch regions, and asks for the
  fallback exactly when a non-empty clip has no speech.
\<close>
theorem vad_windows_equal_batch:
  assumes "wave_source_from rate limit msgs False = Inr w"
    and "drain_to_vec ops (rolling_new w flat_spec) = Inr xs" and "length xs < usize_max"
    and "batch_speech score st0 cfg xs = Inr (rs, ys)" and "quiet ab" and "FRAME_SAMPLES \<le> win"
  shows "\<exists>r'. pull_loop (vad_next_window (raw_next_window ops) avail_total score ab) body
      (vad_windows_new (rolling_new w vad_pull_spec) st0 cfg (window_spec_new spm win ov)) acc
      = Some (fold_windows body (windows_of (window_spec_new spm win ov) ys) acc, r')
    \<and> ((\<exists>a. fold_windows body (windows_of (window_spec_new spm win ov) ys) acc = Inr a) \<longrightarrow>
         vw_regions r' = rs \<and> (needs_fallback avail_total r' \<longleftrightarrow> rs = [] \<and> xs \<noteq> []))"
  by (rule vad_windows_pull[OF wave_open_drained[OF assms(1-3)] assms(3-5)])
     (rule window_spec_new_valid[OF assms(6)])

lemma vad_windows_equal_batch_witness:
  "\<exists>w r'. pull_loop (vad_next_window (raw_next_window demo_rubato) avail_total
        (\<lambda>f st. Inr (Fin 0, st)) (Some (\<lambda>_. False))) (\<lambda>ws v. Inr (ws @ [v]))
      (vad_windows_new (rolling_new w vad_pull_spec) () vad_config_default (window_spec_new 480000 384000 32000)) []
      = Some (Inr [], r') \<and> needs_fallback avail_total r'"
proof -
  obtain w :: "unit wave_source" where w: "wave_source_from 16000 None demo_messages False = Inr w"
    "drain_to_vec demo_rubato (rolling_new w flat_spec) = Inr [Fin 1, Fin 2]" using demo_source by blast
  have b: "batch_speech (\<lambda>f st. Inr (Fin 0, st)) () vad_config_default [Fin 1, Fin 2] = Inr ([], [])"
    by (simp add: batch_speech_def speech_regions_with_abort_def frame_probs_with_abort_def frame_scan.simps
        regions_from_probs_def raw_runs_def vad_config_default_def speech_of_def Let_def)
  have q: "quiet (Some (\<lambda>_. False))" by (simp add: quiet_def)
  have "windows_of sp [] = []" for sp by (simp add: windows_of_def ref_windows_def)
  then show ?thesis
    using vad_windows_equal_batch [OF w _ b q, of 384000 "\<lambda>ws v. Inr (ws @ [v])" 480000 32000 "[]"]
    by (auto simp: usize_max_def)
qed

end
