(* ===== verification/Session_Pool.thy ===== *)
theory Session_Pool
  imports Prelude "HOL-Library.Multiset"
begin

text \<open>
  The session pool of \<open>inference/pool.rs\<close> as a state machine at the granularity of its locks.
  Every checkout call is a request with an index; its phase says where the call, or the guard it
  returned, is. One event is one critical section of the source (the lock on \<open>items\<close>, the lock
  on \<open>waiters\<close>) or one channel operation, so two requests interleave exactly where the source
  releases a lock. The channel of a waiter is part of the waiter's phase: \<open>Waiting\<close> is an
  open empty channel, \<open>Sent\<close> one that holds an item, \<open>Gone\<close> one whose receiver was dropped.
\<close>

section \<open>State and events\<close>

datatype 'a phase =
    Start              \<comment> \<open>about to take the fast path\<close>
  | Slow               \<comment> \<open>the fast path found no item\<close>
  | Waiting            \<comment> \<open>registered, awaiting its channel\<close>
  | Sent 'a            \<comment> \<open>an item is in its channel\<close>
  | Gone               \<comment> \<open>its future was cancelled\<close>
  | Held 'a            \<comment> \<open>the guard is alive\<close>
  | Returning 'a       \<comment> \<open>in the retry loop of checkin\<close>
  | Giving 'a nat      \<comment> \<open>popped a waiter, about to send\<close>
  | Storing 'a         \<comment> \<open>found no waiter, about to lock items\<close>
  | Refused            \<comment> \<open>resolved to PoolError::Closed\<close>
  | Finished

record 'a pool =
  items :: "'a list"
  waiters :: "nat list"
  pool_closed :: bool
  cleared :: bool           \<comment> \<open>a close call has drained the waiters\<close>
  pool_total :: nat
  phases :: "'a phase list"
  discarded :: "'a list"    \<comment> \<open>dropped because the pool was closed\<close>
  lost :: "'a list"         \<comment> \<open>dropped inside a channel\<close>

definition pool_new :: "'a list \<Rightarrow> 'a pool" where
  "pool_new xs = \<lparr>items = xs, waiters = [], pool_closed = False, cleared = False, pool_total = length xs,
     phases = [], discarded = [], lost = []\<rparr>"

definition available :: "'a pool \<Rightarrow> nat" where "available p = length (items p)"
definition pool_waiters :: "'a pool \<Rightarrow> nat" where "pool_waiters p = length (waiters p)"

definition set_phase :: "nat \<Rightarrow> 'a phase \<Rightarrow> 'a pool \<Rightarrow> 'a pool" where
  "set_phase i ph p = p\<lparr>phases := (phases p)[i := ph]\<rparr>"

definition in_phase :: "'a pool \<Rightarrow> nat \<Rightarrow> 'a phase option" where
  "in_phase p i = (if i < length (phases p) then Some (phases p ! i) else None)"

text \<open>The critical sections of \<open>checkout\<close> and \<open>checkout_blocking\<close>.\<close>

definition fast_path :: "nat \<Rightarrow> 'a pool \<Rightarrow> 'a pool option" where
  "fast_path i p =
     (if in_phase p i \<noteq> Some Start then None
      else if pool_closed p then Some (set_phase i Refused p)
      else case items p of
             x # xs \<Rightarrow> Some (set_phase i (Held x) (p\<lparr>items := xs\<rparr>))
           | [] \<Rightarrow> Some (set_phase i Slow p))"

definition slow_path :: "nat \<Rightarrow> 'a pool \<Rightarrow> 'a pool option" where
  "slow_path i p =
     (if in_phase p i \<noteq> Some Slow then None
      else if pool_closed p then Some (set_phase i Refused p)
      else case items p of
             x # xs \<Rightarrow> Some (set_phase i (Held x) (p\<lparr>items := xs\<rparr>))
           | [] \<Rightarrow> Some (set_phase i Waiting (p\<lparr>waiters := waiters p @ [i]\<rparr>)))"

definition receive :: "nat \<Rightarrow> 'a pool \<Rightarrow> 'a pool option" where
  "receive i p = (case in_phase p i of Some (Sent x) \<Rightarrow> Some (set_phase i (Held x) p) | _ \<Rightarrow> None)"

text \<open>
  A cancelled future drops its receiver. An item already in the channel is dropped with it:
  the channel carries the bare item, and only a guard returns it to the pool.
\<close>

definition cancel :: "nat \<Rightarrow> 'a pool \<Rightarrow> 'a pool option" where
  "cancel i p =
     (case in_phase p i of
        Some Waiting \<Rightarrow> Some (set_phase i Gone p)
      | Some (Sent x) \<Rightarrow> Some (set_phase i Gone (p\<lparr>lost := lost p @ [x]\<rparr>))
      | _ \<Rightarrow> None)"

text \<open>\<open>PoolInner::checkin\<close>: the test on entry, the waiters lock, the send, the items lock.\<close>

definition drop_guard :: "nat \<Rightarrow> 'a pool \<Rightarrow> 'a pool option" where
  "drop_guard i p =
     (case in_phase p i of
        Some (Held x) \<Rightarrow>
          if pool_closed p then Some (set_phase i Finished (p\<lparr>discarded := discarded p @ [x]\<rparr>))
          else Some (set_phase i (Returning x) p)
      | _ \<Rightarrow> None)"

definition pop_waiter :: "nat \<Rightarrow> 'a pool \<Rightarrow> 'a pool option" where
  "pop_waiter i p =
     (case in_phase p i of
        Some (Returning x) \<Rightarrow>
          (case waiters p of
             w # ws \<Rightarrow> Some (set_phase i (Giving x w) (p\<lparr>waiters := ws\<rparr>))
           | [] \<Rightarrow> Some (set_phase i (Storing x) p))
      | _ \<Rightarrow> None)"

definition send_item :: "nat \<Rightarrow> 'a pool \<Rightarrow> 'a pool option" where
  "send_item i p =
     (case in_phase p i of
        Some (Giving x w) \<Rightarrow>
          if in_phase p w = Some Waiting
          then Some (set_phase i Finished (set_phase w (Sent x) p))
          else Some (set_phase i (Returning x) p)
      | _ \<Rightarrow> None)"

definition store_item :: "nat \<Rightarrow> 'a pool \<Rightarrow> 'a pool option" where
  "store_item i p =
     (case in_phase p i of
        Some (Storing x) \<Rightarrow> Some (set_phase i Finished (p\<lparr>items := items p @ [x]\<rparr>))
      | _ \<Rightarrow> None)"

text \<open>\<open>close\<close>: set the flag, then drain the waiters, whose senders are dropped.\<close>

definition close_set :: "'a pool \<Rightarrow> 'a pool" where
  "close_set p = p\<lparr>pool_closed := True\<rparr>"

definition refuse :: "nat list \<Rightarrow> nat \<Rightarrow> 'a phase \<Rightarrow> 'a phase" where
  "refuse ws i ph = (if i \<in> set ws \<and> ph = Waiting then Refused else ph)"

definition close_clear :: "'a pool \<Rightarrow> 'a pool option" where
  "close_clear p =
     (if pool_closed p
      then Some (p\<lparr>waiters := [], cleared := True,
                   phases := map (\<lambda>(i, ph). refuse (waiters p) i ph) (enumerate 0 (phases p))\<rparr>)
      else None)"

text \<open>\<open>try_checkout_n\<close>: the guards for up to \<open>n\<close> items become new requests in one section.\<close>

definition try_checkout_n :: "nat \<Rightarrow> 'a pool \<Rightarrow> (unit + nat) \<times> 'a pool" where
  "try_checkout_n n p =
     (if n = 0 then (Inr 0, p)
      else if pool_closed p then (Inl (), p)
      else let k = min n (length (items p)) in
           (Inr k, p\<lparr>items := drop k (items p), phases := phases p @ map Held (take k (items p))\<rparr>))"

definition try_checkout :: "'a pool \<Rightarrow> (unit + nat) \<times> 'a pool" where
  "try_checkout p = try_checkout_n 1 p"

datatype pool_event =
    Request | FastPath nat | SlowPath nat | Receive nat | Cancel nat | DropGuard nat
  | PopWaiter nat | SendItem nat | StoreItem nat | CloseSet | CloseClear | TryCheckout nat

fun pool_exec :: "pool_event \<Rightarrow> 'a pool \<Rightarrow> 'a pool option" where
  "pool_exec Request p = Some (p\<lparr>phases := phases p @ [Start]\<rparr>)"
| "pool_exec (FastPath i) p = fast_path i p"
| "pool_exec (SlowPath i) p = slow_path i p"
| "pool_exec (Receive i) p = receive i p"
| "pool_exec (Cancel i) p = cancel i p"
| "pool_exec (DropGuard i) p = drop_guard i p"
| "pool_exec (PopWaiter i) p = pop_waiter i p"
| "pool_exec (SendItem i) p = send_item i p"
| "pool_exec (StoreItem i) p = store_item i p"
| "pool_exec CloseSet p = Some (close_set p)"
| "pool_exec CloseClear p = close_clear p"
| "pool_exec (TryCheckout n) p = Some (snd (try_checkout_n n p))"

fun pool_run :: "pool_event list \<Rightarrow> 'a pool \<Rightarrow> 'a pool option" where
  "pool_run [] p = Some p"
| "pool_run (e # es) p = Option.bind (pool_exec e p) (pool_run es)"

inductive pool_reach :: "'a list \<Rightarrow> 'a pool \<Rightarrow> bool" for xs where
  reach_new: "pool_reach xs (pool_new xs)"
| reach_step: "pool_reach xs p \<Longrightarrow> pool_exec e p = Some q \<Longrightarrow> pool_reach xs q"

inductive_cases pool_reach_cases: "pool_reach xs p"

lemma pool_run_reach: "pool_reach xs p \<Longrightarrow> pool_run es p = Some q \<Longrightarrow> pool_reach xs q"
proof (induction es arbitrary: p)
  case (Cons e es)
  then show ?case by (auto simp: bind_eq_Some_conv intro: reach_step)
qed simp

text \<open>
  A blocking checkout that no other request interrupts, up to the point where it holds an item,
  is refused, or waits in the queue (\<open>recv\<close> then blocks until a checkin sends).
\<close>

definition checkout_blocking :: "'a pool \<Rightarrow> 'a pool option" where
  "checkout_blocking p =
     (let i = length (phases p) in
      Option.bind (pool_exec Request p) (\<lambda>p.
      Option.bind (fast_path i p) (\<lambda>q.
      if in_phase q i = Some Slow then slow_path i q else Some q)))"

lemma checkout_blocking_result:
  "checkout_blocking p = Some
     (if pool_closed p then p\<lparr>phases := phases p @ [Refused]\<rparr>
      else case items p of
             x # xs \<Rightarrow> p\<lparr>items := xs, phases := phases p @ [Held x]\<rparr>
           | [] \<Rightarrow> p\<lparr>waiters := waiters p @ [length (phases p)], phases := phases p @ [Waiting]\<rparr>)"
  by (cases "items p")
    (simp_all add: checkout_blocking_def fast_path_def slow_path_def in_phase_def set_phase_def list_update_append)

section \<open>Where the items are\<close>

fun phase_items :: "'a phase \<Rightarrow> 'a list" where
  "phase_items (Sent x) = [x]"
| "phase_items (Held x) = [x]"
| "phase_items (Returning x) = [x]"
| "phase_items (Giving x w) = [x]"
| "phase_items (Storing x) = [x]"
| "phase_items _ = []"

definition in_use :: "'a pool \<Rightarrow> 'a multiset" where
  "in_use p = mset (concat (map phase_items (phases p)))"

definition all_items :: "'a pool \<Rightarrow> 'a multiset" where
  "all_items p = mset (items p) + in_use p + mset (discarded p) + mset (lost p)"

lemma in_use_update:
  assumes "i < length phs"
  shows "mset (concat (map phase_items (phs[i := ph]))) + mset (phase_items (phs ! i))
       = mset (concat (map phase_items phs)) + mset (phase_items ph)"
  using assms
proof (induction phs arbitrary: i)
  case (Cons q qs)
  show ?case
  proof (cases i)
    case 0
    then show ?thesis by simp
  next
    case (Suc j)
    then show ?thesis using Cons.IH[of j] Cons.prems by (simp add: union_ac)
  qed
qed simp

lemma in_use_set_phase:
  assumes "in_phase p i = Some old"
  shows "in_use (set_phase i ph p) + mset (phase_items old) = in_use p + mset (phase_items ph)"
  using assms in_use_update[of i "phases p" ph]
  by (auto simp: in_phase_def in_use_def set_phase_def split: if_splits)

lemma set_phase_simps [simp]:
  "items (set_phase i ph p) = items p" "waiters (set_phase i ph p) = waiters p"
  "pool_closed (set_phase i ph p) = pool_closed p" "cleared (set_phase i ph p) = cleared p"
  "discarded (set_phase i ph p) = discarded p" "lost (set_phase i ph p) = lost p"
  "pool_total (set_phase i ph p) = pool_total p" "length (phases (set_phase i ph p)) = length (phases p)"
  by (simp_all add: set_phase_def)

lemma in_phase_set_phase:
  "in_phase (set_phase i ph p) j = (if i = j \<and> i < length (phases p) then Some ph else in_phase p j)"
  by (auto simp: in_phase_def set_phase_def)

lemma in_phase_Some: "in_phase p i = Some a \<longleftrightarrow> i < length (phases p) \<and> phases p ! i = a"
  by (auto simp: in_phase_def)

lemma in_phase_cong: "phases q = phases p \<Longrightarrow> in_phase q = in_phase p"
  by (simp add: in_phase_def fun_eq_iff)

lemma in_use_cong: "phases q = phases p \<Longrightarrow> in_use q = in_use p"
  by (simp add: in_use_def)

lemma refuse_items: "phase_items (refuse ws i ph) = phase_items ph"
  by (simp add: refuse_def)

lemma close_clear_items:
  "close_clear p = Some q \<Longrightarrow> in_use q = in_use p"
proof -
  have "map phase_items (map (\<lambda>(i, ph). refuse ws i ph) (enumerate n phs)) = map phase_items phs" for ws n and phs :: "'a phase list"
    by (induction phs arbitrary: n) (simp_all add: refuse_items)
  then show "close_clear p = Some q \<Longrightarrow> in_use q = in_use p"
    by (auto simp: close_clear_def in_use_def split: if_splits)
qed

text \<open>
  A step that moves request \<open>i\<close> from one phase to another and the rest of the pool from \<open>p\<close>
  to \<open>p'\<close> conserves the items when the parts that change balance.
\<close>

lemma set_phase_conserves:
  assumes "in_phase p i = Some old" "phases p' = phases p"
    and "mset (items p) + mset (discarded p) + mset (lost p) + mset (phase_items old)
       = mset (items p') + mset (discarded p') + mset (lost p') + mset (phase_items ph)"
  shows "all_items (set_phase i ph p') = all_items p"
proof -
  have "in_phase p' i = Some old" using assms(1) by (simp add: in_phase_Some assms(2))
  from in_use_set_phase[OF this, of ph] have
    u: "in_use (set_phase i ph p') + mset (phase_items old) = in_use p + mset (phase_items ph)"
    unfolding in_use_cong[OF assms(2)] .
  have "all_items (set_phase i ph p') + mset (phase_items old) =
      mset (items p') + mset (discarded p') + mset (lost p') + (in_use (set_phase i ph p') + mset (phase_items old))"
    by (simp add: all_items_def union_ac)
  also have "\<dots> = mset (items p') + mset (discarded p') + mset (lost p') + mset (phase_items ph) + in_use p"
    unfolding u by (simp add: union_ac)
  also have "\<dots> = all_items p + mset (phase_items old)"
    unfolding assms(3)[symmetric] by (simp add: all_items_def union_ac)
  finally show ?thesis by simp
qed

lemma all_items_cong:
  "phases q = phases p \<Longrightarrow> items q = items p \<Longrightarrow> discarded q = discarded p \<Longrightarrow> lost q = lost p
   \<Longrightarrow> all_items q = all_items p"
  by (simp add: all_items_def in_use_def)

lemma fast_path_conserves: "fast_path i p = Some q \<Longrightarrow> all_items q = all_items p"
  by (auto simp: fast_path_def split: if_splits list.splits intro!: set_phase_conserves)

lemma slow_path_conserves: "slow_path i p = Some q \<Longrightarrow> all_items q = all_items p"
  by (auto simp: slow_path_def split: if_splits list.splits intro!: set_phase_conserves)

lemma receive_conserves: "receive i p = Some q \<Longrightarrow> all_items q = all_items p"
  by (auto simp: receive_def split: option.splits phase.splits intro!: set_phase_conserves)

lemma cancel_conserves: "cancel i p = Some q \<Longrightarrow> all_items q = all_items p"
  by (auto simp: cancel_def split: option.splits phase.splits intro!: set_phase_conserves)

lemma drop_guard_conserves: "drop_guard i p = Some q \<Longrightarrow> all_items q = all_items p"
  by (auto simp: drop_guard_def split: option.splits phase.splits if_splits intro!: set_phase_conserves)

lemma pop_waiter_conserves: "pop_waiter i p = Some q \<Longrightarrow> all_items q = all_items p"
  by (auto simp: pop_waiter_def split: option.splits phase.splits list.splits intro!: set_phase_conserves)

lemma store_item_conserves: "store_item i p = Some q \<Longrightarrow> all_items q = all_items p"
  by (auto simp: store_item_def split: option.splits phase.splits intro!: set_phase_conserves)

lemma send_item_conserves:
  assumes "send_item i p = Some q"
  shows "all_items q = all_items p"
proof -
  from assms obtain x w where i: "in_phase p i = Some (Giving x w)"
    by (auto simp: send_item_def split: option.splits phase.splits)
  show ?thesis
  proof (cases "in_phase p w = Some Waiting")
    case False
    then have "q = set_phase i (Returning x) p" using assms i by (simp add: send_item_def)
    then show ?thesis using i by (auto intro!: set_phase_conserves)
  next
    case True
    let ?r = "set_phase w (Sent x) p"
    have "i \<noteq> w" using i True by auto
    then have i': "in_phase ?r i = Some (Giving x w)" using i by (simp add: in_phase_set_phase)
    have q: "q = set_phase i Finished ?r" using assms i True by (simp add: send_item_def)
    have "in_use q + {#x#} = in_use ?r" using in_use_set_phase[OF i', of Finished] q by simp
    moreover have "in_use ?r = in_use p + {#x#}" using in_use_set_phase[OF True, of "Sent x"] by simp
    ultimately show ?thesis by (simp add: all_items_def q)
  qed
qed

lemma try_checkout_n_conserves: "all_items (snd (try_checkout_n n p)) = all_items p"
proof -
  have "concat (map (phase_items \<circ> Held) zs) = zs" for zs :: "'a list" by (induction zs) simp_all
  moreover have "mset (take k (items p)) + mset (drop k (items p)) = mset (items p)" for k
    by (metis append_take_drop_id mset_append)
  ultimately show ?thesis
    by (simp add: try_checkout_n_def all_items_def in_use_def Let_def union_ac)
qed

lemmas exec_conserves = fast_path_conserves slow_path_conserves receive_conserves cancel_conserves
  drop_guard_conserves pop_waiter_conserves send_item_conserves store_item_conserves

lemma close_set_conserves: "all_items (close_set p) = all_items p"
  by (simp add: close_set_def all_items_def in_use_def)

lemma request_conserves: "all_items (p\<lparr>phases := phases p @ [Start]\<rparr>) = all_items p"
  by (simp add: all_items_def in_use_def)

lemma pool_exec_conserves: "pool_exec e p = Some q \<Longrightarrow> all_items q = all_items p"
proof (cases e)
  case CloseClear
  then show "pool_exec e p = Some q \<Longrightarrow> all_items q = all_items p"
    using close_clear_items[of p q] by (auto simp: all_items_def close_clear_def split: if_splits)
qed (auto dest: exec_conserves simp: try_checkout_n_conserves close_set_conserves request_conserves)

lemma pool_reach_conserves: "pool_reach xs p \<Longrightarrow> all_items p = mset xs"
proof (induction rule: pool_reach.induct)
  case reach_new
  then show ?case by (simp add: pool_new_def all_items_def in_use_def)
next
  case (reach_step p e q)
  then show ?case by (simp add: pool_exec_conserves)
qed

section \<open>Who waits\<close>

text \<open>
  The queue holds each waiter once, no two senders serve the same waiter, and no waiter is
  forgotten: a request that waits is in the queue or is being served.
\<close>

definition live_waiter :: "'a pool \<Rightarrow> nat \<Rightarrow> bool" where
  "live_waiter p w \<longleftrightarrow> in_phase p w = Some Waiting \<or> in_phase p w = Some Gone"

definition gives_to :: "'a pool \<Rightarrow> nat \<Rightarrow> nat \<Rightarrow> bool" where
  "gives_to p i w \<longleftrightarrow> (\<exists>x. in_phase p i = Some (Giving x w))"

definition wait_inv :: "'a pool \<Rightarrow> bool" where
  "wait_inv p \<longleftrightarrow>
     distinct (waiters p)
     \<and> (\<forall>w \<in> set (waiters p). live_waiter p w)
     \<and> (\<forall>i w. gives_to p i w \<longrightarrow> live_waiter p w \<and> w \<notin> set (waiters p))
     \<and> (\<forall>i j w. gives_to p i w \<longrightarrow> gives_to p j w \<longrightarrow> i = j)
     \<and> (\<forall>i. in_phase p i = Some Waiting \<longrightarrow> i \<in> set (waiters p) \<or> (\<exists>j. gives_to p j i))
     \<and> (cleared p \<longrightarrow> pool_closed p \<and> waiters p = [])"

definition neutral :: "'a phase \<Rightarrow> bool" where
  "neutral ph \<longleftrightarrow> ph \<noteq> Waiting \<and> ph \<noteq> Gone \<and> (\<forall>x w. ph \<noteq> Giving x w)"

lemma neutral_simps [simp]:
  "neutral Start" "neutral Slow" "neutral (Sent x)" "neutral (Held x)" "neutral (Returning x)"
  "neutral (Storing x)" "neutral Refused" "neutral Finished" "\<not> neutral Waiting" "\<not> neutral Gone"
  "\<not> neutral (Giving x w)"
  by (simp_all add: neutral_def)

lemma wait_inv_neutral:
  assumes w: "wait_inv p" and i: "in_phase p i = Some old" "neutral old" and ph: "neutral ph \<or> ph = Gone"
    and eq: "phases p' = phases p" "waiters p' = waiters p" "pool_closed p' = pool_closed p" "cleared p' = cleared p"
  shows "wait_inv (set_phase i ph p')"
proof -
  let ?q = "set_phase i ph p'"
  have il: "i < length (phases p')" using i eq(1) by (auto simp: in_phase_def split: if_splits)
  have ip: "in_phase p' = in_phase p" by (rule in_phase_cong[OF eq(1)])
  have iq: "in_phase ?q j = (if j = i then Some ph else in_phase p j)" for j
    using il by (auto simp: in_phase_set_phase ip)
  have g: "gives_to ?q j v = gives_to p j v" for j v
    using ph i by (auto simp: gives_to_def iq neutral_def)
  have l: "live_waiter p v \<Longrightarrow> live_waiter ?q v" for v
    using i by (auto simp: live_waiter_def iq neutral_def)
  have wt: "in_phase ?q j = Some Waiting \<Longrightarrow> in_phase p j = Some Waiting" for j
    using ph by (auto simp: iq neutral_def split: if_splits)
  show ?thesis using w unfolding wait_inv_def g
    by (simp add: eq) (metis l wt)
qed

lemma fast_path_wait: "wait_inv p \<Longrightarrow> fast_path i p = Some q \<Longrightarrow> wait_inv q"
  by (auto simp: fast_path_def split: if_splits list.splits intro: wait_inv_neutral)

lemma receive_wait: "wait_inv p \<Longrightarrow> receive i p = Some q \<Longrightarrow> wait_inv q"
  by (auto simp: receive_def split: option.splits phase.splits intro: wait_inv_neutral)

lemma drop_guard_wait: "wait_inv p \<Longrightarrow> drop_guard i p = Some q \<Longrightarrow> wait_inv q"
  by (auto simp: drop_guard_def split: option.splits phase.splits if_splits intro: wait_inv_neutral)

lemma store_item_wait: "wait_inv p \<Longrightarrow> store_item i p = Some q \<Longrightarrow> wait_inv q"
  by (auto simp: store_item_def split: option.splits phase.splits intro: wait_inv_neutral)

lemma in_phase_set:
  "in_phase p i = Some old \<Longrightarrow> in_phase (set_phase i ph p) j = (if j = i then Some ph else in_phase p j)"
  by (auto simp: in_phase_set_phase in_phase_Some)

lemma cancel_wait: 
  assumes "wait_inv p" "cancel i p = Some q"
  shows "wait_inv q"
proof (cases "in_phase p i = Some Waiting")
  case False
  then show ?thesis using assms
    by (auto simp: cancel_def split: option.splits phase.splits intro: wait_inv_neutral)
next
  case True
  then have q: "q = set_phase i Gone p" using assms(2) by (simp add: cancel_def)
  have g: "gives_to q j v = gives_to p j v" for j v
    using True by (auto simp: gives_to_def q in_phase_set)
  have l: "live_waiter q v = live_waiter p v" for v
    using True by (auto simp: live_waiter_def q in_phase_set)
  have "in_phase q j = Some Waiting \<Longrightarrow> in_phase p j = Some Waiting" for j
    using True by (auto simp: q in_phase_set split: if_splits)
  then show ?thesis using assms(1) unfolding wait_inv_def g l by (simp add: q)
qed

lemma slow_path_wait:
  assumes w: "wait_inv p" and q: "slow_path i p = Some q"
  shows "wait_inv q"
proof (cases "pool_closed p \<or> items p \<noteq> []")
  case True
  then show ?thesis using assms
    by (auto simp: slow_path_def split: if_splits list.splits intro: wait_inv_neutral)
next
  case False
  have i: "in_phase p i = Some Slow" using q by (simp add: slow_path_def split: if_splits)
  have q: "q = set_phase i Waiting (p\<lparr>waiters := waiters p @ [i]\<rparr>)" using False q i by (simp add: slow_path_def)
  have iq: "in_phase q j = (if j = i then Some Waiting else in_phase p j)" for j
    using i by (auto simp: q in_phase_def set_phase_def)
  have ni: "\<not> live_waiter p i" using i by (simp add: live_waiter_def)
  have g: "gives_to q j v = gives_to p j v" for j v
    using i by (auto simp: gives_to_def iq)
  have l: "live_waiter q v \<longleftrightarrow> live_waiter p v \<or> v = i" for v by (auto simp: live_waiter_def iq)
  have f: "waiters q = waiters p @ [i]" "pool_closed q = pool_closed p" "cleared q = cleared p"
    by (simp_all add: q)
  have nw: "i \<notin> set (waiters p)" "\<not> gives_to p j i" for j using w ni by (auto simp: wait_inv_def)
  show ?thesis using w False nw unfolding wait_inv_def g l iq f by auto
qed

lemma pop_waiter_wait:
  assumes w: "wait_inv p" and q: "pop_waiter i p = Some q"
  shows "wait_inv q"
proof -
  from q obtain x where i: "in_phase p i = Some (Returning x)"
    by (auto simp: pop_waiter_def split: option.splits phase.splits)
  show ?thesis
  proof (cases "waiters p")
    case Nil
    then have "q = set_phase i (Storing x) p" using q i by (simp add: pop_waiter_def)
    then show ?thesis using i by (auto intro: wait_inv_neutral[OF w])
  next
    case (Cons v ws)
    have q: "q = set_phase i (Giving x v) (p\<lparr>waiters := ws\<rparr>)" using q i Cons by (simp add: pop_waiter_def)
    have iq: "in_phase q j = (if j = i then Some (Giving x v) else in_phase p j)" for j
      using i by (auto simp: q in_phase_Some in_phase_def set_phase_def)
    have g: "gives_to q j u \<longleftrightarrow> gives_to p j u \<or> (j = i \<and> u = v)" for j u
      using i by (auto simp: gives_to_def iq)
    have l: "live_waiter q u = live_waiter p u" for u using i by (auto simp: live_waiter_def iq)
    have f: "waiters q = ws" "pool_closed q = pool_closed p" "cleared q = cleared p" by (simp_all add: q)
    have wt: "in_phase q j = Some Waiting \<Longrightarrow> in_phase p j = Some Waiting" for j by (auto simp: iq split: if_splits)
    have c: "\<forall>j. in_phase q j = Some Waiting \<longrightarrow> j \<in> set ws \<or> (\<exists>k. gives_to p k j \<or> (k = i \<and> j = v))"
      using w Cons wt unfolding wait_inv_def by (metis set_ConsD)
    have gi: "\<not> gives_to p i u" for u using i by (simp add: gives_to_def)
    have inv: "distinct (v # ws)" "\<forall>u \<in> set (v # ws). live_waiter p u"
      "\<forall>j u. gives_to p j u \<longrightarrow> live_waiter p u \<and> u \<notin> set (v # ws)"
      "\<forall>j k u. gives_to p j u \<longrightarrow> gives_to p k u \<longrightarrow> j = k" "\<not> cleared p"
      using w Cons unfolding wait_inv_def by auto
    show ?thesis unfolding wait_inv_def g l f using inv c gi by auto
  qed
qed

lemma send_item_wait:
  assumes w: "wait_inv p" and q: "send_item i p = Some q"
  shows "wait_inv q"
proof -
  from q obtain x v where i: "in_phase p i = Some (Giving x v)"
    by (auto simp: send_item_def split: option.splits phase.splits)
  then have gi: "gives_to p i v" by (auto simp: gives_to_def)
  define r where "r = (if in_phase p v = Some Waiting then set_phase v (Sent x) p else p)"
  define ph where "ph = (if in_phase p v = Some Waiting then Finished else Returning x)"
  have vi: "in_phase p v = Some Waiting \<Longrightarrow> v \<noteq> i" using i by auto
  have q: "q = set_phase i ph r" using q i by (auto simp: send_item_def r_def ph_def)
  have ir: "in_phase r i = Some (Giving x v)" using i vi by (auto simp: r_def in_phase_set_phase)
  have iq: "in_phase q j = (if j = i then Some ph else if j = v \<and> in_phase p v = Some Waiting then Some (Sent x) else in_phase p j)" for j
    unfolding q in_phase_set[OF ir] by (auto simp: r_def in_phase_set)
  have ph: "neutral ph" by (simp add: ph_def)
  have g: "gives_to q j u \<longleftrightarrow> gives_to p j u \<and> j \<noteq> i" for j u
    using ph by (auto simp: gives_to_def iq neutral_def)
  have l: "live_waiter q u \<longleftrightarrow> live_waiter p u \<and> \<not> (u = v \<and> in_phase p v = Some Waiting)" for u
    using ph i by (auto simp: live_waiter_def iq neutral_def)
  have f: "waiters q = waiters p" "pool_closed q = pool_closed p" "cleared q = cleared p" by (simp_all add: q r_def)
  have wt: "in_phase q j = Some Waiting \<longleftrightarrow> in_phase p j = Some Waiting \<and> j \<noteq> v" for j
    using ph i by (auto simp: iq neutral_def)
  have inv: "distinct (waiters p)" "\<And>u. u \<in> set (waiters p) \<Longrightarrow> live_waiter p u"
    "\<And>j u. gives_to p j u \<Longrightarrow> live_waiter p u \<and> u \<notin> set (waiters p)"
    "\<And>j k u. gives_to p j u \<Longrightarrow> gives_to p k u \<Longrightarrow> j = k"
    "\<And>j. in_phase p j = Some Waiting \<Longrightarrow> j \<in> set (waiters p) \<or> (\<exists>k. gives_to p k j)"
    "cleared p \<Longrightarrow> pool_closed p \<and> waiters p = []"
    using w unfolding wait_inv_def by blast+
  have nv: "v \<notin> set (waiters p)" using inv(3)[OF gi] by simp
  have a: "\<forall>u\<in>set (waiters p). live_waiter p u \<and> \<not> (u = v \<and> in_phase p v = Some Waiting)"
    using inv(2) nv by blast
  have b: "\<forall>j u. gives_to p j u \<and> j \<noteq> i \<longrightarrow>
      (live_waiter p u \<and> \<not> (u = v \<and> in_phase p v = Some Waiting)) \<and> u \<notin> set (waiters p)"
    using inv(3,4) gi by blast
  have c: "\<forall>j. in_phase p j = Some Waiting \<and> j \<noteq> v \<longrightarrow> j \<in> set (waiters p) \<or> (\<exists>k. gives_to p k j \<and> k \<noteq> i)"
  proof (intro allI impI, elim conjE)
    fix j assume j: "in_phase p j = Some Waiting" "j \<noteq> v"
    have "\<not> gives_to p i j" using i j(2) by (simp add: gives_to_def)
    then show "j \<in> set (waiters p) \<or> (\<exists>k. gives_to p k j \<and> k \<noteq> i)" using inv(5)[OF j(1)] by blast
  qed
  show ?thesis unfolding wait_inv_def g l f wt using inv(1,4,6) a b c by blast
qed

lemma close_clear_phase:
  assumes "close_clear p = Some q"
  shows "in_phase q i = map_option (refuse (waiters p) i) (in_phase p i)"
proof -
  have q: "phases q = map (\<lambda>(i, ph). refuse (waiters p) i ph) (enumerate 0 (phases p))"
    using assms by (auto simp: close_clear_def split: if_splits)
  show ?thesis by (simp add: in_phase_def q nth_enumerate_eq)
qed

lemma close_clear_wait:
  assumes w: "wait_inv p" and q: "close_clear p = Some q"
  shows "wait_inv q"
proof -
  note ph = close_clear_phase[OF q]
  have g: "gives_to q j u = gives_to p j u" for j u
    by (auto simp: gives_to_def ph refuse_def split: if_splits)
  have l: "live_waiter q u \<longleftrightarrow> in_phase p u = Some Gone \<or> (in_phase p u = Some Waiting \<and> u \<notin> set (waiters p))" for u
    by (auto simp: live_waiter_def ph refuse_def split: if_splits)
  have wt: "in_phase q j = Some Waiting \<longleftrightarrow> in_phase p j = Some Waiting \<and> j \<notin> set (waiters p)" for j
    by (auto simp: ph refuse_def split: if_splits)
  have f: "waiters q = []" "pool_closed q = pool_closed p" "pool_closed p" using q by (auto simp: close_clear_def split: if_splits)
  have a: "\<forall>j u. gives_to p j u \<longrightarrow> in_phase p u = Some Gone \<or> (in_phase p u = Some Waiting \<and> u \<notin> set (waiters p))"
    and b: "\<forall>i j u. gives_to p i u \<longrightarrow> gives_to p j u \<longrightarrow> i = j"
    and c: "\<forall>j. in_phase p j = Some Waiting \<longrightarrow> j \<in> set (waiters p) \<or> (\<exists>k. gives_to p k j)"
    using w unfolding wait_inv_def live_waiter_def by blast+
  show ?thesis unfolding wait_inv_def g l wt f(1,2) using a b c f(3) by (simp, blast)
qed

lemma grow_wait:
  assumes w: "wait_inv p" and n: "list_all neutral phs"
    and q: "phases q = phases p @ phs" "waiters q = waiters p" "pool_closed q = pool_closed p" "cleared q = cleared p"
  shows "wait_inv q"
proof -
  have old: "in_phase p i = Some ph \<Longrightarrow> in_phase q i = Some ph" for i ph
    by (auto simp: in_phase_Some q(1) nth_append)
  have new: "in_phase q i = Some ph \<Longrightarrow> in_phase p i = Some ph \<or> neutral ph" for i ph
    using n by (auto simp: in_phase_Some q(1) nth_append list_all_length split: if_splits)
  have g: "gives_to q j u = gives_to p j u" for j u
    by (auto simp: gives_to_def intro: old dest!: new)
  have l: "live_waiter q u = live_waiter p u" for u
    by (auto simp: live_waiter_def intro: old dest!: new)
  have wt: "in_phase q j = Some Waiting \<longleftrightarrow> in_phase p j = Some Waiting" for j
    by (auto intro: old dest!: new)
  show ?thesis using w unfolding wait_inv_def g l wt q .
qed

lemma pool_exec_wait:
  assumes w: "wait_inv p" and q: "pool_exec e p = Some q"
  shows "wait_inv q"
proof (cases e)
  case Request
  then show ?thesis using grow_wait[OF w, of "[Start]" q] q by auto
next
  case CloseSet
  have ip: "in_phase (close_set p) = in_phase p" by (rule in_phase_cong) (simp add: close_set_def)
  have "gives_to (close_set p) = gives_to p" "live_waiter (close_set p) = live_waiter p"
    by (simp_all add: gives_to_def live_waiter_def ip fun_eq_iff)
  then have "wait_inv (close_set p)" using w unfolding wait_inv_def ip by (simp add: close_set_def)
  then show ?thesis using CloseSet q by simp
next
  case (TryCheckout n)
  have "list_all neutral (map Held ys)" for ys :: "'a list" by (induction ys) simp_all
  then show ?thesis using grow_wait[OF w, of "map Held (take (min n (length (items p))) (items p))" q] q TryCheckout w
    by (auto simp: try_checkout_n_def Let_def split: if_splits)
qed (use q w fast_path_wait slow_path_wait receive_wait cancel_wait drop_guard_wait pop_waiter_wait send_item_wait
      store_item_wait close_clear_wait in auto)

lemma pool_reach_wait: "pool_reach xs p \<Longrightarrow> wait_inv p"
proof (induction rule: pool_reach.induct)
  case reach_new
  then show ?case by (simp add: wait_inv_def pool_new_def in_phase_def gives_to_def)
next
  case (reach_step p e q)
  then show ?case using pool_exec_wait by blast
qed

section \<open>One checkin without interference\<close>

text \<open>The whole of \<open>checkin\<close> on one thread: the retry loop over its critical sections.\<close>

function checkin :: "nat \<Rightarrow> 'a pool \<Rightarrow> 'a pool" where
  "checkin i p =
     (case in_phase p i of
        Some (Returning x) \<Rightarrow>
          (case waiters p of
             [] \<Rightarrow> (case Option.bind (pop_waiter i p) (store_item i) of Some q \<Rightarrow> q | None \<Rightarrow> p)
           | w # ws \<Rightarrow>
               (case Option.bind (pop_waiter i p) (send_item i) of
                  Some q \<Rightarrow> if in_phase q i = Some (Returning x) \<and> length (waiters q) < length (waiters p)
                            then checkin i q else q
                | None \<Rightarrow> p))
      | _ \<Rightarrow> p)"
  by pat_completeness auto
termination
  by (relation "measure (\<lambda>(i, p). length (waiters p))") auto

declare checkin.simps [simp del]

definition first_live :: "'a pool \<Rightarrow> nat list" where
  "first_live p = dropWhile (\<lambda>w. in_phase p w \<noteq> Some Waiting) (waiters p)"

lemma set_phase_twice [simp]: "set_phase i a (set_phase i b p) = set_phase i a p"
  by (simp add: set_phase_def)

lemma set_phase_same: "in_phase p i = Some a \<Longrightarrow> set_phase i a p = p"
  by (simp add: set_phase_def in_phase_Some list_update_same_conv)

lemma set_phase_commute: "i \<noteq> j \<Longrightarrow> set_phase i a (set_phase j b p) = set_phase j b (set_phase i a p)"
  by (simp add: set_phase_def list_update_swap)

lemma set_phase_items: "set_phase i a (p\<lparr>items := xs\<rparr>) = (set_phase i a p)\<lparr>items := xs\<rparr>"
  by (simp add: set_phase_def)

lemma set_phase_waiters: "set_phase i a (p\<lparr>waiters := ws\<rparr>) = (set_phase i a p)\<lparr>waiters := ws\<rparr>"
  by (simp add: set_phase_def)

lemma in_phase_waiters [simp]: "in_phase (p\<lparr>waiters := ws\<rparr>) = in_phase p"
  by (rule in_phase_cong) simp

lemma checkin_result:
  assumes "in_phase p i = Some (Returning x)"
  shows "checkin i p =
    (case first_live p of
       [] \<Rightarrow> set_phase i Finished (p\<lparr>items := items p @ [x], waiters := []\<rparr>)
     | w # ws \<Rightarrow> set_phase i Finished (set_phase w (Sent x) (p\<lparr>waiters := ws\<rparr>)))"
  using assms
proof (induction "waiters p" arbitrary: p)
  case Nil
  have pw: "pop_waiter i p = Some (set_phase i (Storing x) p)" using Nil by (simp add: pop_waiter_def)
  have st: "in_phase (set_phase i (Storing x) p) i = Some (Storing x)" using Nil.prems by (simp add: in_phase_set)
  have "p\<lparr>items := ys, waiters := []\<rparr> = p\<lparr>items := ys\<rparr>" for ys using Nil.hyps by simp
  then show ?case using Nil pw st
    by (subst checkin.simps) (simp add: store_item_def first_live_def set_phase_def)
next
  case (Cons w ws)
  have wi: "w \<noteq> i \<or> in_phase p w \<noteq> Some Waiting" using Cons.prems by auto
  let ?g = "set_phase i (Giving x w) (p\<lparr>waiters := ws\<rparr>)"
  have pw: "pop_waiter i p = Some ?g" using Cons.hyps(2)[symmetric] Cons.prems by (simp add: pop_waiter_def)
  have ig: "in_phase (p\<lparr>waiters := ws\<rparr>) i = Some (Returning x)" using Cons.prems by simp
  have pg: "in_phase ?g i = Some (Giving x w)" by (simp add: in_phase_set[OF ig])
  show ?case
  proof (cases "in_phase p w = Some Waiting")
    case True
    then have ne: "w \<noteq> i" using wi by blast
    have "in_phase ?g w = Some Waiting" using ne True by (simp add: in_phase_set[OF ig])
    then have si: "send_item i ?g = Some (set_phase i Finished (set_phase w (Sent x) (p\<lparr>waiters := ws\<rparr>)))"
      using pg ne by (simp add: send_item_def set_phase_commute[of w i])
    have "in_phase (set_phase w (Sent x) (p\<lparr>waiters := ws\<rparr>)) i = Some (Returning x)"
      using ne ig by (simp add: in_phase_set_phase)
    then have "in_phase (set_phase i Finished (set_phase w (Sent x) (p\<lparr>waiters := ws\<rparr>))) i = Some Finished"
      by (simp add: in_phase_set)
    then have "checkin i p = set_phase i Finished (set_phase w (Sent x) (p\<lparr>waiters := ws\<rparr>))"
      using Cons.prems pw si by (subst checkin.simps) (simp add: Cons.hyps(2)[symmetric])
    moreover have "first_live p = w # ws" using True by (simp add: first_live_def Cons.hyps(2)[symmetric])
    ultimately show ?thesis by simp
  next
    case False
    let ?q = "p\<lparr>waiters := ws\<rparr>"
    have "in_phase ?g w \<noteq> Some Waiting" using False by (simp add: in_phase_set[OF ig])
    then have si: "send_item i ?g = Some ?q"
      using pg by (simp add: send_item_def set_phase_same[OF ig])
    then have "checkin i p = checkin i ?q"
      using Cons.prems pw by (subst checkin.simps) (simp add: Cons.hyps(2)[symmetric])
    moreover have "first_live p = first_live ?q"
      using False by (simp add: first_live_def Cons.hyps(2)[symmetric])
    ultimately show ?thesis using Cons.hyps(1)[of ?q] ig by (simp split: list.split)
  qed
qed

section \<open>Properties\<close>

lemma pool_exec_total: "pool_exec e p = Some q \<Longrightarrow> pool_total q = pool_total p"
  by (cases e)
    (auto simp: fast_path_def slow_path_def receive_def cancel_def drop_guard_def pop_waiter_def send_item_def
       store_item_def close_set_def close_clear_def try_checkout_n_def Let_def
       split: if_splits list.splits option.splits phase.splits)

lemma pool_reach_total: "pool_reach xs p \<Longrightarrow> pool_total p = length xs"
  by (induction rule: pool_reach.induct) (simp_all add: pool_new_def pool_exec_total)

text \<open>
  C5: in every reachable state of the pool, under every interleaving, each item is in exactly
  one place: idle, with one request, discarded by a checkin after close, or dropped inside a
  cancelled channel. Never are more items out than the pool was created with.
\<close>
theorem pool_items_conserved:
  assumes "pool_reach xs p"
  shows "mset (items p) + in_use p + mset (discarded p) + mset (lost p) = mset xs
    \<and> available p + size (in_use p) \<le> pool_total p"
proof -
  have a: "mset (items p) + in_use p + mset (discarded p) + mset (lost p) = mset xs"
    using pool_reach_conserves[OF assms] by (simp add: all_items_def)
  have "length (items p) + size (in_use p) + length (discarded p) + length (lost p) = length xs"
    using arg_cong[OF a, of size] by simp
  then have "available p + size (in_use p) \<le> pool_total p"
    using pool_reach_total[OF assms] by (simp add: available_def)
  with a show ?thesis by blast
qed

text \<open>A pool with two items, one of them out.\<close>

lemma pool_items_conserved_witness:
  "\<exists>p. pool_reach [7, 8 :: nat] p \<and> items p = [8] \<and> in_use p = {#7#}"
proof -
  have "pool_run [Request, FastPath 0] (pool_new [7, 8 :: nat])
      = Some ((pool_new [7, 8])\<lparr>items := [8], phases := [Held 7]\<rparr>)"
    by (simp add: pool_new_def fast_path_def in_phase_def set_phase_def)
  then have r: "pool_reach [7, 8] ((pool_new [7, 8 :: nat])\<lparr>items := [8], phases := [Held 7]\<rparr>)"
    by (rule pool_run_reach[OF reach_new])
  from pool_items_conserved [OF r] r show ?thesis by (auto simp: pool_new_def)
qed

text \<open>
  C21: the wait queue is sound. It holds no request twice, only requests that wait or were
  cancelled; no two checkins serve the same waiter; and a request that waits is in the queue
  or about to be sent an item. Once a close call has drained the queue it stays empty.
\<close>
theorem pool_waiters_sound:
  assumes "pool_reach xs p"
  shows "distinct (waiters p) \<and> (\<forall>w \<in> set (waiters p). live_waiter p w)
    \<and> (\<forall>i j w. gives_to p i w \<longrightarrow> gives_to p j w \<longrightarrow> i = j)
    \<and> (\<forall>i. in_phase p i = Some Waiting \<longrightarrow> i \<in> set (waiters p) \<or> (\<exists>j. gives_to p j i))
    \<and> (cleared p \<longrightarrow> pool_waiters p = 0)"
  using pool_reach_wait[OF assms] unfolding wait_inv_def pool_waiters_def by fastforce

lemma pool_waiters_sound_witness:
  "\<exists>p. pool_reach ([] :: nat list) p \<and> pool_waiters p = 1 \<and> distinct (waiters p)"
proof -
  have "pool_run [Request, FastPath 0, SlowPath 0] (pool_new ([] :: nat list))
      = Some ((pool_new [])\<lparr>waiters := [0], phases := [Waiting]\<rparr>)"
    by (simp add: pool_new_def fast_path_def slow_path_def in_phase_def set_phase_def)
  then have r: "pool_reach [] ((pool_new ([] :: nat list))\<lparr>waiters := [0], phases := [Waiting]\<rparr>)"
    by (rule pool_run_reach[OF reach_new])
  from pool_waiters_sound [OF r] r show ?thesis by (auto simp: pool_waiters_def)
qed

text \<open>
  A checkin that is not interfered with returns. It skips the cancelled waiters at the
  front of the queue, hands the item to the first live one, first come first served, and
  puts it back among the idle items only when there is none.
\<close>
theorem checkin_serves_first_live_waiter:
  assumes "in_phase p i = Some (Returning x)"
  shows "checkin i p =
    (case dropWhile (\<lambda>w. in_phase p w \<noteq> Some Waiting) (waiters p) of
       [] \<Rightarrow> set_phase i Finished (p\<lparr>items := items p @ [x], waiters := []\<rparr>)
     | w # ws \<Rightarrow> set_phase i Finished (set_phase w (Sent x) (p\<lparr>waiters := ws\<rparr>)))"
  using checkin_result[OF assms] by (simp add: first_live_def)

lemma checkin_serves_first_live_waiter_witness:
  "phases (checkin 0 ((pool_new [7 :: nat])\<lparr>items := [], waiters := [1, 2], phases := [Returning 7, Gone, Waiting]\<rparr>))
   = [Finished, Gone, Sent 7]"
  using checkin_serves_first_live_waiter
    [of "(pool_new [7 :: nat])\<lparr>items := [], waiters := [1, 2], phases := [Returning 7, Gone, Waiting]\<rparr>" 0 7]
  by (simp add: in_phase_def set_phase_def)

text \<open>
  C22: a lost wakeup. A checkin that finds no waiter releases the waiters lock before it locks
  the items; a checkout that registers in between waits while an item lies idle, and no step
  of any request that is under way resolves it.
\<close>
theorem pool_lost_wakeup:
  "\<exists>p. pool_reach [7 :: nat] p \<and> \<not> pool_closed p \<and> available p = 1 \<and> waiters p = [1]
     \<and> phases p = [Finished, Waiting]
     \<and> (\<forall>i. fast_path i p = None \<and> slow_path i p = None \<and> receive i p = None \<and> drop_guard i p = None
          \<and> pop_waiter i p = None \<and> send_item i p = None \<and> store_item i p = None)"
proof -
  let ?p = "(pool_new [7 :: nat])\<lparr>items := [7], waiters := [1], phases := [Finished, Waiting]\<rparr>"
  have "pool_run [Request, Request, FastPath 0, FastPath 1, DropGuard 0, PopWaiter 0, SlowPath 1, StoreItem 0]
      (pool_new [7]) = Some ?p"
    by (simp add: pool_new_def fast_path_def slow_path_def drop_guard_def pop_waiter_def store_item_def
        in_phase_def set_phase_def)
  then have r: "pool_reach [7] ?p" by (rule pool_run_reach[OF reach_new])
  have ph: "in_phase ?p i = (if i = 0 then Some Finished else if i = 1 then Some Waiting else None)" for i
    by (auto simp: in_phase_def nth_Cons split: nat.split)
  have "\<forall>i. fast_path i ?p = None \<and> slow_path i ?p = None \<and> receive i ?p = None \<and> drop_guard i ?p = None
          \<and> pop_waiter i ?p = None \<and> send_item i ?p = None \<and> store_item i ?p = None"
    unfolding fast_path_def slow_path_def receive_def drop_guard_def pop_waiter_def send_item_def store_item_def ph
    by simp
  moreover have "\<not> pool_closed ?p" "available ?p = 1" "waiters ?p = [1]" "phases ?p = [Finished, Waiting]"
    by (simp_all add: pool_new_def available_def)
  ultimately show ?thesis using r by blast
qed

text \<open>
  A leaked item. The channel carries the bare item, so a checkout that is cancelled after
  the send and before it resumes drops the item with its receiver: every request is over, the
  pool is open, and it has one item less for good.
\<close>
theorem pool_cancel_leaks_item:
  "\<exists>p. pool_reach [7 :: nat] p \<and> \<not> pool_closed p \<and> phases p = [Finished, Gone]
     \<and> waiters p = [] \<and> available p = 0 \<and> pool_total p = 1 \<and> lost p = [7]"
proof -
  let ?p = "(pool_new [7 :: nat])\<lparr>items := [], phases := [Finished, Gone], lost := [7]\<rparr>"
  have "pool_run [Request, Request, FastPath 0, FastPath 1, SlowPath 1, DropGuard 0, PopWaiter 0, SendItem 0, Cancel 1]
      (pool_new [7]) = Some ?p"
    by (simp add: pool_new_def fast_path_def slow_path_def drop_guard_def pop_waiter_def send_item_def cancel_def
        in_phase_def set_phase_def)
  then have "pool_reach [7] ?p" by (rule pool_run_reach[OF reach_new])
  then show ?thesis by (intro exI[of _ ?p]) (simp add: pool_new_def available_def)
qed

end
