(* ===== verification/Opus_Framing.thy ===== *)
theory Opus_Framing
  imports Prelude
begin

text \<open>
  The RFC 6716 packet framing of \<open>inference/audio/opus/framing.rs\<close>. Bytes are 8-bit words. The
  fixed array of 48 frame slices with its count is the list of the first \<open>count\<close> slices.
  \<open>get\<close> with a range and the checked subtraction are modelled as options; a slice that the
  source takes without a test is a \<open>Panic\<close> when it is out of range. The opposite direction
  does not exist in the source: \<open>opus_vbr\<close> and \<open>opus_cbr\<close> write packets as the RFC
  describes them and serve as the reference of the round trip.
\<close>

unbundle bit_operations_syntax

type_synonym byte = "8 word"

definition OPUS_MAX_PACKET_SAMPLES :: nat where "OPUS_MAX_PACKET_SAMPLES = 5760"
definition OPUS_MAX_FRAMES :: nat where "OPUS_MAX_FRAMES = 48"

definition FRAME_DURATION_48K :: "nat list" where
  "FRAME_DURATION_48K =
     [480, 960, 1920, 2880,
      480, 960, 1920, 2880,
      480, 960, 1920, 2880,
      480, 960,
      480, 960,
      120, 240, 480, 960,
      120, 240, 480, 960,
      120, 240, 480, 960,
      120, 240, 480, 960]"

definition opus_samples_per_frame :: "byte \<Rightarrow> nat" where
  "opus_samples_per_frame toc = FRAME_DURATION_48K ! unat (drop_bit 3 toc)"

datatype opus_error =
    TruncatedFrameLength | TruncatedPadding | EmptyPacket | Code1Odd | Code2LengthOverrun
  | Code2FrameOverrun | Code3NoCount | Code3CountRange nat | PaddingOverrun | PaddingOverlap
  | Code3LengthsOverrun | Code3FrameLengthsOverrun | Code3HeaderOverrun | Code3CbrUneven nat nat
  | Code3FrameOverrun | Code3NotFilled | TooManySamples nat

type_synonym 'a opus = "opus_error fault + 'a"

record opus_framing =
  of_toc :: byte
  samples_per_frame :: nat
  of_frames :: "byte list list"

definition packet_samples :: "opus_framing \<Rightarrow> nat" where
  "packet_samples f = samples_per_frame f * length (of_frames f)"

definition get_range :: "'a list \<Rightarrow> nat \<Rightarrow> nat \<Rightarrow> 'a list option" where
  "get_range xs a b = (if a \<le> b \<and> b \<le> length xs then Some (subslice xs a b) else None)"

definition opus_frame_len :: "byte list \<Rightarrow> (nat \<times> nat) opus" where
  "opus_frame_len data =
     (case data of
        [] \<Rightarrow> Inl (Err TruncatedFrameLength)
      | b # bs \<Rightarrow>
          if unat b < 252 then Inr (unat b, 1)
          else (case bs of
                  [] \<Rightarrow> Inl (Err TruncatedFrameLength)
                | c # _ \<Rightarrow> Inr (unat c * 4 + unat b, 2)))"

fun opus_padding_loop :: "byte list \<Rightarrow> nat \<Rightarrow> nat \<Rightarrow> (nat \<times> nat) opus" where
  "opus_padding_loop [] padding used = Inl (Err TruncatedPadding)"
| "opus_padding_loop (b # bs) padding used =
     (if b = 255 then opus_padding_loop bs (padding + 254) (Suc used)
      else Inr (padding + unat b, Suc used))"

definition opus_padding_len :: "byte list \<Rightarrow> (nat \<times> nat) opus" where
  "opus_padding_len data = opus_padding_loop data 0 0"

text \<open>The padding part of a code 3 header: the new \<open>at\<close> and \<open>end\<close>.\<close>

definition strip_padding :: "byte list \<Rightarrow> bool \<Rightarrow> (nat \<times> nat) opus" where
  "strip_padding payload has_padding =
     (if \<not> has_padding then Inr (1, length payload)
      else case get_range payload 1 (length payload) of
             None \<Rightarrow> Inl (Err TruncatedPadding)
           | Some rest \<Rightarrow>
               (case opus_padding_len rest of
                  Inl e \<Rightarrow> Inl e
                | Inr (padding, used) \<Rightarrow>
                    if length payload < padding then Inl (Err PaddingOverrun)
                    else if length payload - padding < 1 + used then Inl (Err PaddingOverlap)
                    else Inr (1 + used, length payload - padding)))"

text \<open>The VBR lengths: all but the last are on the wire.\<close>

fun vbr_sizes :: "byte list \<Rightarrow> nat \<Rightarrow> nat \<Rightarrow> nat \<Rightarrow> nat list \<Rightarrow> (nat list \<times> nat) opus" where
  "vbr_sizes payload 0 ofs fin acc = Inr (acc, ofs)"
| "vbr_sizes payload (Suc n) ofs fin acc =
     (case get_range payload ofs fin of
        None \<Rightarrow> Inl (Err Code3LengthsOverrun)
      | Some d \<Rightarrow>
          (case opus_frame_len d of
             Inl e \<Rightarrow> Inl e
           | Inr (len, used) \<Rightarrow> vbr_sizes payload n (ofs + used) fin (acc @ [len])))"

definition code3_sizes :: "byte list \<Rightarrow> bool \<Rightarrow> nat \<Rightarrow> nat \<Rightarrow> nat \<Rightarrow> (nat list \<times> nat) opus" where
  "code3_sizes payload vbr count ofs fin =
     (if vbr then
        (case vbr_sizes payload (count - 1) ofs fin [] of
           Inl e \<Rightarrow> Inl e
         | Inr (sizes, ofs') \<Rightarrow>
             if fin < ofs' then Inl (Err Code3LengthsOverrun)
             else if fin - ofs' < sum_list sizes then Inl (Err Code3FrameLengthsOverrun)
             else Inr (sizes @ [fin - ofs' - sum_list sizes], ofs'))
      else if fin < ofs then Inl (Err Code3HeaderOverrun)
      else if (fin - ofs) mod count \<noteq> 0 then Inl (Err (Code3CbrUneven (fin - ofs) count))
      else Inr (replicate count ((fin - ofs) div count), ofs))"

fun take_frames :: "byte list \<Rightarrow> nat list \<Rightarrow> nat \<Rightarrow> nat \<Rightarrow> byte list list \<Rightarrow> (byte list list \<times> nat) opus" where
  "take_frames payload [] ofs fin acc = Inr (acc, ofs)"
| "take_frames payload (s # ss) ofs fin acc =
     (if fin < ofs + s then Inl (Err Code3FrameOverrun)
      else case get_range payload ofs (ofs + s) of
             None \<Rightarrow> Inl Panic
           | Some fr \<Rightarrow> take_frames payload ss (ofs + s) fin (acc @ [fr]))"

definition code3_frames :: "byte list \<Rightarrow> byte list list opus" where
  "code3_frames payload =
     (case payload of
        [] \<Rightarrow> Inl (Err Code3NoCount)
      | cb # _ \<Rightarrow>
          let count = unat (cb AND 0x3F) in
          if count < 1 \<or> OPUS_MAX_FRAMES < count then Inl (Err (Code3CountRange count))
          else
            (case strip_padding payload (cb AND 0x40 \<noteq> 0) of
               Inl e \<Rightarrow> Inl e
             | Inr (ofs, fin) \<Rightarrow>
                 (case code3_sizes payload (cb AND 0x80 \<noteq> 0) count ofs fin of
                    Inl e \<Rightarrow> Inl e
                  | Inr (sizes, ofs') \<Rightarrow>
                      (case take_frames payload sizes ofs' fin [] of
                         Inl e \<Rightarrow> Inl e
                       | Inr (frames, ofs'') \<Rightarrow>
                           if ofs'' \<noteq> fin then Inl (Err Code3NotFilled) else Inr frames))))"

definition code2_frames :: "byte list \<Rightarrow> byte list list opus" where
  "code2_frames payload =
     (case opus_frame_len payload of
        Inl e \<Rightarrow> Inl e
      | Inr (first_len, used) \<Rightarrow>
          (case get_range payload used (length payload) of
             None \<Rightarrow> Inl (Err Code2LengthOverrun)
           | Some rest \<Rightarrow>
               if length rest < first_len then Inl (Err Code2FrameOverrun)
               else Inr [take first_len rest, drop first_len rest]))"

definition split_frames :: "byte \<Rightarrow> byte list \<Rightarrow> byte list list opus" where
  "split_frames toc payload =
     (let code = unat (toc AND 3) in
      if code = 0 then Inr [payload]
      else if code = 1 then
        (if length payload mod 2 \<noteq> 0 then Inl (Err Code1Odd)
         else Inr [take (length payload div 2) payload, drop (length payload div 2) payload])
      else if code = 2 then code2_frames payload
      else code3_frames payload)"

definition split_opus_packet :: "byte list \<Rightarrow> opus_framing opus" where
  "split_opus_packet packet =
     (case packet of
        [] \<Rightarrow> Inl (Err EmptyPacket)
      | toc # payload \<Rightarrow>
          (case split_frames toc payload of
             Inl e \<Rightarrow> Inl e
           | Inr frames \<Rightarrow>
               let f = \<lparr>of_toc = toc, samples_per_frame = opus_samples_per_frame toc, of_frames = frames\<rparr> in
               if OPUS_MAX_PACKET_SAMPLES < packet_samples f then Inl (Err (TooManySamples (packet_samples f)))
               else Inr f))"

section \<open>Parsing stays inside the packet\<close>

lemma get_range_append:
  "get_range (xs @ ys @ zs) (length xs) (length xs + length ys) = Some ys"
  by (simp add: get_range_def subslice_def)

lemma get_range_full: "a \<le> length xs \<Longrightarrow> get_range xs a (length xs) = Some (drop a xs)"
  by (simp add: get_range_def subslice_to_end)

lemma opus_frame_len_used:
  "opus_frame_len d = Inr (len, used) \<Longrightarrow> 1 \<le> used \<and> used \<le> 2 \<and> used \<le> length d"
  by (auto simp: opus_frame_len_def split: list.splits if_splits)

lemma opus_frame_len_no_panic: "opus_frame_len d \<noteq> Inl Panic"
  by (auto simp: opus_frame_len_def split: list.splits if_splits)

lemma opus_padding_loop_used:
  "opus_padding_loop d p u = Inr (q, v) \<Longrightarrow> u < v \<and> v \<le> u + length d \<and> p \<le> q"
  by (induction d p u rule: opus_padding_loop.induct) (auto split: if_splits)

lemma opus_padding_loop_no_panic: "opus_padding_loop d p u \<noteq> Inl Panic"
  by (induction d p u rule: opus_padding_loop.induct) auto

lemma strip_padding_range:
  "strip_padding d h = Inr (ofs, fin) \<Longrightarrow> d \<noteq> [] \<Longrightarrow> 1 \<le> ofs \<and> ofs \<le> fin \<and> fin \<le> length d"
  by (cases d) (auto simp: strip_padding_def split: if_splits option.splits sum.splits prod.splits)

lemma strip_padding_no_panic: "strip_padding d h \<noteq> Inl Panic"
  using opus_padding_loop_no_panic
  by (auto simp: strip_padding_def opus_padding_len_def split: option.splits sum.splits prod.splits if_splits)

lemma vbr_sizes_result:
  "vbr_sizes d n ofs fin acc = Inr (sizes, ofs') \<Longrightarrow> length sizes = length acc + n \<and> ofs \<le> ofs'"
proof (induction d n ofs fin acc rule: vbr_sizes.induct)
  case (2 d n ofs fin acc)
  from "2.prems" obtain r len used where
    r: "get_range d ofs fin = Some r" "opus_frame_len r = Inr (len, used)"
       "vbr_sizes d n (ofs + used) fin (acc @ [len]) = Inr (sizes, ofs')"
    by (auto split: option.splits sum.splits)
  from "2.IH"[OF r(1,2) refl r(3)] show ?case by simp
qed simp

lemma vbr_sizes_no_panic: "vbr_sizes d n ofs fin acc \<noteq> Inl Panic"
  using opus_frame_len_no_panic
  by (induction d n ofs fin acc rule: vbr_sizes.induct) (auto split: option.splits sum.splits)

lemma code3_sizes_result:
  assumes "code3_sizes d vbr n ofs fin = Inr (sizes, ofs')" and "1 \<le> n"
  shows "length sizes = n \<and> ofs \<le> ofs' \<and> ofs' + sum_list sizes = fin"
proof (cases vbr)
  case True
  then obtain zs where z: "vbr_sizes d (n - 1) ofs fin [] = Inr (zs, ofs')" "ofs' \<le> fin" "sum_list zs \<le> fin - ofs'"
    "sizes = zs @ [fin - ofs' - sum_list zs]"
    using assms by (auto simp: code3_sizes_def split: sum.splits prod.splits if_splits)
  from vbr_sizes_result[OF z(1)] z assms(2) show ?thesis by simp
next
  case False
  then have "sizes = replicate n ((fin - ofs) div n)" "ofs' = ofs" "ofs \<le> fin" "(fin - ofs) mod n = 0"
    using assms by (auto simp: code3_sizes_def split: if_splits)
  moreover from this(4) have "n * ((fin - ofs) div n) = fin - ofs" by auto
  ultimately show ?thesis by (simp add: sum_list_replicate)
qed

lemma code3_sizes_no_panic: "code3_sizes d vbr n ofs fin \<noteq> Inl Panic"
  using vbr_sizes_no_panic by (auto simp: code3_sizes_def split: sum.splits prod.splits)

lemma take_frames_ok:
  assumes "ofs + sum_list sizes = fin" and "fin \<le> length d"
  shows "\<exists>frames. take_frames d sizes ofs fin acc = Inr (acc @ frames, fin)
     \<and> map length frames = sizes \<and> concat frames = subslice d ofs fin"
  using assms
proof (induction sizes arbitrary: ofs acc)
  case Nil
  then show ?case by simp
next
  case (Cons s ss)
  have g: "get_range d ofs (ofs + s) = Some (subslice d ofs (ofs + s))"
    using Cons.prems by (simp add: get_range_def)
  from Cons.IH[of "ofs + s" "acc @ [subslice d ofs (ofs + s)]"] Cons.prems obtain frames where
    f: "take_frames d ss (ofs + s) fin (acc @ [subslice d ofs (ofs + s)]) = Inr (acc @ subslice d ofs (ofs + s) # frames, fin)"
      "map length frames = ss" "concat frames = subslice d (ofs + s) fin" by auto
  have "subslice d ofs (ofs + s) @ subslice d (ofs + s) fin = subslice d ofs fin"
    by (rule subslice_append_split) (use Cons.prems in simp_all)
  then show ?case using g f Cons.prems
    by (intro exI[of _ "subslice d ofs (ofs + s) # frames"]) simp
qed

lemma code3_frames_cases:
  assumes "code3_frames d = Inr frames"
  shows "\<exists>ofs fin. 1 \<le> ofs \<and> ofs \<le> fin \<and> fin \<le> length d \<and> concat frames = subslice d ofs fin
    \<and> 1 \<le> length frames \<and> length frames \<le> OPUS_MAX_FRAMES"
proof -
  from assms obtain cb ds ofs fin sizes ofs' ofs'' where d: "d = cb # ds"
    and n: "1 \<le> unat (cb AND 0x3F)" "unat (cb AND 0x3F) \<le> OPUS_MAX_FRAMES"
    and s: "strip_padding d (cb AND 0x40 \<noteq> 0) = Inr (ofs, fin)"
    and z: "code3_sizes d (cb AND 0x80 \<noteq> 0) (unat (cb AND 0x3F)) ofs fin = Inr (sizes, ofs')"
    and t: "take_frames d sizes ofs' fin [] = Inr (frames, ofs'')"
    by (auto simp: code3_frames_def Let_def split: list.splits if_splits sum.splits prod.splits)
  have r: "1 \<le> ofs" "ofs \<le> fin" "fin \<le> length d" using strip_padding_range[OF s] d by auto
  have sz: "length sizes = unat (cb AND 0x3F)" "ofs \<le> ofs'" "ofs' + sum_list sizes = fin"
    using code3_sizes_result[OF z n(1)] by auto
  from take_frames_ok[OF sz(3) r(3), of "[]"] t have f: "map length frames = sizes" "concat frames = subslice d ofs' fin"
    by auto
  have "length frames = unat (cb AND 0x3F)" using f(1) sz(1) by (metis length_map)
  then show ?thesis using n r sz f(2) by (intro exI[of _ ofs'] exI[of _ fin]) simp
qed

lemma code3_frames_no_panic: "code3_frames d \<noteq> Inl Panic"
proof
  assume a: "code3_frames d = Inl Panic"
  then obtain cb ds where d: "d = cb # ds" by (cases d) (auto simp: code3_frames_def)
  from a d strip_padding_no_panic[of d] code3_sizes_no_panic[of d] obtain ofs fin sizes ofs' where
    n: "1 \<le> unat (cb AND 0x3F)"
    and s: "strip_padding d (cb AND 0x40 \<noteq> 0) = Inr (ofs, fin)"
    and z: "code3_sizes d (cb AND 0x80 \<noteq> 0) (unat (cb AND 0x3F)) ofs fin = Inr (sizes, ofs')"
    and t: "take_frames d sizes ofs' fin [] = Inl Panic"
    by (auto simp: code3_frames_def Let_def split: if_splits sum.splits prod.splits)
  have "fin \<le> length d" using strip_padding_range[OF s] d by auto
  moreover have "ofs' + sum_list sizes = fin" using code3_sizes_result[OF z n] by simp
  ultimately show False using take_frames_ok[of ofs' sizes fin d "[]"] t by auto
qed


lemma code2_frames_cases:
  assumes "code2_frames d = Inr frames"
  shows "\<exists>ofs. ofs \<le> length d \<and> concat frames = subslice d ofs (length d) \<and> length frames = 2"
proof -
  from assms obtain l u r where "opus_frame_len d = Inr (l, u)" and g: "get_range d u (length d) = Some r"
    and f: "frames = [take l r, drop l r]"
    by (auto simp: code2_frames_def split: sum.splits prod.splits option.splits if_splits)
  then have "u \<le> length d" using opus_frame_len_used by blast
  then show ?thesis using g f by (auto simp: get_range_def)
qed

lemma split_frames_cases:
  assumes "split_frames toc d = Inr frames"
  shows "\<exists>ofs fin. ofs \<le> fin \<and> fin \<le> length d \<and> concat frames = subslice d ofs fin
    \<and> 1 \<le> length frames \<and> length frames \<le> OPUS_MAX_FRAMES"
proof -
  consider (c0) "frames = [d]"
    | (c1) "frames = [take (length d div 2) d, drop (length d div 2) d]"
    | (c2) "code2_frames d = Inr frames" | (c3) "code3_frames d = Inr frames"
  proof -
    consider "unat (toc AND 3) = 0" | "unat (toc AND 3) = 1" | "unat (toc AND 3) = 2"
      | "unat (toc AND 3) \<noteq> 0" "unat (toc AND 3) \<noteq> 1" "unat (toc AND 3) \<noteq> 2" by blast
    then show thesis
    proof cases
      case 1 then show thesis using assms c0 by (simp only: split_frames_def Let_def) simp
    next
      case 2 then show thesis using assms c1
        by (simp only: split_frames_def Let_def) (simp split: if_splits)
    next
      case 3 then show thesis using assms c2 by (simp only: split_frames_def Let_def) simp
    next
      case 4 then show thesis using assms c3 by (simp only: split_frames_def Let_def if_False)
    qed
  qed
  then show ?thesis
  proof cases
    case c0
    then show ?thesis by (intro exI[of _ 0] exI[of _ "length d"]) (simp add: OPUS_MAX_FRAMES_def)
  next
    case c1
    then show ?thesis by (intro exI[of _ 0] exI[of _ "length d"]) (simp add: OPUS_MAX_FRAMES_def)
  next
    case c2
    from code2_frames_cases[OF this] obtain ofs where
      "ofs \<le> length d" "concat frames = subslice d ofs (length d)" "length frames = 2" by blast
    then show ?thesis by (intro exI[of _ ofs] exI[of _ "length d"]) (simp add: OPUS_MAX_FRAMES_def)
  next
    case c3
    from code3_frames_cases[OF this] show ?thesis by blast
  qed
qed

lemma code2_frames_no_panic: "code2_frames d \<noteq> Inl Panic"
  using opus_frame_len_no_panic[of d]
  by (auto simp: code2_frames_def split: sum.splits prod.splits option.splits)

lemma split_frames_no_panic: "split_frames toc d \<noteq> Inl Panic"
  by (simp add: split_frames_def Let_def code2_frames_no_panic code3_frames_no_panic)

lemma split_opus_packet_no_panic: "split_opus_packet p \<noteq> Inl Panic"
proof (cases p)
  case (Cons toc payload)
  then show ?thesis using split_frames_no_panic[of toc payload]
    by (cases "split_frames toc payload") (simp_all add: split_opus_packet_def Let_def)
qed (simp add: split_opus_packet_def)

section \<open>Reference encoders\<close>

definition enc_frame_len :: "nat \<Rightarrow> byte list" where
  "enc_frame_len n =
     (if n < 252 then [of_nat n]
      else [of_nat (252 + n mod 4), of_nat ((n - (252 + n mod 4)) div 4)])"

definition enc_padding_len :: "nat \<Rightarrow> byte list" where
  "enc_padding_len n = replicate (n div 254) 255 @ [of_nat (n mod 254)]"

definition count_byte :: "bool \<Rightarrow> bool \<Rightarrow> nat \<Rightarrow> byte" where
  "count_byte vbr padded n = (if vbr then 0x80 else 0) OR (if padded then 0x40 else 0) OR of_nat n"

definition enc_padding :: "nat option \<Rightarrow> byte list" where
  "enc_padding padding = (case padding of None \<Rightarrow> [] | Some n \<Rightarrow> enc_padding_len n)"

definition opus_vbr :: "byte \<Rightarrow> nat option \<Rightarrow> byte list list \<Rightarrow> byte list" where
  "opus_vbr toc padding frames =
     toc # count_byte True (padding \<noteq> None) (length frames) # enc_padding padding
     @ concat (map (enc_frame_len \<circ> length) (butlast frames))
     @ concat frames @ replicate (case_option 0 id padding) 0"

definition opus_cbr :: "byte \<Rightarrow> nat option \<Rightarrow> byte list list \<Rightarrow> byte list" where
  "opus_cbr toc padding frames =
     toc # count_byte False (padding \<noteq> None) (length frames) # enc_padding padding
     @ concat frames @ replicate (case_option 0 id padding) 0"

lemma opus_frame_len_enc:
  assumes "n \<le> 1275"
  shows "opus_frame_len (enc_frame_len n @ rest) = Inr (n, length (enc_frame_len n))"
proof (cases "n < 252")
  case True
  then show ?thesis by (simp add: opus_frame_len_def enc_frame_len_def unat_of_nat)
next
  case False
  define r where "r = n mod 4"
  have r: "r < 4" by (simp add: r_def)
  have r2: "(252 + r) mod 4 = n mod 4" unfolding r_def by presburger
  have le: "252 + r \<le> n" using False r_def by presburger
  have q: "(n - (252 + r)) div 4 \<le> 255" using assms by simp
  have "4 dvd n - (252 + r)" using r2 le by (metis mod_eq_dvd_iff_nat)
  then have "(n - (252 + r)) div 4 * 4 = n - (252 + r)" by simp
  moreover have "unat (of_nat (252 + r) :: byte) = 252 + r" using r by (subst unat_of_nat) simp
  moreover have "unat (of_nat ((n - (252 + r)) div 4) :: byte) = (n - (252 + r)) div 4"
    using q by (subst unat_of_nat) simp
  ultimately show ?thesis using False le
    by (simp del: of_nat_add add: opus_frame_len_def enc_frame_len_def unat_of_nat flip: r_def)
qed

lemma opus_padding_loop_run:
  "opus_padding_loop (replicate k 255 @ rest) p u = opus_padding_loop rest (p + 254 * k) (u + k)"
  by (induction k arbitrary: p u) (simp_all add: algebra_simps)

lemma opus_padding_len_enc:
  "opus_padding_len (enc_padding_len n @ rest) = Inr (n, length (enc_padding_len n))"
proof -
  have b: "n mod 254 < 254" by simp
  have "unat (of_nat (n mod 254) :: byte) = n mod 254" using b by (simp add: unat_of_nat)
  moreover from this have "(of_nat (n mod 254) :: byte) \<noteq> 255"
  proof -
    have "unat (255 :: byte) = 255" by simp
    with b \<open>unat (of_nat (n mod 254) :: byte) = n mod 254\<close> show ?thesis by (intro notI) simp
  qed
  ultimately show ?thesis
    by (simp add: opus_padding_len_def enc_padding_len_def opus_padding_loop_run)
qed

lemma count_byte_fields_all:
  "\<forall>n \<in> set [0..<49]. \<forall>v p. unat (count_byte v p n AND 0x3F) = n
     \<and> (count_byte v p n AND 0x40 \<noteq> 0) = p \<and> (count_byte v p n AND 0x80 \<noteq> 0) = v"
  by code_simp

lemma count_byte_fields:
  assumes "n \<le> 48"
  shows "unat (count_byte v p n AND 0x3F) = n"
    and "(count_byte v p n AND 0x40 \<noteq> 0) = p"
    and "(count_byte v p n AND 0x80 \<noteq> 0) = v"
proof -
  have "n \<in> set [0..<49]" using assms by simp
  then show "unat (count_byte v p n AND 0x3F) = n"
    and "(count_byte v p n AND 0x40 \<noteq> 0) = p"
    and "(count_byte v p n AND 0x80 \<noteq> 0) = v" using count_byte_fields_all by blast+
qed

lemma strip_padding_enc:
  fixes padding :: "nat option" and body :: "byte list" and cb :: byte
  defines "payload \<equiv> cb # enc_padding padding @ body @ replicate (case_option 0 id padding) 0"
  shows "strip_padding payload (padding \<noteq> None) =
     Inr (1 + length (enc_padding padding), 1 + length (enc_padding padding) + length body)"
proof (cases padding)
  case None
  then show ?thesis by (simp add: payload_def strip_padding_def enc_padding_def)
next
  case (Some n)
  then have "get_range payload 1 (length payload) = Some (enc_padding_len n @ body @ replicate n 0)"
    by (simp add: payload_def get_range_def subslice_def enc_padding_def)
  then show ?thesis using Some
    by (simp add: strip_padding_def opus_padding_len_enc) (simp add: payload_def enc_padding_def)
qed

lemma vbr_sizes_enc:
  assumes "\<forall>n \<in> set ns. n \<le> 1275"
  shows "vbr_sizes (pre @ concat (map enc_frame_len ns) @ post @ pad) (length ns) (length pre)
      (length pre + length (concat (map enc_frame_len ns)) + length post) acc
    = Inr (acc @ ns, length pre + length (concat (map enc_frame_len ns)))"
  using assms
proof (induction ns arbitrary: pre acc)
  case Nil
  then show ?case by simp
next
  case (Cons n ns)
  let ?rest = "concat (map enc_frame_len ns)"
  have g: "get_range (pre @ (enc_frame_len n @ ?rest @ post) @ pad) (length pre)
      (length pre + length (enc_frame_len n @ ?rest @ post)) = Some (enc_frame_len n @ ?rest @ post)"
    by (rule get_range_append)
  have l: "opus_frame_len (enc_frame_len n @ ?rest @ post) = Inr (n, length (enc_frame_len n))"
    using Cons.prems by (intro opus_frame_len_enc) simp
  from Cons.IH[of "pre @ enc_frame_len n" "acc @ [n]"] Cons.prems show ?case
    using g l by (simp add: add.assoc)
qed

lemma take_frames_concat:
  "take_frames (pre @ concat frames @ pad) (map length frames) (length pre)
      (length pre + length (concat frames)) acc
    = Inr (acc @ frames, length pre + length (concat frames))"
proof (induction frames arbitrary: pre acc)
  case Nil
  then show ?case by simp
next
  case (Cons f fs)
  have "get_range (pre @ f @ (concat fs @ pad)) (length pre) (length pre + length f) = Some f"
    by (rule get_range_append)
  with Cons.IH[of "pre @ f" "acc @ [f]"] show ?case by (simp add: add.assoc)
qed

lemma split_code3:
  assumes "toc AND 3 = 3" "code3_frames payload = Inr frames"
    and "opus_samples_per_frame toc * length frames \<le> OPUS_MAX_PACKET_SAMPLES"
  shows "split_opus_packet (toc # payload)
    = Inr \<lparr>of_toc = toc, samples_per_frame = opus_samples_per_frame toc, of_frames = frames\<rparr>"
  using assms by (simp add: split_opus_packet_def split_frames_def Let_def packet_samples_def)

lemma code3_frames_vbr:
  assumes ne: "frames \<noteq> []" "length frames \<le> 48" and len: "\<forall>f \<in> set (butlast frames). length f \<le> 1275"
  shows "code3_frames (tl (opus_vbr toc padding frames)) = Inr frames"
proof -
  let ?cb = "count_byte True (padding \<noteq> None) (length frames)"
  let ?ns = "map length (butlast frames)"
  let ?pad = "replicate (case_option 0 id padding) (0 :: byte)"
  let ?lens = "concat (map enc_frame_len ?ns)"
  define pre where "pre = ?cb # enc_padding padding"
  define payload where "payload = tl (opus_vbr toc padding frames)"
  have p: "payload = pre @ ?lens @ concat frames @ ?pad"
    by (simp add: payload_def opus_vbr_def pre_def comp_def)
  define fin where "fin = length pre + length ?lens + length (concat frames)"
  have st: "strip_padding payload (padding \<noteq> None) = Inr (length pre, fin)"
    using strip_padding_enc[of ?cb padding "?lens @ concat frames"] by (simp add: p pre_def fin_def)
  have vs: "vbr_sizes payload (length frames - 1) (length pre) fin [] = Inr (?ns, length pre + length ?lens)"
    using vbr_sizes_enc[of ?ns pre "concat frames" ?pad "[]"] len by (simp add: p fin_def)
  have tot: "length (concat frames) = sum_list ?ns + length (last frames)"
    using ne(1) by (subst append_butlast_last_id[symmetric, of frames])
      (simp_all add: length_concat del: append_butlast_last_id)
  have mp: "?ns @ [length (last frames)] = map length frames"
    using ne(1) by (subst (3) append_butlast_last_id[symmetric, of frames])
      (simp_all del: append_butlast_last_id)
  have cs: "code3_sizes payload True (length frames) (length pre) fin
      = Inr (map length frames, length pre + length ?lens)"
    using vs tot mp by (simp add: code3_sizes_def fin_def)
  have tf: "take_frames payload (map length frames) (length pre + length ?lens) fin [] = Inr (frames, fin)"
    using take_frames_concat[of "pre @ ?lens" frames ?pad "[]"] by (simp add: p fin_def)
  have hd: "payload = ?cb # (enc_padding padding @ ?lens @ concat frames @ ?pad)"
    by (simp add: p pre_def)
  have "1 \<le> length frames" using ne(1) by (cases frames) auto
  then have "code3_frames payload = Inr frames"
    unfolding code3_frames_def
    using hd st cs tf ne count_byte_fields[OF ne(2), of True "padding \<noteq> None"]
    by (simp add: Let_def OPUS_MAX_FRAMES_def)
  then show ?thesis by (simp add: payload_def)
qed

lemma code3_frames_cbr:
  assumes ne: "frames \<noteq> []" "length frames \<le> 48" and len: "\<forall>f \<in> set frames. length f = k"
  shows "code3_frames (tl (opus_cbr toc padding frames)) = Inr frames"
proof -
  let ?cb = "count_byte False (padding \<noteq> None) (length frames)"
  let ?pad = "replicate (case_option 0 id padding) (0 :: byte)"
  define pre where "pre = ?cb # enc_padding padding"
  define payload where "payload = tl (opus_cbr toc padding frames)"
  have p: "payload = pre @ concat frames @ ?pad" by (simp add: payload_def opus_cbr_def pre_def)
  define fin where "fin = length pre + length (concat frames)"
  have st: "strip_padding payload (padding \<noteq> None) = Inr (length pre, fin)"
    using strip_padding_enc[of ?cb padding "concat frames"] by (simp add: p pre_def fin_def)
  have mp: "map length frames = replicate (length frames) k"
    using len by (intro nth_equalityI) simp_all
  have tot: "length (concat frames) = length frames * k"
    by (simp add: length_concat mp sum_list_replicate)
  have pos: "0 < length frames" using ne(1) by simp
  have cs: "code3_sizes payload False (length frames) (length pre) fin = Inr (map length frames, length pre)"
    using pos by (simp add: code3_sizes_def fin_def tot mp)
  have tf: "take_frames payload (map length frames) (length pre) fin [] = Inr (frames, fin)"
    using take_frames_concat[of pre frames ?pad "[]"] by (simp add: p fin_def)
  have hd: "payload = ?cb # (enc_padding padding @ concat frames @ ?pad)"
    by (simp add: p pre_def)
  have "code3_frames payload = Inr frames"
    unfolding code3_frames_def
    using hd st cs tf ne count_byte_fields[OF ne(2), of False "padding \<noteq> None"]
    by (simp add: Let_def OPUS_MAX_FRAMES_def)
  then show ?thesis by (simp add: payload_def)
qed

section \<open>Properties\<close>

text \<open>
  C23: a packet that \<open>split_opus_packet\<close> accepts gives between 1 and 48 frames, at most 5760
  samples in all, and its frames are, one after the other, one contiguous part of the bytes
  after the TOC byte; no packet whatsoever makes the parser slice out of range.
\<close>

theorem opus_split_sound:
  "split_opus_packet packet \<noteq> Inl Panic \<and>
   (\<forall>f. split_opus_packet packet = Inr f \<longrightarrow>
      1 \<le> length (of_frames f) \<and> length (of_frames f) \<le> OPUS_MAX_FRAMES
      \<and> packet_samples f \<le> OPUS_MAX_PACKET_SAMPLES
      \<and> (\<exists>s e. s \<le> e \<and> e < length packet \<and> concat (of_frames f) = subslice (tl packet) s e))"
proof (intro conjI allI impI)
  show "split_opus_packet packet \<noteq> Inl Panic" by (rule split_opus_packet_no_panic)
next
  fix f assume a: "split_opus_packet packet = Inr f"
  then obtain toc payload frames where p: "packet = toc # payload"
    and s: "split_frames toc payload = Inr frames" and f: "of_frames f = frames"
    and m: "packet_samples f \<le> OPUS_MAX_PACKET_SAMPLES"
    by (cases packet) (auto simp: split_opus_packet_def Let_def split: sum.splits if_splits)
  from split_frames_cases[OF s] obtain x y where x: "x \<le> y" "y \<le> length payload"
    "concat frames = subslice payload x y" "1 \<le> length frames" "length frames \<le> OPUS_MAX_FRAMES" by blast
  show "1 \<le> length (of_frames f)" "length (of_frames f) \<le> OPUS_MAX_FRAMES" using x f by auto
  show "packet_samples f \<le> OPUS_MAX_PACKET_SAMPLES" by (rule m)
  show "\<exists>s e. s \<le> e \<and> e < length packet \<and> concat (of_frames f) = subslice (tl packet) s e"
    using x p f by (intro exI[of _ x] exI[of _ y]) simp
qed

lemma opus_split_sound_witness:
  "(\<exists>s e. s \<le> e \<and> e < length [0xFB, 3, 2, 3, 4, 5, 6, 7 :: byte] \<and> [2, 3, 4, 5, 6, 7] = subslice [3, 2, 3, 4, 5, 6, 7 :: byte] s e)"
proof -
  have r: "split_opus_packet [0xFB, 3, 2, 3, 4, 5, 6, 7] =
    Inr \<lparr>of_toc = 0xFB, samples_per_frame = 960, of_frames = [[2, 3], [4, 5], [6, 7]]\<rparr>"
    by code_simp
  from opus_split_sound[of "[0xFB, 3, 2, 3, 4, 5, 6, 7]"] r show ?thesis by simp
qed

text \<open>
  Reading back what the RFC's code 3 form writes: for 1 to 48 frames of at most 5760 samples,
  with or without padding of any length, the parser returns exactly the frames, for the
  VBR form with every explicit frame length that the wire can carry (0 to 1275 bytes) and for
  the CBR form with frames of one length.
\<close>

theorem opus_code3_roundtrip:
  assumes "toc AND 3 = 3" and "frames \<noteq> []" and "length frames \<le> OPUS_MAX_FRAMES"
    and "opus_samples_per_frame toc * length frames \<le> OPUS_MAX_PACKET_SAMPLES"
  shows "((\<forall>f \<in> set (butlast frames). length f \<le> 1275) \<longrightarrow>
      split_opus_packet (opus_vbr toc padding frames)
        = Inr \<lparr>of_toc = toc, samples_per_frame = opus_samples_per_frame toc, of_frames = frames\<rparr>)
    \<and> ((\<forall>f \<in> set frames. length f = k) \<longrightarrow>
      split_opus_packet (opus_cbr toc padding frames)
        = Inr \<lparr>of_toc = toc, samples_per_frame = opus_samples_per_frame toc, of_frames = frames\<rparr>)"
proof (intro conjI)
  have n48: "length frames \<le> 48" using assms(3) by (simp add: OPUS_MAX_FRAMES_def)
  show "(\<forall>f \<in> set (butlast frames). length f \<le> 1275) \<longrightarrow>
      split_opus_packet (opus_vbr toc padding frames)
        = Inr \<lparr>of_toc = toc, samples_per_frame = opus_samples_per_frame toc, of_frames = frames\<rparr>"
    using split_code3[OF assms(1) code3_frames_vbr[OF assms(2) n48, of toc padding] assms(4)]
    by (simp add: opus_vbr_def)
  show "(\<forall>f \<in> set frames. length f = k) \<longrightarrow>
      split_opus_packet (opus_cbr toc padding frames)
        = Inr \<lparr>of_toc = toc, samples_per_frame = opus_samples_per_frame toc, of_frames = frames\<rparr>"
    using split_code3[OF assms(1) code3_frames_cbr[OF assms(2) n48, of k toc padding] assms(4)]
    by (simp add: opus_cbr_def)
qed

lemma opus_code3_roundtrip_witness:
  "split_opus_packet (opus_vbr 0xFB (Some 300) [replicate 300 7, [1, 2], []])
     = Inr \<lparr>of_toc = 0xFB, samples_per_frame = 960, of_frames = [replicate 300 7, [1, 2], []]\<rparr>"
proof -
  have s: "opus_samples_per_frame 0xFB = 960" by code_simp
  have "(0xFB :: byte) AND 3 = 3" by simp
  from opus_code3_roundtrip[OF this, of "[replicate 300 7, [1, 2], []]" "Some 300"] s
  show ?thesis by (simp add: OPUS_MAX_FRAMES_def OPUS_MAX_PACKET_SAMPLES_def)
qed

end
