(* ===== verification/Transcript.thy ===== *)
theory Transcript
  imports Prelude "HOL-Library.Product_Lexorder" "HOL-Library.Option_ord" "HOL-Library.Multiset"
begin

text \<open>
  The transcript data of \<open>inference/state.rs\<close> and \<open>inference/types.rs\<close>: text, words with
  their times, results and segments, the aggregate confidence and the merge of per-channel
  results. A Rust string is the list of its Unicode scalar values, and \<open>byte_len\<close> is the length
  of its UTF-8 form. Times and confidences are finite floats in the source and rationals here,
  so sums and quotients are exact and \<open>total_cmp\<close> is the linear order.
\<close>

section \<open>Text\<close>

type_synonym ustring = "nat list"

definition lit :: "string \<Rightarrow> ustring" where
  "lit s = map of_char s"

definition utf8_len :: "nat \<Rightarrow> nat" where
  "utf8_len c = (if c < 0x80 then 1 else if c < 0x800 then 2 else if c < 0x10000 then 3 else 4)"

definition byte_len :: "ustring \<Rightarrow> nat" where
  "byte_len s = sum_list (map utf8_len s)"

text \<open>The characters with the Unicode property \<open>White_Space\<close>, which Rust's \<open>trim\<close> removes.\<close>

definition is_whitespace :: "nat \<Rightarrow> bool" where
  "is_whitespace c \<longleftrightarrow> (9 \<le> c \<and> c \<le> 13) \<or> c = 0x20 \<or> c = 0x85 \<or> c = 0xA0 \<or> c = 0x1680
     \<or> (0x2000 \<le> c \<and> c \<le> 0x200A) \<or> c = 0x2028 \<or> c = 0x2029 \<or> c = 0x202F \<or> c = 0x205F \<or> c = 0x3000"

definition trim_end :: "ustring \<Rightarrow> ustring" where
  "trim_end s = rev (dropWhile is_whitespace (rev s))"

definition trim_start :: "ustring \<Rightarrow> ustring" where
  "trim_start s = dropWhile is_whitespace s"

definition trim :: "ustring \<Rightarrow> ustring" where
  "trim s = trim_start (trim_end s)"

definition space :: nat where "space = 32"

text \<open>\<open>join(" ")\<close>\<close>

fun join :: "ustring list \<Rightarrow> ustring" where
  "join [] = []"
| "join [w] = w"
| "join (w # v # ws) = w @ space # join (v # ws)"

lemma join_Cons: "ws \<noteq> [] \<Longrightarrow> join (w # ws) = w @ space # join ws"
  by (cases ws) simp_all

lemma join_append: "xs \<noteq> [] \<Longrightarrow> ys \<noteq> [] \<Longrightarrow> join (xs @ ys) = join xs @ space # join ys"
proof (induction xs)
  case (Cons x xs)
  then show ?case by (cases xs) (simp_all add: join_Cons)
qed simp

lemma join_snoc: "ws \<noteq> [] \<Longrightarrow> join (ws @ [w]) = join ws @ space # w"
  by (simp add: join_append)

lemma join_eq_Nil: "(\<forall>w \<in> set ws. w \<noteq> []) \<Longrightarrow> join ws = [] \<longleftrightarrow> ws = []"
  by (induction ws rule: join.induct) auto

lemma byte_len_append [simp]: "byte_len (a @ b) = byte_len a + byte_len b"
  by (simp add: byte_len_def)

lemma utf8_len_pos: "1 \<le> utf8_len c" "utf8_len c \<le> 4"
  by (simp_all add: utf8_len_def)

lemma length_le_byte_len: "length s \<le> byte_len s"
proof (induction s)
  case (Cons c s)
  then show ?case using utf8_len_pos(1)[of c] by (simp add: byte_len_def)
qed (simp add: byte_len_def)

lemma trim_end_snoc: "trim_end (s @ [c]) = (if is_whitespace c then trim_end s else s @ [c])"
  by (simp add: trim_end_def)

section \<open>Words, results and segments\<close>

record word_info =
  word :: ustring
  w_start :: rat
  w_end :: rat
  confidence :: rat
  speaker :: "nat option"

record transcribe_result =
  r_text :: ustring
  r_words :: "word_info list"
  duration_s :: rat
  r_confidence :: "rat option"

datatype endpoint_reason = Vad | Blank | Stop

record transcript_segment =
  s_text :: ustring
  s_committed :: ustring
  tentative :: ustring
  s_words :: "word_info list"
  is_final :: bool
  speech_final :: bool
  reason :: "endpoint_reason option"
  truncated :: bool
  timestamp :: rat
  s_confidence :: "rat option"

definition word_new :: "ustring \<Rightarrow> rat \<Rightarrow> rat \<Rightarrow> rat \<Rightarrow> nat option \<Rightarrow> word_info" where
  "word_new w s e c sp = \<lparr>word = w, w_start = s, w_end = e, confidence = c, speaker = sp\<rparr>"

definition word_weight :: "word_info \<Rightarrow> rat" where
  "word_weight w = max (w_end w - w_start w) 0"

definition aggregate_confidence :: "word_info list \<Rightarrow> rat option" where
  "aggregate_confidence ws =
     (if ws = [] then None
      else
        let weighted_sum = sum_list (map (\<lambda>w. confidence w * word_weight w) ws);
            total_weight = sum_list (map word_weight ws)
        in Some (if 0 < total_weight then weighted_sum / total_weight
                 else sum_list (map confidence ws) / of_nat (length ws)))"

definition label_channel :: "nat \<Rightarrow> word_info list \<Rightarrow> word_info list" where
  "label_channel i ws = map (\<lambda>w. w\<lparr>speaker := Some i\<rparr>) ws"

definition by_start :: "word_info \<Rightarrow> rat \<times> nat option" where
  "by_start w = (w_start w, speaker w)"

definition channel_words :: "transcribe_result list \<Rightarrow> word_info list" where
  "channel_words rs = concat (map (\<lambda>(i, r). label_channel i (r_words r)) (enumerate 0 rs))"

definition merge_channel_results :: "transcribe_result list \<Rightarrow> transcribe_result" where
  "merge_channel_results rs =
     (let ws = sort_key by_start (channel_words rs) in
      \<lparr>r_text = join (map word ws), r_words = ws, duration_s = fold (\<lambda>r d. max d (duration_s r)) rs 0,
       r_confidence = aggregate_confidence ws\<rparr>)"

definition empty_final :: "rat \<Rightarrow> transcript_segment" where
  "empty_final now = \<lparr>s_text = [], s_committed = [], tentative = [], s_words = [], is_final = True,
     speech_final = True, reason = Some Stop, truncated = False, timestamp = now, s_confidence = None\<rparr>"

definition empty_truncated_final :: "rat \<Rightarrow> transcript_segment" where
  "empty_truncated_final now = (empty_final now)\<lparr>truncated := True\<rparr>"

definition into_truncated_final :: "transcript_segment \<Rightarrow> transcript_segment" where
  "into_truncated_final s =
     (let s = (if s_text s = [] \<and> s_committed s \<noteq> [] then s\<lparr>s_text := s_committed s\<rparr> else s);
          s = (if s_text s \<noteq> [] then s\<lparr>s_committed := s_text s, tentative := []\<rparr> else s);
          s = s\<lparr>is_final := True, speech_final := True, truncated := True\<rparr>
      in if reason s = None then s\<lparr>reason := Some Stop\<rparr> else s)"

section \<open>Confidence is an average\<close>

lemma word_weight_nonneg [simp]: "0 \<le> word_weight w"
  by (simp add: word_weight_def)

lemma sum_list_between:
  fixes f g :: "'a \<Rightarrow> rat"
  assumes "\<forall>x \<in> set xs. lo \<le> f x \<and> f x \<le> hi" "\<forall>x \<in> set xs. 0 \<le> g x"
  shows "lo * sum_list (map g xs) \<le> sum_list (map (\<lambda>x. f x * g x) xs)"
    and "sum_list (map (\<lambda>x. f x * g x) xs) \<le> hi * sum_list (map g xs)"
  using assms by (induction xs) (auto simp: distrib_left intro!: add_mono mult_right_mono)

lemma aggregate_confidence_between:
  assumes "aggregate_confidence ws = Some c" "\<forall>w \<in> set ws. lo \<le> confidence w \<and> confidence w \<le> hi"
  shows "lo \<le> c \<and> c \<le> hi"
proof (cases "0 < sum_list (map word_weight ws)")
  case True
  then have "c = sum_list (map (\<lambda>w. confidence w * word_weight w) ws) / sum_list (map word_weight ws)"
    using assms(1) by (auto simp: aggregate_confidence_def Let_def split: if_splits)
  then show ?thesis
    using sum_list_between[of ws lo confidence hi word_weight] assms(2) True
    by (simp add: pos_le_divide_eq pos_divide_le_eq)
next
  case False
  have ne: "ws \<noteq> []" using assms(1) by (auto simp: aggregate_confidence_def)
  from False have c: "c = sum_list (map confidence ws) / of_nat (length ws)"
    using assms(1) ne by (simp add: aggregate_confidence_def Let_def)
  have s: "sum_list (map (\<lambda>_. 1) ws) = (of_nat (length ws) :: rat)" by (induction ws) simp_all
  have "0 < (of_nat (length ws) :: rat)" using ne by simp
  then show ?thesis
    using sum_list_between[of ws lo confidence hi "\<lambda>_. 1"] assms(2)
    by (simp add: c s pos_le_divide_eq pos_divide_le_eq)
qed

section \<open>Merging channels\<close>

lemma channel_words_enum:
  "filter (\<lambda>w. speaker w = Some c) (concat (map (\<lambda>(i, r). label_channel i (r_words r)) (enumerate n rs)))
   = (if c < n \<or> n + length rs \<le> c then [] else label_channel c (r_words (rs ! (c - n))))"
proof (induction rs arbitrary: n)
  case (Cons r rs)
  have a: "filter (\<lambda>w. speaker w = Some c) (label_channel n (r_words r)) = (if n = c then label_channel c (r_words r) else [])"
    by (simp add: label_channel_def filter_map comp_def)
  show ?case
  proof (cases "n = c")
    case True
    then show ?thesis using Cons.IH[of "Suc n"] a by simp
  next
    case False
    then have "Suc n \<le> c \<Longrightarrow> c - n = Suc (c - Suc n)" by simp
    then show ?thesis using Cons.IH[of "Suc n"] a False by (cases "Suc n \<le> c") auto
  qed
next
  case Nil
  show ?case by (cases "c < n") simp_all
qed

lemma sort_key_sorted: "sorted (map f xs) \<Longrightarrow> sort_key f xs = xs"
proof (induction xs)
  case (Cons x xs)
  then show ?case by (cases xs) (auto simp: insort_is_Cons)
qed simp

lemma sorted_label:
  assumes "sorted (map w_start ws)"
  shows "sorted (map by_start (label_channel c ws))"
proof -
  have "sorted_wrt (\<lambda>x y. w_start x \<le> w_start y) ws" using assms by (simp add: sorted_map)
  then have "sorted_wrt (\<lambda>x y. w_start x < w_start y \<or> w_start x \<le> w_start y) ws"
    by (rule sorted_wrt_mono_rel[rotated]) simp
  then show ?thesis by (simp add: label_channel_def comp_def by_start_def sorted_wrt_map sorted_map)
qed

text \<open>
  Merging the channels of a call keeps every word with its channel as the speaker, in
  order of the start time and of the channel where times are equal; the words of a channel
  that came in order stay in that order; and the confidence of the result lies between the
  confidences of its words.
\<close>
theorem merge_channels_chronological:
  shows "sorted (map by_start (r_words (merge_channel_results rs)))
    \<and> mset (r_words (merge_channel_results rs)) = mset (channel_words rs)
    \<and> (\<forall>c < length rs. sorted (map w_start (r_words (rs ! c))) \<longrightarrow>
         filter (\<lambda>w. speaker w = Some c) (r_words (merge_channel_results rs)) = label_channel c (r_words (rs ! c)))
    \<and> (\<forall>lo hi c. (\<forall>r \<in> set rs. \<forall>w \<in> set (r_words r). lo \<le> confidence w \<and> confidence w \<le> hi)
         \<longrightarrow> r_confidence (merge_channel_results rs) = Some c \<longrightarrow> lo \<le> c \<and> c \<le> hi)"
proof (intro conjI allI impI)
  show "sorted (map by_start (r_words (merge_channel_results rs)))"
    by (simp add: merge_channel_results_def Let_def)
  show "mset (r_words (merge_channel_results rs)) = mset (channel_words rs)"
    by (simp add: merge_channel_results_def Let_def)
next
  fix c assume c: "c < length rs" "sorted (map w_start (r_words (rs ! c)))"
  have "filter (\<lambda>w. speaker w = Some c) (channel_words rs) = label_channel c (r_words (rs ! c))"
    using channel_words_enum[of c 0 rs] c(1) by (simp add: channel_words_def)
  then show "filter (\<lambda>w. speaker w = Some c) (r_words (merge_channel_results rs)) = label_channel c (r_words (rs ! c))"
    using sort_key_sorted[OF sorted_label[OF c(2), of c]]
    by (simp add: merge_channel_results_def Let_def filter_sort)
next
  fix lo hi c
  assume a: "\<forall>r \<in> set rs. \<forall>w \<in> set (r_words r). lo \<le> confidence w \<and> confidence w \<le> hi"
    and m: "r_confidence (merge_channel_results rs) = Some c"
  have "\<forall>w \<in> set (channel_words rs). lo \<le> confidence w \<and> confidence w \<le> hi"
    using a by (force simp: channel_words_def label_channel_def in_set_enumerate_eq)
  then have "lo \<le> c \<and> c \<le> hi"
    using m by (intro aggregate_confidence_between[of "sort_key by_start (channel_words rs)"])
      (simp_all add: merge_channel_results_def Let_def)
  then show "lo \<le> c" "c \<le> hi" by simp_all
qed

definition demo_words :: "word_info list" where
  "demo_words = [word_new (lit ''a'') 0 (1/2) (9/10) None, word_new (lit ''b'') 1 (3/2) (1/2) None]"

definition demo_result :: transcribe_result where
  "demo_result = \<lparr>r_text = lit ''a b'', r_words = demo_words, duration_s = 2, r_confidence = None\<rparr>"

lemma merge_channels_chronological_witness:
  "filter (\<lambda>w. speaker w = Some 1) (r_words (merge_channel_results [demo_result, demo_result]))
     = label_channel 1 demo_words"
proof -
  let ?rs = "[demo_result, demo_result]"
  have "sorted (map w_start (r_words (?rs ! 1)))" by (simp add: demo_result_def demo_words_def word_new_def)
  moreover have "1 < length ?rs" by simp
  ultimately have "filter (\<lambda>w. speaker w = Some 1) (r_words (merge_channel_results ?rs)) = label_channel 1 (r_words (?rs ! 1))"
    using merge_channels_chronological[of ?rs] by blast
  then show ?thesis by (simp add: demo_result_def)
qed

end
