(* ===== verification/Assembler.thy ===== *)
theory Assembler
  imports Transcript
begin

text \<open>
  The transcript assembler of \<open>inference/state.rs\<close>: a committed prefix that never changes within
  an utterance and a live tail that every decode may replace. The text fields are kept beside
  the word lists and updated piece by piece; the abstract state is the pair of word lists.
\<close>

section \<open>Operations\<close>

record assembler =
  committed_text :: ustring
  committed_words :: "word_info list"
  live_text :: ustring
  live_words :: "word_info list"

definition assembler_new :: assembler where
  "assembler_new = \<lparr>committed_text = [], committed_words = [], live_text = [], live_words = []\<rparr>"

fun push_words :: "ustring \<Rightarrow> word_info list \<Rightarrow> ustring" where
  "push_words t [] = t"
| "push_words t (w # ws) = push_words ((if t \<noteq> [] then t @ [space] else t) @ word w) ws"

definition append :: "word_info list \<Rightarrow> assembler \<Rightarrow> assembler" where
  "append ws a = a\<lparr>live_text := push_words (live_text a) ws, live_words := live_words a @ ws\<rparr>"

definition set_words :: "word_info list \<Rightarrow> assembler \<Rightarrow> assembler" where
  "set_words ws a = a\<lparr>live_text := join (map word ws), live_words := ws\<rparr>"

definition commit_live :: "assembler \<Rightarrow> assembler" where
  "commit_live a =
     (if live_words a = [] then a
      else a\<lparr>committed_text :=
               (if committed_text a \<noteq> [] \<and> live_text a \<noteq> [] then committed_text a @ [space] else committed_text a)
               @ live_text a,
             committed_words := committed_words a @ live_words a, live_text := [], live_words := []\<rparr>)"

definition committed_coverage_end :: "assembler \<Rightarrow> rat option" where
  "committed_coverage_end a = (if committed_words a = [] then None else Some (w_end (last (committed_words a))))"

definition committed_last :: "assembler \<Rightarrow> word_info option" where
  "committed_last a = (if committed_words a = [] then None else Some (last (committed_words a)))"

definition commit_prefix :: "nat \<Rightarrow> assembler \<Rightarrow> nat \<times> assembler" where
  "commit_prefix n0 a =
     (let n = min n0 (length (live_words a)) in
      if n = 0 then (0, a)
      else
        let rest = drop n (live_words a); ws = take n (live_words a) in
        (n, \<lparr>committed_text = push_words (committed_text a) ws, committed_words = committed_words a @ ws,
             live_text = join (map word rest), live_words = rest\<rparr>))"

definition full_text :: "assembler \<Rightarrow> ustring" where
  "full_text a =
     (if committed_text a = [] then live_text a
      else if live_text a = [] then committed_text a
      else committed_text a @ space # live_text a)"

definition full_words :: "assembler \<Rightarrow> word_info list" where
  "full_words a = committed_words a @ live_words a"

definition finalize_with_reason :: "rat \<Rightarrow> endpoint_reason \<Rightarrow> assembler \<Rightarrow> transcript_segment \<times> assembler" where
  "finalize_with_reason ts rs a0 =
     (let a = commit_live a0 in
      (\<lparr>s_text = committed_text a, s_committed = committed_text a, tentative = [], s_words = committed_words a,
        is_final = True, speech_final = True, reason = Some rs, truncated = False, timestamp = ts,
        s_confidence = aggregate_confidence (committed_words a)\<rparr>,
       a\<lparr>committed_text := [], committed_words := [], live_text := [], live_words := []\<rparr>))"

definition asm_finalize :: "rat \<Rightarrow> assembler \<Rightarrow> transcript_segment \<times> assembler" where
  "asm_finalize ts a = finalize_with_reason ts Stop a"

text \<open>The slice \<open>text[committed.len()..]\<close> is in range: \<open>full_text\<close> starts with the committed text.\<close>

definition partial :: "rat \<Rightarrow> assembler \<Rightarrow> transcript_segment" where
  "partial ts a =
     \<lparr>s_text = full_text a, s_committed = committed_text a,
      tentative = drop (length (committed_text a)) (full_text a), s_words = full_words a,
      is_final = False, speech_final = False, reason = None, truncated = False, timestamp = ts,
      s_confidence = aggregate_confidence (full_words a)\<rparr>"

definition asm_is_empty :: "assembler \<Rightarrow> bool" where
  "asm_is_empty a \<longleftrightarrow> committed_text a = [] \<and> live_text a = []"

definition live_word_count :: "assembler \<Rightarrow> nat" where
  "live_word_count a = length (live_words a)"

section \<open>Runs and their abstraction\<close>

datatype asm_op = Append "word_info list" | SetWords "word_info list" | CommitLive | CommitPrefix nat

fun asm_exec :: "asm_op \<Rightarrow> assembler \<Rightarrow> assembler" where
  "asm_exec (Append ws) a = append ws a"
| "asm_exec (SetWords ws) a = set_words ws a"
| "asm_exec CommitLive a = commit_live a"
| "asm_exec (CommitPrefix n) a = snd (commit_prefix n a)"

fun spec_exec :: "asm_op \<Rightarrow> word_info list \<times> word_info list \<Rightarrow> word_info list \<times> word_info list" where
  "spec_exec (Append ws) (c, l) = (c, l @ ws)"
| "spec_exec (SetWords ws) (c, l) = (c, ws)"
| "spec_exec CommitLive (c, l) = (c @ l, [])"
| "spec_exec (CommitPrefix n) (c, l) = (c @ take n l, drop n l)"

fun op_words :: "asm_op \<Rightarrow> word_info list" where
  "op_words (Append ws) = ws"
| "op_words (SetWords ws) = ws"
| "op_words _ = []"

definition nonempty_words :: "word_info list \<Rightarrow> bool" where
  "nonempty_words ws \<longleftrightarrow> (\<forall>w \<in> set ws. word w \<noteq> [])"

definition abs_asm :: "assembler \<Rightarrow> word_info list \<times> word_info list" where
  "abs_asm a = (committed_words a, live_words a)"

definition asm_ok :: "assembler \<Rightarrow> bool" where
  "asm_ok a \<longleftrightarrow> committed_text a = join (map word (committed_words a))
     \<and> live_text a = join (map word (live_words a))
     \<and> nonempty_words (committed_words a) \<and> nonempty_words (live_words a)"

lemma nonempty_words_simps [simp]:
  "nonempty_words []" "nonempty_words (xs @ ys) \<longleftrightarrow> nonempty_words xs \<and> nonempty_words ys"
  "nonempty_words (w # ws) \<longleftrightarrow> word w \<noteq> [] \<and> nonempty_words ws"
  by (auto simp: nonempty_words_def)

lemma nonempty_take_drop: "nonempty_words ws \<Longrightarrow> nonempty_words (take n ws) \<and> nonempty_words (drop n ws)"
  by (auto simp: nonempty_words_def dest: in_set_takeD in_set_dropD)

lemma join_words_Nil: "nonempty_words ws \<Longrightarrow> join (map word ws) = [] \<longleftrightarrow> ws = []"
  using join_eq_Nil[of "map word ws"] by (simp add: nonempty_words_def)

lemma push_words_join:
  "nonempty_words vs \<Longrightarrow> nonempty_words ws \<Longrightarrow>
     push_words (join (map word vs)) ws = join (map word (vs @ ws))"
proof (induction ws arbitrary: vs)
  case (Cons w ws)
  have "(if join (map word vs) \<noteq> [] then join (map word vs) @ [space] else join (map word vs)) @ word w
      = join (map word (vs @ [w]))"
    using Cons.prems by (cases "vs = []") (simp_all add: join_words_Nil join_snoc)
  with Cons.IH[of "vs @ [w]"] Cons.prems show ?case by simp
qed simp

lemma full_text_join: "asm_ok a \<Longrightarrow> full_text a = join (map word (full_words a))"
  by (cases "committed_words a = []"; cases "live_words a = []")
    (auto simp: asm_ok_def full_text_def full_words_def join_words_Nil join_append)

lemma asm_new_ok: "asm_ok assembler_new"
  by (simp add: asm_ok_def assembler_new_def)

lemma append_ok: "asm_ok a \<Longrightarrow> nonempty_words ws \<Longrightarrow> asm_ok (append ws a)"
  by (simp add: asm_ok_def append_def push_words_join)

lemma set_words_ok: "asm_ok a \<Longrightarrow> nonempty_words ws \<Longrightarrow> asm_ok (set_words ws a)"
  by (simp add: asm_ok_def set_words_def)

lemma commit_live_ok: "asm_ok a \<Longrightarrow> asm_ok (commit_live a)"
  by (cases "committed_words a = []")
    (auto simp: asm_ok_def commit_live_def join_words_Nil join_append)

lemma commit_prefix_ok: "asm_ok a \<Longrightarrow> asm_ok (snd (commit_prefix n a))"
  using nonempty_take_drop[of "live_words a"]
  by (simp add: asm_ok_def commit_prefix_def Let_def push_words_join)

lemma asm_exec_ok: "asm_ok a \<Longrightarrow> nonempty_words (op_words opn) \<Longrightarrow> asm_ok (asm_exec opn a)"
  by (cases opn) (simp_all add: append_ok set_words_ok commit_live_ok commit_prefix_ok)

lemma asm_exec_abs: "abs_asm (asm_exec opn a) = spec_exec opn (abs_asm a)"
  by (cases opn)
    (auto simp: abs_asm_def append_def set_words_def commit_live_def commit_prefix_def Let_def min_def)

lemma asm_run:
  assumes "asm_ok a" "\<forall>opn \<in> set ops. nonempty_words (op_words opn)"
  shows "asm_ok (fold asm_exec ops a)" "abs_asm (fold asm_exec ops a) = fold spec_exec ops (abs_asm a)"
  using assms by (induction ops arbitrary: a) (simp_all add: asm_exec_ok asm_exec_abs)

lemma push_words_extends: "\<exists>rest. push_words t ws = t @ rest"
proof (induction ws arbitrary: t)
  case (Cons w ws)
  from Cons.IH obtain rest where
    "push_words ((if t \<noteq> [] then t @ [space] else t) @ word w) ws
      = ((if t \<noteq> [] then t @ [space] else t) @ word w) @ rest" by blast
  then show ?case by (cases "t = []") simp_all
qed simp

lemma asm_exec_committed: "\<exists>rest. committed_text (asm_exec opn a) = committed_text a @ rest"
  by (cases opn)
    (auto simp: append_def set_words_def commit_live_def commit_prefix_def Let_def push_words_extends)

lemma asm_run_committed: "\<exists>rest. committed_text (fold asm_exec ops a) = committed_text a @ rest"
proof (induction ops arbitrary: a)
  case (Cons opn ops)
  from Cons.IH[of "asm_exec opn a"] asm_exec_committed[of opn a] show ?case by auto
qed simp

lemma commit_live_full_text: "asm_ok a \<Longrightarrow> committed_text (commit_live a) = full_text a"
  by (auto simp: commit_live_def full_text_def asm_ok_def)

section \<open>Properties\<close>

text \<open>
  C24: the assembler refines a pair of word lists. After any sequence of operations on non-empty
  words, a partial shows the committed words and the live ones in order, its text is those
  words joined by spaces, \<open>committed\<close> is the text of the committed words, and
  \<open>committed + tentative\<close> is exactly \<open>text\<close>; a final carries all of the text as committed
  and leaves an empty assembler.
\<close>
theorem assembler_refines:
  assumes "\<forall>opn \<in> set ops. nonempty_words (op_words opn)"
    and "fold spec_exec ops ([], []) = (c, l)" and "a = fold asm_exec ops assembler_new"
  shows "s_words (partial ts a) = c @ l \<and> s_text (partial ts a) = join (map word (c @ l))
    \<and> s_committed (partial ts a) = join (map word c)
    \<and> s_committed (partial ts a) @ tentative (partial ts a) = s_text (partial ts a)
    \<and> s_text (fst (finalize_with_reason ts rs a)) = join (map word (c @ l))
    \<and> s_committed (fst (finalize_with_reason ts rs a)) = join (map word (c @ l))
    \<and> s_words (fst (finalize_with_reason ts rs a)) = c @ l
    \<and> snd (finalize_with_reason ts rs a) = assembler_new"
proof -
  have ok: "asm_ok a" using asm_run(1)[OF asm_new_ok assms(1)] assms(3) by simp
  have "abs_asm a = (c, l)"
    using asm_run(2)[OF asm_new_ok assms(1)] assms(2,3) by (simp add: abs_asm_def assembler_new_def)
  then have cl: "committed_words a = c" "live_words a = l" by (simp_all add: abs_asm_def)
  have ft: "full_text a = join (map word (c @ l))" using full_text_join[OF ok] cl by (simp add: full_words_def)
  have pre: "committed_text a @ drop (length (committed_text a)) (full_text a) = full_text a"
    by (simp add: full_text_def)
  have fw: "committed_words (commit_live a) = c @ l" using cl by (simp add: commit_live_def)
  show ?thesis
    using ft pre cl fw ok commit_live_full_text[OF ok]
    by (simp add: partial_def finalize_with_reason_def full_words_def Let_def asm_ok_def assembler_new_def)
qed

lemma assembler_refines_witness:
  "s_text (partial 0 (fold asm_exec [Append demo_words, CommitPrefix 1] assembler_new)) = lit ''a b''
   \<and> s_committed (partial 0 (fold asm_exec [Append demo_words, CommitPrefix 1] assembler_new)) = lit ''a''"
proof -
  have "\<forall>opn \<in> set [Append demo_words, CommitPrefix 1]. nonempty_words (op_words opn)"
    by (simp add: demo_words_def word_new_def lit_def)
  from assembler_refines[OF this, of "[demo_words ! 0]" "[demo_words ! 1]"] show ?thesis
    by (simp add: demo_words_def word_new_def lit_def space_def)
qed

text \<open>
  What is committed is never rewritten within an utterance: after any further operations
  the committed text of a partial, and the text of the final that ends the utterance, extend
  the committed text shown before. This needs no hypothesis on the words.
\<close>
theorem committed_text_is_stable:
  shows "(\<exists>rest. s_committed (partial ts (fold asm_exec ops a)) = s_committed (partial ts a) @ rest)
    \<and> (\<exists>rest. s_text (fst (finalize_with_reason ts rs (fold asm_exec ops a))) = s_committed (partial ts a) @ rest)"
proof
  obtain rest where r: "committed_text (fold asm_exec ops a) = committed_text a @ rest"
    using asm_run_committed by blast
  then show "\<exists>rest. s_committed (partial ts (fold asm_exec ops a)) = s_committed (partial ts a) @ rest"
    by (simp add: partial_def)
  show "\<exists>rest. s_text (fst (finalize_with_reason ts rs (fold asm_exec ops a))) = s_committed (partial ts a) @ rest"
    using r asm_exec_committed[of CommitLive "fold asm_exec ops a"]
    by (auto simp: finalize_with_reason_def partial_def Let_def)
qed

end
