(* ===== verification/Snapshot.thy ===== *)
theory Snapshot
  imports Assembler
begin

text \<open>
  The provisional transcript of \<open>inference/state/snapshot.rs\<close>. A channel's words are a persistent
  list of chunks, newest first, each chunk showing a prefix of its words; a publication drops
  the words after the retained prefix and adds a chunk. The abstract state is one plain word
  list per channel. Sharing through \<open>Arc\<close> is value semantics because chunks are immutable;
  the iterative \<open>Drop\<close> of a chunk only frees memory and has no counterpart. The lock of the
  snapshot makes each operation one step.
\<close>

section \<open>Chunk lists\<close>

datatype word_chunk =
  WordChunk (previous: "word_chunk option") (chunk_words: "word_info list") (used: nat) (chunk_total: nat)

fun retain_chunk :: "word_chunk \<Rightarrow> nat \<Rightarrow> word_chunk option" where
  "retain_chunk (WordChunk prev ws u t) retained =
     (if t \<le> retained then Some (WordChunk prev ws u t)
      else
        let before = t - u in
        if retained \<le> before
        then (case prev of None \<Rightarrow> None | Some c \<Rightarrow> retain_chunk c retained)
        else
          let u' = retained - before in
          Some (WordChunk prev (if u' < div_ceil (length ws) 2 then take u' ws else ws) u' retained))"

definition retain_prefix :: "word_chunk option \<Rightarrow> nat \<Rightarrow> word_chunk option" where
  "retain_prefix head retained =
     (if retained = 0 then None else case head of None \<Rightarrow> None | Some c \<Rightarrow> retain_chunk c retained)"

fun collect_chunk :: "word_chunk \<Rightarrow> word_info list" where
  "collect_chunk (WordChunk prev ws u t) =
     (case prev of None \<Rightarrow> [] | Some c \<Rightarrow> collect_chunk c) @ take u ws"

definition collect_words :: "word_chunk option \<Rightarrow> word_info list" where
  "collect_words head = (case head of None \<Rightarrow> [] | Some c \<Rightarrow> collect_chunk c)"

section \<open>Snapshot and publisher\<close>

datatype snapshot_data =
    Segment transcript_segment
  | File "word_chunk option list" bool rat

type_synonym snapshot = "snapshot_data option"

definition snapshot_clear :: "snapshot \<Rightarrow> snapshot" where
  "snapshot_clear s = None"

definition snapshot_get :: "snapshot \<Rightarrow> transcript_segment option" where
  "snapshot_get s =
     (case s of
        None \<Rightarrow> None
      | Some (Segment seg) \<Rightarrow> Some seg
      | Some (File channels sp ts) \<Rightarrow>
          let ws0 = concat (map collect_words channels);
              ws = (if sp then sort_key by_start ws0 else ws0);
              txt = push_words [] ws
          in Some \<lparr>s_text = txt, s_committed = [], tentative = txt, s_words = ws, is_final = False,
                   speech_final = False, reason = None, truncated = False, timestamp = ts,
                   s_confidence = aggregate_confidence ws\<rparr>)"

definition snapshot_store :: "transcript_segment \<Rightarrow> snapshot \<Rightarrow> snapshot" where
  "snapshot_store seg s = Some (Segment (seg\<lparr>is_final := False, speech_final := False, reason := None\<rparr>))"

record publisher =
  channels :: "word_chunk option list"
  p_split :: bool

definition publisher_new :: publisher where
  "publisher_new = \<lparr>channels = [], p_split = False\<rparr>"

definition resize :: "nat \<Rightarrow> 'a \<Rightarrow> 'a list \<Rightarrow> 'a list" where
  "resize n x xs = take n xs @ replicate (n - length xs) x"

definition push_chunk :: "word_chunk option \<Rightarrow> word_info list \<Rightarrow> word_chunk option" where
  "push_chunk prev ws =
     (if ws = [] then prev
      else Some (WordChunk prev ws (length ws)
                  ((case prev of None \<Rightarrow> 0 | Some c \<Rightarrow> chunk_total c) + length ws)))"

definition publish :: "nat \<Rightarrow> word_info list \<Rightarrow> nat option \<Rightarrow> rat \<Rightarrow> publisher \<Rightarrow> snapshot
    \<Rightarrow> publisher \<times> snapshot" where
  "publish retained ws0 channel ts p s =
     (let ws = (case channel of Some c \<Rightarrow> label_channel c ws0 | None \<Rightarrow> ws0);
          index = (case channel of Some c \<Rightarrow> c | None \<Rightarrow> 0);
          cs0 = (if p_split p \<noteq> (channel \<noteq> None) \<or> (index = 0 \<and> retained = 0) then [] else channels p);
          cs = resize (max (length cs0) (index + 1)) None cs0;
          cs' = cs[index := push_chunk (retain_prefix (cs ! index) retained) ws];
          p' = \<lparr>channels = cs', p_split = (channel \<noteq> None)\<rparr>
      in (p', Some (File cs' (p_split p') ts)))"

section \<open>Chunk lists represent word lists\<close>

fun chunk_ok :: "word_chunk \<Rightarrow> bool" where
  "chunk_ok (WordChunk prev ws u t) \<longleftrightarrow>
     0 < u \<and> u \<le> length ws \<and> length ws \<le> 2 * u
     \<and> (case prev of None \<Rightarrow> t = u | Some c \<Rightarrow> chunk_ok c \<and> t = chunk_total c + u)"

fun chunk_storage :: "word_chunk \<Rightarrow> nat" where
  "chunk_storage (WordChunk prev ws u t) =
     (case prev of None \<Rightarrow> 0 | Some c \<Rightarrow> chunk_storage c) + length ws"

definition head_ok :: "word_chunk option \<Rightarrow> bool" where
  "head_ok head \<longleftrightarrow> (case head of None \<Rightarrow> True | Some c \<Rightarrow> chunk_ok c)"

definition head_storage :: "word_chunk option \<Rightarrow> nat" where
  "head_storage head = (case head of None \<Rightarrow> 0 | Some c \<Rightarrow> chunk_storage c)"

lemma head_simps [simp]:
  "head_ok None" "head_ok (Some c) = chunk_ok c"
  "head_storage None = 0" "head_storage (Some c) = chunk_storage c"
  "collect_words None = []" "collect_words (Some c) = collect_chunk c"
  by (simp_all add: head_ok_def head_storage_def collect_words_def)

lemma chunk_total_length: "chunk_ok c \<Longrightarrow> chunk_total c = length (collect_chunk c)"
proof (induction c)
  case (WordChunk prev ws u t)
  then show ?case by (cases prev) auto
qed

lemma chunk_storage_bound: "chunk_ok c \<Longrightarrow> chunk_storage c \<le> 2 * length (collect_chunk c)"
proof (induction c)
  case (WordChunk prev ws u t)
  then show ?case by (cases prev) auto
qed

lemma chunk_total_pos: "chunk_ok c \<Longrightarrow> 0 < chunk_total c"
  by (cases c) (auto split: option.splits)

lemma div_ceil_two: "div_ceil n 2 = (n + 1) div 2"
  by (simp add: div_ceil_def) presburger

lemma retain_chunk_ok:
  assumes "chunk_ok c" "0 < n"
  shows "head_ok (retain_chunk c n) \<and> collect_words (retain_chunk c n) = take n (collect_chunk c)"
  using assms
proof (induction c)
  case (WordChunk prev ws u t)
  let ?old = "case prev of None \<Rightarrow> [] | Some c \<Rightarrow> collect_chunk c"
  have u: "0 < u" "u \<le> length ws" "length ws \<le> 2 * u" using WordChunk.prems by auto
  have old: "t = length ?old + u" using WordChunk.prems chunk_total_length by (cases prev) auto
  consider (all) "t \<le> n" | (prev) "n < t" "n \<le> t - u" | (cut) "n < t" "t - u < n" by linarith
  then show ?case
  proof cases
    case all
    then show ?thesis using WordChunk.prems old u by (cases prev) simp_all
  next
    case prev
    show ?thesis
    proof (cases prev)
      case None
      then show ?thesis using prev old \<open>0 < n\<close> by simp
    next
      case (Some c)
      then have "head_ok (retain_chunk c n) \<and> collect_words (retain_chunk c n) = take n (collect_chunk c)"
        using WordChunk.IH[of c] WordChunk.prems by simp
      then show ?thesis using prev Some old by simp
    qed
  next
    case cut
    let ?u = "n - (t - u)"
    let ?ws = "if ?u < div_ceil (length ws) 2 then take ?u ws else ws"
    have r: "retain_chunk (WordChunk prev ws u t) n = Some (WordChunk prev ?ws ?u n)"
      using cut by (simp add: Let_def)
    have lu: "0 < ?u" "?u < u" using cut old by simp_all
    have "?u \<le> length ?ws" "length ?ws \<le> 2 * ?u"
      using lu u by (auto simp: div_ceil_two min_def)
    moreover have "case prev of None \<Rightarrow> n = ?u | Some c \<Rightarrow> chunk_ok c \<and> n = chunk_total c + ?u"
      using WordChunk.prems cut by (cases prev) auto
    ultimately have "chunk_ok (WordChunk prev ?ws ?u n)" using lu by simp
    moreover have "take n (?old @ take u ws) = ?old @ take ?u ws" using cut old lu u by simp
    moreover have "take ?u ?ws = take ?u ws" by simp
    ultimately show ?thesis using r by simp
  qed
qed

lemma retain_prefix_ok:
  assumes "head_ok head"
  shows "head_ok (retain_prefix head n)" "collect_words (retain_prefix head n) = take n (collect_words head)"
  using assms retain_chunk_ok by (auto simp: retain_prefix_def split: option.splits)

lemma push_chunk_ok:
  assumes "head_ok head"
  shows "head_ok (push_chunk head ws)" "collect_words (push_chunk head ws) = collect_words head @ ws"
  using assms by (auto simp: push_chunk_def split: option.splits)

lemma head_storage_bound: "head_ok head \<Longrightarrow> head_storage head \<le> 2 * length (collect_words head)"
  using chunk_storage_bound by (cases head) auto

section \<open>The abstract publisher\<close>

text \<open>One word list per channel.\<close>

record spec_publisher =
  spec_channels :: "word_info list list"
  spec_split :: bool

definition spec_publish :: "nat \<Rightarrow> word_info list \<Rightarrow> nat option \<Rightarrow> spec_publisher \<Rightarrow> spec_publisher" where
  "spec_publish retained ws0 channel p =
     (let ws = (case channel of Some c \<Rightarrow> label_channel c ws0 | None \<Rightarrow> ws0);
          index = (case channel of Some c \<Rightarrow> c | None \<Rightarrow> 0);
          cs0 = (if spec_split p \<noteq> (channel \<noteq> None) \<or> (index = 0 \<and> retained = 0) then [] else spec_channels p);
          cs = resize (max (length cs0) (index + 1)) [] cs0
      in \<lparr>spec_channels = cs[index := take retained (cs ! index) @ ws], spec_split = (channel \<noteq> None)\<rparr>)"

definition abs_pub :: "publisher \<Rightarrow> spec_publisher" where
  "abs_pub p = \<lparr>spec_channels = map collect_words (channels p), spec_split = p_split p\<rparr>"

definition pub_ok :: "publisher \<Rightarrow> bool" where
  "pub_ok p \<longleftrightarrow> list_all head_ok (channels p)"

lemma resize_map: "map f (resize n x xs) = resize n (f x) (map f xs)"
  by (simp add: resize_def take_map)

lemma length_resize [simp]: "length (resize n x xs) = n"
  by (simp add: resize_def min_def)

lemma list_all_resize: "list_all P xs \<Longrightarrow> P x \<Longrightarrow> list_all P (resize n x xs)"
  by (auto simp: resize_def list_all_iff dest: in_set_takeD)

lemma list_all_update: "list_all P xs \<Longrightarrow> P y \<Longrightarrow> list_all P (xs[i := y])"
  by (auto simp: list_all_iff dest: subsetD[OF set_update_subset_insert])

lemma publish_refines:
  assumes "pub_ok p"
  shows "pub_ok (fst (publish retained ws channel ts p s))"
    and "abs_pub (fst (publish retained ws channel ts p s)) = spec_publish retained ws channel (abs_pub p)"
    and "snd (publish retained ws channel ts p s)
       = Some (File (channels (fst (publish retained ws channel ts p s))) (channel \<noteq> None) ts)"
proof -
  define index where "index = (case channel of Some c \<Rightarrow> c | None \<Rightarrow> 0)"
  define vs where "vs = (case channel of Some c \<Rightarrow> label_channel c ws | None \<Rightarrow> ws)"
  define clear where "clear \<longleftrightarrow> p_split p \<noteq> (channel \<noteq> None) \<or> (index = 0 \<and> retained = 0)"
  define cs0 where "cs0 = (if clear then [] else channels p)"
  define cs where "cs = resize (max (length cs0) (index + 1)) None cs0"
  define cs' where "cs' = cs[index := push_chunk (retain_prefix (cs ! index) retained) vs]"
  have p': "publish retained ws channel ts p s
     = (\<lparr>channels = cs', p_split = (channel \<noteq> None)\<rparr>, Some (File cs' (channel \<noteq> None) ts))"
    by (simp add: publish_def Let_def cs'_def cs_def cs0_def clear_def vs_def index_def)
  have all: "list_all head_ok cs" using assms by (auto simp: cs_def cs0_def pub_ok_def intro: list_all_resize)
  have idx: "index < length cs" by (simp add: cs_def)
  then have h: "head_ok (cs ! index)" using all by (simp add: list_all_length)
  have new: "head_ok (push_chunk (retain_prefix (cs ! index) retained) vs)"
    "collect_words (push_chunk (retain_prefix (cs ! index) retained) vs) = take retained (collect_words (cs ! index)) @ vs"
    using push_chunk_ok retain_prefix_ok h by simp_all
  show "pub_ok (fst (publish retained ws channel ts p s))"
    using all new(1) by (simp add: p' pub_ok_def cs'_def list_all_update)
  show "snd (publish retained ws channel ts p s)
       = Some (File (channels (fst (publish retained ws channel ts p s))) (channel \<noteq> None) ts)"
    by (simp add: p')
  define ds0 where "ds0 = (if clear then [] else map collect_words (channels p))"
  have ds: "map collect_words cs = resize (max (length ds0) (index + 1)) [] ds0"
    by (simp add: cs_def cs0_def ds0_def resize_map)
  have "spec_publish retained ws channel (abs_pub p)
     = \<lparr>spec_channels = (map collect_words cs)[index := take retained (map collect_words cs ! index) @ vs],
        spec_split = (channel \<noteq> None)\<rparr>"
    unfolding ds ds0_def clear_def vs_def index_def spec_publish_def abs_pub_def Let_def
      spec_publisher.select_convs by (rule refl)
  then show "abs_pub (fst (publish retained ws channel ts p s)) = spec_publish retained ws channel (abs_pub p)"
    using idx new(2) by (simp add: p' abs_pub_def cs'_def map_update)
qed

section \<open>Properties\<close>

text \<open>A sequence of publications of one decode request.\<close>

record publication =
  pub_retained :: nat
  pub_words :: "word_info list"
  pub_channel :: "nat option"
  pub_time :: rat

definition publish_one :: "publication \<Rightarrow> publisher \<times> snapshot \<Rightarrow> publisher \<times> snapshot" where
  "publish_one e ps = publish (pub_retained e) (pub_words e) (pub_channel e) (pub_time e) (fst ps) (snd ps)"

definition spec_publish_one :: "publication \<Rightarrow> spec_publisher \<Rightarrow> spec_publisher" where
  "spec_publish_one e p = spec_publish (pub_retained e) (pub_words e) (pub_channel e) p"

lemma publications_refine:
  assumes "pub_ok (fst ps)"
  shows "pub_ok (fst (fold publish_one es ps))
    \<and> abs_pub (fst (fold publish_one es ps)) = fold spec_publish_one es (abs_pub (fst ps))"
  using assms
proof (induction es arbitrary: ps)
  case (Cons e es)
  have "pub_ok (fst (publish_one e ps))"
    unfolding publish_one_def[of e] by (rule publish_refines(1)[OF Cons.prems])
  moreover have "abs_pub (fst (publish_one e ps)) = spec_publish_one e (abs_pub (fst ps))"
    unfolding publish_one_def[of e] spec_publish_one_def by (rule publish_refines(2)[OF Cons.prems])
  ultimately show ?case using Cons.IH[of "publish_one e ps"] by simp
qed simp

lemma push_words_Nil: "nonempty_words ws \<Longrightarrow> push_words [] ws = join (map word ws)"
  using push_words_join[of "[]" ws] by simp

text \<open>
  C25: after any sequence of publications the readable snapshot is the one of the plain word
  lists: each channel keeps the retained prefix and the new words, a mode change or a fresh
  start clears all, the segment lists the words of all channels (in order of time when
  channels are split), and its text is those words joined by spaces.
\<close>
theorem snapshot_refines_words:
  fixes es :: "publication list" and e :: publication
  defines "state \<equiv> fold publish_one (es @ [e]) (publisher_new, None)"
    and "ref \<equiv> fold spec_publish_one (es @ [e]) \<lparr>spec_channels = [], spec_split = False\<rparr>"
  shows "\<exists>seg. snapshot_get (snd state) = Some seg
    \<and> s_words seg = (if spec_split ref then sort_key by_start (concat (spec_channels ref)) else concat (spec_channels ref))
    \<and> timestamp seg = pub_time e \<and> \<not> is_final seg
    \<and> (nonempty_words (s_words seg) \<longrightarrow> s_text seg = join (map word (s_words seg)))"
proof -
  let ?mid = "fold publish_one es (publisher_new, None)"
  have new: "pub_ok publisher_new" "abs_pub publisher_new = \<lparr>spec_channels = [], spec_split = False\<rparr>"
    by (simp_all add: pub_ok_def publisher_new_def abs_pub_def)
  have mid: "pub_ok (fst ?mid)" using publications_refine[of "(publisher_new, None)" es] new by simp
  have "abs_pub (fst state) = ref"
    using publications_refine[of "(publisher_new, None)" "es @ [e]"] new by (simp add: state_def ref_def)
  then have ref: "spec_channels ref = map collect_words (channels (fst state))" "spec_split ref = p_split (fst state)"
    by (auto simp: abs_pub_def)
  have st: "state = publish_one e ?mid" by (simp add: state_def)
  have s: "snd state = Some (File (channels (fst state)) (pub_channel e \<noteq> None) (pub_time e))"
    unfolding st publish_one_def[of e] by (rule publish_refines(3)[OF mid])
  have sp: "p_split (fst state) = (pub_channel e \<noteq> None)"
    by (simp add: st publish_one_def publish_def Let_def)
  let ?ws = "if spec_split ref then sort_key by_start (concat (spec_channels ref)) else concat (spec_channels ref)"
  show ?thesis
    by (intro exI[of _ "\<lparr>s_text = push_words [] ?ws, s_committed = [], tentative = push_words [] ?ws, s_words = ?ws,
        is_final = False, speech_final = False, reason = None, truncated = False, timestamp = pub_time e,
        s_confidence = aggregate_confidence ?ws\<rparr>"])
      (simp add: snapshot_get_def s Let_def ref sp push_words_Nil)
qed

definition demo_publications :: "publication list" where
  "demo_publications = [\<lparr>pub_retained = 0, pub_words = demo_words, pub_channel = None, pub_time = 1\<rparr>]"

lemma snapshot_refines_words_witness:
  "\<exists>seg. snapshot_get (snd (fold publish_one (demo_publications
       @ [\<lparr>pub_retained = 1, pub_words = demo_words, pub_channel = None, pub_time = 2\<rparr>]) (publisher_new, None))) = Some seg
     \<and> s_text seg = lit ''a a b''"
  using snapshot_refines_words[of demo_publications "\<lparr>pub_retained = 1, pub_words = demo_words, pub_channel = None, pub_time = 2\<rparr>"]
  by (auto simp: demo_publications_def demo_words_def word_new_def spec_publish_one_def spec_publish_def resize_def
      lit_def space_def)

text \<open>
  Publications never pile up words that are not shown: the chunks of every channel hold at
  most twice as many words as the channel shows, however often long histories are cut short.
\<close>
theorem snapshot_storage_bound:
  assumes "head \<in> set (channels (fst (fold publish_one es (publisher_new, None))))"
  shows "head_storage head \<le> 2 * length (collect_words head)"
proof -
  have "pub_ok (fst (publisher_new, None))" by (simp add: pub_ok_def publisher_new_def)
  from publications_refine[OF this, of es] assms show ?thesis
    by (auto simp: pub_ok_def list_all_iff intro: head_storage_bound)
qed

lemma snapshot_storage_bound_witness:
  "head_storage (Some (WordChunk None demo_words 2 2)) \<le> 2 * length (collect_words (Some (WordChunk None demo_words 2 2)))"
  by (rule snapshot_storage_bound[of _ demo_publications])
    (simp add: demo_publications_def demo_words_def publish_one_def publish_def publisher_new_def resize_def
      retain_prefix_def push_chunk_def Let_def)

end
