(* ===== verification/Job_Store.thy ===== *)
theory Job_Store
  imports Snapshot "HOL-Library.AList"
begin

text \<open>
  The jobs of \<open>server/jobs/store.rs\<close>: the lifecycle of a job, the events its listeners
  receive, and the in-memory store with its queue. The handles a job shares with the outside
  live in a \<open>world\<close>: a listener is the index of its channel, the cancellation flag and the partial
  transcript of a run are indices too, so that a flag set through the job is seen by the run.
  The store's locks make every operation one step. The hash map is an association list with
  distinct keys; the order of its entries is not observable.
\<close>

section \<open>Data\<close>

datatype job_status = Queued | Processing | Done | Failed | Cancelled

definition is_terminal :: "job_status \<Rightarrow> bool" where
  "is_terminal s \<longleftrightarrow> s = Done \<or> s = Failed \<or> s = Cancelled"

text \<open>The public error texts of \<open>sanitize_job_error\<close>, the only ones a job ever carries.\<close>

datatype job_message = MsgFailed | MsgCancelled | MsgTooLong float_val float_val | MsgDecode | MsgTimedOut

datatype job_event = EvProgress nat rat | EvDone | EvFailed job_message | EvCancelled

definition ev_terminal :: "job_event \<Rightarrow> bool" where
  "ev_terminal e \<longleftrightarrow> (case e of EvProgress _ _ \<Rightarrow> False | _ \<Rightarrow> True)"

datatype diarization_outcome = DiarApplied | NoSpeakerModel | DurationCeiling rat rat | DiarFailed

record 'p job =
  job_id :: string
  status :: job_status
  body :: "8 word list"
  params :: 'p
  created_at :: rat
  updated_at :: rat
  processed_seconds :: rat
  total_seconds :: rat
  attempts :: nat
  result :: "transcribe_result option"
  diarization :: "diarization_outcome option"
  error :: "job_message option"
  event_channels :: "nat list"
  abort :: "nat option"
  partial_handle :: "nat option"

record job_channel =
  ch_open :: bool
  ch_log :: "job_event list"

record world =
  now :: rat
  chans :: "nat \<Rightarrow> job_channel"
  flags :: "nat \<Rightarrow> bool"
  snaps :: "nat \<Rightarrow> snapshot"

record status_response =
  rs_id :: string
  rs_status :: job_status
  rs_processed :: rat
  rs_percent :: nat
  rs_error :: "job_message option"
  rs_partial :: "transcript_segment option"

definition MAX_JOB_EVENT_SUBSCRIBERS :: nat where "MAX_JOB_EVENT_SUBSCRIBERS = 32"

definition job_queued :: "string \<Rightarrow> rat \<Rightarrow> 8 word list \<Rightarrow> 'p \<Rightarrow> 'p job" where
  "job_queued uuid t b ps = \<lparr>job_id = uuid, status = Queued, body = b, params = ps, created_at = t, updated_at = t,
     processed_seconds = 0, total_seconds = 0, attempts = 0, result = None, diarization = None, error = None,
     event_channels = [], abort = None, partial_handle = None\<rparr>"

text \<open>The cast of a float to \<open>u32\<close> truncates and takes a negative number to 0.\<close>

definition job_status_metadata :: "'p job \<Rightarrow> status_response" where
  "job_status_metadata j =
     \<lparr>rs_id = job_id j, rs_status = status j, rs_processed = processed_seconds j,
      rs_percent = (if 0 < total_seconds j then min (nat \<lfloor>processed_seconds j / total_seconds j * 100\<rfloor>) 100 else 0),
      rs_error = error j, rs_partial = None\<rparr>"

definition job_status_response :: "world \<Rightarrow> 'p job \<Rightarrow> status_response" where
  "job_status_response w j =
     (job_status_metadata j)\<lparr>rs_partial := Option.bind (partial_handle j) (\<lambda>h. snapshot_get (snaps w h))\<rparr>"

section \<open>Events\<close>

definition terminal_event :: "'p job \<Rightarrow> job_event option" where
  "terminal_event j =
     (case status j of
        Done \<Rightarrow> Some EvDone
      | Failed \<Rightarrow> Some (EvFailed (case error j of Some e \<Rightarrow> e | None \<Rightarrow> MsgFailed))
      | Cancelled \<Rightarrow> Some EvCancelled
      | _ \<Rightarrow> None)"

text \<open>Sending on an unbounded channel fails exactly when its receiver is gone.\<close>

definition send :: "job_event \<Rightarrow> nat \<Rightarrow> world \<Rightarrow> bool \<times> world" where
  "send e c w =
     (if ch_open (chans w c)
      then (True, w\<lparr>chans := (chans w)(c := (chans w c)\<lparr>ch_log := ch_log (chans w c) @ [e]\<rparr>)\<rparr>)
      else (False, w))"

fun send_all :: "job_event \<Rightarrow> nat list \<Rightarrow> world \<Rightarrow> nat list \<times> world" where
  "send_all e [] w = ([], w)"
| "send_all e (c # cs) w =
     (let (ok, w1) = send e c w; (kept, w2) = send_all e cs w1
      in (if ok \<and> \<not> ev_terminal e then c # kept else kept, w2))"

definition compatible :: "job_event \<Rightarrow> job_status \<Rightarrow> bool" where
  "compatible e s \<longleftrightarrow>
     (case e of
        EvDone \<Rightarrow> s = Done
      | EvFailed _ \<Rightarrow> s = Failed
      | EvCancelled \<Rightarrow> s = Cancelled
      | EvProgress _ _ \<Rightarrow> \<not> is_terminal s)"

definition broadcast :: "job_event \<Rightarrow> 'p job \<times> world \<Rightarrow> 'p job \<times> world" where
  "broadcast e = (\<lambda>(j, w).
     if \<not> compatible e (status j) then (j, w)
     else let (kept, w') = send_all e (event_channels j) w in (j\<lparr>event_channels := kept\<rparr>, w'))"

definition job_subscribe :: "nat \<Rightarrow> 'p job \<times> world \<Rightarrow> 'p job \<times> world" where
  "job_subscribe c = (\<lambda>(j, w).
     case terminal_event j of
       Some e \<Rightarrow> (j, snd (send e c w))
     | None \<Rightarrow>
         let cs = filter (\<lambda>d. ch_open (chans w d)) (event_channels j);
             cs' = (if MAX_JOB_EVENT_SUBSCRIBERS \<le> length cs then tl cs else cs)
         in (j\<lparr>event_channels := cs' @ [c]\<rparr>, w))"

section \<open>Transitions\<close>

datatype job_transition = Start | Complete transcribe_result | Fail job_message | Retry | Cancel

datatype transition_outcome = Applied | Rejected job_status | Missing

definition transition_allowed :: "job_transition \<Rightarrow> job_status \<Rightarrow> bool" where
  "transition_allowed t s =
     (case t of Start \<Rightarrow> s = Queued | Cancel \<Rightarrow> \<not> is_terminal s | _ \<Rightarrow> s = Processing)"

fun apply_transition :: "job_transition \<Rightarrow> 'p job \<times> world \<Rightarrow> 'p job \<times> world" where
  "apply_transition Start (j, w) = (j\<lparr>status := Processing, attempts := attempts j + 1\<rparr>, w)"
| "apply_transition (Complete r) (j, w) =
     (j\<lparr>status := Done, processed_seconds := duration_s r, result := Some r, partial_handle := None\<rparr>, w)"
| "apply_transition (Fail e) (j, w) = (j\<lparr>status := Failed, error := Some e\<rparr>, w)"
| "apply_transition Retry (j, w) = (j\<lparr>status := Queued, abort := None\<rparr>, w)"
| "apply_transition Cancel (j, w) =
     (j\<lparr>status := Cancelled\<rparr>,
      case abort j of Some f \<Rightarrow> w\<lparr>flags := (flags w)(f := True)\<rparr> | None \<Rightarrow> w)"

definition release_terminal :: "'p job \<Rightarrow> 'p job" where
  "release_terminal j = (if is_terminal (status j) then j\<lparr>body := [], abort := None\<rparr> else j)"

definition transition :: "job_transition \<Rightarrow> 'p job \<times> world \<Rightarrow> transition_outcome \<times> 'p job \<times> world" where
  "transition t = (\<lambda>(j, w).
     if \<not> transition_allowed t (status j) then (Rejected (status j), j, w)
     else
       let (j1, w1) = apply_transition t (j, w);
           j2 = release_terminal (j1\<lparr>updated_at := now w1\<rparr>);
           e = (case terminal_event j2 of Some e \<Rightarrow> e | None \<Rightarrow> EvProgress 0 0)
       in (Applied, broadcast e (j2, w1)))"

section \<open>The in-memory store\<close>

record job_limits =
  jobs_ttl_secs :: nat
  jobs_max :: nat
  jobs_max_bytes :: nat

record 'p job_store =
  limits :: job_limits
  jobs :: "(string \<times> 'p job) list"
  queue :: "string list"

definition store_new :: "job_limits \<Rightarrow> 'p job_store" where
  "store_new l = \<lparr>limits = l, jobs = [], queue = []\<rparr>"

definition lookup :: "'p job_store \<Rightarrow> string \<Rightarrow> 'p job option" where
  "lookup st k = map_of (jobs st) k"

definition put :: "string \<Rightarrow> 'p job \<Rightarrow> 'p job_store \<Rightarrow> 'p job_store" where
  "put k j st = st\<lparr>jobs := AList.update k j (jobs st)\<rparr>"

definition evict_one :: "string \<Rightarrow> 'p job_store \<Rightarrow> 'p job_store" where
  "evict_one k st = st\<lparr>jobs := filter (\<lambda>(k', _). k' \<noteq> k) (jobs st), queue := filter (\<lambda>x. x \<noteq> k) (queue st)\<rparr>"

definition expired :: "rat \<Rightarrow> 'p job_store \<Rightarrow> string list" where
  "expired t st =
     map fst (filter (\<lambda>(_, j). is_terminal (status j) \<and> of_nat (jobs_ttl_secs (limits st)) < t - updated_at j) (jobs st))"

definition evict_expired :: "world \<Rightarrow> 'p job_store \<Rightarrow> 'p job_store" where
  "evict_expired w st = (if jobs_ttl_secs (limits st) = 0 then st else fold evict_one (expired (now w) st) st)"

definition resident_body_bytes :: "'p job_store \<Rightarrow> nat" where
  "resident_body_bytes st = sum_list (map (\<lambda>(_, j). length (body j)) (jobs st))"

definition at_capacity :: "'p job_store \<Rightarrow> bool" where
  "at_capacity st \<longleftrightarrow> jobs_max (limits st) \<le> length (jobs st)
     \<or> jobs_max_bytes (limits st) \<le> resident_body_bytes st"

datatype store_error = JobStoreFull | JobNotFound

definition store_create :: "'p job \<Rightarrow> world \<Rightarrow> 'p job_store \<Rightarrow> (store_error + string) \<times> 'p job_store" where
  "store_create j w st0 =
     (let st = evict_expired w st0 in
      if at_capacity st then (Inl JobStoreFull, st)
      else (Inr (job_id j), (put (job_id j) j st)\<lparr>queue := queue st @ [job_id j]\<rparr>))"

definition store_status :: "string \<Rightarrow> world \<Rightarrow> 'p job_store \<Rightarrow> status_response option" where
  "store_status k w st = map_option (job_status_response w) (lookup st k)"

definition store_subscribe :: "string \<Rightarrow> nat \<Rightarrow> world \<times> 'p job_store \<Rightarrow> bool \<times> world \<times> 'p job_store" where
  "store_subscribe k c = (\<lambda>(w, st).
     case lookup st k of
       None \<Rightarrow> (False, w, st)
     | Some j \<Rightarrow> let (j', w') = job_subscribe c (j, w) in (True, w', put k j' st))"

definition store_transition :: "string \<Rightarrow> job_transition \<Rightarrow> world \<times> 'p job_store
    \<Rightarrow> transition_outcome \<times> world \<times> 'p job_store" where
  "store_transition k t = (\<lambda>(w, st).
     case lookup st k of
       None \<Rightarrow> (Missing, w, st)
     | Some j \<Rightarrow>
         let (out, j', w') = transition t (j, w); st' = put k j' st
         in (out, w', if t = Retry \<and> out = Applied then st'\<lparr>queue := queue st' @ [k]\<rparr> else st'))"

definition store_update :: "string \<Rightarrow> ('p job \<times> world \<Rightarrow> 'p job \<times> world) \<Rightarrow> world \<times> 'p job_store
    \<Rightarrow> (store_error + unit) \<times> world \<times> 'p job_store" where
  "store_update k f = (\<lambda>(w, st).
     case lookup st k of
       None \<Rightarrow> (Inl JobNotFound, w, st)
     | Some j \<Rightarrow> let (j', w') = f (j, w) in (Inr (), w', put k (j'\<lparr>updated_at := now w'\<rparr>) st))"

fun pop_queued :: "'p job_store \<Rightarrow> string list \<Rightarrow> string option \<times> string list" where
  "pop_queued st [] = (None, [])"
| "pop_queued st (k # ks) =
     (case lookup st k of
        Some j \<Rightarrow> if status j = Queued then (Some k, ks) else pop_queued st ks
      | None \<Rightarrow> pop_queued st ks)"

definition store_next_queued :: "world \<Rightarrow> 'p job_store \<Rightarrow> string option \<times> 'p job_store" where
  "store_next_queued w st0 =
     (let st = evict_expired w st0; (r, q) = pop_queued st (queue st) in (r, st\<lparr>queue := q\<rparr>))"

definition store_requeue :: "string \<Rightarrow> 'p job_store \<Rightarrow> 'p job_store" where
  "store_requeue k st = st\<lparr>queue := queue st @ [k]\<rparr>"

definition store_is_full :: "world \<Rightarrow> 'p job_store \<Rightarrow> bool \<times> 'p job_store" where
  "store_is_full w st0 = (let st = evict_expired w st0 in (at_capacity st, st))"

section \<open>Events reach the open listeners\<close>

definition deliver :: "job_event \<Rightarrow> nat list \<Rightarrow> world \<Rightarrow> world" where
  "deliver e cs w = w\<lparr>chans := (\<lambda>c. if c \<in> set cs \<and> ch_open (chans w c)
     then (chans w c)\<lparr>ch_log := ch_log (chans w c) @ [e]\<rparr> else chans w c)\<rparr>"

lemma send_open [simp]: "ch_open (chans (snd (send e c w)) d) = ch_open (chans w d)"
  by (simp add: send_def)

lemma send_deliver: "send e c w = (ch_open (chans w c), deliver e [c] w)"
  by (auto simp: send_def deliver_def fun_eq_iff intro!: world.equality)

lemma send_all_deliver:
  "distinct cs \<Longrightarrow> send_all e cs w
     = (if ev_terminal e then [] else filter (\<lambda>c. ch_open (chans w c)) cs, deliver e cs w)"
proof (induction cs arbitrary: w)
  case Nil
  then show ?case by (auto simp: deliver_def)
next
  case (Cons c cs)
  have "deliver e cs (deliver e [c] w) = deliver e (c # cs) w"
    using Cons.prems by (auto simp: deliver_def fun_eq_iff intro!: world.equality)
  moreover have "filter (\<lambda>d. ch_open (chans (deliver e [c] w) d)) cs = filter (\<lambda>d. ch_open (chans w d)) cs"
    by (rule filter_cong) (auto simp: deliver_def)
  ultimately show ?case using Cons.IH[of "deliver e [c] w"] Cons.prems
    by (auto simp: send_deliver Let_def)
qed

lemma broadcast_result:
  "distinct (event_channels j) \<Longrightarrow> broadcast e (j, w)
     = (if compatible e (status j)
        then (j\<lparr>event_channels := (if ev_terminal e then [] else filter (\<lambda>c. ch_open (chans w c)) (event_channels j))\<rparr>,
              deliver e (event_channels j) w)
        else (j, w))"
  by (simp add: broadcast_def send_all_deliver)

lemma deliver_simps [simp]:
  "now (deliver e cs w) = now w" "flags (deliver e cs w) = flags w" "snaps (deliver e cs w) = snaps w"
  "ch_open (chans (deliver e cs w) c) = ch_open (chans w c)"
  by (simp_all add: deliver_def)

lemma deliver_log:
  "ch_log (chans (deliver e cs w) c) =
     (if c \<in> set cs \<and> ch_open (chans w c) then ch_log (chans w c) @ [e] else ch_log (chans w c))"
  by (simp add: deliver_def)

section \<open>The invariant of a job\<close>

definition job_ok :: "nat \<Rightarrow> 'p job \<Rightarrow> bool" where
  "job_ok R j \<longleftrightarrow>
     (status j = Done \<longleftrightarrow> result j \<noteq> None) \<and> (status j = Failed \<longleftrightarrow> error j \<noteq> None)
     \<and> (is_terminal (status j) \<longrightarrow> body j = [] \<and> event_channels j = [])
     \<and> (status j \<noteq> Processing \<longrightarrow> abort j = None)
     \<and> length (event_channels j) \<le> MAX_JOB_EVENT_SUBSCRIBERS \<and> distinct (event_channels j)
     \<and> (status j = Queued \<longrightarrow> attempts j \<le> R) \<and> attempts j \<le> Suc R"

text \<open>What an operation may do to a job: nothing of interest once it is terminal.\<close>

definition job_step :: "'p job \<Rightarrow> 'p job \<Rightarrow> bool" where
  "job_step j j' \<longleftrightarrow> job_id j' = job_id j \<and> params j' = params j \<and> length (body j') \<le> length (body j)
     \<and> (is_terminal (status j') \<or> body j' = body j)
     \<and> attempts j \<le> attempts j'
     \<and> (is_terminal (status j) \<longrightarrow> status j' = status j \<and> result j' = result j \<and> error j' = error j
          \<and> attempts j' = attempts j \<and> processed_seconds j' = processed_seconds j)"

lemma is_terminal_simps [simp]:
  "\<not> is_terminal Queued" "\<not> is_terminal Processing" "is_terminal Done" "is_terminal Failed" "is_terminal Cancelled"
  by (simp_all add: is_terminal_def)

lemma job_step_refl [simp]: "job_step j j"
  by (simp add: job_step_def)

lemma terminal_event_None: "terminal_event j = None \<longleftrightarrow> \<not> is_terminal (status j)"
  by (cases "status j") (simp_all add: terminal_event_def)

lemma terminal_event_Some:
  "terminal_event j = Some e \<Longrightarrow> ev_terminal e \<and> compatible e (status j) \<and> is_terminal (status j)"
  by (cases "status j") (auto simp: terminal_event_def ev_terminal_def compatible_def)

lemma job_queued_ok: "job_ok R (job_queued k t b ps)"
  by (simp add: job_ok_def job_queued_def)

lemma open_listeners:
  assumes "job_ok R j"
  shows "length (filter P (event_channels j)) \<le> MAX_JOB_EVENT_SUBSCRIBERS" "distinct (filter P (event_channels j))"
proof -
  show "length (filter P (event_channels j)) \<le> MAX_JOB_EVENT_SUBSCRIBERS"
    using assms by (intro order_trans[OF length_filter_le]) (simp add: job_ok_def)
  show "distinct (filter P (event_channels j))" using assms by (simp add: job_ok_def)
qed

lemma broadcast_ok: "job_ok R j \<Longrightarrow> job_ok R (fst (broadcast e (j, w))) \<and> job_step j (fst (broadcast e (j, w)))"
  using open_listeners[of R j "\<lambda>c. ch_open (chans w c)"]
  by (simp add: broadcast_result job_ok_def job_step_def)

lemma subscribe_result:
  "job_subscribe c (j, w) =
     (if is_terminal (status j) then (j, deliver (the (terminal_event j)) [c] w)
      else
        let cs = filter (\<lambda>d. ch_open (chans w d)) (event_channels j)
        in (j\<lparr>event_channels := (if MAX_JOB_EVENT_SUBSCRIBERS \<le> length cs then tl cs else cs) @ [c]\<rparr>, w))"
proof (cases "terminal_event j")
  case None
  then have "\<not> is_terminal (status j)" by (simp add: terminal_event_None)
  with None show ?thesis by (simp add: job_subscribe_def Let_def)
next
  case (Some e)
  then have "is_terminal (status j)" using terminal_event_Some by blast
  then show ?thesis using Some by (simp add: job_subscribe_def send_deliver)
qed

lemma in_set_tlD: "x \<in> set (tl xs) \<Longrightarrow> x \<in> set xs"
  by (cases xs) auto

lemma subscribe_ok:
  assumes "job_ok R j" "c \<notin> set (event_channels j)"
  shows "job_ok R (fst (job_subscribe c (j, w))) \<and> job_step j (fst (job_subscribe c (j, w)))"
proof -
  let ?cs = "filter (\<lambda>d. ch_open (chans w d)) (event_channels j)"
  have l: "length ?cs \<le> MAX_JOB_EVENT_SUBSCRIBERS"
    by (rule open_listeners[OF assms(1)])
  have "distinct ?cs" "c \<notin> set ?cs" using assms by (auto simp: job_ok_def)
  then have "distinct ((if MAX_JOB_EVENT_SUBSCRIBERS \<le> length ?cs then tl ?cs else ?cs) @ [c])"
    by (auto simp: distinct_tl dest: in_set_tlD)
  moreover have "length ((if MAX_JOB_EVENT_SUBSCRIBERS \<le> length ?cs then tl ?cs else ?cs) @ [c])
      \<le> MAX_JOB_EVENT_SUBSCRIBERS"
    using l by (auto simp: MAX_JOB_EVENT_SUBSCRIBERS_def)
  ultimately show ?thesis using assms(1)
    by (auto simp: subscribe_result job_ok_def job_step_def Let_def)
qed

text \<open>
  A transition as an equation: the job after it (before the broadcast), and the event sent. Only
  \<open>Retry\<close> needs a bound on the attempts for the invariant: the worker's test provides it.
\<close>

definition moved :: "job_transition \<Rightarrow> 'p job \<times> world \<Rightarrow> 'p job \<times> world" where
  "moved t jw = (release_terminal ((fst (apply_transition t jw))\<lparr>updated_at := now (snd (apply_transition t jw))\<rparr>),
     snd (apply_transition t jw))"

definition moved_event :: "'p job \<Rightarrow> job_event" where
  "moved_event j = (case terminal_event j of Some e \<Rightarrow> e | None \<Rightarrow> EvProgress 0 0)"

lemma transition_result:
  "transition t (j, w) =
     (if transition_allowed t (status j)
      then (Applied, broadcast (moved_event (fst (moved t (j, w)))) (moved t (j, w)))
      else (Rejected (status j), j, w))"
  by (simp add: transition_def moved_def moved_event_def case_prod_beta Let_def)

lemma moved_event_compatible: "compatible (moved_event j) (status j)"
proof (cases "terminal_event j")
  case None
  then have "\<not> is_terminal (status j)" by (simp add: terminal_event_None)
  with None show ?thesis by (simp add: moved_event_def compatible_def)
next
  case (Some e)
  with terminal_event_Some[OF Some] show ?thesis by (simp add: moved_event_def)
qed

lemma moved_event_terminal: "ev_terminal (moved_event j) \<longleftrightarrow> is_terminal (status j)"
proof (cases "terminal_event j")
  case None
  then have "\<not> is_terminal (status j)" by (simp add: terminal_event_None)
  with None show ?thesis by (simp add: moved_event_def ev_terminal_def)
next
  case (Some e)
  with terminal_event_Some[OF Some] show ?thesis by (simp add: moved_event_def)
qed

definition after_status :: "job_transition \<Rightarrow> job_status" where
  "after_status t = (case t of Start \<Rightarrow> Processing | Complete _ \<Rightarrow> Done | Fail _ \<Rightarrow> Failed | Retry \<Rightarrow> Queued | Cancel \<Rightarrow> Cancelled)"

lemma release_terminal_simps [simp]:
  "status (release_terminal j) = status j" "job_id (release_terminal j) = job_id j"
  "result (release_terminal j) = result j" "error (release_terminal j) = error j"
  "event_channels (release_terminal j) = event_channels j" "attempts (release_terminal j) = attempts j"
  "params (release_terminal j) = params j" "processed_seconds (release_terminal j) = processed_seconds j"
  "body (release_terminal j) = (if is_terminal (status j) then [] else body j)"
  "abort (release_terminal j) = (if is_terminal (status j) then None else abort j)"
  by (simp_all add: release_terminal_def)

lemma moved_simps [simp]:
  "status (fst (moved t (j, w))) = after_status t" "event_channels (fst (moved t (j, w))) = event_channels j"
  "job_id (fst (moved t (j, w))) = job_id j" "params (fst (moved t (j, w))) = params j"
  "chans (snd (moved t (j, w))) = chans w" "now (snd (moved t (j, w))) = now w"
  "body (fst (moved t (j, w))) = (if is_terminal (after_status t) then [] else body j)"
  by (cases t; simp add: moved_def after_status_def split: option.splits)+

lemma moved_attempts: "attempts (fst (moved t (j, w))) = (if t = Start then attempts j + 1 else attempts j)"
  by (cases t) (simp_all add: moved_def)

lemma moved_result:
  "result (fst (moved t (j, w))) = (case t of Complete r \<Rightarrow> Some r | _ \<Rightarrow> result j)"
  "error (fst (moved t (j, w))) = (case t of Fail e \<Rightarrow> Some e | _ \<Rightarrow> error j)"
  by (cases t; simp add: moved_def)+

lemma moved_abort:
  "abort (fst (moved t (j, w))) = (if is_terminal (after_status t) \<or> t = Retry then None else abort j)"
  by (cases t) (simp_all add: moved_def after_status_def)

lemma transition_Applied:
  assumes "job_ok R j" "transition_allowed t (status j)"
  shows "transition t (j, w) = (Applied,
      (fst (moved t (j, w)))\<lparr>event_channels :=
         (if is_terminal (after_status t) then [] else filter (\<lambda>c. ch_open (chans w c)) (event_channels j))\<rparr>,
      deliver (moved_event (fst (moved t (j, w)))) (event_channels j) (snd (moved t (j, w))))"
proof -
  let ?m = "moved t (j, w)"
  have m: "?m = (fst ?m, snd ?m)" by simp
  have d: "distinct (event_channels (fst ?m))" using assms(1) by (simp add: job_ok_def)
  have "broadcast (moved_event (fst ?m)) ?m = ((fst ?m)\<lparr>event_channels :=
         (if is_terminal (after_status t) then [] else filter (\<lambda>c. ch_open (chans w c)) (event_channels j))\<rparr>,
      deliver (moved_event (fst ?m)) (event_channels j) (snd ?m))"
    using moved_event_compatible[of "fst ?m"] moved_event_terminal[of "fst ?m"]
    by (subst m, subst broadcast_result[OF d]) simp
  then show ?thesis using assms(2) by (simp add: transition_result)
qed

lemma transition_ok:
  assumes "job_ok R j" "t = Retry \<Longrightarrow> status j = Processing \<Longrightarrow> attempts j \<le> R"
    and "transition t (j, w) = (out, j', w')"
  shows "job_ok R j' \<and> job_step j j'"
proof (cases "transition_allowed t (status j)")
  case False
  then show ?thesis using assms by (auto simp: transition_result)
next
  case True
  let ?m = "fst (moved t (j, w))"
  let ?cs = "if is_terminal (after_status t) then [] else filter (\<lambda>c. ch_open (chans w c)) (event_channels j)"
  have j': "j' = ?m\<lparr>event_channels := ?cs\<rparr>" using assms(3) transition_Applied[OF assms(1) True] by simp
  have cs: "distinct ?cs" "length ?cs \<le> MAX_JOB_EVENT_SUBSCRIBERS"
    using open_listeners[OF assms(1)] by auto
  have st: "(status j = Done) = (result j \<noteq> None)" "(status j = Failed) = (error j \<noteq> None)"
    "status j \<noteq> Processing \<Longrightarrow> abort j = None" "attempts j \<le> Suc R" "status j = Queued \<Longrightarrow> attempts j \<le> R"
    using assms(1) by (auto simp: job_ok_def)
  have "job_ok R j'" unfolding j' job_ok_def
    using True st cs assms(2)
    by (cases t) (auto simp: moved_result moved_abort moved_attempts after_status_def transition_allowed_def)
  moreover have "job_step j j'" unfolding j' job_step_def
    using True by (cases t) (auto simp: moved_result moved_attempts after_status_def transition_allowed_def)
  ultimately show ?thesis by blast
qed

lemma transition_status:
  assumes "transition t (j, w) = (out, j', w')"
  shows "out = Applied \<Longrightarrow> status j' = after_status t" and "out \<noteq> Applied \<Longrightarrow> j' = j \<and> w' = w"
    and "out = Applied \<longleftrightarrow> transition_allowed t (status j)"
proof -
  have b: "status (fst (broadcast e jw)) = status (fst jw)" for e and jw :: "'a job \<times> world"
    by (cases jw) (simp add: broadcast_def case_prod_beta)
  show "out = Applied \<Longrightarrow> status j' = after_status t"
    using assms b[of "moved_event (fst (moved t (j, w)))" "moved t (j, w)"]
    by (auto simp: transition_result split: if_splits)
  show "out \<noteq> Applied \<Longrightarrow> j' = j \<and> w' = w" "out = Applied \<longleftrightarrow> transition_allowed t (status j)"
    using assms by (auto simp: transition_result split: if_splits)
qed

section \<open>The store as a map\<close>

definition keys_ok :: "'p job_store \<Rightarrow> bool" where
  "keys_ok st \<longleftrightarrow> distinct (map fst (jobs st)) \<and> (\<forall>k j. lookup st k = Some j \<longrightarrow> job_id j = k)"

definition gone :: "world \<Rightarrow> 'p job_store \<Rightarrow> string \<Rightarrow> bool" where
  "gone w st k \<longleftrightarrow> jobs_ttl_secs (limits st) \<noteq> 0 \<and>
     (case lookup st k of
        Some j \<Rightarrow> is_terminal (status j) \<and> of_nat (jobs_ttl_secs (limits st)) < now w - updated_at j
      | None \<Rightarrow> False)"

lemma lookup_put: "lookup (put k j st) k' = (if k' = k then Some j else lookup st k')"
  by (simp add: lookup_def put_def update_conv')

lemma put_simps [simp]: "queue (put k j st) = queue st" "limits (put k j st) = limits st"
  by (simp_all add: put_def)

lemma keys_ok_put: "keys_ok st \<Longrightarrow> job_id j = k \<Longrightarrow> keys_ok (put k j st)"
  by (auto simp: keys_ok_def lookup_put) (simp add: put_def distinct_update)

lemma lookup_queue [simp]: "lookup (st\<lparr>queue := q\<rparr>) = lookup st"
  by (simp add: lookup_def fun_eq_iff)

lemma keys_ok_queue [simp]: "keys_ok (st\<lparr>queue := q\<rparr>) = keys_ok st"
  by (simp add: keys_ok_def)

lemma evict_all:
  "fold evict_one ks st = st\<lparr>jobs := filter (\<lambda>(k, _). k \<notin> set ks) (jobs st), queue := filter (\<lambda>k. k \<notin> set ks) (queue st)\<rparr>"
proof (induction ks arbitrary: st)
  case (Cons k ks)
  have "filter (\<lambda>(k', _). k' \<notin> set ks) (filter (\<lambda>(k', _). k' \<noteq> k) (jobs st)) = filter (\<lambda>(k', _). k' \<notin> set (k # ks)) (jobs st)"
    "filter (\<lambda>k'. k' \<notin> set ks) (filter (\<lambda>k'. k' \<noteq> k) (queue st)) = filter (\<lambda>k'. k' \<notin> set (k # ks)) (queue st)"
    by (simp_all add: case_prod_beta')
  then show ?case using Cons.IH[of "evict_one k st"] by (simp add: evict_one_def[of k])
qed simp

lemma map_of_filter_keys: "map_of (filter (\<lambda>(k, _). P k) xs) k = (if P k then map_of xs k else None)"
  by (induction xs) auto

lemma set_expired:
  assumes "distinct (map fst (jobs st))" "jobs_ttl_secs (limits st) \<noteq> 0"
  shows "k \<in> set (expired (now w) st) \<longleftrightarrow> gone w st k"
proof -
  have "k \<in> set (expired (now w) st) \<longleftrightarrow> (\<exists>j. (k, j) \<in> set (jobs st) \<and> is_terminal (status j)
      \<and> of_nat (jobs_ttl_secs (limits st)) < now w - updated_at j)"
    by (force simp: expired_def)
  then show ?thesis using assms(2)
    by (simp add: gone_def lookup_def map_of_eq_Some_iff[OF assms(1), symmetric] split: option.splits)
qed

lemma evict_expired_result:
  assumes "keys_ok st"
  shows "lookup (evict_expired w st) k = (if gone w st k then None else lookup st k)"
    and "queue (evict_expired w st) = filter (\<lambda>k. \<not> gone w st k) (queue st)"
    and "limits (evict_expired w st) = limits st"
proof -
  have d: "distinct (map fst (jobs st))" using assms by (simp add: keys_ok_def)
  show "lookup (evict_expired w st) k = (if gone w st k then None else lookup st k)"
    using set_expired[OF d]
    by (auto simp: evict_expired_def evict_all lookup_def map_of_filter_keys) (simp add: gone_def)
  show "queue (evict_expired w st) = filter (\<lambda>k. \<not> gone w st k) (queue st)"
    using set_expired[OF d] by (auto simp: evict_expired_def evict_all gone_def intro: filter_cong)
  show "limits (evict_expired w st) = limits st" by (simp add: evict_expired_def evict_all)
qed

lemma keys_ok_evict:
  assumes "keys_ok st"
  shows "keys_ok (evict_expired w st)"
proof -
  have "distinct (map fst (filter P (jobs st)))" for P using assms
    by (simp add: keys_ok_def distinct_map_filter)
  then have "distinct (map fst (jobs (evict_expired w st)))"
    using assms by (simp add: evict_expired_def evict_all keys_ok_def)
  then show ?thesis using assms by (auto simp: keys_ok_def evict_expired_result[OF assms])
qed

lemma gone_terminal: "gone w st k \<Longrightarrow> lookup st k = Some j \<Longrightarrow> is_terminal (status j)"
  by (simp add: gone_def)

definition is_queued :: "'p job_store \<Rightarrow> string \<Rightarrow> bool" where
  "is_queued st k \<longleftrightarrow> (case lookup st k of Some j \<Rightarrow> status j = Queued | None \<Rightarrow> False)"

lemma pop_queued_result:
  "pop_queued st q =
     (case dropWhile (\<lambda>k. \<not> is_queued st k) q of [] \<Rightarrow> (None, []) | k # ks \<Rightarrow> (Some k, ks))"
  by (induction q) (auto simp: is_queued_def split: option.splits)

section \<open>The resident bytes\<close>

lemma resident_put:
  assumes "keys_ok st" "lookup st k = Some j"
  shows "resident_body_bytes (put k j' st) + length (body j) = resident_body_bytes st + length (body j')"
proof -
  have "distinct (map fst xs) \<Longrightarrow> map_of xs k = Some j \<Longrightarrow>
      sum_list (map (\<lambda>(_, j). length (body j)) (AList.update k j' xs)) + length (body j)
      = sum_list (map (\<lambda>(_, j). length (body j)) xs) + length (body j')" for xs
    by (induction xs) (auto split: if_splits)
  then show ?thesis using assms by (simp add: resident_body_bytes_def put_def keys_ok_def lookup_def)
qed

lemma resident_put_new:
  assumes "lookup st k = None"
  shows "resident_body_bytes (put k j st) = resident_body_bytes st + length (body j)"
    and "length (jobs (put k j st)) = Suc (length (jobs st))"
proof -
  have "map_of xs k = None \<Longrightarrow> AList.update k j xs = xs @ [(k, j)]" for xs
    by (induction xs) (auto split: if_splits)
  with assms show "resident_body_bytes (put k j st) = resident_body_bytes st + length (body j)"
    "length (jobs (put k j st)) = Suc (length (jobs st))"
    by (simp_all add: resident_body_bytes_def put_def lookup_def)
qed

lemma length_put: "lookup st k = Some j \<Longrightarrow> length (jobs (put k j' st)) = length (jobs st)"
proof -
  have "map_of xs k = Some j \<Longrightarrow> length (AList.update k j' xs) = length xs" for xs
    by (induction xs) (auto split: if_splits)
  then show "lookup st k = Some j \<Longrightarrow> length (jobs (put k j' st)) = length (jobs st)"
    by (simp add: put_def lookup_def)
qed

lemma sum_list_filter_le: "sum_list (map f (filter P xs)) \<le> sum_list (map (f :: 'a \<Rightarrow> nat) xs)"
  by (induction xs) auto

lemma evict_shrinks:
  "length (jobs (evict_expired w st)) \<le> length (jobs st)"
  "resident_body_bytes (evict_expired w st) \<le> resident_body_bytes st"
  by (simp_all add: evict_expired_def evict_all resident_body_bytes_def sum_list_filter_le)

end
