(* ===== verification/Job_Queue.thy ===== *)
theory Job_Queue
  imports Job_Store
begin

text \<open>
  The job system of \<open>server/jobs/queue.rs\<close> and \<open>executor.rs\<close> over the in-memory store: clients
  submit, cancel and listen; workers claim, run and finish or retry jobs; a shutdown cancels what
  is still queued. Each event is one store call (one critical section) or one local step of a
  worker, and events of different workers and clients interleave freely. The run of the engine
  is not modelled: its outcome, and the moments of its progress reports, are free. Identifiers
  (UUIDs), channels and flags are fresh when they are made.
\<close>

section \<open>Failures of a run\<close>

text \<open>An \<open>anyhow\<close> error: a library error, or one made from a message.\<close>

datatype run_error = Typed gigastt_error | Text string

fun error_text :: "run_error \<Rightarrow> string" where
  "error_text (Typed e) = error_display e"
| "error_text (Text s) = s"

definition contains :: "string \<Rightarrow> string \<Rightarrow> bool" where
  "contains p s = list_ex (\<lambda>i. take (length p) (drop i s) = p) [0..<Suc (length s)]"

definition ascii_lower :: "char \<Rightarrow> char" where
  "ascii_lower c = (let n = of_char c in if 65 \<le> n \<and> n \<le> (90 :: nat) then char_of (n + 32) else c)"

definition is_retryable_error :: "run_error \<Rightarrow> bool" where
  "is_retryable_error e = contains ''panicked'' (error_text e)"

definition sanitize_job_error :: "run_error \<Rightarrow> job_message" where
  "sanitize_job_error e =
     (case e of
        Typed gigastt_error.Cancelled \<Rightarrow> MsgCancelled
      | Typed (AudioTooLong obs lmt) \<Rightarrow> MsgTooLong obs lmt
      | Typed (InvalidAudio _) \<Rightarrow> MsgDecode
      | _ \<Rightarrow>
          let lower = map ascii_lower (error_text e) in
          if contains ''inference_timeout'' lower then MsgTimedOut
          else if contains ''invalid audio'' lower then MsgDecode
          else MsgFailed)"

section \<open>The system\<close>

datatype worker =
    Idle
  | Claimed string                      \<comment> \<open>popped the id, about to start\<close>
  | Started string                      \<comment> \<open>start applied, about to read the job\<close>
  | Running string                      \<comment> \<open>the executor runs\<close>
  | Failing string run_error            \<comment> \<open>the run failed, about to read the attempts\<close>
  | Deciding string "job_message option" \<comment> \<open>about to fail the job, or to retry it (None)\<close>
  | Draining string                     \<comment> \<open>shutdown popped the id, about to cancel\<close>

record 'p sys =
  sworld :: world
  jstore :: "'p job_store"
  workers :: "worker list"
  max_retries :: nat
  body_limit :: nat
  used_ids :: "string list"
  used_chans :: "nat list"

definition sys_new :: "job_limits \<Rightarrow> nat \<Rightarrow> nat \<Rightarrow> nat \<Rightarrow> 'p sys" where
  "sys_new l concurrency retries limit =
     \<lparr>sworld = \<lparr>now = 0, chans = (\<lambda>_. \<lparr>ch_open = True, ch_log = []\<rparr>), flags = (\<lambda>_. False), snaps = (\<lambda>_. None)\<rparr>,
      jstore = store_new l, workers = replicate (max 1 concurrency) Idle, max_retries = retries,
      body_limit = limit, used_ids = [], used_chans = []\<rparr>"

definition worker_at :: "'p sys \<Rightarrow> nat \<Rightarrow> worker option" where
  "worker_at s i = (if i < length (workers s) then Some (workers s ! i) else None)"

definition goto :: "nat \<Rightarrow> worker \<Rightarrow> 'p sys \<Rightarrow> 'p sys" where
  "goto i p s = s\<lparr>workers := (workers s)[i := p]\<rparr>"

definition with_transition :: "string \<Rightarrow> job_transition \<Rightarrow> (transition_outcome \<Rightarrow> 'p sys \<Rightarrow> 'p sys) \<Rightarrow> 'p sys \<Rightarrow> 'p sys" where
  "with_transition k t cont s =
     (let (out, w, st) = store_transition k t (sworld s, jstore s) in cont out (s\<lparr>sworld := w, jstore := st\<rparr>))"

text \<open>\<open>JobWorker::run\<close>, one definition per store call of its loop.\<close>

definition worker_next :: "nat \<Rightarrow> 'p sys \<Rightarrow> 'p sys option" where
  "worker_next i s =
     (if worker_at s i \<noteq> Some Idle then None
      else let (r, st) = store_next_queued (sworld s) (jstore s) in
           Some (goto i (case r of Some k \<Rightarrow> Claimed k | None \<Rightarrow> Idle) (s\<lparr>jstore := st\<rparr>)))"

definition worker_start :: "nat \<Rightarrow> 'p sys \<Rightarrow> 'p sys option" where
  "worker_start i s =
     (case worker_at s i of
        Some (Claimed k) \<Rightarrow>
          Some (with_transition k Start (\<lambda>out. goto i (if out = Applied then Started k else Idle)) s)
      | _ \<Rightarrow> None)"

definition worker_get :: "nat \<Rightarrow> 'p sys \<Rightarrow> 'p sys option" where
  "worker_get i s =
     (case worker_at s i of
        Some (Started k) \<Rightarrow>
          Some (goto i (case lookup (jstore s) k of
                          Some j \<Rightarrow> if status j = Processing then Running k else Idle
                        | None \<Rightarrow> Idle) s)
      | _ \<Rightarrow> None)"

definition worker_result :: "nat \<Rightarrow> run_error + transcribe_result \<Rightarrow> 'p sys \<Rightarrow> 'p sys option" where
  "worker_result i res s =
     (case worker_at s i of
        Some (Running k) \<Rightarrow>
          Some (case res of
                  Inr r \<Rightarrow> with_transition k (Complete r) (\<lambda>_. goto i Idle) s
                | Inl e \<Rightarrow> goto i (Failing k e) s)
      | _ \<Rightarrow> None)"

definition worker_decide :: "nat \<Rightarrow> 'p sys \<Rightarrow> 'p sys option" where
  "worker_decide i s =
     (case worker_at s i of
        Some (Failing k e) \<Rightarrow>
          (let n = (case lookup (jstore s) k of Some j \<Rightarrow> attempts j | None \<Rightarrow> 0) in
           Some (goto i (Deciding k (if is_retryable_error e \<and> n \<le> max_retries s then None
                                     else Some (sanitize_job_error e))) s))
      | _ \<Rightarrow> None)"

definition worker_apply :: "nat \<Rightarrow> 'p sys \<Rightarrow> 'p sys option" where
  "worker_apply i s =
     (case worker_at s i of
        Some (Deciding k d) \<Rightarrow>
          Some (with_transition k (case d of None \<Rightarrow> Retry | Some e \<Rightarrow> Fail e) (\<lambda>_. goto i Idle) s)
      | _ \<Rightarrow> None)"

text \<open>\<open>cancel_all_queued\<close>\<close>

definition drain_next :: "nat \<Rightarrow> 'p sys \<Rightarrow> 'p sys option" where
  "drain_next i s =
     (if worker_at s i \<noteq> Some Idle then None
      else let (r, st) = store_next_queued (sworld s) (jstore s) in
           Some (goto i (case r of Some k \<Rightarrow> Draining k | None \<Rightarrow> Idle) (s\<lparr>jstore := st\<rparr>)))"

definition drain_cancel :: "nat \<Rightarrow> 'p sys \<Rightarrow> 'p sys option" where
  "drain_cancel i s =
     (case worker_at s i of
        Some (Draining k) \<Rightarrow> Some (with_transition k Cancel (\<lambda>_. goto i Idle) s)
      | _ \<Rightarrow> None)"

text \<open>The updates the executor makes: the closures it passes to \<open>update\<close>.\<close>

datatype job_update =
    SetTotal rat | Register nat nat | SetProcessed rat | SetDiarization diarization_outcome | Broadcast job_event

fun run_update :: "job_update \<Rightarrow> 'p job \<times> world \<Rightarrow> 'p job \<times> world" where
  "run_update (SetTotal t) (j, w) = (j\<lparr>total_seconds := t\<rparr>, w)"
| "run_update (Register f h) (j, w) =
     (let w' = (if status j = Cancelled then w\<lparr>flags := (flags w)(f := True)\<rparr> else w)
      in (if status j = Processing then j\<lparr>abort := Some f, partial_handle := Some h\<rparr> else j, w'))"
| "run_update (SetProcessed p) (j, w) = (if status j = Processing then j\<lparr>processed_seconds := p\<rparr> else j, w)"
| "run_update (SetDiarization d) (j, w) = (j\<lparr>diarization := Some d\<rparr>, w)"
| "run_update (Broadcast e) (j, w) = broadcast e (j, w)"

definition job_update :: "string \<Rightarrow> job_update \<Rightarrow> 'p sys \<Rightarrow> 'p sys" where
  "job_update k u s =
     (let (_, w, st) = store_update k (run_update u) (sworld s, jstore s) in s\<lparr>sworld := w, jstore := st\<rparr>)"

definition progress_fields :: "nat \<Rightarrow> nat \<Rightarrow> rat \<Rightarrow> rat \<times> nat" where
  "progress_fields samples n_chan tot =
     (let processed0 = of_nat samples / 16000 / of_nat (max n_chan 1);
          processed = (if 0 < tot then min processed0 tot else processed0);
          percent = (if 0 < tot then nat \<lfloor>processed / tot * 100\<rfloor> else 0)
      in (processed, percent))"

text \<open>The client side, \<open>server/http/jobs_api.rs\<close>: submission, reading, cancellation, listening.\<close>

record export_params =
  ep_format :: "ustring option"
  ep_download :: "ustring option"
  ep_max_chars_per_line :: "nat option"
  ep_max_words_per_line :: "nat option"
  ep_word_timestamps :: "bool option"
  ep_segments :: "bool option"
  ep_punctuation :: "bool option"
  ep_itn :: "bool option"
  ep_vad :: "bool option"
  ep_hotwords :: "ustring option"
  ep_hotwords_boost :: "rat option"
  ep_variant :: "ustring option"
  ep_channels :: "ustring option"
  ep_diarization :: "bool option"
  ep_codec :: "ustring option"
  ep_sample_rate :: "nat option"

definition default_params :: export_params where
  "default_params = \<lparr>ep_format = None, ep_download = None, ep_max_chars_per_line = None, ep_max_words_per_line = None,
     ep_word_timestamps = None, ep_segments = None, ep_punctuation = None, ep_itn = None, ep_vad = None,
     ep_hotwords = None, ep_hotwords_boost = None, ep_variant = None, ep_channels = None, ep_diarization = None,
     ep_codec = None, ep_sample_rate = None\<rparr>"

text \<open>The error answers of the job API, by their code.\<close>

datatype api_error =
    EmptyBody | PayloadTooLarge | QueueFull | ConflictingModes | Internal
  | NotFound | NotFinished | NotCancellable

definition enqueue :: "string \<Rightarrow> 8 word list \<Rightarrow> 'p \<Rightarrow> 'p sys \<Rightarrow> (store_error + string) \<times> 'p sys" where
  "enqueue uuid b ps s =
     (let (r, st) = store_create (job_queued uuid (now (sworld s)) b ps) (sworld s) (jstore s)
      in (r, s\<lparr>jstore := st, used_ids := uuid # used_ids s\<rparr>))"

definition check_full :: "'p sys \<Rightarrow> bool \<times> 'p sys" where
  "check_full s = (let (full, st) = store_is_full (sworld s) (jstore s) in (full, s\<lparr>jstore := st\<rparr>))"

definition submit_job :: "string \<Rightarrow> 8 word list \<Rightarrow> export_params \<Rightarrow> export_params sys
    \<Rightarrow> (api_error + string) \<times> export_params sys" where
  "submit_job uuid b ps s =
     (if b = [] then (Inl EmptyBody, s)
      else if body_limit s < length b then (Inl PayloadTooLarge, s)
      else
        let (full, s1) = check_full s in
        if full then (Inl QueueFull, s1)
        else if ep_channels ps = Some (lit ''split'') \<and> ep_diarization ps = Some True then (Inl ConflictingModes, s1)
        else
          let (r, s2) = enqueue uuid b ps s1 in
          (case r of Inr k \<Rightarrow> Inr k | Inl JobStoreFull \<Rightarrow> Inl QueueFull | Inl _ \<Rightarrow> Inl Internal, s2))"

definition get_job :: "string \<Rightarrow> 'p sys \<Rightarrow> api_error + status_response" where
  "get_job k s = (case store_status k (sworld s) (jstore s) of Some r \<Rightarrow> Inr r | None \<Rightarrow> Inl NotFound)"

text \<open>The transcript that \<open>get_job_result\<close> renders, with the outcome of the diarization.\<close>

definition get_job_result :: "string \<Rightarrow> 'p sys \<Rightarrow> api_error + transcribe_result \<times> diarization_outcome option" where
  "get_job_result k s =
     (case lookup (jstore s) k of
        None \<Rightarrow> Inl NotFound
      | Some j \<Rightarrow>
          if status j \<noteq> Done then Inl NotFinished
          else case result j of None \<Rightarrow> Inl Internal | Some r \<Rightarrow> Inr (r, diarization j))"

definition cancel_job :: "string \<Rightarrow> 'p sys \<Rightarrow> (api_error + unit) \<times> 'p sys" where
  "cancel_job k s =
     (let (out, w, st) = store_transition k Cancel (sworld s, jstore s) in
      (case out of Applied \<Rightarrow> Inr () | Rejected _ \<Rightarrow> Inl NotCancellable | Missing \<Rightarrow> Inl NotFound,
       s\<lparr>sworld := w, jstore := st\<rparr>))"

definition job_events :: "string \<Rightarrow> nat \<Rightarrow> 'p sys \<Rightarrow> (api_error + nat) \<times> 'p sys" where
  "job_events k c s =
     (let (found, w, st) = store_subscribe k c (sworld s, jstore s) in
      (if found then Inr c else Inl NotFound,
       s\<lparr>sworld := w, jstore := st, used_chans := c # used_chans s\<rparr>))"

definition disconnect :: "nat \<Rightarrow> 'p sys \<Rightarrow> 'p sys" where
  "disconnect c s = s\<lparr>sworld := (sworld s)\<lparr>chans :=
     (chans (sworld s))(c := (chans (sworld s) c)\<lparr>ch_open := False\<rparr>)\<rparr>\<rparr>"

definition elapse :: "rat \<Rightarrow> 'p sys \<Rightarrow> 'p sys" where
  "elapse dt s = s\<lparr>sworld := (sworld s)\<lparr>now := now (sworld s) + dt\<rparr>\<rparr>"

datatype sys_event =
    Next nat | StartJob nat | Get nat | Result nat "run_error + transcribe_result" | Decide nat | Apply nat
  | DrainNext nat | DrainCancel nat | Update string job_update
  | Submit string "8 word list" export_params | CancelJob string | Listen string nat | Disconnect nat | Elapse rat | CheckFull

fun sys_exec :: "sys_event \<Rightarrow> export_params sys \<Rightarrow> export_params sys option" where
  "sys_exec (Next i) s = worker_next i s"
| "sys_exec (StartJob i) s = worker_start i s"
| "sys_exec (Get i) s = worker_get i s"
| "sys_exec (Result i r) s = worker_result i r s"
| "sys_exec (Decide i) s = worker_decide i s"
| "sys_exec (Apply i) s = worker_apply i s"
| "sys_exec (DrainNext i) s = drain_next i s"
| "sys_exec (DrainCancel i) s = drain_cancel i s"
| "sys_exec (Update k u) s = Some (job_update k u s)"
| "sys_exec (Submit k b ps) s = (if k \<in> set (used_ids s) then None else Some (snd (submit_job k b ps s)))"
| "sys_exec (CancelJob k) s = Some (snd (cancel_job k s))"
| "sys_exec (Listen k c) s = (if c \<in> set (used_chans s) then None else Some (snd (job_events k c s)))"
| "sys_exec (Disconnect c) s = Some (disconnect c s)"
| "sys_exec (Elapse dt) s = Some (elapse dt s)"
| "sys_exec CheckFull s = Some (snd (check_full s))"

inductive sys_reach :: "export_params sys \<Rightarrow> export_params sys \<Rightarrow> bool" for s0 where
  sys_init: "sys_reach s0 s0"
| sys_step: "sys_reach s0 s \<Longrightarrow> sys_exec e s = Some s' \<Longrightarrow> sys_reach s0 s'"

fun sys_run :: "sys_event list \<Rightarrow> export_params sys \<Rightarrow> export_params sys option" where
  "sys_run [] s = Some s"
| "sys_run (e # es) s = Option.bind (sys_exec e s) (sys_run es)"

lemma sys_run_reach: "sys_reach s0 s \<Longrightarrow> sys_run es s = Some s' \<Longrightarrow> sys_reach s0 s'"
proof (induction es arbitrary: s)
  case (Cons e es)
  then show ?case by (auto simp: bind_eq_Some_conv intro: sys_step)
qed simp

end
