(* ===== verification/Job_System.thy ===== *)
theory Job_System
  imports Job_Queue
begin

text \<open>
  The invariants of the job system: the data of every job, who owns it, and what its listeners
  have heard. Each part is preserved by the two ways the store changes, eviction and the
  replacement of one job, and every event is an instance of these.
\<close>

section \<open>Ownership\<close>

fun holder :: "worker \<Rightarrow> string option" where
  "holder Idle = None"
| "holder (Claimed k) = Some k"
| "holder (Started k) = Some k"
| "holder (Running k) = Some k"
| "holder (Failing k e) = Some k"
| "holder (Deciding k t) = Some k"
| "holder (Draining k) = Some k"

fun busy_with :: "worker \<Rightarrow> string \<Rightarrow> bool" where
  "busy_with (Started k) k' \<longleftrightarrow> k = k'"
| "busy_with (Running k) k' \<longleftrightarrow> k = k'"
| "busy_with (Failing k e) k' \<longleftrightarrow> k = k'"
| "busy_with (Deciding k t) k' \<longleftrightarrow> k = k'"
| "busy_with _ _ \<longleftrightarrow> False"

fun waits_with :: "worker \<Rightarrow> string \<Rightarrow> bool" where
  "waits_with (Claimed k) k' \<longleftrightarrow> k = k'"
| "waits_with (Draining k) k' \<longleftrightarrow> k = k'"
| "waits_with _ _ \<longleftrightarrow> False"

lemma busy_holder: "busy_with p k \<Longrightarrow> holder p = Some k"
  by (cases p) simp_all

lemma waits_holder: "waits_with p k \<Longrightarrow> holder p = Some k"
  by (cases p) simp_all

text \<open>Every key is in the queue or with a worker at most once.\<close>

definition tickets_ok :: "string list \<Rightarrow> worker list \<Rightarrow> bool" where
  "tickets_ok q ws \<longleftrightarrow> distinct q
     \<and> (\<forall>i < length ws. \<forall>k. holder (ws ! i) = Some k \<longrightarrow> k \<notin> set q)
     \<and> (\<forall>i < length ws. \<forall>m < length ws. \<forall>k. holder (ws ! i) = Some k \<longrightarrow> holder (ws ! m) = Some k \<longrightarrow> i = m)"

text \<open>Every job that is queued or processing has the ticket its status calls for.\<close>

definition job_owned :: "nat \<Rightarrow> string list \<Rightarrow> worker list \<Rightarrow> string \<Rightarrow> 'p job \<Rightarrow> bool" where
  "job_owned R q ws k j \<longleftrightarrow>
     (status j = Queued \<longrightarrow> k \<in> set q \<or> (\<exists>i < length ws. waits_with (ws ! i) k))
     \<and> (status j = Processing \<longrightarrow> (\<exists>i < length ws. busy_with (ws ! i) k))
     \<and> (status j = Processing \<longrightarrow> attempts j \<le> R \<or> (\<forall>i < length ws. ws ! i \<noteq> Deciding k None))"

definition own_ok :: "nat \<Rightarrow> 'p job_store \<Rightarrow> worker list \<Rightarrow> bool" where
  "own_ok R st ws \<longleftrightarrow> tickets_ok (queue st) ws \<and> (\<forall>k j. lookup st k = Some j \<longrightarrow> job_owned R (queue st) ws k j)"

lemma tickets_filter: "tickets_ok q ws \<Longrightarrow> tickets_ok (filter P q) ws"
  by (auto simp: tickets_ok_def)

lemma tickets_suffix: "tickets_ok (xs @ q) ws \<Longrightarrow> tickets_ok q ws"
  by (auto simp: tickets_ok_def)

lemma tickets_goto:
  assumes "tickets_ok q ws" "i < length ws"
    and "\<And>k. holder p = Some k \<Longrightarrow> k \<notin> set q \<and> (\<forall>m < length ws. m \<noteq> i \<longrightarrow> holder (ws ! m) \<noteq> Some k)"
  shows "tickets_ok q (ws[i := p])"
  using assms unfolding tickets_ok_def
  by (auto simp: nth_list_update split: if_splits)

lemma tickets_keep:
  assumes "tickets_ok q ws" "i < length ws" "holder p = None \<or> holder p = holder (ws ! i)"
  shows "tickets_ok q (ws[i := p])"
proof (rule tickets_goto[OF assms(1,2)])
  fix k assume "holder p = Some k"
  then have h: "holder (ws ! i) = Some k" using assms(3) by auto
  show "k \<notin> set q \<and> (\<forall>m < length ws. m \<noteq> i \<longrightarrow> holder (ws ! m) \<noteq> Some k)"
    using assms(1,2) h unfolding tickets_ok_def by blast
qed

text \<open>The worker at \<open>i\<close> takes the first key of the queue.\<close>

lemma tickets_claim:
  assumes "tickets_ok (k # q) ws" "i < length ws" "holder p = Some k"
  shows "tickets_ok q (ws[i := p])"
proof (rule tickets_goto[OF _ assms(2)])
  show "tickets_ok q ws" using tickets_suffix[of "[k]"] assms(1) by simp
  fix k' assume "holder p = Some k'"
  then have "k' = k" using assms(3) by simp
  then show "k' \<notin> set q \<and> (\<forall>m < length ws. m \<noteq> i \<longrightarrow> holder (ws ! m) \<noteq> Some k')"
    using assms(1) unfolding tickets_ok_def by auto
qed

text \<open>The worker at \<open>i\<close> puts its key back.\<close>

lemma tickets_new:
  assumes "tickets_ok q ws" "k \<notin> set q" "\<forall>i < length ws. holder (ws ! i) \<noteq> Some k"
  shows "tickets_ok (q @ [k]) ws"
  using assms unfolding tickets_ok_def by auto

lemma tickets_requeue:
  assumes "tickets_ok q ws" "i < length ws" "holder (ws ! i) = Some k" "holder p = None"
  shows "tickets_ok (q @ [k]) (ws[i := p])"
proof (rule tickets_new)
  show "tickets_ok q (ws[i := p])" using assms by (intro tickets_keep) simp_all
  show "k \<notin> set q" using assms unfolding tickets_ok_def by blast
  have "holder (ws ! m) \<noteq> Some k" if "m < length ws" "m \<noteq> i" for m
    using assms that unfolding tickets_ok_def by blast
  then show "\<forall>m < length (ws[i := p]). holder (ws[i := p] ! m) \<noteq> Some k"
    using assms(2,4) by (auto simp: nth_list_update)
qed

section \<open>What the listeners hear\<close>

definition log_ok :: "job_event list \<Rightarrow> bool" where
  "log_ok l \<longleftrightarrow> (\<forall>e \<in> set (butlast l). \<not> ev_terminal e)"

definition unended :: "world \<Rightarrow> nat \<Rightarrow> bool" where
  "unended w c \<longleftrightarrow> (\<forall>e \<in> set (ch_log (chans w c)). \<not> ev_terminal e)"

definition chan_ok :: "world \<Rightarrow> 'p job_store \<Rightarrow> nat list \<Rightarrow> bool" where
  "chan_ok w st cs \<longleftrightarrow> (\<forall>c. log_ok (ch_log (chans w c))) \<and> (\<forall>c. c \<notin> set cs \<longrightarrow> ch_log (chans w c) = [])
     \<and> (\<forall>k j c. lookup st k = Some j \<longrightarrow> c \<in> set (event_channels j) \<longrightarrow> c \<in> set cs \<and> unended w c)
     \<and> (\<forall>k k' j j' c. lookup st k = Some j \<longrightarrow> lookup st k' = Some j' \<longrightarrow> c \<in> set (event_channels j)
          \<longrightarrow> c \<in> set (event_channels j') \<longrightarrow> k = k')"

lemma unended_log_ok: "unended w c \<Longrightarrow> log_ok (ch_log (chans w c) @ [e])"
  by (simp add: unended_def log_ok_def)

lemma chan_ok_sub:
  assumes "chan_ok w st cs" "\<And>c. ch_log (chans w' c) = ch_log (chans w c)"
    and "\<And>k j. lookup st' k = Some j \<Longrightarrow> event_channels j = [] \<or> (\<exists>j0. lookup st k = Some j0 \<and> set (event_channels j) \<subseteq> set (event_channels j0))"
  shows "chan_ok w' st' cs"
proof -
  have src: "\<exists>j0. lookup st k = Some j0 \<and> c \<in> set (event_channels j0)"
    if "lookup st' k = Some j" "c \<in> set (event_channels j)" for k j c
    using assms(3)[OF that(1)] that(2) by auto
  have q: "unended w' c = unended w c" for c using assms(2) by (simp add: unended_def)
  show ?thesis unfolding chan_ok_def
  proof (intro conjI allI impI)
    fix c show "log_ok (ch_log (chans w' c))" using assms(1,2) by (simp add: chan_ok_def)
  next
    fix c assume "c \<notin> set cs" then show "ch_log (chans w' c) = []" using assms(1,2) by (simp add: chan_ok_def)
  next
    fix k j c assume "lookup st' k = Some j" "c \<in> set (event_channels j)"
    from src[OF this] assms(1) show "c \<in> set cs" "unended w' c" unfolding chan_ok_def q by blast+
  next
    fix k k' j j' c assume a: "lookup st' k = Some j" "lookup st' k' = Some j'"
      "c \<in> set (event_channels j)" "c \<in> set (event_channels j')"
    from src[OF a(1,3)] src[OF a(2,4)] assms(1) show "k = k'" unfolding chan_ok_def by blast
  qed
qed

lemma chan_ok_put:
  assumes "chan_ok w st cs" "lookup st k = Some j" "set (event_channels j') \<subseteq> set (event_channels j)"
    and "\<And>c. ch_log (chans w' c) = ch_log (chans w c)"
  shows "chan_ok w' (put k j' st) cs"
  by (rule chan_ok_sub[OF assms(1,4)]) (use assms(2,3) in \<open>auto simp: lookup_put split: if_splits\<close>)

text \<open>An event to the listeners of one job; after a terminal event it has none.\<close>

lemma chan_ok_deliver:
  assumes ok: "chan_ok w st cs" and j: "lookup st k = Some j"
    and sub: "set (event_channels j') \<subseteq> set (event_channels j)"
    and tm: "ev_terminal e \<Longrightarrow> event_channels j' = []"
    and w': "\<And>c. chans w' c = chans (deliver e (event_channels j) w) c"
  shows "chan_ok w' (put k j' st) cs"
proof -
  let ?E = "event_channels j"
  have log: "ch_log (chans w' c) = (if c \<in> set ?E \<and> ch_open (chans w c) then ch_log (chans w c) @ [e] else ch_log (chans w c))" for c
    by (simp add: w' deliver_log)
  have inE: "c \<in> set cs \<and> unended w c" if "c \<in> set ?E" for c using ok j that unfolding chan_ok_def by blast
  have uniq: "k' = k" if "lookup st k' = Some j1" "c \<in> set (event_channels j1)" "c \<in> set ?E" for k' j1 c
    using ok j that unfolding chan_ok_def by blast
  show ?thesis unfolding chan_ok_def
  proof (intro conjI allI impI)
    fix c show "log_ok (ch_log (chans w' c))"
    proof (cases "c \<in> set ?E")
      case True
      then show ?thesis using inE[OF True] ok by (auto simp: log unended_log_ok chan_ok_def)
    next
      case False
      then show ?thesis using ok by (simp add: log chan_ok_def)
    qed
  next
    fix c assume "c \<notin> set cs"
    then show "ch_log (chans w' c) = []" using ok inE[of c] by (auto simp: log chan_ok_def)
  next
    fix k' j1 c assume a: "lookup (put k j' st) k' = Some j1" "c \<in> set (event_channels j1)"
    show "c \<in> set cs"
    proof (cases "k' = k")
      case True
      then show ?thesis using a sub inE by (auto simp: lookup_put)
    next
      case False
      then show ?thesis using a ok unfolding chan_ok_def lookup_put by (auto split: if_splits)
    qed
    show "unended w' c"
    proof (cases "k' = k")
      case True
      then have c: "c \<in> set (event_channels j')" using a by (simp add: lookup_put)
      then have "\<not> ev_terminal e" "c \<in> set ?E" using tm sub by auto
      then show ?thesis using inE[of c] by (auto simp: unended_def log)
    next
      case False
      then have l: "lookup st k' = Some j1" using a by (simp add: lookup_put)
      then have "c \<notin> set ?E" using uniq[OF l a(2)] False by blast
      moreover have "unended w c" using ok l a(2) unfolding chan_ok_def by blast
      ultimately show ?thesis by (simp add: unended_def log)
    qed
  next
    fix k1 k2 j1 j2 c
    assume a: "lookup (put k j' st) k1 = Some j1" "lookup (put k j' st) k2 = Some j2"
      "c \<in> set (event_channels j1)" "c \<in> set (event_channels j2)"
    have src: "\<exists>j0. lookup st k' = Some j0 \<and> c \<in> set (event_channels j0)"
      if "lookup (put k j' st) k' = Some jj" "c \<in> set (event_channels jj)" for k' jj
      using that j sub by (auto simp: lookup_put split: if_splits)
    from src[OF a(1,3)] src[OF a(2,4)] ok show "k1 = k2" unfolding chan_ok_def by blast
  qed
qed

lemma chan_ok_fresh:
  assumes ok: "chan_ok w st cs" and j: "lookup st k = Some j" and c0: "c0 \<notin> set cs"
    and sub: "set (event_channels j') \<subseteq> insert c0 (set (event_channels j))"
  shows "chan_ok w (put k j' st) (c0 # cs)"
proof -
  have empty: "ch_log (chans w c0) = []" using ok c0 unfolding chan_ok_def by blast
  have q: "c = c0 \<or> (c \<in> set cs \<and> unended w c)" if "lookup (put k j' st) k' = Some jj" "c \<in> set (event_channels jj)" for k' jj c
    using that ok j sub unfolding lookup_put chan_ok_def by (fastforce split: if_splits)
  have only: "k' = k" if "lookup (put k j' st) k' = Some jj" "c0 \<in> set (event_channels jj)" for k' jj
    using that ok c0 unfolding lookup_put chan_ok_def by (fastforce split: if_splits)
  have src: "\<exists>j0. lookup st k' = Some j0 \<and> c \<in> set (event_channels j0)"
    if "lookup (put k j' st) k' = Some jj" "c \<in> set (event_channels jj)" "c \<noteq> c0" for k' jj c
    using that j sub by (auto simp: lookup_put split: if_splits)
  show ?thesis unfolding chan_ok_def
  proof (intro conjI allI impI)
    fix c show "log_ok (ch_log (chans w c))" using ok by (simp add: chan_ok_def)
  next
    fix c assume "c \<notin> set (c0 # cs)" then show "ch_log (chans w c) = []" using ok by (simp add: chan_ok_def)
  next
    fix k' jj c assume "lookup (put k j' st) k' = Some jj" "c \<in> set (event_channels jj)"
    from q[OF this] empty show "c \<in> set (c0 # cs)" "unended w c" by (auto simp: unended_def)
  next
    fix k1 k2 j1 j2 c
    assume a: "lookup (put k j' st) k1 = Some j1" "lookup (put k j' st) k2 = Some j2"
      "c \<in> set (event_channels j1)" "c \<in> set (event_channels j2)"
    show "k1 = k2"
    proof (cases "c = c0")
      case True
      then show ?thesis using only a by blast
    next
      case False
      from src[OF a(1,3) False] src[OF a(2,4) False] ok show ?thesis unfolding chan_ok_def by blast
    qed
  qed
qed

lemma chan_ok_late:
  assumes "chan_ok w st cs" "c0 \<notin> set cs"
  shows "chan_ok (deliver e [c0] w) st (c0 # cs)"
proof -
  have empty: "ch_log (chans w c0) = []" using assms unfolding chan_ok_def by blast
  have "unended (deliver e [c0] w) c" if "unended w c" "c \<in> set cs" for c
    using that assms(2) by (auto simp: unended_def deliver_log)
  then show ?thesis using assms(1) unfolding chan_ok_def
    by (auto simp: deliver_log log_ok_def empty)
qed

section \<open>Ownership under the events\<close>

lemma job_owned_terminal [simp]: "is_terminal (status j) \<Longrightarrow> job_owned R q ws k j"
  by (auto simp: job_owned_def)

lemma own_waits_status:
  assumes "own_ok R st ws" "i < length ws" "waits_with (ws ! i) k" "lookup st k = Some j"
  shows "status j \<noteq> Processing"
proof
  assume "status j = Processing"
  then obtain m where m: "m < length ws" "busy_with (ws ! m) k"
    using assms(1,4) unfolding own_ok_def job_owned_def by blast
  have "i = m" using assms(1,2) m waits_holder[OF assms(3)] busy_holder[OF m(2)]
    unfolding own_ok_def tickets_ok_def by blast
  then show False using assms(3) m(2) by (cases "ws ! i") simp_all
qed

lemma own_busy_status:
  assumes "own_ok R st ws" "i < length ws" "busy_with (ws ! i) k" "lookup st k = Some j"
  shows "status j \<noteq> Queued"
proof
  assume q: "status j = Queued"
  have "k \<notin> set (queue st)" using assms(1,2) busy_holder[OF assms(3)]
    unfolding own_ok_def tickets_ok_def by blast
  then obtain m where m: "m < length ws" "waits_with (ws ! m) k"
    using assms(1,4) q unfolding own_ok_def job_owned_def by blast
  have "i = m" using assms(1,2) m busy_holder[OF assms(3)] waits_holder[OF m(2)]
    unfolding own_ok_def tickets_ok_def by blast
  then show False using assms(3) m(2) by (cases "ws ! i") simp_all
qed

lemma own_tickets: "own_ok R st ws \<Longrightarrow> tickets_ok (queue st) ws"
  by (simp add: own_ok_def)

lemma own_shrink:
  assumes "own_ok R st ws" "tickets_ok (queue st') ws"
    and "\<And>k j. lookup st' k = Some j \<Longrightarrow> lookup st k = Some j \<and> (status j = Queued \<longrightarrow> k \<in> set (queue st) \<longrightarrow> k \<in> set (queue st'))"
  shows "own_ok R st' ws"
proof -
  have "job_owned R (queue st') ws k j" if "lookup st' k = Some j" for k j
  proof -
    from assms(3)[OF that] have "lookup st k = Some j" "status j = Queued \<Longrightarrow> k \<in> set (queue st) \<Longrightarrow> k \<in> set (queue st')" by blast+
    then show ?thesis using assms(1) unfolding own_ok_def job_owned_def by blast
  qed
  with assms(2) show ?thesis unfolding own_ok_def by blast
qed

lemma own_evict:
  assumes "own_ok R st ws" "keys_ok st"
  shows "own_ok R (evict_expired w st) ws"
proof (rule own_shrink[OF assms(1)])
  show "tickets_ok (queue (evict_expired w st)) ws"
    using own_tickets[OF assms(1)] by (simp add: evict_expired_result[OF assms(2)] tickets_filter)
  show "lookup st k = Some j \<and> (status j = Queued \<longrightarrow> k \<in> set (queue st) \<longrightarrow> k \<in> set (queue (evict_expired w st)))"
    if "lookup (evict_expired w st) k = Some j" for k j
    using that by (auto simp: evict_expired_result[OF assms(2)] split: if_splits)
qed

lemma own_put:
  assumes "own_ok R st ws" "job_owned R (queue st) ws k j'"
  shows "own_ok R (put k j' st) ws"
  using assms by (auto simp: own_ok_def lookup_put)

lemma own_change:
  assumes own: "own_ok R st ws" and i: "i < length ws"
    and tick: "tickets_ok (queue st') (ws[i := p])"
    and lk: "\<And>k' j. k' \<noteq> k \<Longrightarrow> lookup st' k' = Some j \<Longrightarrow> lookup st k' = Some j
        \<and> (status j = Queued \<longrightarrow> k' \<in> set (queue st) \<longrightarrow> k' \<in> set (queue st'))"
    and old: "holder (ws ! i) = None \<or> holder (ws ! i) = Some k" and new: "holder p = None \<or> holder p = Some k"
    and self: "\<And>j. lookup st' k = Some j \<Longrightarrow> job_owned R (queue st') (ws[i := p]) k j"
  shows "own_ok R st' (ws[i := p])"
proof -
  have "job_owned R (queue st') (ws[i := p]) k' j" if l: "lookup st' k' = Some j" for k' j
  proof (cases "k' = k")
    case True
    then show ?thesis using self l by simp
  next
    case False
    from lk[OF False l] have o: "job_owned R (queue st) ws k' j"
      and q: "status j = Queued \<Longrightarrow> k' \<in> set (queue st) \<Longrightarrow> k' \<in> set (queue st')"
      using own unfolding own_ok_def by blast+
    have w: "\<exists>m < length (ws[i := p]). waits_with (ws[i := p] ! m) k'" if "m < length ws" "waits_with (ws ! m) k'" for m
      using that old False waits_holder[of "ws ! m" k'] by (intro exI[of _ m]; cases "m = i") auto
    have b: "\<exists>m < length (ws[i := p]). busy_with (ws[i := p] ! m) k'" if "m < length ws" "busy_with (ws ! m) k'" for m
      using that old False busy_holder[of "ws ! m" k'] by (intro exI[of _ m]; cases "m = i") auto
    have d: "ws[i := p] ! m \<noteq> Deciding k' None" if "m < length ws" "ws ! m \<noteq> Deciding k' None" for m
      using that new False by (cases "m = i") auto
    show ?thesis using o q w b d unfolding job_owned_def by (metis length_list_update)
  qed
  with tick show ?thesis unfolding own_ok_def by blast
qed

lemma own_new:
  assumes "own_ok R st ws" "k \<notin> set (queue st)" "\<forall>i < length ws. holder (ws ! i) \<noteq> Some k" "status j = Queued"
  shows "own_ok R ((put k j st)\<lparr>queue := queue st @ [k]\<rparr>) ws"
proof -
  have "job_owned R (queue st @ [k]) ws k' j'" if "lookup (put k j st) k' = Some j'" for k' j'
  proof (cases "k' = k")
    case True
    then show ?thesis using that assms(4) by (simp add: lookup_put job_owned_def)
  next
    case False
    then have "job_owned R (queue st) ws k' j'" using that assms(1) by (simp add: lookup_put own_ok_def)
    then show ?thesis by (auto simp: job_owned_def)
  qed
  then show ?thesis using tickets_new[OF own_tickets[OF assms(1)] assms(2,3)] by (simp add: own_ok_def)
qed

section \<open>The invariant of the system\<close>

definition data_ok :: "nat \<Rightarrow> nat \<Rightarrow> 'p job_store \<Rightarrow> bool" where
  "data_ok R L st \<longleftrightarrow> keys_ok st \<and> (\<forall>k j. lookup st k = Some j \<longrightarrow> job_ok R j)
     \<and> length (jobs st) \<le> jobs_max (limits st) \<and> resident_body_bytes st \<le> jobs_max_bytes (limits st) + L"

definition ids_ok :: "'p job_store \<Rightarrow> worker list \<Rightarrow> string list \<Rightarrow> bool" where
  "ids_ok st ws ids \<longleftrightarrow> (\<forall>k j. lookup st k = Some j \<longrightarrow> k \<in> set ids) \<and> set (queue st) \<subseteq> set ids
     \<and> (\<forall>i < length ws. \<forall>k. holder (ws ! i) = Some k \<longrightarrow> k \<in> set ids)"

definition sys_ok :: "'p sys \<Rightarrow> bool" where
  "sys_ok s \<longleftrightarrow> data_ok (max_retries s) (body_limit s) (jstore s) \<and> own_ok (max_retries s) (jstore s) (workers s)
     \<and> chan_ok (sworld s) (jstore s) (used_chans s) \<and> ids_ok (jstore s) (workers s) (used_ids s)"

lemma data_ok_evict: "data_ok R L st \<Longrightarrow> data_ok R L (evict_expired w st)"
  using evict_shrinks[of w st]
  by (auto simp: data_ok_def keys_ok_evict evict_expired_result split: if_splits)

lemma data_ok_queue [simp]: "data_ok R L (st\<lparr>queue := q\<rparr>) = data_ok R L st"
  by (simp add: data_ok_def resident_body_bytes_def)

lemma data_ok_put:
  assumes "data_ok R L st" "lookup st k = Some j" "job_ok R j'" "job_step j j'"
  shows "data_ok R L (put k j' st)"
proof -
  have "job_id j' = k" "length (body j') \<le> length (body j)" using assms by (auto simp: data_ok_def keys_ok_def job_step_def)
  then show ?thesis using assms resident_put[of st k j j'] length_put[OF assms(2)]
    by (auto simp: data_ok_def keys_ok_put lookup_put)
qed

lemma ids_ok_sub:
  assumes "ids_ok st ws ids" "\<And>k j. lookup st' k = Some j \<Longrightarrow> lookup st k \<noteq> None \<or> k \<in> set ids" "set (queue st') \<subseteq> set ids"
  shows "ids_ok st' ws ids"
  using assms unfolding ids_ok_def by blast

lemma ids_ok_goto:
  "ids_ok st ws ids \<Longrightarrow> i < length ws \<Longrightarrow> holder p = None \<or> (\<exists>k \<in> set ids. holder p = Some k) \<Longrightarrow> ids_ok st (ws[i := p]) ids"
  by (auto simp: ids_ok_def nth_list_update)

lemma sys_ok_evict:
  assumes "sys_ok s"
  shows "sys_ok (s\<lparr>jstore := evict_expired w (jstore s)\<rparr>)"
proof -
  have k: "keys_ok (jstore s)" using assms by (simp add: sys_ok_def data_ok_def)
  note ev = evict_expired_result[OF k]
  have "chan_ok (sworld s) (evict_expired w (jstore s)) (used_chans s)"
    by (rule chan_ok_sub[of _ "jstore s"]) (use assms in \<open>auto simp: sys_ok_def ev split: if_splits\<close>)
  moreover have "ids_ok (evict_expired w (jstore s)) (workers s) (used_ids s)"
    by (rule ids_ok_sub[of "jstore s"]) (use assms in \<open>auto simp: sys_ok_def ids_ok_def ev split: if_splits\<close>)
  ultimately show ?thesis using assms own_evict[OF _ k] data_ok_evict by (auto simp: sys_ok_def)
qed

section \<open>Transitions in the system\<close>

lemma store_transition_cases:
  obtains (missing) "lookup st k = None" "store_transition k t (w, st) = (Missing, w, st)"
  | (rejected) j where "lookup st k = Some j" "\<not> transition_allowed t (status j)"
      "store_transition k t (w, st) = (Rejected (status j), w, put k j st)"
  | (applied) j j' w' where "lookup st k = Some j" "transition_allowed t (status j)"
      "transition t (j, w) = (Applied, j', w')"
      "store_transition k t (w, st)
         = (Applied, w', if t = Retry then (put k j' st)\<lparr>queue := queue st @ [k]\<rparr> else put k j' st)"
proof (cases "lookup st k")
  case None
  then show ?thesis by (intro missing) (simp_all add: store_transition_def)
next
  case (Some j)
  obtain out j' w' where t: "transition t (j, w) = (out, j', w')" by (metis prod_cases3)
  show ?thesis
  proof (cases "transition_allowed t (status j)")
    case True
    then have "out = Applied" using transition_status(3)[OF t] by simp
    then show ?thesis using Some True t by (intro applied[of j j' w']) (simp_all add: store_transition_def)
  next
    case False
    then show ?thesis using Some by (intro rejected[of j]) (simp_all add: store_transition_def transition_result)
  qed
qed

lemma transition_channels:
  assumes "job_ok R j" "chan_ok w st cs" "lookup st k = Some j" "transition t (j, w) = (Applied, j', w')"
    and "transition_allowed t (status j)"
  shows "chan_ok w' (put k j' st) cs"
proof (rule chan_ok_deliver[OF assms(2,3)])
  note r = transition_Applied[OF assms(1,5), of w]
  have j': "event_channels j' = (if is_terminal (after_status t) then [] else filter (\<lambda>c. ch_open (chans w c)) (event_channels j))"
    using assms(4) r by auto
  show "set (event_channels j') \<subseteq> set (event_channels j)" by (auto simp: j')
  show "chans w' c = chans (deliver (moved_event (fst (moved t (j, w)))) (event_channels j) w) c" for c
    using assms(4) r by (auto simp: deliver_def)
  show "event_channels j' = []" if "ev_terminal (moved_event (fst (moved t (j, w))))"
    using that moved_event_terminal[of "fst (moved t (j, w))"] by (simp add: j')
qed

lemma sys_ok_parts:
  assumes "sys_ok s"
  shows "data_ok (max_retries s) (body_limit s) (jstore s)" "own_ok (max_retries s) (jstore s) (workers s)"
    "chan_ok (sworld s) (jstore s) (used_chans s)" "ids_ok (jstore s) (workers s) (used_ids s)"
    "lookup (jstore s) k = Some j \<Longrightarrow> job_ok (max_retries s) j"
  using assms by (auto simp: sys_ok_def data_ok_def)

text \<open>A worker that holds \<open>k\<close> applies a transition to it and moves on to \<open>f out\<close>.\<close>

lemma sys_ok_transition:
  assumes ok: "sys_ok s" and i: "i < length (workers s)" and h: "holder (workers s ! i) = Some k"
    and retry: "\<And>j. t = Retry \<Longrightarrow> lookup (jstore s) k = Some j \<Longrightarrow> status j = Processing \<Longrightarrow> attempts j \<le> max_retries s"
    and rej: "\<And>j. lookup (jstore s) k = Some j \<Longrightarrow> \<not> transition_allowed t (status j) \<Longrightarrow> is_terminal (status j)"
    and idle: "\<And>out. out \<noteq> Applied \<Longrightarrow> f out = Idle"
    and move: "if t = Start then f Applied = Started k else f Applied = Idle"
  shows "sys_ok (with_transition k t (\<lambda>out. goto i (f out)) s)"
proof -
  let ?R = "max_retries s" and ?ws = "workers s" and ?st = "jstore s"
  note P = sys_ok_parts[OF ok]
  have kid: "k \<in> set (used_ids s)" using P(4) i h unfolding ids_ok_def by blast
  have fin: "sys_ok (with_transition k t (\<lambda>out. goto i (f out)) s)"
    if "store_transition k t (sworld s, ?st) = (out, w', st')" "data_ok ?R (body_limit s) st'"
      "chan_ok w' st' (used_chans s)" "own_ok ?R st' (?ws[i := f out])" "set (queue st') \<subseteq> set (queue ?st) \<union> {k}"
      "\<And>k' j. lookup st' k' = Some j \<Longrightarrow> lookup ?st k' \<noteq> None" "holder (f out) = None \<or> holder (f out) = Some k" for out w' st'
  proof -
    have "ids_ok st' ?ws (used_ids s)"
      by (rule ids_ok_sub[OF P(4)]) (use that(5,6) kid P(4) in \<open>auto simp: ids_ok_def\<close>)
    then have "ids_ok st' (?ws[i := f out]) (used_ids s)" using i that(7) kid by (intro ids_ok_goto) auto
    then show ?thesis using that by (simp add: with_transition_def goto_def sys_ok_def)
  qed
  have leave: "own_ok ?R st' (?ws[i := Idle])"
    if "queue st' = queue ?st" "\<And>k' j. k' \<noteq> k \<Longrightarrow> lookup st' k' = Some j \<Longrightarrow> lookup ?st k' = Some j"
      "\<And>j. lookup st' k = Some j \<Longrightarrow> is_terminal (status j)" for st'
    by (rule own_change[OF P(2) i, of _ _ k])
      (use that h own_tickets[OF P(2)] i in \<open>auto intro: tickets_keep\<close>)
  show ?thesis
  proof (cases rule: store_transition_cases[of ?st k t "sworld s"])
    case missing
    show ?thesis
      by (rule fin[OF missing(2) P(1,3)]) (use leave[of ?st] missing idle[of Missing] in auto)
  next
    case (rejected j)
    have s: "job_ok ?R j" "is_terminal (status j)" using P(5) rej rejected by blast+
    have c: "chan_ok (sworld s) (put k j ?st) (used_chans s)" by (rule chan_ok_put[OF P(3) rejected(1)]) simp_all
    show ?thesis
      by (rule fin[OF rejected(3) data_ok_put[OF P(1) rejected(1) s(1) job_step_refl] c])
        (use leave[of "put k j ?st"] idle[of "Rejected (status j)"] s(2) rejected(1) in \<open>auto simp: lookup_put split: if_splits\<close>)
  next
    case (applied j j' w')
    have jo: "job_ok ?R j" using P(5) applied(1) by blast
    have "job_ok ?R j' \<and> job_step j j'" by (rule transition_ok[OF jo _ applied(3)]) (use retry applied(1) in blast)
    then have d: "data_ok ?R (body_limit s) (put k j' ?st)" using data_ok_put[OF P(1) applied(1)] by blast
    have c: "chan_ok w' (put k j' ?st) (used_chans s)" by (rule transition_channels[OF jo P(3) applied(1,3,2)])
    have st: "status j' = after_status t" using transition_status(1)[OF applied(3)] by simp
    consider (start) "t = Start" | (retry) "t = Retry" | (tm) "is_terminal (after_status t)" "t \<noteq> Start" "t \<noteq> Retry"
      by (cases t) (simp_all add: after_status_def)
    then show ?thesis
    proof cases
      case start
      have "own_ok ?R (put k j' ?st) (?ws[i := Started k])"
      proof (rule own_change[OF P(2) i, of _ _ k])
        show "tickets_ok (queue (put k j' ?st)) (?ws[i := Started k])"
          using own_tickets[OF P(2)] i h by (simp add: tickets_keep)
        have n: "?ws[i := Started k] ! m \<noteq> Deciding k None" if "m < length ?ws" for m
        proof
          assume "?ws[i := Started k] ! m = Deciding k None"
          then have "m \<noteq> i" "holder (?ws ! m) = Some k" using i by (cases "m = i"; auto)+
          then show False using own_tickets[OF P(2)] i h that unfolding tickets_ok_def by blast
        qed
        show "job_owned ?R (queue (put k j' ?st)) (?ws[i := Started k]) k jj" if "lookup (put k j' ?st) k = Some jj" for jj
          using that st start n i by (auto simp: lookup_put job_owned_def after_status_def intro!: exI[of _ i])
      qed (use h in \<open>auto simp: lookup_put\<close>)
      then show ?thesis using start move applied(4) d c
        by (intro fin[of Applied w' "put k j' ?st"]) (use applied(1) in \<open>auto simp: lookup_put split: if_splits\<close>)
    next
      case retry
      let ?st' = "(put k j' ?st)\<lparr>queue := queue ?st @ [k]\<rparr>"
      have "own_ok ?R ?st' (?ws[i := Idle])"
      proof (rule own_change[OF P(2) i, of _ _ k])
        show "tickets_ok (queue ?st') (?ws[i := Idle])"
          using tickets_requeue[OF own_tickets[OF P(2)] i h, of Idle] by simp
        show "job_owned ?R (queue ?st') (?ws[i := Idle]) k jj" if "lookup ?st' k = Some jj" for jj
          using that st retry by (auto simp: lookup_put job_owned_def after_status_def)
      qed (use h in \<open>auto simp: lookup_put\<close>)
      moreover have "chan_ok w' ?st' (used_chans s)" using c by (simp add: chan_ok_def)
      ultimately show ?thesis using retry move applied(4) d
        by (intro fin[of Applied w' ?st']) (use applied(1) in \<open>auto simp: lookup_put split: if_splits\<close>)
    next
      case tm
      then show ?thesis using move applied(4) d c leave[of "put k j' ?st"] st
        by (intro fin[of Applied w' "put k j' ?st"]) (use applied(1) in \<open>auto simp: lookup_put split: if_splits\<close>)
    qed
  qed
qed

text \<open>A client's cancellation, with no worker involved.\<close>

lemma sys_ok_cancel:
  assumes ok: "sys_ok s"
  shows "sys_ok (snd (cancel_job k s))"
proof -
  let ?R = "max_retries s" and ?ws = "workers s" and ?st = "jstore s"
  note P = sys_ok_parts[OF ok]
  have ids: "ids_ok (put k j ?st) ?ws (used_ids s)" if "lookup ?st k \<noteq> None" for j
    by (rule ids_ok_sub[OF P(4)]) (use that P(4) in \<open>auto simp: ids_ok_def lookup_put split: if_splits\<close>)
  show ?thesis
  proof (cases rule: store_transition_cases[of ?st k Cancel "sworld s"])
    case missing
    then show ?thesis using ok by (simp add: cancel_job_def)
  next
    case (rejected j)
    have "own_ok ?R (put k j ?st) ?ws" using rejected(2) by (intro own_put[OF P(2)]) (simp add: transition_allowed_def)
    moreover have "chan_ok (sworld s) (put k j ?st) (used_chans s)" by (rule chan_ok_put[OF P(3) rejected(1)]) simp_all
    ultimately show ?thesis using rejected ids data_ok_put[OF P(1) rejected(1) P(5)[OF rejected(1)] job_step_refl]
      by (simp add: cancel_job_def sys_ok_def)
  next
    case (applied j j' w')
    have jo: "job_ok ?R j" using P(5) applied(1) by blast
    have "job_ok ?R j' \<and> job_step j j'" by (rule transition_ok[OF jo _ applied(3)]) simp
    then have d: "data_ok ?R (body_limit s) (put k j' ?st)" using data_ok_put[OF P(1) applied(1)] by blast
    have "is_terminal (status j')" using transition_status(1)[OF applied(3)] by (simp add: after_status_def)
    then have "own_ok ?R (put k j' ?st) ?ws" by (intro own_put[OF P(2)]) simp
    moreover have "chan_ok w' (put k j' ?st) (used_chans s)" by (rule transition_channels[OF jo P(3) applied(1,3,2)])
    ultimately show ?thesis using applied ids d by (simp add: cancel_job_def sys_ok_def)
  qed
qed

section \<open>The other events\<close>

lemma dropWhile_split: "dropWhile P xs = y # ys \<Longrightarrow> \<exists>pre. xs = pre @ y # ys \<and> (\<forall>x \<in> set pre. P x) \<and> \<not> P y"
  by (metis hd_dropWhile list.distinct(1) list.sel(1) set_takeWhileD takeWhile_dropWhile_id)

lemma sys_ok_pop:
  assumes ok: "sys_ok s" and i: "i < length (workers s)" and idle: "workers s ! i = Idle"
    and pop: "pop_queued (jstore s) (queue (jstore s)) = (r, q)"
    and P: "\<And>k. holder (P k) = Some k" "\<And>k. waits_with (P k) k"
  shows "sys_ok (goto i (case r of Some k \<Rightarrow> P k | None \<Rightarrow> Idle) (s\<lparr>jstore := (jstore s)\<lparr>queue := q\<rparr>\<rparr>))"
proof -
  let ?st = "jstore s" and ?ws = "workers s" and ?R = "max_retries s"
  note O = sys_ok_parts[OF ok]
  let ?d = "dropWhile (\<lambda>k. \<not> is_queued ?st k) (queue ?st)"
  have c: "chan_ok (sworld s) (?st\<lparr>queue := q\<rparr>) (used_chans s)" using O(3) by (simp add: chan_ok_def)
  have ids: "ids_ok (?st\<lparr>queue := q\<rparr>) ?ws (used_ids s)" if "set q \<subseteq> set (queue ?st)"
    by (rule ids_ok_sub[OF O(4)]) (use that O(4) in \<open>auto simp: ids_ok_def\<close>)
  show ?thesis
  proof (cases ?d)
    case Nil
    then have r: "r = None" "q = []" using pop[unfolded pop_queued_result Nil] by simp_all
    have nq: "\<not> is_queued ?st k" if "k \<in> set (queue ?st)" for k using Nil that by (simp add: dropWhile_eq_Nil_conv)
    have own: "own_ok ?R (?st\<lparr>queue := []\<rparr>) ?ws"
    proof (rule own_shrink[OF O(2)])
      show "tickets_ok (queue (?st\<lparr>queue := []\<rparr>)) ?ws" using own_tickets[OF O(2)] by (simp add: tickets_ok_def)
      fix k j assume "lookup (?st\<lparr>queue := []\<rparr>) k = Some j"
      then have l: "lookup ?st k = Some j" by simp
      show "lookup ?st k = Some j \<and> (status j = Queued \<longrightarrow> k \<in> set (queue ?st) \<longrightarrow> k \<in> set (queue (?st\<lparr>queue := []\<rparr>)))"
        using l nq[of k] by (auto simp: is_queued_def)
    qed
    show ?thesis using own c ids r O idle by (simp add: sys_ok_def goto_def) (metis list_update_id)
  next
    case (Cons k ks)
    then have r: "r = Some k" "q = ks" using pop[unfolded pop_queued_result Cons] by simp_all
    from dropWhile_split[OF Cons] obtain pre where pre: "queue ?st = pre @ k # ks" "\<forall>x \<in> set pre. \<not> is_queued ?st x"
      "is_queued ?st k" by auto
    have t: "tickets_ok (k # ks) ?ws" using tickets_suffix own_tickets[OF O(2)] pre(1) by metis
    have own: "own_ok ?R (?st\<lparr>queue := ks\<rparr>) (?ws[i := P k])"
    proof (rule own_change[OF O(2) i, of _ _ k])
      show "tickets_ok (queue (?st\<lparr>queue := ks\<rparr>)) (?ws[i := P k])" using tickets_claim[OF t i, of "P k"] P by simp
      show "job_owned ?R (queue (?st\<lparr>queue := ks\<rparr>)) (?ws[i := P k]) k j" if "lookup (?st\<lparr>queue := ks\<rparr>) k = Some j" for j
        using that pre(3) P i by (auto simp: job_owned_def is_queued_def intro!: exI[of _ i])
    qed (use pre P idle in \<open>auto simp: is_queued_def\<close>)
    have "k \<in> set (used_ids s)" using O(4) pre(1) by (auto simp: ids_ok_def)
    then have "ids_ok (?st\<lparr>queue := ks\<rparr>) (?ws[i := P k]) (used_ids s)"
      using ids pre(1) r P i by (intro ids_ok_goto) auto
    then show ?thesis using own c r O by (simp add: sys_ok_def goto_def)
  qed
qed

lemma sys_ok_next:
  assumes "sys_ok s" "worker_at s i = Some Idle" "store_next_queued (sworld s) (jstore s) = (r, st)"
    and "\<And>k. holder (P k) = Some k" "\<And>k. waits_with (P k) k"
  shows "sys_ok (goto i (case r of Some k \<Rightarrow> P k | None \<Rightarrow> Idle) (s\<lparr>jstore := st\<rparr>))"
proof -
  let ?s = "s\<lparr>jstore := evict_expired (sworld s) (jstore s)\<rparr>"
  obtain q where q: "pop_queued (jstore ?s) (queue (jstore ?s)) = (r, q)" "st = (jstore ?s)\<lparr>queue := q\<rparr>"
    using assms(3) by (auto simp: store_next_queued_def Let_def split: prod.splits)
  have "i < length (workers ?s)" "workers ?s ! i = Idle"
    using assms(2) by (auto simp: worker_at_def split: if_splits)
  from sys_ok_pop[OF sys_ok_evict[OF assms(1)] this q(1) assms(4,5)] show ?thesis by (simp add: q(2))
qed

lemma goto_same_holder:
  assumes ok: "sys_ok s" and i: "i < length (workers s)" and h: "holder (workers s ! i) = Some k" "holder p = Some k \<or> holder p = None"
    and self: "\<And>j. lookup (jstore s) k = Some j \<Longrightarrow> job_owned (max_retries s) (queue (jstore s)) ((workers s)[i := p]) k j"
  shows "sys_ok (goto i p s)"
proof -
  note O = sys_ok_parts[OF ok]
  have "own_ok (max_retries s) (jstore s) ((workers s)[i := p])"
    by (rule own_change[OF O(2) i, of _ _ k])
      (use h self own_tickets[OF O(2)] i in \<open>auto intro: tickets_keep\<close>)
  moreover have "k \<in> set (used_ids s)" using O(4) i h(1) unfolding ids_ok_def by blast
  then have "ids_ok (jstore s) ((workers s)[i := p]) (used_ids s)" using ids_ok_goto[OF O(4) i] h(2) by auto
  ultimately show ?thesis using O by (simp add: sys_ok_def goto_def)
qed

text \<open>A worker that is busy with a job stays the owner when it moves to another busy phase.\<close>

lemma busy_self:
  assumes ok: "sys_ok s" and i: "i < length (workers s)" and b: "busy_with (workers s ! i) k"
    and p: "busy_with p k" "p = Deciding k None \<Longrightarrow> (\<forall>j. lookup (jstore s) k = Some j \<longrightarrow> attempts j \<le> max_retries s)"
    and j: "lookup (jstore s) k = Some j"
  shows "job_owned (max_retries s) (queue (jstore s)) ((workers s)[i := p]) k j"
proof -
  note O = sys_ok_parts[OF ok]
  have "status j \<noteq> Queued" by (rule own_busy_status[OF O(2) i b j])
  moreover have "(workers s)[i := p] ! m \<noteq> Deciding k None" if "m < length (workers s)" "\<not> attempts j \<le> max_retries s" for m
  proof
    assume d: "(workers s)[i := p] ! m = Deciding k None"
    show False
    proof (cases "m = i")
      case True
      then show False using d i p(2) j that(2) by auto
    next
      case False
      then have "holder (workers s ! m) = Some k" using d by simp
      then show False using own_tickets[OF O(2)] False i that(1) busy_holder[OF b] unfolding tickets_ok_def by blast
    qed
  qed
  ultimately show ?thesis using i p(1) by (auto simp: job_owned_def intro!: exI[of _ i])
qed

lemma worker_at_Some: "worker_at s i = Some p \<longleftrightarrow> i < length (workers s) \<and> workers s ! i = p"
  by (auto simp: worker_at_def)

lemma sys_ok_start:
  assumes ok: "sys_ok s" and e: "worker_start i s = Some s'"
  shows "sys_ok s'"
proof -
  from e obtain k where w: "i < length (workers s)" "workers s ! i = Claimed k"
    and s': "s' = with_transition k Start (\<lambda>out. goto i (if out = Applied then Started k else Idle)) s"
    by (auto simp: worker_start_def worker_at_Some split: option.splits worker.splits)
  show ?thesis unfolding s'
  proof (rule sys_ok_transition[OF ok w(1)])
    fix j assume "lookup (jstore s) k = Some j" "\<not> transition_allowed Start (status j)"
    then show "is_terminal (status j)"
      using own_waits_status[OF sys_ok_parts(2)[OF ok] w(1), of k j] w(2)
      by (cases "status j") (auto simp: transition_allowed_def)
  qed (use w in auto)
qed

lemma busy_rejected:
  assumes "sys_ok s" "i < length (workers s)" "busy_with (workers s ! i) k" "lookup (jstore s) k = Some j"
    and "\<not> transition_allowed t (status j)" "t \<noteq> Start" "t \<noteq> Cancel"
  shows "is_terminal (status j)"
  using own_busy_status[OF sys_ok_parts(2)[OF assms(1)] assms(2,3,4)] assms(5-7)
  by (cases "status j"; cases t) (auto simp: transition_allowed_def)

lemma sys_ok_get:
  assumes ok: "sys_ok s" and e: "worker_get i s = Some s'"
  shows "sys_ok s'"
proof -
  from e obtain k where w: "i < length (workers s)" "workers s ! i = Started k"
    and s': "s' = goto i (case lookup (jstore s) k of Some j \<Rightarrow> if status j = Processing then Running k else Idle | None \<Rightarrow> Idle) s"
    by (auto simp: worker_get_def worker_at_Some split: option.splits worker.splits)
  show ?thesis unfolding s'
  proof (rule goto_same_holder[OF ok w(1)])
    fix j assume j: "lookup (jstore s) k = Some j"
    show "job_owned (max_retries s) (queue (jstore s)) ((workers s)[i := case lookup (jstore s) k of
        Some j \<Rightarrow> if status j = Processing then Running k else Idle | None \<Rightarrow> Idle]) k j"
    proof (cases "status j = Processing")
      case True
      then show ?thesis using busy_self[OF ok w(1), of k "Running k" j] w(2) j by simp
    next
      case False
      have "status j \<noteq> Queued" using own_busy_status[OF sys_ok_parts(2)[OF ok] w(1) _ j] w(2) by simp
      then show ?thesis using False by (intro job_owned_terminal) (cases "status j"; simp)
    qed
  qed (use w in \<open>auto split: option.splits\<close>)
qed

lemma sys_ok_result:
  assumes ok: "sys_ok s" and e: "worker_result i r s = Some s'"
  shows "sys_ok s'"
proof -
  from e obtain k where w: "i < length (workers s)" "workers s ! i = Running k"
    and s': "s' = (case r of Inr r \<Rightarrow> with_transition k (Complete r) (\<lambda>_. goto i Idle) s | Inl e \<Rightarrow> goto i (Failing k e) s)"
    by (auto simp: worker_result_def worker_at_Some split: option.splits worker.splits)
  show ?thesis
  proof (cases r)
    case (Inr x)
    have "sys_ok (with_transition k (Complete x) (\<lambda>out. goto i ((\<lambda>_. Idle) out)) s)"
      by (rule sys_ok_transition[OF ok w(1)])
        (use w busy_rejected[OF ok w(1)] in auto)
    then show ?thesis by (simp add: s' Inr)
  next
    case (Inl x)
    have "sys_ok (goto i (Failing k x) s)"
      by (rule goto_same_holder[OF ok w(1)]) (use w busy_self[OF ok w(1), of k "Failing k x"] in auto)
    then show ?thesis by (simp add: s' Inl)
  qed
qed

lemma sys_ok_decide:
  assumes ok: "sys_ok s" and e: "worker_decide i s = Some s'"
  shows "sys_ok s'"
proof -
  from e obtain k er d where w: "i < length (workers s)" "workers s ! i = Failing k er"
    and s': "s' = goto i (Deciding k d) s"
    and d: "d = None \<Longrightarrow> (case lookup (jstore s) k of Some j \<Rightarrow> attempts j | None \<Rightarrow> 0) \<le> max_retries s"
    by (auto simp: worker_decide_def worker_at_Some Let_def split: option.splits worker.splits if_splits)
  show ?thesis unfolding s'
    by (rule goto_same_holder[OF ok w(1)]) (use w d busy_self[OF ok w(1), of k "Deciding k d"] in auto)
qed

lemma sys_ok_apply:
  assumes ok: "sys_ok s" and e: "worker_apply i s = Some s'"
  shows "sys_ok s'"
proof -
  from e obtain k d where w: "i < length (workers s)" "workers s ! i = Deciding k d"
    and s': "s' = with_transition k (case d of None \<Rightarrow> Retry | Some e \<Rightarrow> Fail e) (\<lambda>_. goto i Idle) s"
    by (auto simp: worker_apply_def worker_at_Some split: option.splits worker.splits)
  let ?t = "case d of None \<Rightarrow> Retry | Some e \<Rightarrow> Fail e"
  have t: "?t \<noteq> Start" "?t \<noteq> Cancel" by (cases d; simp)+
  have "sys_ok (with_transition k ?t (\<lambda>out. goto i ((\<lambda>_. Idle) out)) s)"
  proof (rule sys_ok_transition[OF ok w(1)])
    fix j assume j: "?t = Retry" "lookup (jstore s) k = Some j" "status j = Processing"
    then have "d = None" by (cases d) auto
    then show "attempts j \<le> max_retries s"
      using j w sys_ok_parts(2)[OF ok] unfolding own_ok_def job_owned_def by blast
  qed (use w t busy_rejected[OF ok w(1)] in auto)
  then show ?thesis by (simp add: s')
qed

lemma sys_ok_drain:
  assumes ok: "sys_ok s" and e: "drain_cancel i s = Some s'"
  shows "sys_ok s'"
proof -
  from e obtain k where w: "i < length (workers s)" "workers s ! i = Draining k"
    and s': "s' = with_transition k Cancel (\<lambda>_. goto i Idle) s"
    by (auto simp: drain_cancel_def worker_at_Some split: option.splits worker.splits)
  have "sys_ok (with_transition k Cancel (\<lambda>out. goto i ((\<lambda>_. Idle) out)) s)"
    by (rule sys_ok_transition[OF ok w(1)]) (use w in \<open>auto simp: transition_allowed_def\<close>)
  then show ?thesis by (simp add: s')
qed

lemma job_ok_stamp [simp]: "job_ok R (j\<lparr>updated_at := x\<rparr>) = job_ok R j" "job_step j0 (j\<lparr>updated_at := x\<rparr>) = job_step j0 j"
  by (simp_all add: job_ok_def job_step_def)

lemma run_update_result:
  assumes "job_ok R j" "run_update u (j, w) = (j', w')"
  shows "job_ok R j'" and "job_step j j'" and "status j' = status j" and "attempts j' = attempts j"
proof -
  have "job_ok R j' \<and> job_step j j' \<and> status j' = status j \<and> attempts j' = attempts j"
  proof (cases u)
    case (Broadcast e)
    have d: "distinct (event_channels j)" using assms(1) by (simp add: job_ok_def)
    have j': "j' = fst (broadcast e (j, w))" using assms(2) Broadcast by simp
    have "status j' = status j" "attempts j' = attempts j" by (simp_all add: j' broadcast_result[OF d])
    then show ?thesis using broadcast_ok[OF assms(1), of e w] j' by simp
  next
    case (SetTotal t)
    then have "j' = j\<lparr>total_seconds := t\<rparr>" using assms(2) by simp
    then show ?thesis using assms(1) by (simp add: job_ok_def job_step_def)
  next
    case (Register f h)
    then have "j' = (if status j = Processing then j\<lparr>abort := Some f, partial_handle := Some h\<rparr> else j)"
      using assms(2) by (simp add: Let_def)
    then show ?thesis using assms(1) by (cases "status j") (simp_all add: job_ok_def job_step_def)
  next
    case (SetProcessed p)
    then have "j' = (if status j = Processing then j\<lparr>processed_seconds := p\<rparr> else j)" using assms(2) by simp
    then show ?thesis using assms(1) by (cases "status j") (simp_all add: job_ok_def job_step_def)
  next
    case (SetDiarization d)
    then have "j' = j\<lparr>diarization := Some d\<rparr>" using assms(2) by simp
    then show ?thesis using assms(1) by (simp add: job_ok_def job_step_def)
  qed
  then show "job_ok R j'" "job_step j j'" "status j' = status j" "attempts j' = attempts j" by simp_all
qed

lemma chan_ok_update:
  assumes "job_ok R j" "chan_ok w st cs" "lookup st k = Some j" "run_update u (j, w) = (j', w')"
  shows "chan_ok w' (put k (j'\<lparr>updated_at := x\<rparr>) st) cs"
proof (cases "\<exists>e. u = Broadcast e \<and> compatible e (status j)")
  case True
  then obtain e where e: "u = Broadcast e" "compatible e (status j)" by blast
  have d: "distinct (event_channels j)" using assms(1) by (simp add: job_ok_def)
  have r: "j' = j\<lparr>event_channels := (if ev_terminal e then [] else filter (\<lambda>c. ch_open (chans w c)) (event_channels j))\<rparr>"
    "w' = deliver e (event_channels j) w"
    using assms(4) e by (simp_all add: broadcast_result[OF d])
  show ?thesis by (rule chan_ok_deliver[OF assms(2,3), of _ e]) (auto simp: r)
next
  case False
  have d: "distinct (event_channels j)" using assms(1) by (simp add: job_ok_def)
  have "event_channels j' = event_channels j \<and> chans w' = chans w"
    using assms(4) False by (cases u) (auto simp: broadcast_result[OF d] Let_def split: if_splits)
  then show ?thesis by (intro chan_ok_put[OF assms(2,3)]) simp_all
qed

lemma ids_ok_put: "ids_ok st ws ids \<Longrightarrow> lookup st k \<noteq> None \<Longrightarrow> ids_ok (put k j st) ws ids"
  by (rule ids_ok_sub) (auto simp: ids_ok_def lookup_put split: if_splits)

lemma sys_ok_update:
  assumes ok: "sys_ok s"
  shows "sys_ok (job_update k u s)"
proof (cases "lookup (jstore s) k")
  case None
  then show ?thesis using ok by (simp add: job_update_def store_update_def)
next
  case (Some j)
  note P = sys_ok_parts[OF ok]
  obtain j' w' where u: "run_update u (j, sworld s) = (j', w')" by fastforce
  let ?j = "j'\<lparr>updated_at := now w'\<rparr>"
  note R = run_update_result[OF P(5)[OF Some] u]
  have "job_owned (max_retries s) (queue (jstore s)) (workers s) k ?j"
    using P(2) Some R(3,4) by (auto simp: own_ok_def job_owned_def)
  then have "own_ok (max_retries s) (put k ?j (jstore s)) (workers s)" by (rule own_put[OF P(2)])
  moreover have "chan_ok w' (put k ?j (jstore s)) (used_chans s)" by (rule chan_ok_update[OF P(5)[OF Some] P(3) Some u])
  ultimately show ?thesis
    using data_ok_put[OF P(1) Some, of ?j] R(1,2) ids_ok_put[OF P(4), of k ?j] Some u
    by (simp add: job_update_def store_update_def sys_ok_def)
qed

lemma sys_ok_listen:
  assumes ok: "sys_ok s" and c: "c \<notin> set (used_chans s)"
  shows "sys_ok (snd (job_events k c s))"
proof -
  note P = sys_ok_parts[OF ok]
  have cons: "chan_ok (sworld s) (jstore s) (c # used_chans s)" using P(3) by (auto simp: chan_ok_def)
  show ?thesis
  proof (cases "lookup (jstore s) k")
    case None
    then show ?thesis using c P cons by (auto simp: job_events_def store_subscribe_def sys_ok_def)
  next
    case (Some j)
    have fresh: "c \<notin> set (event_channels j)" using P(3) Some c unfolding chan_ok_def by blast
    obtain j' w' where js: "job_subscribe c (j, sworld s) = (j', w')" by fastforce
    have R: "job_ok (max_retries s) j'" "job_step j j'"
      using subscribe_ok[OF P(5)[OF Some] fresh, of "sworld s"] js by simp_all
    have st: "status j' = status j" "attempts j' = attempts j"
      using js by (auto simp: subscribe_result Let_def split: if_splits)
    have "job_owned (max_retries s) (queue (jstore s)) (workers s) k j'"
      using P(2) Some st by (auto simp: own_ok_def job_owned_def)
    then have own: "own_ok (max_retries s) (put k j' (jstore s)) (workers s)" by (rule own_put[OF P(2)])
    have "chan_ok w' (put k j' (jstore s)) (c # used_chans s)"
    proof (cases "is_terminal (status j)")
      case True
      then have jw: "j' = j" "w' = deliver (the (terminal_event j)) [c] (sworld s)"
        using js[unfolded subscribe_result, symmetric] by simp_all
      show ?thesis unfolding jw by (rule chan_ok_put[OF chan_ok_late[OF P(3) c] Some]) simp_all
    next
      case False
      let ?cs = "filter (\<lambda>d. ch_open (chans (sworld s) d)) (event_channels j)"
      have jw: "j' = j\<lparr>event_channels := (if MAX_JOB_EVENT_SUBSCRIBERS \<le> length ?cs then tl ?cs else ?cs) @ [c]\<rparr>" "w' = sworld s"
        using js[unfolded subscribe_result Let_def, symmetric] False by (simp_all del: if_split)
      show ?thesis unfolding jw by (rule chan_ok_fresh[OF P(3) Some c]) (auto dest: in_set_tlD)
    qed
    then show ?thesis
      using c js Some own data_ok_put[OF P(1) Some R] ids_ok_put[OF P(4), of k j']
      by (auto simp: job_events_def store_subscribe_def sys_ok_def)
  qed
qed

lemma sys_ok_enqueue:
  assumes ok: "sys_ok s" and g: "uuid \<notin> set (used_ids s)" "length b \<le> body_limit s"
    and e: "enqueue uuid b ps s = (r, s')"
  shows "sys_ok s'"
proof -
  let ?s = "s\<lparr>jstore := evict_expired (sworld s) (jstore s)\<rparr>"
  let ?st = "jstore ?s" and ?j = "job_queued uuid (now (sworld s)) b ps"
  have ok': "sys_ok ?s" by (rule sys_ok_evict[OF ok])
  note P = sys_ok_parts[OF ok']
  have idm: "job_id ?j = uuid" by (simp add: job_queued_def)
  have s': "s' = (if at_capacity ?st then ?s\<lparr>used_ids := uuid # used_ids s\<rparr>
      else ?s\<lparr>jstore := (put uuid ?j ?st)\<lparr>queue := queue ?st @ [uuid]\<rparr>, used_ids := uuid # used_ids s\<rparr>)"
    using e idm by (auto simp: enqueue_def store_create_def Let_def split: if_splits)
  have none: "lookup ?st uuid = None" "uuid \<notin> set (queue ?st)" "\<forall>i < length (workers s). holder (workers s ! i) \<noteq> Some uuid"
    using P(4) g(1) unfolding ids_ok_def by fastforce+
  show ?thesis
  proof (cases "at_capacity ?st")
    case True
    then show ?thesis using P s' by (auto simp: sys_ok_def ids_ok_def)
  next
    case False
    then have room: "length (jobs ?st) < jobs_max (limits ?st)" "resident_body_bytes ?st < jobs_max_bytes (limits ?st)"
      by (simp_all add: at_capacity_def)
    have b: "body ?j = b" "status ?j = Queued" "event_channels ?j = []" by (simp_all add: job_queued_def)
    let ?new = "(put uuid ?j ?st)\<lparr>queue := queue ?st @ [uuid]\<rparr>"
    have "data_ok (max_retries s) (body_limit s) ?new"
      using P(1) room g(2) resident_put_new[OF none(1), of ?j] job_queued_ok b idm
      by (auto simp: data_ok_def keys_ok_put lookup_put resident_body_bytes_def)
    moreover have "own_ok (max_retries s) ?new (workers s)"
      using own_new[OF P(2) none(2)] none(3) b by simp
    moreover have "chan_ok (sworld s) ?new (used_chans s)"
      by (rule chan_ok_sub[of _ ?st]) (use P(3) b in \<open>auto simp: lookup_put split: if_splits\<close>)
    moreover have "ids_ok ?new (workers s) (uuid # used_ids s)"
      using P(4) by (auto simp: ids_ok_def lookup_put split: if_splits)
    ultimately show ?thesis using s' False by (simp add: sys_ok_def)
  qed
qed

lemma sys_ok_check_full: "sys_ok s \<Longrightarrow> sys_ok (snd (check_full s))"
  using sys_ok_evict[of s "sworld s"] by (simp add: check_full_def store_is_full_def Let_def)

lemma check_full_used [simp]: "used_ids (snd (check_full s)) = used_ids s" "body_limit (snd (check_full s)) = body_limit s"
  by (simp_all add: check_full_def store_is_full_def Let_def)

text \<open>A submission does nothing, checks the capacity, or also enqueues the job.\<close>

lemma submit_job_cases:
  "snd (submit_job k b ps s) \<in> {s, snd (check_full s), snd (enqueue k b ps (snd (check_full s)))}
   \<and> (snd (submit_job k b ps s) \<in> {s, snd (check_full s)} \<or> length b \<le> body_limit s)"
  by (auto simp: submit_job_def Let_def split: prod.splits)

lemma sys_ok_submit:
  assumes "sys_ok s" "k \<notin> set (used_ids s)"
  shows "sys_ok (snd (submit_job k b ps s))"
proof -
  have f: "sys_ok (snd (check_full s))" by (rule sys_ok_check_full[OF assms(1)])
  obtain r s2 where e: "enqueue k b ps (snd (check_full s)) = (r, s2)" by fastforce
  have "length b \<le> body_limit s \<Longrightarrow> sys_ok s2" using sys_ok_enqueue[OF f _ _ e] assms(2) by simp
  then show ?thesis using submit_job_cases[of k b ps s] assms(1) f e by auto
qed

lemma sys_ok_world:
  assumes "sys_ok s" "\<And>c. ch_log (chans w c) = ch_log (chans (sworld s) c)"
  shows "sys_ok (s\<lparr>sworld := w\<rparr>)"
proof -
  have "chan_ok w (jstore s) (used_chans s)"
    by (rule chan_ok_sub[OF sys_ok_parts(3)[OF assms(1)] assms(2)]) blast
  then show ?thesis using assms(1) by (simp add: sys_ok_def)
qed

lemma sys_exec_ok:
  assumes "sys_ok s" "sys_exec e s = Some s'"
  shows "sys_ok s'"
proof (cases e)
  case (Next i)
  then show ?thesis using assms sys_ok_next[of s i _ _ Claimed]
    by (auto simp: worker_next_def split: if_splits prod.splits)
next
  case (DrainNext i)
  then show ?thesis using assms sys_ok_next[of s i _ _ Draining]
    by (auto simp: drain_next_def split: if_splits prod.splits)
next
  case (Disconnect c)
  then show ?thesis using assms by (auto simp: disconnect_def intro: sys_ok_world)
next
  case (Elapse dt)
  then show ?thesis using assms by (auto simp: elapse_def intro: sys_ok_world)
next
  case (Submit k b ps)
  then show ?thesis using assms sys_ok_submit by (auto split: if_splits)
next
  case (Listen k c)
  then show ?thesis using assms sys_ok_listen by (auto split: if_splits)
qed (use assms sys_ok_start sys_ok_get sys_ok_result sys_ok_decide sys_ok_apply sys_ok_drain sys_ok_update
  sys_ok_cancel sys_ok_check_full in auto)

lemma sys_new_ok: "sys_ok (sys_new l n R L)"
  by (auto simp: sys_new_def sys_ok_def data_ok_def keys_ok_def own_ok_def tickets_ok_def chan_ok_def ids_ok_def
      store_new_def lookup_def log_ok_def resident_body_bytes_def)

lemma sys_reach_ok: "sys_reach (sys_new l n R L) s \<Longrightarrow> sys_ok s"
  by (induction rule: sys_reach.induct) (auto intro: sys_new_ok sys_exec_ok)

section \<open>What one event does to a job\<close>

definition store_step :: "'p job_store \<Rightarrow> 'p job_store \<Rightarrow> string \<Rightarrow> bool" where
  "store_step st st' k \<longleftrightarrow> lookup st' k = None
     \<or> (\<exists>j j'. lookup st k = Some j \<and> lookup st' k = Some j' \<and> job_step j j')"

lemma store_step_refl: "store_step st st k"
  by (cases "lookup st k") (auto simp: store_step_def)

lemma store_step_same: "lookup st' = lookup st \<Longrightarrow> store_step st st' k"
  by (cases "lookup st k") (auto simp: store_step_def)

lemma store_step_evict: "keys_ok st \<Longrightarrow> store_step st (evict_expired w st) k"
  by (cases "lookup st k") (auto simp: store_step_def evict_expired_result)

lemma store_step_put:
  assumes "lookup st k0 = Some j" "job_step j j'"
  shows "store_step st (put k0 j' st) k"
  by (cases "lookup st k") (use assms in \<open>auto simp: store_step_def lookup_put\<close>)

lemma job_step_trans: "job_step a b \<Longrightarrow> job_step b c \<Longrightarrow> job_step a c"
  unfolding job_step_def by auto

lemma store_step_trans: "store_step a b k \<Longrightarrow> store_step b c k \<Longrightarrow> store_step a c k"
  unfolding store_step_def by (metis job_step_trans option.distinct(1) option.inject)

lemma store_step_transition:
  assumes ok: "sys_ok s" and t: "store_transition k0 t (sworld s, jstore s) = (out, w', st')"
    and retry: "\<And>j. t = Retry \<Longrightarrow> lookup (jstore s) k0 = Some j \<Longrightarrow> status j = Processing \<Longrightarrow> attempts j \<le> max_retries s"
  shows "store_step (jstore s) st' k"
proof (cases rule: store_transition_cases[of "jstore s" k0 t "sworld s"])
  case missing
  then show ?thesis using t by (simp add: store_step_refl)
next
  case (rejected j)
  then show ?thesis using t store_step_put[OF rejected(1) job_step_refl] by simp
next
  case (applied j j' w'')
  have "job_ok (max_retries s) j' \<and> job_step j j'"
    by (rule transition_ok[OF sys_ok_parts(5)[OF ok applied(1)] _ applied(3)]) (use retry applied(1) in blast)
  then show ?thesis using t applied store_step_put[OF applied(1), of j' k] by (auto simp: store_step_def)
qed

lemma with_transition_store:
  assumes "sys_ok s" "\<And>out s1. jstore (cont out s1) = jstore s1"
    and "\<And>j. t = Retry \<Longrightarrow> lookup (jstore s) k0 = Some j \<Longrightarrow> status j = Processing \<Longrightarrow> attempts j \<le> max_retries s"
  shows "store_step (jstore s) (jstore (with_transition k0 t cont s)) k"
proof -
  obtain out w' st' where t: "store_transition k0 t (sworld s, jstore s) = (out, w', st')" by (metis prod_cases3)
  have "store_step (jstore s) st' k" by (rule store_step_transition[OF assms(1) t assms(3)])
  then show ?thesis using t assms(2) by (simp add: with_transition_def)
qed

lemma jstore_goto [simp]: "jstore (goto i p s) = jstore s" "used_ids (goto i p s) = used_ids s"
  by (simp_all add: goto_def)

lemma next_queued_step:
  assumes "sys_ok s" "store_next_queued w (jstore s) = (r, st)"
  shows "store_step (jstore s) st k"
proof -
  have "lookup st = lookup (evict_expired w (jstore s))"
    using assms(2) by (auto simp: store_next_queued_def Let_def split: prod.splits)
  moreover have "keys_ok (jstore s)" using assms(1) by (simp add: sys_ok_def data_ok_def)
  ultimately show ?thesis using store_step_evict[of "jstore s" w k] by (simp add: store_step_def)
qed

lemma deciding_retry:
  assumes "sys_ok s" "worker_at s i = Some (Deciding k d)" "(case d of None \<Rightarrow> Retry | Some e \<Rightarrow> Fail e) = Retry"
    and "lookup (jstore s) k = Some j" "status j = Processing"
  shows "attempts j \<le> max_retries s"
proof -
  have "d = None" using assms(3) by (cases d) auto
  then show ?thesis using assms(2,4,5) sys_ok_parts(2)[OF assms(1)]
    unfolding own_ok_def job_owned_def worker_at_Some by blast
qed

lemma used_ids_mono:
  assumes "sys_exec e s = Some s'"
  shows "set (used_ids s) \<subseteq> set (used_ids s')"
  using assms
  by (cases e) (auto simp: worker_next_def worker_start_def worker_get_def worker_result_def worker_decide_def
      worker_apply_def drain_next_def drain_cancel_def job_update_def submit_job_def enqueue_def cancel_job_def job_events_def
      disconnect_def elapse_def check_full_def with_transition_def Let_def
      split: if_splits prod.splits option.splits worker.splits sum.splits)

lemma sys_exec_store_step:
  assumes ok: "sys_ok s" and e: "sys_exec e s = Some s'" and k: "k \<in> set (used_ids s)"
  shows "store_step (jstore s) (jstore s') k"
proof (cases e)
  case (Next i)
  then show ?thesis using e next_queued_step[OF ok] by (auto simp: worker_next_def split: if_splits prod.splits)
next
  case (DrainNext i)
  then show ?thesis using e next_queued_step[OF ok] by (auto simp: drain_next_def split: if_splits prod.splits)
next
  case (StartJob i)
  then obtain k0 where "s' = with_transition k0 Start (\<lambda>out. goto i (if out = Applied then Started k0 else Idle)) s"
    using e by (auto simp: worker_start_def split: option.splits worker.splits)
  then show ?thesis by (auto intro!: with_transition_store[OF ok])
next
  case (Get i)
  then show ?thesis using e by (auto simp: worker_get_def store_step_refl split: option.splits worker.splits)
next
  case (Result i r)
  then obtain k0 where "s' = (case r of Inr x \<Rightarrow> with_transition k0 (Complete x) (\<lambda>_. goto i Idle) s | Inl e \<Rightarrow> goto i (Failing k0 e) s)"
    using e by (auto simp: worker_result_def split: option.splits worker.splits)
  then show ?thesis by (cases r) (auto simp: store_step_refl intro!: with_transition_store[OF ok])
next
  case (Decide i)
  then show ?thesis using e by (auto simp: worker_decide_def store_step_refl Let_def split: option.splits worker.splits)
next
  case (Apply i)
  then obtain k0 d where w: "worker_at s i = Some (Deciding k0 d)"
    and s': "s' = with_transition k0 (case d of None \<Rightarrow> Retry | Some e \<Rightarrow> Fail e) (\<lambda>_. goto i Idle) s"
    using e by (auto simp: worker_apply_def split: option.splits worker.splits)
  show ?thesis unfolding s' by (rule with_transition_store[OF ok _ deciding_retry[OF ok w]]) simp
next
  case (DrainCancel i)
  then obtain k0 where "s' = with_transition k0 Cancel (\<lambda>_. goto i Idle) s"
    using e by (auto simp: drain_cancel_def split: option.splits worker.splits)
  then show ?thesis by (auto intro!: with_transition_store[OF ok])
next
  case (Update k0 u)
  show ?thesis
  proof (cases "lookup (jstore s) k0")
    case None
    then show ?thesis using e Update by (auto simp: job_update_def store_update_def store_step_refl)
  next
    case (Some j)
    obtain j' w' where u: "run_update u (j, sworld s) = (j', w')" by fastforce
    have "job_step j (j'\<lparr>updated_at := now w'\<rparr>)" using run_update_result(2)[OF sys_ok_parts(5)[OF ok Some] u] by simp
    from store_step_put[OF Some this] show ?thesis
      using e Update Some u by (auto simp: job_update_def store_update_def)
  qed
next
  case (Submit k0 b ps)
  let ?s1 = "snd (check_full s)"
  have ok1: "sys_ok ?s1" by (rule sys_ok_check_full[OF ok])
  have ks: "keys_ok (jstore s)" "keys_ok (jstore ?s1)" using ok ok1 by (simp_all add: sys_ok_def data_ok_def)
  have c: "store_step (jstore s) (jstore ?s1) k"
    using store_step_evict[OF ks(1)] by (simp add: check_full_def store_is_full_def Let_def)
  have "store_step (jstore ?s1) (jstore (snd (enqueue k0 b ps ?s1))) k"
    using store_step_evict[OF ks(2), of "sworld ?s1" k] k e Submit
    by (auto simp: enqueue_def store_create_def Let_def store_step_def lookup_put job_queued_def split: if_splits)
  from store_step_trans[OF c this] c show ?thesis
    using submit_job_cases[of k0 b ps s] e Submit store_step_refl[of "jstore s" k] by (auto split: if_splits)
next
  case (CancelJob k0)
  have "store_step (jstore s) (jstore (with_transition k0 Cancel (\<lambda>_ s. s) s)) k"
    by (rule with_transition_store[OF ok]) simp_all
  then show ?thesis using e CancelJob by (auto simp: cancel_job_def with_transition_def split: prod.splits)
next
  case (Listen k0 c)
  have c: "c \<notin> set (used_chans s)" "s' = snd (job_events k0 c s)" using e Listen by (auto split: if_splits)
  show ?thesis
  proof (cases "lookup (jstore s) k0")
    case None
    then show ?thesis by (simp add: c(2) job_events_def store_subscribe_def store_step_refl)
  next
    case (Some j)
    have c': "c \<notin> set (event_channels j)"
      using c(1) Some sys_ok_parts(3)[OF ok] unfolding chan_ok_def by blast
    obtain j' w' where js: "job_subscribe c (j, sworld s) = (j', w')" by fastforce
    have "job_step j j'" using subscribe_ok[OF sys_ok_parts(5)[OF ok Some] c', of "sworld s"] js by simp
    from store_step_put[OF Some this] show ?thesis
      using Some js by (simp add: c(2) job_events_def store_subscribe_def)
  qed
next
  case (Disconnect c)
  then show ?thesis using e by (auto simp: disconnect_def store_step_refl)
next
  case (Elapse dt)
  then show ?thesis using e by (auto simp: elapse_def store_step_refl)
next
  case CheckFull
  then show ?thesis using e ok by (auto simp: check_full_def store_is_full_def Let_def sys_ok_def data_ok_def intro: store_step_evict)
qed

lemma terminal_step: "job_step j j' \<Longrightarrow> is_terminal (status j) \<Longrightarrow> status j' = status j \<and> result j' = result j \<and> error j' = error j"
  by (simp add: job_step_def)

lemma sys_run_final:
  assumes "sys_ok s" "sys_run es s = Some s'" "k \<in> set (used_ids s)"
    and "lookup (jstore s) k = None \<or> (\<exists>j. lookup (jstore s) k = Some j \<and> is_terminal (status j) \<and> status j = x \<and> result j = y \<and> error j = z)"
  shows "lookup (jstore s') k = None \<or> (\<exists>j. lookup (jstore s') k = Some j \<and> is_terminal (status j) \<and> status j = x \<and> result j = y \<and> error j = z)"
  using assms
proof (induction es arbitrary: s)
  case (Cons e es)
  then obtain s1 where s1: "sys_exec e s = Some s1" "sys_run es s1 = Some s'" by (auto simp: bind_eq_Some_conv)
  have "store_step (jstore s) (jstore s1) k" by (rule sys_exec_store_step[OF Cons.prems(1) s1(1) Cons.prems(3)])
  then have "lookup (jstore s1) k = None \<or> (\<exists>j. lookup (jstore s1) k = Some j \<and> is_terminal (status j) \<and> status j = x \<and> result j = y \<and> error j = z)"
  proof (cases "lookup (jstore s1) k")
    case (Some j')
    with \<open>store_step (jstore s) (jstore s1) k\<close> obtain j where j: "lookup (jstore s) k = Some j" "job_step j j'"
      by (auto simp: store_step_def)
    then have "is_terminal (status j)" "status j = x" "result j = y" "error j = z" using Cons.prems(4) by auto
    with terminal_step[OF j(2)] Some show ?thesis by simp
  qed simp
  then show ?case
    using Cons.IH[OF sys_exec_ok[OF Cons.prems(1) s1(1)] s1(2)] used_ids_mono[OF s1(1)] Cons.prems(3) by blast
qed simp

definition same_config :: "'p sys \<Rightarrow> 'p sys \<Rightarrow> bool" where
  "same_config s s' \<longleftrightarrow> max_retries s' = max_retries s \<and> body_limit s' = body_limit s
     \<and> limits (jstore s') = limits (jstore s) \<and> length (workers s') = length (workers s)"

lemma same_config_goto [simp]: "same_config s (goto i p s') = same_config s s'"
  by (simp add: same_config_def goto_def)

lemma same_config_refl [simp]: "same_config s s"
  by (simp add: same_config_def)

lemma transition_limits: "store_transition k t (w, st) = (out, w', st') \<Longrightarrow> limits st' = limits st"
  by (cases rule: store_transition_cases[of st k t w]) auto

lemma same_config_transition:
  assumes "\<And>out s1. same_config s (cont out s1) = same_config s s1"
  shows "same_config s (with_transition k t cont s)"
proof -
  obtain out w' st' where t: "store_transition k t (sworld s, jstore s) = (out, w', st')" by (metis prod_cases3)
  then show ?thesis using assms transition_limits[OF t] by (simp add: with_transition_def) (simp add: same_config_def)
qed

lemma next_queued_limits: "keys_ok st \<Longrightarrow> store_next_queued w st = (r, st') \<Longrightarrow> limits st' = limits st"
  by (auto simp: store_next_queued_def Let_def evict_expired_result split: prod.splits)

lemma sys_exec_const:
  assumes "sys_ok s" "sys_exec e s = Some s'"
  shows "same_config s s'"
proof -
  have k: "keys_ok (jstore s)" using assms(1) by (simp add: sys_ok_def data_ok_def)
  note ev = evict_expired_result(3)[OF k]
  show ?thesis
  proof (cases e)
    case (Next i)
    then show ?thesis using assms(2) next_queued_limits[OF k]
      by (auto simp: worker_next_def same_config_def goto_def split: if_splits prod.splits)
  next
    case (DrainNext i)
    then show ?thesis using assms(2) next_queued_limits[OF k]
      by (auto simp: drain_next_def same_config_def goto_def split: if_splits prod.splits)
  next
    case (StartJob i)
    then show ?thesis using assms(2)
      by (auto simp: worker_start_def intro!: same_config_transition split: option.splits worker.splits)
  next
    case (Get i)
    then show ?thesis using assms(2) by (auto simp: worker_get_def split: option.splits worker.splits)
  next
    case (Result i r)
    then show ?thesis using assms(2)
      by (auto simp: worker_result_def intro!: same_config_transition split: option.splits worker.splits sum.splits)
  next
    case (Decide i)
    then show ?thesis using assms(2) by (auto simp: worker_decide_def Let_def split: option.splits worker.splits)
  next
    case (Apply i)
    then show ?thesis using assms(2)
      by (auto simp: worker_apply_def intro!: same_config_transition split: option.splits worker.splits)
  next
    case (DrainCancel i)
    then show ?thesis using assms(2)
      by (auto simp: drain_cancel_def intro!: same_config_transition split: option.splits worker.splits)
  next
    case (Update k0 u)
    then show ?thesis using assms(2)
      by (auto simp: job_update_def store_update_def same_config_def split: option.splits prod.splits)
  next
    case (Submit k0 b ps)
    have c: "same_config s (snd (check_full s))" "keys_ok (jstore (snd (check_full s)))"
      using ev sys_ok_check_full[OF assms(1)]
      by (simp_all add: check_full_def store_is_full_def same_config_def Let_def sys_ok_def data_ok_def)
    then have "same_config s (snd (enqueue k0 b ps (snd (check_full s))))"
      by (simp add: enqueue_def store_create_def same_config_def Let_def evict_expired_result(3))
    then show ?thesis using assms(2) c(1) submit_job_cases[of k0 b ps s] Submit by (auto split: if_splits)
  next
    case (CancelJob k0)
    have "same_config s (with_transition k0 Cancel (\<lambda>_ s. s) s)" by (rule same_config_transition) simp
    then show ?thesis using assms(2) CancelJob by (auto simp: cancel_job_def with_transition_def split: prod.splits)
  next
    case (Listen k0 c)
    then show ?thesis using assms(2)
      by (auto simp: job_events_def store_subscribe_def same_config_def split: if_splits option.splits prod.splits)
  qed (use assms(2) ev in \<open>auto simp: disconnect_def elapse_def check_full_def store_is_full_def Let_def same_config_def\<close>)
qed

lemma sys_reach_const:
  "sys_reach (sys_new l n R L) s \<Longrightarrow> max_retries s = R \<and> body_limit s = L \<and> limits (jstore s) = l \<and> length (workers s) = max 1 n"
proof (induction rule: sys_reach.induct)
  case sys_init
  show ?case by (simp add: sys_new_def store_new_def)
next
  case (sys_step s e s')
  then show ?case using sys_exec_const[OF sys_reach_ok[OF sys_step(1)] sys_step(2)] by (simp add: same_config_def)
qed

end
