(* ===== verification/Job_Steps.thy ===== *)
theory Job_Steps
  imports Job_System "HOL-Library.Sublist"
begin

text \<open>
  What one event of the job system may do to a job and to its listeners: a job leaves the store
  only by the expiry of a finished job, and a listener leaves it only with the final event, by
  closing its stream, or pushed out by the newest of too many listeners.
\<close>

section \<open>A listener across a step\<close>

definition attends :: "world \<Rightarrow> world \<Rightarrow> 'p job \<Rightarrow> nat \<Rightarrow> bool" where
  "attends w w' j' c \<longleftrightarrow> c \<in> set (event_channels j') \<or> \<not> ch_open (chans w c)
     \<or> (is_terminal (status j') \<and> ch_log (chans w' c) = ch_log (chans w c) @ [the (terminal_event j')])"

text \<open>The listener that a new one on a full list of listeners pushes out.\<close>

definition pushed_out :: "world \<Rightarrow> 'p job \<Rightarrow> nat \<Rightarrow> bool" where
  "pushed_out w j c \<longleftrightarrow> (\<exists>rest. filter (\<lambda>d. ch_open (chans w d)) (event_channels j) = c # rest
     \<and> MAX_JOB_EVENT_SUBSCRIBERS \<le> Suc (length rest))"

text \<open>The job behind a key and the listeners of it, before and after.\<close>

definition keeps_job :: "world \<times> 'p job_store \<Rightarrow> world \<times> 'p job_store \<Rightarrow> string \<Rightarrow> bool" where
  "keeps_job = (\<lambda>(w, st) (w', st') k. \<forall>j. lookup st k = Some j \<longrightarrow> \<not> gone w st k \<longrightarrow>
     (\<exists>j'. lookup st' k = Some j' \<and> job_step j j' \<and> (\<forall>c \<in> set (event_channels j). attends w w' j' c)))"

lemma keeps_same: "lookup st' k = lookup st k \<Longrightarrow> keeps_job (w, st) (w', st') k"
  by (auto simp: keeps_job_def attends_def)

lemma keeps_put:
  assumes "lookup st k0 = Some j0" "job_step j0 j'" "\<forall>c \<in> set (event_channels j0). attends w w' j' c"
    and "\<And>x. lookup st' x = (if x = k0 then Some j' else lookup st x)"
  shows "keeps_job (w, st) (w', st') k"
  using assms by (auto simp: keeps_job_def attends_def)

lemma keeps_evict: "keys_ok st \<Longrightarrow> lookup st' k = lookup (evict_expired w st) k \<Longrightarrow> keeps_job (w, st) (w', st') k"
  by (auto simp: keeps_job_def attends_def evict_expired_result)

lemma transition_attends:
  assumes "job_ok R j" "transition t (j, w) = (Applied, j', w')" "c \<in> set (event_channels j)"
  shows "attends w w' j' c"
proof -
  have al: "transition_allowed t (status j)" using transition_status(3)[OF assms(2)] by simp
  let ?m = "fst (moved t (j, w))"
  have j': "j' = ?m\<lparr>event_channels := (if is_terminal (after_status t) then [] else filter (\<lambda>c. ch_open (chans w c)) (event_channels j))\<rparr>"
    and w': "w' = deliver (moved_event ?m) (event_channels j) (snd (moved t (j, w)))"
    using transition_Applied[OF assms(1) al, of w] assms(2) by simp_all
  show ?thesis
  proof (cases "is_terminal (after_status t)")
    case True
    have te: "terminal_event j' = terminal_event ?m" by (cases "after_status t") (simp_all add: j' terminal_event_def)
    have "terminal_event ?m \<noteq> None" using True by (simp add: terminal_event_None)
    then have "moved_event ?m = the (terminal_event j')" by (auto simp: moved_event_def te)
    then show ?thesis using True assms(3) by (auto simp: attends_def w' deliver_log j')
  next
    case False
    then show ?thesis using assms(3) by (auto simp: attends_def j')
  qed
qed

lemma update_attends:
  assumes "job_ok R j" "run_update u (j, w) = (j', w')" "c \<in> set (event_channels j)"
  shows "attends w w' j' c"
proof (cases u)
  case (Broadcast e)
  have d: "distinct (event_channels j)" using assms(1) by (simp add: job_ok_def)
  have "\<not> is_terminal (status j)" using assms(1,3) by (auto simp: job_ok_def)
  then have "compatible e (status j) \<Longrightarrow> \<not> ev_terminal e" by (cases e) (auto simp: compatible_def ev_terminal_def)
  then show ?thesis using assms(2,3) Broadcast by (auto simp: broadcast_result[OF d] attends_def split: if_splits)
qed (use assms in \<open>auto simp: attends_def Let_def split: if_splits\<close>)

lemma subscribe_attends:
  assumes "job_subscribe d (j, w) = (j', w')" "c \<in> set (event_channels j)" "job_ok R j"
  shows "attends w w' j' c \<or> pushed_out w j c"
proof -
  let ?cs = "filter (\<lambda>d. ch_open (chans w d)) (event_channels j)"
  have "\<not> is_terminal (status j)" using assms(2,3) by (auto simp: job_ok_def)
  then have j': "event_channels j' = (if MAX_JOB_EVENT_SUBSCRIBERS \<le> length ?cs then tl ?cs else ?cs) @ [d]"
    using assms(1) by (auto simp: subscribe_result Let_def)
  show ?thesis
  proof (cases "ch_open (chans w c)")
    case True
    then have c: "c \<in> set ?cs" using assms(2) by simp
    then obtain x rest where cs: "?cs = x # rest" by (cases ?cs) auto
    show ?thesis
    proof (cases "MAX_JOB_EVENT_SUBSCRIBERS \<le> length ?cs \<and> x = c")
      case True
      then show ?thesis unfolding pushed_out_def using cs by simp
    next
      case False
      then have "c \<in> set (event_channels j')" using c cs by (auto simp: j' simp del: filter.simps)
      then show ?thesis by (simp add: attends_def)
    qed
  qed (simp add: attends_def)
qed

section \<open>One event\<close>

lemma keeps_transition:
  assumes ok: "sys_ok s" and t: "store_transition k0 t (sworld s, jstore s) = (out, w', st')"
    and retry: "\<And>j. t = Retry \<Longrightarrow> lookup (jstore s) k0 = Some j \<Longrightarrow> status j = Processing \<Longrightarrow> attempts j \<le> max_retries s"
  shows "keeps_job (sworld s, jstore s) (w', st') k"
proof (cases rule: store_transition_cases[of "jstore s" k0 t "sworld s"])
  case missing
  then show ?thesis using t by (simp add: keeps_same)
next
  case (rejected j)
  then have "lookup st' k = lookup (jstore s) k" using t by (auto simp: lookup_put)
  then show ?thesis by (rule keeps_same)
next
  case (applied j j' w'')
  note jo = sys_ok_parts(5)[OF ok applied(1)]
  have js: "job_step j j'"
    using transition_ok[OF jo _ applied(3)] retry applied(1) by blast
  have "st' = (if t = Retry then (put k0 j' (jstore s))\<lparr>queue := queue (jstore s) @ [k0]\<rparr> else put k0 j' (jstore s))"
    using t applied(4) by simp
  then have lk: "lookup st' x = (if x = k0 then Some j' else lookup (jstore s) x)" for x
    by (simp add: lookup_put)
  have "w' = w''" using t applied(4) by simp
  then have at: "\<forall>c \<in> set (event_channels j). attends (sworld s) w' j' c"
    using transition_attends[OF jo applied(3)] by simp
  show ?thesis by (rule keeps_put[OF applied(1) js at lk])
qed

lemma keeps_with_transition:
  assumes "sys_ok s" "\<And>out s1. jstore (cont out s1) = jstore s1 \<and> sworld (cont out s1) = sworld s1"
    and "\<And>j. t = Retry \<Longrightarrow> lookup (jstore s) k0 = Some j \<Longrightarrow> status j = Processing \<Longrightarrow> attempts j \<le> max_retries s"
    and "s' = with_transition k0 t cont s"
  shows "keeps_job (sworld s, jstore s) (sworld s', jstore s') k"
proof -
  obtain out w' st' where t: "store_transition k0 t (sworld s, jstore s) = (out, w', st')" by (metis prod_cases3)
  have "keeps_job (sworld s, jstore s) (w', st') k" by (rule keeps_transition[OF assms(1) t assms(3)])
  moreover have "jstore s' = st'" "sworld s' = w'" unfolding assms(4) with_transition_def t by (simp_all add: assms(2))
  ultimately show ?thesis by simp
qed

lemma sworld_goto [simp]: "sworld (goto i p s) = sworld s"
  by (simp add: goto_def)

lemma keeps_next:
  assumes "sys_ok s" "store_next_queued (sworld s) (jstore s) = (r, st)"
  shows "keeps_job (sworld s, jstore s) (sworld s, st) k"
proof (rule keeps_evict)
  show "lookup st k = lookup (evict_expired (sworld s) (jstore s)) k"
    using assms(2) by (auto simp: store_next_queued_def Let_def split: prod.splits)
  show "keys_ok (jstore s)" using assms(1) by (simp add: sys_ok_def data_ok_def)
qed


text \<open>A new listener is the one event that can push another one out.\<close>

definition kept_by :: "sys_event \<Rightarrow> 'p sys \<Rightarrow> 'p sys \<Rightarrow> string \<Rightarrow> 'p job \<Rightarrow> bool" where
  "kept_by e s s' k j \<longleftrightarrow> (\<exists>j'. lookup (jstore s') k = Some j' \<and> job_step j j'
     \<and> (\<forall>c \<in> set (event_channels j). attends (sworld s) (sworld s') j' c
          \<or> (\<exists>d. e = Listen k d) \<and> pushed_out (sworld s) j c))"

lemma keeps_listen:
  assumes ok: "sys_ok s" and d: "d \<notin> set (used_chans s)" and s': "s' = snd (job_events k0 d s)"
    and j: "lookup (jstore s) k = Some j"
  shows "kept_by (Listen k0 d) s s' k j"
proof (cases "k0 = k")
  case False
  then have "lookup (jstore s') k = Some j" using j
    by (auto simp: s' job_events_def store_subscribe_def lookup_put split: option.splits prod.splits)
  then show ?thesis by (auto simp: kept_by_def attends_def)
next
  case True
  note jo = sys_ok_parts(5)[OF ok j]
  have d': "d \<notin> set (event_channels j)" using d j sys_ok_parts(3)[OF ok] unfolding chan_ok_def by blast
  obtain j' w' where js: "job_subscribe d (j, sworld s) = (j', w')" by fastforce
  have "job_step j j'" using subscribe_ok[OF jo d', of "sworld s"] js by simp
  moreover have "lookup (jstore s') k = Some j'" "sworld s' = w'"
    using j js True by (auto simp: s' job_events_def store_subscribe_def lookup_put)
  ultimately show ?thesis using subscribe_attends[OF js _ jo] True by (auto simp: kept_by_def)
qed

lemma keeps_submit:
  assumes ok: "sys_ok s" and k0: "k0 \<notin> set (used_ids s)" and s': "s' = snd (submit_job k0 b ps s)"
    and k: "k \<in> set (used_ids s)"
  shows "keeps_job (sworld s, jstore s) (sworld s', jstore s') k"
proof -
  let ?s1 = "snd (check_full s)"
  have ks: "keys_ok (jstore s)" using ok by (simp add: sys_ok_def data_ok_def)
  have l1: "jstore ?s1 = evict_expired (sworld s) (jstore s)" "sworld ?s1 = sworld s"
    by (simp_all add: check_full_def store_is_full_def Let_def)
  have g: "\<not> gone (sworld s) (jstore s) k \<Longrightarrow> \<not> gone (sworld s) (evict_expired (sworld s) (jstore s)) k"
    by (auto simp: gone_def evict_expired_result[OF ks] split: option.splits)
  have e: "lookup (jstore (snd (enqueue k0 b ps ?s1))) k = lookup (evict_expired (sworld s) (jstore ?s1)) k"
    "sworld (snd (enqueue k0 b ps ?s1)) = sworld s"
    using k k0 by (auto simp: enqueue_def store_create_def Let_def lookup_put job_queued_def l1 split: if_splits)
  have ks1: "keys_ok (evict_expired (sworld s) (jstore s))" by (rule keys_ok_evict[OF ks])
  have "keeps_job (sworld s, jstore s) (sworld x, jstore x) k" if "x \<in> {s, ?s1, snd (enqueue k0 b ps ?s1)}" for x
    using that e l1 g by (auto simp: keeps_job_def attends_def evict_expired_result[OF ks] evict_expired_result[OF ks1])
  then show ?thesis using submit_job_cases[of k0 b ps s] s' by blast
qed

lemma keeps_update:
  assumes ok: "sys_ok s"
  shows "keeps_job (sworld s, jstore s) (sworld (job_update k0 u s), jstore (job_update k0 u s)) k"
proof (cases "lookup (jstore s) k0")
  case None
  then show ?thesis by (intro keeps_same) (simp add: job_update_def store_update_def)
next
  case (Some j)
  obtain j' w' where u: "run_update u (j, sworld s) = (j', w')" by fastforce
  note jo = sys_ok_parts(5)[OF ok Some]
  let ?j = "j'\<lparr>updated_at := now w'\<rparr>"
  have r: "sworld (job_update k0 u s) = w'" "jstore (job_update k0 u s) = put k0 ?j (jstore s)"
    using Some u by (simp_all add: job_update_def store_update_def)
  have "terminal_event ?j = terminal_event j'" by (cases "status j'") (simp_all add: terminal_event_def)
  then have at: "\<forall>c \<in> set (event_channels j). attends (sworld s) w' ?j c"
    using update_attends[OF jo u] by (simp add: attends_def)
  have js: "job_step j ?j" using run_update_result(2)[OF jo u] by simp
  show ?thesis unfolding r by (rule keeps_put[OF Some js at]) (simp add: lookup_put)
qed

lemma sys_exec_keeps:
  assumes ok: "sys_ok s" and e: "sys_exec e s = Some s'" and j: "lookup (jstore s) k = Some j"
    and g: "\<not> gone (sworld s) (jstore s) k"
  shows "kept_by e s s' k j"
proof -
  have ks: "keys_ok (jstore s)" using ok by (simp add: sys_ok_def data_ok_def)
  have kept: "kept_by e s s' k j" if "keeps_job (sworld s, jstore s) (sworld s', jstore s') k"
    using that j g unfolding kept_by_def keeps_job_def by auto
  show ?thesis
  proof (cases e)
    case (Next i)
    then show ?thesis using e keeps_next[OF ok]
      by (intro kept) (auto simp: worker_next_def split: if_splits prod.splits)
  next
    case (DrainNext i)
    then show ?thesis using e keeps_next[OF ok]
      by (intro kept) (auto simp: drain_next_def split: if_splits prod.splits)
  next
    case (StartJob i)
    then obtain k0 where s': "s' = with_transition k0 Start (\<lambda>out. goto i (if out = Applied then Started k0 else Idle)) s"
      using e by (auto simp: worker_start_def split: option.splits worker.splits)
    show ?thesis by (rule kept, rule keeps_with_transition[OF ok _ _ s']) simp_all
  next
    case (Get i)
    then show ?thesis using e
      by (intro kept keeps_same) (auto simp: worker_get_def split: option.splits worker.splits)
  next
    case (Result i r)
    then obtain k0 where s': "s' = (case r of Inr x \<Rightarrow> with_transition k0 (Complete x) (\<lambda>_. goto i Idle) s | Inl e \<Rightarrow> goto i (Failing k0 e) s)"
      using e by (auto simp: worker_result_def split: option.splits worker.splits)
    show ?thesis
    proof (cases r)
      case (Inl x)
      then show ?thesis using s' by (intro kept keeps_same) simp
    next
      case (Inr x)
      then have s2: "s' = with_transition k0 (Complete x) (\<lambda>_. goto i Idle) s" using s' by simp
      show ?thesis by (rule kept, rule keeps_with_transition[OF ok _ _ s2]) simp_all
    qed
  next
    case (Decide i)
    then show ?thesis using e
      by (intro kept keeps_same) (auto simp: worker_decide_def Let_def split: option.splits worker.splits)
  next
    case (Apply i)
    then obtain k0 d where w: "worker_at s i = Some (Deciding k0 d)"
      and s': "s' = with_transition k0 (case d of None \<Rightarrow> Retry | Some e \<Rightarrow> Fail e) (\<lambda>_. goto i Idle) s"
      using e by (auto simp: worker_apply_def split: option.splits worker.splits)
    show ?thesis by (rule kept, rule keeps_with_transition[OF ok _ deciding_retry[OF ok w] s']) simp
  next
    case (DrainCancel i)
    then obtain k0 where s': "s' = with_transition k0 Cancel (\<lambda>_. goto i Idle) s"
      using e by (auto simp: drain_cancel_def split: option.splits worker.splits)
    show ?thesis by (rule kept, rule keeps_with_transition[OF ok _ _ s']) simp_all
  next
    case (Update k0 u)
    then have "s' = job_update k0 u s" using e by simp
    then show ?thesis using keeps_update[OF ok, of k0 u k] by (intro kept) simp
  next
    case (Submit k0 b ps)
    have "k \<in> set (used_ids s)" using sys_ok_parts(4)[OF ok] j unfolding ids_ok_def by blast
    then show ?thesis using e Submit keeps_submit[OF ok] by (intro kept) (auto split: if_splits)
  next
    case (CancelJob k0)
    then have s': "s' = with_transition k0 Cancel (\<lambda>_ s. s) s"
      using e by (auto simp: cancel_job_def with_transition_def split: prod.splits)
    show ?thesis by (rule kept, rule keeps_with_transition[OF ok _ _ s']) simp_all
  next
    case (Listen k0 d)
    then show ?thesis using e keeps_listen[OF ok _ _ j] by (auto split: if_splits)
  next
    case (Disconnect c)
    then show ?thesis using e by (intro kept keeps_same) (auto simp: disconnect_def)
  next
    case (Elapse dt)
    then show ?thesis using e by (intro kept keeps_same) (auto simp: elapse_def)
  next
    case CheckFull
    then show ?thesis using e ks
      by (intro kept keeps_evict) (auto simp: check_full_def store_is_full_def Let_def)
  qed
qed

section \<open>The log of a channel\<close>

definition chan_step :: "world \<Rightarrow> world \<Rightarrow> bool" where
  "chan_step w w' \<longleftrightarrow> (\<forall>c. prefix (ch_log (chans w c)) (ch_log (chans w' c)) \<and> ch_open (chans w' c) = ch_open (chans w c))"

lemma chan_step_same: "chans w' = chans w \<Longrightarrow> chan_step w w'"
  by (simp add: chan_step_def)

lemma chan_step_trans: "chan_step a b \<Longrightarrow> chan_step b c \<Longrightarrow> chan_step a c"
  unfolding chan_step_def by (metis prefix_order.trans)

lemma send_step: "chan_step w (snd (send e c w))"
  by (simp add: chan_step_def send_def)

lemma send_all_step: "chan_step w (snd (send_all e cs w))"
proof (induction e cs w rule: send_all.induct)
  case (2 e c cs w)
  show ?case using chan_step_trans[OF send_step[of w e c] "2"[OF refl prod.collapse]] by (simp add: case_prod_beta Let_def)
qed (simp add: chan_step_same)

lemma broadcast_step: "chan_step w (snd (broadcast e (j, w)))"
  using send_all_step by (simp add: broadcast_def case_prod_beta chan_step_same)

lemma transition_step: "chan_step w (snd (snd (transition t (j, w))))"
proof -
  obtain j1 w1 where m: "moved t (j, w) = (j1, w1)" by fastforce
  have "chans w1 = chans w" using moved_simps(5)[of t j w] m by simp
  then have "chan_step w w1" by (rule chan_step_same)
  from chan_step_trans[OF this broadcast_step[of w1 "moved_event j1" j1]] show ?thesis by (simp add: transition_result m chan_step_same)
qed

lemma store_transition_step: "chan_step w (fst (snd (store_transition k t (w, st))))"
  using transition_step by (cases "lookup st k") (simp_all add: store_transition_def case_prod_beta Let_def chan_step_same)

lemma run_update_step: "chan_step w (snd (run_update u (j, w)))"
  using broadcast_step by (cases u) (simp_all add: Let_def chan_step_same)

lemma subscribe_step: "chan_step w (snd (job_subscribe c (j, w)))"
  using send_step by (simp add: job_subscribe_def Let_def chan_step_same split: option.split)

lemma with_transition_step:
  "(\<And>out s1. sworld (cont out s1) = sworld s1) \<Longrightarrow> chan_step (sworld s) (sworld (with_transition k t cont s))"
  using store_transition_step[of "sworld s" k t "jstore s"] by (simp add: with_transition_def case_prod_beta)

lemma submit_world: "sworld (snd (submit_job k b ps s)) = sworld s"
  by (simp add: submit_job_def enqueue_def check_full_def case_prod_beta Let_def)

lemma sys_exec_chan_step:
  assumes "sys_exec e s = Some s'" "\<And>c. e \<noteq> Disconnect c"
  shows "chan_step (sworld s) (sworld s')"
  using assms
proof (cases e)
  case (Update k u)
  then show ?thesis using assms(1) run_update_step
    by (auto simp: job_update_def store_update_def chan_step_same case_prod_beta split: option.splits)
next
  case (Listen k c)
  then show ?thesis using assms(1) subscribe_step
    by (auto simp: job_events_def store_subscribe_def chan_step_same case_prod_beta split: if_splits option.splits)
next
  case (CancelJob k)
  then show ?thesis using assms(1) store_transition_step by (auto simp: cancel_job_def case_prod_beta)
next
  case (Submit k b ps)
  then show ?thesis using assms(1) by (auto simp: submit_world chan_step_same split: if_splits)
qed (auto simp: worker_next_def worker_start_def worker_get_def worker_result_def worker_decide_def worker_apply_def
    drain_next_def drain_cancel_def elapse_def check_full_def case_prod_beta Let_def
    intro!: chan_step_same with_transition_step split: if_splits option.splits worker.splits sum.splits)

section \<open>A listener along a run\<close>

definition ended :: "world \<Rightarrow> nat \<Rightarrow> bool" where
  "ended w c \<longleftrightarrow> (\<exists>l e. ch_log (chans w c) = l @ [e] \<and> ev_terminal e \<and> (\<forall>x \<in> set l. \<not> ev_terminal x))"

lemma ended_grows:
  assumes "ended w c" "prefix (ch_log (chans w c)) (ch_log (chans w' c))" "log_ok (ch_log (chans w' c))"
  shows "ended w' c"
proof -
  obtain l e where l: "ch_log (chans w c) = l @ [e]" "ev_terminal e" "\<forall>x \<in> set l. \<not> ev_terminal x"
    using assms(1) by (auto simp: ended_def)
  obtain zs where z: "ch_log (chans w' c) = (l @ [e]) @ zs" using assms(2) l(1) by (auto simp: prefix_def)
  have "zs = []"
  proof (rule ccontr)
    assume "zs \<noteq> []"
    then have "e \<in> set (butlast (ch_log (chans w' c)))" by (simp add: z butlast_append)
    then show False using assms(3) l(2) by (auto simp: log_ok_def)
  qed
  then show ?thesis using l z by (auto simp: ended_def)
qed

lemma sys_exec_ended:
  assumes "sys_ok s" "sys_exec e s = Some s'" "ended (sworld s) c"
  shows "ended (sworld s') c"
proof -
  have "log_ok (ch_log (chans (sworld s') c))"
    using sys_exec_ok[OF assms(1,2)] by (simp add: sys_ok_def chan_ok_def)
  moreover have "prefix (ch_log (chans (sworld s) c)) (ch_log (chans (sworld s') c))"
    using sys_exec_chan_step[OF assms(2)] assms(2)
    by (cases e) (auto simp: chan_step_def disconnect_def)
  ultimately show ?thesis using ended_grows assms(3) by blast
qed

lemma sys_run_ended: "sys_ok s \<Longrightarrow> sys_run es s = Some s' \<Longrightarrow> ended (sworld s) c \<Longrightarrow> ended (sworld s') c"
proof (induction es arbitrary: s)
  case (Cons e es)
  then obtain s1 where "sys_exec e s = Some s1" "sys_run es s1 = Some s'" by (auto simp: bind_eq_Some_conv)
  then show ?case using Cons sys_exec_ended sys_exec_ok by blast
qed simp

lemma attends_ended:
  assumes "sys_ok s" "lookup (jstore s) k = Some j" "c \<in> set (event_channels j)" "ch_open (chans (sworld s) c)"
    and "attends (sworld s) w' j' c"
  shows "c \<in> set (event_channels j') \<or> ended w' c"
proof -
  have "\<forall>e \<in> set (ch_log (chans (sworld s) c)). \<not> ev_terminal e"
    using sys_ok_parts(3)[OF assms(1)] assms(2,3) unfolding chan_ok_def unended_def by blast
  moreover have "ev_terminal (the (terminal_event j'))" if "is_terminal (status j')"
    using that terminal_event_None[of j'] terminal_event_Some[of j'] by auto
  ultimately show ?thesis using assms(4,5) by (auto simp: attends_def ended_def)
qed

lemma sys_run_listener:
  assumes "sys_ok s" "sys_run es s = Some s'" "lookup (jstore s) k = Some j" "c \<in> set (event_channels j)"
    and "ch_open (chans (sworld s) c)" "Disconnect c \<notin> set es" "\<forall>d. Listen k d \<notin> set es"
  shows "(\<exists>j'. lookup (jstore s') k = Some j' \<and> \<not> is_terminal (status j') \<and> c \<in> set (event_channels j')) \<or> ended (sworld s') c"
  using assms
proof (induction es arbitrary: s j)
  case Nil
  then have "\<not> is_terminal (status j)" using sys_ok_parts(5)[OF Nil(1,3)] by (auto simp: job_ok_def)
  then show ?case using Nil by auto
next
  case (Cons e es)
  then obtain s1 where s1: "sys_exec e s = Some s1" "sys_run es s1 = Some s'" by (auto simp: bind_eq_Some_conv)
  have "\<not> is_terminal (status j)" using sys_ok_parts(5)[OF Cons(2,4)] Cons(5) by (auto simp: job_ok_def)
  then have "\<not> gone (sworld s) (jstore s) k" using gone_terminal Cons(4) by blast
  from sys_exec_keeps[OF Cons(2) s1(1) Cons(4) this] Cons(5,8) obtain j1 where
    j1: "lookup (jstore s1) k = Some j1" "attends (sworld s) (sworld s1) j1 c" by (auto simp: kept_by_def)
  note ok1 = sys_exec_ok[OF Cons(2) s1(1)]
  from attends_ended[OF Cons(2,4,5,6) j1(2)] show ?case
  proof
    assume c: "c \<in> set (event_channels j1)"
    have "ch_open (chans (sworld s1) c)"
      using sys_exec_chan_step[OF s1(1)] s1(1) Cons(6,7)
      by (cases e) (auto simp: chan_step_def disconnect_def)
    then show ?thesis using Cons(1)[OF ok1 s1(2) j1(1) c] Cons(7,8) by auto
  next
    assume "ended (sworld s1) c"
    then show ?thesis using sys_run_ended[OF ok1 s1(2)] by blast
  qed
qed

section \<open>Submission and subscription\<close>

lemma submit_enqueues:
  assumes "submit_job k b ps s = (Inr k', s1)"
  shows "k' = k \<and> k \<in> set (queue (jstore s1)) \<and> lookup (jstore s1) k = Some (job_queued k (now (sworld s)) b ps)"
  using assms
  by (auto simp: submit_job_def enqueue_def check_full_def store_create_def store_is_full_def lookup_put job_queued_def
      Let_def split: if_splits prod.splits sum.splits store_error.splits)

lemma listen_joins:
  assumes ok: "sys_ok s" and c: "c \<notin> set (used_chans s)" and j: "lookup (jstore s) k = Some j"
    and o: "ch_open (chans (sworld s) c)"
  shows "fst (job_events k c s) = Inr c
    \<and> (if is_terminal (status j) then ch_log (chans (sworld (snd (job_events k c s))) c) = [the (terminal_event j)]
       else \<exists>j'. lookup (jstore (snd (job_events k c s))) k = Some j' \<and> c \<in> set (event_channels j'))"
proof -
  have "ch_log (chans (sworld s) c) = []" using sys_ok_parts(3)[OF ok] c by (simp add: chan_ok_def)
  then show ?thesis using j o
    by (auto simp: job_events_def store_subscribe_def subscribe_result deliver_log lookup_put Let_def case_prod_beta)
qed

end
