(* ===== verification/Job_Api.thy ===== *)
theory Job_Api
  imports Job_Steps
begin

text \<open>
  The contract of the \<open>JobStore\<close> trait as a locale, with the trait's default methods, and the
  properties of the job system. The locale is interpreted on the in-memory store, which
  overrides the defaults; the property compares the two.
\<close>

section \<open>The default methods of the trait\<close>

definition default_status :: "('s \<Rightarrow> string \<Rightarrow> 'p job option) \<Rightarrow> string \<Rightarrow> world \<times> 's \<Rightarrow> status_response option" where
  "default_status get k = (\<lambda>(w, s). map_option (job_status_response w) (get s k))"

type_synonym ('p, 's) update_fn =
  "string \<Rightarrow> ('p job \<times> world \<Rightarrow> 'p job \<times> world) \<Rightarrow> world \<times> 's \<Rightarrow> (store_error + unit) \<times> world \<times> 's"

definition default_subscribe :: "('s \<Rightarrow> string \<Rightarrow> 'p job option) \<Rightarrow> ('p, 's) update_fn
    \<Rightarrow> string \<Rightarrow> nat \<Rightarrow> world \<times> 's \<Rightarrow> bool \<times> world \<times> 's" where
  "default_subscribe get update k c = (\<lambda>(w, s).
     case get s k of
       None \<Rightarrow> (False, w, s)
     | Some _ \<Rightarrow> (True, snd (update k (job_subscribe c) (w, s))))"

text \<open>
  The outcome comes back from the closure through a one-shot channel: it is the outcome on the
  job that \<open>update\<close> finds. Nothing runs in between here, so that is the job \<open>get\<close> returned.
\<close>

definition default_transition :: "('s \<Rightarrow> string \<Rightarrow> 'p job option) \<Rightarrow> ('p, 's) update_fn \<Rightarrow> (string \<Rightarrow> 's \<Rightarrow> 's)
    \<Rightarrow> string \<Rightarrow> job_transition \<Rightarrow> world \<times> 's \<Rightarrow> transition_outcome \<times> world \<times> 's" where
  "default_transition get update requeue k t = (\<lambda>(w, s).
     case get s k of
       None \<Rightarrow> (Missing, w, s)
     | Some j \<Rightarrow>
         let out = fst (transition t (j, w));
             (_, w', s') = update k (\<lambda>jw. snd (transition t jw)) (w, s)
         in (out, w', if t = Retry \<and> out = Applied then requeue k s' else s'))"

section \<open>The contract\<close>

definition stamp :: "'p job \<times> world \<Rightarrow> 'p job" where
  "stamp jw = (fst jw)\<lparr>updated_at := now (snd jw)\<rparr>"

locale job_store_api =
  fixes get :: "'s \<Rightarrow> string \<Rightarrow> 'p job option"
    and update :: "('p, 's) update_fn"
    and requeue :: "string \<Rightarrow> 's \<Rightarrow> 's"
  assumes update_None: "get s k = None \<Longrightarrow> update k f (w, s) = (Inl JobNotFound, w, s)"
    and update_Some: "get s k = Some j \<Longrightarrow> \<exists>s'. update k f (w, s) = (Inr (), snd (f (j, w)), s')
        \<and> get s' k = Some (stamp (f (j, w))) \<and> (\<forall>k'. k' \<noteq> k \<longrightarrow> get s' k' = get s k')"
    and requeue_get: "get (requeue k s) = get s"
begin

lemma transition_found:
  assumes "get s k = Some j" "transition t (j, w) = (out, j', w')"
  shows "\<exists>s'. default_transition get update requeue k t (w, s) = (out, w', s')
    \<and> get s' k = Some (stamp (j', w')) \<and> (\<forall>k'. k' \<noteq> k \<longrightarrow> get s' k' = get s k')"
proof -
  from update_Some[OF assms(1), of "\<lambda>jw. snd (transition t jw)" w] assms(2) obtain s' where
    "update k (\<lambda>jw. snd (transition t jw)) (w, s) = (Inr (), w', s')"
    "get s' k = Some (stamp (j', w'))" "\<forall>k'. k' \<noteq> k \<longrightarrow> get s' k' = get s k'" by auto
  then show ?thesis using assms by (simp add: default_transition_def requeue_get)
qed

lemma transition_missing:
  "get s k = None \<Longrightarrow> default_transition get update requeue k t (w, s) = (Missing, w, s)"
  by (simp add: default_transition_def)

lemma subscribe_found:
  assumes "get s k = Some j"
  shows "\<exists>s'. default_subscribe get update k c (w, s) = (True, snd (job_subscribe c (j, w)), s')
    \<and> get s' k = Some (stamp (job_subscribe c (j, w))) \<and> (\<forall>k'. k' \<noteq> k \<longrightarrow> get s' k' = get s k')"
  using update_Some[OF assms, of "job_subscribe c" w] assms by (auto simp: default_subscribe_def)

end

interpretation mem: job_store_api lookup store_update store_requeue
proof unfold_locales
  fix st :: "'p job_store" and k f w
  show "lookup st k = None \<Longrightarrow> store_update k f (w, st) = (Inl JobNotFound, w, st)"
    by (simp add: store_update_def)
  show "\<exists>st'. store_update k f (w, st) = (Inr (), snd (f (j, w)), st') \<and> lookup st' k = Some (stamp (f (j, w)))
      \<and> (\<forall>k'. k' \<noteq> k \<longrightarrow> lookup st' k' = lookup st k')" if "lookup st k = Some j" for j
    using that by (cases "f (j, w)") (simp add: store_update_def lookup_put stamp_def)
  show "lookup (store_requeue k st) = lookup st" by (simp add: store_requeue_def)
qed

lemma default_transition_queue:
  "queue (snd (snd (default_transition lookup store_update store_requeue k t (w, st))))
     = queue (snd (snd (store_transition k t (w, st))))"
proof (cases "lookup st k")
  case None
  then show ?thesis by (simp add: default_transition_def store_transition_def)
next
  case (Some j)
  obtain out j' w' where "transition t (j, w) = (out, j', w')" by (metis prod_cases3)
  then show ?thesis using Some
    by (simp add: default_transition_def store_transition_def store_update_def store_requeue_def Let_def)
qed

lemma applied_stamp: "transition t (j, w) = (Applied, j', w') \<Longrightarrow> stamp (j', w') = j'"
proof -
  assume a: "transition t (j, w) = (Applied, j', w')"
  obtain j1 w1 where m: "moved t (j, w) = (j1, w1)" by fastforce
  have now1: "now w1 = now w" "updated_at j1 = now w1"
    using moved_simps(6)[of t j w] m by (auto simp: moved_def release_terminal_def)
  have b: "updated_at (fst (broadcast e (j1, w1))) = updated_at j1 \<and> now (snd (broadcast e (j1, w1))) = now w1" for e
  proof -
    have "now (snd (send_all e cs v)) = now v" for cs v
      by (induction e cs v rule: send_all.induct) (auto simp: send_def Let_def case_prod_beta)
    then show ?thesis by (simp add: broadcast_def case_prod_beta)
  qed
  have "(j', w') = broadcast (moved_event j1) (j1, w1)"
    using a m by (auto simp: transition_result split: if_splits)
  then show "stamp (j', w') = j'" using b[of "moved_event j1"] now1 by (simp add: stamp_def prod_eq_iff)
qed

section \<open>Properties\<close>

text \<open>
  C4: no job is lost and none runs twice. In every state the job system reaches, a key stands at
  most once in the queue, with at most one worker, and not in both; a queued job is in the queue
  or claimed; a job in processing has exactly one worker that runs it. A submission that is
  accepted puts its job into the store and its key into the queue. And whatever event comes next,
  a job of the store stays there with its parameters and, until it is finished, its upload; only
  a finished job leaves it, and only when its time to live is over.
\<close>
theorem jobs_owned_once:
  assumes "sys_reach (sys_new l n R L) s"
  shows "distinct (queue (jstore s))
    \<and> (\<forall>i < length (workers s). \<forall>k. holder (workers s ! i) = Some k \<longrightarrow> k \<notin> set (queue (jstore s)))
    \<and> (\<forall>i < length (workers s). \<forall>m < length (workers s). \<forall>k. holder (workers s ! i) = Some k \<longrightarrow>
         holder (workers s ! m) = Some k \<longrightarrow> i = m)
    \<and> (\<forall>k j. lookup (jstore s) k = Some j \<longrightarrow> status j = Queued \<longrightarrow>
         k \<in> set (queue (jstore s)) \<or> (\<exists>i < length (workers s). waits_with (workers s ! i) k))
    \<and> (\<forall>k j. lookup (jstore s) k = Some j \<longrightarrow> status j = Processing \<longrightarrow>
         (\<exists>!i. i < length (workers s) \<and> busy_with (workers s ! i) k))
    \<and> (\<forall>k b ps k' s1. submit_job k b ps s = (Inr k', s1) \<longrightarrow>
         k' = k \<and> k \<in> set (queue (jstore s1)) \<and> lookup (jstore s1) k = Some (job_queued k (now (sworld s)) b ps))
    \<and> (\<forall>e s1 k j. sys_exec e s = Some s1 \<longrightarrow> lookup (jstore s) k = Some j \<longrightarrow>
         (\<exists>j'. lookup (jstore s1) k = Some j' \<and> params j' = params j \<and> (is_terminal (status j') \<or> body j' = body j))
         \<or> (is_terminal (status j) \<and> jobs_ttl_secs l \<noteq> 0 \<and> of_nat (jobs_ttl_secs l) < now (sworld s) - updated_at j))"
proof -
  have ok: "sys_ok s" by (rule sys_reach_ok[OF assms])
  have own: "own_ok (max_retries s) (jstore s) (workers s)" using ok by (simp add: sys_ok_def)
  have t: "tickets_ok (queue (jstore s)) (workers s)" by (rule own_tickets[OF own])
  have q: "distinct (queue (jstore s))"
      "\<forall>i < length (workers s). \<forall>k. holder (workers s ! i) = Some k \<longrightarrow> k \<notin> set (queue (jstore s))"
      "\<forall>i < length (workers s). \<forall>m < length (workers s). \<forall>k. holder (workers s ! i) = Some k \<longrightarrow>
         holder (workers s ! m) = Some k \<longrightarrow> i = m"
    using t unfolding tickets_ok_def by blast+
  have w: "\<forall>k j. lookup (jstore s) k = Some j \<longrightarrow> status j = Queued \<longrightarrow>
      k \<in> set (queue (jstore s)) \<or> (\<exists>i < length (workers s). waits_with (workers s ! i) k)"
    using own unfolding own_ok_def job_owned_def by blast
  have "\<exists>i < length (workers s). busy_with (workers s ! i) k"
    if "lookup (jstore s) k = Some j" "status j = Processing" for k j
    using own that unfolding own_ok_def job_owned_def by blast
  then have p: "\<forall>k j. lookup (jstore s) k = Some j \<longrightarrow> status j = Processing \<longrightarrow>
      (\<exists>!i. i < length (workers s) \<and> busy_with (workers s ! i) k)"
    using q(3) busy_holder by blast
  have "(\<exists>j'. lookup (jstore s1) k = Some j' \<and> params j' = params j \<and> (is_terminal (status j') \<or> body j' = body j))
      \<or> (is_terminal (status j) \<and> jobs_ttl_secs l \<noteq> 0 \<and> of_nat (jobs_ttl_secs l) < now (sworld s) - updated_at j)"
    if "sys_exec e s = Some s1" "lookup (jstore s) k = Some j" for e s1 k j
    using sys_exec_keeps[OF ok that] sys_reach_const[OF assms] that(2)
    by (cases "gone (sworld s) (jstore s) k") (auto simp: gone_def kept_by_def job_step_def)
  then show ?thesis using submit_enqueues by (intro conjI q w p) blast+
qed

definition demo_limits :: job_limits where
  "demo_limits = \<lparr>jobs_ttl_secs = 60, jobs_max = 2, jobs_max_bytes = 100\<rparr>"

definition demo_events :: "sys_event list" where
  "demo_events = [Submit ''a'' [1, 2] default_params, Next 0, StartJob 0]"

lemma demo_run: "\<exists>s. sys_reach (sys_new demo_limits 1 3 50) (s :: export_params sys) \<and> sys_run demo_events (sys_new demo_limits 1 3 50) = Some s
    \<and> workers s = [Started ''a''] \<and> map_option status (lookup (jstore s) ''a'') = Some Processing
    \<and> map_option attempts (lookup (jstore s) ''a'') = Some 1"
proof -
  let ?s0 = "sys_new demo_limits 1 3 50 :: export_params sys"
  have "\<exists>s. sys_run demo_events ?s0 = Some s \<and> workers s = [Started ''a'']
      \<and> map_option status (lookup (jstore s) ''a'') = Some Processing \<and> map_option attempts (lookup (jstore s) ''a'') = Some 1"
    by (simp add: demo_events_def sys_new_def demo_limits_def store_new_def submit_job_def enqueue_def check_full_def store_is_full_def default_params_def store_create_def evict_expired_def
        expired_def at_capacity_def resident_body_bytes_def job_queued_def put_def worker_next_def worker_at_def
        store_next_queued_def lookup_def goto_def worker_start_def with_transition_def store_transition_def
        transition_def transition_allowed_def release_terminal_def terminal_event_def broadcast_def compatible_def Let_def)
  then show ?thesis using sys_run_reach[OF sys_init] by blast
qed

lemma jobs_owned_once_witness:
  "\<exists>s :: export_params sys. sys_reach (sys_new demo_limits 1 3 50) s \<and> (\<exists>!i. i < length (workers s) \<and> busy_with (workers s ! i) ''a'')"
proof -
  obtain s :: "export_params sys" where s: "sys_reach (sys_new demo_limits 1 3 50) s"
    "map_option status (lookup (jstore s) ''a'') = Some Processing" using demo_run by blast
  have "\<forall>k j. lookup (jstore s) k = Some j \<longrightarrow> status j = Processing \<longrightarrow>
      (\<exists>!i. i < length (workers s) \<and> busy_with (workers s ! i) k)"
    using jobs_owned_once[OF s(1)] by (elim conjE)
  moreover obtain j where "lookup (jstore s) ''a'' = Some j" "status j = Processing" using s(2) by auto
  ultimately have "\<exists>!i. i < length (workers s) \<and> busy_with (workers s ! i) ''a''" by blast
  then show ?thesis using s(1) by (intro exI[of _ s] conjI)
qed

text \<open>
  C27: bounds of every reachable state: at most \<open>jobs_max\<close> jobs and at most one upload more than
  \<open>jobs_max_bytes\<close> of bodies; no job is started more than \<open>retries + 1\<close> times; a job is done
  exactly when it has a result and failed exactly when it has an error; a finished job holds
  neither its upload nor listeners; and no job has more than 32 listeners.
\<close>
theorem job_bounds:
  assumes "sys_reach (sys_new l n R L) s"
  shows "length (jobs (jstore s)) \<le> jobs_max l \<and> resident_body_bytes (jstore s) \<le> jobs_max_bytes l + L
    \<and> (\<forall>k j. lookup (jstore s) k = Some j \<longrightarrow>
         attempts j \<le> R + 1 \<and> (status j = Done \<longleftrightarrow> result j \<noteq> None) \<and> (status j = Failed \<longleftrightarrow> error j \<noteq> None)
         \<and> (is_terminal (status j) \<longrightarrow> body j = [] \<and> event_channels j = [])
         \<and> length (event_channels j) \<le> MAX_JOB_EVENT_SUBSCRIBERS)"
  using sys_reach_ok[OF assms] sys_reach_const[OF assms]
  by (auto simp: sys_ok_def data_ok_def job_ok_def)

lemma job_bounds_witness:
  "\<exists>s :: export_params sys. map_option attempts (lookup (jstore s) ''a'') = Some 1 \<and> length (jobs (jstore s)) \<le> 2"
proof -
  obtain s :: "export_params sys" where s: "sys_reach (sys_new demo_limits 1 3 50) s"
    "map_option attempts (lookup (jstore s) ''a'') = Some 1" using demo_run by blast
  from job_bounds[OF s(1)] s(2) show ?thesis by (auto simp: demo_limits_def)
qed

text \<open>
  C26: a finished job stays as it is. Once a reachable state shows a job as done, failed or
  cancelled, then after any further events, whatever workers and clients still send to it,
  it has the same status, result and error, or it has been evicted and stays away.
\<close>
theorem terminal_jobs_are_final:
  assumes "sys_reach (sys_new l n R L) s" and "lookup (jstore s) k = Some j" "is_terminal (status j)"
    and "sys_run es s = Some s'"
  shows "lookup (jstore s') k = None \<or> (\<exists>j'. lookup (jstore s') k = Some j'
     \<and> status j' = status j \<and> result j' = result j \<and> error j' = error j)"
proof -
  have ok: "sys_ok s" by (rule sys_reach_ok[OF assms(1)])
  have "k \<in> set (used_ids s)" using sys_ok_parts(4)[OF ok] assms(2) unfolding ids_ok_def by blast
  from sys_run_final[OF ok assms(4) this, of "status j" "result j" "error j"] assms(2,3) show ?thesis by auto
qed

text \<open>A job that is cancelled while it runs; its worker's result comes too late.\<close>

lemma terminal_jobs_are_final_witness:
  "\<exists>s s' :: export_params sys. map_option status (lookup (jstore s) ''a'') = Some Cancelled
     \<and> sys_run [Result 0 (Inl (Text ''late'')), CheckFull] s = Some s'
     \<and> (lookup (jstore s') ''a'' = None \<or> map_option status (lookup (jstore s') ''a'') = Some Cancelled)"
proof -
  let ?s0 = "sys_new demo_limits 1 3 50 :: export_params sys"
  let ?es = "[Submit ''a'' [1, 2] default_params, Next 0, StartJob 0, Get 0, CancelJob ''a'']"
  have "\<exists>s. sys_run ?es ?s0 = Some s \<and> map_option status (lookup (jstore s) ''a'') = Some Cancelled
      \<and> (\<exists>s'. sys_run [Result 0 (Inl (Text ''late'')), CheckFull] s = Some s')"
    by (simp add: sys_new_def demo_limits_def store_new_def submit_job_def enqueue_def check_full_def store_is_full_def default_params_def store_create_def evict_expired_def
        expired_def at_capacity_def resident_body_bytes_def job_queued_def put_def worker_next_def worker_at_def
        store_next_queued_def lookup_def goto_def worker_start_def with_transition_def store_transition_def
        transition_def transition_allowed_def release_terminal_def terminal_event_def broadcast_def compatible_def
        worker_get_def cancel_job_def worker_result_def Let_def)
  then obtain s s' where s: "sys_run ?es ?s0 = Some s" "map_option status (lookup (jstore s) ''a'') = Some Cancelled"
    "sys_run [Result 0 (Inl (Text ''late'')), CheckFull] s = Some s'" by blast
  then obtain j where j: "lookup (jstore s) ''a'' = Some j" "status j = Cancelled" by auto
  have "is_terminal (status j)" by (simp add: j)
  from terminal_jobs_are_final[OF sys_run_reach[OF sys_init s(1)] j(1) this s(3)] j s show ?thesis by fastforce
qed

text \<open>
  C28: what a listener hears. In every reachable state a channel has heard at most one terminal
  event, as its last, and the listeners of a job are those of an unfinished job and have heard
  none. A new listener of a finished job hears its final event at once, and of an unfinished job
  it joins the listeners. Whatever event comes next, a listener of a job stays one or, when this
  event finishes the job, hears as its next event the one of the job's final status, unless
  it had closed its stream or was the oldest of 32 open listeners when another one came. So along
  any run without these two, a listener hears exactly one terminal event, its last, and until
  then it is among the listeners of the job, which is still in the store.
\<close>
theorem listeners_hear_the_end:
  assumes "sys_reach (sys_new l n R L) s"
  shows "(\<forall>c. \<forall>e \<in> set (butlast (ch_log (chans (sworld s) c))). \<not> ev_terminal e)
    \<and> (\<forall>k j c. lookup (jstore s) k = Some j \<longrightarrow> c \<in> set (event_channels j) \<longrightarrow>
         \<not> is_terminal (status j) \<and> (\<forall>e \<in> set (ch_log (chans (sworld s) c)). \<not> ev_terminal e))
    \<and> (\<forall>k j c. lookup (jstore s) k = Some j \<longrightarrow> c \<notin> set (used_chans s) \<longrightarrow> ch_open (chans (sworld s) c) \<longrightarrow>
         fst (job_events k c s) = Inr c
         \<and> (if is_terminal (status j) then ch_log (chans (sworld (snd (job_events k c s))) c) = [the (terminal_event j)]
            else \<exists>j'. lookup (jstore (snd (job_events k c s))) k = Some j' \<and> c \<in> set (event_channels j')))
    \<and> (\<forall>e s1 k j c. sys_exec e s = Some s1 \<longrightarrow> lookup (jstore s) k = Some j \<longrightarrow> c \<in> set (event_channels j) \<longrightarrow>
         (\<exists>j'. lookup (jstore s1) k = Some j'
            \<and> (c \<in> set (event_channels j')
               \<or> is_terminal (status j')
                  \<and> ch_log (chans (sworld s1) c) = ch_log (chans (sworld s) c) @ [the (terminal_event j')]
               \<or> \<not> ch_open (chans (sworld s) c)
               \<or> (\<exists>d. e = Listen k d) \<and> pushed_out (sworld s) j c)))
    \<and> (\<forall>es s1 k j c. sys_run es s = Some s1 \<longrightarrow> lookup (jstore s) k = Some j \<longrightarrow> c \<in> set (event_channels j) \<longrightarrow>
         ch_open (chans (sworld s) c) \<longrightarrow> Disconnect c \<notin> set es \<longrightarrow> (\<forall>d. Listen k d \<notin> set es) \<longrightarrow>
         (\<exists>j'. lookup (jstore s1) k = Some j' \<and> \<not> is_terminal (status j') \<and> c \<in> set (event_channels j'))
         \<or> (\<exists>before e. ch_log (chans (sworld s1) c) = before @ [e] \<and> ev_terminal e \<and> (\<forall>x \<in> set before. \<not> ev_terminal x)))"
proof -
  have ok: "sys_ok s" by (rule sys_reach_ok[OF assms])
  have ch: "chan_ok (sworld s) (jstore s) (used_chans s)" using ok by (simp add: sys_ok_def)
  have live: "\<not> is_terminal (status j)" if "lookup (jstore s) k = Some j" "c \<in> set (event_channels j)" for k j c
    using sys_ok_parts(5)[OF ok that(1)] that(2) by (auto simp: job_ok_def)
  have heard: "\<forall>c. \<forall>e \<in> set (butlast (ch_log (chans (sworld s) c))). \<not> ev_terminal e"
    using ch by (simp add: chan_ok_def log_ok_def)
  have none: "\<forall>k j c. lookup (jstore s) k = Some j \<longrightarrow> c \<in> set (event_channels j) \<longrightarrow>
      \<not> is_terminal (status j) \<and> (\<forall>e \<in> set (ch_log (chans (sworld s) c)). \<not> ev_terminal e)"
    using ch live unfolding chan_ok_def unended_def by blast
  have step: "\<exists>j'. lookup (jstore s1) k = Some j' \<and> (c \<in> set (event_channels j')
      \<or> is_terminal (status j') \<and> ch_log (chans (sworld s1) c) = ch_log (chans (sworld s) c) @ [the (terminal_event j')]
      \<or> \<not> ch_open (chans (sworld s) c) \<or> (\<exists>d. e = Listen k d) \<and> pushed_out (sworld s) j c)"
    if e: "sys_exec e s = Some s1" and j: "lookup (jstore s) k = Some j" and c: "c \<in> set (event_channels j)" for e s1 k j c
  proof -
    have "\<not> gone (sworld s) (jstore s) k" using gone_terminal[OF _ j] live[OF j c] by blast
    from sys_exec_keeps[OF ok e j this] c show ?thesis unfolding kept_by_def attends_def by blast
  qed
  have run: "(\<exists>j'. lookup (jstore s1) k = Some j' \<and> \<not> is_terminal (status j') \<and> c \<in> set (event_channels j'))
      \<or> (\<exists>before e. ch_log (chans (sworld s1) c) = before @ [e] \<and> ev_terminal e \<and> (\<forall>x \<in> set before. \<not> ev_terminal x))"
    if "sys_run es s = Some s1" "lookup (jstore s) k = Some j" "c \<in> set (event_channels j)" "ch_open (chans (sworld s) c)"
      "Disconnect c \<notin> set es" "\<forall>d. Listen k d \<notin> set es" for es s1 k j c
    using sys_run_listener[OF ok that] unfolding ended_def .
  show ?thesis
  proof (intro conjI heard none)
  qed ((intro allI impI, rule listen_joins[OF ok]; assumption), (intro allI impI, rule step; assumption),
      (intro allI impI, rule run; assumption))
qed

text \<open>Two listeners of a running job, one of which leaves; the job is done, and the other hears it.\<close>

lemma listeners_hear_the_end_witness:
  "\<exists>s s1 :: export_params sys. sys_reach (sys_new demo_limits 1 3 50) s
     \<and> sys_run [Listen ''a'' 6] s = Some s1
     \<and> (\<forall>e \<in> set (butlast (ch_log (chans (sworld s) 5))). \<not> ev_terminal e)
     \<and> ch_log (chans (sworld s) 5) = [EvProgress 0 0, EvCancelled] \<and> ch_log (chans (sworld s1) 6) = [EvCancelled]"
proof -
  let ?s0 = "sys_new demo_limits 1 3 50 :: export_params sys"
  let ?es = "[Submit ''a'' [1, 2] default_params, Listen ''a'' 5, Listen ''a'' 4, Disconnect 4, Next 0, StartJob 0, CancelJob ''a'']"
  have "\<exists>s. sys_run ?es ?s0 = Some s \<and> ch_log (chans (sworld s) 5) = [EvProgress 0 0, EvCancelled]
      \<and> (\<exists>s1. sys_run [Listen ''a'' 6] s = Some s1 \<and> ch_log (chans (sworld s1) 6) = [EvCancelled])"
    by (simp add: sys_new_def demo_limits_def store_new_def submit_job_def enqueue_def check_full_def store_is_full_def default_params_def store_create_def evict_expired_def
        expired_def at_capacity_def resident_body_bytes_def job_queued_def put_def worker_next_def worker_at_def
        store_next_queued_def lookup_def goto_def worker_start_def with_transition_def store_transition_def
        transition_def transition_allowed_def release_terminal_def terminal_event_def broadcast_def compatible_def
        cancel_job_def job_events_def store_subscribe_def job_subscribe_def disconnect_def send_def ev_terminal_def
        MAX_JOB_EVENT_SUBSCRIBERS_def Let_def)
  then obtain s s1 where s: "sys_run ?es ?s0 = Some s" "ch_log (chans (sworld s) 5) = [EvProgress 0 0, EvCancelled]"
    "sys_run [Listen ''a'' 6] s = Some s1" "ch_log (chans (sworld s1) 6) = [EvCancelled]" by blast
  have r: "sys_reach ?s0 s" by (rule sys_run_reach[OF sys_init s(1)])
  from listeners_hear_the_end[OF r]
  have "\<forall>c. \<forall>e \<in> set (butlast (ch_log (chans (sworld s) c))). \<not> ev_terminal e" by (elim conjE)
  with s r show ?thesis by blast
qed

text \<open>
  The in-memory store's own \<open>transition\<close> is the default method of the trait, done under one
  lock: same outcome, same events and flags, same queue, same other jobs, and the same job when
  the transition is applied. Where it is rejected the default method still writes the time of
  the update, so it differs in that field only.
\<close>
theorem default_transition_agrees:
  "\<exists>out w' d r. default_transition lookup store_update store_requeue k t (w, st) = (out, w', d)
     \<and> store_transition k t (w, st) = (out, w', r)
     \<and> queue d = queue r \<and> (\<forall>k'. k' \<noteq> k \<longrightarrow> lookup d k' = lookup r k')
     \<and> lookup d k = map_option (\<lambda>j. stamp (j, w')) (lookup r k) \<and> (out = Applied \<longrightarrow> lookup d k = lookup r k)"
proof (cases "lookup st k")
  case None
  then show ?thesis using mem.transition_missing[OF None] by (simp add: store_transition_def)
next
  case (Some j)
  obtain out j' w' where jt: "transition t (j, w) = (out, j', w')" by (metis prod_cases3)
  from mem.transition_found[OF Some jt] obtain d where
    d: "default_transition lookup store_update store_requeue k t (w, st) = (out, w', d)"
      "lookup d k = Some (stamp (j', w'))" "\<forall>k'. k' \<noteq> k \<longrightarrow> lookup d k' = lookup st k'" by blast
  let ?r = "if t = Retry \<and> out = Applied then (put k j' st)\<lparr>queue := queue (put k j' st) @ [k]\<rparr> else put k j' st"
  have r: "store_transition k t (w, st) = (out, w', ?r)"
    using Some jt by (simp add: store_transition_def Let_def)
  have q: "queue d = queue ?r" using default_transition_queue[of k t w st] d(1) r by simp
  have "lookup ?r k = Some j'" "\<forall>k'. k' \<noteq> k \<longrightarrow> lookup ?r k' = lookup st k'" by (simp_all add: lookup_put)
  moreover have "out = Applied \<Longrightarrow> stamp (j', w') = j'" using applied_stamp jt by blast
  ultimately show ?thesis using d r q
    by - (rule exI[of _ out], rule exI[of _ w'], rule exI[of _ d], rule exI[of _ ?r], simp add: lookup_put)
qed

definition demo_store :: "unit job_store" where
  "demo_store = put ''a'' (job_queued ''a'' 0 [] ()) (store_new demo_limits)"

definition demo_world :: world where
  "demo_world = sworld (sys_new demo_limits 1 3 50 :: unit sys)"

lemma default_transition_agrees_witness:
  "lookup (snd (snd (default_transition lookup store_update store_requeue ''a'' Cancel (demo_world, demo_store)))) ''a''
    = lookup (snd (snd (store_transition ''a'' Cancel (demo_world, demo_store)))) ''a''"
proof -
  have "fst (store_transition ''a'' Cancel (demo_world, demo_store)) = Applied"
    by (simp add: demo_store_def store_transition_def lookup_put transition_def transition_allowed_def job_queued_def
        Let_def case_prod_beta)
  with default_transition_agrees[of "''a''" Cancel demo_world demo_store] show ?thesis by auto
qed

end
