(* ===== verification/Rate_Limit.thy ===== *)
theory Rate_Limit
  imports Prelude
begin

text \<open>
  The per-IP rate limiter of \<open>server/rate_limit.rs\<close>: token buckets, their table with its
  evictions, the client address behind a proxy, and the middleware. Tokens and times are floats
  in the source and rationals here (milliseconds of the monotonic clock); the wall clock in
  milliseconds is a natural number. The table is an association list, and its order is the
  order in which the hash map iterates, about which nothing is assumed.
\<close>

unbundle bit_operations_syntax

section \<open>Token bucket\<close>

record token_bucket =
  capacity :: rat
  refill_per_ms :: rat
  tokens :: rat
  last_refill :: rat
  last_seen_ms :: nat

definition bucket_new :: "nat \<Rightarrow> rat \<Rightarrow> rat \<Rightarrow> nat \<Rightarrow> token_bucket" where
  "bucket_new cap refill t t_ms = \<lparr>capacity = of_nat cap, refill_per_ms = refill, tokens = of_nat cap,
     last_refill = t, last_seen_ms = t_ms\<rparr>"

definition refilled :: "rat \<Rightarrow> token_bucket \<Rightarrow> token_bucket" where
  "refilled t b =
     (let elapsed = max (t - last_refill b) 0 in
      if 0 < elapsed
      then b\<lparr>tokens := min (tokens b + elapsed * refill_per_ms b) (capacity b), last_refill := t\<rparr>
      else b)"

definition try_consume :: "rat \<Rightarrow> nat \<Rightarrow> token_bucket \<Rightarrow> bool \<times> token_bucket" where
  "try_consume t t_ms b0 =
     (let b = (refilled t b0)\<lparr>last_seen_ms := t_ms\<rparr> in
      if 1 \<le> tokens b then (True, b\<lparr>tokens := tokens b - 1\<rparr>) else (False, b))"

section \<open>The limiter\<close>

datatype ip_addr = V4 "8 word" "8 word" "8 word" "8 word" 
  | V6 "16 word" "16 word" "16 word" "16 word" "16 word" "16 word" "16 word" "16 word"

definition MAX_RPM :: nat where "MAX_RPM = 60000"
definition MAX_BUCKETS :: nat where "MAX_BUCKETS = 100000"

definition rpm_new :: "nat \<Rightarrow> string + nat" where
  "rpm_new r = (if r = 0 then Inl ''rpm must be > 0'' else if MAX_RPM < r then Inl ''rpm must be <= 60000'' else Inr r)"

definition burst_new :: "nat \<Rightarrow> string + nat" where
  "burst_new b = (if b < 1 then Inl ''burst must be >= 1'' else Inr b)"

record limiter =
  buckets :: "(ip_addr \<times> token_bucket) list"
  burst :: nat
  rate :: rat
  effective_rpm :: nat
  max_entries :: nat

definition limiter_new :: "nat \<Rightarrow> nat \<Rightarrow> limiter" where
  "limiter_new rpm b =
     (let eff = min (max rpm 1) MAX_RPM in
      \<lparr>buckets = [], burst = max b 1, rate = of_nat eff / 60000, effective_rpm = eff, max_entries = MAX_BUCKETS\<rparr>)"

definition interval_ms :: "limiter \<Rightarrow> nat" where
  "interval_ms l = max (60000 div max (effective_rpm l) 1) 1"

text \<open>\<open>min_by_key\<close> returns the first of the minimal elements.\<close>

fun min_by_seen :: "(ip_addr \<times> token_bucket) list \<Rightarrow> (ip_addr \<times> token_bucket) option" where
  "min_by_seen [] = None"
| "min_by_seen (x # xs) =
     (case min_by_seen xs of
        None \<Rightarrow> Some x
      | Some y \<Rightarrow> if last_seen_ms (snd y) < last_seen_ms (snd x) then Some y else Some x)"

definition remove_key :: "ip_addr \<Rightarrow> (ip_addr \<times> token_bucket) list \<Rightarrow> (ip_addr \<times> token_bucket) list" where
  "remove_key ip bs = filter (\<lambda>(k, _). k \<noteq> ip) bs"

definition evict_stalest :: "(ip_addr \<times> token_bucket) list \<Rightarrow> (ip_addr \<times> token_bucket) list" where
  "evict_stalest bs =
     (case min_by_seen (take 100 bs) of None \<Rightarrow> bs | Some (ip, _) \<Rightarrow> remove_key ip bs)"

definition check :: "ip_addr \<Rightarrow> rat \<Rightarrow> nat \<Rightarrow> limiter \<Rightarrow> bool \<times> limiter" where
  "check ip t t_ms l =
     (case map_of (buckets l) ip of
        Some b \<Rightarrow>
          let (ok, b') = try_consume t t_ms b
          in (ok, l\<lparr>buckets := map (\<lambda>(k, v). (k, if k = ip then b' else v)) (buckets l)\<rparr>)
      | None \<Rightarrow>
          let bs = (if max_entries l \<le> length (buckets l) then evict_stalest (buckets l) else buckets l);
              (ok, b') = try_consume t t_ms (bucket_new (burst l) (rate l) t t_ms)
          in (ok, l\<lparr>buckets := (ip, b') # bs\<rparr>))"

definition evict_stale :: "nat \<Rightarrow> nat \<Rightarrow> limiter \<Rightarrow> limiter" where
  "evict_stale older_than unix_ms l =
     (let cutoff = unix_ms - older_than in
      l\<lparr>buckets := filter (\<lambda>(_, b). cutoff \<le> last_seen_ms b) (buckets l)\<rparr>)"

section \<open>The client address\<close>

definition is_loopback :: "ip_addr \<Rightarrow> bool" where
  "is_loopback ip = (case ip of V4 a _ _ _ \<Rightarrow> a = 127 | V6 a b c d e f g h \<Rightarrow> [a, b, c, d, e, f, g, h] = [0, 0, 0, 0, 0, 0, 0, 1])"

definition is_trusted_proxy_hop :: "ip_addr \<Rightarrow> bool" where
  "is_trusted_proxy_hop ip =
     (case ip of
        V4 a b _ _ \<Rightarrow> a = 10 \<or> (a = 172 \<and> b AND 0xF0 = 16) \<or> (a = 192 \<and> b = 168)
      | V6 a _ _ _ _ _ _ _ \<Rightarrow> a AND 0xFE00 = 0xFC00 \<or> a AND 0xFFC0 = 0xFE80)"

text \<open>
  What the limiter reads of a request. A header that is absent, or whose bytes are not visible
  ASCII, is \<open>None\<close>. Parsing an address is the function \<open>parse_ip\<close>.
\<close>

record request =
  path :: string
  peer :: "ip_addr option"
  x_forwarded_for :: "string option"
  x_real_ip :: "string option"

definition is_blank :: "char \<Rightarrow> bool" where
  "is_blank c = (c = CHR '' '' \<or> of_char c = (9 :: nat))"

definition trim_ascii :: "string \<Rightarrow> string" where
  "trim_ascii s = rev (dropWhile is_blank (rev (dropWhile is_blank s)))"

definition extract_client_ip :: "(string \<Rightarrow> ip_addr option) \<Rightarrow> request \<Rightarrow> bool \<Rightarrow> ip_addr option" where
  "extract_client_ip parse_ip req trust_proxy =
     (if \<not> trust_proxy then peer req
      else if (case peer req of Some ip \<Rightarrow> \<not> is_loopback ip \<and> \<not> is_trusted_proxy_hop ip | None \<Rightarrow> False) then peer req
      else
        case Option.bind (x_forwarded_for req) (\<lambda>s. parse_ip (trim_ascii (takeWhile (\<lambda>c. c \<noteq> CHR '','') s))) of
          Some ip \<Rightarrow> Some ip
        | None \<Rightarrow>
            (case Option.bind (x_real_ip req) (\<lambda>s. parse_ip (trim_ascii s)) of
               Some ip \<Rightarrow> Some ip
             | None \<Rightarrow> peer req))"

section \<open>The middleware\<close>

definition is_rate_limit_exempt :: "string \<Rightarrow> bool" where
  "is_rate_limit_exempt p = (p = ''/v1/admin/reload'')"

datatype verdict = Pass | TooMany nat nat      \<comment> \<open>Retry-After in seconds, retry_after_ms\<close>

definition rate_limit_middleware :: "(string \<Rightarrow> ip_addr option) \<Rightarrow> bool \<Rightarrow> request \<Rightarrow> rat \<Rightarrow> nat \<Rightarrow> limiter
    \<Rightarrow> verdict \<times> limiter" where
  "rate_limit_middleware parse_ip trust_proxy req t t_ms l =
     (if is_rate_limit_exempt (path req) then (Pass, l)
      else case extract_client_ip parse_ip req trust_proxy of
             None \<Rightarrow> (Pass, l)
           | Some ip \<Rightarrow>
               let (ok, l') = check ip t t_ms l in
               if ok then (Pass, l')
               else let ms = interval_ms l' in (TooMany (max (div_ceil ms 1000) 1) ms, l'))"

section \<open>One bucket\<close>

definition bucket_ok :: "token_bucket \<Rightarrow> bool" where
  "bucket_ok b \<longleftrightarrow> 0 \<le> tokens b \<and> tokens b \<le> capacity b \<and> 0 \<le> refill_per_ms b"

lemma refilled_ok: "bucket_ok b \<Longrightarrow> bucket_ok (refilled t b)"
  by (auto simp: bucket_ok_def refilled_def Let_def)

lemma refilled_simps [simp]:
  "capacity (refilled t b) = capacity b" "refill_per_ms (refilled t b) = refill_per_ms b"
  "last_refill (refilled t b) = max (last_refill b) t"
  by (auto simp: refilled_def Let_def max_def)

lemma refilled_tokens: "bucket_ok b \<Longrightarrow> tokens (refilled t b) = min (tokens b + max (t - last_refill b) 0 * refill_per_ms b) (capacity b)"
  by (auto simp: bucket_ok_def refilled_def Let_def)

lemma try_consume_ok: "bucket_ok b \<Longrightarrow> bucket_ok (snd (try_consume t t_ms b))"
  using refilled_ok[of b t] by (auto simp: try_consume_def bucket_ok_def Let_def)

lemma try_consume_simps [simp]:
  "capacity (snd (try_consume t t_ms b)) = capacity b" "refill_per_ms (snd (try_consume t t_ms b)) = refill_per_ms b"
  "last_refill (snd (try_consume t t_ms b)) = max (last_refill b) t" "last_seen_ms (snd (try_consume t t_ms b)) = t_ms"
  by (simp_all add: try_consume_def Let_def)

text \<open>An admitted request is paid for: by the tokens, or by the time since the last refill.\<close>

lemma try_consume_budget:
  assumes "bucket_ok b"
  shows "of_bool (fst (try_consume t t_ms b)) + tokens (snd (try_consume t t_ms b))
    \<le> tokens b + (last_refill (snd (try_consume t t_ms b)) - last_refill b) * refill_per_ms b"
proof -
  have "max (t - last_refill b) 0 = max (last_refill b) t - last_refill b" by (simp add: max_def)
  then have "tokens (refilled t b) \<le> tokens b + (max (last_refill b) t - last_refill b) * refill_per_ms b"
    using refilled_tokens[OF assms, of t] by simp
  moreover have "of_bool (fst (try_consume t t_ms b)) + tokens (snd (try_consume t t_ms b)) = tokens (refilled t b)"
    by (simp add: try_consume_def Let_def)
  ultimately show ?thesis by simp
qed

fun admitted :: "(rat \<times> nat) list \<Rightarrow> token_bucket \<Rightarrow> nat \<times> token_bucket" where
  "admitted [] b = (0, b)"
| "admitted ((t, t_ms) # ts) b =
     (let (ok, b1) = try_consume t t_ms b; (n, b2) = admitted ts b1 in ((if ok then 1 else 0) + n, b2))"

lemma admitted_budget:
  assumes "bucket_ok b"
  shows "of_nat (fst (admitted ts b)) + tokens (snd (admitted ts b))
      \<le> tokens b + (last_refill (snd (admitted ts b)) - last_refill b) * refill_per_ms b
    \<and> bucket_ok (snd (admitted ts b)) \<and> refill_per_ms (snd (admitted ts b)) = refill_per_ms b
    \<and> last_refill (snd (admitted ts b)) = foldl max (last_refill b) (map fst ts)"
  using assms
proof (induction ts arbitrary: b)
  case (Cons e ts)
  obtain t t_ms where e: "e = (t, t_ms)" by fastforce
  obtain ok b1 where c: "try_consume t t_ms b = (ok, b1)" by fastforce
  obtain n b2 where a: "admitted ts b1 = (n, b2)" by fastforce
  have b1: "bucket_ok b1" "refill_per_ms b1 = refill_per_ms b" "last_refill b1 = max (last_refill b) t"
    using try_consume_ok[OF Cons.prems, of t t_ms] try_consume_simps[of t t_ms b] c by simp_all
  have s: "of_bool ok + tokens b1 \<le> tokens b + (last_refill b1 - last_refill b) * refill_per_ms b"
    using try_consume_budget[OF Cons.prems, of t t_ms] c by simp
  have i0: "of_nat n + tokens b2 \<le> tokens b1 + (last_refill b2 - last_refill b1) * refill_per_ms b1
      \<and> bucket_ok b2 \<and> refill_per_ms b2 = refill_per_ms b1 \<and> last_refill b2 = foldl max (last_refill b1) (map fst ts)"
    using Cons.IH[OF b1(1)] unfolding a fst_conv snd_conv .
  then have i: "of_nat n + tokens b2 \<le> tokens b1 + (last_refill b2 - last_refill b1) * refill_per_ms b"
    "bucket_ok b2" "refill_per_ms b2 = refill_per_ms b" "last_refill b2 = foldl max (last_refill b1) (map fst ts)"
    unfolding b1(2) by blast+
  have "admitted (e # ts) b = ((if ok then 1 else 0) + n, b2)" by (simp add: e c a)
  moreover have "of_bool ok + of_nat n + tokens b2 \<le> tokens b + (last_refill b2 - last_refill b) * refill_per_ms b"
    using s i(1) by (simp add: left_diff_distrib)
  ultimately show ?case using i b1(3) by (auto simp: e)
qed simp

section \<open>The table\<close>

definition limiter_ok :: "limiter \<Rightarrow> bool" where
  "limiter_ok l \<longleftrightarrow> distinct (map fst (buckets l)) \<and> length (buckets l) \<le> max_entries l \<and> 0 < max_entries l
     \<and> 0 \<le> rate l \<and> 1 \<le> burst l
     \<and> (\<forall>(ip, b) \<in> set (buckets l). bucket_ok b \<and> capacity b = of_nat (burst l) \<and> refill_per_ms b = rate l)"

lemma limiter_new_ok: "limiter_ok (limiter_new rpm b)"
  by (simp add: limiter_ok_def limiter_new_def MAX_BUCKETS_def Let_def)

lemma min_by_seen_in: "min_by_seen xs = Some x \<Longrightarrow> x \<in> set xs"
  by (induction xs arbitrary: x) (auto split: option.splits if_splits)

lemma min_by_seen_None: "min_by_seen xs = None \<longleftrightarrow> xs = []"
  by (cases xs) (auto split: option.splits)

lemma evict_stalest_shrinks:
  assumes "bs \<noteq> []"
  shows "length (evict_stalest bs) < length bs"
proof -
  have "take 100 bs \<noteq> []" using assms by simp
  then obtain ip b where m: "min_by_seen (take 100 bs) = Some (ip, b)"
    using min_by_seen_None by (metis not_None_eq surj_pair)
  then have i: "(ip, b) \<in> set bs" using min_by_seen_in in_set_takeD by metis
  have "length (filter (\<lambda>(k, _). k \<noteq> ip) bs) < length bs"
    using i by (intro length_filter_less[of "(ip, b)"]) auto
  then show ?thesis using m by (simp add: evict_stalest_def remove_key_def)
qed

lemma evict_stalest_set: "set (evict_stalest bs) \<subseteq> set bs"
  by (auto simp: evict_stalest_def remove_key_def split: option.splits)

lemma evict_stalest_distinct: "distinct (map fst bs) \<Longrightarrow> distinct (map fst (evict_stalest bs))"
  by (auto simp: evict_stalest_def remove_key_def distinct_map_filter split: option.splits)

lemma bucket_new_ok: "0 \<le> r \<Longrightarrow> bucket_ok (bucket_new c r t t_ms)"
  by (simp add: bucket_ok_def bucket_new_def)

lemma check_ok:
  assumes ok: "limiter_ok l"
  shows "limiter_ok (snd (check ip t t_ms l))"
proof (cases "map_of (buckets l) ip")
  case (Some b)
  obtain allowed b' where c: "try_consume t t_ms b = (allowed, b')" by fastforce
  have b: "(ip, b) \<in> set (buckets l)" using Some by (rule map_of_SomeD)
  then have "bucket_ok b" "capacity b = of_nat (burst l)" "refill_per_ms b = rate l" using ok by (auto simp: limiter_ok_def)
  then have "bucket_ok b' \<and> capacity b' = of_nat (burst l) \<and> refill_per_ms b' = rate l"
    using try_consume_ok[of b t t_ms] try_consume_simps[of t t_ms b] c by simp
  moreover have "fst \<circ> (\<lambda>(k, v). (k, if k = ip then b' else v)) = (fst :: ip_addr \<times> token_bucket \<Rightarrow> ip_addr)"
    by (auto simp: fun_eq_iff)
  ultimately show ?thesis using ok Some c by (auto simp: check_def limiter_ok_def)
next
  case None
  let ?bs = "if max_entries l \<le> length (buckets l) then evict_stalest (buckets l) else buckets l"
  obtain allowed b' where c: "try_consume t t_ms (bucket_new (burst l) (rate l) t t_ms) = (allowed, b')" by fastforce
  have r: "0 \<le> rate l" using ok by (simp add: limiter_ok_def)
  have "capacity b' = of_nat (burst l)" "refill_per_ms b' = rate l"
    using try_consume_simps(1,2)[of t t_ms "bucket_new (burst l) (rate l) t t_ms"] unfolding c snd_conv
    by (simp_all add: bucket_new_def)
  then have b': "bucket_ok b' \<and> capacity b' = of_nat (burst l) \<and> refill_per_ms b' = rate l"
    using try_consume_ok[OF bucket_new_ok[OF r], of t t_ms "burst l" t t_ms] c by simp
  have sub: "set ?bs \<subseteq> set (buckets l)" using evict_stalest_set by auto
  have "ip \<notin> fst ` set (buckets l)" using None by (simp add: map_of_eq_None_iff)
  then have fresh: "ip \<notin> fst ` set ?bs" using sub by blast
  have d: "distinct (map fst ?bs)" using ok evict_stalest_distinct by (auto simp: limiter_ok_def)
  have len: "length ?bs < max_entries l"
    using ok evict_stalest_shrinks[of "buckets l"] by (cases "buckets l") (auto simp: limiter_ok_def)
  have all: "\<forall>(k, b) \<in> set ?bs. bucket_ok b \<and> capacity b = of_nat (burst l) \<and> refill_per_ms b = rate l"
    using ok sub unfolding limiter_ok_def by blast
  have s: "snd (check ip t t_ms l) = l\<lparr>buckets := (ip, b') # ?bs\<rparr>" using None c by (simp add: check_def Let_def)
  show ?thesis using ok b' fresh d len all r unfolding s limiter_ok_def by simp
qed


section \<open>What a client gets\<close>

text \<open>A log of requests: the address, the monotonic time and the wall clock of each.\<close>

fun checks :: "(ip_addr \<times> rat \<times> nat) list \<Rightarrow> limiter \<Rightarrow> (ip_addr \<times> bool) list \<times> limiter" where
  "checks [] l = ([], l)"
| "checks ((ip, t, t_ms) # rs) l =
     (let (ok, l1) = check ip t t_ms l; (vs, l2) = checks rs l1 in ((ip, ok) # vs, l2))"

definition admissions :: "ip_addr \<Rightarrow> (ip_addr \<times> bool) list \<Rightarrow> nat" where
  "admissions ip vs = length (filter (\<lambda>v. v = (ip, True)) vs)"

text \<open>The requests of one address that can still be admitted up to time \<open>t1\<close>.\<close>

definition potential :: "ip_addr \<Rightarrow> rat \<Rightarrow> rat \<Rightarrow> limiter \<Rightarrow> rat" where
  "potential ip t0 t1 l =
     (case map_of (buckets l) ip of
        None \<Rightarrow> of_nat (burst l) + (t1 - t0) * rate l
      | Some b \<Rightarrow> tokens b + (t1 - last_refill b) * rate l)"

definition seen_until :: "ip_addr \<Rightarrow> rat \<Rightarrow> limiter \<Rightarrow> bool" where
  "seen_until ip t1 l \<longleftrightarrow> (\<forall>b. map_of (buckets l) ip = Some b \<longrightarrow> last_refill b \<le> t1)"

definition stalest_gone :: "limiter \<Rightarrow> (ip_addr \<times> token_bucket) list" where
  "stalest_gone l = (if max_entries l \<le> length (buckets l) then evict_stalest (buckets l) else buckets l)"

lemma check_Some:
  assumes "map_of (buckets l) ip = Some b"
  shows "check ip t t_ms l = (fst (try_consume t t_ms b),
    l\<lparr>buckets := map (\<lambda>(k, v). (k, if k = ip then snd (try_consume t t_ms b) else v)) (buckets l)\<rparr>)"
  using assms by (simp add: check_def case_prod_beta)

lemma check_None:
  assumes "map_of (buckets l) ip = None"
  shows "check ip t t_ms l = (fst (try_consume t t_ms (bucket_new (burst l) (rate l) t t_ms)),
    l\<lparr>buckets := (ip, snd (try_consume t t_ms (bucket_new (burst l) (rate l) t t_ms))) # stalest_gone l\<rparr>)"
  using assms by (simp add: check_def case_prod_beta Let_def stalest_gone_def)

lemma check_config [simp]:
  "burst (snd (check ip t t_ms l)) = burst l" "rate (snd (check ip t t_ms l)) = rate l"
  "max_entries (snd (check ip t t_ms l)) = max_entries l" "effective_rpm (snd (check ip t t_ms l)) = effective_rpm l"
  by (cases "map_of (buckets l) ip"; simp add: check_Some check_None)+

lemma map_of_update_value:
  "map_of (map (\<lambda>(k, v). (k, if k = ip then x else v)) xs) j = (if j = ip then map_option (\<lambda>_. x) (map_of xs ip) else map_of xs j)"
  by (induction xs) auto

lemma bucket_of_table: "limiter_ok l \<Longrightarrow> map_of (buckets l) ip = Some b \<Longrightarrow> bucket_ok b \<and> capacity b = of_nat (burst l) \<and> refill_per_ms b = rate l"
  by (auto simp: limiter_ok_def dest!: map_of_SomeD)

lemma new_bucket_admits:
  assumes "1 \<le> burst l"
  shows "try_consume t t_ms (bucket_new (burst l) (rate l) t t_ms)
    = (True, (bucket_new (burst l) (rate l) t t_ms)\<lparr>tokens := of_nat (burst l) - 1\<rparr>)"
  using assms by (simp add: try_consume_def bucket_new_def refilled_def Let_def)

lemma check_potential_same:
  assumes ok: "limiter_ok l" and t: "t0 \<le> t" "t \<le> t1" and seen: "seen_until ip t1 l"
  shows "of_bool (fst (check ip t t_ms l)) + potential ip t0 t1 (snd (check ip t t_ms l)) \<le> potential ip t0 t1 l
    \<and> seen_until ip t1 (snd (check ip t t_ms l))"
proof (cases "map_of (buckets l) ip")
  case (Some b)
  let ?b = "snd (try_consume t t_ms b)"
  have b: "bucket_ok b" "refill_per_ms b = rate l" using bucket_of_table[OF ok Some] by blast+
  have m: "map_of (buckets (snd (check ip t t_ms l))) ip = Some ?b" using Some by (simp add: check_Some map_of_update_value)
  have "last_refill b \<le> t1" using seen Some by (simp add: seen_until_def)
  moreover have "of_bool (fst (try_consume t t_ms b)) + tokens ?b \<le> tokens b + (last_refill ?b - last_refill b) * rate l"
    using try_consume_budget[OF b(1)] b(2) by simp
  moreover have "(t1 - last_refill b) * rate l = (t1 - last_refill ?b) * rate l + (last_refill ?b - last_refill b) * rate l"
    by (simp add: left_diff_distrib)
  ultimately show ?thesis using Some m t by (simp add: potential_def seen_until_def check_Some)
next
  case None
  have r: "0 \<le> rate l" "1 \<le> burst l" using ok by (auto simp: limiter_ok_def)
  have "(t1 - t) * rate l \<le> (t1 - t0) * rate l" using t(1) r(1) by (simp add: mult_right_mono)
  then show ?thesis using None r t
    by (simp add: check_None new_bucket_admits[OF r(2)] potential_def seen_until_def) (simp add: bucket_new_def)
qed







section \<open>Requests and the background task\<close>









lemma stale_config [simp]:
  "burst (evict_stale d m l) = burst l" "rate (evict_stale d m l) = rate l" "max_entries (evict_stale d m l) = max_entries l"
  by (simp_all add: evict_stale_def Let_def)

















section \<open>Retry-After\<close>

text \<open>The rounding of the interval and of its seconds never loses the time of one token.\<close>

lemma retry_after_covers_token:
  fixes e :: nat
  assumes "1 \<le> e"
  shows "60 \<le> max (div_ceil (max (60000 div e) 1) 1000) 1 * e"
proof (rule ccontr)
  define s where "s = max (div_ceil (max (60000 div e) 1) 1000) 1"
  assume "\<not> 60 \<le> max (div_ceil (max (60000 div e) 1) 1000) 1 * e"
  then have se: "s * e \<le> 59" by (simp add: s_def)
  have s1: "1 \<le> s" by (simp add: s_def)
  then have e: "e \<le> 59" using se by (metis mult_le_mono1 nat_mult_1 order_trans)
  have "60000 div e \<le> div_ceil (max (60000 div e) 1) 1000 * 1000"
    using div_ceil_bounds(1)[of 1000 "max (60000 div e) 1"] by linarith
  then have "60000 div e \<le> 1000 * s" unfolding s_def by linarith
  then have "60000 div e * e \<le> 1000 * (s * e)" by (metis mult.assoc mult_le_mono1)
  moreover have "60000 < 60000 div e * e + e" using assms div_mult_mod_eq[of 60000 e] mod_less_divisor[of e 60000] by linarith
  ultimately show False using se e by linarith
qed

definition config_ok :: "limiter \<Rightarrow> bool" where
  "config_ok l \<longleftrightarrow> limiter_ok l \<and> 1 \<le> effective_rpm l \<and> rate l = of_nat (effective_rpm l) / 60000"

lemma config_new: "config_ok (limiter_new rpm b)"
  using limiter_new_ok[of rpm b] by (simp add: config_ok_def limiter_new_def Let_def MAX_RPM_def)

lemma config_check: "config_ok l \<Longrightarrow> config_ok (snd (check ip t t_ms l))"
  by (simp add: config_ok_def check_ok)

lemma try_consume_same_rest:
  "try_consume t t_ms b = (False, b') \<Longrightarrow> tokens b' < 1 \<and> last_refill b' = max (last_refill b) t"
  using try_consume_simps(3)[of t t_ms b] by (auto simp: try_consume_def Let_def split: if_splits)

lemma check_other_waits:
  assumes ok: "limiter_ok l" and o: "other \<noteq> ip" and w: "seen_until ip t0 l"
  shows "seen_until ip t0 (snd (check other t t_ms l))"
proof (cases "map_of (buckets l) other")
  case (Some b)
  then show ?thesis using o w by (simp add: check_Some seen_until_def map_of_update_value)
next
  case None
  have d: "distinct (map fst (buckets l))" using ok by (simp add: limiter_ok_def)
  have "last_refill b \<le> t0" if "map_of (stalest_gone l) ip = Some b" for b
  proof -
    have "(ip, b) \<in> set (buckets l)" using map_of_SomeD[OF that] evict_stalest_set by (auto simp: stalest_gone_def split: if_splits)
    then show ?thesis using d w by (simp add: seen_until_def)
  qed
  then show ?thesis using None o by (simp add: check_None seen_until_def)
qed

lemma checks_others_wait:
  assumes "config_ok l" "seen_until ip t0 l" "\<forall>(j, _, _) \<in> set rs. j \<noteq> ip"
  shows "config_ok (snd (checks rs l)) \<and> seen_until ip t0 (snd (checks rs l)) \<and> effective_rpm (snd (checks rs l)) = effective_rpm l"
  using assms
proof (induction rs arbitrary: l)
  case (Cons r rs)
  obtain j t t_ms where r: "r = (j, t, t_ms)" by (cases r)
  let ?l = "snd (check j t t_ms l)"
  have "limiter_ok l" using Cons.prems(1) by (simp add: config_ok_def)
  then have "seen_until ip t0 ?l" using check_other_waits Cons.prems(2,3) by (simp add: r)
  then show ?case using Cons.IH[OF config_check[OF Cons.prems(1)]] Cons.prems(3) by (simp add: r case_prod_beta)
qed simp

lemma full_wait_admits:
  assumes ok: "config_ok l" and w: "seen_until ip t0 l" and t: "t0 + 60000 / of_nat (effective_rpm l) \<le> t"
  shows "fst (check ip t t_ms l)"
proof (cases "map_of (buckets l) ip")
  case (Some b)
  have e: "0 < (of_nat (effective_rpm l) :: rat)" "rate l = of_nat (effective_rpm l) / 60000" using ok by (auto simp: config_ok_def)
  have "bucket_ok b \<and> capacity b = of_nat (burst l) \<and> refill_per_ms b = rate l"
    using bucket_of_table[of l, OF _ Some] ok by (simp add: config_ok_def)
  then have b: "bucket_ok b" "capacity b = of_nat (burst l)" "refill_per_ms b = rate l" by blast+
  have burst: "1 \<le> burst l" using ok by (simp add: config_ok_def limiter_ok_def)
  have "60000 / of_nat (effective_rpm l) \<le> t - last_refill b" using w Some t by (auto simp: seen_until_def)
  then have "60000 / of_nat (effective_rpm l) * rate l \<le> (t - last_refill b) * rate l"
    using e by (intro mult_right_mono) simp_all
  moreover have "60000 / of_nat (effective_rpm l) * rate l = 1" using e by simp
  ultimately have one: "1 \<le> (t - last_refill b) * rate l" by linarith
  moreover have "0 \<le> t - last_refill b"
    by (rule order_trans[OF _ \<open>60000 / _ \<le> t - last_refill b\<close>]) simp
  ultimately have "1 \<le> tokens (refilled t b)" using b burst by (simp add: refilled_tokens bucket_ok_def add_increasing)
  then show ?thesis using Some by (simp add: check_Some try_consume_def Let_def)
next
  case None
  have "1 \<le> burst l" using ok by (simp add: config_ok_def limiter_ok_def)
  then show ?thesis using None by (simp add: check_None new_bucket_admits)
qed

lemma checks_seen_until:
  assumes "limiter_ok l" "seen_until ip t1 l" "\<forall>(_, t, _) \<in> set rs. t \<le> t1"
  shows "seen_until ip t1 (snd (checks rs l))"
  using assms
proof (induction rs arbitrary: l)
  case (Cons r rs)
  obtain j t t_ms where r: "r = (j, t, t_ms)" by (cases r)
  have t: "t \<le> t1" using Cons.prems(3) by (simp add: r)
  have "seen_until ip t1 (snd (check j t t_ms l))"
    using check_other_waits[OF Cons.prems(1) _ Cons.prems(2)] check_potential_same[OF Cons.prems(1) order.refl t Cons.prems(2), of t_ms]
    by (cases "j = ip") auto
  then show ?case using Cons.IH[OF check_ok[OF Cons.prems(1)]] Cons.prems(3) by (simp add: r case_prod_beta)
qed simp

lemma checks_config: "config_ok l \<Longrightarrow> config_ok (snd (checks rs l))"
proof (induction rs arbitrary: l)
  case (Cons r rs)
  obtain j t t_ms where r: "r = (j, t, t_ms)" by (cases r)
  show ?case using Cons.IH[OF config_check[OF Cons.prems]] by (simp add: r case_prod_beta)
qed simp

lemma middleware_limited:
  assumes "\<not> is_rate_limit_exempt (path req)" "extract_client_ip parse_ip req trust_proxy = Some ip"
  shows "rate_limit_middleware parse_ip trust_proxy req t t_ms l =
    (if fst (check ip t t_ms l) then Pass
     else TooMany (max (div_ceil (interval_ms l) 1000) 1) (interval_ms l), snd (check ip t t_ms l))"
  using assms by (simp add: rate_limit_middleware_def case_prod_beta Let_def interval_ms_def)

lemma retry_seconds_enough:
  assumes "config_ok l"
  shows "60000 / of_nat (effective_rpm l) \<le> (1000 * of_nat (max (div_ceil (interval_ms l) 1000) 1) :: rat)"
proof -
  let ?e = "effective_rpm l" and ?s = "max (div_ceil (interval_ms l) 1000) 1"
  have e: "1 \<le> ?e" using assms by (simp add: config_ok_def)
  have "60 \<le> ?s * ?e" using retry_after_covers_token[OF e] e by (simp add: interval_ms_def max_def)
  then have "(60 :: rat) \<le> of_nat ?s * of_nat ?e" by (metis of_nat_le_iff of_nat_mult of_nat_numeral)
  moreover have "(0 :: rat) < of_nat ?e" using e by simp
  ultimately show ?thesis by (simp add: pos_divide_le_eq mult.commute)
qed

text \<open>
  A client that obeys the answer 429 is served. After any log of requests, let the
  middleware reject a request of some address with \<open>Retry-After: secs\<close>. Whatever other
  addresses do meanwhile, a request of the same address that arrives at least \<open>secs\<close> seconds
  later passes. The seconds are never zero, and the number of milliseconds in the body is never
  more than they.
\<close>

theorem retry_after_suffices:
  assumes "\<forall>(_, u, _) \<in> set before. u \<le> t" "\<forall>(j, _, _) \<in> set others. j \<noteq> ip"
    and "extract_client_ip parse_ip req trust_proxy = Some ip" "extract_client_ip parse_ip req' trust_proxy = Some ip"
    and "rate_limit_middleware parse_ip trust_proxy req t t_ms (snd (checks before (limiter_new rpm b))) = (TooMany secs ms, l)"
    and "t + 1000 * of_nat secs \<le> t'"
  shows "fst (rate_limit_middleware parse_ip trust_proxy req' t' t_ms' (snd (checks others l))) = Pass
    \<and> 1 \<le> secs \<and> ms \<le> 1000 * secs"
proof (intro conjI)
  let ?l0 = "snd (checks before (limiter_new rpm b))"
  have c0: "config_ok ?l0" by (rule checks_config[OF config_new])
  have s0: "seen_until ip t ?l0"
    using checks_seen_until[OF limiter_new_ok _ assms(1), of ip rpm b] by (simp add: seen_until_def limiter_new_def Let_def)
  have ex: "\<not> is_rate_limit_exempt (path req)" using assms(5) by (auto simp: rate_limit_middleware_def)
  have l: "l = snd (check ip t t_ms ?l0)" "secs = max (div_ceil (interval_ms ?l0) 1000) 1" "ms = interval_ms ?l0"
    using assms(5) unfolding middleware_limited[OF ex assms(3)] by (auto split: if_splits)
  have "limiter_ok ?l0" using c0 by (simp add: config_ok_def)
  then have s1: "seen_until ip t l" using check_potential_same[OF _ order.refl order.refl s0] by (simp add: l(1))
  have c1: "config_ok l" using config_check[OF c0] by (simp add: l(1))
  define l2 where "l2 = snd (checks others l)"
  have l2: "config_ok l2" "seen_until ip t l2" "effective_rpm l2 = effective_rpm ?l0"
    using checks_others_wait[OF c1 s1 assms(2)] by (simp_all add: l2_def l(1))
  have "60000 / of_nat (effective_rpm l2) \<le> (1000 * of_nat secs :: rat)"
    using retry_seconds_enough[OF c0] unfolding l2(3) l(2) .
  then have "t + 60000 / of_nat (effective_rpm l2) \<le> t'" using assms(6) by linarith
  then have "fst (check ip t' t_ms' l2)" by (rule full_wait_admits[OF l2(1,2)])
  then show "fst (rate_limit_middleware parse_ip trust_proxy req' t' t_ms' (snd (checks others l))) = Pass"
    using middleware_limited[OF _ assms(4)] unfolding l2_def[symmetric]
    by (cases "is_rate_limit_exempt (path req')") (simp_all add: rate_limit_middleware_def)
  show "1 \<le> secs" by (simp add: l(2))
  show "ms \<le> 1000 * secs" using div_ceil_bounds(1)[of 1000 "interval_ms ?l0"] unfolding l(2,3) by linarith
qed

definition client :: "nat \<Rightarrow> request" where
  "client n = \<lparr>path = ''/v1/transcribe'', peer = Some (V4 1 1 1 (of_nat n)), x_forwarded_for = None, x_real_ip = None\<rparr>"

theorem retry_after_suffices_witness:
  "\<exists>l. rate_limit_middleware (\<lambda>_. None) False (client 1) 5 5 (snd (checks [(V4 1 1 1 1, 0, 0)] (limiter_new 7 1)))
      = (TooMany 9 8571, l)
    \<and> fst (rate_limit_middleware (\<lambda>_. None) False (client 1) 9005 9005 (snd (checks [(V4 1 1 1 2, 6, 6)] l))) = Pass"
proof -
  let ?r = "rate_limit_middleware (\<lambda>_. None) False (client 1) 5 5 (snd (checks [(V4 1 1 1 1, 0, 0)] (limiter_new 7 1)))"
  have v: "?r = (TooMany 9 8571, snd ?r)"
    by (simp add: client_def rate_limit_middleware_def is_rate_limit_exempt_def extract_client_ip_def limiter_new_def check_def
        bucket_new_def try_consume_def refilled_def MAX_RPM_def MAX_BUCKETS_def interval_ms_def div_ceil_def Let_def)
  have "fst (rate_limit_middleware (\<lambda>_. None) False (client 1) 9005 9005 (snd (checks [(V4 1 1 1 2, 6, 6)] (snd ?r)))) = Pass"
    using retry_after_suffices[OF _ _ _ _ v, of "[(V4 1 1 1 2, 6, 6)]" "V4 1 1 1 1" "client 1" 9005 9005]
    by (simp add: client_def extract_client_ip_def)
  then show ?thesis using v by blast
qed

lemma replicate10: "replicate 10 x = [x, x, x, x, x, x, x, x, x, x]"
  by (simp add: eval_nat_numeral)

text \<open>
  Two ways past the budget. The background task drops buckets that were idle for 300
  seconds, but at a low rate a drained bucket needs longer than that to refill: with \<open>rpm = 1\<close>
  and \<open>burst = 10\<close> an address is admitted 20 times in 360 seconds, where the budget is 16. And
  \<open>retry_after_ms\<close> of the 429 body is rounded down: with \<open>rpm = 7\<close> a client that waits exactly
  the announced 8571 milliseconds is rejected again.
\<close>

theorem limiter_gaps:
  "(let ip = V4 1 1 1 1; (vs, l) = checks (replicate 10 (ip, 0, 0)) (limiter_new 1 10);
        (ws, _) = checks (replicate 10 (ip, 360000, 360000)) (evict_stale 300000 360000 l)
    in admissions ip (vs @ ws) = 20 \<and> (10 + 360000 * (1 / 60000) :: rat) = 16)
  \<and> (let (v1, l1) = rate_limit_middleware (\<lambda>_. None) False (client 1) 0 0 (limiter_new 7 1);
         (v2, l2) = rate_limit_middleware (\<lambda>_. None) False (client 1) 0 0 l1;
         (v3, _) = rate_limit_middleware (\<lambda>_. None) False (client 1) 8571 8571 l2
     in v1 = Pass \<and> v2 = TooMany 9 8571 \<and> v3 = TooMany 9 8571)"
proof (rule conjI, goal_cases)
  case 1
  then show ?case
    by (simp add: replicate10 limiter_new_def check_def evict_stale_def bucket_new_def try_consume_def refilled_def
        MAX_RPM_def MAX_BUCKETS_def admissions_def Let_def)
next
  case 2
  then show ?case
    by (simp add: client_def rate_limit_middleware_def is_rate_limit_exempt_def extract_client_ip_def limiter_new_def check_def
        bucket_new_def try_consume_def refilled_def MAX_RPM_def MAX_BUCKETS_def interval_ms_def div_ceil_def Let_def)
qed

section \<open>No way around the bucket\<close>

lemma mask_172: "(b :: 8 word) AND 0xF0 = 16 \<longleftrightarrow> 16 \<le> b \<and> b \<le> 31"
proof -
  have all: "\<forall>n \<in> set [0..<256]. ((of_nat n :: 8 word) AND 0xF0 = 16) = (16 \<le> (of_nat n :: 8 word) \<and> (of_nat n :: 8 word) \<le> 31)"
    by code_simp
  have "unat b \<in> set [0..<256]" using unsigned_less[of b, where 'a = nat] by simp
  from bspec[OF all this] show ?thesis by simp
qed

text \<open>
  A client cannot choose its bucket. Without \<open>trust_proxy\<close>, and for every peer that is
  neither loopback nor a private address, the headers of a request have no influence on the
  verdict or on the state of the limiter. The private addresses are exactly 10/8,
  172.16.0.0 to 172.31.255.255 and 192.168/16 (and the two IPv6 ranges). Only a request for
  the exempt path, or one whose peer is unknown, is let through without being counted.
\<close>

theorem client_cannot_choose_bucket:
  assumes "\<not> trust_proxy \<or> (\<exists>ip. peer req = Some ip \<and> \<not> is_loopback ip \<and> \<not> is_trusted_proxy_hop ip)"
  shows "rate_limit_middleware parse_ip trust_proxy (req\<lparr>x_forwarded_for := xff, x_real_ip := xri\<rparr>) t t_ms l
      = rate_limit_middleware parse_ip trust_proxy req t t_ms l
    \<and> (rate_limit_middleware parse_ip trust_proxy req t t_ms l = (Pass, l')
        \<longrightarrow> path req = ''/v1/admin/reload'' \<or> peer req = None
          \<or> (\<exists>ip b. peer req = Some ip \<and> map_of (buckets l') ip = Some b \<and> last_seen_ms b = t_ms))
    \<and> (is_trusted_proxy_hop (V4 a1 a2 a3 a4)
        \<longleftrightarrow> a1 = 10 \<or> (a1 = 172 \<and> 16 \<le> a2 \<and> a2 \<le> 31) \<or> (a1 = 192 \<and> a2 = 168))"
proof (intro conjI impI)
  have e: "extract_client_ip parse_ip req trust_proxy = peer req" "extract_client_ip parse_ip (req\<lparr>x_forwarded_for := xff, x_real_ip := xri\<rparr>) trust_proxy = peer req"
    using assms by (auto simp: extract_client_ip_def)
  show "rate_limit_middleware parse_ip trust_proxy (req\<lparr>x_forwarded_for := xff, x_real_ip := xri\<rparr>) t t_ms l
      = rate_limit_middleware parse_ip trust_proxy req t t_ms l"
    by (simp add: rate_limit_middleware_def e)
  assume p: "rate_limit_middleware parse_ip trust_proxy req t t_ms l = (Pass, l')"
  show "path req = ''/v1/admin/reload'' \<or> peer req = None
      \<or> (\<exists>ip b. peer req = Some ip \<and> map_of (buckets l') ip = Some b \<and> last_seen_ms b = t_ms)"
  proof (cases "is_rate_limit_exempt (path req)")
    case False
    show ?thesis
    proof (cases "peer req")
      case (Some ip)
      then have "l' = snd (check ip t t_ms l)" using p e(1) middleware_limited[OF False] by auto
      then show ?thesis using Some
        by (cases "map_of (buckets l) ip") (auto simp: check_Some check_None map_of_update_value)
    qed simp
  qed (simp add: is_rate_limit_exempt_def)
qed (simp add: is_trusted_proxy_hop_def mask_172)

theorem client_cannot_choose_bucket_witness:
  "rate_limit_middleware (\<lambda>_. Some (V4 9 9 9 9)) True
      ((client 1)\<lparr>x_forwarded_for := Some ''9.9.9.9'', x_real_ip := None\<rparr>) 0 0 (limiter_new 7 1)
    = rate_limit_middleware (\<lambda>_. Some (V4 9 9 9 9)) True (client 1) 0 0 (limiter_new 7 1)"
proof -
  have "\<not> True \<or> (\<exists>ip. peer (client 1) = Some ip \<and> \<not> is_loopback ip \<and> \<not> is_trusted_proxy_hop ip)"
    by (simp add: client_def is_loopback_def is_trusted_proxy_hop_def)
  from client_cannot_choose_bucket[OF this] show ?thesis by blast
qed

end
