(* ===== verification/Export.thy ===== *)
theory Export
  imports Transcript
begin

text \<open>
  The export formats of \<open>export/mod.rs\<close>: format names, times of subtitles, caption cues, natural
  segments and the rendered documents. Text is a list of Unicode scalar values; times are
  rationals. The JSON document is built by a library and is a parameter, and so is the shortest
  decimal form of a float that the Markdown header prints.
\<close>

section \<open>Formats\<close>

datatype export_format = Json | Txt | Srt | Vtt | Md

definition to_ascii_lowercase :: "ustring \<Rightarrow> ustring" where
  "to_ascii_lowercase s = map (\<lambda>c. if 65 \<le> c \<and> c \<le> 90 then c + 32 else c) s"

definition from_str :: "ustring \<Rightarrow> (ustring \<times> ustring) + export_format" where
  "from_str s =
     (let l = to_ascii_lowercase s in
      if l = lit ''json'' then Inr Json
      else if l = lit ''txt'' \<or> l = lit ''text'' then Inr Txt
      else if l = lit ''srt'' then Inr Srt
      else if l = lit ''vtt'' then Inr Vtt
      else if l = lit ''md'' \<or> l = lit ''markdown'' then Inr Md
      else Inl (lit ''invalid_input'', lit ''unsupported export format: '' @ s))"

definition display_format :: "export_format \<Rightarrow> ustring" where
  "display_format f = (case f of Json \<Rightarrow> lit ''json'' | Txt \<Rightarrow> lit ''txt'' | Srt \<Rightarrow> lit ''srt'' | Vtt \<Rightarrow> lit ''vtt'' | Md \<Rightarrow> lit ''md'')"

definition content_type :: "export_format \<Rightarrow> ustring" where
  "content_type f = (case f of
       Json \<Rightarrow> lit ''application/json; charset=utf-8''
     | Txt \<Rightarrow> lit ''text/plain; charset=utf-8''
     | Srt \<Rightarrow> lit ''application/x-subrip; charset=utf-8''
     | Vtt \<Rightarrow> lit ''text/vtt; charset=utf-8''
     | Md \<Rightarrow> lit ''text/markdown; charset=utf-8'')"

definition extension :: "export_format \<Rightarrow> ustring" where
  "extension f = (case f of Json \<Rightarrow> lit ''json'' | Txt \<Rightarrow> lit ''txt'' | Srt \<Rightarrow> lit ''srt'' | Vtt \<Rightarrow> lit ''vtt'' | Md \<Rightarrow> lit ''md'')"

record render_opts =
  max_chars_per_line :: nat
  max_words_per_line :: nat
  include_word_timestamps :: bool

definition render_opts_default :: render_opts where
  "render_opts_default = \<lparr>max_chars_per_line = 80, max_words_per_line = 14, include_word_timestamps = False\<rparr>"

section \<open>Numbers and times\<close>

text \<open>Decimal digits, and zero padding to a minimal width (\<open>{:02}\<close>).\<close>

fun dec :: "nat \<Rightarrow> ustring" where
  "dec n = (if n < 10 then [48 + n] else dec (n div 10) @ [48 + n mod 10])"

declare dec.simps [simp del]

definition pad :: "nat \<Rightarrow> nat \<Rightarrow> ustring" where
  "pad w n = replicate (w - length (dec n)) 48 @ dec n"

text \<open>Rounding of a non-negative float, half away from zero, and the saturating cast to 64 bits.\<close>

definition round_u64 :: "rat \<Rightarrow> nat" where
  "round_u64 x = min (nat \<lfloor>x + 1 / 2\<rfloor>) (2 ^ 64 - 1)"

definition subtitle_time :: "nat \<Rightarrow> rat \<Rightarrow> ustring" where
  "subtitle_time sep seconds =
     (let total_ms = round_u64 (max seconds 0 * 1000);
          ms = total_ms mod 1000;
          total_s = total_ms div 1000;
          s = total_s mod 60;
          total_m = total_s div 60;
          m = total_m mod 60;
          h = total_m div 60
      in pad 2 h @ lit '':'' @ pad 2 m @ lit '':'' @ pad 2 s @ [sep] @ pad 3 ms)"

definition format_srt_time :: "rat \<Rightarrow> ustring" where
  "format_srt_time seconds = subtitle_time 44 seconds"

definition format_vtt_time :: "rat \<Rightarrow> ustring" where
  "format_vtt_time seconds = subtitle_time 46 seconds"

definition format_timestamp_hms :: "rat \<Rightarrow> ustring" where
  "format_timestamp_hms seconds =
     (let total_s = round_u64 (max seconds 0);
          s = total_s mod 60;
          total_m = total_s div 60;
          m = total_m mod 60;
          h = total_m div 60
      in if 0 < h then pad 2 h @ lit '':'' @ pad 2 m @ lit '':'' @ pad 2 s else pad 2 m @ lit '':'' @ pad 2 s)"

section \<open>Caption cues\<close>

record cue =
  c_start :: rat
  c_end :: rat
  c_text :: ustring
  c_words :: "word_info list"

record cue_state =
  current :: cue
  current_speaker :: "nat option"
  word_count :: nat
  cues :: "cue list"

definition speaker_label :: "nat option \<Rightarrow> ustring" where
  "speaker_label sp = (case sp of None \<Rightarrow> [] | Some n \<Rightarrow> lit ''[SPEAKER_'' @ dec n @ lit ''] '')"

definition flush :: "cue_state \<Rightarrow> cue_state" where
  "flush st =
     (let c = current st in
      if c_text c \<noteq> []
      then st\<lparr>cues := cues st @ [c\<lparr>c_text := trim_end (c_text c)\<rparr>], current := c\<lparr>c_text := [], c_words := []\<rparr>\<rparr>
      else st)"

definition change_speaker :: "word_info \<Rightarrow> cue_state \<Rightarrow> cue_state" where
  "change_speaker w st =
     (if speaker w \<noteq> current_speaker st
      then let st1 = flush st; c = current st1 in
           st1\<lparr>current := c\<lparr>c_start := w_start w, c_text := c_text c @ speaker_label (speaker w)\<rparr>,
               current_speaker := speaker w, word_count := 0\<rparr>
      else st)"

definition break_line :: "nat \<Rightarrow> nat \<Rightarrow> word_info \<Rightarrow> cue_state \<Rightarrow> bool" where
  "break_line max_chars max_words w st =
     (let txt = c_text (current st);
          would_chars = (if txt = [] then byte_len (word w) else byte_len txt + 1 + byte_len (word w));
          would_words = word_count st + 1
      in txt \<noteq> [] \<and> ((0 < max_chars \<and> max_chars < would_chars) \<or> (0 < max_words \<and> max_words < would_words)))"

definition start_line :: "word_info \<Rightarrow> cue_state \<Rightarrow> cue_state" where
  "start_line w st =
     (let st1 = flush st; c = current st1 in
      st1\<lparr>current := c\<lparr>c_start := w_start w, c_end := w_end w, c_text := c_text c @ speaker_label (speaker w)\<rparr>,
          word_count := 0\<rparr>)"

definition append_word :: "ustring \<Rightarrow> ustring \<Rightarrow> ustring" where
  "append_word txt w = (if txt \<noteq> [] \<and> last txt \<noteq> space then txt @ [space] else txt) @ w"

definition add_word :: "word_info \<Rightarrow> cue_state \<Rightarrow> cue_state" where
  "add_word w st =
     (let c = current st in
      st\<lparr>current := c\<lparr>c_text := append_word (c_text c) (word w), c_end := w_end w, c_words := c_words c @ [w]\<rparr>,
         word_count := word_count st + 1\<rparr>)"

definition cue_step :: "nat \<Rightarrow> nat \<Rightarrow> word_info \<Rightarrow> cue_state \<Rightarrow> cue_state" where
  "cue_step max_chars max_words w st =
     (let st1 = change_speaker w st;
          st2 = (if break_line max_chars max_words w st1 then start_line w st1 else st1)
      in add_word w st2)"

definition cue_start :: "word_info \<Rightarrow> cue_state" where
  "cue_start w = \<lparr>current = \<lparr>c_start = w_start w, c_end = w_end w, c_text = [], c_words = []\<rparr>,
     current_speaker = None, word_count = 0, cues = []\<rparr>"

definition build_cues :: "nat \<Rightarrow> nat \<Rightarrow> word_info list \<Rightarrow> cue list" where
  "build_cues max_chars max_words ws =
     (case ws of [] \<Rightarrow> [] | w # _ \<Rightarrow> cues (flush (fold (cue_step max_chars max_words) ws (cue_start w))))"

section \<open>Segments\<close>

record segment =
  g_start :: rat
  g_end :: rat
  g_text :: ustring
  g_words :: "word_info list"
  g_speaker :: "nat option"

definition segment_speaker :: "word_info list \<Rightarrow> nat option" where
  "segment_speaker ws =
     (case ws of
        [] \<Rightarrow> None
      | w # _ \<Rightarrow> (case speaker w of
                   None \<Rightarrow> None
                 | Some f \<Rightarrow> if list_all (\<lambda>v. speaker v = Some f) ws then Some f else None))"

definition to_segments :: "nat \<Rightarrow> nat \<Rightarrow> word_info list \<Rightarrow> segment list" where
  "to_segments max_chars max_words ws =
     map (\<lambda>c. \<lparr>g_start = c_start c, g_end = c_end c, g_text = c_text c, g_words = c_words c, g_speaker = segment_speaker (c_words c)\<rparr>)
       (build_cues max_chars max_words ws)"

definition SEGMENT_PAUSE_THRESHOLD_S :: rat where "SEGMENT_PAUSE_THRESHOLD_S = 9 / 10"
definition MAX_SEGMENT_DURATION_S :: rat where "MAX_SEGMENT_DURATION_S = 30"

definition ends_sentence :: "ustring \<Rightarrow> bool" where
  "ends_sentence w = (let t = trim_end w in t \<noteq> [] \<and> last t \<in> {46, 33, 63})"

definition segment_of :: "word_info \<Rightarrow> segment" where
  "segment_of w = \<lparr>g_start = w_start w, g_end = w_end w, g_text = word w, g_words = [w], g_speaker = speaker w\<rparr>"

definition close_segment :: "segment \<Rightarrow> segment" where
  "close_segment g = g\<lparr>g_speaker := segment_speaker (g_words g)\<rparr>"

definition segment_break :: "segment \<Rightarrow> word_info \<Rightarrow> word_info \<Rightarrow> bool" where
  "segment_break g prev w \<longleftrightarrow>
     SEGMENT_PAUSE_THRESHOLD_S < w_start w - w_end prev \<or> speaker w \<noteq> speaker prev \<or> ends_sentence (word prev)
     \<or> MAX_SEGMENT_DURATION_S < w_end w - g_start g"

definition extend_segment :: "segment \<Rightarrow> word_info \<Rightarrow> segment" where
  "extend_segment g w = g\<lparr>g_text := g_text g @ [space] @ word w, g_end := w_end w, g_words := g_words g @ [w]\<rparr>"

fun build_segments_from :: "segment \<Rightarrow> word_info \<Rightarrow> word_info list \<Rightarrow> segment list" where
  "build_segments_from g prev [] = [close_segment g]"
| "build_segments_from g prev (w # ws) =
     (if segment_break g prev w then close_segment g # build_segments_from (segment_of w) w ws
      else build_segments_from (extend_segment g w) w ws)"

definition build_segments :: "word_info list \<Rightarrow> segment list" where
  "build_segments ws = (case ws of [] \<Rightarrow> [] | w # rest \<Rightarrow> build_segments_from (segment_of w) w rest)"

section \<open>Documents\<close>

definition nl :: ustring where "nl = [10]"

definition to_txt :: "transcribe_result \<Rightarrow> ustring" where
  "to_txt r = r_text r"

definition srt_cue :: "nat \<times> cue \<Rightarrow> ustring" where
  "srt_cue ic = (case ic of (i, c) \<Rightarrow>
     (if 0 < i then nl else []) @ dec (i + 1) @ nl @ format_srt_time (c_start c) @ lit '' --> '' @ format_srt_time (c_end c) @ nl
       @ c_text c @ nl)"

definition to_srt :: "word_info list \<Rightarrow> nat \<Rightarrow> nat \<Rightarrow> ustring" where
  "to_srt ws max_chars max_words = concat (map srt_cue (enumerate 0 (build_cues max_chars max_words ws)))"

definition vtt_cue :: "cue \<Rightarrow> ustring" where
  "vtt_cue c = format_vtt_time (c_start c) @ lit '' --> '' @ format_vtt_time (c_end c) @ nl @ c_text c @ nl @ nl"

definition to_vtt :: "word_info list \<Rightarrow> nat \<Rightarrow> nat \<Rightarrow> ustring" where
  "to_vtt ws max_chars max_words = lit ''WEBVTT'' @ nl @ nl @ concat (map vtt_cue (build_cues max_chars max_words ws))"

definition speaker_count :: "word_info list \<Rightarrow> nat" where
  "speaker_count ws = (case List.map_filter speaker ws of [] \<Rightarrow> 0 | n # ns \<Rightarrow> fold max ns n + 1)"

definition md_frontmatter :: "(rat \<Rightarrow> ustring) \<Rightarrow> transcribe_result \<Rightarrow> ustring" where
  "md_frontmatter show_f64 r =
     lit ''---'' @ nl @ lit ''duration: '' @ show_f64 (duration_s r) @ nl @ lit ''language: ru'' @ nl
     @ lit ''speakers: '' @ dec (speaker_count (r_words r)) @ nl @ lit ''---'' @ nl @ nl"

text \<open>\<open>{:.3}\<close> of a float: the nearest thousandth, ties to even.\<close>

definition round_even :: "rat \<Rightarrow> nat" where
  "round_even x =
     (let n = nat \<lfloor>x\<rfloor>; d = x - of_nat n in
      if d < 1 / 2 \<or> (d = 1 / 2 \<and> even n) then n else n + 1)"

definition fixed3 :: "rat \<Rightarrow> ustring" where
  "fixed3 x = (let n = round_even (\<bar>x\<bar> * 1000) in
     (if x < 0 then lit ''-'' else []) @ dec (n div 1000) @ lit ''.'' @ pad 3 (n mod 1000))"

definition escape_pipe :: "ustring \<Rightarrow> ustring" where
  "escape_pipe s = concat (map (\<lambda>c. if c = 124 then [92, 124] else [c]) s)"

definition md_row :: "word_info \<Rightarrow> ustring" where
  "md_row w = lit ''| '' @ escape_pipe (word w) @ lit '' | '' @ fixed3 (w_start w) @ lit ''s | '' @ fixed3 (w_end w)
     @ lit ''s | '' @ fixed3 (confidence w) @ lit '' | ''
     @ (case speaker w of Some s \<Rightarrow> lit ''SPEAKER_'' @ dec s | None \<Rightarrow> lit ''-'') @ lit '' |'' @ nl"

definition to_md :: "(rat \<Rightarrow> ustring) \<Rightarrow> transcribe_result \<Rightarrow> bool \<Rightarrow> ustring" where
  "to_md show_f64 r word_timestamps =
     md_frontmatter show_f64 r @ lit ''# Transcript'' @ nl @ nl @ r_text r @ nl @ nl
     @ (if word_timestamps \<and> r_words r \<noteq> []
        then lit ''# Word timings'' @ nl @ nl
          @ lit ''| Word | Start | End | Confidence | Speaker |'' @ nl
          @ lit ''|------|-------|-----|------------|---------|'' @ nl
          @ concat (map md_row (r_words r))
        else [])"

definition to_md_segments :: "(rat \<Rightarrow> ustring) \<Rightarrow> transcribe_result \<Rightarrow> nat \<Rightarrow> nat \<Rightarrow> ustring" where
  "to_md_segments show_f64 r max_chars max_words =
     md_frontmatter show_f64 r
     @ concat (map (\<lambda>g. lit ''### ['' @ format_timestamp_hms (g_start g) @ lit '']'' @ nl @ nl @ g_text g @ nl @ nl)
         (to_segments max_chars max_words (r_words r)))"

definition render :: "(rat \<Rightarrow> ustring) \<Rightarrow> (transcribe_result \<Rightarrow> ustring) \<Rightarrow> export_format \<Rightarrow> transcribe_result \<Rightarrow> render_opts \<Rightarrow> ustring" where
  "render show_f64 to_json f r opts =
     (case f of
        Json \<Rightarrow> to_json r
      | Txt \<Rightarrow> to_txt r
      | Srt \<Rightarrow> to_srt (r_words r) (max_chars_per_line opts) (max_words_per_line opts)
      | Vtt \<Rightarrow> to_vtt (r_words r) (max_chars_per_line opts) (max_words_per_line opts)
      | Md \<Rightarrow> to_md show_f64 r (include_word_timestamps opts))"

lemma from_str_display: "from_str (display_format f) = Inr f" "display_format f = extension f"
  by (cases f; simp add: from_str_def display_format_def extension_def to_ascii_lowercase_def lit_def)+

section \<open>Cues partition the words\<close>

text \<open>The text of a line: the label, then the words, each after a space.\<close>

definition line_text :: "nat option \<Rightarrow> word_info list \<Rightarrow> ustring" where
  "line_text sp ws = foldl append_word (speaker_label sp) (map word ws)"

lemma line_text_Nil [simp]: "line_text sp [] = speaker_label sp"
  by (simp add: line_text_def)

lemma line_text_snoc [simp]: "line_text sp (ws @ [w]) = append_word (line_text sp ws) (word w)"
  by (simp add: line_text_def)

lemma append_word_nonempty: "w \<noteq> [] \<Longrightarrow> append_word t w \<noteq> []"
  by (simp add: append_word_def)

lemma line_text_nonempty: "ws \<noteq> [] \<Longrightarrow> \<forall>w \<in> set ws. word w \<noteq> [] \<Longrightarrow> line_text sp ws \<noteq> []"
  by (cases ws rule: rev_cases) (simp_all add: append_word_nonempty)

lemma speaker_label_nonempty: "speaker_label sp = [] \<longleftrightarrow> sp = None"
  by (cases sp) (simp_all add: speaker_label_def lit_def)

lemma byte_len_append_word: "byte_len (append_word t w) \<le> byte_len t + 1 + byte_len w"
  by (simp add: append_word_def) (simp add: byte_len_def space_def utf8_len_def)

lemma byte_len_trim_end: "byte_len (trim_end t) \<le> byte_len t"
proof (induction t rule: rev_induct)
  case (snoc c t)
  then show ?case by (simp add: trim_end_snoc)
qed (simp add: trim_end_def)

text \<open>What holds of the words and the text of one line, and what a cue made of it promises.\<close>

definition line_ok :: "nat \<Rightarrow> nat \<Rightarrow> nat option \<Rightarrow> rat \<Rightarrow> rat \<Rightarrow> ustring \<Rightarrow> word_info list \<Rightarrow> bool" where
  "line_ok mc mw sp s e t ws \<longleftrightarrow>
     (\<forall>w \<in> set ws. speaker w = sp)
     \<and> (ws \<noteq> [] \<longrightarrow> s = w_start (hd ws) \<and> e = w_end (last ws))
     \<and> (0 < mw \<longrightarrow> length ws \<le> mw)
     \<and> (0 < mc \<and> 1 < length ws \<longrightarrow> byte_len t \<le> mc)"

definition cue_ok :: "nat \<Rightarrow> nat \<Rightarrow> cue \<Rightarrow> bool" where
  "cue_ok mc mw c \<longleftrightarrow> (\<exists>sp. line_ok mc mw sp (c_start c) (c_end c) (c_text c) (c_words c)
     \<and> c_text c = trim_end (line_text sp (c_words c)) \<and> (c_words c = [] \<longrightarrow> sp \<noteq> None))"

definition cue_inv :: "nat \<Rightarrow> nat \<Rightarrow> word_info list \<Rightarrow> cue_state \<Rightarrow> bool" where
  "cue_inv mc mw ps st \<longleftrightarrow>
     (let c = current st in
      concat (map c_words (cues st)) @ c_words c = ps
      \<and> line_ok mc mw (current_speaker st) (c_start c) (c_end c) (c_text c) (c_words c)
      \<and> c_text c = line_text (current_speaker st) (c_words c)
      \<and> word_count st = length (c_words c)
      \<and> (\<forall>c \<in> set (cues st). cue_ok mc mw c))"

lemma flush_ok:
  assumes inv: "cue_inv mc mw ps st" and ne: "\<forall>w \<in> set ps. word w \<noteq> []"
  shows "c_text (current (flush st)) = [] \<and> c_words (current (flush st)) = []
    \<and> concat (map c_words (cues (flush st))) = ps \<and> (\<forall>c \<in> set (cues (flush st)). cue_ok mc mw c)
    \<and> current_speaker (flush st) = current_speaker st"
proof (cases "c_text (current st) = []")
  case True
  have "c_words (current st) = []"
  proof (rule ccontr)
    assume w: "c_words (current st) \<noteq> []"
    have "\<forall>w \<in> set (c_words (current st)). word w \<noteq> []" using inv ne by (auto simp: cue_inv_def Let_def)
    then have "line_text (current_speaker st) (c_words (current st)) \<noteq> []" by (rule line_text_nonempty[OF w])
    then show False using inv True by (auto simp: cue_inv_def Let_def)
  qed
  then show ?thesis using inv True by (simp add: flush_def cue_inv_def Let_def)
next
  case False
  let ?c = "current st"
  have l: "line_ok mc mw (current_speaker st) (c_start ?c) (c_end ?c) (c_text ?c) (c_words ?c)"
    "c_text ?c = line_text (current_speaker st) (c_words ?c)"
    using inv unfolding cue_inv_def Let_def by blast+
  have "line_ok mc mw (current_speaker st) (c_start ?c) (c_end ?c) (trim_end (c_text ?c)) (c_words ?c)"
    using l(1) order_trans[OF byte_len_trim_end] by (auto simp: line_ok_def)
  moreover have "c_words ?c = [] \<longrightarrow> current_speaker st \<noteq> None" using False l(2) by (auto simp: speaker_label_nonempty)
  ultimately have "cue_ok mc mw (?c\<lparr>c_text := trim_end (c_text ?c)\<rparr>)"
    unfolding cue_ok_def using l(2) by (intro exI[of _ "current_speaker st"]) simp
  then show ?thesis using inv False by (auto simp: flush_def cue_inv_def Let_def)
qed

text \<open>An empty line that waits for the word \<open>w\<close>.\<close>

definition waits_for :: "word_info \<Rightarrow> cue_state \<Rightarrow> bool" where
  "waits_for w st \<longleftrightarrow> (c_words (current st) = [] \<longrightarrow> c_start (current st) = w_start w)"

lemma change_speaker_ok:
  assumes inv: "cue_inv mc mw ps st" and ne: "\<forall>w \<in> set ps. word w \<noteq> []" and w: "waits_for w st"
  shows "cue_inv mc mw ps (change_speaker w st) \<and> waits_for w (change_speaker w st)
    \<and> current_speaker (change_speaker w st) = speaker w"
  using flush_ok[OF inv ne] inv w by (auto simp: change_speaker_def cue_inv_def waits_for_def line_ok_def Let_def)

lemma start_line_ok:
  assumes inv: "cue_inv mc mw ps st" and ne: "\<forall>w \<in> set ps. word w \<noteq> []" and sp: "current_speaker st = speaker w"
  shows "cue_inv mc mw ps (start_line w st) \<and> waits_for w (start_line w st) \<and> current_speaker (start_line w st) = speaker w
    \<and> c_words (current (start_line w st)) = []"
  using flush_ok[OF inv ne] sp by (auto simp: start_line_def cue_inv_def waits_for_def line_ok_def Let_def)

lemma add_word_ok:
  assumes inv: "cue_inv mc mw ps st" and w: "waits_for w st" and sp: "current_speaker st = speaker w"
    and room: "c_words (current st) = [] \<or> \<not> break_line mc mw w st" and ne: "\<forall>w \<in> set ps. word w \<noteq> []"
  shows "cue_inv mc mw (ps @ [w]) (add_word w st)"
proof -
  let ?c = "current st" and ?ws = "c_words (current st)"
  have l: "line_ok mc mw (speaker w) (c_start ?c) (c_end ?c) (c_text ?c) ?ws" "c_text ?c = line_text (speaker w) ?ws"
    "word_count st = length ?ws" "set ?ws \<subseteq> set ps"
    using inv sp by (auto simp: cue_inv_def Let_def)
  have "line_ok mc mw (speaker w) (c_start ?c) (w_end w) (append_word (c_text ?c) (word w)) (?ws @ [w])"
  proof (cases "?ws = []")
    case True
    then show ?thesis using w by (simp add: line_ok_def waits_for_def)
  next
    case False
    then have "c_text ?c \<noteq> []" using line_text_nonempty[OF False] l(2,4) ne by auto
    then have "(0 < mw \<longrightarrow> length ?ws + 1 \<le> mw) \<and> (0 < mc \<longrightarrow> byte_len (c_text ?c) + 1 + byte_len (word w) \<le> mc)"
      using room False l(3) by (auto simp: break_line_def Let_def not_less)
    then show ?thesis using l(1) False byte_len_append_word[of "c_text ?c" "word w"] by (auto simp: line_ok_def)
  qed
  then show ?thesis using inv sp l(2,3) by (auto simp: add_word_def cue_inv_def Let_def)
qed

lemma cue_step_ok:
  assumes "cue_inv mc mw ps st" "\<forall>w \<in> set ps. word w \<noteq> []" "waits_for w st"
  shows "cue_inv mc mw (ps @ [w]) (cue_step mc mw w st) \<and> c_words (current (cue_step mc mw w st)) \<noteq> []"
proof -
  note c = change_speaker_ok[OF assms]
  define st2 where "st2 = (if break_line mc mw w (change_speaker w st) then start_line w (change_speaker w st) else change_speaker w st)"
  have "cue_inv mc mw ps st2 \<and> waits_for w st2 \<and> current_speaker st2 = speaker w
      \<and> (c_words (current st2) = [] \<or> \<not> break_line mc mw w st2)"
    using c start_line_ok[of mc mw ps "change_speaker w st" w] assms(2) by (auto simp: st2_def)
  then have "cue_inv mc mw (ps @ [w]) (add_word w st2)" using add_word_ok assms(2) by blast
  moreover have "cue_step mc mw w st = add_word w st2" by (simp add: cue_step_def st2_def Let_def)
  ultimately show ?thesis by (simp add: add_word_def Let_def)
qed

lemma cue_fold_ok:
  assumes "cue_inv mc mw ps st" "\<forall>w \<in> set (ps @ ws). word w \<noteq> []" "ws = [] \<or> waits_for (hd ws) st"
  shows "cue_inv mc mw (ps @ ws) (fold (cue_step mc mw) ws st)"
  using assms
proof (induction ws arbitrary: ps st)
  case (Cons w ws)
  have s: "cue_inv mc mw (ps @ [w]) (cue_step mc mw w st) \<and> c_words (current (cue_step mc mw w st)) \<noteq> []"
    using Cons.prems by (intro cue_step_ok) auto
  then have "waits_for (hd ws) (cue_step mc mw w st)" by (simp add: waits_for_def)
  then show ?case using Cons.IH[of "ps @ [w]" "cue_step mc mw w st"] s Cons.prems(2) by simp
qed simp

lemma build_cues_ok:
  assumes "\<forall>w \<in> set ws. word w \<noteq> []"
  shows "concat (map c_words (build_cues mc mw ws)) = ws \<and> (\<forall>c \<in> set (build_cues mc mw ws). cue_ok mc mw c)"
proof (cases ws)
  case (Cons w rest)
  have "cue_inv mc mw [] (cue_start w)" by (simp add: cue_inv_def cue_start_def line_ok_def speaker_label_def Let_def)
  moreover have "waits_for w (cue_start w)" by (simp add: waits_for_def cue_start_def)
  ultimately have "cue_inv mc mw ws (fold (cue_step mc mw) ws (cue_start w))"
    using cue_fold_ok[of mc mw "[]" "cue_start w" ws] assms Cons by simp
  from flush_ok[OF this assms] show ?thesis by (simp add: build_cues_def Cons)
qed (simp add: build_cues_def)

text \<open>
  C30: Caption cues partition the transcript: for all limits, the words of the cues, one cue
  after the other, are the words of the transcript in their order, none lost and none repeated.
  A cue with words has one speaker, starts with its first word and ends with its last one, holds
  at most \<open>max_words\<close> words, and at most \<open>max_chars\<close> bytes of text unless it holds a single
  word; its text is the speaker label and the words, each after one space. A cue without words
  is a bare speaker label.
\<close>

theorem cues_partition_words:
  assumes "\<forall>w \<in> set ws. word w \<noteq> []"
  shows "concat (map c_words (build_cues max_chars max_words ws)) = ws
    \<and> (\<forall>c \<in> set (build_cues max_chars max_words ws). \<exists>sp.
        (\<forall>w \<in> set (c_words c). speaker w = sp)
        \<and> c_text c = trim_end (line_text sp (c_words c))
        \<and> (c_words c \<noteq> [] \<longrightarrow> c_start c = w_start (hd (c_words c)) \<and> c_end c = w_end (last (c_words c)))
        \<and> (0 < max_words \<longrightarrow> length (c_words c) \<le> max_words)
        \<and> (0 < max_chars \<and> 1 < length (c_words c) \<longrightarrow> byte_len (c_text c) \<le> max_chars)
        \<and> (c_words c = [] \<longrightarrow> (\<exists>n. sp = Some n \<and> c_text c = trim_end (speaker_label (Some n)))))"
proof (intro conjI ballI)
  show "concat (map c_words (build_cues max_chars max_words ws)) = ws" using build_cues_ok[OF assms] by blast
  fix c
  assume "c \<in> set (build_cues max_chars max_words ws)"
  then have "cue_ok max_chars max_words c" using build_cues_ok[OF assms] by blast
  then obtain sp where l: "line_ok max_chars max_words sp (c_start c) (c_end c) (c_text c) (c_words c)"
    "c_text c = trim_end (line_text sp (c_words c))" "c_words c = [] \<longrightarrow> sp \<noteq> None" unfolding cue_ok_def by blast
  show "\<exists>sp. (\<forall>w \<in> set (c_words c). speaker w = sp)
        \<and> c_text c = trim_end (line_text sp (c_words c))
        \<and> (c_words c \<noteq> [] \<longrightarrow> c_start c = w_start (hd (c_words c)) \<and> c_end c = w_end (last (c_words c)))
        \<and> (0 < max_words \<longrightarrow> length (c_words c) \<le> max_words)
        \<and> (0 < max_chars \<and> 1 < length (c_words c) \<longrightarrow> byte_len (c_text c) \<le> max_chars)
        \<and> (c_words c = [] \<longrightarrow> (\<exists>n. sp = Some n \<and> c_text c = trim_end (speaker_label (Some n))))"
    by (rule exI[of _ sp]) (use l in \<open>auto simp: line_ok_def\<close>)
qed

text \<open>
  The bare label is real: after a change of speaker, a first word that does not fit beside its
  label leaves a cue without words, whose end is the end of the cue before it.
\<close>

definition two_speakers :: "word_info list" where
  "two_speakers = [word_new (lit ''da'') 1 2 1 (Some 0), word_new (lit ''konechno'') 5 6 1 (Some 1)]"

lemma dec_digit [simp]: "n < 10 \<Longrightarrow> dec n = [48 + n]"
  by (simp add: dec.simps)

theorem cues_partition_words_witness:
  "concat (map c_words (build_cues 20 0 two_speakers)) = two_speakers
    \<and> map (\<lambda>c. (c_start c, c_end c, c_text c)) (build_cues 20 0 two_speakers)
      = [(1, 2, lit ''[SPEAKER_0] da''), (5, 2, lit ''[SPEAKER_1]''), (5, 6, lit ''[SPEAKER_1] konechno'')]"
proof (rule conjI)
  have "\<forall>w \<in> set two_speakers. word w \<noteq> []" by (simp add: two_speakers_def word_new_def lit_def)
  from cues_partition_words[OF this] show "concat (map c_words (build_cues 20 0 two_speakers)) = two_speakers" by blast
  show "map (\<lambda>c. (c_start c, c_end c, c_text c)) (build_cues 20 0 two_speakers)
      = [(1, 2, lit ''[SPEAKER_0] da''), (5, 2, lit ''[SPEAKER_1]''), (5, 6, lit ''[SPEAKER_1] konechno'')]"
    by (simp add: two_speakers_def build_cues_def cue_start_def cue_step_def change_speaker_def flush_def break_line_def
        start_line_def add_word_def append_word_def speaker_label_def word_new_def lit_def byte_len_def utf8_len_def
        space_def trim_end_def is_whitespace_def Let_def)
qed

section \<open>Natural segments\<close>

text \<open>Two neighbours that may stand in one segment.\<close>

definition together :: "word_info \<Rightarrow> word_info \<Rightarrow> bool" where
  "together p w \<longleftrightarrow> w_start w - w_end p \<le> SEGMENT_PAUSE_THRESHOLD_S \<and> speaker w = speaker p \<and> \<not> ends_sentence (word p)"

definition segment_ok :: "segment \<Rightarrow> bool" where
  "segment_ok g \<longleftrightarrow> g_words g \<noteq> [] \<and> g_start g = w_start (hd (g_words g)) \<and> g_end g = w_end (last (g_words g))
     \<and> g_text g = join (map word (g_words g))
     \<and> successively together (g_words g)
     \<and> (\<forall>w \<in> set (tl (g_words g)). w_end w - g_start g \<le> MAX_SEGMENT_DURATION_S)"

lemma segment_break_together: "segment_break g p w \<longleftrightarrow> \<not> (together p w \<and> w_end w - g_start g \<le> MAX_SEGMENT_DURATION_S)"
  by (auto simp: segment_break_def together_def not_le)

lemma segment_of_ok: "segment_ok (segment_of w)"
  by (simp add: segment_ok_def segment_of_def)

lemma extend_segment_ok:
  assumes "segment_ok g" "\<not> segment_break g (last (g_words g)) w"
  shows "segment_ok (extend_segment g w)"
proof -
  have ne: "g_words g \<noteq> []" using assms(1) by (simp add: segment_ok_def)
  have "together (last (g_words g)) w" "w_end w - g_start g \<le> MAX_SEGMENT_DURATION_S"
    using assms(2) by (simp_all add: segment_break_together)
  then show ?thesis using assms(1) ne
    by (auto simp: segment_ok_def extend_segment_def successively_append_iff join_snoc tl_append2)
qed

lemma together_speaker: "successively together (w # ws) \<Longrightarrow> \<forall>v \<in> set ws. speaker v = speaker w"
proof (induction ws arbitrary: w)
  case (Cons a ws)
  have a: "speaker a = speaker w" and "successively together (a # ws)" using Cons.prems by (simp_all add: together_def)
  then have "\<forall>v \<in> set ws. speaker v = speaker a" using Cons.IH by blast
  then show ?case using a by (metis set_ConsD)
qed simp

lemma close_segment_ok: "segment_ok g \<Longrightarrow> segment_ok (close_segment g)"
  by (auto simp: segment_ok_def close_segment_def)

lemma close_segment_speaker:
  assumes "segment_ok g"
  shows "\<forall>w \<in> set (g_words (close_segment g)). speaker w = g_speaker (close_segment g)"
proof (cases "g_words g")
  case (Cons w ws)
  have "\<forall>v \<in> set ws. speaker v = speaker w" using assms Cons by (intro together_speaker) (simp add: segment_ok_def)
  then show ?thesis using Cons by (auto simp: close_segment_def segment_speaker_def list_all_iff split: option.split)
qed (simp add: close_segment_def)

definition segments_of :: "word_info list \<Rightarrow> segment list \<Rightarrow> bool" where
  "segments_of ws gs \<longleftrightarrow> gs \<noteq> [] \<and> concat (map g_words gs) = ws
    \<and> (\<forall>g \<in> set gs. segment_ok g \<and> (\<forall>w \<in> set (g_words g). speaker w = g_speaker g))
    \<and> successively (\<lambda>g h. segment_break g (last (g_words g)) (hd (g_words h))) gs"

lemma segments_of_close: "segment_ok g \<Longrightarrow> segments_of (g_words g) [close_segment g]"
  using close_segment_ok close_segment_speaker[of g] unfolding segments_of_def by (simp add: close_segment_def)

lemma segments_of_Cons:
  assumes "segment_ok g" "segment_break g (last (g_words g)) (hd ws)" "segments_of ws gs"
  shows "segments_of (g_words g @ ws) (close_segment g # gs)"
proof (cases gs)
  case (Cons h hs)
  then have "g_words h \<noteq> []" using assms(3) by (simp add: segments_of_def segment_ok_def)
  then have "hd (g_words h) = hd ws" using assms(3) Cons by (auto simp: segments_of_def)
  then have "segment_break (close_segment g) (last (g_words (close_segment g))) (hd (g_words h))"
    using assms(2) by (simp add: close_segment_def segment_break_def)
  moreover have "g_words (close_segment g) = g_words g" by (simp add: close_segment_def)
  ultimately show ?thesis using assms(3) close_segment_ok[OF assms(1)] close_segment_speaker[OF assms(1)] Cons
    by (simp add: segments_of_def)
qed (use assms(3) in \<open>simp add: segments_of_def\<close>)

lemma build_segments_from_ok:
  "segment_ok g \<Longrightarrow> prev = last (g_words g) \<Longrightarrow> segments_of (g_words g @ ws) (build_segments_from g prev ws)"
proof (induction g prev ws rule: build_segments_from.induct)
  case (1 g prev)
  then show ?case using segments_of_close by simp
next
  case (2 g prev w ws)
  have one: "g_words (segment_of w) = [w]" by (simp add: segment_of_def)
  show ?case
  proof (cases "segment_break g prev w")
    case True
    then have "segments_of (w # ws) (build_segments_from (segment_of w) w ws)" using 2(1)[OF True segment_of_ok] by (simp add: one)
    then show ?thesis using segments_of_Cons[OF 2(3), of "w # ws"] True 2(4) by simp
  next
    case False
    have "segment_ok (extend_segment g w)" using extend_segment_ok[OF 2(3)] 2(4) False by blast
    moreover have "g_words (extend_segment g w) = g_words g @ [w]" by (simp add: extend_segment_def)
    ultimately show ?thesis using False 2(2)[OF False] by simp
  qed
qed

text \<open>
  The natural segments are the maximal runs of words without a boundary. They hold all
  words, in order. A segment has the times of its first and last word, the words joined by
  spaces as its text and the speaker of all its words as its speaker; inside it no pause is
  longer than 0.9 s, no sentence ends and no word after the first ends more than 30 s after the
  start. And wherever two segments meet, one of these conditions would have been violated.
\<close>

theorem segments_are_maximal_runs:
  "concat (map g_words (build_segments ws)) = ws
   \<and> (\<forall>g \<in> set (build_segments ws).
        g_words g \<noteq> [] \<and> g_start g = w_start (hd (g_words g)) \<and> g_end g = w_end (last (g_words g))
        \<and> g_text g = join (map word (g_words g))
        \<and> (\<forall>w \<in> set (g_words g). speaker w = g_speaker g)
        \<and> successively (\<lambda>p w. w_start w - w_end p \<le> 9 / 10 \<and> speaker w = speaker p \<and> \<not> ends_sentence (word p)) (g_words g)
        \<and> (\<forall>w \<in> set (tl (g_words g)). w_end w - g_start g \<le> 30))
   \<and> successively (\<lambda>g h. let p = last (g_words g); w = hd (g_words h) in
        9 / 10 < w_start w - w_end p \<or> speaker w \<noteq> speaker p \<or> ends_sentence (word p) \<or> 30 < w_end w - g_start g)
       (build_segments ws)"
proof (cases ws)
  case Nil
  then show ?thesis by (simp add: build_segments_def)
next
  case (Cons w rest)
  have t: "together = (\<lambda>p w. w_start w - w_end p \<le> 9 / 10 \<and> speaker w = speaker p \<and> \<not> ends_sentence (word p))"
    by (simp add: fun_eq_iff together_def SEGMENT_PAUSE_THRESHOLD_S_def)
  have b: "(\<lambda>g h. segment_break g (last (g_words g)) (hd (g_words h))) = (\<lambda>g h. let p = last (g_words g); w = hd (g_words h) in
        9 / 10 < w_start w - w_end p \<or> speaker w \<noteq> speaker p \<or> ends_sentence (word p) \<or> 30 < w_end w - g_start g)"
    by (simp add: fun_eq_iff segment_break_def SEGMENT_PAUSE_THRESHOLD_S_def MAX_SEGMENT_DURATION_S_def Let_def)
  have "g_words (segment_of w) = [w]" by (simp add: segment_of_def)
  then have "segments_of ws (build_segments ws)"
    using build_segments_from_ok[OF segment_of_ok, of w w rest] by (simp add: build_segments_def Cons)
  then show ?thesis unfolding segments_of_def b segment_ok_def t MAX_SEGMENT_DURATION_S_def by blast
qed

theorem segments_are_maximal_runs_witness:
  "concat (map g_words (build_segments two_speakers)) = two_speakers
    \<and> map g_text (build_segments two_speakers) = [lit ''da'', lit ''konechno'']"
proof (rule conjI)
  show "concat (map g_words (build_segments two_speakers)) = two_speakers"
    using segments_are_maximal_runs[of two_speakers] by (rule conjunct1)
  show "map g_text (build_segments two_speakers) = [lit ''da'', lit ''konechno'']"
    by (simp add: build_segments_def two_speakers_def word_new_def segment_of_def segment_break_def close_segment_def
        SEGMENT_PAUSE_THRESHOLD_S_def)
qed

section \<open>Times\<close>

definition undec :: "ustring \<Rightarrow> nat" where
  "undec s = foldl (\<lambda>a c. a * 10 + (c - 48)) 0 s"

lemma undec_dec: "undec (dec n) = n"
proof (induction n rule: dec.induct)
  case (1 n)
  then show ?case by (cases "n < 10") (simp_all add: dec.simps[of n] undec_def)
qed

lemma undec_zeros: "undec (replicate k 48 @ s) = undec s"
  by (induction k) (simp_all add: undec_def)

lemma undec_pad: "undec (pad w n) = n"
  by (simp add: pad_def undec_zeros undec_dec)

lemma dec_digits: "c \<in> set (dec n) \<Longrightarrow> 48 \<le> c \<and> c \<le> 57"
proof (induction n rule: dec.induct)
  case (1 n)
  then show ?case by (cases "n < 10") (auto simp: dec.simps[of n])
qed

lemma pad_digits: "c \<in> set (pad w n) \<Longrightarrow> 48 \<le> c \<and> c \<le> 57"
  by (auto simp: pad_def dest: dec_digits)

lemma length_dec: "n < 10 ^ k \<Longrightarrow> 0 < k \<Longrightarrow> length (dec n) \<le> k"
proof (induction n arbitrary: k rule: dec.induct)
  case (1 n)
  show ?case
  proof (cases "n < 10")
    case False
    then obtain j where k: "k = Suc j" using 1 by (cases k) auto
    have "n div 10 < 10 ^ j" "0 < j" using 1 False k by (cases j; auto simp: div_less_iff_less_mult mult.commute)+
    then show ?thesis using 1(1)[OF False, of j] k False by (simp add: dec.simps[of n])
  qed (use 1 in \<open>simp add: dec.simps[of n]\<close>)
qed

lemma length_pad: "n < 10 ^ w \<Longrightarrow> 0 < w \<Longrightarrow> length (pad w n) = w"
  using length_dec[of n w] by (simp add: pad_def)

text \<open>A reader of subtitle times: hours, minutes, seconds and milliseconds.\<close>

definition read_time :: "nat \<Rightarrow> ustring \<Rightarrow> nat" where
  "read_time sep s =
     (let field = takeWhile (\<lambda>c. c \<noteq> 58); rest = \<lambda>s. drop 1 (dropWhile (\<lambda>c. c \<noteq> 58) s);
          r1 = rest s; r2 = rest r1
      in ((undec (field s) * 60 + undec (field r1)) * 60 + undec (takeWhile (\<lambda>c. c \<noteq> sep) r2)) * 1000
         + undec (drop 1 (dropWhile (\<lambda>c. c \<noteq> sep) r2)))"

lemma take_field:
  assumes "\<forall>c \<in> set d. c \<noteq> sep"
  shows "takeWhile (\<lambda>c. c \<noteq> sep) (d @ sep # s) = d" "drop 1 (dropWhile (\<lambda>c. c \<noteq> sep) (d @ sep # s)) = s"
  using assms by (auto simp: takeWhile_append dropWhile_append)

lemma read_fields:
  assumes "sep < 48"
  shows "read_time sep (pad 2 h @ 58 # pad 2 m @ 58 # pad 2 s @ sep # pad 3 ms) = ((h * 60 + m) * 60 + s) * 1000 + ms"
proof -
  have c: "\<forall>c \<in> set (pad w n). c \<noteq> 58" for w n by (auto dest!: pad_digits)
  have p: "\<forall>c \<in> set (pad w n). c \<noteq> sep" for w n using assms by (auto dest!: pad_digits)
  show ?thesis unfolding read_time_def Let_def take_field[OF c] take_field[OF p] undec_pad ..
qed

lemma read_subtitle_time:
  assumes "sep < 48"
  shows "read_time sep (subtitle_time sep x) = round_u64 (max x 0 * 1000)"
proof -
  let ?t = "round_u64 (max x 0 * 1000)"
  let ?h = "?t div 1000 div 60 div 60" and ?m = "?t div 1000 div 60 mod 60" and ?s = "?t div 1000 mod 60"
  have "subtitle_time sep x = pad 2 ?h @ 58 # pad 2 ?m @ 58 # pad 2 ?s @ sep # pad 3 (?t mod 1000)"
    by (simp add: subtitle_time_def Let_def lit_def)
  then have "read_time sep (subtitle_time sep x) = ((?h * 60 + ?m) * 60 + ?s) * 1000 + ?t mod 1000"
    by (simp only: read_fields[OF assms])
  also have "\<dots> = ?t" by (metis div_mult_mod_eq)
  finally show ?thesis .
qed

lemma round_u64_near:
  assumes "0 \<le> x" "x < 2 ^ 63"
  shows "\<bar>of_nat (round_u64 x) - x\<bar> \<le> 1 / 2"
proof -
  have f: "0 \<le> \<lfloor>x + 1 / 2\<rfloor>" "\<lfloor>x + 1 / 2\<rfloor> \<le> 2 ^ 63" using assms by (simp_all add: floor_le_iff)
  then have "nat \<lfloor>x + 1 / 2\<rfloor> \<le> 2 ^ 63" by (simp only: nat_le_iff of_nat_power of_nat_numeral)
  then have "nat \<lfloor>x + 1 / 2\<rfloor> \<le> 2 ^ 64 - 1" by (rule order_trans) simp
  then have "of_nat (round_u64 x) = (of_int \<lfloor>x + 1 / 2\<rfloor> :: rat)" using f(1) by (simp add: round_u64_def min_def)
  then show ?thesis using floor_correct[of "x + 1 / 2"] by linarith
qed

lemma round_u64_mono: "x \<le> y \<Longrightarrow> round_u64 x \<le> round_u64 y"
  unfolding round_u64_def by (intro min.mono nat_mono floor_mono) simp_all

text \<open>
  Subtitle times are read back: for any time below \<open>2 ^ 53\<close> seconds, the SRT and VTT forms
  denote the same number of milliseconds, which is the time rounded to the nearest one (zero for
  a negative time), and a later time never has a smaller form. Below 100 hours the form has
  exactly the twelve characters \<open>hh:mm:ss,mmm\<close>.
\<close>

theorem subtitle_times_roundtrip:
  assumes "0 \<le> x" "x < 2 ^ 53" "x \<le> y"
  shows "\<bar>of_nat (read_time 44 (format_srt_time x)) - x * 1000\<bar> \<le> 1 / 2
    \<and> read_time 46 (format_vtt_time x) = read_time 44 (format_srt_time x)
    \<and> read_time 44 (format_srt_time x) \<le> read_time 44 (format_srt_time y)
    \<and> (x < 359999 \<longrightarrow> length (format_srt_time x) = 12 \<and> length (format_vtt_time x) = 12)
    \<and> (z \<le> 0 \<longrightarrow> format_srt_time z = lit ''00:00:00,000'')"
proof (intro conjI impI)
  show "\<bar>of_nat (read_time 44 (format_srt_time x)) - x * 1000\<bar> \<le> 1 / 2"
    using assms round_u64_near[of "x * 1000"] by (simp add: format_srt_time_def read_subtitle_time)
  show "read_time 46 (format_vtt_time x) = read_time 44 (format_srt_time x)"
    by (simp add: format_srt_time_def format_vtt_time_def read_subtitle_time)
  show "read_time 44 (format_srt_time x) \<le> read_time 44 (format_srt_time y)"
    unfolding format_srt_time_def by (simp add: read_subtitle_time) (rule round_u64_mono, use assms in simp)
  have l: "length (subtitle_time sep x) = 12" if "x < 359999" for sep
  proof -
    have "round_u64 (max x 0 * 1000) < 360000000"
      using that assms(1) by (simp add: round_u64_def min_less_iff_disj nat_less_iff floor_less_iff)
    then have "round_u64 (max x 0 * 1000) div 1000 div 60 div 60 < 10 ^ 2" by (simp add: div_less_iff_less_mult)
    then show ?thesis by (simp add: subtitle_time_def Let_def length_pad lit_def)
  qed
  show "length (format_srt_time x) = 12" "length (format_vtt_time x) = 12" if "x < 359999"
    using l[OF that] by (simp_all add: format_srt_time_def format_vtt_time_def)
  show "format_srt_time z = lit ''00:00:00,000''" if "z \<le> 0"
  proof -
    have "pad 2 0 = [48, 48]" "pad 3 0 = [48, 48, 48]" by (simp_all add: pad_def numeral_eq_Suc)
    moreover have "max z 0 = 0" using that by simp
    ultimately show ?thesis by (simp add: format_srt_time_def subtitle_time_def round_u64_def lit_def Let_def)
  qed
qed

theorem subtitle_times_roundtrip_witness:
  "\<bar>of_nat (read_time 44 (format_srt_time (36615 / 10))) - (36615 / 10 :: rat) * 1000\<bar> \<le> 1 / 2"
  using subtitle_times_roundtrip[of "36615 / 10" "36615 / 10" 0] by simp

end
