(* ===== verification/Export_Http.thy ===== *)
theory Export_Http
  imports Export Job_Queue
begin

text \<open>
  The export answers of \<open>server/http/export.rs\<close>: the query parameters, the rendered body with
  its headers, and the \<open>Content-Disposition\<close> value for a file name chosen by the client.
\<close>

section \<open>UTF-8\<close>

definition is_scalar :: "nat \<Rightarrow> bool" where
  "is_scalar c \<longleftrightarrow> c < 0xD800 \<or> (0xE000 \<le> c \<and> c < 0x110000)"

text \<open>The bytes of a scalar value (\<open>as_bytes\<close>).\<close>

definition utf8_char :: "nat \<Rightarrow> nat list" where
  "utf8_char c =
     (if c < 0x80 then [c]
      else if c < 0x800 then [0xC0 + c div 64, 0x80 + c mod 64]
      else if c < 0x10000 then [0xE0 + c div 4096, 0x80 + c div 64 mod 64, 0x80 + c mod 64]
      else [0xF0 + c div 262144, 0x80 + c div 4096 mod 64, 0x80 + c div 64 mod 64, 0x80 + c mod 64])"

definition utf8 :: "ustring \<Rightarrow> nat list" where
  "utf8 s = concat (map utf8_char s)"

section \<open>Content-Disposition\<close>

definition fallback_char :: "nat \<Rightarrow> nat" where
  "fallback_char c = (if c = 34 \<or> c = 92 then 95 else if 32 \<le> c \<and> c < 127 then c else 95)"

definition attr_char :: "nat \<Rightarrow> bool" where
  "attr_char b \<longleftrightarrow> (48 \<le> b \<and> b \<le> 57) \<or> (65 \<le> b \<and> b \<le> 90) \<or> (97 \<le> b \<and> b \<le> 122)
     \<or> b \<in> set (lit ''!#$&+-.^_`|~'')"

definition hex_digit :: "nat \<Rightarrow> nat" where
  "hex_digit d = (if d < 10 then 48 + d else 55 + d)"

definition encode_byte :: "nat \<Rightarrow> ustring" where
  "encode_byte b = (if attr_char b then [b] else [37, hex_digit (b div 16), hex_digit (b mod 16)])"

definition content_disposition_attachment :: "ustring \<Rightarrow> ustring" where
  "content_disposition_attachment filename =
     (let fallback = map fallback_char filename;
          encoded = concat (map encode_byte (utf8 filename))
      in lit ''attachment; filename='' @ [34] @ fallback @ [34] @ lit ''; filename*=UTF-8'' @ [39, 39] @ encoded)"

section \<open>Query parameters\<close>

text \<open>\<open>split(',')\<close>\<close>

fun split_on :: "nat \<Rightarrow> ustring \<Rightarrow> ustring list" where
  "split_on sep [] = [[]]"
| "split_on sep (c # cs) =
     (if c = sep then [] # split_on sep cs
      else case split_on sep cs of [] \<Rightarrow> [[c]] | p # ps \<Rightarrow> (c # p) # ps)"

definition parse_hotwords_query :: "ustring \<Rightarrow> ustring list" where
  "parse_hotwords_query raw = filter (\<lambda>p. p \<noteq> []) (map trim (split_on 44 raw))"

record overrides =
  o_punctuation :: "bool option"
  o_itn :: "bool option"
  o_vad :: "bool option"

definition overrides_from_export_params :: "export_params \<Rightarrow> overrides" where
  "overrides_from_export_params ps = \<lparr>o_punctuation = ep_punctuation ps, o_itn = ep_itn ps, o_vad = ep_vad ps\<rparr>"

definition hotwords_from_export_params :: "export_params \<Rightarrow> (ustring list \<times> rat option) option" where
  "hotwords_from_export_params ps = map_option (\<lambda>raw. (parse_hotwords_query raw, ep_hotwords_boost ps)) (ep_hotwords ps)"

section \<open>The answer\<close>

record export_response =
  x_content_type :: ustring
  x_disposition :: "ustring option"
  x_body :: ustring

text \<open>
  \<open>None\<close> leaves the JSON answer to the handler; the error is the code and message of a 400.
  The header value is visible ASCII (shown below), so its conversion does not fail.
\<close>

definition render_export_response :: "(rat \<Rightarrow> ustring) \<Rightarrow> (transcribe_result \<Rightarrow> ustring) \<Rightarrow> transcribe_result \<Rightarrow> export_params
    \<Rightarrow> (ustring \<times> ustring) + export_response option" where
  "render_export_response show_f64 to_json res ps =
     (let format_str = (case ep_format ps of None \<Rightarrow> lit ''json'' | Some f \<Rightarrow> f) in
      if to_ascii_lowercase format_str = lit ''json'' then Inr None
      else case from_str format_str of
             Inl (code, msg) \<Rightarrow> Inl (lit ''invalid_format'', lit ''invalid input: '' @ msg)
           | Inr f \<Rightarrow>
               let opts = \<lparr>max_chars_per_line = (case ep_max_chars_per_line ps of None \<Rightarrow> 80 | Some n \<Rightarrow> n),
                     max_words_per_line = (case ep_max_words_per_line ps of None \<Rightarrow> 14 | Some n \<Rightarrow> n),
                     include_word_timestamps = (ep_word_timestamps ps = Some True)\<rparr>;
                   body = (if f = Md \<and> ep_segments ps = Some True
                           then to_md_segments show_f64 res (max_chars_per_line opts) (max_words_per_line opts)
                           else render show_f64 to_json f res opts);
                   disposition = map_option (\<lambda>name.
                     content_disposition_attachment (if name = [] then lit ''transcript.'' @ extension f else name)) (ep_download ps)
               in Inr (Some \<lparr>x_content_type = content_type f, x_disposition = disposition, x_body = body\<rparr>))"

section \<open>The header value is safe\<close>

definition printable :: "nat \<Rightarrow> bool" where
  "printable c \<longleftrightarrow> 32 \<le> c \<and> c < 127"

text \<open>The reader of RFC 5987: \<open>%XX\<close> is a byte, anything else stands for itself.\<close>

definition unhex :: "nat \<Rightarrow> nat" where
  "unhex c = (if c < 58 then c - 48 else c - 55)"

fun percent_decode :: "ustring \<Rightarrow> nat list" where
  "percent_decode (c # cs) =
     (if c = 37 then (case cs of a # b # ds \<Rightarrow> (unhex a * 16 + unhex b) # percent_decode ds | _ \<Rightarrow> [])
      else c # percent_decode cs)"
| "percent_decode [] = []"

lemma utf8_char_bytes: "is_scalar c \<Longrightarrow> b \<in> set (utf8_char c) \<Longrightarrow> b < 256"
  by (auto simp: utf8_char_def is_scalar_def split: if_splits)

lemma utf8_bytes: "\<forall>c \<in> set s. is_scalar c \<Longrightarrow> \<forall>b \<in> set (utf8 s). b < 256"
  by (auto simp: utf8_def dest: utf8_char_bytes)

lemma length_utf8: "length (utf8 s) = byte_len s"
  by (induction s) (simp_all add: utf8_def byte_len_def utf8_char_def utf8_len_def)

lemma attr_char_printable: "attr_char b \<Longrightarrow> printable b \<and> b \<noteq> 34 \<and> b \<noteq> 92 \<and> b \<noteq> 37 \<and> b \<noteq> 59 \<and> b \<noteq> 39"
  by (auto simp: attr_char_def printable_def lit_def)

lemma unhex_hex: "d < 16 \<Longrightarrow> unhex (hex_digit d) = d"
  by (simp add: unhex_def hex_digit_def)

lemma hex_digit_attr: "d < 16 \<Longrightarrow> attr_char (hex_digit d)"
  by (simp add: attr_char_def hex_digit_def)

lemma decode_encode:
  assumes "\<forall>b \<in> set bs. b < 256"
  shows "percent_decode (concat (map encode_byte bs)) = bs"
  using assms
proof (induction bs)
  case (Cons b bs)
  then have d: "b div 16 < 16" "b mod 16 < 16" by auto
  show ?case using Cons attr_char_printable[of b] d by (cases "attr_char b") (simp_all add: encode_byte_def unhex_hex)
qed simp

lemma encode_chars:
  assumes "\<forall>b \<in> set bs. b < 256" "c \<in> set (concat (map encode_byte bs))"
  shows "attr_char c \<or> c = 37"
proof -
  obtain b where b: "b < 256" "c \<in> set (encode_byte b)" using assms by auto
  then have "b div 16 < 16" "b mod 16 < 16" by auto
  then show ?thesis using b(2) hex_digit_attr by (auto simp: encode_byte_def split: if_splits)
qed

lemma fallback_char_ok: "printable (fallback_char c) \<and> fallback_char c \<noteq> 34 \<and> fallback_char c \<noteq> 92"
  by (simp add: fallback_char_def printable_def)

text \<open>
  C31: A file name cannot break out of its header. For every string, the value consists of
  printable ASCII only, and it is exactly the two parameters: the quoted fallback contains
  neither a quote nor a backslash and has one character per character of the name, and the
  extended value contains no separator and decodes to the UTF-8 bytes of the name. A printable
  ASCII name without quotes and backslashes is its own fallback.
\<close>

theorem content_disposition_safe:
  assumes "\<forall>c \<in> set name. is_scalar c"
  shows "\<exists>fallback encoded.
      content_disposition_attachment name
        = lit ''attachment; filename='' @ [34] @ fallback @ [34] @ lit ''; filename*=UTF-8'' @ [39, 39] @ encoded
      \<and> (\<forall>c \<in> set (content_disposition_attachment name). printable c)
      \<and> 34 \<notin> set fallback \<and> 92 \<notin> set fallback \<and> length fallback = length name
      \<and> 34 \<notin> set encoded \<and> 59 \<notin> set encoded \<and> 39 \<notin> set encoded
      \<and> percent_decode encoded = utf8 name
      \<and> ((\<forall>c \<in> set name. printable c \<and> c \<noteq> 34 \<and> c \<noteq> 92) \<longrightarrow> fallback = name)"
proof -
  let ?f = "map fallback_char name" and ?e = "concat (map encode_byte (utf8 name))"
  have b: "\<forall>b \<in> set (utf8 name). b < 256" by (rule utf8_bytes[OF assms])
  have e: "\<forall>c \<in> set ?e. printable c \<and> c \<noteq> 34 \<and> c \<noteq> 59 \<and> c \<noteq> 39"
    using encode_chars[OF b] attr_char_printable by (fastforce simp: printable_def)
  have f: "\<forall>c \<in> set ?f. printable c \<and> c \<noteq> 34 \<and> c \<noteq> 92" using fallback_char_ok by auto
  have d: "content_disposition_attachment name
      = lit ''attachment; filename='' @ [34] @ ?f @ [34] @ lit ''; filename*=UTF-8'' @ [39, 39] @ ?e"
    by (simp add: content_disposition_attachment_def)
  have p: "\<forall>c \<in> set (lit ''attachment; filename='' @ [34]). printable c" "\<forall>c \<in> set ([34] @ lit ''; filename*=UTF-8'' @ [39, 39]). printable c"
    by (simp_all add: lit_def printable_def)
  have "\<forall>c \<in> set (content_disposition_attachment name). printable c"
    unfolding d using e f p by (simp only: set_append ball_Un) blast
  moreover have "(\<forall>c \<in> set name. printable c \<and> c \<noteq> 34 \<and> c \<noteq> 92) \<longrightarrow> ?f = name"
    by (auto intro!: map_idI simp: fallback_char_def printable_def)
  moreover have "34 \<notin> set ?f \<and> 92 \<notin> set ?f \<and> length ?f = length name" using f by auto
  moreover have "34 \<notin> set ?e \<and> 59 \<notin> set ?e \<and> 39 \<notin> set ?e" using e by blast
  moreover have "percent_decode ?e = utf8 name" by (rule decode_encode[OF b])
  ultimately show ?thesis using d by (intro exI[of _ ?f] exI[of _ ?e]) blast
qed

theorem content_disposition_safe_witness:
  "list_all printable (content_disposition_attachment (lit ''a'' @ [34, 0x442]))"
proof -
  have "\<forall>c \<in> set (lit ''a'' @ [34, 0x442]). is_scalar c" by (simp add: lit_def is_scalar_def)
  from content_disposition_safe[OF this] show ?thesis unfolding list_all_iff by blast
qed

end
