(* ===== verification/Stitch.thy ===== *)
theory Stitch
  imports Transcript
begin

text \<open>
  The seam of two file windows, \<open>inference/token_format/stitch.rs\<close>: the words of the overlap are
  aligned by a bounded longest-common-subsequence table, the cut goes through the pair nearest to
  the middle, and the case of a word at the start of a window is reconciled. Times are rationals.
  The Unicode tables (lower case, letters) are the record \<open>unicode\<close>.
\<close>

record unicode =
  u_lower :: "nat \<Rightarrow> ustring"
  u_alnum :: "nat \<Rightarrow> bool"
  u_alpha :: "nat \<Rightarrow> bool"
  u_upper :: "nat \<Rightarrow> bool"

definition MAX_OVERLAP_WORDS :: nat where "MAX_OVERLAP_WORDS = 64"
definition MAX_START_DRIFT :: rat where "MAX_START_DRIFT = 4 / 10"

definition word_key :: "unicode \<Rightarrow> ustring \<Rightarrow> ustring" where
  "word_key u w = map (\<lambda>c. if c = 0x451 then 0x435 else c) (filter (u_alnum u) (concat (map (u_lower u) w)))"

text \<open>
  The binary search of the standard library, which returns the first index whose element does
  not satisfy the predicate on a slice that the predicate partitions.
\<close>

definition partition_point :: "('a \<Rightarrow> bool) \<Rightarrow> 'a list \<Rightarrow> nat" where
  "partition_point P xs = length (takeWhile P xs)"

section \<open>The alignment table\<close>

record score =
  matches :: nat
  drift :: rat

definition score_default :: score where
  "score_default = \<lparr>matches = 0, drift = 0\<rparr>"

definition with_match :: "rat \<Rightarrow> score \<Rightarrow> score" where
  "with_match d s = \<lparr>matches = matches s + 1, drift = drift s + d\<rparr>"

definition better_than :: "score \<Rightarrow> score \<Rightarrow> bool" where
  "better_than a b \<longleftrightarrow> matches b < matches a \<or> (matches a = matches b \<and> drift a < drift b)"

text \<open>The drift of the pair of the words \<open>i\<close> and \<open>j\<close>, when they match.\<close>

definition pair_drift :: "unicode \<Rightarrow> word_info list \<Rightarrow> word_info list \<Rightarrow> nat \<Rightarrow> nat \<Rightarrow> rat option" where
  "pair_drift u old new i j =
     (let ki = word_key u (word (old ! i)); kj = word_key u (word (new ! j)); d = \<bar>w_start (old ! i) - w_start (new ! j)\<bar> in
      if ki \<noteq> [] \<and> ki = kj \<and> d \<le> MAX_START_DRIFT then Some d else None)"

definition cell :: "rat option \<Rightarrow> score \<Rightarrow> score \<Rightarrow> score \<Rightarrow> score" where
  "cell pair up left diag =
     (let best = (if better_than left up then left else up) in
      case pair of
        None \<Rightarrow> best
      | Some d \<Rightarrow> if better_than (with_match d diag) best then with_match d diag else best)"

definition next_row :: "(nat \<Rightarrow> nat \<Rightarrow> rat option) \<Rightarrow> nat \<Rightarrow> nat \<Rightarrow> score list \<Rightarrow> score list" where
  "next_row pair n i prev =
     fold (\<lambda>j row. row @ [cell (pair (i - 1) (j - 1)) (prev ! j) (row ! (j - 1)) (prev ! (j - 1))]) [1..<Suc n] [score_default]"

definition score_table :: "(nat \<Rightarrow> nat \<Rightarrow> rat option) \<Rightarrow> nat \<Rightarrow> nat \<Rightarrow> score list list" where
  "score_table pair m n =
     fold (\<lambda>i rows. rows @ [next_row pair n i (rows ! (i - 1))]) [1..<Suc m] [replicate (Suc n) score_default]"

section \<open>The cut\<close>

record cut_state =
  best_cut :: "(nat \<times> nat) option"
  best_distance :: "rat option"        \<comment> \<open>\<open>None\<close> is infinity\<close>

definition closer :: "rat \<Rightarrow> rat option \<Rightarrow> bool" where
  "closer d b = (case b of None \<Rightarrow> True | Some x \<Rightarrow> d < x)"

definition ordered_at :: "word_info list \<Rightarrow> word_info list \<Rightarrow> nat \<Rightarrow> nat \<Rightarrow> bool" where
  "ordered_at merged next a b \<longleftrightarrow> a = 0 \<or> b = length next \<or> w_start (merged ! (a - 1)) \<le> w_start (next ! b)"

definition try_cut :: "word_info list \<Rightarrow> word_info list \<Rightarrow> rat \<Rightarrow> nat \<Rightarrow> nat \<Rightarrow> cut_state \<Rightarrow> cut_state" where
  "try_cut merged next seam p q st =
     (let center = (w_start (merged ! p) + w_start (next ! q)) / 2;
          distance = \<bar>center - seam\<bar>;
          preferred = (if center \<le> seam then 1 else 0);
          ok = (\<lambda>k. ordered_at merged next (p + k) (q + k) \<and> closer distance (best_distance st))
      in if ok preferred then \<lparr>best_cut = Some (p + preferred, q + preferred), best_distance = Some distance\<rparr>
         else if ok (1 - preferred) then \<lparr>best_cut = Some (p + (1 - preferred), q + (1 - preferred)), best_distance = Some distance\<rparr>
         else st)"

function trace_back :: "(nat \<Rightarrow> nat \<Rightarrow> rat option) \<Rightarrow> score list list \<Rightarrow> (nat \<Rightarrow> nat \<Rightarrow> cut_state \<Rightarrow> cut_state) \<Rightarrow> nat \<Rightarrow> nat
    \<Rightarrow> cut_state \<Rightarrow> cut_state" where
  "trace_back pair tab visit i j st =
     (if 0 < i \<and> 0 < j then
        let s = tab ! i ! j in
        case pair (i - 1) (j - 1) of
          Some d \<Rightarrow>
            if s = with_match d (tab ! (i - 1) ! (j - 1)) then trace_back pair tab visit (i - 1) (j - 1) (visit (i - 1) (j - 1) st)
            else if s = tab ! (i - 1) ! j then trace_back pair tab visit (i - 1) j st
            else trace_back pair tab visit i (j - 1) st
        | None \<Rightarrow>
            if s = tab ! (i - 1) ! j then trace_back pair tab visit (i - 1) j st
            else trace_back pair tab visit i (j - 1) st
      else st)"
  by pat_completeness auto
termination
  by (relation "measure (\<lambda>(_, _, _, i, j, _). i + j)") auto

declare trace_back.simps [simp del]

definition aligned_cut :: "unicode \<Rightarrow> word_info list \<Rightarrow> word_info list \<Rightarrow> rat \<Rightarrow> rat \<Rightarrow> (nat \<times> nat) option" where
  "aligned_cut u merged next ov_start ov_end =
     (let seam = (ov_start + ov_end) / 2;
          old_start = partition_point (\<lambda>w. w_start w < ov_start) merged;
          old_end = partition_point (\<lambda>w. w_start w \<le> ov_end) merged;
          new_start = partition_point (\<lambda>w. w_start w < ov_start) next;
          new_end = partition_point (\<lambda>w. w_start w \<le> ov_end) next;
          old = subslice merged old_start old_end;
          new = subslice next new_start new_end
      in if old = [] \<or> new = [] \<or> MAX_OVERLAP_WORDS < length old \<or> MAX_OVERLAP_WORDS < length new then None
         else
           let pair = pair_drift u old new;
               tab = score_table pair (length old) (length new)
           in best_cut (trace_back pair tab (\<lambda>i j. try_cut merged next seam (old_start + i) (new_start + j))
                (length old) (length new) \<lparr>best_cut = None, best_distance = None\<rparr>))"

section \<open>The case of the first word\<close>

definition ends_sentence_word :: "ustring \<Rightarrow> bool" where
  "ends_sentence_word w =
     (let t = rev (dropWhile (\<lambda>c. c \<in> {0x22, 0x27, 0xBB, 0x29, 0x5D, 0x201D, 0x2019, 0x20}) (rev w)) in
      t \<noteq> [] \<and> last t \<in> {0x2E, 0x21, 0x3F, 0x2026})"

definition unique_overlap_match :: "unicode \<Rightarrow> word_info list \<Rightarrow> word_info \<Rightarrow> ustring \<Rightarrow> rat \<Rightarrow> rat \<Rightarrow> bool" where
  "unique_overlap_match u ws anchor key ov_start ov_end =
     (let s = partition_point (\<lambda>w. w_start w < ov_start) ws;
          e = partition_point (\<lambda>w. w_start w \<le> ov_end) ws
      in length (take 2 (filter (\<lambda>w. \<bar>w_start w - w_start anchor\<bar> \<le> MAX_START_DRIFT \<and> word_key u (word w) = key)
           (subslice ws s e))) = 1)"

definition lower_first :: "unicode \<Rightarrow> ustring \<Rightarrow> ustring" where
  "lower_first u w = takeWhile (\<lambda>c. \<not> u_alpha u c) w
     @ (case dropWhile (\<lambda>c. \<not> u_alpha u c) w of [] \<Rightarrow> [] | c # cs \<Rightarrow> u_lower u c @ cs)"

definition reconcile_seam_case :: "unicode \<Rightarrow> word_info list \<Rightarrow> nat \<Rightarrow> word_info list \<Rightarrow> rat \<Rightarrow> rat \<Rightarrow> word_info list" where
  "reconcile_seam_case u old boundary next ov_start ov_end =
     (case next of
        [] \<Rightarrow> next
      | first # rest \<Rightarrow>
          if boundary = 0 \<or> length old \<le> boundary \<or> ends_sentence_word (word (old ! (boundary - 1))) then next
          else case filter (u_alpha u) (word first) of
                 [] \<Rightarrow> next
               | ch # letters \<Rightarrow>
                   if \<not> ((0x410 \<le> ch \<and> ch \<le> 0x42F) \<or> ch = 0x401) then next
                   else if letters \<noteq> [] \<and> list_all (u_upper u) letters then next
                   else
                     let lower = lower_first u (word first); key = word_key u (word first) in
                     if word (old ! boundary) \<noteq> lower then next
                     else if unique_overlap_match u old first key ov_start ov_end
                           \<and> unique_overlap_match u next (old ! boundary) key ov_start ov_end
                          then first\<lparr>word := lower\<rparr> # rest
                          else next)"

definition stitch_chunk_words_retained :: "unicode \<Rightarrow> word_info list \<Rightarrow> word_info list \<Rightarrow> rat \<Rightarrow> rat
    \<Rightarrow> word_info list \<times> nat" where
  "stitch_chunk_words_retained u merged next ov_start ov_end =
     (let seam = (ov_start + ov_end) / 2 in
      if merged = [] then (next, 0)
      else if next = [] then (merged, length merged)
      else
        let aligned = aligned_cut u merged next ov_start ov_end;
            next' = (case aligned of
                       Some (old_end, b) \<Rightarrow> if b = 0 then reconcile_seam_case u merged old_end next ov_start ov_end else next
                     | None \<Rightarrow> next);
            (old_end, new_start) = (case aligned of
                       Some c \<Rightarrow> c
                     | None \<Rightarrow> (partition_point (\<lambda>w. w_start w \<le> seam) merged, partition_point (\<lambda>w. w_start w \<le> seam) next'))
        in (take old_end merged @ drop new_start next', old_end))"

section \<open>The table holds the best scores\<close>

fun best_score :: "(nat \<Rightarrow> nat \<Rightarrow> rat option) \<Rightarrow> nat \<Rightarrow> nat \<Rightarrow> score" where
  "best_score pair 0 j = score_default"
| "best_score pair (Suc i) 0 = score_default"
| "best_score pair (Suc i) (Suc j) =
     cell (pair i j) (best_score pair i (Suc j)) (best_score pair (Suc i) j) (best_score pair i j)"

definition score_row :: "(nat \<Rightarrow> nat \<Rightarrow> rat option) \<Rightarrow> nat \<Rightarrow> nat \<Rightarrow> score list" where
  "score_row pair n i = map (best_score pair i) [0..<Suc n]"

lemma score_row_nth: "j \<le> n \<Longrightarrow> score_row pair n i ! j = best_score pair i j"
  by (simp add: score_row_def del: upt_Suc)

lemma next_row_correct: "next_row pair n (Suc i) (score_row pair n i) = score_row pair n (Suc i)"
proof -
  have "k \<le> n \<Longrightarrow> fold (\<lambda>j row. row @ [cell (pair (Suc i - 1) (j - 1)) (score_row pair n i ! j) (row ! (j - 1)) (score_row pair n i ! (j - 1))])
      [1..<Suc k] [score_default] = map (best_score pair (Suc i)) [0..<Suc k]" for k
  proof (induction k)
    case (Suc k)
    have "map (best_score pair (Suc i)) [0..<Suc k] ! k = best_score pair (Suc i) k" by (simp del: upt_Suc)
    then show ?case using Suc by (simp add: score_row_nth)
  qed simp
  from this[of n] show ?thesis by (simp add: next_row_def score_row_def)
qed

lemma score_table_correct: "score_table pair m n = map (score_row pair n) [0..<Suc m]"
proof (induction m)
  case 0
  have "replicate (Suc n) score_default = score_row pair n 0"
    by (simp add: list_eq_iff_nth_eq score_row_def del: upt_Suc replicate.simps)
  then show ?case by (simp add: score_table_def)
next
  case (Suc m)
  have "map (score_row pair n) [0..<Suc m] ! m = score_row pair n m" by (simp del: upt_Suc)
  then show ?case using Suc by (simp add: score_table_def next_row_correct)
qed

lemma score_table_nth: "i \<le> m \<Longrightarrow> j \<le> n \<Longrightarrow> score_table pair m n ! i ! j = best_score pair i j"
  by (simp add: score_table_correct score_row_nth del: upt_Suc)

section \<open>Alignments\<close>

text \<open>
  An alignment pairs words of the two windows, in order and each at most once; only words that
  match may be paired.
\<close>

definition alignment :: "(nat \<Rightarrow> nat \<Rightarrow> rat option) \<Rightarrow> nat \<Rightarrow> nat \<Rightarrow> (nat \<times> nat) list \<Rightarrow> bool" where
  "alignment pair i j ps \<longleftrightarrow> sorted_wrt (\<lambda>(p, q) (p', q'). p < p' \<and> q < q') ps
     \<and> (\<forall>(p, q) \<in> set ps. p < i \<and> q < j \<and> pair p q \<noteq> None)"

definition total_drift :: "(nat \<Rightarrow> nat \<Rightarrow> rat option) \<Rightarrow> (nat \<times> nat) list \<Rightarrow> rat" where
  "total_drift pair ps = sum_list (map (\<lambda>(p, q). the (pair p q)) ps)"

definition value_of :: "(nat \<Rightarrow> nat \<Rightarrow> rat option) \<Rightarrow> (nat \<times> nat) list \<Rightarrow> score" where
  "value_of pair ps = \<lparr>matches = length ps, drift = total_drift pair ps\<rparr>"

lemma value_of_Nil: "value_of pair [] = score_default"
  by (simp add: value_of_def score_default_def total_drift_def)

lemma value_of_snoc: "pair p q = Some d \<Longrightarrow> value_of pair (ps @ [(p, q)]) = with_match d (value_of pair ps)"
  by (simp add: value_of_def with_match_def total_drift_def)

lemma not_better_trans: "\<not> better_than a b \<Longrightarrow> \<not> better_than b c \<Longrightarrow> \<not> better_than a c"
  by (auto simp: better_than_def)

lemma better_asym: "better_than a b \<Longrightarrow> \<not> better_than b a"
  by (auto simp: better_than_def)

lemma with_match_mono: "\<not> better_than a b \<Longrightarrow> \<not> better_than (with_match d a) (with_match d b)"
  by (auto simp: better_than_def with_match_def)

lemma cell_best:
  "\<not> better_than up (cell x up left diag)" "\<not> better_than left (cell x up left diag)"
  "x = Some d \<Longrightarrow> \<not> better_than (with_match d diag) (cell x up left diag)"
  by (auto simp: cell_def better_than_def Let_def split: option.split)

lemma cell_cases:
  "cell x up left diag = up \<or> cell x up left diag = left \<or> (\<exists>d. x = Some d \<and> cell x up left diag = with_match d diag)"
  by (auto simp: cell_def Let_def split: option.split)

lemma alignment_snoc:
  "alignment pair (Suc i) (Suc j) (ps @ [(i, j)]) \<longleftrightarrow> alignment pair i j ps \<and> pair i j \<noteq> None"
  by (fastforce simp: alignment_def sorted_wrt_append)

lemma alignment_mono: "alignment pair i j ps \<Longrightarrow> i \<le> i' \<Longrightarrow> j \<le> j' \<Longrightarrow> alignment pair i' j' ps"
  by (fastforce simp: alignment_def)

lemma alignment_cases:
  assumes "alignment pair (Suc i) (Suc j) ps"
  shows "alignment pair i (Suc j) ps \<or> alignment pair (Suc i) j ps
    \<or> (\<exists>qs. ps = qs @ [(i, j)] \<and> alignment pair i j qs \<and> pair i j \<noteq> None)"
proof (cases ps rule: rev_cases)
  case Nil
  then show ?thesis by (simp add: alignment_def)
next
  case (snoc qs e)
  obtain p q where e: "e = (p, q)" by fastforce
  have lt: "p < Suc i" "q < Suc j" "pair p q \<noteq> None" using assms by (auto simp: alignment_def snoc e)
  have before: "p' < p \<and> q' < q" if "(p', q') \<in> set qs" for p' q'
    using assms that by (auto simp: alignment_def snoc e sorted_wrt_append)
  show ?thesis
  proof (cases "p = i \<and> q = j")
    case True
    then show ?thesis using assms alignment_snoc[of pair i j qs] by (auto simp: snoc e)
  next
    case False
    then have "p < i \<or> q < j" using lt by linarith
    then show ?thesis using assms before by (fastforce simp: alignment_def snoc e)
  qed
qed

lemma best_score_upper:
  "alignment pair i j ps \<Longrightarrow> \<not> better_than (value_of pair ps) (best_score pair i j)"
proof (induction pair i j arbitrary: ps rule: best_score.induct)
  case (1 pair j)
  then have "ps = []" by (cases ps) (auto simp: alignment_def)
  then show ?case by (simp add: value_of_Nil better_than_def)
next
  case (2 pair i)
  then have "ps = []" by (cases ps) (auto simp: alignment_def)
  then show ?case by (simp add: value_of_Nil better_than_def)
next
  case (3 pair i j)
  consider "alignment pair i (Suc j) ps" | "alignment pair (Suc i) j ps"
    | qs where "ps = qs @ [(i, j)]" "alignment pair i j qs" "pair i j \<noteq> None"
    using alignment_cases[OF 3(4)] by blast
  then show ?case
  proof cases
    case 1
    from not_better_trans[OF 3(1)[OF this] cell_best(1)] show ?thesis by simp
  next
    case 2
    from not_better_trans[OF 3(2)[OF this] cell_best(2)] show ?thesis by simp
  next
    case c: 3
    then obtain d where d: "pair i j = Some d" by blast
    have "\<not> better_than (with_match d (value_of pair qs)) (with_match d (best_score pair i j))"
      by (rule with_match_mono[OF 3(3)[OF c(2)]])
    from not_better_trans[OF this cell_best(3)[OF d]] show ?thesis by (simp add: c(1) value_of_snoc[of pair i j d, OF d])
  qed
qed

text \<open>The way back through the table visits an alignment that has the best score.\<close>

lemma trace_back_alignment:
  assumes "i \<le> m" "j \<le> n"
  shows "\<exists>ps. alignment pair i j ps \<and> value_of pair ps = best_score pair i j
    \<and> (\<forall>visit st. trace_back pair (score_table pair m n) visit i j st = fold (\<lambda>(p, q). visit p q) (rev ps) st)"
  using assms
proof (induction pair i j rule: best_score.induct)
  case (1 pair j)
  then show ?case by (intro exI[of _ "[]"]) (simp add: alignment_def value_of_Nil trace_back.simps)
next
  case (2 pair i)
  then show ?case by (intro exI[of _ "[]"]) (simp add: alignment_def value_of_Nil trace_back.simps)
next
  case (3 pair i j)
  let ?tab = "score_table pair m n" and ?s = "best_score pair (Suc i) (Suc j)"
  have le: "i \<le> m" "Suc i \<le> m" "j \<le> n" "Suc j \<le> n" using 3(4,5) by simp_all
  have t: "?tab ! Suc i ! Suc j = ?s" "?tab ! i ! j = best_score pair i j" "?tab ! i ! Suc j = best_score pair i (Suc j)"
    by (rule score_table_nth; use le in simp)+
  note step = trace_back.simps[of pair ?tab _ "Suc i" "Suc j", unfolded t diff_Suc_1 Let_def]
  consider (match) d where "pair i j = Some d" "?s = with_match d (best_score pair i j)"
    | (up) "\<And>d. pair i j = Some d \<Longrightarrow> ?s \<noteq> with_match d (best_score pair i j)" "?s = best_score pair i (Suc j)"
    | (left) "\<And>d. pair i j = Some d \<Longrightarrow> ?s \<noteq> with_match d (best_score pair i j)" "?s \<noteq> best_score pair i (Suc j)"
        "?s = best_score pair (Suc i) j"
    using cell_cases[of "pair i j" "best_score pair i (Suc j)" "best_score pair (Suc i) j" "best_score pair i j"]
    unfolding best_score.simps(3) by blast
  then show ?case
  proof cases
    case match
    obtain ps where ps: "alignment pair i j ps" "value_of pair ps = best_score pair i j"
      "\<And>visit st. trace_back pair ?tab visit i j st = fold (\<lambda>(p, q). visit p q) (rev ps) st"
      using 3(3)[OF le(1,3)] by blast
    have "alignment pair (Suc i) (Suc j) (ps @ [(i, j)])" using ps(1) match(1) by (simp add: alignment_snoc)
    moreover have "value_of pair (ps @ [(i, j)]) = ?s" using value_of_snoc[of pair i j d ps] match ps(2) by simp
    moreover have "trace_back pair ?tab visit (Suc i) (Suc j) st = fold (\<lambda>(p, q). visit p q) (rev (ps @ [(i, j)])) st" for visit st
      unfolding step using match by (simp add: ps(3))
    ultimately show ?thesis by blast
  next
    case up
    obtain ps where ps: "alignment pair i (Suc j) ps" "value_of pair ps = best_score pair i (Suc j)"
      "\<And>visit st. trace_back pair ?tab visit i (Suc j) st = fold (\<lambda>(p, q). visit p q) (rev ps) st"
      using 3(1)[OF le(1,4)] by blast
    have "trace_back pair ?tab visit (Suc i) (Suc j) st = fold (\<lambda>(p, q). visit p q) (rev ps) st" for visit st
      unfolding step using up by (cases "pair i j") (simp_all add: ps(3))
    moreover have "alignment pair (Suc i) (Suc j) ps" using alignment_mono[OF ps(1)] by simp
    ultimately show ?thesis using ps(2) up(2) by metis
  next
    case left
    obtain ps where ps: "alignment pair (Suc i) j ps" "value_of pair ps = best_score pair (Suc i) j"
      "\<And>visit st. trace_back pair ?tab visit (Suc i) j st = fold (\<lambda>(p, q). visit p q) (rev ps) st"
      using 3(2)[OF le(2,3)] by blast
    have "trace_back pair ?tab visit (Suc i) (Suc j) st = fold (\<lambda>(p, q). visit p q) (rev ps) st" for visit st
      unfolding step using left by (cases "pair i j") (simp_all add: ps(3))
    moreover have "alignment pair (Suc i) (Suc j) ps" using alignment_mono[OF ps(1)] by simp
    ultimately show ?thesis using ps(2) left(3) by metis
  qed
qed

text \<open>
  C10: The alignment at a seam is optimal. The pairs that the code visits on its way back through
  the score table form an alignment of the two overlaps (in order, each word at most once, only
  words that match), no alignment has more pairs, and none with as many pairs has a smaller sum
  of time differences. This holds for all words and all relations of matching.
\<close>

theorem seam_alignment_optimal:
  "\<exists>ps. alignment pair m n ps
    \<and> (\<forall>qs. alignment pair m n qs \<longrightarrow> length qs < length ps \<or> (length qs = length ps \<and> total_drift pair ps \<le> total_drift pair qs))
    \<and> (\<forall>visit st. trace_back pair (score_table pair m n) visit m n st = fold (\<lambda>(p, q). visit p q) (rev ps) st)"
proof -
  obtain ps where ps: "alignment pair m n ps" "value_of pair ps = best_score pair m n"
    "\<And>visit st. trace_back pair (score_table pair m n) visit m n st = fold (\<lambda>(p, q). visit p q) (rev ps) st"
    using trace_back_alignment[OF order.refl order.refl] by blast
  have "length qs < length ps \<or> (length qs = length ps \<and> total_drift pair ps \<le> total_drift pair qs)"
    if "alignment pair m n qs" for qs
    using best_score_upper[OF that] unfolding ps(2)[symmetric] by (auto simp: better_than_def value_of_def)
  then show ?thesis using ps(1,3) by blast
qed

theorem seam_alignment_optimal_witness:
  "\<nexists>qs. alignment (\<lambda>i j. Some 0) 1 1 qs \<and> 1 < length qs"
proof -
  obtain ps where ps: "alignment (\<lambda>i j. Some 0) 1 1 ps"
    "\<And>qs. alignment (\<lambda>i j. Some 0) 1 1 qs \<Longrightarrow> length qs \<le> length ps"
    using seam_alignment_optimal[of "\<lambda>i j. Some 0" 1 1] by (metis le_less)
  have "length ps \<le> 1"
  proof (cases ps)
    case (Cons x xs)
    then show ?thesis using ps(1) by (cases xs) (auto simp: alignment_def)
  qed simp
  then show ?thesis using ps(2) by fastforce
qed

section \<open>The stitched words\<close>

definition chronological :: "word_info list \<Rightarrow> bool" where
  "chronological ws \<longleftrightarrow> sorted (map w_start ws)"

text \<open>A cut \<open>(a, b)\<close> passes beside a pair of the same word in both windows.\<close>

definition sound_cut :: "unicode \<Rightarrow> word_info list \<Rightarrow> word_info list \<Rightarrow> nat \<times> nat \<Rightarrow> bool" where
  "sound_cut u merged next c \<longleftrightarrow>
     (\<exists>p q. p < length merged \<and> q < length next \<and> word_key u (word (merged ! p)) \<noteq> []
        \<and> word_key u (word (merged ! p)) = word_key u (word (next ! q))
        \<and> \<bar>w_start (merged ! p) - w_start (next ! q)\<bar> \<le> MAX_START_DRIFT
        \<and> (c = (p, q) \<or> c = (p + 1, q + 1)))
     \<and> ordered_at merged next (fst c) (snd c)"

definition cuts_sound :: "unicode \<Rightarrow> word_info list \<Rightarrow> word_info list \<Rightarrow> cut_state \<Rightarrow> bool" where
  "cuts_sound u merged next st \<longleftrightarrow> (\<forall>c. best_cut st = Some c \<longrightarrow> sound_cut u merged next c)"

lemma try_cut_sound:
  assumes "cuts_sound u merged next st" "p < length merged" "q < length next"
    and "word_key u (word (merged ! p)) \<noteq> []" "word_key u (word (merged ! p)) = word_key u (word (next ! q))"
    and "\<bar>w_start (merged ! p) - w_start (next ! q)\<bar> \<le> MAX_START_DRIFT"
  shows "cuts_sound u merged next (try_cut merged next seam p q st)"
proof -
  have c: "sound_cut u merged next (p + k, q + k)" if "k \<le> 1" "ordered_at merged next (p + k) (q + k)" for k
  proof -
    have "k = 0 \<or> k = 1" using that(1) by linarith
    then have "(p + k, q + k) = (p, q) \<or> (p + k, q + k) = (p + 1, q + 1)" by auto
    then show ?thesis using assms(2-6) that(2) unfolding sound_cut_def by (metis fst_conv snd_conv)
  qed
  show ?thesis using assms(1) c[of 0] c[of 1] by (auto simp: try_cut_def cuts_sound_def Let_def)
qed

lemma try_cuts_sound:
  assumes "\<forall>(i, j) \<in> set ps. P i j" "cuts_sound u merged next st"
    and "\<And>i j st. P i j \<Longrightarrow> cuts_sound u merged next st \<Longrightarrow> cuts_sound u merged next (f i j st)"
  shows "cuts_sound u merged next (fold (\<lambda>(i, j). f i j) ps st)"
  using assms(1,2) by (induction ps arbitrary: st) (auto intro: assms(3))

lemma aligned_cut_sound:
  assumes "aligned_cut u merged next ov_start ov_end = Some c"
  shows "sound_cut u merged next c"
proof -
  let ?os = "partition_point (\<lambda>w. w_start w < ov_start) merged" and ?oe = "partition_point (\<lambda>w. w_start w \<le> ov_end) merged"
  let ?ns = "partition_point (\<lambda>w. w_start w < ov_start) next" and ?ne = "partition_point (\<lambda>w. w_start w \<le> ov_end) next"
  let ?old = "subslice merged ?os ?oe" and ?new = "subslice next ?ns ?ne"
  let ?pair = "pair_drift u ?old ?new" and ?seam = "(ov_start + ov_end) / 2"
  let ?visit = "\<lambda>i j. try_cut merged next ?seam (?os + i) (?ns + j)"
  let ?st = "\<lparr>best_cut = None, best_distance = None\<rparr>"
  obtain ps where ps: "alignment ?pair (length ?old) (length ?new) ps"
    "trace_back ?pair (score_table ?pair (length ?old) (length ?new)) ?visit (length ?old) (length ?new) ?st
      = fold (\<lambda>(p, q). ?visit p q) (rev ps) ?st"
    using trace_back_alignment[OF order.refl order.refl] by metis
  have c: "best_cut (fold (\<lambda>(p, q). ?visit p q) (rev ps) ?st) = Some c"
    using assms unfolding aligned_cut_def Let_def ps(2)[symmetric] by (simp split: if_splits)
  let ?P = "\<lambda>i j. i < length ?old \<and> j < length ?new \<and> ?pair i j \<noteq> None"
  have "cuts_sound u merged next (?visit i j st)" if "?P i j" "cuts_sound u merged next st" for i j st
  proof (rule try_cut_sound[OF that(2)])
    have i: "?os + i < length merged" "?old ! i = merged ! (?os + i)" using that(1) by (auto simp: subslice_def)
    have j: "?ns + j < length next" "?new ! j = next ! (?ns + j)" using that(1) by (auto simp: subslice_def)
    show "?os + i < length merged" "?ns + j < length next" by (rule i(1) j(1))+
    show "word_key u (word (merged ! (?os + i))) \<noteq> []" "word_key u (word (merged ! (?os + i))) = word_key u (word (next ! (?ns + j)))"
      "\<bar>w_start (merged ! (?os + i)) - w_start (next ! (?ns + j))\<bar> \<le> MAX_START_DRIFT"
      using that(1) by (auto simp: pair_drift_def Let_def i(2) j(2) split: if_splits)
  qed
  moreover have "\<forall>(i, j) \<in> set (rev ps). ?P i j" using ps(1) by (auto simp: alignment_def)
  moreover have "cuts_sound u merged next ?st" by (simp add: cuts_sound_def)
  ultimately have "cuts_sound u merged next (fold (\<lambda>(i, j). ?visit i j) (rev ps) ?st)"
    by (rule try_cuts_sound[where P = ?P, rotated 2])
  then show ?thesis using c by (simp add: cuts_sound_def)
qed

lemma reconcile_cases:
  "reconcile_seam_case u old b next s e = next
   \<or> (next \<noteq> [] \<and> b < length old \<and> word (old ! b) = lower_first u (word (hd next))
      \<and> reconcile_seam_case u old b next s e = (hd next)\<lparr>word := lower_first u (word (hd next))\<rparr> # tl next)"
  by (auto simp: reconcile_seam_case_def Let_def split: list.split)

lemma partition_point_le: "partition_point P xs \<le> length xs"
  by (simp add: partition_point_def length_takeWhile_le)

lemma chronological_append:
  assumes "chronological xs" "chronological ys" "xs = [] \<or> ys = [] \<or> w_start (last xs) \<le> w_start (hd ys)"
  shows "chronological (xs @ ys)"
proof (cases "xs = [] \<or> ys = []")
  case False
  then have "\<forall>x \<in> set xs. w_start x \<le> w_start (last xs)"
    using assms(1) by (cases xs rule: rev_cases) (auto simp: chronological_def sorted_append)
  moreover have "\<forall>y \<in> set ys. w_start (hd ys) \<le> w_start y" using assms(2) False by (cases ys) (auto simp: chronological_def)
  ultimately show ?thesis using assms False by (auto simp: chronological_def sorted_append) (meson order_trans)
qed (use assms in auto)

lemma chronological_take_drop:
  assumes "chronological merged" "chronological next" "a \<le> length merged" "b \<le> length next" "ordered_at merged next a b"
  shows "chronological (take a merged @ drop b next)"
proof (rule chronological_append)
  show "chronological (take a merged)" using assms(1) by (simp add: chronological_def take_map[symmetric] sorted_wrt_take)
  show "chronological (drop b next)" using assms(2) by (simp add: chronological_def drop_map[symmetric] sorted_wrt_drop)
  show "take a merged = [] \<or> drop b next = [] \<or> w_start (last (take a merged)) \<le> w_start (hd (drop b next))"
  proof (cases "a = 0 \<or> b = length next")
    case False
    then have "take a merged \<noteq> []" "b < length next" using assms(3,4) by auto
    then have "last (take a merged) = merged ! (a - 1)" "hd (drop b next) = next ! b"
      using assms(3) False by (auto simp: last_conv_nth hd_drop_conv_nth min_def)
    then show ?thesis using assms(5) False by (simp add: ordered_at_def)
  qed auto
qed

lemma fallback_ordered: "ordered_at merged next (partition_point (\<lambda>w. w_start w \<le> seam) merged) (partition_point (\<lambda>w. w_start w \<le> seam) next)"
proof -
  let ?a = "partition_point (\<lambda>w. w_start w \<le> seam) merged" and ?b = "partition_point (\<lambda>w. w_start w \<le> seam) next"
  have "w_start (merged ! (?a - 1)) \<le> seam" if "?a \<noteq> 0"
  proof -
    have "takeWhile (\<lambda>w. w_start w \<le> seam) merged ! (?a - 1) = merged ! (?a - 1)" "?a - 1 < length (takeWhile (\<lambda>w. w_start w \<le> seam) merged)"
      using that by (auto simp: partition_point_def intro!: takeWhile_nth)
    then show ?thesis by (metis nth_mem set_takeWhileD)
  qed
  moreover have "seam < w_start (next ! ?b)" if "?b \<noteq> length next"
  proof -
    have "?b < length next" using that partition_point_le[of "\<lambda>w. w_start w \<le> seam" "next"] by linarith
    then show ?thesis using nth_length_takeWhile[of "\<lambda>w. w_start w \<le> seam" "next"] unfolding partition_point_def by linarith
  qed
  ultimately show ?thesis by (cases "?a = 0 \<or> ?b = length next") (auto simp: ordered_at_def)
qed

text \<open>
  C11: Stitching keeps the transcript in order and loses nothing but the duplicates. For windows
  whose words are in order of time, the result is in order of time. It is an unchanged prefix of
  the old words, whose length is returned, followed by a suffix of the new words, of which at
  most the first has its initial case changed. When an alignment was found, the cut passes beside
  a word that both windows contain, at most 0.4 s apart, so that this word is kept exactly once.
\<close>

theorem stitch_keeps_order:
  assumes "chronological merged" "chronological next"
    and "stitch_chunk_words_retained u merged next ov_start ov_end = (ws, r)"
  shows "chronological ws \<and> r \<le> length merged
    \<and> (\<exists>k next'. ws = take r merged @ drop k next' \<and> k \<le> length next
        \<and> (next' = next \<or> (next \<noteq> [] \<and> next' = (hd next)\<lparr>word := lower_first u (word (hd next))\<rparr> # tl next))
        \<and> (merged \<noteq> [] \<and> next \<noteq> [] \<and> aligned_cut u merged next ov_start ov_end \<noteq> None \<longrightarrow>
            (\<exists>p q. p < length merged \<and> q < length next \<and> word_key u (word (merged ! p)) = word_key u (word (next ! q))
              \<and> \<bar>w_start (merged ! p) - w_start (next ! q)\<bar> \<le> 4 / 10
              \<and> ((r = p \<and> k = q) \<or> (r = p + 1 \<and> k = q + 1)))))"
    (is "_ \<and> _ \<and> ?suffix")
proof -
  consider (empty_old) "merged = []" | (empty_new) "merged \<noteq> []" "next = []"
    | (fallback) "merged \<noteq> []" "next \<noteq> []" "aligned_cut u merged next ov_start ov_end = None"
    | (cut) a b where "merged \<noteq> []" "next \<noteq> []" "aligned_cut u merged next ov_start ov_end = Some (a, b)" by fastforce
  then show ?thesis
  proof cases
    case empty_old
    then have w: "ws = next" "r = 0" using assms(3) by (auto simp: stitch_chunk_words_retained_def Let_def)
    have ?suffix by (rule exI[of _ 0], rule exI[of _ "next"]) (simp add: w empty_old)
    then show ?thesis using w assms(2) by simp
  next
    case empty_new
    then have w: "ws = merged" "r = length merged" using assms(3) by (auto simp: stitch_chunk_words_retained_def Let_def)
    have ?suffix by (rule exI[of _ 0], rule exI[of _ "next"]) (simp add: w empty_new)
    then show ?thesis using w assms(1) by simp
  next
    case fallback
    let ?seam = "(ov_start + ov_end) / 2"
    let ?a = "partition_point (\<lambda>w. w_start w \<le> ?seam) merged" and ?b = "partition_point (\<lambda>w. w_start w \<le> ?seam) next"
    have w: "ws = take ?a merged @ drop ?b next" "r = ?a"
      using assms(3) fallback by (auto simp: stitch_chunk_words_retained_def Let_def)
    have c: "chronological ws" unfolding w(1)
      by (rule chronological_take_drop[OF assms(1,2) partition_point_le partition_point_le fallback_ordered])
    have ?suffix by (rule exI[of _ ?b], rule exI[of _ "next"]) (simp add: w fallback partition_point_le)
    moreover have "r \<le> length merged" unfolding w(2) by (rule partition_point_le)
    ultimately show ?thesis using c by blast
  next
    case cut
    note sound = aligned_cut_sound[OF cut(3)]
    let ?n = "if b = 0 then reconcile_seam_case u merged a next ov_start ov_end else next"
    have w: "ws = take a merged @ drop b ?n" "r = a"
      using assms(3) cut by (auto simp: stitch_chunk_words_retained_def Let_def)
    obtain p q where pq: "p < length merged" "q < length next" "word_key u (word (merged ! p)) = word_key u (word (next ! q))"
      "\<bar>w_start (merged ! p) - w_start (next ! q)\<bar> \<le> 4 / 10" "(a = p \<and> b = q) \<or> (a = p + 1 \<and> b = q + 1)"
      using sound unfolding sound_cut_def MAX_START_DRIFT_def by auto
    have le: "a \<le> length merged" "b \<le> length next" using pq by auto
    have n: "?n = next \<or> ?n = (hd next)\<lparr>word := lower_first u (word (hd next))\<rparr> # tl next"
      using reconcile_cases[of u merged a "next" ov_start ov_end] by auto
    have starts: "map w_start ?n = map w_start next" using n cut(2) by (cases "next") auto
    have "chronological (take a merged @ drop b next)"
      using chronological_take_drop[OF assms(1,2) le] sound by (simp add: sound_cut_def)
    then have c: "chronological ws" unfolding w(1) chronological_def map_append drop_map[symmetric] starts .
    have ?suffix by (rule exI[of _ b], rule exI[of _ ?n]) (use w n pq le cut(2) in blast)
    then show ?thesis using c w(2) le(1) by blast
  qed
qed

text \<open>Two windows that share a repeated word: both copies survive, once each.\<close>

definition plain_unicode :: unicode where
  "plain_unicode = \<lparr>u_lower = (\<lambda>c. [c]), u_alnum = (\<lambda>c. True), u_alpha = (\<lambda>c. True), u_upper = (\<lambda>c. False)\<rparr>"

definition da :: "rat \<Rightarrow> word_info" where
  "da t = word_new [1076, 1072] t (t + 1 / 10) 1 None"

theorem stitch_keeps_order_witness:
  "stitch_chunk_words_retained plain_unicode [da 1, da 2] [da (21 / 10), da 3] 2 3 = ([da 1, da 2, da 3], 2)
    \<and> chronological [da 1, da 2, da 3]"
proof (rule conjI)
  show s: "stitch_chunk_words_retained plain_unicode [da 1, da 2] [da (21 / 10), da 3] 2 3 = ([da 1, da 2, da 3], 2)"
    by (simp add: stitch_chunk_words_retained_def aligned_cut_def partition_point_def subslice_def MAX_OVERLAP_WORDS_def
        score_table_def next_row_def pair_drift_def MAX_START_DRIFT_def word_key_def plain_unicode_def da_def word_new_def cell_def better_than_def
        with_match_def score_default_def trace_back.simps try_cut_def ordered_at_def closer_def Let_def upt_rec numeral_eq_Suc)
  have "chronological [da 1, da 2]" "chronological [da (21 / 10), da 3]" by (simp_all add: chronological_def da_def word_new_def)
  from stitch_keeps_order[OF this s] show "chronological [da 1, da 2, da 3]" by blast
qed

end
