(* ===== verification/Window_Words.thy ===== *)
theory Window_Words
  imports Stitch File_Windows
begin

text \<open>
  The long-form decode of \<open>inference/engine/words.rs\<close>: windows of a PCM source are decoded one by
  one, or in waves on several session triplets, and stitched; every step publishes the
  hypothesis. The recognizer (\<open>run_inference\<close> on the features of a window) is the function
  \<open>infer\<close> of the frame offset, the samples and the answers to its abort polls, and tells how
  often it polled. The workers of a wave share nothing but the abort flag; they are run here one
  after the other, and a panic of a worker is not modelled.
\<close>

section \<open>Controls and their effects\<close>

record word_update =
  u_retained :: nat
  u_words :: "word_info list"
  u_channel :: "nat option"

record decode_controls =
  abort_flag :: "(nat \<Rightarrow> bool) option"     \<comment> \<open>the answer to each poll\<close>
  has_progress :: bool
  has_partial :: bool

record effects =
  polls :: nat
  reported :: "nat list"
  published :: "word_update list"

definition aborted :: "decode_controls \<Rightarrow> effects \<Rightarrow> bool \<times> effects" where
  "aborted ctl e =
     (case abort_flag ctl of None \<Rightarrow> (False, e) | Some f \<Rightarrow> (f (polls e), e\<lparr>polls := polls e + 1\<rparr>))"

definition check_abort :: "decode_controls \<Rightarrow> effects \<Rightarrow> unit result \<times> effects" where
  "check_abort ctl e = (let (b, e') = aborted ctl e in (if b then Inl (Err Cancelled) else Inr (), e'))"

definition report :: "decode_controls \<Rightarrow> nat \<Rightarrow> effects \<Rightarrow> effects" where
  "report ctl n e = (if has_progress ctl then e\<lparr>reported := reported e @ [n]\<rparr> else e)"

definition publish_update :: "decode_controls \<Rightarrow> word_update \<Rightarrow> effects \<Rightarrow> effects" where
  "publish_update ctl up e = (if has_partial ctl then e\<lparr>published := published e @ [up]\<rparr> else e)"

definition publish_words :: "decode_controls \<Rightarrow> word_info list \<Rightarrow> effects \<Rightarrow> effects" where
  "publish_words ctl ws e = publish_update ctl \<lparr>u_retained = 0, u_words = ws, u_channel = None\<rparr> e"

section \<open>Publication\<close>

text \<open>
  How a source maps words to the timeline of the recording: word by word, with the time up to
  which the mapping is permanent (\<open>None\<close> is infinity).
\<close>

record 's remapping =
  remap_word :: "'s \<Rightarrow> word_info \<Rightarrow> word_info"
  remap_stable_before :: "'s \<Rightarrow> rat option"

definition no_remapping :: "'s remapping" where
  "no_remapping = \<lparr>remap_word = (\<lambda>_ w. w), remap_stable_before = (\<lambda>_. None)\<rparr>"

definition is_stable :: "rat option \<Rightarrow> word_info \<Rightarrow> bool" where
  "is_stable boundary w = (case boundary of None \<Rightarrow> True | Some b \<Rightarrow> w_start w \<le> b \<and> w_end w \<le> b)"

definition window_publish :: "'s remapping \<Rightarrow> 's \<Rightarrow> decode_controls \<Rightarrow> word_info list \<Rightarrow> nat \<Rightarrow> nat \<Rightarrow> effects
    \<Rightarrow> unit result \<times> nat \<times> effects" where
  "window_publish rm s ctl ws retained mapped_stable e =
     (if has_partial ctl then
        let kept = min retained mapped_stable;
            suffix = drop kept ws;
            stable' = kept + length (takeWhile (is_stable (remap_stable_before rm s)) suffix);
            e1 = publish_update ctl \<lparr>u_retained = kept, u_words = map (remap_word rm s) suffix, u_channel = None\<rparr> e;
            (r, e2) = check_abort ctl e1
        in (r, stable', e2)
      else let (r, e1) = check_abort ctl e in (r, mapped_stable, e1))"

section \<open>One window\<close>

definition overlap_seconds :: "nat \<Rightarrow> nat \<Rightarrow> rat \<times> rat" where
  "overlap_seconds prev_end start = (of_nat start / 16000, of_nat (max prev_end start) / 16000)"

definition extends_previous :: "word_info list \<Rightarrow> word_info list \<Rightarrow> bool" where
  "extends_previous merged ws \<longleftrightarrow> ws \<noteq> [] \<and> (merged = [] \<or> w_end (last merged) < w_end (last ws))"

definition stitch_report :: "unicode \<Rightarrow> decode_controls \<Rightarrow> word_info list \<Rightarrow> nat \<Rightarrow> nat \<Rightarrow> nat \<Rightarrow> word_info list \<Rightarrow> effects
    \<Rightarrow> (word_info list \<times> nat) \<times> effects" where
  "stitch_report u ctl merged prev_end start n ws e =
     (let (stop, e1) = aborted ctl e;
          res = (if stop \<and> \<not> extends_previous merged ws then (merged, length merged)
                 else let (a, b) = overlap_seconds prev_end start in stitch_chunk_words_retained u merged ws a b);
          (stop2, e2) = aborted ctl e1
      in (res, if stop2 then e2 else report ctl (start + n) e2))"

type_synonym recognizer = "nat \<Rightarrow> pcm \<Rightarrow> (nat \<Rightarrow> bool) \<Rightarrow> (string + word_info list) \<times> nat"

definition window_end :: "pcm_window \<Rightarrow> nat" where
  "window_end w = fst w + length (snd w)"

text \<open>One call of \<open>run_inference\<close>: it reads the flag through the answers to its polls.\<close>

definition infer_window :: "recognizer \<Rightarrow> decode_controls \<Rightarrow> pcm_window \<Rightarrow> effects \<Rightarrow> word_info list result \<times> effects" where
  "infer_window infer ctl w e =
     (let answers = (case abort_flag ctl of None \<Rightarrow> (\<lambda>_. False) | Some f \<Rightarrow> (\<lambda>i. f (polls e + i)));
          (r, k) = infer (fst w div FRAME_SAMPLES) (snd w) answers;
          e1 = (if abort_flag ctl = None then e else e\<lparr>polls := polls e + k\<rparr>)
      in case r of Inl msg \<Rightarrow> (Inl (Err (Inference msg)), e1) | Inr ws \<Rightarrow> (Inr ws, e1))"

definition decode_samples_window :: "recognizer \<Rightarrow> decode_controls \<Rightarrow> pcm_window \<Rightarrow> effects
    \<Rightarrow> (word_info list \<times> bool) result \<times> effects" where
  "decode_samples_window infer ctl w e =
     (case infer_window infer ctl w e of
        (Inl er, e1) \<Rightarrow> (Inl er, e1)
      | (Inr ws, e1) \<Rightarrow> let (stop, e2) = aborted ctl e1 in (Inr (ws, \<not> stop), e2))"

definition finish_window :: "unicode \<Rightarrow> recognizer \<Rightarrow> decode_controls \<Rightarrow> word_info list \<Rightarrow> nat \<Rightarrow> pcm_window \<Rightarrow> effects
    \<Rightarrow> (word_info list \<times> nat) result \<times> effects" where
  "finish_window u infer ctl merged prev_end w e =
     (case aborted ctl e of (stop, e1) \<Rightarrow>
        if stop then (Inl (Err Cancelled), e1)
        else
          (case decode_samples_window infer ctl w e1 of
             (Inl er, e2) \<Rightarrow> (Inl er, e2)
           | (Inr (ws, _), e2) \<Rightarrow>
               (case stitch_report u ctl merged prev_end (fst w) (length (snd w)) ws e2 of (res, e3) \<Rightarrow> (Inr res, e3))))"

section \<open>The serial loop\<close>

record window_transcript =
  end_sample :: nat
  t_words :: "word_info list"
  mapped_stable :: nat

definition transcript_start :: window_transcript where
  "transcript_start = \<lparr>end_sample = 0, t_words = [], mapped_stable = 0\<rparr>"

text \<open>The body of the loop: decode one window, stitch it and publish the hypothesis.\<close>

definition window_step :: "unicode \<Rightarrow> recognizer \<Rightarrow> 's remapping \<Rightarrow> decode_controls \<Rightarrow> 's \<Rightarrow> pcm_window
    \<Rightarrow> window_transcript \<Rightarrow> effects \<Rightarrow> window_transcript result \<times> effects" where
  "window_step u infer rm ctl s w tr e =
     (case finish_window u infer ctl (t_words tr) (end_sample tr) w e of
        (Inl er, e1) \<Rightarrow> (Inl er, e1)
      | (Inr (ws, retained), e1) \<Rightarrow>
          (case window_publish rm s ctl ws retained (mapped_stable tr) e1 of
             (Inl er, _, e2) \<Rightarrow> (Inl er, e2)
           | (Inr _, st, e2) \<Rightarrow> (Inr \<lparr>end_sample = window_end w, t_words = ws, mapped_stable = st\<rparr>, e2)))"

partial_function (option) decode_windows_serial ::
  "('s \<Rightarrow> pcm_window option result \<times> 's) \<Rightarrow> unicode \<Rightarrow> recognizer \<Rightarrow> 's remapping \<Rightarrow> decode_controls \<Rightarrow> 's
   \<Rightarrow> window_transcript \<Rightarrow> effects \<Rightarrow> (word_info list result \<times> 's \<times> effects) option" where
  "decode_windows_serial nxt u infer rm ctl s tr e =
     (case check_abort ctl e of
        (Inl er, e1) \<Rightarrow> Some (Inl er, s, e1)
      | (Inr _, e1) \<Rightarrow>
          (case nxt s of
             (Inl er, s1) \<Rightarrow> Some (Inl er, s1, e1)
           | (Inr None, s1) \<Rightarrow>
               (case check_abort ctl e1 of
                  (Inl er, e2) \<Rightarrow> Some (Inl er, s1, e2)
                | (Inr _, e2) \<Rightarrow> Some (Inr (t_words tr), s1, e2))
           | (Inr (Some w), s1) \<Rightarrow>
               (case window_step u infer rm ctl s1 w tr e1 of
                  (Inl er, e2) \<Rightarrow> Some (Inl er, s1, e2)
                | (Inr tr', e2) \<Rightarrow> decode_windows_serial nxt u infer rm ctl s1 tr' e2)))"

section \<open>Waves\<close>

text \<open>Every worker of a wave runs to its end; the first error in the order of the windows wins.\<close>

fun decode_wave :: "recognizer \<Rightarrow> decode_controls \<Rightarrow> pcm_window list \<Rightarrow> effects
    \<Rightarrow> (word_info list \<times> bool) list result \<times> effects" where
  "decode_wave infer ctl [] e = (Inr [], e)"
| "decode_wave infer ctl (w # ws) e =
     (case decode_samples_window infer ctl w e of (r, e1) \<Rightarrow>
      case decode_wave infer ctl ws e1 of (rs, e2) \<Rightarrow>
        ((case r of Inl er \<Rightarrow> Inl er | Inr d \<Rightarrow> (case rs of Inl er \<Rightarrow> Inl er | Inr ds \<Rightarrow> Inr (d # ds))), e2))"

definition decode_wave_parallel :: "recognizer \<Rightarrow> decode_controls \<Rightarrow> pcm_window list \<Rightarrow> nat \<Rightarrow> effects
    \<Rightarrow> (word_info list \<times> bool) list result \<times> effects" where
  "decode_wave_parallel infer ctl wave extras e =
     (if 1 + extras < length wave then (Inl (Err (Inference ''window-parallel decode ran out of session triplets'')), e)
      else decode_wave infer ctl wave e)"

fun stitch_wave :: "unicode \<Rightarrow> decode_controls \<Rightarrow> (pcm_window \<times> word_info list \<times> bool) list
    \<Rightarrow> word_info list \<times> nat \<times> nat \<Rightarrow> effects \<Rightarrow> (word_info list \<times> nat \<times> nat) \<times> effects" where
  "stitch_wave u ctl [] acc e = (acc, e)"
| "stitch_wave u ctl ((w, ws, completed) # rest) (merged, prev_end, retained) e =
     (case stitch_report u ctl merged prev_end (fst w) (length (snd w)) ws e of ((merged', unchanged), e1) \<Rightarrow>
        let acc = (merged', window_end w, min retained unchanged) in
        if completed then stitch_wave u ctl rest acc e1 else (acc, e1))"

text \<open>Fill the wave up to \<open>n_slots\<close> windows; the last component is the rest of the wanted windows.\<close>

fun fill_wave :: "('s \<Rightarrow> pcm_window option result \<times> 's) \<Rightarrow> decode_controls \<Rightarrow> nat \<Rightarrow> pcm_window list \<Rightarrow> 's \<Rightarrow> effects
    \<Rightarrow> pcm_window list result \<times> 's \<times> effects" where
  "fill_wave nxt ctl 0 pending s e = (Inr pending, s, e)"
| "fill_wave nxt ctl (Suc k) pending s e =
     (case check_abort ctl e of
        (Inl er, e1) \<Rightarrow> (Inl er, s, e1)
      | (Inr _, e1) \<Rightarrow>
          (case nxt s of
             (Inl er, s1) \<Rightarrow> (Inl er, s1, e1)
           | (Inr None, s1) \<Rightarrow> (Inr pending, s1, e1)
           | (Inr (Some w), s1) \<Rightarrow> fill_wave nxt ctl k (pending @ [w]) s1 e1))"

partial_function (option) wave_loop ::
  "('s \<Rightarrow> pcm_window option result \<times> 's) \<Rightarrow> unicode \<Rightarrow> recognizer \<Rightarrow> 's remapping \<Rightarrow> decode_controls \<Rightarrow> nat
   \<Rightarrow> nat \<Rightarrow> pcm_window list \<Rightarrow> 's \<Rightarrow> window_transcript \<Rightarrow> effects \<Rightarrow> (word_info list result \<times> 's \<times> effects) option" where
  "wave_loop nxt u infer rm ctl n_slots extras pending s tr e =
     (case check_abort ctl e of
        (Inl er, e1) \<Rightarrow> Some (Inl er, s, e1)
      | (Inr _, e1) \<Rightarrow>
          (case fill_wave nxt ctl (n_slots - length pending) pending s e1 of
             (Inl er, s1, e2) \<Rightarrow> Some (Inl er, s1, e2)
           | (Inr wave, s1, e2) \<Rightarrow>
               if wave = [] then Some (Inr (t_words tr), s1, e2)
               else
                 let extras' = min extras (length wave - 1) in
                 (case check_abort ctl e2 of
                    (Inl er, e3) \<Rightarrow> Some (Inl er, s1, e3)
                  | (Inr _, e3) \<Rightarrow>
                      (case decode_wave_parallel infer ctl wave extras' e3 of
                         (Inl er, e4) \<Rightarrow> Some (Inl er, s1, e4)
                       | (Inr ds, e4) \<Rightarrow>
                           (case stitch_wave u ctl (zip wave ds) (t_words tr, end_sample tr, length (t_words tr)) e4 of
                              ((ws, prev_end, retained), e5) \<Rightarrow>
                                (case window_publish rm s1 ctl ws retained (mapped_stable tr) e5 of
                                   (Inl er, _, e6) \<Rightarrow> Some (Inl er, s1, e6)
                                 | (Inr _, st, e6) \<Rightarrow>
                                     wave_loop nxt u infer rm ctl n_slots extras' [] s1
                                       \<lparr>end_sample = prev_end, t_words = ws, mapped_stable = st\<rparr> e6))))))"

text \<open>
  \<open>try_checkout_n\<close> answers with the number of extra triplets it got without waiting, or \<open>None\<close>
  when the pool is closed. It is asked for \<open>cap - 1\<close> of them once the second window is there.
\<close>

definition decode_windows_maybe_parallel ::
  "('s \<Rightarrow> pcm_window option result \<times> 's) \<Rightarrow> unicode \<Rightarrow> recognizer \<Rightarrow> 's remapping \<Rightarrow> decode_controls \<Rightarrow> nat option
   \<Rightarrow> 's \<Rightarrow> effects \<Rightarrow> (word_info list result \<times> 's \<times> effects) option" where
  "decode_windows_maybe_parallel nxt u infer rm ctl checkout s e =
     (case nxt s of
        (Inl er, s1) \<Rightarrow> Some (Inl er, s1, e)
      | (Inr None, s1) \<Rightarrow> Some (Inr [], s1, e)
      | (Inr (Some first), s1) \<Rightarrow>
          (case check_abort ctl e of
             (Inl er, e1) \<Rightarrow> Some (Inl er, s1, e1)
           | (Inr _, e1) \<Rightarrow>
               (case nxt s1 of
                  (Inl er, s2) \<Rightarrow> Some (Inl er, s2, e1)
                | (Inr None, s2) \<Rightarrow>
                    (case window_step u infer rm ctl s2 first transcript_start e1 of
                       (Inl er, e2) \<Rightarrow> Some (Inl er, s2, e2)
                     | (Inr tr, e2) \<Rightarrow> Some (Inr (t_words tr), s2, e2))
                | (Inr (Some second), s2) \<Rightarrow>
                    (case checkout of
                       None \<Rightarrow> Some (Inl (Err Cancelled), s2, e1)
                     | Some 0 \<Rightarrow>
                         (case window_step u infer rm ctl s2 first transcript_start e1 of
                            (Inl er, e2) \<Rightarrow> Some (Inl er, s2, e2)
                          | (Inr tr, e2) \<Rightarrow>
                              (case window_step u infer rm ctl s2 second tr e2 of
                                 (Inl er, e3) \<Rightarrow> Some (Inl er, s2, e3)
                               | (Inr tr', e3) \<Rightarrow> decode_windows_serial nxt u infer rm ctl s2 tr' e3))
                     | Some extras \<Rightarrow> wave_loop nxt u infer rm ctl (1 + extras) extras [first, second] s2 transcript_start e1))))"

definition decode_words_streaming ::
  "('s \<Rightarrow> pcm_window option result \<times> 's) \<Rightarrow> unicode \<Rightarrow> recognizer \<Rightarrow> 's remapping \<Rightarrow> decode_controls \<Rightarrow> nat \<Rightarrow> nat option
   \<Rightarrow> 's \<Rightarrow> effects \<Rightarrow> (word_info list result \<times> 's \<times> effects) option" where
  "decode_words_streaming nxt u infer rm ctl cap checkout s e =
     (case check_abort ctl e of
        (Inl er, e1) \<Rightarrow> Some (Inl er, s, e1)
      | (Inr _, e1) \<Rightarrow>
          if cap \<le> 1 then decode_windows_serial nxt u infer rm ctl s transcript_start e1
          else decode_windows_maybe_parallel nxt u infer rm ctl (map_option (min (cap - 1)) checkout) s e1)"

section \<open>A quiet abort flag\<close>

definition quiet_controls :: "decode_controls \<Rightarrow> bool" where
  "quiet_controls ctl \<longleftrightarrow> (\<forall>f n. abort_flag ctl = Some f \<longrightarrow> \<not> f n)"

text \<open>The effects that a caller sees: everything but the number of polls.\<close>

definition seen :: "effects \<Rightarrow> nat list \<times> word_update list" where
  "seen e = (reported e, published e)"

lemma aborted_quiet: "quiet_controls ctl \<Longrightarrow> \<exists>e'. aborted ctl e = (False, e') \<and> seen e' = seen e"
  by (auto simp: quiet_controls_def aborted_def seen_def split: option.split)

lemma check_abort_quiet: "quiet_controls ctl \<Longrightarrow> \<exists>e'. check_abort ctl e = (Inr (), e') \<and> seen e' = seen e"
  using aborted_quiet[of ctl e] by (auto simp: check_abort_def)

text \<open>What the recognizer says about a window when it is not interrupted.\<close>

definition recognized :: "recognizer \<Rightarrow> pcm_window \<Rightarrow> word_info list result" where
  "recognized infer w = (case fst (infer (fst w div FRAME_SAMPLES) (snd w) (\<lambda>_. False)) of
     Inl msg \<Rightarrow> Inl (Err (Inference msg)) | Inr ws \<Rightarrow> Inr ws)"

lemma infer_window_quiet:
  assumes "quiet_controls ctl"
  shows "\<exists>e'. infer_window infer ctl w e = (recognized infer w, e') \<and> seen e' = seen e"
proof -
  obtain r k where i: "infer (fst w div FRAME_SAMPLES) (snd w) (\<lambda>_. False) = (r, k)" by fastforce
  have a: "(case abort_flag ctl of None \<Rightarrow> (\<lambda>_. False) | Some f \<Rightarrow> (\<lambda>i. f (polls e + i))) = (\<lambda>_. False)"
    using assms by (auto simp: quiet_controls_def split: option.split)
  define e1 where "e1 = (if abort_flag ctl = None then e else e\<lparr>polls := polls e + k\<rparr>)"
  have s: "seen e1 = seen e" by (simp add: e1_def seen_def)
  show ?thesis
    using s unfolding infer_window_def recognized_def a i e1_def[symmetric] Let_def prod.case fst_conv
    by (cases r) simp_all
qed

lemma decode_samples_window_quiet:
  assumes "quiet_controls ctl"
  shows "\<exists>e'. decode_samples_window infer ctl w e =
      (case recognized infer w of Inl er \<Rightarrow> Inl er | Inr ws \<Rightarrow> Inr (ws, True), e') \<and> seen e' = seen e"
proof -
  obtain e1 where e1: "infer_window infer ctl w e = (recognized infer w, e1)" "seen e1 = seen e"
    using infer_window_quiet[OF assms] by blast
  obtain e2 where e2: "aborted ctl e1 = (False, e2)" "seen e2 = seen e1" using aborted_quiet[OF assms] by blast
  show ?thesis using e1 e2 by (cases "recognized infer w") (simp_all add: decode_samples_window_def)
qed

definition stitched :: "unicode \<Rightarrow> word_info list \<Rightarrow> nat \<Rightarrow> pcm_window \<Rightarrow> word_info list \<Rightarrow> word_info list \<times> nat" where
  "stitched u merged prev_end w ws =
     (let (a, b) = overlap_seconds prev_end (fst w) in stitch_chunk_words_retained u merged ws a b)"

lemma stitch_report_quiet:
  assumes "quiet_controls ctl"
  shows "\<exists>e'. stitch_report u ctl merged prev_end (fst w) (length (snd w)) ws e = (stitched u merged prev_end w ws, e')
    \<and> seen e' = (reported e @ (if has_progress ctl then [window_end w] else []), published e)"
proof -
  obtain e1 where e1: "aborted ctl e = (False, e1)" "seen e1 = seen e" using aborted_quiet[OF assms] by blast
  obtain e2 where e2: "aborted ctl e1 = (False, e2)" "seen e2 = seen e1" using aborted_quiet[OF assms] by blast
  show ?thesis using e1 e2 by (simp add: stitch_report_def stitched_def report_def seen_def window_end_def Let_def)
qed

lemma window_publish_quiet:
  assumes "quiet_controls ctl"
  shows "\<exists>st e'. window_publish rm s ctl ws retained ms e = (Inr (), st, e') \<and> reported e' = reported e"
proof -
  obtain e1 where e1: "check_abort ctl e = (Inr (), e1)" "seen e1 = seen e" using check_abort_quiet[OF assms] by blast
  let ?up = "\<lparr>u_retained = min retained ms, u_words = map (remap_word rm s) (drop (min retained ms) ws), u_channel = None\<rparr>"
  obtain e2 where e2: "check_abort ctl (publish_update ctl ?up e) = (Inr (), e2)" "seen e2 = seen (publish_update ctl ?up e)"
    using check_abort_quiet[OF assms] by blast
  show ?thesis using e1 e2 by (simp add: window_publish_def Let_def seen_def publish_update_def split: if_splits)
qed

section \<open>The reference\<close>

fun decoded_words :: "unicode \<Rightarrow> recognizer \<Rightarrow> pcm_window list \<Rightarrow> word_info list \<Rightarrow> nat \<Rightarrow> word_info list result" where
  "decoded_words u infer [] merged prev_end = Inr merged"
| "decoded_words u infer (w # ws) merged prev_end =
     (case recognized infer w of
        Inl er \<Rightarrow> Inl er
      | Inr xs \<Rightarrow> decoded_words u infer ws (fst (stitched u merged prev_end w xs)) (window_end w))"

lemma decoded_words_append:
  "decoded_words u infer (ws @ vs) merged prev_end =
     (case decoded_words u infer ws merged prev_end of
        Inl er \<Rightarrow> Inl er
      | Inr m \<Rightarrow> decoded_words u infer vs m (if ws = [] then prev_end else window_end (last ws)))"
  by (induction ws arbitrary: merged prev_end) (auto split: sum.split)

lemma window_step_quiet:
  assumes "quiet_controls ctl"
  shows "case recognized infer w of
      Inl er \<Rightarrow> \<exists>e'. window_step u infer rm ctl s w tr e = (Inl er, e')
    | Inr xs \<Rightarrow> \<exists>tr' e'. window_step u infer rm ctl s w tr e = (Inr tr', e')
        \<and> t_words tr' = fst (stitched u (t_words tr) (end_sample tr) w xs) \<and> end_sample tr' = window_end w
        \<and> reported e' = reported e @ (if has_progress ctl then [window_end w] else [])"
proof -
  obtain e1 where e1: "aborted ctl e = (False, e1)" "seen e1 = seen e" using aborted_quiet[OF assms] by blast
  obtain e2 where e2: "decode_samples_window infer ctl w e1 = (case recognized infer w of Inl er \<Rightarrow> Inl er | Inr ws \<Rightarrow> Inr (ws, True), e2)"
    "seen e2 = seen e1" using decode_samples_window_quiet[OF assms] by blast
  show ?thesis
  proof (cases "recognized infer w")
    case (Inl er)
    then show ?thesis using e1 e2 by (simp add: window_step_def finish_window_def)
  next
    case (Inr xs)
    let ?st = "stitched u (t_words tr) (end_sample tr) w xs"
    obtain e3 where e3: "stitch_report u ctl (t_words tr) (end_sample tr) (fst w) (length (snd w)) xs e2 = (?st, e3)"
      "seen e3 = (reported e2 @ (if has_progress ctl then [window_end w] else []), published e2)"
      using stitch_report_quiet[OF assms] by blast
    obtain st e4 where e4: "window_publish rm s ctl (fst ?st) (snd ?st) (mapped_stable tr) e3 = (Inr (), st, e4)" "reported e4 = reported e3"
      using window_publish_quiet[OF assms, of rm s "fst ?st" "snd ?st" "mapped_stable tr" e3] by blast
    have f: "finish_window u infer ctl (t_words tr) (end_sample tr) w e = (Inr ?st, e3)"
      using Inr e1(1) e2(1) e3(1) by (simp add: finish_window_def)
    have "window_step u infer rm ctl s w tr e = (Inr \<lparr>end_sample = window_end w, t_words = fst ?st, mapped_stable = st\<rparr>, e4)"
      unfolding window_step_def f by (cases ?st) (use e4(1) in simp)
    then show ?thesis using Inr e1 e2 e3 e4 by (simp add: seen_def)
  qed
qed

text \<open>A source that has just answered that it has no further window.\<close>

definition drained_by ::
  "('s \<Rightarrow> pcm_window option result \<times> 's) \<Rightarrow> ('s \<Rightarrow> pcm_window list \<Rightarrow> bool) \<Rightarrow> 's \<Rightarrow> bool" where
  "drained_by next_win remaining s' \<longleftrightarrow> (\<exists>s. remaining s [] \<and> next_win s = (Inr None, s'))"

context pcm_windows begin

lemma drained_next: "remaining s [] \<Longrightarrow> \<exists>s'. next_win s = (Inr None, s') \<and> remaining s' [] \<and> drained_by next_win remaining s'"
  using next_Nil by (fastforce simp: drained_by_def)

lemma serial_decodes:
  assumes "quiet_controls ctl" "remaining s ws"
  shows "\<exists>s' e'. decode_windows_serial next_win u infer rm ctl s tr e
      = Some (decoded_words u infer ws (t_words tr) (end_sample tr), s', e')
    \<and> (\<forall>r. decoded_words u infer ws (t_words tr) (end_sample tr) = Inr r \<longrightarrow>
        reported e' = reported e @ (if has_progress ctl then map window_end ws else []) \<and> drained_by next_win remaining s')"
  using assms(2)
proof (induction ws arbitrary: s tr e)
  case Nil
  obtain s1 where s1: "next_win s = (Inr None, s1)" "drained_by next_win remaining s1" using drained_next[OF Nil] by blast
  obtain e1 where e1: "check_abort ctl e = (Inr (), e1)" "seen e1 = seen e" using check_abort_quiet[OF assms(1)] by blast
  obtain e2 where e2: "check_abort ctl e1 = (Inr (), e2)" "seen e2 = seen e1" using check_abort_quiet[OF assms(1)] by blast
  show ?case using s1 e1 e2 by (subst decode_windows_serial.simps) (simp add: seen_def)
next
  case (Cons w ws)
  obtain s1 where s1: "next_win s = (Inr (Some w), s1)" "remaining s1 ws" using next_Cons[OF Cons.prems] by blast
  obtain e1 where e1: "check_abort ctl e = (Inr (), e1)" "seen e1 = seen e" using check_abort_quiet[OF assms(1)] by blast
  note st = window_step_quiet[OF assms(1), where infer = infer and w = w and u = u and rm = rm and s = s1 and tr = tr and e = e1]
  show ?case
  proof (cases "recognized infer w")
    case (Inl er)
    then obtain e2 where "window_step u infer rm ctl s1 w tr e1 = (Inl er, e2)" using st by auto
    then show ?thesis using Inl s1 e1 by (subst decode_windows_serial.simps) simp
  next
    case (Inr xs)
    then obtain tr' e2 where e2: "window_step u infer rm ctl s1 w tr e1 = (Inr tr', e2)"
      "t_words tr' = fst (stitched u (t_words tr) (end_sample tr) w xs)" "end_sample tr' = window_end w"
      "reported e2 = reported e1 @ (if has_progress ctl then [window_end w] else [])" using st by auto
    from Cons.IH[OF s1(2), of tr' e2] obtain s' e' where i:
      "decode_windows_serial next_win u infer rm ctl s1 tr' e2 = Some (decoded_words u infer ws (t_words tr') (end_sample tr'), s', e')"
      "\<forall>r. decoded_words u infer ws (t_words tr') (end_sample tr') = Inr r \<longrightarrow>
        reported e' = reported e2 @ (if has_progress ctl then map window_end ws else []) \<and> drained_by next_win remaining s'" by blast
    have "decode_windows_serial next_win u infer rm ctl s tr e = decode_windows_serial next_win u infer rm ctl s1 tr' e2"
      by (subst decode_windows_serial.simps) (simp add: s1 e1 e2(1))
    moreover have "decoded_words u infer (w # ws) (t_words tr) (end_sample tr) = decoded_words u infer ws (t_words tr') (end_sample tr')"
      using Inr e2(2,3) by simp
    ultimately show ?thesis using i e1(2) e2(4) by (simp add: seen_def)
  qed
qed

lemma fill_wave_takes:
  assumes "quiet_controls ctl" "remaining s ws"
  shows "\<exists>s' e'. fill_wave next_win ctl k pending s e = (Inr (pending @ take k ws), s', e')
    \<and> remaining s' (drop k ws) \<and> seen e' = seen e"
  using assms(2)
proof (induction k arbitrary: pending s ws e)
  case (Suc k)
  obtain e1 where e1: "check_abort ctl e = (Inr (), e1)" "seen e1 = seen e" using check_abort_quiet[OF assms(1)] by blast
  show ?case
  proof (cases ws)
    case Nil
    then show ?thesis using next_Nil[of s] Suc.prems e1 by auto
  next
    case (Cons w vs)
    then obtain s1 where s1: "next_win s = (Inr (Some w), s1)" "remaining s1 vs" using next_Cons Suc.prems by blast
    then show ?thesis using Suc.IH[OF s1(2), of "pending @ [w]" e1] e1 Cons by simp
  qed
qed simp

lemma fill_wave_drains:
  assumes "quiet_controls ctl" "remaining s []" "0 < k" "fill_wave next_win ctl k pending s e = (r, s', e')"
  shows "drained_by next_win remaining s'"
proof -
  obtain j where k: "k = Suc j" using assms(3) by (cases k) auto
  obtain e1 where "check_abort ctl e = (Inr (), e1)" using check_abort_quiet[OF assms(1)] by blast
  then show ?thesis using drained_next[OF assms(2)] assms(4) by (auto simp: k)
qed

end

lemma decode_wave_quiet:
  assumes "quiet_controls ctl"
  shows "\<exists>e'. seen e' = seen e \<and> decode_wave infer ctl ws e =
    ((if \<exists>w \<in> set ws. \<exists>er. recognized infer w = Inl er
      then Inl (projl (recognized infer (hd (dropWhile (\<lambda>w. \<not> isl (recognized infer w)) ws))))
      else Inr (map (\<lambda>w. (projr (recognized infer w), True)) ws)), e')"
proof (induction ws arbitrary: e)
  case (Cons w ws)
  obtain e1 where e1: "decode_samples_window infer ctl w e = (case recognized infer w of Inl er \<Rightarrow> Inl er | Inr ws \<Rightarrow> Inr (ws, True), e1)"
    "seen e1 = seen e" using decode_samples_window_quiet[OF assms] by blast
  from Cons[of e1] obtain e2 where e2: "seen e2 = seen e1" "decode_wave infer ctl ws e1 =
    ((if \<exists>w \<in> set ws. \<exists>er. recognized infer w = Inl er
      then Inl (projl (recognized infer (hd (dropWhile (\<lambda>w. \<not> isl (recognized infer w)) ws))))
      else Inr (map (\<lambda>w. (projr (recognized infer w), True)) ws)), e2)" by blast
  show ?case using e1 e2 by (cases "recognized infer w") auto
qed simp

lemma stitch_wave_quiet:
  assumes "quiet_controls ctl" "\<forall>w \<in> set ws. \<not> isl (recognized infer w)"
  shows "\<exists>m r e'. stitch_wave u ctl (zip ws (map (\<lambda>w. (projr (recognized infer w), True)) ws)) (merged, prev_end, retained) e
      = ((m, if ws = [] then prev_end else window_end (last ws), r), e')
    \<and> decoded_words u infer ws merged prev_end = Inr m
    \<and> reported e' = reported e @ (if has_progress ctl then map window_end ws else [])"
  using assms(2)
proof (induction ws arbitrary: merged prev_end retained e)
  case (Cons w ws)
  obtain xs where xs: "recognized infer w = Inr xs" using Cons.prems by (cases "recognized infer w") auto
  obtain m r where m: "stitched u merged prev_end w xs = (m, r)" by fastforce
  obtain e1 where e1: "stitch_report u ctl merged prev_end (fst w) (length (snd w)) xs e = ((m, r), e1)"
    "seen e1 = (reported e @ (if has_progress ctl then [window_end w] else []), published e)"
    using stitch_report_quiet[OF assms(1)] m by metis
  have "\<forall>w \<in> set ws. \<not> isl (recognized infer w)" using Cons.prems by simp
  from Cons.IH[OF this, of m "window_end w" "min retained r" e1] obtain m' r' e' where i:
    "stitch_wave u ctl (zip ws (map (\<lambda>w. (projr (recognized infer w), True)) ws)) (m, window_end w, min retained r) e1
      = ((m', if ws = [] then window_end w else window_end (last ws), r'), e')"
    "decoded_words u infer ws m (window_end w) = Inr m'"
    "reported e' = reported e1 @ (if has_progress ctl then map window_end ws else [])" by blast
  show ?case using xs e1 i m by (simp add: seen_def)
qed simp

lemma decoded_words_error:
  assumes "\<exists>w \<in> set ws. isl (recognized infer w)"
  shows "decoded_words u infer ws merged prev_end = Inl (projl (recognized infer (hd (dropWhile (\<lambda>w. \<not> isl (recognized infer w)) ws))))"
  using assms
proof (induction ws arbitrary: merged prev_end)
  case (Cons w ws)
  then show ?case by (cases "recognized infer w") auto
qed simp

text \<open>One wave, without an interruption, is the serial decode of its windows.\<close>

lemma wave_decodes:
  assumes q: "quiet_controls ctl" and le: "length ws \<le> 1 + extras" and ne: "ws \<noteq> []"
  shows "(\<exists>er e'. decode_wave_parallel infer ctl ws extras e = (Inl er, e') \<and> decoded_words u infer ws merged prev_end = Inl er)
    \<or> (\<exists>ds e1 m r e2. decode_wave_parallel infer ctl ws extras e = (Inr ds, e1) \<and> decoded_words u infer ws merged prev_end = Inr m
        \<and> stitch_wave u ctl (zip ws ds) (merged, prev_end, retained) e1 = ((m, window_end (last ws), r), e2)
        \<and> reported e2 = reported e @ (if has_progress ctl then map window_end ws else []))"
proof (cases "\<exists>w \<in> set ws. isl (recognized infer w)")
  case True
  then have t: "\<exists>w \<in> set ws. \<exists>er. recognized infer w = Inl er" by (auto simp: isl_def)
  then show ?thesis using decode_wave_quiet[OF q, of e infer ws] le decoded_words_error[OF True]
    by (auto simp: decode_wave_parallel_def)
next
  case False
  then have f: "\<not> (\<exists>w \<in> set ws. \<exists>er. recognized infer w = Inl er)" by auto
  obtain e1 where e1: "seen e1 = seen e" "decode_wave infer ctl ws e = (Inr (map (\<lambda>w. (projr (recognized infer w), True)) ws), e1)"
    using decode_wave_quiet[OF q, of e infer ws] f by auto
  have "\<forall>w \<in> set ws. \<not> isl (recognized infer w)" using False by blast
  from stitch_wave_quiet[OF q this, of u merged prev_end retained e1] show ?thesis
    using e1 le ne by (auto simp: decode_wave_parallel_def seen_def)
qed

context pcm_windows begin

lemma wave_loop_decodes:
  assumes q: "quiet_controls ctl" and slots: "0 < n_slots"
  shows "remaining s ws \<Longrightarrow> length pending \<le> n_slots \<Longrightarrow> extras = n_slots - 1 \<or> (pending = [] \<and> ws = []) \<Longrightarrow>
    \<exists>s' e'. wave_loop next_win u infer rm ctl n_slots extras pending s tr e
        = Some (decoded_words u infer (pending @ ws) (t_words tr) (end_sample tr), s', e')
      \<and> (\<forall>r. decoded_words u infer (pending @ ws) (t_words tr) (end_sample tr) = Inr r \<longrightarrow>
          reported e' = reported e @ (if has_progress ctl then map window_end (pending @ ws) else [])
          \<and> drained_by next_win remaining s')"
proof (induction "length (pending @ ws)" arbitrary: extras pending ws s tr e rule: less_induct)
  case less
  let ?k = "n_slots - length pending"
  let ?wave = "pending @ take ?k ws" and ?rest = "drop ?k ws"
  obtain e1 where e1: "check_abort ctl e = (Inr (), e1)" "seen e1 = seen e" using check_abort_quiet[OF q] by blast
  obtain s1 e2 where f: "fill_wave next_win ctl ?k pending s e1 = (Inr ?wave, s1, e2)" "remaining s1 ?rest" "seen e2 = seen e1"
    using fill_wave_takes[OF q less.prems(1)] by blast
  show ?case
  proof (cases "?wave = []")
    case True
    then have "pending = []" "ws = []" using slots by auto
    moreover have "drained_by next_win remaining s1"
      using fill_wave_drains[OF q, where k = ?k and pending = "[]" and s = s and e = e1] less.prems(1) slots f(1) calculation by simp
    ultimately show ?thesis using e1 f by (subst wave_loop.simps) (simp add: seen_def)
  next
    case False
    let ?ex = "min extras (length ?wave - 1)"
    obtain e3 where e3: "check_abort ctl e2 = (Inr (), e3)" "seen e3 = seen e2" using check_abort_quiet[OF q] by blast
    have ex: "extras = n_slots - 1" using less.prems(3) False by auto
    have lw: "length ?wave \<le> n_slots" using less.prems(2) by simp
    then have le: "length ?wave \<le> 1 + ?ex" using ex False by (cases ?wave) auto
    have all: "pending @ ws = ?wave @ ?rest" by simp
    from wave_decodes[OF q le False, of infer e3 u "t_words tr" "end_sample tr" "length (t_words tr)"] show ?thesis
    proof (elim disjE exE conjE)
      fix er e4
      assume d: "decode_wave_parallel infer ctl ?wave ?ex e3 = (Inl er, e4)"
        "decoded_words u infer ?wave (t_words tr) (end_sample tr) = Inl er"
      have "decoded_words u infer (pending @ ws) (t_words tr) (end_sample tr) = Inl er"
        by (subst all, subst decoded_words_append) (simp only: d(2) sum.case)
      moreover have "wave_loop next_win u infer rm ctl n_slots extras pending s tr e = Some (Inl er, s1, e4)"
        by (subst wave_loop.simps) (simp only: e1(1) f(1) e3(1) d(1) False Let_def prod.case sum.case if_False)
      ultimately show ?thesis by simp
    next
      fix ds e4 m r e5
      assume d: "decode_wave_parallel infer ctl ?wave ?ex e3 = (Inr ds, e4)"
        "decoded_words u infer ?wave (t_words tr) (end_sample tr) = Inr m"
        "stitch_wave u ctl (zip ?wave ds) (t_words tr, end_sample tr, length (t_words tr)) e4 = ((m, window_end (last ?wave), r), e5)"
        "reported e5 = reported e3 @ (if has_progress ctl then map window_end ?wave else [])"
      obtain st e6 where p: "window_publish rm s1 ctl m r (mapped_stable tr) e5 = (Inr (), st, e6)" "reported e6 = reported e5"
        using window_publish_quiet[OF q, of rm s1 m r "mapped_stable tr" e5] by blast
      let ?tr = "\<lparr>end_sample = window_end (last ?wave), t_words = m, mapped_stable = st\<rparr>"
      have loop: "wave_loop next_win u infer rm ctl n_slots extras pending s tr e
          = wave_loop next_win u infer rm ctl n_slots ?ex [] s1 ?tr e6"
        by (subst wave_loop.simps) (simp only: e1(1) f(1) e3(1) d(1) d(3) p(1) False Let_def prod.case sum.case if_False)
      have short: "length ([] @ ?rest) < length (pending @ ws)" using False slots by (cases pending) auto
      have "?ex = n_slots - 1 \<or> ([] = ([] :: pcm_window list) \<and> ?rest = [])"
        using ex lw by (cases "length ws \<le> ?k") auto
      from less.hyps[OF short f(2) _ this, of ?tr e6] obtain s' e' where i:
        "wave_loop next_win u infer rm ctl n_slots ?ex [] s1 ?tr e6 = Some (decoded_words u infer ?rest m (window_end (last ?wave)), s', e')"
        "\<forall>r. decoded_words u infer ?rest m (window_end (last ?wave)) = Inr r \<longrightarrow>
          reported e' = reported e6 @ (if has_progress ctl then map window_end ?rest else [])
          \<and> drained_by next_win remaining s'" by auto
      have dw: "decoded_words u infer (pending @ ws) (t_words tr) (end_sample tr) = decoded_words u infer ?rest m (window_end (last ?wave))"
        by (subst all, subst decoded_words_append) (simp only: d(2) sum.case False if_False)
      have rep: "reported e6 = reported e @ (if has_progress ctl then map window_end ?wave else [])"
        using p(2) d(4) e3(2) f(3) e1(2) by (simp add: seen_def)
      have "map window_end ?wave @ map window_end ?rest = map window_end (pending @ ws)" by (metis all map_append)
      then show ?thesis using i rep unfolding loop dw by auto
    qed
  qed
qed

theorem streaming_decodes:
  assumes q: "quiet_controls ctl" and r: "remaining s ws"
  shows "\<exists>s' e'. decode_words_streaming next_win u infer rm ctl cap (Some extras) s e = Some (decoded_words u infer ws [] 0, s', e')
    \<and> (\<forall>r. decoded_words u infer ws [] 0 = Inr r \<longrightarrow>
        reported e' = reported e @ (if has_progress ctl then map window_end ws else []) \<and> drained_by next_win remaining s')"
proof -
  obtain e1 where e1: "check_abort ctl e = (Inr (), e1)" "seen e1 = seen e" using check_abort_quiet[OF q] by blast
  have rep: "reported e1 = reported e" using e1(2) by (simp add: seen_def)
  show ?thesis
  proof (cases "cap \<le> 1")
    case True
    then show ?thesis using serial_decodes[OF q r, of u infer rm transcript_start e1] e1 rep
      by (simp add: decode_words_streaming_def transcript_start_def)
  next
    case False
    define k where "k = min (cap - 1) extras"
    have run: "decode_words_streaming next_win u infer rm ctl cap (Some extras) s e
        = decode_windows_maybe_parallel next_win u infer rm ctl (Some k) s e1"
      using False e1(1) by (simp add: decode_words_streaming_def k_def)
    obtain e2 where e2: "check_abort ctl e1 = (Inr (), e2)" "seen e2 = seen e1" using check_abort_quiet[OF q] by blast
    have rep2: "reported e2 = reported e" using e2(2) rep by (simp add: seen_def)
    show ?thesis
    proof (cases ws)
      case Nil
      then show ?thesis using drained_next[of s] r unfolding run by (auto simp: decode_windows_maybe_parallel_def rep)
    next
      case (Cons w vs)
      then obtain s1 where s1: "next_win s = (Inr (Some w), s1)" "remaining s1 vs" using next_Cons r by blast
      show ?thesis
      proof (cases vs)
        case Nil
        then obtain s2 where s2: "next_win s1 = (Inr None, s2)" "drained_by next_win remaining s2" using drained_next s1(2) by blast
        have m: "decode_windows_maybe_parallel next_win u infer rm ctl (Some k) s e1 =
            (case window_step u infer rm ctl s2 w transcript_start e2 of
               (Inl er, e2) \<Rightarrow> Some (Inl er, s2, e2) | (Inr tr, e2) \<Rightarrow> Some (Inr (t_words tr), s2, e2))"
          using s1(1) s2(1) e2(1) by (simp add: decode_windows_maybe_parallel_def)
        show ?thesis
          using window_step_quiet[OF q, where infer = infer and w = w and u = u and rm = rm and s = s2 and tr = transcript_start and e = e2]
          unfolding run m Cons Nil by (cases "recognized infer w") (auto simp: transcript_start_def rep2 s2(2))
      next
        case (Cons v us)
        then obtain s2 where s2: "next_win s1 = (Inr (Some v), s2)" "remaining s2 us" using next_Cons s1(2) by blast
        have ws: "ws = w # v # us" using \<open>ws = w # vs\<close> Cons by simp
        show ?thesis
        proof (cases k)
          case 0
          have m: "decode_windows_maybe_parallel next_win u infer rm ctl (Some k) s e1 =
            (case window_step u infer rm ctl s2 w transcript_start e2 of
               (Inl er, e2) \<Rightarrow> Some (Inl er, s2, e2)
             | (Inr tr, e2) \<Rightarrow>
                 (case window_step u infer rm ctl s2 v tr e2 of
                    (Inl er, e3) \<Rightarrow> Some (Inl er, s2, e3)
                  | (Inr tr', e3) \<Rightarrow> decode_windows_serial next_win u infer rm ctl s2 tr' e3))"
            using s1(1) s2(1) e2(1) 0 by (simp add: decode_windows_maybe_parallel_def)
          note st = window_step_quiet[OF q, where infer = infer and w = w and u = u and rm = rm and s = s2 and tr = transcript_start and e = e2]
          show ?thesis
          proof (cases "recognized infer w")
            case (Inl er)
            then show ?thesis using st unfolding run m ws by auto
          next
            case (Inr xs)
            then obtain tr1 e3 where t1: "window_step u infer rm ctl s2 w transcript_start e2 = (Inr tr1, e3)"
              "t_words tr1 = fst (stitched u [] 0 w xs)" "end_sample tr1 = window_end w"
              "reported e3 = reported e2 @ (if has_progress ctl then [window_end w] else [])"
              using st by (auto simp: transcript_start_def)
            note st2 = window_step_quiet[OF q, where infer = infer and w = v and u = u and rm = rm and s = s2 and tr = tr1 and e = e3]
            show ?thesis
            proof (cases "recognized infer v")
              case (Inl er)
              then show ?thesis using st2 t1 \<open>recognized infer w = Inr xs\<close> unfolding run m ws by auto
            next
              case (Inr ys)
              then obtain tr2 e4 where t2: "window_step u infer rm ctl s2 v tr1 e3 = (Inr tr2, e4)"
                "t_words tr2 = fst (stitched u (t_words tr1) (end_sample tr1) v ys)" "end_sample tr2 = window_end v"
                "reported e4 = reported e3 @ (if has_progress ctl then [window_end v] else [])"
                using st2 by auto
              have d: "decoded_words u infer ws [] 0 = decoded_words u infer us (t_words tr2) (end_sample tr2)"
                using \<open>recognized infer w = Inr xs\<close> Inr t1(2,3) t2(2,3) by (simp add: ws)
              have "decode_windows_maybe_parallel next_win u infer rm ctl (Some k) s e1 = decode_windows_serial next_win u infer rm ctl s2 tr2 e4"
                unfolding m using t1(1) t2(1) by simp
              then show ?thesis using serial_decodes[OF q s2(2), of u infer rm tr2 e4] t1(4) t2(4) rep2
                unfolding run d by (auto simp: ws)
            qed
          qed
        next
          case (Suc j)
          have "decode_windows_maybe_parallel next_win u infer rm ctl (Some k) s e1
              = wave_loop next_win u infer rm ctl (1 + k) k [w, v] s2 transcript_start e2"
            using s1(1) s2(1) e2(1) Suc by (simp add: decode_windows_maybe_parallel_def)
          moreover have "\<exists>s' e'. wave_loop next_win u infer rm ctl (1 + k) k [w, v] s2 transcript_start e2
                = Some (decoded_words u infer ([w, v] @ us) (t_words transcript_start) (end_sample transcript_start), s', e')
              \<and> (\<forall>r. decoded_words u infer ([w, v] @ us) (t_words transcript_start) (end_sample transcript_start) = Inr r \<longrightarrow>
                  reported e' = reported e2 @ (if has_progress ctl then map window_end ([w, v] @ us) else [])
                  \<and> drained_by next_win remaining s')"
            using Suc by (intro wave_loop_decodes[OF q _ s2(2)]) simp_all
          moreover have "decoded_words u infer ([w, v] @ us) (t_words transcript_start) (end_sample transcript_start) = decoded_words u infer ws [] 0"
            "[w, v] @ us = ws" by (simp_all add: ws transcript_start_def)
          ultimately show ?thesis unfolding run rep2 by (simp only:)
        qed
      qed
    qed
  qed
qed

end

text \<open>
  C3: Decoding windows in parallel is decoding them one after the other. Let a WAVE source decode
  flat to \<open>xs\<close> and let no one abort. Then the long-form decode returns, for every limit of
  concurrency and every number of extra session triplets that the pool hands out, and its result
  is that of the reference: the windows of \<open>SliceWindows\<close> over \<open>xs\<close>, recognized in order and
  stitched, or the first error among them. The progress reports are the ends of the windows, in
  order, and the error of a wave with too few triplets does not occur.
\<close>

theorem parallel_decode_equals_serial:
  assumes "wave_source_from rate limit msgs False = Inr w0"
    and "drain_to_vec ops (rolling_new w0 flat_spec) = Inr xs" and "length xs < usize_max"
    and "FRAME_SAMPLES \<le> win" and "quiet_controls ctl"
  shows "\<exists>s' e'. decode_words_streaming (file_next_window ops) u infer rm ctl cap (Some extras)
        (rolling_new w0 (window_spec_new spm win ov)) e
      = Some (decoded_words u infer (windows_of (window_spec_new spm win ov) xs) [] 0, s', e')
    \<and> (\<forall>ws. decoded_words u infer (windows_of (window_spec_new spm win ov) xs) [] 0 = Inr ws \<longrightarrow>
        reported e' = reported e @ (if has_progress ctl then map window_end (windows_of (window_spec_new spm win ov) xs) else []))"
proof -
  note v = window_spec_new_valid[OF assms(4), of spm ov]
  note rem = file_remaining_new[OF v wave_open_drained[OF assms(1-3)] assms(3)]
  have fn: "file_next_window ops = next_window_via (fill_to ops) False"
    by (simp add: fun_eq_iff file_next_window_def)
  show ?thesis unfolding fn
    using wave_file.streaming_decodes[OF assms(5), where skip = False, OF exI, OF rem] by meson
qed

definition one_word :: recognizer where
  "one_word off xs answers = (Inr [word_new [1076, 1072] 0 1 1 None], 0)"

theorem parallel_decode_equals_serial_witness:
  "\<exists>w0 s' e'. decode_words_streaming (file_next_window demo_rubato) plain_unicode one_word no_remapping
      \<lparr>abort_flag = Some (\<lambda>_. False), has_progress = True, has_partial = False\<rparr> 4 (Some 2)
      (rolling_new w0 (window_spec_new 480000 384000 32000)) \<lparr>polls = 0, reported = [], published = []\<rparr>
    = Some (Inr [word_new [1076, 1072] 0 1 1 None], s', e')"
proof -
  obtain w :: "unit wave_source" where w: "wave_source_from 16000 None demo_messages False = Inr w"
    "drain_to_vec demo_rubato (rolling_new w flat_spec) = Inr [Fin 1, Fin 2]" using demo_source by blast
  have q: "quiet_controls \<lparr>abort_flag = Some (\<lambda>_. False), has_progress = True, has_partial = False\<rparr>"
    by (simp add: quiet_controls_def)
  have "windows_of (window_spec_new 480000 384000 32000) [Fin 1, Fin 2] = [(0, [Fin 1, Fin 2])]"
    by (simp add: windows_of_def ref_windows_def n_regular_def last_start_def div_ceil_def last_window_max_def
        window_spec_new_def subslice_def Let_def)
  then have d: "decoded_words plain_unicode one_word (windows_of (window_spec_new 480000 384000 32000) [Fin 1, Fin 2]) [] 0
      = Inr [word_new [1076, 1072] 0 1 1 None]"
    by (simp add: recognized_def one_word_def stitched_def stitch_chunk_words_retained_def overlap_seconds_def)
  show ?thesis
    using parallel_decode_equals_serial[OF w _ _ q, of 384000 plain_unicode one_word no_remapping 4 2 480000 32000
        "\<lparr>polls = 0, reported = [], published = []\<rparr>"] d by (auto simp: usize_max_def)
qed

end
