(* ===== verification/Tokenizer.thy ===== *)
theory Tokenizer
  imports Transcript "HOL-Library.Sublist"
begin

text \<open>
  The vocabulary of the recognition heads, \<open>inference/tokenizer.rs\<close>: reading the vocabulary
  file, finding the blank token, encoding a hotword phrase by greedy longest match and turning
  token ids back into text. A token is its list of Unicode scalar values, a token id its
  position in the vocabulary. The file's content is an argument (\<open>None\<close> when it cannot be
  read).
\<close>

section \<open>Vocabulary\<close>

definition WORD_BOUNDARY :: nat where "WORD_BOUNDARY = 0x2581"

definition blk :: ustring where "blk = lit ''<blk>''"
definition unk :: ustring where "unk = lit ''<unk>''"

record tokenizer =
  vocab_tokens :: "ustring list"
  blank_token :: nat

text \<open>\<open>position(|t| t == "<blk>").unwrap_or_else(|| tokens.len().saturating_sub(1))\<close>\<close>

definition blank_position :: "ustring list \<Rightarrow> nat" where
  "blank_position ts =
     (if blk \<in> set ts then length (takeWhile (\<lambda>t. t \<noteq> blk) ts) else length ts - 1)"

definition from_tokens :: "ustring list \<Rightarrow> tokenizer" where
  "from_tokens ts = \<lparr>vocab_tokens = ts, blank_token = blank_position ts\<rparr>"

section \<open>Reading the file\<close>

text \<open>
  \<open>str::lines\<close>: the line feed that ends a line is dropped, and a carriage return before it;
  a last line without a line feed keeps its carriage return.
\<close>

definition strip_cr :: "ustring \<Rightarrow> ustring" where
  "strip_cr l = (if l \<noteq> [] \<and> last l = 13 then butlast l else l)"

function text_lines :: "ustring \<Rightarrow> ustring list" where
  "text_lines s =
     (if s = [] then []
      else case dropWhile (\<lambda>c. c \<noteq> 10) s of
        [] \<Rightarrow> [s]
      | _ # rest \<Rightarrow> strip_cr (takeWhile (\<lambda>c. c \<noteq> 10) s) # text_lines rest)"
  by pat_completeness auto
termination
proof (relation "measure length", simp, goal_cases)
  case (1 s c rest)
  then have "Suc (length rest) \<le> length s"
    using length_dropWhile_le[of "\<lambda>c. c \<noteq> 10" s] by simp
  then show ?case by simp
qed

declare text_lines.simps [simp del]

text \<open>\<open>parse::<usize>().is_ok()\<close>: an optional plus sign, then digits that fit into 64 bits.\<close>

definition digits_value :: "ustring \<Rightarrow> nat" where
  "digits_value ds = fold (\<lambda>d v. v * 10 + (d - 48)) ds 0"

definition parses_usize :: "ustring \<Rightarrow> bool" where
  "parses_usize s =
     (let ds = (case s of c # rest \<Rightarrow> if c = 43 then rest else s | [] \<Rightarrow> [])
      in ds \<noteq> [] \<and> list_all (\<lambda>d. 48 \<le> d \<and> d \<le> 57) ds \<and> digits_value ds \<le> usize_max)"

text \<open>\<open>rfind(['\t', ' '])\<close>: the line before and after its last tab or space.\<close>

definition is_blank_char :: "nat \<Rightarrow> bool" where
  "is_blank_char c \<longleftrightarrow> c = 9 \<or> c = 32"

definition split_last_blank :: "ustring \<Rightarrow> (ustring \<times> ustring) option" where
  "split_last_blank l =
     (case dropWhile (\<lambda>c. \<not> is_blank_char c) (rev l) of
        [] \<Rightarrow> None
      | _ # before \<Rightarrow> Some (rev before, rev (takeWhile (\<lambda>c. \<not> is_blank_char c) (rev l))))"

definition line_token :: "ustring \<Rightarrow> ustring" where
  "line_token l =
     (case split_last_blank l of
        Some (before, after) \<Rightarrow> if parses_usize (trim after) then before else l
      | None \<Rightarrow> l)"

definition keeps_line :: "ustring \<Rightarrow> bool" where
  "keeps_line l \<longleftrightarrow> l \<noteq> [] \<and> \<not> parses_usize l"

datatype vocab_error = VocabUnreadable | VocabEmpty

definition load_vocab :: "ustring option \<Rightarrow> vocab_error + tokenizer" where
  "load_vocab file =
     (case file of
        None \<Rightarrow> Inl VocabUnreadable
      | Some content \<Rightarrow>
          let ts = map line_token (filter keeps_line (text_lines content))
          in if ts = [] then Inl VocabEmpty
             else Inr \<lparr>vocab_tokens = ts, blank_token = blank_position ts\<rparr>)"

section \<open>Encoding a phrase\<close>

definition special :: "ustring \<Rightarrow> bool" where
  "special t \<longleftrightarrow> t = blk \<or> t = unk \<or> t = []"

text \<open>The phrase with its boundaries marked: one marker before it, one for every white space.\<close>

definition marked :: "ustring \<Rightarrow> ustring" where
  "marked phrase = WORD_BOUNDARY # map (\<lambda>c. if is_whitespace c then WORD_BOUNDARY else c) phrase"

text \<open>The longest token that matches at the start of \<open>chars\<close>, the first one of that length.\<close>

definition try_token :: "ustring \<Rightarrow> nat \<times> ustring \<Rightarrow> (nat \<times> nat) option \<Rightarrow> (nat \<times> nat) option" where
  "try_token chars = (\<lambda>(i, tok) best.
     if special tok then best
     else if length chars < length tok then best
     else if take (length tok) chars = tok \<and> (case best of None \<Rightarrow> True | Some (_, len) \<Rightarrow> len < length tok)
     then Some (i, length tok) else best)"

definition best_match :: "ustring list \<Rightarrow> ustring \<Rightarrow> (nat \<times> nat) option" where
  "best_match ts chars = fold (try_token chars) (enumerate 0 ts) None"

definition matched :: "ustring list \<Rightarrow> ustring \<Rightarrow> nat \<Rightarrow> nat \<Rightarrow> bool" where
  "matched ts chars i len \<longleftrightarrow> i < length ts \<and> \<not> special (ts ! i) \<and> len = length (ts ! i)
     \<and> 0 < len \<and> len \<le> length chars \<and> take len chars = ts ! i"

lemma try_token_matched:
  assumes "\<And>i len. best = Some (i, len) \<Longrightarrow> matched ts chars i len" "j < length ts"
    and "try_token chars (j, ts ! j) best = Some (i, len)"
  shows "matched ts chars i len"
  using assms by (auto simp: try_token_def matched_def special_def split: if_splits option.splits)

lemma best_match_prefix:
  assumes "k \<le> length ts" and "fold (try_token chars) (enumerate 0 (take k ts)) None = Some (i, len)"
  shows "matched ts chars i len"
  using assms
proof (induction k arbitrary: i len)
  case (Suc k)
  have tk: "enumerate 0 (take (Suc k) ts) = enumerate 0 (take k ts) @ [(k, ts ! k)]"
    using Suc.prems(1) by (simp add: take_Suc_conv_app_nth enumerate_append_eq)
  show ?case
    by (rule try_token_matched[where j = k and best = "fold (try_token chars) (enumerate 0 (take k ts)) None"])
      (use Suc tk in simp_all)
qed simp

lemma best_match_Some: "best_match ts chars = Some (i, len) \<Longrightarrow> matched ts chars i len"
  using best_match_prefix[of "length ts" ts chars i len] by (simp add: best_match_def)

function encode_from :: "ustring list \<Rightarrow> ustring \<Rightarrow> nat list \<Rightarrow> nat list option" where
  "encode_from ts chars ids =
     (case chars of
        [] \<Rightarrow> Some ids
      | c # rest \<Rightarrow>
          (case best_match ts chars of
             Some (i, len) \<Rightarrow> encode_from ts (drop len chars) (ids @ [i])
           | None \<Rightarrow> if c = WORD_BOUNDARY then encode_from ts rest ids else None))"
  by pat_completeness auto
termination
  by (relation "measure (\<lambda>(_, chars, _). length chars)")
    (auto dest!: best_match_Some simp: matched_def)

declare encode_from.simps [simp del]

definition encode_phrase :: "tokenizer \<Rightarrow> ustring \<Rightarrow> nat list option" where
  "encode_phrase tk phrase0 =
     (let phrase = trim phrase0
      in if phrase = [] then None
         else case encode_from (vocab_tokens tk) (marked phrase) [] of
           None \<Rightarrow> None
         | Some ids \<Rightarrow> if ids = [] then None else Some ids)"

section \<open>Text of tokens\<close>

definition token_text :: "tokenizer \<Rightarrow> nat \<Rightarrow> ustring" where
  "token_text tk i =
     (if length (vocab_tokens tk) \<le> i then []
      else let t = vocab_tokens tk ! i in if t = blk \<or> t = unk then [] else t)"

definition vocab_size :: "tokenizer \<Rightarrow> nat" where
  "vocab_size tk = length (vocab_tokens tk)"

definition decode_step :: "tokenizer \<Rightarrow> nat \<Rightarrow> ustring \<Rightarrow> ustring" where
  "decode_step tk i s =
     (if i = blank_token tk \<or> length (vocab_tokens tk) \<le> i then s
      else let t = vocab_tokens tk ! i in if t = unk then s else s @ t)"

definition decode_ids :: "tokenizer \<Rightarrow> nat list \<Rightarrow> ustring" where
  "decode_ids tk ids =
     trim (map (\<lambda>c. if c = WORD_BOUNDARY then space else c) (fold (decode_step tk) ids []))"

section \<open>The longest match\<close>

lemma try_token_grows:
  assumes "best = Some (i, len)"
  shows "\<exists>i' len'. try_token chars p best = Some (i', len') \<and> len \<le> len'"
  using assms by (auto simp: try_token_def split: prod.split)

lemma try_token_takes:
  assumes "matched ts chars j (length (ts ! j))"
  shows "\<exists>i len. try_token chars (j, ts ! j) best = Some (i, len) \<and> length (ts ! j) \<le> len"
  using assms by (cases best) (auto simp: try_token_def matched_def)

lemma best_match_covers:
  assumes "k \<le> length ts" and "j < k" and "matched ts chars j (length (ts ! j))"
  shows "\<exists>i len. fold (try_token chars) (enumerate 0 (take k ts)) None = Some (i, len) \<and> length (ts ! j) \<le> len"
  using assms
proof (induction k)
  case (Suc k)
  have tk: "enumerate 0 (take (Suc k) ts) = enumerate 0 (take k ts) @ [(k, ts ! k)]"
    using Suc.prems(1) by (simp add: take_Suc_conv_app_nth enumerate_append_eq)
  show ?case
  proof (cases "j = k")
    case True
    then show ?thesis using try_token_takes[OF Suc.prems(3)] tk by simp
  next
    case False
    then obtain i len where b: "fold (try_token chars) (enumerate 0 (take k ts)) None = Some (i, len)"
      "length (ts ! j) \<le> len" using Suc by auto
    from try_token_grows[OF b(1), of chars "(k, ts ! k)"] obtain i' len'
      where "try_token chars (k, ts ! k) (fold (try_token chars) (enumerate 0 (take k ts)) None) = Some (i', len')" "len \<le> len'"
      using b(1) by auto
    then show ?thesis using tk b(2) by simp
  qed
qed simp

lemma best_match_longest:
  assumes "matched ts chars j n"
  shows "\<exists>i len. best_match ts chars = Some (i, len) \<and> n \<le> len"
  using best_match_covers[of "length ts" ts j chars] assms by (auto simp: best_match_def matched_def)

section \<open>What an encoding spells\<close>

lemma encode_from_spells:
  assumes "encode_from ts chars ids = Some out"
  shows "\<exists>new. out = ids @ new \<and> (\<forall>i \<in> set new. i < length ts \<and> \<not> special (ts ! i))
    \<and> filter (\<lambda>c. c \<noteq> WORD_BOUNDARY) (concat (map ((!) ts) new)) = filter (\<lambda>c. c \<noteq> WORD_BOUNDARY) chars
    \<and> ([WORD_BOUNDARY] \<in> set ts \<longrightarrow> concat (map ((!) ts) new) = chars)"
  using assms
proof (induction ts chars ids rule: encode_from.induct)
  case (1 ts chars ids)
  show ?case
  proof (cases chars)
    case Nil
    then show ?thesis using "1.prems" by (subst (asm) encode_from.simps) auto
  next
    case (Cons c rest)
    show ?thesis
    proof (cases "best_match ts chars")
      case None
      have "encode_from ts chars ids = (if c = WORD_BOUNDARY then encode_from ts rest ids else None)"
        using Cons None by (subst encode_from.simps) simp
      with "1.prems" have c: "c = WORD_BOUNDARY" and r: "encode_from ts rest ids = Some out"
        by (simp_all split: if_splits)
      have no: "[WORD_BOUNDARY] \<notin> set ts"
      proof
        assume "[WORD_BOUNDARY] \<in> set ts"
        then obtain j where j: "j < length ts" "ts ! j = [WORD_BOUNDARY]" by (auto simp: in_set_conv_nth)
        then have "matched ts chars j 1" using c Cons by (auto simp: matched_def special_def blk_def unk_def lit_def)
        from best_match_longest[OF this] None show False by simp
      qed
      from "1.IH"(1)[OF Cons None c r] no c Cons show ?thesis by auto
    next
      case (Some p)
      obtain i len where p: "p = (i, len)" by (cases p)
      have m: "matched ts chars i len" using best_match_Some Some p by blast
      have r: "encode_from ts (drop len chars) (ids @ [i]) = Some out"
        using "1.prems" Cons Some p by (subst (asm) encode_from.simps) auto
      from "1.IH"(2)[OF Cons Some p[symmetric] r] obtain new where new: "out = (ids @ [i]) @ new"
        "\<forall>i \<in> set new. i < length ts \<and> \<not> special (ts ! i)"
        "filter (\<lambda>c. c \<noteq> WORD_BOUNDARY) (concat (map ((!) ts) new)) = filter (\<lambda>c. c \<noteq> WORD_BOUNDARY) (drop len chars)"
        "[WORD_BOUNDARY] \<in> set ts \<longrightarrow> concat (map ((!) ts) new) = drop len chars" by blast
      have ch: "chars = ts ! i @ drop len chars" using m by (metis append_take_drop_id matched_def)
      show ?thesis
      proof (intro exI conjI)
        show "out = ids @ (i # new)" using new(1) by simp
        show "\<forall>j \<in> set (i # new). j < length ts \<and> \<not> special (ts ! j)" using new(2) m by (simp add: matched_def)
        show "filter (\<lambda>c. c \<noteq> WORD_BOUNDARY) (concat (map ((!) ts) (i # new))) = filter (\<lambda>c. c \<noteq> WORD_BOUNDARY) chars"
          using new(3) by (subst ch) simp
        show "[WORD_BOUNDARY] \<in> set ts \<longrightarrow> concat (map ((!) ts) (i # new)) = chars"
          using new(4) by (subst ch) simp
      qed
    qed
  qed
qed

lemma encode_from_total:
  assumes "\<forall>c \<in> set chars. c = WORD_BOUNDARY \<or> [c] \<in> set ts"
  shows "encode_from ts chars ids \<noteq> None"
  using assms
proof (induction ts chars ids rule: encode_from.induct)
  case (1 ts chars ids)
  show ?case
  proof (cases chars)
    case Nil
    then show ?thesis by (subst encode_from.simps) simp
  next
    case (Cons c rest)
    show ?thesis
    proof (cases "best_match ts chars")
      case None
      have "c = WORD_BOUNDARY"
      proof (rule ccontr)
        assume "c \<noteq> WORD_BOUNDARY"
        then obtain j where j: "j < length ts" "ts ! j = [c]" using "1.prems" Cons by (auto simp: in_set_conv_nth)
        then have "matched ts chars j 1" using Cons by (auto simp: matched_def special_def blk_def unk_def lit_def)
        from best_match_longest[OF this] None show False by simp
      qed
      then show ?thesis using "1.IH"(1)[OF Cons None] "1.prems" Cons None by (subst encode_from.simps) simp
    next
      case (Some p)
      obtain i len where p: "p = (i, len)" by (cases p)
      have "encode_from ts (drop len chars) (ids @ [i]) \<noteq> None"
        using "1.IH"(2)[OF Cons Some p[symmetric]] "1.prems" by (meson in_set_dropD)
      then show ?thesis using Cons Some p by (subst encode_from.simps) simp
    qed
  qed
qed

section \<open>Text of an encoding\<close>

lemma fold_decode_step:
  assumes "\<forall>i \<in> set ids. i < length (vocab_tokens tk) \<and> i \<noteq> blank_token tk \<and> vocab_tokens tk ! i \<noteq> unk"
  shows "fold (decode_step tk) ids s = s @ concat (map ((!) (vocab_tokens tk)) ids)"
  using assms by (induction ids arbitrary: s) (auto simp: decode_step_def)

lemma set_trim: "set (trim p) \<subseteq> set p"
  by (auto simp: trim_def trim_start_def trim_end_def dest!: set_dropWhileD)

lemma trim_ends:
  assumes "trim p \<noteq> []"
  shows "\<not> is_whitespace (hd (trim p))" and "\<not> is_whitespace (last (trim p))"
proof -
  show "\<not> is_whitespace (hd (trim p))" using assms hd_dropWhile by (metis trim_def trim_start_def)
  have e: "trim_end p \<noteq> []" using assms by (auto simp: trim_def trim_start_def)
  then have "\<not> is_whitespace (last (trim_end p))"
    unfolding trim_end_def by (metis hd_dropWhile last_rev rev_is_Nil_conv)
  moreover have "last (trim p) = last (trim_end p)"
    using assms by (metis trim_def trim_start_def last_appendR takeWhile_dropWhile_id)
  ultimately show "\<not> is_whitespace (last (trim p))" by simp
qed

lemma trim_bounded:
  assumes "s \<noteq> []" "\<not> is_whitespace (hd s)" "\<not> is_whitespace (last s)"
  shows "trim s = s" and "trim (space # s) = s"
proof -
  have r: "rev s \<noteq> []" "\<not> is_whitespace (hd (rev s))" using assms by (simp_all add: hd_rev)
  have d: "dropWhile is_whitespace (rev s @ ys) = rev s @ ys" for ys
    using r by (cases "rev s") auto
  have h: "dropWhile is_whitespace s = s" using assms(1,2) by (cases s) auto
  show "trim s = s" using d[of "[]"] h by (simp add: trim_def trim_end_def trim_start_def)
  show "trim (space # s) = s" using d[of "[space]"] h
    by (simp add: trim_def trim_end_def trim_start_def space_def is_whitespace_def)
qed

lemma blank_position_blk:
  assumes "blk \<in> set ts"
  shows "ts ! blank_position ts = blk"
proof -
  have "length (takeWhile (\<lambda>t. t \<noteq> blk) ts) < length ts"
    using assms by (induction ts) auto
  from nth_length_takeWhile[OF this] show ?thesis using assms by (simp add: blank_position_def)
qed

lemma load_vocab_tokens:
  assumes "load_vocab file = Inr tk"
  shows "blank_token tk = blank_position (vocab_tokens tk)" and "vocab_tokens tk \<noteq> []"
  using assms by (auto simp: load_vocab_def Let_def split: option.splits if_splits)

text \<open>
  C33: encoding and decoding are inverse. Let a vocabulary be loaded that has the blank token and
  a token for the bare word boundary. If every character of a phrase other than white space has
  a token of its own and the phrase is not blank, the phrase is representable, whichever longer
  tokens the greedy match prefers. And every encoding of a phrase without the boundary
  character consists of ids inside the vocabulary, never the blank, and decodes to the trimmed
  phrase with its white space turned into spaces.
\<close>
theorem phrase_roundtrip:
  assumes "load_vocab file = Inr tk" and "blk \<in> set (vocab_tokens tk)"
    and "[WORD_BOUNDARY] \<in> set (vocab_tokens tk)" and "WORD_BOUNDARY \<notin> set phrase"
  shows "(trim phrase \<noteq> [] \<and> list_all (\<lambda>c. is_whitespace c \<or> [c] \<in> set (vocab_tokens tk)) phrase
      \<longrightarrow> encode_phrase tk phrase \<noteq> None)
    \<and> (encode_phrase tk phrase = Some ids
      \<longrightarrow> ids \<noteq> [] \<and> list_all (\<lambda>i. i < vocab_size tk \<and> i \<noteq> blank_token tk) ids
        \<and> decode_ids tk ids = map (\<lambda>c. if is_whitespace c then space else c) (trim phrase))"
proof (rule conjI)
  let ?ts = "vocab_tokens tk"
  have blank: "?ts ! blank_token tk = blk"
    using load_vocab_tokens(1)[OF assms(1)] blank_position_blk[OF assms(2)] by simp
  show "encode_phrase tk phrase = Some ids
      \<longrightarrow> ids \<noteq> [] \<and> list_all (\<lambda>i. i < vocab_size tk \<and> i \<noteq> blank_token tk) ids
        \<and> decode_ids tk ids = map (\<lambda>c. if is_whitespace c then space else c) (trim phrase)"
  proof
    assume e: "encode_phrase tk phrase = Some ids"
    then have ne: "trim phrase \<noteq> []" "ids \<noteq> []" and f: "encode_from ?ts (marked (trim phrase)) [] = Some ids"
      by (auto simp: encode_phrase_def Let_def split: if_splits option.splits)
    from encode_from_spells[OF f] assms(3) have ok: "\<forall>i \<in> set ids. i < length ?ts \<and> \<not> special (?ts ! i)"
      and sp: "concat (map ((!) ?ts) ids) = marked (trim phrase)" by auto
    have nb: "\<forall>i \<in> set ids. i \<noteq> blank_token tk" using ok blank by (auto simp: special_def)
    have "fold (decode_step tk) ids [] = marked (trim phrase)"
      using fold_decode_step[of ids tk "[]"] ok nb sp by (auto simp: special_def)
    moreover have "map (\<lambda>c. if c = WORD_BOUNDARY then space else c) (marked (trim phrase))
        = space # map (\<lambda>c. if is_whitespace c then space else c) (trim phrase)"
      using assms(4) set_trim[of phrase] by (auto simp: marked_def)
    moreover have "trim (space # map (\<lambda>c. if is_whitespace c then space else c) (trim phrase))
        = map (\<lambda>c. if is_whitespace c then space else c) (trim phrase)"
      by (rule trim_bounded(2)) (use ne trim_ends[OF ne(1)] in \<open>simp_all add: hd_map last_map\<close>)
    ultimately have "decode_ids tk ids = map (\<lambda>c. if is_whitespace c then space else c) (trim phrase)"
      by (simp add: decode_ids_def)
    then show "ids \<noteq> [] \<and> list_all (\<lambda>i. i < vocab_size tk \<and> i \<noteq> blank_token tk) ids
        \<and> decode_ids tk ids = map (\<lambda>c. if is_whitespace c then space else c) (trim phrase)"
      using ne ok nb by (simp add: list_all_iff vocab_size_def)
  qed
  show "trim phrase \<noteq> [] \<and> list_all (\<lambda>c. is_whitespace c \<or> [c] \<in> set ?ts) phrase
      \<longrightarrow> encode_phrase tk phrase \<noteq> None"
  proof
    assume a: "trim phrase \<noteq> [] \<and> list_all (\<lambda>c. is_whitespace c \<or> [c] \<in> set ?ts) phrase"
    have "\<forall>c \<in> set (marked (trim phrase)). c = WORD_BOUNDARY \<or> [c] \<in> set ?ts"
      using a set_trim[of phrase] by (auto simp: marked_def list_all_iff)
    from encode_from_total[OF this, of "[]"] obtain out where out: "encode_from ?ts (marked (trim phrase)) [] = Some out"
      by auto
    from encode_from_spells[OF this] assms(3) have "concat (map ((!) ?ts) out) = marked (trim phrase)" by auto
    then have "out \<noteq> []" by (auto simp: marked_def)
    then show "encode_phrase tk phrase \<noteq> None" using a out by (simp add: encode_phrase_def)
  qed
qed

text \<open>The vocabulary of the witness: the boundary, \<open>a\<close>, \<open>b\<close>, \<open>ab\<close> with an explicit id, the blank.\<close>

definition demo_vocab :: ustring where
  "demo_vocab = [0x2581, 10, 97, 13, 10, 98, 10, 97, 98, 9, 51, 10] @ blk"

lemma demo_vocab_loads:
  "load_vocab (Some demo_vocab)
     = Inr \<lparr>vocab_tokens = [[WORD_BOUNDARY], [97], [98], [97, 98], blk], blank_token = 4\<rparr>"
  by (simp add: load_vocab_def demo_vocab_def text_lines.simps strip_cr_def keeps_line_def parses_usize_def
      digits_value_def line_token_def split_last_blank_def is_blank_char_def blk_def lit_def blank_position_def
      WORD_BOUNDARY_def trim_def trim_start_def trim_end_def is_whitespace_def usize_max_def Let_def)

lemma phrase_roundtrip_witness:
  "\<exists>tk. load_vocab (Some demo_vocab) = Inr tk \<and> encode_phrase tk [97, 98, 9, 97] = Some [0, 3, 0, 1]
     \<and> decode_ids tk [0, 3, 0, 1] = [97, 98, 32, 97]"
proof -
  let ?tk = "\<lparr>vocab_tokens = [[WORD_BOUNDARY], [97], [98], [97, 98], blk], blank_token = 4\<rparr>"
  let ?p = "[97, 98, 9, 97] :: nat list"
  have e: "encode_phrase ?tk ?p = Some [0, 3, 0, 1]"
    by (simp add: encode_phrase_def encode_from.simps best_match_def try_token_def special_def blk_def unk_def
        lit_def marked_def WORD_BOUNDARY_def trim_def trim_start_def trim_end_def is_whitespace_def)
  have "decode_ids ?tk [0, 3, 0, 1] = map (\<lambda>c. if is_whitespace c then space else c) (trim ?p)"
    using phrase_roundtrip[OF demo_vocab_loads, of ?p "[0, 3, 0, 1]"] e by (simp add: WORD_BOUNDARY_def)
  then show ?thesis using e demo_vocab_loads
    by (simp add: trim_def trim_start_def trim_end_def is_whitespace_def space_def)
qed

end
