(* ===== verification/Hotword_Bias.thy ===== *)
theory Hotword_Bias
  imports Tokenizer
begin

text \<open>
  Contextual hotword biasing, \<open>inference/bias.rs\<close>: the prefix trie over hotword token sequences,
  the active-prefix set of the greedy decoder and the path accounting of the beam search. The
  trie is the source's vector of nodes; a \<open>HashMap\<close> of children is the association list of its
  entries, whose order no result depends on. Logits and boosts are finite floats in the source
  and rationals here. \<open>str::to_lowercase\<close> is an argument: its tables are not part of the source.
\<close>

section \<open>The trie\<close>

record trie_node =
  children :: "(nat \<times> nat) list"
  is_end :: bool
  shortest_phrase :: nat
  depth :: nat
  is_entry :: bool
  grant :: rat

definition node_new :: "nat \<Rightarrow> trie_node" where
  "node_new d = \<lparr>children = [], is_end = False, shortest_phrase = usize_max, depth = d, is_entry = False, grant = 0\<rparr>"

record bias_path =
  path_node :: nat
  pending :: rat

definition path_default :: bias_path where
  "path_default = \<lparr>path_node = 0, pending = 0\<rparr>"

record biaser =
  nodes :: "trie_node list"
  boost :: rat
  phrase_count :: nat

text \<open>One turn of the inner loop of \<open>build\<close>: follow or create the child, then note the phrase length.\<close>

definition insert_token :: "nat \<Rightarrow> nat \<Rightarrow> trie_node list \<times> nat \<Rightarrow> trie_node list \<times> nat" where
  "insert_token scored tok = (\<lambda>(ns, n).
     let (ns, c) =
       (case map_of (children (ns ! n)) tok of
          Some c \<Rightarrow> (ns, c)
        | None \<Rightarrow>
            let c = length ns
            in ((ns @ [node_new (depth (ns ! n) + 1)])
                  [n := (ns ! n)\<lparr>children := (tok, c) # children (ns ! n)\<rparr>], c))
     in (ns[c := (ns ! c)\<lparr>shortest_phrase := min (shortest_phrase (ns ! c)) scored\<rparr>], c))"

definition scored_len :: "bool \<Rightarrow> nat list \<Rightarrow> nat" where
  "scored_len leading s = max (length s - (if leading then 1 else 0)) 1"

definition insert_seq :: "bool \<Rightarrow> nat list \<Rightarrow> trie_node list \<Rightarrow> trie_node list" where
  "insert_seq leading s ns =
     (let (ns, n) = fold (insert_token (scored_len leading s)) s (ns, 0)
      in ns[n := (ns ! n)\<lparr>is_end := True\<rparr>])"

definition set_grant :: "bool \<Rightarrow> rat \<Rightarrow> trie_node \<Rightarrow> trie_node" where
  "set_grant leading b n =
     (let e = (leading \<and> depth n = 1)
      in n\<lparr>is_entry := e, grant := (if e then 0 else b / of_nat (max (shortest_phrase n) 1))\<rparr>)"

definition build :: "nat list list \<Rightarrow> rat \<Rightarrow> bool \<Rightarrow> biaser option" where
  "build seqs b leading =
     (let used = filter (\<lambda>s. s \<noteq> []) seqs;
          ns = fold (insert_seq leading) used [node_new 0]
      in if length used = 0 then None
         else Some \<lparr>nodes = hd ns # map (set_grant leading b) (tl ns), boost = b, phrase_count = length used\<rparr>)"

definition encode_representable :: "(ustring \<Rightarrow> ustring) \<Rightarrow> tokenizer \<Rightarrow> ustring \<Rightarrow> nat list option" where
  "encode_representable lower tk phrase =
     (case encode_phrase tk phrase of
        Some ids \<Rightarrow> Some ids
      | None \<Rightarrow>
          let lowercased = lower phrase
          in case (if lowercased \<noteq> phrase then encode_phrase tk lowercased else None) of
               Some ids \<Rightarrow> Some ids
             | None \<Rightarrow>
                 let folded = map (\<lambda>c. if c = 0x451 then 0x435 else c) lowercased
                 in if folded \<noteq> lowercased then encode_phrase tk folded else None)"

definition from_phrases :: "(ustring \<Rightarrow> ustring) \<Rightarrow> tokenizer \<Rightarrow> (ustring \<times> rat) list \<Rightarrow> rat \<Rightarrow> biaser option" where
  "from_phrases lower tk phrases b =
     (if b \<le> 0 then None
      else build (List.map_filter (encode_representable lower tk \<circ> fst) (filter (\<lambda>(_, weight). \<not> weight \<le> 0) phrases)) b True)"

section \<open>Scoring in the beam search\<close>

definition enter :: "biaser \<Rightarrow> bias_path \<Rightarrow> nat \<Rightarrow> rat \<times> bias_path" where
  "enter b from child =
     (let share = grant (nodes b ! child)
      in (share, \<lparr>path_node = child, pending = (if is_end (nodes b ! child) then 0 else pending from + share)\<rparr>))"

definition score_token :: "biaser \<Rightarrow> bias_path \<Rightarrow> nat \<Rightarrow> rat \<times> bias_path" where
  "score_token b p tok =
     (case map_of (children (nodes b ! path_node p)) tok of
        Some child \<Rightarrow> enter b p child
      | None \<Rightarrow>
          let refund = - pending p
          in case map_of (children (nodes b ! 0)) tok of
               Some child \<Rightarrow> let (delta, p') = enter b path_default child in (refund + delta, p')
             | None \<Rightarrow> (refund, path_default))"

definition continuations :: "biaser \<Rightarrow> bias_path \<Rightarrow> nat list" where
  "continuations b p =
     map fst (children (nodes b ! path_node p))
       @ (if path_node p \<noteq> 0 then map fst (children (nodes b ! 0)) else [])"

section \<open>Boosting in the greedy decoder\<close>

record bias_state =
  active :: "nat list"

definition bias_state_new :: bias_state where
  "bias_state_new = \<lparr>active = [0]\<rparr>"

definition boost_edge :: "biaser \<Rightarrow> nat \<times> nat \<Rightarrow> rat list \<Rightarrow> rat list" where
  "boost_edge b = (\<lambda>(tok, child) logits.
     if tok < length logits \<and> \<not> is_entry (nodes b ! child) then logits[tok := logits ! tok + boost b] else logits)"

definition boost_logits :: "biaser \<Rightarrow> bias_state \<Rightarrow> rat list \<Rightarrow> rat list" where
  "boost_logits b st logits =
     fold (\<lambda>n. fold (boost_edge b) (children (nodes b ! n))) (active st) logits"

definition advance_node :: "biaser \<Rightarrow> nat \<Rightarrow> nat \<Rightarrow> nat list \<Rightarrow> nat list" where
  "advance_node b tok n acc =
     (case map_of (children (nodes b ! n)) tok of
        Some child \<Rightarrow> if child \<in> set acc then acc else acc @ [child]
      | None \<Rightarrow> acc)"

definition advance :: "biaser \<Rightarrow> bias_state \<Rightarrow> nat \<Rightarrow> bias_state" where
  "advance b st tok =
     (let nxt = fold (advance_node b tok) (active st) []
      in \<lparr>active = (if 0 \<in> set nxt then nxt else nxt @ [0])\<rparr>)"

section \<open>The strings a trie holds\<close>

text \<open>
  A labelling gives every node the token sequence that leads to it. The structure of a trie over
  a labelling: the root is empty, labels are distinct, and an edge leads from a label to the label
  one token longer.
\<close>

definition trie_over :: "nat list list \<Rightarrow> trie_node list \<Rightarrow> bool" where
  "trie_over L ns \<longleftrightarrow> length L = length ns \<and> L \<noteq> [] \<and> L ! 0 = [] \<and> distinct L
     \<and> (\<forall>s u. s @ [u] \<in> set L \<longrightarrow> s \<in> set L)
     \<and> (\<forall>n < length ns. distinct (map fst (children (ns ! n))) \<and> depth (ns ! n) = length (L ! n)
         \<and> (\<forall>t c. map_of (children (ns ! n)) t = Some c \<longleftrightarrow> c < length ns \<and> L ! c = L ! n @ [t]))"

text \<open>What the nodes say about their labels: the phrases that end there, the shortest one through them.\<close>

definition ungranted :: "trie_node \<Rightarrow> bool" where
  "ungranted n \<longleftrightarrow> \<not> is_entry n \<and> grant n = 0"

definition trie_data :: "nat list list \<Rightarrow> trie_node list \<Rightarrow> nat list set \<Rightarrow> (nat list \<Rightarrow> nat) \<Rightarrow> bool" where
  "trie_data L ns E sh \<longleftrightarrow>
     (\<forall>n < length ns. is_end (ns ! n) = (L ! n \<in> E) \<and> shortest_phrase (ns ! n) = sh (L ! n) \<and> ungranted (ns ! n))
     \<and> (\<forall>s. s \<notin> set L \<longrightarrow> sh s = usize_max \<and> s \<notin> E)"

lemma trie_over_edge:
  assumes "trie_over L ns" "n < length ns"
  shows "map_of (children (ns ! n)) t = Some c \<longleftrightarrow> c < length ns \<and> L ! c = L ! n @ [t]"
    and "map_of (children (ns ! n)) t = None \<longleftrightarrow> L ! n @ [t] \<notin> set L"
proof -
  show e: "map_of (children (ns ! n)) t = Some c \<longleftrightarrow> c < length ns \<and> L ! c = L ! n @ [t]" for c
    using assms unfolding trie_over_def by blast
  have "length L = length ns" using assms by (simp add: trie_over_def)
  then show "map_of (children (ns ! n)) t = None \<longleftrightarrow> L ! n @ [t] \<notin> set L"
    using e by (metis in_set_conv_nth not_None_eq)
qed

lemma trie_over_inj:
  assumes "trie_over L ns" "a < length ns" "b < length ns" "L ! a = L ! b"
  shows "a = b"
  using assms by (simp add: trie_over_def nth_eq_iff_index_eq)

lemma trie_over_cong:
  assumes "trie_over L ns" "length ns' = length ns"
    and "\<And>n. n < length ns \<Longrightarrow> children (ns' ! n) = children (ns ! n) \<and> depth (ns' ! n) = depth (ns ! n)"
  shows "trie_over L ns'"
  using assms by (simp add: trie_over_def del: map_of_eq_Some_iff)

lemma trie_over_grow:
  assumes t: "trie_over L ns" and n: "n < length ns" and new: "L ! n @ [t] \<notin> set L"
  shows "trie_over (L @ [L ! n @ [t]])
    ((ns @ [node_new (depth (ns ! n) + 1)])[n := (ns ! n)\<lparr>children := (t, length ns) # children (ns ! n)\<rparr>])"
proof -
  define L' where "L' = L @ [L ! n @ [t]]"
  define ns' where "ns' = (ns @ [node_new (depth (ns ! n) + 1)])[n := (ns ! n)\<lparr>children := (t, length ns) # children (ns ! n)\<rparr>]"
  have len: "length L = length ns" and ne: "L \<noteq> []" and root: "L ! 0 = []" and d: "distinct L"
    and cl: "s @ [u] \<in> set L \<Longrightarrow> s \<in> set L" for s u
    using t unfolding trie_over_def by blast+
  have len': "length ns' = Suc (length ns)" "length L' = Suc (length ns)" using len by (simp_all add: ns'_def L'_def)
  have old: "L' ! m = L ! m" if "m < length ns" for m using that len by (simp add: nth_append L'_def)
  have newl: "L' ! length ns = L ! n @ [t]" using len by (simp add: nth_append L'_def)
  have nodes': "children (ns' ! length ns) = []" "depth (ns' ! length ns) = Suc (depth (ns ! n))"
      "children (ns' ! n) = (t, length ns) # children (ns ! n)" "depth (ns' ! n) = depth (ns ! n)"
      "m < length ns \<Longrightarrow> m \<noteq> n \<Longrightarrow> ns' ! m = ns ! m" for m
    using n by (simp_all add: ns'_def nth_append node_new_def)
  have set': "set L' = insert (L ! n @ [t]) (set L)" by (simp add: L'_def)
  have tm: "distinct (map fst (children (ns ! m)))" "depth (ns ! m) = length (L ! m)" if "m < length ns" for m
    using t that unfolding trie_over_def by blast+
  have nk: "t \<notin> fst ` set (children (ns ! n))"
    using trie_over_edge(2)[OF t n, of t] new by (metis map_of_eq_None_iff)
  have step: "L ! m @ [u] = L ! n @ [t] \<longleftrightarrow> m = n \<and> u = t" if "m < length ns" for m u
    using that n trie_over_inj[OF t] by auto
  have no_child: "\<not> (c < length ns' \<and> L' ! c = L' ! length ns @ [u])" for c u
  proof
    assume a: "c < length ns' \<and> L' ! c = L' ! length ns @ [u]"
    show False
    proof (cases "c = length ns")
      case True
      then show False using a newl by simp
    next
      case False
      then have c: "c < length ns" and e: "L ! c = (L ! n @ [t]) @ [u]" using a old newl len' by auto
      have "L ! c \<in> set L" using c len by simp
      then have "L ! n @ [t] \<in> set L" unfolding e by (rule cl)
      then show False using new by simp
    qed
  qed
  have edge: "map_of (children (ns' ! m)) u = Some c \<longleftrightarrow> c < length ns' \<and> L' ! c = L' ! m @ [u]"
    if m: "m < length ns" for m u c
  proof (cases "c = length ns")
    case True
    have "map_of (children (ns ! m)) u \<noteq> Some (length ns)" using trie_over_edge(1)[OF t m] by blast
    then show ?thesis using True newl step[OF m, of u] old[OF m] len' nodes'(3) nodes'(5)[OF m]
      by (cases "m = n") (auto simp del: map_of_eq_Some_iff)
  next
    case False
    then have "c < length ns' \<longleftrightarrow> c < length ns" using len' by auto
    have no: "map_of (children (ns ! n)) t \<noteq> Some c" using nk by (metis map_of_eq_None_iff option.distinct(1))
    note \<open>c < length ns' \<longleftrightarrow> c < length ns\<close>
    moreover have "map_of (children (ns' ! m)) u = Some c \<longleftrightarrow> map_of (children (ns ! m)) u = Some c"
      using False nodes'(3) nodes'(5)[OF m] no by (cases "m = n") (auto simp del: map_of_eq_Some_iff)
    moreover have "L' ! c = L' ! m @ [u] \<longleftrightarrow> L ! c = L ! m @ [u]" if "c < length ns" using old that m by simp
    ultimately show ?thesis using trie_over_edge(1)[OF t m, of u c] by blast
  qed
  have keys: "distinct (map fst (children (ns' ! m))) \<and> depth (ns' ! m) = length (L' ! m)" if "m < length ns'" for m
  proof (cases "m = length ns")
    case True
    then show ?thesis using nodes'(1,2) newl tm(2)[OF n] by simp
  next
    case False
    then have m: "m < length ns" using that len' by simp
    show ?thesis using nodes'(3,4) nodes'(5)[OF m] tm[OF m] tm[OF n] nk old[OF m] by (cases "m = n") auto
  qed
  have ends: "map_of (children (ns' ! length ns)) u = Some c \<longleftrightarrow> c < length ns' \<and> L' ! c = L' ! length ns @ [u]" for u c
  proof -
    have "map_of (children (ns' ! length ns)) u \<noteq> Some c" by (simp add: nodes'(1))
    with no_child[of c u] show ?thesis by blast
  qed
  have "trie_over L' ns'" unfolding trie_over_def
  proof (intro conjI allI impI)
    show "s \<in> set L'" if "s @ [u] \<in> set L'" for s u
      using that cl n len by (auto simp: set')
    show "distinct L'" using d new by (simp add: L'_def)
    show "L' ! 0 = []" using root ne by (cases L) (simp_all add: L'_def)
    show "length L' = length ns'" using len' by simp
    show "L' \<noteq> []" by (simp add: L'_def)
    fix m assume m: "m < length ns'"
    show "distinct (map fst (children (ns' ! m)))" "depth (ns' ! m) = length (L' ! m)" using keys[OF m] by blast+
    show "map_of (children (ns' ! m)) u = Some c \<longleftrightarrow> c < length ns' \<and> L' ! c = L' ! m @ [u]" for u c
      using edge[of m u c] ends[of u c] m len' by (cases "m = length ns") auto
  qed
  then show ?thesis by (simp only: L'_def ns'_def)
qed

lemma insert_token_ok:
  assumes t: "trie_over L ns" and d: "trie_data L ns E sh" and n: "n < length ns"
    and i: "insert_token sc t (ns, n) = (ns', n')"
  shows "\<exists>L'. trie_over L' ns' \<and> trie_data L' ns' E (sh(L ! n @ [t] := min (sh (L ! n @ [t])) sc))
    \<and> n' < length ns' \<and> L' ! n' = L ! n @ [t] \<and> set L' = insert (L ! n @ [t]) (set L)"
proof -
  have len: "length L = length ns" using t unfolding trie_over_def by blast
  show ?thesis
  proof (cases "map_of (children (ns ! n)) t")
    case (Some c)
    then have c: "c < length ns" "L ! c = L ! n @ [t]" using trie_over_edge(1)[OF t n] by blast+
    have ns': "ns' = ns[c := (ns ! c)\<lparr>shortest_phrase := min (shortest_phrase (ns ! c)) sc\<rparr>]" "n' = c"
      using i Some by (auto simp: insert_token_def)
    have "trie_over L ns'" by (rule trie_over_cong[OF t]) (use c in \<open>auto simp: ns' nth_list_update\<close>)
    moreover have "trie_data L ns' E (sh(L ! n @ [t] := min (sh (L ! n @ [t])) sc))"
      unfolding trie_data_def
    proof (intro conjI allI impI)
      fix m assume m: "m < length ns'"
      then have m: "m < length ns" by (simp add: ns')
      have "L ! m = L ! n @ [t] \<longleftrightarrow> m = c" using c trie_over_inj[OF t m c(1)] by auto
      then show "is_end (ns' ! m) = (L ! m \<in> E)"
        "shortest_phrase (ns' ! m) = (sh(L ! n @ [t] := min (sh (L ! n @ [t])) sc)) (L ! m)" "ungranted (ns' ! m)"
        using d m c by (auto simp: trie_data_def ns' nth_list_update ungranted_def)
    next
      fix s assume "s \<notin> set L"
      moreover have "L ! n @ [t] \<in> set L" using c len by (metis nth_mem)
      ultimately show "(sh(L ! n @ [t] := min (sh (L ! n @ [t])) sc)) s = usize_max" "s \<notin> E"
        using d by (auto simp: trie_data_def)
    qed
    moreover have "L ! n @ [t] \<in> set L" using c len by (metis nth_mem)
    ultimately show ?thesis using c by (intro exI[of _ L]) (auto simp: ns')
  next
    case None
    then have new: "L ! n @ [t] \<notin> set L" using trie_over_edge(2)[OF t n] by blast
    define ns1 where "ns1 = (ns @ [node_new (depth (ns ! n) + 1)])[n := (ns ! n)\<lparr>children := (t, length ns) # children (ns ! n)\<rparr>]"
    have g: "trie_over (L @ [L ! n @ [t]]) ns1" unfolding ns1_def by (rule trie_over_grow[OF t n new])
    have ns': "ns' = ns1[length ns := (ns1 ! length ns)\<lparr>shortest_phrase := min (shortest_phrase (ns1 ! length ns)) sc\<rparr>]" "n' = length ns"
      using i None by (auto simp: insert_token_def Let_def ns1_def)
    have l1: "length ns1 = Suc (length ns)" by (simp add: ns1_def)
    have o1: "is_end (ns1 ! m) = is_end (ns ! m)" "shortest_phrase (ns1 ! m) = shortest_phrase (ns ! m)"
      "ungranted (ns1 ! m) = ungranted (ns ! m)" if "m < length ns" for m
      using that n by (auto simp: ns1_def nth_append nth_list_update ungranted_def)
    have e1: "\<not> is_end (ns1 ! length ns)" "shortest_phrase (ns1 ! length ns) = usize_max" "ungranted (ns1 ! length ns)"
      using n by (auto simp: ns1_def nth_append nth_list_update node_new_def ungranted_def)
    have "trie_over (L @ [L ! n @ [t]]) ns'" by (rule trie_over_cong[OF g]) (auto simp: ns' nth_list_update l1)
    moreover have "trie_data (L @ [L ! n @ [t]]) ns' E (sh(L ! n @ [t] := min (sh (L ! n @ [t])) sc))"
      unfolding trie_data_def
    proof (intro conjI allI impI)
      fix m assume "m < length ns'"
      then consider "m = length ns" | "m < length ns" using l1 by (auto simp: ns' less_Suc_eq)
      then have "is_end (ns' ! m) = ((L @ [L ! n @ [t]]) ! m \<in> E) \<and>
        shortest_phrase (ns' ! m) = (sh(L ! n @ [t] := min (sh (L ! n @ [t])) sc)) ((L @ [L ! n @ [t]]) ! m)
        \<and> ungranted (ns' ! m)"
      proof cases
        case 1
        then show ?thesis using d new e1 l1 len by (auto simp: trie_data_def ns' nth_append ungranted_def)
      next
        case 2
        then have "L ! m \<noteq> L ! n @ [t]" using new len by (metis nth_mem)
        then show ?thesis using 2 d o1[OF 2] l1 len by (auto simp: trie_data_def ns' nth_append ungranted_def)
      qed
      then show "is_end (ns' ! m) = ((L @ [L ! n @ [t]]) ! m \<in> E)"
        "shortest_phrase (ns' ! m) = (sh(L ! n @ [t] := min (sh (L ! n @ [t])) sc)) ((L @ [L ! n @ [t]]) ! m)"
        "ungranted (ns' ! m)" by blast+
    next
      fix s assume "s \<notin> set (L @ [L ! n @ [t]])"
      then show "(sh(L ! n @ [t] := min (sh (L ! n @ [t])) sc)) s = usize_max" "s \<notin> E" using d by (auto simp: trie_data_def)
    qed
    ultimately show ?thesis using l1 len by (intro exI[of _ "L @ [L ! n @ [t]]"]) (auto simp: ns' nth_append)
  qed
qed

lemma insert_tokens_ok:
  assumes "trie_over L ns" "trie_data L ns E sh" "n < length ns"
    and "fold (insert_token sc) s (ns, n) = (ns', n')"
  shows "\<exists>L'. trie_over L' ns'
    \<and> trie_data L' ns' E (\<lambda>x. if \<exists>r. r \<noteq> [] \<and> prefix r s \<and> x = L ! n @ r then min (sh x) sc else sh x)
    \<and> n' < length ns' \<and> L' ! n' = L ! n @ s \<and> set L' = set L \<union> {L ! n @ r |r. prefix r s}"
  using assms
proof (induction s arbitrary: L ns n sh)
  case Nil
  have "L ! n \<in> set L" using Nil by (auto simp: trie_over_def)
  then show ?case using Nil by (intro exI[of _ L]) auto
next
  case (Cons t s)
  obtain ns1 n1 where i: "insert_token sc t (ns, n) = (ns1, n1)" by (cases "insert_token sc t (ns, n)")
  from insert_token_ok[OF Cons.prems(1-3) i] obtain L1 where L1: "trie_over L1 ns1"
    "trie_data L1 ns1 E (sh(L ! n @ [t] := min (sh (L ! n @ [t])) sc))" "n1 < length ns1" "L1 ! n1 = L ! n @ [t]"
    "set L1 = insert (L ! n @ [t]) (set L)" by blast
  have "fold (insert_token sc) s (ns1, n1) = (ns', n')" using Cons.prems(4) i by simp
  from Cons.IH[OF L1(1-3) this] obtain L' where L': "trie_over L' ns'" "n' < length ns'"
    "trie_data L' ns' E (\<lambda>x. if \<exists>r. r \<noteq> [] \<and> prefix r s \<and> x = L1 ! n1 @ r
        then min ((sh(L ! n @ [t] := min (sh (L ! n @ [t])) sc)) x) sc else (sh(L ! n @ [t] := min (sh (L ! n @ [t])) sc)) x)"
    "L' ! n' = L1 ! n1 @ s" "set L' = set L1 \<union> {L1 ! n1 @ r |r. prefix r s}" by blast
  have pre: "prefix r (t # s) \<longleftrightarrow> r = [] \<or> (\<exists>r'. r = t # r' \<and> prefix r' s)" for r
    by (cases r) auto
  have "(\<lambda>x. if \<exists>r. r \<noteq> [] \<and> prefix r s \<and> x = L1 ! n1 @ r
        then min ((sh(L ! n @ [t] := min (sh (L ! n @ [t])) sc)) x) sc else (sh(L ! n @ [t] := min (sh (L ! n @ [t])) sc)) x)
      = (\<lambda>x. if \<exists>r. r \<noteq> [] \<and> prefix r (t # s) \<and> x = L ! n @ r then min (sh x) sc else sh x)"
  proof (rule ext)
    fix x
    have a: "(\<exists>r. r \<noteq> [] \<and> prefix r (t # s) \<and> x = L ! n @ r) \<longleftrightarrow> x = L ! n @ [t] \<or> (\<exists>r. r \<noteq> [] \<and> prefix r s \<and> x = L1 ! n1 @ r)"
    proof
      assume "\<exists>r. r \<noteq> [] \<and> prefix r (t # s) \<and> x = L ! n @ r"
      then obtain r where "prefix r s" "x = L ! n @ t # r" by (auto simp: pre)
      then show "x = L ! n @ [t] \<or> (\<exists>r. r \<noteq> [] \<and> prefix r s \<and> x = L1 ! n1 @ r)" unfolding L1(4) by (cases "r = []") auto
    next
      assume "x = L ! n @ [t] \<or> (\<exists>r. r \<noteq> [] \<and> prefix r s \<and> x = L1 ! n1 @ r)"
      then obtain r where r: "prefix r s" "x = L ! n @ t # r" unfolding L1(4) by force
      then show "\<exists>r. r \<noteq> [] \<and> prefix r (t # s) \<and> x = L ! n @ r" by (intro exI[of _ "t # r"]) simp
    qed
    show "(if \<exists>r. r \<noteq> [] \<and> prefix r s \<and> x = L1 ! n1 @ r
        then min ((sh(L ! n @ [t] := min (sh (L ! n @ [t])) sc)) x) sc else (sh(L ! n @ [t] := min (sh (L ! n @ [t])) sc)) x)
      = (if \<exists>r. r \<noteq> [] \<and> prefix r (t # s) \<and> x = L ! n @ r then min (sh x) sc else sh x)"
      unfolding a by auto
  qed
  moreover have "set L' = set L \<union> {L ! n @ r |r. prefix r (t # s)}"
  proof -
    have "L ! n \<in> set L" using Cons.prems by (auto simp: trie_over_def)
    then show ?thesis unfolding L'(5) L1(4,5) by (auto simp: pre)
  qed
  ultimately show ?case using L'(1-4) L1(4) by (intro exI[of _ L']) auto
qed

section \<open>What is compiled\<close>

definition short_of :: "bool \<Rightarrow> nat list list \<Rightarrow> nat list \<Rightarrow> nat" where
  "short_of leading ps s =
     fold (\<lambda>p m. if s \<noteq> [] \<and> prefix s p then min m (scored_len leading p) else m) ps usize_max"

lemma insert_seq_ok:
  assumes "trie_over L ns" "trie_data L ns E sh"
  shows "\<exists>L'. trie_over L' (insert_seq leading s ns)
    \<and> trie_data L' (insert_seq leading s ns) (insert s E)
        (\<lambda>x. if x \<noteq> [] \<and> prefix x s then min (sh x) (scored_len leading s) else sh x)
    \<and> set L' = set L \<union> {x. prefix x s}"
proof -
  have root: "0 < length ns" "L ! 0 = []" using assms(1) unfolding trie_over_def by (metis length_greater_0_conv)+
  obtain ns1 n where f: "fold (insert_token (scored_len leading s)) s (ns, 0) = (ns1, n)"
    by (cases "fold (insert_token (scored_len leading s)) s (ns, 0)")
  from insert_tokens_ok[OF assms root(1) f] obtain L' where L': "trie_over L' ns1" "n < length ns1" "L' ! n = s"
    "trie_data L' ns1 E (\<lambda>x. if x \<noteq> [] \<and> prefix x s then min (sh x) (scored_len leading s) else sh x)"
    "set L' = set L \<union> {x. prefix x s}" unfolding root(2) by auto
  have i: "insert_seq leading s ns = ns1[n := (ns1 ! n)\<lparr>is_end := True\<rparr>]" by (simp add: insert_seq_def f)
  have "trie_over L' (insert_seq leading s ns)" unfolding i
    by (rule trie_over_cong[OF L'(1)]) (use L'(2) in \<open>auto simp: nth_list_update\<close>)
  moreover have "trie_data L' (insert_seq leading s ns) (insert s E)
        (\<lambda>x. if x \<noteq> [] \<and> prefix x s then min (sh x) (scored_len leading s) else sh x)"
    unfolding trie_data_def
  proof (intro conjI allI impI)
    fix m assume "m < length (insert_seq leading s ns)"
    then have m: "m < length ns1" by (simp add: i)
    have "L' ! m = s \<longleftrightarrow> m = n" using trie_over_inj[OF L'(1) m L'(2)] L'(3) by auto
    then show "is_end (insert_seq leading s ns ! m) = (L' ! m \<in> insert s E)"
      "shortest_phrase (insert_seq leading s ns ! m)
         = (if L' ! m \<noteq> [] \<and> prefix (L' ! m) s then min (sh (L' ! m)) (scored_len leading s) else sh (L' ! m))"
      "ungranted (insert_seq leading s ns ! m)"
      using m L'(2,4) by (auto simp: i trie_data_def nth_list_update ungranted_def)
  next
    fix x assume x: "x \<notin> set L'"
    then show "(if x \<noteq> [] \<and> prefix x s then min (sh x) (scored_len leading s) else sh x) = usize_max" "x \<notin> insert s E"
      using L'(4,5) unfolding trie_data_def by auto
  qed
  ultimately show ?thesis using L'(5) by blast
qed

lemma insert_seqs_ok:
  assumes "trie_over L ns" "trie_data L ns E sh"
  shows "\<exists>L'. trie_over L' (fold (insert_seq leading) ps ns)
    \<and> trie_data L' (fold (insert_seq leading) ps ns) (set ps \<union> E)
        (\<lambda>x. fold (\<lambda>p m. if x \<noteq> [] \<and> prefix x p then min m (scored_len leading p) else m) ps (sh x))
    \<and> set L' = set L \<union> {x. \<exists>p \<in> set ps. prefix x p}"
  using assms
proof (induction ps arbitrary: L ns E sh)
  case (Cons p ps)
  from insert_seq_ok[OF Cons.prems, of leading p] obtain L1 where L1: "trie_over L1 (insert_seq leading p ns)"
    "trie_data L1 (insert_seq leading p ns) (insert p E)
        (\<lambda>x. if x \<noteq> [] \<and> prefix x p then min (sh x) (scored_len leading p) else sh x)"
    "set L1 = set L \<union> {x. prefix x p}" by blast
  from Cons.IH[OF L1(1,2)] show ?case unfolding L1(3) by (auto simp: Un_assoc)
qed auto

definition share :: "bool \<Rightarrow> rat \<Rightarrow> nat list list \<Rightarrow> nat list \<Rightarrow> rat" where
  "share leading b ps s =
     (if s = [] \<or> leading \<and> length s = 1 then 0 else b / of_nat (max (short_of leading ps s) 1))"

definition compiled :: "nat list list \<Rightarrow> rat \<Rightarrow> bool \<Rightarrow> biaser \<Rightarrow> nat list list \<Rightarrow> bool" where
  "compiled ps b leading bs L \<longleftrightarrow> trie_over L (nodes bs) \<and> boost bs = b
     \<and> set L = insert [] {x. \<exists>p \<in> set ps. prefix x p}
     \<and> (\<forall>n < length (nodes bs). is_end (nodes bs ! n) = (L ! n \<in> set ps)
          \<and> is_entry (nodes bs ! n) = (leading \<and> length (L ! n) = 1)
          \<and> grant (nodes bs ! n) = share leading b ps (L ! n))"

lemma build_compiled:
  assumes "build seqs b leading = Some bs"
  shows "\<exists>L. compiled (filter (\<lambda>s. s \<noteq> []) seqs) b leading bs L"
proof -
  define ps where "ps = filter (\<lambda>s. s \<noteq> []) seqs"
  define ns where "ns = fold (insert_seq leading) ps [node_new 0]"
  have bs: "bs = \<lparr>nodes = hd ns # map (set_grant leading b) (tl ns), boost = b, phrase_count = length ps\<rparr>"
    using assms by (auto simp: build_def Let_def ps_def ns_def split: if_splits)
  have "trie_over [[]] [node_new 0]" "trie_data [[]] [node_new 0] {} (\<lambda>_. usize_max)"
    by (auto simp: trie_over_def trie_data_def node_new_def ungranted_def)
  from insert_seqs_ok[OF this, of leading ps] obtain L where L: "trie_over L ns"
    "trie_data L ns (set ps) (short_of leading ps)" "set L = insert [] {x. \<exists>p \<in> set ps. prefix x p}"
    unfolding ns_def[symmetric] short_of_def[abs_def] by auto
  have ne: "ns \<noteq> []" "L ! 0 = []" using L(1) unfolding trie_over_def by auto
  have nth: "nodes bs ! n = (if n = 0 then ns ! 0 else set_grant leading b (ns ! n))" if "n < length ns" for n
    using that ne by (cases ns) (auto simp: bs nth_Cons')
  have len: "length (nodes bs) = length ns" using ne by (simp add: bs)
  have t: "trie_over L (nodes bs)"
    by (rule trie_over_cong[OF L(1) len]) (simp add: nth set_grant_def Let_def)
  have root: "is_entry (ns ! 0) = False \<and> grant (ns ! 0) = 0"
    using L(2) ne unfolding trie_data_def ungranted_def by auto
  have dep: "depth (ns ! n) = length (L ! n)" if "n < length ns" for n using L(1) that unfolding trie_over_def by blast
  have inj: "L ! n \<noteq> []" if "n < length ns" "n \<noteq> 0" for n
    using trie_over_inj[OF L(1) that(1), of 0] that ne by auto
  have "compiled ps b leading bs L" unfolding compiled_def
  proof (intro conjI allI impI)
    fix n assume "n < length (nodes bs)"
    then have n: "n < length ns" by (simp add: len)
    show "is_end (nodes bs ! n) = (L ! n \<in> set ps)"
      using L(2) n ne(1) by (cases "n = 0") (auto simp: nth trie_data_def set_grant_def Let_def)
    show "is_entry (nodes bs ! n) = (leading \<and> length (L ! n) = 1)"
      using n dep[OF n] root ne by (simp add: nth set_grant_def Let_def)
    show "grant (nodes bs ! n) = share leading b ps (L ! n)"
      using n dep[OF n] root ne inj[OF n] L(2) by (auto simp: nth set_grant_def Let_def share_def trie_data_def)
  qed (use t L(3) in \<open>simp_all add: bs\<close>)
  then show ?thesis by (auto simp: ps_def)
qed

lemma compiled_root:
  assumes "compiled ps b leading bs L"
  shows "0 < length (nodes bs)" and "L ! 0 = []" and "length L = length (nodes bs)"
proof -
  have t: "trie_over L (nodes bs)" using assms by (simp add: compiled_def)
  then show "0 < length (nodes bs)" "L ! 0 = []" "length L = length (nodes bs)"
    unfolding trie_over_def by (metis length_greater_0_conv)+
qed

lemma compiled_child:
  assumes "compiled ps b leading bs L" "n < length (nodes bs)"
  shows "map_of (children (nodes bs ! n)) t = Some c \<longleftrightarrow> c < length (nodes bs) \<and> L ! c = L ! n @ [t]"
    and "map_of (children (nodes bs ! n)) t = None \<longleftrightarrow> \<not> (\<exists>p \<in> set ps. prefix (L ! n @ [t]) p)"
proof -
  have t: "trie_over L (nodes bs)" using assms by (simp add: compiled_def)
  show "map_of (children (nodes bs ! n)) t = Some c \<longleftrightarrow> c < length (nodes bs) \<and> L ! c = L ! n @ [t]"
    by (rule trie_over_edge(1)[OF t assms(2)])
  have "set L = insert [] {x. \<exists>p \<in> set ps. prefix x p}" using assms(1) by (simp add: compiled_def)
  then show "map_of (children (nodes bs ! n)) t = None \<longleftrightarrow> \<not> (\<exists>p \<in> set ps. prefix (L ! n @ [t]) p)"
    using trie_over_edge(2)[OF t assms(2), of t] by simp
qed

lemma compiled_node:
  assumes "compiled ps b leading bs L" "n < length (nodes bs)"
  shows "is_end (nodes bs ! n) = (L ! n \<in> set ps)" "is_entry (nodes bs ! n) = (leading \<and> length (L ! n) = 1)"
    "grant (nodes bs ! n) = share leading b ps (L ! n)"
  using assms by (simp_all add: compiled_def)

section \<open>The active prefixes\<close>

definition active_ok :: "nat list list \<Rightarrow> nat list \<Rightarrow> bias_state \<Rightarrow> bool" where
  "active_ok L ts st \<longleftrightarrow> distinct (active st) \<and> set (active st) = {n. n < length L \<and> suffix (L ! n) ts}"

lemma advance_nodes:
  "distinct acc \<Longrightarrow> distinct (fold (advance_node bs t) ns acc)"
  "set (fold (advance_node bs t) ns acc) = set acc \<union> {c. \<exists>n \<in> set ns. map_of (children (nodes bs ! n)) t = Some c}"
proof -
  show "distinct acc \<Longrightarrow> distinct (fold (advance_node bs t) ns acc)"
    by (induction ns arbitrary: acc) (auto simp: advance_node_def split: option.split)
  show "set (fold (advance_node bs t) ns acc) = set acc \<union> {c. \<exists>n \<in> set ns. map_of (children (nodes bs ! n)) t = Some c}"
    by (induction ns arbitrary: acc) (auto simp: advance_node_def simp del: map_of_eq_Some_iff split: option.split)
qed

lemma suffix_snoc: "suffix s (ts @ [t]) \<longleftrightarrow> s = [] \<or> (\<exists>q. s = q @ [t] \<and> suffix q ts)"
  by (cases s rule: rev_cases) auto

lemma advance_ok:
  assumes c: "compiled ps b leading bs L" and a: "active_ok L ts st"
  shows "active_ok L (ts @ [t]) (advance bs st t)"
proof -
  have len: "length L = length (nodes bs)" and root: "0 < length (nodes bs)" "L ! 0 = []"
    using compiled_root[OF c] by simp_all
  have t: "trie_over L (nodes bs)" using c by (simp add: compiled_def)
  define nxt where "nxt = fold (advance_node bs t) (active st) []"
  have set: "set nxt = {c. c < length L \<and> (\<exists>n < length L. suffix (L ! n) ts \<and> L ! c = L ! n @ [t])}"
    using a compiled_child(1)[OF c] unfolding nxt_def advance_nodes(2) active_ok_def len by auto
  have "{c. c < length L \<and> suffix (L ! c) (ts @ [t])} = insert 0 (set nxt)"
  proof (intro equalityI subsetI)
    fix k assume k: "k \<in> {c. c < length L \<and> suffix (L ! c) (ts @ [t])}"
    show "k \<in> insert 0 (set nxt)"
    proof (cases "L ! k = []")
      case True
      then show ?thesis using trie_over_inj[OF t, of k 0] k root len by simp
    next
      case False
      then obtain q where q: "L ! k = q @ [t]" "suffix q ts" using k by (auto simp: suffix_snoc)
      have "q @ [t] \<in> set L" using k q by (metis mem_Collect_eq nth_mem)
      then have "q \<in> set L" using t unfolding trie_over_def by blast
      then obtain n where "n < length L" "L ! n = q" by (auto simp: in_set_conv_nth)
      then show ?thesis using k q set by auto
    qed
  next
    fix k assume "k \<in> insert 0 (set nxt)"
    then show "k \<in> {c. c < length L \<and> suffix (L ! c) (ts @ [t])}" using root len set by (auto simp: suffix_snoc)
  qed
  moreover have "distinct nxt" unfolding nxt_def by (rule advance_nodes(1)) simp
  ultimately show ?thesis by (auto simp: active_ok_def advance_def nxt_def[symmetric] Let_def)
qed

definition greedy_run :: "biaser \<Rightarrow> nat list \<Rightarrow> bias_state" where
  "greedy_run bs ts = fold (\<lambda>t st. advance bs st t) ts bias_state_new"

lemma greedy_run_ok:
  assumes c: "compiled ps b leading bs L"
  shows "active_ok L ts (greedy_run bs ts)"
proof (induction ts rule: rev_induct)
  case Nil
  have t: "trie_over L (nodes bs)" using c by (simp add: compiled_def)
  then show ?case using compiled_root[OF c] trie_over_inj[OF t, of _ 0]
    by (auto simp: active_ok_def greedy_run_def bias_state_new_def)
next
  case (snoc t ts)
  then show ?case using advance_ok[OF c snoc] by (simp add: greedy_run_def)
qed

section \<open>What the boost adds\<close>

definition boosted :: "biaser \<Rightarrow> nat \<Rightarrow> nat \<Rightarrow> bool" where
  "boosted bs i n = (case map_of (children (nodes bs ! n)) i of Some c \<Rightarrow> \<not> is_entry (nodes bs ! c) | None \<Rightarrow> False)"

lemma boost_edges:
  assumes "distinct (map fst kvs)"
  shows "length (fold (boost_edge bs) kvs xs) = length xs"
    and "i < length xs \<Longrightarrow> fold (boost_edge bs) kvs xs ! i
      = xs ! i + (case map_of kvs i of Some c \<Rightarrow> if is_entry (nodes bs ! c) then 0 else boost bs | None \<Rightarrow> 0)"
proof -
  have one: "length (boost_edge bs kv xs) = length xs" for kv xs by (cases kv) (simp add: boost_edge_def)
  show "length (fold (boost_edge bs) kvs xs) = length xs" by (induction kvs arbitrary: xs) (simp_all add: one)
  show "i < length xs \<Longrightarrow> fold (boost_edge bs) kvs xs ! i
      = xs ! i + (case map_of kvs i of Some c \<Rightarrow> if is_entry (nodes bs ! c) then 0 else boost bs | None \<Rightarrow> 0)"
    using assms
  proof (induction kvs arbitrary: xs)
    case (Cons kv kvs)
    obtain k c where kv: "kv = (k, c)" by (cases kv)
    have "map_of kvs k = None" using Cons.prems kv by (simp add: map_of_eq_None_iff)
    then show ?case using Cons.IH[of "boost_edge bs kv xs"] Cons.prems kv one
      by (auto simp: boost_edge_def nth_list_update)
  qed simp
qed

lemma boost_nodes:
  assumes "\<And>n. n \<in> set ns \<Longrightarrow> distinct (map fst (children (nodes bs ! n)))"
  shows "length (fold (\<lambda>n. fold (boost_edge bs) (children (nodes bs ! n))) ns xs) = length xs"
    and "i < length xs \<Longrightarrow> fold (\<lambda>n. fold (boost_edge bs) (children (nodes bs ! n))) ns xs ! i
      = xs ! i + boost bs * of_nat (length (filter (boosted bs i) ns))"
proof -
  show "length (fold (\<lambda>n. fold (boost_edge bs) (children (nodes bs ! n))) ns xs) = length xs"
    using assms by (induction ns arbitrary: xs) (simp_all add: boost_edges(1))
  show "i < length xs \<Longrightarrow> fold (\<lambda>n. fold (boost_edge bs) (children (nodes bs ! n))) ns xs ! i
      = xs ! i + boost bs * of_nat (length (filter (boosted bs i) ns))"
    using assms
  proof (induction ns arbitrary: xs)
    case (Cons n ns)
    have d: "distinct (map fst (children (nodes bs ! n)))" using Cons.prems by simp
    show ?case using Cons.IH[of "fold (boost_edge bs) (children (nodes bs ! n)) xs"] Cons.prems boost_edges(1)[OF d, of bs xs] boost_edges(2)[OF d, of _ xs bs]
      by (auto simp: boosted_def algebra_simps split: option.splits)
  qed simp
qed

text \<open>
  The reference: how many suffixes of the emitted tokens (the empty one included) extend by the
  token to the beginning of some phrase; the marker that opens a phrase does not count.
\<close>

definition bonus_count :: "bool \<Rightarrow> nat list list \<Rightarrow> nat list \<Rightarrow> nat \<Rightarrow> nat" where
  "bonus_count leading ps ts t =
     length (filter (\<lambda>s. list_ex (prefix (s @ [t])) ps \<and> \<not> (leading \<and> s = [])) (suffixes ts))"

lemma boosted_iff:
  assumes c: "compiled ps b leading bs L" and n: "n < length (nodes bs)"
  shows "boosted bs t n \<longleftrightarrow> list_ex (prefix (L ! n @ [t])) ps \<and> \<not> (leading \<and> L ! n = [])"
proof (cases "map_of (children (nodes bs ! n)) t")
  case None
  then show ?thesis using compiled_child(2)[OF c n, of t] by (auto simp: boosted_def list_ex_iff)
next
  case (Some k)
  then have k: "k < length (nodes bs)" "L ! k = L ! n @ [t]" using compiled_child(1)[OF c n] by blast+
  show ?thesis using Some compiled_child(2)[OF c n, of t] compiled_node(2)[OF c k(1)] k(2)
    by (auto simp: boosted_def list_ex_iff)
qed

lemma bonus_count_active:
  assumes c: "compiled ps b leading bs L" and a: "active_ok L ts st"
  shows "length (filter (boosted bs t) (active st)) = bonus_count leading ps ts t"
proof -
  let ?Q = "\<lambda>s. list_ex (prefix (s @ [t])) ps \<and> \<not> (leading \<and> s = [])"
  have len: "length L = length (nodes bs)" using compiled_root[OF c] by simp
  have d: "distinct (active st)" and s: "set (active st) = {n. n < length L \<and> suffix (L ! n) ts}"
    using a by (simp_all add: active_ok_def)
  have set: "set L = insert [] {x. \<exists>p \<in> set ps. prefix x p}" using c by (simp add: compiled_def)
  have "(\<lambda>n. L ! n) ` {n \<in> set (active st). boosted bs t n} = {x \<in> set (suffixes ts). ?Q x}"
  proof (intro equalityI subsetI)
    fix x assume "x \<in> (\<lambda>n. L ! n) ` {n \<in> set (active st). boosted bs t n}"
    then show "x \<in> {x \<in> set (suffixes ts). ?Q x}" using boosted_iff[OF c] s len by auto
  next
    fix x assume x: "x \<in> {x \<in> set (suffixes ts). ?Q x}"
    then obtain p where "p \<in> set ps" "prefix (x @ [t]) p" by (auto simp: list_ex_iff)
    then have "x \<in> set L" using set append_prefixD by blast
    then obtain n where n: "n < length L" "L ! n = x" by (auto simp: in_set_conv_nth)
    then have "n \<in> {n \<in> set (active st). boosted bs t n}" using x boosted_iff[OF c, of n t] s len by auto
    then show "x \<in> (\<lambda>n. L ! n) ` {n \<in> set (active st). boosted bs t n}" using n by blast
  qed
  moreover have "inj_on (\<lambda>n. L ! n) {n \<in> set (active st). boosted bs t n}"
    using c s unfolding compiled_def trie_over_def by (auto simp: inj_on_def nth_eq_iff_index_eq)
  ultimately have "card {n \<in> set (active st). boosted bs t n} = card {x \<in> set (suffixes ts). ?Q x}"
    by (metis card_image)
  moreover have "card {n \<in> set (active st). boosted bs t n} = length (filter (boosted bs t) (active st))"
    using distinct_card[OF distinct_filter[OF d], of "boosted bs t"] by simp
  moreover have "card {x \<in> set (suffixes ts). ?Q x} = length (filter ?Q (suffixes ts))"
    using distinct_card[OF distinct_filter[OF distinct_suffixes[of ts]], of ?Q] by simp
  ultimately show ?thesis by (simp add: bonus_count_def)
qed

lemma boost_logits_map:
  assumes "build seqs b leading = Some bs"
  shows "boost_logits bs (greedy_run bs ts) logits
    = map (\<lambda>(t, x). x + b * of_nat (bonus_count leading (filter (\<lambda>s. s \<noteq> []) seqs) ts t)) (enumerate 0 logits)"
proof -
  from build_compiled[OF assms] obtain L where c: "compiled (filter (\<lambda>s. s \<noteq> []) seqs) b leading bs L" by blast
  have a: "active_ok L ts (greedy_run bs ts)" by (rule greedy_run_ok[OF c])
  have "distinct (map fst (children (nodes bs ! n)))" if "n \<in> set (active (greedy_run bs ts))" for n
    using that a c compiled_root(3)[OF c] unfolding active_ok_def compiled_def trie_over_def by auto
  note bn = boost_nodes[OF this, of "active (greedy_run bs ts)", simplified]
  have b: "boost bs = b" using c by (simp add: compiled_def)
  show ?thesis unfolding boost_logits_def
    by (rule nth_equalityI) (simp_all add: bn b bonus_count_active[OF c a] nth_enumerate_eq)
qed

section \<open>The accounting of the beam\<close>

definition score_step :: "biaser \<Rightarrow> nat \<Rightarrow> rat \<times> bias_path \<Rightarrow> rat \<times> bias_path" where
  "score_step bs t = (\<lambda>(gain, p). let (delta, p') = score_token bs p t in (gain + delta, p'))"

definition score_run :: "biaser \<Rightarrow> nat list \<Rightarrow> rat \<times> bias_path" where
  "score_run bs ts = fold (score_step bs) ts (0, path_default)"

lemma short_of_le:
  assumes "p \<in> set ps" "s \<noteq> []" "prefix s p"
  shows "short_of leading ps s \<le> scored_len leading p"
proof -
  let ?f = "\<lambda>p m. if s \<noteq> [] \<and> prefix s p then min m (scored_len leading p) else m"
  have dec: "fold ?f qs m \<le> m" for qs m
  proof (induction qs arbitrary: m)
    case (Cons q qs)
    then show ?case using Cons[of m] Cons[of "min m (scored_len leading q)"] by (auto intro: order_trans)
  qed simp
  have "p \<in> set qs \<Longrightarrow> fold ?f qs m \<le> scored_len leading p" for qs m
  proof (induction qs arbitrary: m)
    case (Cons q qs)
    then show ?case using dec[of qs "min m (scored_len leading p)"] assms(2,3) by (cases "p = q") auto
  qed simp
  then show ?thesis using assms(1) by (simp add: short_of_def)
qed

lemma share_nonneg: "0 < b \<Longrightarrow> 0 \<le> share leading b ps s"
  by (simp add: share_def)

lemma share_ge:
  assumes "0 < b" "p \<in> set ps" "prefix s p" "s \<noteq> []" "leading \<Longrightarrow> length s \<noteq> 1"
  shows "b / of_nat (scored_len leading p) \<le> share leading b ps s"
proof -
  have "max (short_of leading ps s) 1 \<le> scored_len leading p"
    using short_of_le[OF assms(2,4,3), of leading] by (simp add: scored_len_def)
  then have le: "(of_nat (max (short_of leading ps s) 1) :: rat) \<le> of_nat (scored_len leading p)" by simp
  have pos: "(0::rat) < of_nat (max (short_of leading ps s) 1)" by simp
  have "b / of_nat (scored_len leading p) \<le> b / of_nat (max (short_of leading ps s) 1)"
    using assms(1) le pos by (intro divide_left_mono mult_pos_pos) auto
  then show ?thesis using assms(4,5) by (auto simp: share_def)
qed

definition path_ok :: "nat list list \<Rightarrow> nat list list \<Rightarrow> nat list \<Rightarrow> rat \<times> bias_path \<Rightarrow> bool" where
  "path_ok ps L ts = (\<lambda>(gain, p). path_node p < length L \<and> suffix (L ! path_node p) ts
     \<and> 0 \<le> pending p \<and> pending p \<le> gain \<and> (list_ex (\<lambda>q. sublist q ts) ps \<or> gain = pending p))"

lemma score_child:
  assumes c: "compiled ps b leading bs L" and b: "0 < b"
    and from_ok: "path_node p0 < length L" "suffix (L ! path_node p0) ts" "0 \<le> pending p0" "pending p0 \<le> gain"
      "list_ex (\<lambda>q. sublist q ts) ps \<or> gain = pending p0"
    and e: "map_of (children (nodes bs ! path_node p0)) t = Some k" and en: "enter bs p0 k = (delta, p')"
  shows "path_ok ps L (ts @ [t]) (gain + delta, p')"
proof -
  have len: "length L = length (nodes bs)" using compiled_root[OF c] by simp
  have k: "k < length (nodes bs)" "L ! k = L ! path_node p0 @ [t]"
    using compiled_child(1)[OF c, of "path_node p0"] from_ok(1) e len by auto
  have sx: "suffix (L ! k) (ts @ [t])" using from_ok(2) by (auto simp: k(2) suffix_snoc)
  have g: "delta = grant (nodes bs ! k)" "path_node p' = k"
    "pending p' = (if is_end (nodes bs ! k) then 0 else pending p0 + grant (nodes bs ! k))"
    using en by (auto simp: enter_def Let_def)
  have nn: "0 \<le> grant (nodes bs ! k)" using compiled_node(3)[OF c k(1)] share_nonneg[OF b] by simp
  have ex: "list_ex (\<lambda>q. sublist q ts) ps \<Longrightarrow> list_ex (\<lambda>q. sublist q (ts @ [t])) ps"
    by (auto simp: list_ex_iff sublist_append_rightI intro: sublist_order.order_trans)
  have fin: "is_end (nodes bs ! k) \<Longrightarrow> list_ex (\<lambda>q. sublist q (ts @ [t])) ps"
    using compiled_node(1)[OF c k(1)] suffix_imp_sublist[OF sx] unfolding list_ex_iff by blast
  show ?thesis using k(1) len sx g nn from_ok(3-5) ex fin by (auto simp: path_ok_def)
qed

lemma score_step_ok:
  assumes c: "compiled ps b leading bs L" and b: "0 < b" and ok: "path_ok ps L ts s"
  shows "path_ok ps L (ts @ [t]) (score_step bs t s)"
proof -
  obtain gain p where s: "s = (gain, p)" by (cases s)
  note ok = ok[unfolded s path_ok_def, simplified]
  have root: "0 < length L" "L ! 0 = []" using compiled_root[OF c] by simp_all
  show ?thesis
  proof (cases "map_of (children (nodes bs ! path_node p)) t")
    case (Some k)
    obtain d p' where e: "enter bs p k = (d, p')" by (cases "enter bs p k")
    from score_child[OF c b _ _ _ _ _ Some e] ok show ?thesis using Some e by (simp add: s score_step_def score_token_def)
  next
    case None
    show ?thesis
    proof (cases "map_of (children (nodes bs ! 0)) t")
      case (Some k)
      obtain d p' where e: "enter bs path_default k = (d, p')" by (cases "enter bs path_default k")
      have pd: "path_node path_default = 0" "pending path_default = 0" by (simp_all add: path_default_def)
      have "path_ok ps L (ts @ [t]) ((gain - pending p) + d, p')"
        by (rule score_child[OF c b _ _ _ _ _ _ e]) (use Some root ok pd in auto)
      then show ?thesis using None Some e by (simp add: s score_step_def score_token_def algebra_simps)
    next
      case none: None
      have ex: "list_ex (\<lambda>q. sublist q ts) ps \<Longrightarrow> list_ex (\<lambda>q. sublist q (ts @ [t])) ps"
        by (auto simp: list_ex_iff sublist_append_rightI intro: sublist_order.order_trans)
      show ?thesis using None none ok root ex
        by (auto simp: s score_step_def score_token_def path_ok_def path_default_def)
    qed
  qed
qed

lemma score_run_ok:
  assumes c: "compiled ps b leading bs L" and b: "0 < b"
  shows "path_ok ps L ts (score_run bs ts)"
proof (induction ts rule: rev_induct)
  case Nil
  show ?case using compiled_root[OF c] by (simp add: path_ok_def score_run_def path_default_def)
next
  case (snoc t ts)
  then show ?case using score_step_ok[OF c b snoc, of t] by (simp add: score_run_def)
qed

lemma score_along_phrase:
  assumes c: "compiled ps b leading bs L" and p: "p \<in> set ps" and k: "k \<le> length p"
  shows "\<exists>q. score_run bs (take k p) = ((\<Sum>i = 1..k. share leading b ps (take i p)), q)
    \<and> path_node q < length L \<and> L ! path_node q = take k p \<and> (take k p \<in> set ps \<longrightarrow> k \<noteq> 0 \<longrightarrow> pending q = 0)"
  using k
proof (induction k)
  case 0
  then show ?case using compiled_root[OF c] by (simp add: score_run_def path_default_def)
next
  case (Suc k)
  then obtain q where q: "score_run bs (take k p) = ((\<Sum>i = 1..k. share leading b ps (take i p)), q)"
    "path_node q < length L" "L ! path_node q = take k p" by auto
  have len: "length L = length (nodes bs)" using compiled_root[OF c] by simp
  have tk: "take (Suc k) p = take k p @ [p ! k]" using Suc.prems by (simp add: take_Suc_conv_app_nth)
  have "\<exists>x \<in> set ps. prefix (L ! path_node q @ [p ! k]) x"
    using p take_is_prefix[of "Suc k" p] unfolding q(3) tk[symmetric] by blast
  then obtain m where m: "map_of (children (nodes bs ! path_node q)) (p ! k) = Some m"
    using compiled_child(2)[OF c, of "path_node q" "p ! k"] q(2) len by auto
  then have m': "m < length (nodes bs)" "L ! m = take (Suc k) p"
    using compiled_child(1)[OF c, of "path_node q"] q len tk by auto
  have "score_run bs (take (Suc k) p) = score_step bs (p ! k) (score_run bs (take k p))"
    by (simp add: tk score_run_def)
  also have "\<dots> = ((\<Sum>i = 1..Suc k. share leading b ps (take i p)),
      \<lparr>path_node = m, pending = (if is_end (nodes bs ! m) then 0 else pending q + grant (nodes bs ! m))\<rparr>)"
    using compiled_node(3)[OF c m'(1)] m m'(2) by (simp add: q(1) score_step_def score_token_def enter_def Let_def)
  finally show ?case using m' len compiled_node(1)[OF c m'(1)] by auto
qed

lemma phrase_earns:
  assumes "0 < b" "p \<in> set ps" "p \<noteq> []" "leading \<Longrightarrow> 2 \<le> length p"
  shows "b \<le> (\<Sum>i = 1..length p. share leading b ps (take i p))"
proof -
  define lo where "lo = (if leading then 2 else 1 :: nat)"
  have lo: "lo \<le> length p" "1 \<le> lo" "scored_len leading p = length p - lo + 1"
    using assms(3,4) by (auto simp: lo_def scored_len_def Suc_le_eq)
  have "b = (\<Sum>i = lo..length p. b / of_nat (scored_len leading p))"
    using lo by (simp add: Suc_diff_le)
  also have "\<dots> \<le> (\<Sum>i = lo..length p. share leading b ps (take i p))"
  proof (rule sum_mono)
    fix i assume i: "i \<in> {lo..length p}"
    then have "leading \<Longrightarrow> length (take i p) \<noteq> 1" "take i p \<noteq> []" using lo assms(3) by (auto simp: lo_def)
    then show "b / of_nat (scored_len leading p) \<le> share leading b ps (take i p)"
      by (intro share_ge[OF assms(1,2)]) (auto simp: take_is_prefix)
  qed
  also have "\<dots> \<le> (\<Sum>i = 1..length p. share leading b ps (take i p))"
    by (rule sum_mono2) (use lo share_nonneg[OF assms(1)] in auto)
  finally show ?thesis .
qed

text \<open>
  C18: the greedy bias is the reference. For every list of token sequences that compiles to a
  biaser, after any tokens the decoder has emitted, the boost added to the logit of a token is
  the configured boost times the number of suffixes of the emitted tokens which that token
  extends to the beginning of some phrase, the bare opening marker left out; every other logit is
  unchanged. So no hotword start is missed, however phrases overlap.
\<close>
theorem greedy_bias_matches_suffixes:
  assumes "build seqs b leading = Some bs"
  shows "boost_logits bs (greedy_run bs ts) logits
    = map (\<lambda>(t, x). x + b * of_nat (bonus_count leading (filter (\<lambda>s. s \<noteq> []) seqs) ts t)) (enumerate 0 logits)"
  by (rule boost_logits_map[OF assms])

definition demo_phrases :: "nat list list" where
  "demo_phrases = [[0, 1], [0, 1, 2, 3], [0, 4]]"

lemma greedy_bias_matches_suffixes_witness:
  "\<exists>bs. build demo_phrases 3 True = Some bs
     \<and> boost_logits bs (greedy_run bs [5, 0, 1, 0]) [0, 1, 2, 0, 7] = [0, 4, 2, 0, 10]"
proof -
  obtain bs where bs: "build demo_phrases 3 True = Some bs"
    by (simp add: build_def demo_phrases_def Let_def)
  have "boost_logits bs (greedy_run bs [5, 0, 1, 0]) [0, 1, 2, 0, 7] = [0, 4, 2, 0, 10]"
    using greedy_bias_matches_suffixes[OF bs, of "[5, 0, 1, 0]" "[0, 1, 2, 0, 7]"]
    by (simp add: demo_phrases_def bonus_count_def)
  then show ?thesis using bs by blast
qed

text \<open>
  C35: only spoken hotwords pay. For a positive boost, whatever tokens a beam hypothesis emits,
  the boost it still owes is between nothing and all it was granted; if no phrase occurs in the
  tokens it owes all of it back, so its settled score is not changed by the glossary. A hypothesis
  that emits a phrase from the start keeps at least the whole boost and owes nothing, except that
  a phrase which is one token long under a leading marker earns nothing at all.
\<close>
theorem beam_bias_accounting:
  assumes "build seqs b leading = Some bs" and "0 < b"
  shows "0 \<le> pending (snd (score_run bs ts)) \<and> pending (snd (score_run bs ts)) \<le> fst (score_run bs ts)
    \<and> (\<not> list_ex (\<lambda>p. p \<noteq> [] \<and> sublist p ts) seqs \<longrightarrow> fst (score_run bs ts) = pending (snd (score_run bs ts)))
    \<and> (p \<in> set seqs \<and> p \<noteq> [] \<and> (leading \<longrightarrow> 2 \<le> length p)
        \<longrightarrow> b \<le> fst (score_run bs p) \<and> pending (snd (score_run bs p)) = 0)
    \<and> (leading \<and> [t] \<in> set seqs \<longrightarrow> fst (score_run bs [t]) = 0)"
proof -
  let ?ps = "filter (\<lambda>s. s \<noteq> []) seqs"
  from build_compiled[OF assms(1)] obtain L where c: "compiled ?ps b leading bs L" by blast
  have a: "path_ok ?ps L ts (score_run bs ts)" by (rule score_run_ok[OF c assms(2)])
  have "list_ex (\<lambda>q. sublist q ts) ?ps \<longleftrightarrow> list_ex (\<lambda>p. p \<noteq> [] \<and> sublist p ts) seqs" by (auto simp: list_ex_iff)
  moreover have "b \<le> fst (score_run bs p) \<and> pending (snd (score_run bs p)) = 0"
    if p: "p \<in> set seqs \<and> p \<noteq> [] \<and> (leading \<longrightarrow> 2 \<le> length p)"
  proof -
    have "p \<in> set ?ps" using p by simp
    from score_along_phrase[OF c this, of "length p"] phrase_earns[OF assms(2) this, of leading] p
    show ?thesis by auto
  qed
  moreover have "fst (score_run bs [t]) = 0" if t: "leading \<and> [t] \<in> set seqs"
  proof -
    have "[t] \<in> set ?ps" using t by simp
    from score_along_phrase[OF c this, of 1] t show ?thesis by (auto simp: share_def)
  qed
  ultimately show ?thesis using a by (auto simp: path_ok_def split: prod.splits)
qed

lemma beam_bias_accounting_witness:
  "\<exists>bs. build demo_phrases 3 True = Some bs \<and> score_run bs [5, 0, 6] = (0, path_default)
     \<and> fst (score_run bs [5, 0, 6]) = pending (snd (score_run bs [5, 0, 6]))
     \<and> 3 \<le> fst (score_run bs [0, 1, 2, 3])"
proof -
  obtain bs where bs: "build demo_phrases 3 True = Some bs"
    by (simp add: build_def demo_phrases_def Let_def)
  have n: "\<not> list_ex (\<lambda>p. p \<noteq> [] \<and> sublist p [5, 0, 6]) demo_phrases"
    by (simp add: demo_phrases_def sublist_Cons_right)
  have "fst (score_run bs [5, 0, 6]) = pending (snd (score_run bs [5, 0, 6])) \<and> 3 \<le> fst (score_run bs [0, 1, 2, 3])"
    using beam_bias_accounting[OF bs, of "[5, 0, 6]" "[0, 1, 2, 3]"] n by (simp add: demo_phrases_def)
  moreover have "score_run bs [5, 0, 6] = (0, path_default)"
    using bs by (auto simp: build_def demo_phrases_def Let_def insert_seq_def insert_token_def node_new_def set_grant_def
        scored_len_def score_run_def score_step_def score_token_def enter_def path_default_def)
  ultimately show ?thesis using bs by blast
qed

text \<open>
  Two consequences of the accounting that the documentation does not mention. A phrase that
  continues a shorter one earns more than the boost (here 5 instead of 3): its first tokens are
  paid by the length of the shorter phrase. And the beam keeps a single path where the greedy
  decoder keeps every suffix, so a phrase that starts inside an abandoned longer one is missed:
  of the phrases \<open>0 1 0 2\<close> and \<open>0 3\<close>, the tokens \<open>0 1 0 3\<close> contain the second and earn nothing.
\<close>

lemma longer_phrase_earns_more:
  "map_option (\<lambda>bs. fst (score_run bs [0, 1, 2, 3])) (build demo_phrases 3 True) = Some 5"
  by (simp add: build_def demo_phrases_def Let_def insert_seq_def insert_token_def node_new_def set_grant_def
      scored_len_def score_run_def score_step_def score_token_def enter_def path_default_def usize_max_def)

lemma beam_misses_inner_phrase:
  "map_option (\<lambda>bs. fst (score_run bs [0, 1, 0, 3])) (build [[0, 1, 0, 2], [0, 3]] 3 True) = Some 0"
  by (simp add: build_def Let_def insert_seq_def insert_token_def node_new_def set_grant_def
      scored_len_def score_run_def score_step_def score_token_def enter_def path_default_def usize_max_def)

end
