(* ===== verification/Itn.thy ===== *)
theory Itn
  imports Export
begin

text \<open>
  Inverse text normalization of \<open>itn.rs\<close>: Russian number words become digits. The table holds the
  inflected forms of the source, as lists of Unicode scalar values. Of \<open>to_lowercase\<close> only its
  effect on ASCII and Cyrillic letters is kept: no other character has one of the letters of
  the table as its lower case, so the lookup is the same. All values stay far below the range
  of a 64-bit integer and are natural numbers.
\<close>

section \<open>Number words\<close>

definition UNIT :: nat where "UNIT = 1"
definition TEEN :: nat where "TEEN = 10"
definition TEN :: nat where "TEN = 10"
definition HUNDRED :: nat where "HUNDRED = 100"
definition THOUSAND :: nat where "THOUSAND = 1000"
definition MILLION :: nat where "MILLION = 1000000"

definition number_forms :: "(nat \<times> nat \<times> ustring list) list" where
  "number_forms = [
     (0, UNIT, [[1085, 1086, 1083, 1100], [1085, 1086, 1083, 1103], [1085, 1086, 1083, 1102], [1085, 1086, 1083, 1077, 1084], [1085, 1086, 1083, 1105, 1084], [1085, 1086, 1083, 1077]]),
     (1, UNIT, [[1086, 1076, 1080, 1085], [1086, 1076, 1085, 1072], [1086, 1076, 1085, 1086], [1086, 1076, 1085, 1086, 1075, 1086], [1086, 1076, 1085, 1086, 1081], [1086, 1076, 1085, 1086, 1084, 1091], [1086, 1076, 1085, 1086, 1084], [1086, 1076, 1085, 1080, 1084]]),
     (2, UNIT, [[1076, 1074, 1072], [1076, 1074, 1077], [1076, 1074, 1091, 1093], [1076, 1074, 1091, 1084], [1076, 1074, 1091, 1084, 1103]]),
     (3, UNIT, [[1090, 1088, 1080], [1090, 1088, 1077, 1093], [1090, 1088, 1105, 1093], [1090, 1088, 1077, 1084], [1090, 1088, 1105, 1084], [1090, 1088, 1077, 1084, 1103]]),
     (4, UNIT, [[1095, 1077, 1090, 1099, 1088, 1077], [1095, 1077, 1090, 1099, 1088, 1105, 1093], [1095, 1077, 1090, 1099, 1088, 1077, 1093], [1095, 1077, 1090, 1099, 1088, 1105, 1084], [1095, 1077, 1090, 1099, 1088, 1077, 1084], [1095, 1077, 1090, 1099, 1088, 1100, 1084, 1103]]),
     (5, UNIT, [[1087, 1103, 1090, 1100], [1087, 1103, 1090, 1080], [1087, 1103, 1090, 1100, 1102]]),
     (6, UNIT, [[1096, 1077, 1089, 1090, 1100], [1096, 1077, 1089, 1090, 1080], [1096, 1077, 1089, 1090, 1100, 1102]]),
     (7, UNIT, [[1089, 1077, 1084, 1100], [1089, 1077, 1084, 1080], [1089, 1077, 1084, 1100, 1102]]),
     (8, UNIT, [[1074, 1086, 1089, 1077, 1084, 1100], [1074, 1086, 1089, 1100, 1084, 1080], [1074, 1086, 1089, 1100, 1084, 1100, 1102]]),
     (9, UNIT, [[1076, 1077, 1074, 1103, 1090, 1100], [1076, 1077, 1074, 1103, 1090, 1080], [1076, 1077, 1074, 1103, 1090, 1100, 1102]]),
     (10, TEEN, [[1076, 1077, 1089, 1103, 1090, 1100], [1076, 1077, 1089, 1103, 1090, 1080], [1076, 1077, 1089, 1103, 1090, 1100, 1102]]),
     (11, TEEN, [[1086, 1076, 1080, 1085, 1085, 1072, 1076, 1094, 1072, 1090, 1100], [1086, 1076, 1080, 1085, 1085, 1072, 1076, 1094, 1072, 1090, 1080]]),
     (12, TEEN, [[1076, 1074, 1077, 1085, 1072, 1076, 1094, 1072, 1090, 1100], [1076, 1074, 1077, 1085, 1072, 1076, 1094, 1072, 1090, 1080]]),
     (13, TEEN, [[1090, 1088, 1080, 1085, 1072, 1076, 1094, 1072, 1090, 1100], [1090, 1088, 1080, 1085, 1072, 1076, 1094, 1072, 1090, 1080]]),
     (14, TEEN, [[1095, 1077, 1090, 1099, 1088, 1085, 1072, 1076, 1094, 1072, 1090, 1100], [1095, 1077, 1090, 1099, 1088, 1085, 1072, 1076, 1094, 1072, 1090, 1080]]),
     (15, TEEN, [[1087, 1103, 1090, 1085, 1072, 1076, 1094, 1072, 1090, 1100], [1087, 1103, 1090, 1085, 1072, 1076, 1094, 1072, 1090, 1080]]),
     (16, TEEN, [[1096, 1077, 1089, 1090, 1085, 1072, 1076, 1094, 1072, 1090, 1100], [1096, 1077, 1089, 1090, 1085, 1072, 1076, 1094, 1072, 1090, 1080]]),
     (17, TEEN, [[1089, 1077, 1084, 1085, 1072, 1076, 1094, 1072, 1090, 1100], [1089, 1077, 1084, 1085, 1072, 1076, 1094, 1072, 1090, 1080]]),
     (18, TEEN, [[1074, 1086, 1089, 1077, 1084, 1085, 1072, 1076, 1094, 1072, 1090, 1100], [1074, 1086, 1089, 1077, 1084, 1085, 1072, 1076, 1094, 1072, 1090, 1080]]),
     (19, TEEN, [[1076, 1077, 1074, 1103, 1090, 1085, 1072, 1076, 1094, 1072, 1090, 1100], [1076, 1077, 1074, 1103, 1090, 1085, 1072, 1076, 1094, 1072, 1090, 1080]]),
     (20, TEN, [[1076, 1074, 1072, 1076, 1094, 1072, 1090, 1100], [1076, 1074, 1072, 1076, 1094, 1072, 1090, 1080]]),
     (30, TEN, [[1090, 1088, 1080, 1076, 1094, 1072, 1090, 1100], [1090, 1088, 1080, 1076, 1094, 1072, 1090, 1080]]),
     (40, TEN, [[1089, 1086, 1088, 1086, 1082], [1089, 1086, 1088, 1086, 1082, 1072]]),
     (50, TEN, [[1087, 1103, 1090, 1100, 1076, 1077, 1089, 1103, 1090], [1087, 1103, 1090, 1080, 1076, 1077, 1089, 1103, 1090, 1080]]),
     (60, TEN, [[1096, 1077, 1089, 1090, 1100, 1076, 1077, 1089, 1103, 1090], [1096, 1077, 1089, 1090, 1080, 1076, 1077, 1089, 1103, 1090, 1080]]),
     (70, TEN, [[1089, 1077, 1084, 1100, 1076, 1077, 1089, 1103, 1090], [1089, 1077, 1084, 1080, 1076, 1077, 1089, 1103, 1090, 1080]]),
     (80, TEN, [[1074, 1086, 1089, 1077, 1084, 1100, 1076, 1077, 1089, 1103, 1090], [1074, 1086, 1089, 1100, 1084, 1080, 1076, 1077, 1089, 1103, 1090, 1080]]),
     (90, TEN, [[1076, 1077, 1074, 1103, 1085, 1086, 1089, 1090, 1086], [1076, 1077, 1074, 1103, 1085, 1086, 1089, 1090, 1072]]),
     (100, HUNDRED, [[1089, 1090, 1086], [1089, 1090, 1072]]),
     (200, HUNDRED, [[1076, 1074, 1077, 1089, 1090, 1080], [1076, 1074, 1091, 1093, 1089, 1086, 1090]]),
     (300, HUNDRED, [[1090, 1088, 1080, 1089, 1090, 1072], [1090, 1088, 1077, 1093, 1089, 1086, 1090], [1090, 1088, 1105, 1093, 1089, 1086, 1090]]),
     (400, HUNDRED, [[1095, 1077, 1090, 1099, 1088, 1077, 1089, 1090, 1072], [1095, 1077, 1090, 1099, 1088, 1105, 1093, 1089, 1086, 1090]]),
     (500, HUNDRED, [[1087, 1103, 1090, 1100, 1089, 1086, 1090], [1087, 1103, 1090, 1080, 1089, 1086, 1090]]),
     (600, HUNDRED, [[1096, 1077, 1089, 1090, 1100, 1089, 1086, 1090], [1096, 1077, 1089, 1090, 1080, 1089, 1086, 1090]]),
     (700, HUNDRED, [[1089, 1077, 1084, 1100, 1089, 1086, 1090], [1089, 1077, 1084, 1080, 1089, 1086, 1090]]),
     (800, HUNDRED, [[1074, 1086, 1089, 1077, 1084, 1100, 1089, 1086, 1090], [1074, 1086, 1089, 1100, 1084, 1080, 1089, 1086, 1090]]),
     (900, HUNDRED, [[1076, 1077, 1074, 1103, 1090, 1100, 1089, 1086, 1090], [1076, 1077, 1074, 1103, 1090, 1080, 1089, 1086, 1090]]),
     (1000, THOUSAND, [[1090, 1099, 1089, 1103, 1095, 1072], [1090, 1099, 1089, 1103, 1095, 1080], [1090, 1099, 1089, 1103, 1095], [1090, 1099, 1089, 1103, 1095, 1077], [1090, 1099, 1089, 1103, 1095, 1091], [1090, 1099, 1089, 1103, 1095, 1077, 1081], [1090, 1099, 1089, 1103, 1095, 1072, 1084], [1090, 1099, 1089, 1103, 1095, 1072, 1084, 1080], [1090, 1099, 1089, 1103, 1095, 1072, 1093]]),
     (1000000, MILLION, [[1084, 1080, 1083, 1083, 1080, 1086, 1085], [1084, 1080, 1083, 1083, 1080, 1086, 1085, 1072], [1084, 1080, 1083, 1083, 1080, 1086, 1085, 1086, 1074], [1084, 1080, 1083, 1083, 1080, 1086, 1085, 1091], [1084, 1080, 1083, 1083, 1080, 1086, 1085, 1077], [1084, 1080, 1083, 1083, 1080, 1086, 1085, 1072, 1084], [1084, 1080, 1083, 1083, 1080, 1086, 1085, 1072, 1084, 1080], [1084, 1080, 1083, 1083, 1080, 1086, 1085, 1072, 1093]])]"

definition number_words :: "(ustring \<times> nat \<times> nat) list" where
  "number_words = concat (map (\<lambda>(v, s, forms). map (\<lambda>f. (f, v, s)) forms) number_forms)"

definition lower_char :: "nat \<Rightarrow> nat" where
  "lower_char c = (if (65 \<le> c \<and> c \<le> 90) \<or> (0x410 \<le> c \<and> c \<le> 0x42F) then c + 32
     else if 0x400 \<le> c \<and> c \<le> 0x40F then c + 80 else c)"

definition to_lowercase :: "ustring \<Rightarrow> ustring" where
  "to_lowercase s = map lower_char s"

definition number_word :: "ustring \<Rightarrow> (nat \<times> nat) option" where
  "number_word token = map_of number_words (to_lowercase token)"

section \<open>The state machine\<close>

record itn_state =
  out :: "ustring list"
  current_value :: nat
  running_total :: nat
  prev_scale :: nat
  in_number :: bool

definition itn_start :: itn_state where
  "itn_start = \<lparr>out = [], current_value = 0, running_total = 0, prev_scale = 0, in_number = False\<rparr>"

definition number_step :: "nat \<Rightarrow> nat \<Rightarrow> itn_state \<Rightarrow> itn_state" where
  "number_step value scale st =
     (if scale = THOUSAND \<or> scale = MILLION then
        let cur = (if current_value st = 0 then 1 else current_value st) in
        st\<lparr>running_total := running_total st + cur * scale, current_value := 0, prev_scale := scale, in_number := True\<rparr>
      else if 0 < current_value st \<and> prev_scale st \<le> scale then
        st\<lparr>out := out st @ [dec (running_total st + current_value st)], running_total := 0,
           current_value := value, prev_scale := scale, in_number := True\<rparr>
      else st\<lparr>current_value := current_value st + value, prev_scale := scale, in_number := True\<rparr>)"

definition flush_number :: "itn_state \<Rightarrow> ustring list" where
  "flush_number st = out st @ (if in_number st then [dec (running_total st + current_value st)] else [])"

definition itn_step :: "ustring \<Rightarrow> itn_state \<Rightarrow> itn_state" where
  "itn_step token st =
     (case number_word token of
        Some (value, scale) \<Rightarrow> number_step value scale st
      | None \<Rightarrow> itn_start\<lparr>out := flush_number st @ [token]\<rparr>)"

definition words_to_numbers :: "ustring list \<Rightarrow> ustring list" where
  "words_to_numbers tokens = flush_number (fold itn_step tokens itn_start)"

section \<open>Digit groups\<close>

definition is_digit_token :: "ustring \<Rightarrow> bool" where
  "is_digit_token s \<longleftrightarrow> s \<noteq> [] \<and> list_all (\<lambda>c. 48 \<le> c \<and> c \<le> 57) s"

function merge_digit_groups :: "ustring list \<Rightarrow> ustring list" where
  "merge_digit_groups [] = []"
| "merge_digit_groups (t # ts) =
     (if is_digit_token t then
        let group = takeWhile is_digit_token (t # ts); rest = dropWhile is_digit_token ts in
        (if list_all (\<lambda>g. length g \<le> 3) group then [concat group] else group) @ merge_digit_groups rest
      else t # merge_digit_groups ts)"
  by pat_completeness auto
termination
proof (relation "measure length")
  fix t :: ustring and ts group rest :: "ustring list"
  assume "rest = dropWhile is_digit_token ts"
  then show "(rest, t # ts) \<in> measure length" using length_dropWhile_le[of is_digit_token ts] by simp
qed simp_all

fun split_ws :: "ustring \<Rightarrow> ustring \<Rightarrow> ustring list" where
  "split_ws acc [] = (if acc = [] then [] else [acc])"
| "split_ws acc (c # cs) =
     (if is_whitespace c then (if acc = [] then split_ws [] cs else acc # split_ws [] cs)
      else split_ws (acc @ [c]) cs)"

definition split_whitespace :: "ustring \<Rightarrow> ustring list" where
  "split_whitespace s = split_ws [] s"

definition apply_itn :: "ustring \<Rightarrow> ustring" where
  "apply_itn txt = join (merge_digit_groups (words_to_numbers (split_whitespace txt)))"

section \<open>Spelled numbers\<close>

text \<open>The entries of the words that spell a number below a thousand, and one below \<open>10 ^ 9\<close>.\<close>

definition spell_small :: "nat \<Rightarrow> (nat \<times> nat) list" where
  "spell_small g =
     (if 100 \<le> g then [(g div 100 * 100, HUNDRED)] else [])
     @ (if 10 \<le> g mod 100 \<and> g mod 100 < 20 then [(g mod 100, TEEN)]
        else (if 20 \<le> g mod 100 then [(g mod 100 div 10 * 10, TEN)] else [])
          @ (if 0 < g mod 10 then [(g mod 10, UNIT)] else []))"

text \<open>A scale word may stand alone for one thousand or one million.\<close>

definition spell_scaled :: "nat \<Rightarrow> nat \<Rightarrow> bool \<Rightarrow> (nat \<times> nat) list" where
  "spell_scaled g scale bare = (if g = 0 then [] else (if g = 1 \<and> bare then [] else spell_small g) @ [(scale, scale)])"

definition spell :: "nat \<Rightarrow> bool \<Rightarrow> bool \<Rightarrow> (nat \<times> nat) list" where
  "spell n bare_m bare_t =
     (if n = 0 then [(0, UNIT)]
      else spell_scaled (n div 1000000) MILLION bare_m @ spell_scaled (n div 1000 mod 1000) THOUSAND bare_t
        @ spell_small (n mod 1000))"

abbreviation "itn_nums es st \<equiv> fold (\<lambda>(v, s). number_step v s) es st"

lemma small_scale: "s < 1000 \<Longrightarrow> s \<noteq> THOUSAND \<and> s \<noteq> MILLION"
  by (auto simp: THOUSAND_def MILLION_def)

lemma scales: "UNIT = 1" "TEEN = 10" "TEN = 10" "HUNDRED = 100" "THOUSAND = 1000" "MILLION = 1000000"
  by (simp_all add: UNIT_def TEEN_def TEN_def HUNDRED_def THOUSAND_def MILLION_def)

lemma spell_small_run:
  assumes "g < 1000" "0 < g" "current_value st = 0"
  shows "\<exists>p. itn_nums (spell_small g) st = st\<lparr>current_value := g, prev_scale := p, in_number := True\<rparr>"
proof -
  let ?st = "\<lambda>v p. st\<lparr>current_value := v, prev_scale := p, in_number := True\<rparr>"
  have step: "number_step v s (?st c p) = ?st (c + v) s" if "s < p" "s < 1000" for v s c p
    using that by (simp add: number_step_def scales)
  have first: "number_step v s st = ?st v s" if "s < 1000" for v s
    using that assms(3) by (simp add: number_step_def scales)
  obtain h t u where g: "g = 100 * h + 10 * t + u" and lt: "h < 10" "t < 10" "u < 10"
  proof
    have "g = g div 100 * 100 + g mod 100" "g mod 100 = g mod 100 div 10 * 10 + g mod 100 mod 10" by (rule div_mult_mod_eq[symmetric])+
    then show "g = 100 * (g div 100) + 10 * (g mod 100 div 10) + g mod 100 mod 10" by linarith
    show "g div 100 < 10" "g mod 100 mod 10 < 10" using assms(1) by auto
    show "g mod 100 div 10 < 10" by (simp add: div_less_iff_less_mult)
  qed
  have "g div 100 = h" "100 \<le> g \<longleftrightarrow> 0 < h" using lt by (auto simp: g)
  moreover have "g mod 100 = 10 * t + u" "g mod 10 = u" by (rule mod_nat_eqI; use lt in \<open>simp add: g\<close>)+
  ultimately have m: "g div 100 = h" "100 \<le> g \<longleftrightarrow> 0 < h" "g mod 100 = 10 * t + u" "g mod 10 = u" by blast+
  have d: "(10 * t + u) div 10 = t" "10 \<le> 10 * t + u \<and> 10 * t + u < 20 \<longleftrightarrow> t = 1" "20 \<le> 10 * t + u \<longleftrightarrow> 2 \<le> t"
    using lt by auto
  have e: "spell_small g = (if 0 < h then [(h * 100, 100)] else [])
      @ (if t = 1 then [(10 * t + u, 10)] else (if 2 \<le> t then [(t * 10, 10)] else []) @ (if 0 < u then [(u, 1)] else []))"
    unfolding spell_small_def m d scales ..
  have "0 < h \<or> 0 < t \<or> 0 < u" using assms(2) g by auto
  moreover have "t = 0 \<or> t = 1 \<or> 2 \<le> t" by linarith
  ultimately have "\<exists>p. itn_nums (spell_small g) st = ?st (100 * h + 10 * t + u) p"
    unfolding e by (cases "0 < h"; cases "0 < u") (auto simp: first step algebra_simps)
  then show ?thesis unfolding g[symmetric] .
qed

lemma spell_scaled_run:
  assumes "g < 1000" "current_value st = 0" "scale = THOUSAND \<or> scale = MILLION"
  shows "itn_nums (spell_scaled g scale bare) st =
    (if g = 0 then st else st\<lparr>running_total := running_total st + g * scale, prev_scale := scale, in_number := True\<rparr>)"
proof (cases "g = 0")
  case False
  show ?thesis
  proof (cases "g = 1 \<and> bare")
    case True
    then show ?thesis using assms(2,3) by (auto simp: spell_scaled_def number_step_def)
  next
    case nb: False
    have g0: "0 < g" using False by simp
    obtain p where p: "itn_nums (spell_small g) st = st\<lparr>current_value := g, prev_scale := p, in_number := True\<rparr>"
      using spell_small_run[OF assms(1) g0 assms(2)] by blast
    have e: "spell_scaled g scale bare = spell_small g @ [(scale, scale)]" using False nb by (auto simp: spell_scaled_def)
    show ?thesis using False assms(2,3) unfolding e fold_append o_apply p by (auto simp: number_step_def)
  qed
qed (simp add: spell_scaled_def)

lemma spell_run:
  assumes "n < 1000000000"
  shows "flush_number (itn_nums (spell n bare_m bare_t) (itn_start\<lparr>out := o'\<rparr>)) = o' @ [dec n]
    \<and> in_number (itn_nums (spell n bare_m bare_t) (itn_start\<lparr>out := o'\<rparr>))"
proof (cases "n = 0")
  case True
  then show ?thesis by (simp add: spell_def itn_start_def number_step_def flush_number_def scales)
next
  case False
  let ?m = "n div 1000000" and ?t = "n div 1000 mod 1000" and ?r = "n mod 1000"
  define st0 where "st0 = itn_start\<lparr>out := o'\<rparr>"
  define st1 where "st1 = itn_nums (spell_scaled ?m MILLION bare_m) st0"
  define st2 where "st2 = itn_nums (spell_scaled ?t THOUSAND bare_t) st1"
  have lt: "?m < 1000" "?t < 1000" "?r < 1000" using assms by (simp_all add: div_less_iff_less_mult)
  have n: "n = ?m * 1000000 + ?t * 1000 + ?r"
  proof -
    have "n = n div 1000 * 1000 + ?r" "n div 1000 = n div 1000 div 1000 * 1000 + ?t" by (rule div_mult_mod_eq[symmetric])+
    moreover have "n div 1000 div 1000 = ?m" by (simp add: div_mult2_eq[symmetric])
    ultimately show ?thesis by linarith
  qed
  have s0: "current_value st0 = 0 \<and> running_total st0 = 0 \<and> out st0 = o' \<and> \<not> in_number st0" by (simp add: st0_def itn_start_def)
  have s1: "current_value st1 = 0 \<and> running_total st1 = ?m * 1000000 \<and> out st1 = o' \<and> (in_number st1 \<longleftrightarrow> 0 < ?m)"
    using s0 spell_scaled_run[OF lt(1), of st0 MILLION bare_m] unfolding st1_def[symmetric] by (simp add: scales)
  have s2: "current_value st2 = 0 \<and> running_total st2 = ?m * 1000000 + ?t * 1000 \<and> out st2 = o' \<and> (in_number st2 \<longleftrightarrow> 0 < ?m \<or> 0 < ?t)"
    using s1 spell_scaled_run[OF lt(2), of st1 THOUSAND bare_t] unfolding st2_def[symmetric] by (simp add: scales)
  have run: "itn_nums (spell n bare_m bare_t) (itn_start\<lparr>out := o'\<rparr>) = itn_nums (spell_small ?r) st2"
    using False by (simp add: spell_def st2_def st1_def st0_def)
  show ?thesis
  proof (cases "?r = 0")
    case True
    then have e: "spell_small ?r = []" by (simp add: spell_small_def)
    have "0 < ?m \<or> 0 < ?t" using False True n by auto
    moreover have "dec (?m * 1000000 + ?t * 1000) = dec n" using n True by simp
    ultimately show ?thesis unfolding run e using s2 by (simp add: flush_number_def)
  next
    case r: False
    then obtain p where p: "itn_nums (spell_small ?r) st2 = st2\<lparr>current_value := ?r, prev_scale := p, in_number := True\<rparr>"
      using spell_small_run[OF lt(3)] s2 by blast
    have "dec (?m * 1000000 + ?t * 1000 + ?r) = dec n" using n by simp
    then show ?thesis unfolding run p using s2 by (simp add: flush_number_def)
  qed
qed

lemma itn_tokens:
  "map number_word ts = map Some es \<Longrightarrow> fold itn_step ts st = itn_nums es st"
proof (induction ts arbitrary: es st)
  case (Cons t ts)
  then obtain v s es' where e: "es = (v, s) # es'" "number_word t = Some (v, s)" "map number_word ts = map Some es'"
    by (cases es) auto
  then show ?case using Cons.IH[OF e(3)] by (simp add: itn_step_def)
qed simp

lemma itn_plain:
  "\<forall>t \<in> set ts. number_word t = None \<Longrightarrow> ts \<noteq> [] \<Longrightarrow> fold itn_step ts st = itn_start\<lparr>out := flush_number st @ ts\<rparr>"
proof (induction ts arbitrary: st)
  case (Cons t ts)
  have s: "itn_step t st = itn_start\<lparr>out := flush_number st @ [t]\<rparr>" using Cons.prems(1) by (simp add: itn_step_def)
  have f: "flush_number (itn_start\<lparr>out := xs\<rparr>) = xs" for xs by (simp add: flush_number_def itn_start_def)
  show ?case
  proof (cases "ts = []")
    case False
    then show ?thesis using Cons.IH[of "itn_step t st"] Cons.prems(1) unfolding s f by (simp add: s)
  qed (simp add: s)
qed simp

lemma flush_after_plain:
  assumes "\<forall>t \<in> set ts. number_word t = None"
  shows "flush_number (fold itn_step ts st) = flush_number st @ ts"
  using itn_plain[OF assms, of st] by (cases "ts = []") (simp_all add: flush_number_def itn_start_def)

lemma words_to_numbers_spelled:
  assumes "n < 1000000000" "map number_word ts = map Some (spell n bare_m bare_t)"
    and "\<forall>t \<in> set pre. number_word t = None" "\<forall>t \<in> set post. number_word t = None"
  shows "words_to_numbers (pre @ ts @ post) = pre @ dec n # post"
proof -
  have p: "fold itn_step pre itn_start = itn_start\<lparr>out := pre\<rparr>"
    using itn_plain[OF assms(3), of itn_start] by (cases "pre = []") (simp_all add: itn_start_def flush_number_def)
  have t: "flush_number (fold itn_step ts (itn_start\<lparr>out := pre\<rparr>)) = pre @ [dec n]"
    unfolding itn_tokens[OF assms(2)] using spell_run[OF assms(1)] by blast
  show ?thesis unfolding words_to_numbers_def fold_append o_apply p flush_after_plain[OF assms(4)] t by simp
qed

lemma words_to_numbers_plain: "\<forall>t \<in> set ts. number_word t = None \<Longrightarrow> words_to_numbers ts = ts"
  by (simp add: words_to_numbers_def flush_after_plain) (simp add: flush_number_def itn_start_def)

lemma is_digit_dec: "is_digit_token (dec n)"
proof -
  have "dec n \<noteq> []" by (simp add: dec.simps[of n])
  then show ?thesis using dec_digits by (auto simp: is_digit_token_def list_all_iff)
qed

lemma merge_plain: "\<forall>t \<in> set ts. \<not> is_digit_token t \<Longrightarrow> merge_digit_groups (ts @ us) = ts @ merge_digit_groups us"
  by (induction ts) simp_all

lemma merge_one:
  assumes "is_digit_token d" "\<forall>t \<in> set ts. \<not> is_digit_token t"
  shows "merge_digit_groups (d # ts) = d # ts"
proof -
  have "takeWhile is_digit_token ts = []" "dropWhile is_digit_token ts = ts" using assms(2) by (cases ts; simp)+
  then show ?thesis using assms merge_plain[of ts "[]"] by (simp add: Let_def)
qed

lemma split_ws_token:
  "\<forall>c \<in> set w. \<not> is_whitespace c \<Longrightarrow> split_ws acc (w @ s) = split_ws (acc @ w) s"
  by (induction w arbitrary: acc) simp_all

definition is_token :: "ustring \<Rightarrow> bool" where
  "is_token w \<longleftrightarrow> w \<noteq> [] \<and> (\<forall>c \<in> set w. \<not> is_whitespace c)"

lemma split_join: "\<forall>w \<in> set ws. is_token w \<Longrightarrow> split_whitespace (join ws) = ws"
proof (induction ws rule: join.induct)
  case (2 w)
  then show ?case using split_ws_token[of w "[]" "[]"] by (simp add: split_whitespace_def is_token_def)
next
  case (3 w v ws)
  then have "split_ws [] (w @ space # join (v # ws)) = split_ws w (space # join (v # ws))"
    using split_ws_token[of w "[]"] by (simp add: is_token_def)
  then show ?case using 3 by (simp add: split_whitespace_def is_token_def space_def is_whitespace_def)
qed (simp add: split_whitespace_def)

text \<open>
  C32: Spelled numbers are read back. Every number below one billion, spelled in the usual way
  with any inflected forms of the table (hundreds, tens or teens, units and scale words, \<open>one\<close>
  optional before a scale word), becomes exactly its decimal digits, and the words around it
  stay as they are. A text without number words and digit groups keeps its words and only has
  its white space normalized.
\<close>

theorem itn_reads_spelled_numbers:
  assumes "n < 1000000000" "map number_word ts = map Some (spell n bare_m bare_t)"
    and "\<forall>w \<in> set (pre @ post). number_word w = None \<and> \<not> is_digit_token w"
    and "\<forall>w \<in> set (pre @ ts @ post). is_token w"
  shows "apply_itn (join (pre @ ts @ post)) = join (pre @ dec n # post)
    \<and> undec (dec n) = n
    \<and> apply_itn (join (pre @ post)) = join (pre @ post)"
proof (intro conjI)
  have p: "\<forall>w \<in> set pre. number_word w = None" "\<forall>w \<in> set post. number_word w = None"
    "\<forall>w \<in> set pre. \<not> is_digit_token w" "\<forall>w \<in> set post. \<not> is_digit_token w" using assms(3) by auto
  show "apply_itn (join (pre @ ts @ post)) = join (pre @ dec n # post)"
    by (simp add: apply_itn_def split_join[OF assms(4)] words_to_numbers_spelled[OF assms(1,2) p(1,2)]
        merge_plain[OF p(3)] merge_one[OF is_digit_dec p(4)] del: merge_digit_groups.simps)
  show "undec (dec n) = n" by (rule undec_dec)
  have "split_whitespace (join (pre @ post)) = pre @ post" using assms(4) by (intro split_join) auto
  moreover have "words_to_numbers (pre @ post) = pre @ post" using p by (intro words_to_numbers_plain) auto
  moreover have "merge_digit_groups (pre @ post) = pre @ post" using merge_plain[of "pre @ post" "[]"] p by auto
  ultimately show "apply_itn (join (pre @ post)) = join (pre @ post)" by (simp add: apply_itn_def)
qed

text \<open>Two thousand and twenty, in words; and a dictated zero that is lost before another digit.\<close>

definition two_thousand_twenty :: "ustring list" where
  "two_thousand_twenty = [[1076, 1074, 1077], [1090, 1099, 1089, 1103, 1095, 1080], [1076, 1074, 1072, 1076, 1094, 1072, 1090, 1100]]"

lemmas lookup = number_word_def number_words_def number_forms_def to_lowercase_def lower_char_def lit_def scales

lemma two_thousand_twenty_words: "map number_word two_thousand_twenty = map Some (spell 2020 False False)"
proof -
  have "map number_word two_thousand_twenty = [Some (2, 1), Some (1000, 1000), Some (20, 10)]"
    by (simp add: two_thousand_twenty_def lookup)
  then show ?thesis by (simp add: spell_def spell_scaled_def spell_small_def scales)
qed

lemma zero_five_words:
  "number_word [1085, 1086, 1083, 1100] = Some (0, 1)" "number_word [1087, 1103, 1090, 1100] = Some (5, 1)"
  by (simp_all add: lookup)

theorem itn_reads_spelled_numbers_witness:
  "apply_itn (join ([lit ''v''] @ two_thousand_twenty @ [lit ''godu''])) = join [lit ''v'', dec 2020, lit ''godu'']
    \<and> apply_itn (join [[1085, 1086, 1083, 1100], [1087, 1103, 1090, 1100]]) = lit ''5''"
proof (rule conjI)
  have "\<forall>w \<in> set ([lit ''v''] @ [lit ''godu'']). number_word w = None \<and> \<not> is_digit_token w"
    by (simp add: lookup is_digit_token_def)
  moreover have "\<forall>w \<in> set ([lit ''v''] @ two_thousand_twenty @ [lit ''godu'']). is_token w"
    by (simp add: two_thousand_twenty_def is_token_def is_whitespace_def lit_def)
  ultimately show "apply_itn (join ([lit ''v''] @ two_thousand_twenty @ [lit ''godu''])) = join [lit ''v'', dec 2020, lit ''godu'']"
    using itn_reads_spelled_numbers[OF _ two_thousand_twenty_words, of "[lit ''v'']" "[lit ''godu'']"] by simp
  have "split_whitespace (join [[1085, 1086, 1083, 1100], [1087, 1103, 1090, 1100]]) = [[1085, 1086, 1083, 1100], [1087, 1103, 1090, 1100]]"
    by (intro split_join) (simp add: is_token_def is_whitespace_def)
  moreover have "words_to_numbers [[1085, 1086, 1083, 1100], [1087, 1103, 1090, 1100]] = [dec 5]"
    by (simp add: words_to_numbers_def itn_step_def zero_five_words number_step_def flush_number_def itn_start_def scales)
  moreover have "merge_digit_groups [dec 5] = [dec 5]" by (rule merge_one[OF is_digit_dec]) simp
  ultimately show "apply_itn (join [[1085, 1086, 1083, 1100], [1087, 1103, 1090, 1100]]) = lit ''5''"
    by (simp add: apply_itn_def lit_def)
qed

end
