(* ===== verification/Token_Words.thy ===== *)
theory Token_Words
  imports Tokenizer Itn Window_Cursor
begin

text \<open>
  From decoded tokens to words: \<open>TokenFormatter::tokens_to_words\<close> of
  \<open>inference/token_format.rs\<close> for the transducer heads and \<open>ctc_tokens_to_words\<close> of
  \<open>inference/ctc.rs\<close> for the CTC head. Both run over the tokens with a word under construction;
  they differ in what they keep of a token that opens a word.
\<close>

section \<open>Tokens and the word under construction\<close>

record token_info =
  token_id :: nat
  frame_index :: nat
  tok_confidence :: rat

definition SECONDS_PER_FRAME :: rat where
  "SECONDS_PER_FRAME = (of_nat HOP_LENGTH * of_nat ENCODER_SUBSAMPLING) / 16000"

record word_acc =
  current_word :: ustring
  word_start_frame :: "nat option"
  word_end_frame :: nat
  word_confidences :: "rat list"
  out_words :: "word_info list"

definition acc_new :: word_acc where
  "acc_new = \<lparr>current_word = [], word_start_frame = None, word_end_frame = 0, word_confidences = [], out_words = []\<rparr>"

definition avg_conf :: "rat list \<Rightarrow> rat" where
  "avg_conf cs = (if cs = [] then 1 else sum_list cs / of_nat (length cs))"

definition frame_seconds :: "nat \<Rightarrow> nat \<Rightarrow> rat" where
  "frame_seconds offset f = of_nat (f + offset) * SECONDS_PER_FRAME"

definition emit_word :: "nat \<Rightarrow> word_acc \<Rightarrow> word_acc" where
  "emit_word offset a =
     a\<lparr>out_words := out_words a @
          [\<lparr>word = current_word a,
            w_start = frame_seconds offset (case word_start_frame a of None \<Rightarrow> 0 | Some f \<Rightarrow> f),
            w_end = frame_seconds offset (word_end_frame a),
            confidence = avg_conf (word_confidences a), speaker = None\<rparr>],
       current_word := [], word_start_frame := None, word_confidences := []\<rparr>"

definition opens_word :: "ustring \<Rightarrow> bool" where
  "opens_word t \<longleftrightarrow> t \<noteq> [] \<and> hd t = WORD_BOUNDARY"

definition push_text :: "token_info \<Rightarrow> ustring \<Rightarrow> word_acc \<Rightarrow> word_acc" where
  "push_text t clean a =
     (if clean = [] then a
      else a\<lparr>current_word := current_word a @ clean,
             word_start_frame := (case word_start_frame a of None \<Rightarrow> Some (frame_index t) | Some f \<Rightarrow> Some f),
             word_end_frame := frame_index t,
             word_confidences := word_confidences a @ [tok_confidence t]\<rparr>)"

section \<open>The transducer heads\<close>

definition word_step :: "tokenizer \<Rightarrow> nat \<Rightarrow> token_info \<Rightarrow> word_acc \<Rightarrow> word_acc" where
  "word_step tk offset t a =
     (let piece = token_text tk (token_id t);
          is_word_boundary = opens_word piece;
          a = (if is_word_boundary \<and> current_word a \<noteq> [] then emit_word offset a else a);
          clean = (if is_word_boundary then tl piece else piece)
      in push_text t clean a)"

definition tokens_to_words :: "tokenizer \<Rightarrow> token_info list \<Rightarrow> nat \<Rightarrow> word_info list" where
  "tokens_to_words tk ts offset =
     (if ts = [] then []
      else let a = fold (word_step tk offset) ts acc_new
           in out_words (if current_word a \<noteq> [] then emit_word offset a else a))"

section \<open>The CTC head\<close>

definition ctc_flush :: "nat \<Rightarrow> word_acc \<Rightarrow> word_acc" where
  "ctc_flush offset a = (if current_word a = [] then a else emit_word offset a)"

definition ctc_word_step :: "tokenizer \<Rightarrow> nat \<Rightarrow> token_info \<Rightarrow> word_acc \<Rightarrow> word_acc" where
  "ctc_word_step tk offset t a =
     (let ch = token_text tk (token_id t)
      in if opens_word ch then ctc_flush offset a else push_text t ch a)"

definition ctc_tokens_to_words :: "tokenizer \<Rightarrow> token_info list \<Rightarrow> nat \<Rightarrow> word_info list" where
  "ctc_tokens_to_words tk ts offset = out_words (ctc_flush offset (fold (ctc_word_step tk offset) ts acc_new))"

section \<open>What the words spell\<close>

text \<open>A vocabulary whose tokens carry the boundary marker in front only and no white space.\<close>

definition word_piece :: "ustring \<Rightarrow> bool" where
  "word_piece t \<longleftrightarrow> list_all (\<lambda>c. \<not> is_whitespace c \<and> c \<noteq> WORD_BOUNDARY) t"

definition word_vocab :: "tokenizer \<Rightarrow> bool" where
  "word_vocab tk \<longleftrightarrow> distinct (vocab_tokens tk) \<and> blank_token tk < vocab_size tk \<and> vocab_tokens tk ! blank_token tk = blk
     \<and> list_all (\<lambda>t. word_piece t \<or> (opens_word t \<and> word_piece (tl t))) (vocab_tokens tk)"

definition spaced :: "ustring \<Rightarrow> ustring" where
  "spaced s = map (\<lambda>c. if c = WORD_BOUNDARY then space else c) s"

lemma opens_word_Nil [simp]: "\<not> opens_word []"
  by (simp add: opens_word_def)

lemma opens_piece: "word_piece t \<Longrightarrow> \<not> opens_word t"
  by (cases t) (auto simp: word_piece_def opens_word_def)

lemma spaced_piece: "word_piece t \<Longrightarrow> spaced t = t"
  by (induction t) (auto simp: word_piece_def spaced_def)

lemma spaced_append: "spaced (a @ b) = spaced a @ spaced b"
  by (simp add: spaced_def)

lemma word_vocab_piece:
  assumes "word_vocab tk"
  shows "let t = token_text tk i in word_piece t \<or> (opens_word t \<and> word_piece (tl t))"
proof (cases "i < length (vocab_tokens tk) \<and> vocab_tokens tk ! i \<noteq> blk \<and> vocab_tokens tk ! i \<noteq> unk")
  case True
  then have "token_text tk i \<in> set (vocab_tokens tk)" by (simp add: token_text_def Let_def)
  then show ?thesis using assms by (simp add: word_vocab_def list_all_iff)
next
  case False
  then have "token_text tk i = []" by (auto simp: token_text_def Let_def)
  then show ?thesis by (simp add: word_piece_def)
qed

lemma decode_step_text:
  assumes "word_vocab tk"
  shows "decode_step tk i s = s @ token_text tk i"
proof (cases "i < length (vocab_tokens tk)")
  case True
  have b: "blank_token tk < length (vocab_tokens tk)" "vocab_tokens tk ! blank_token tk = blk" "distinct (vocab_tokens tk)"
    using assms by (simp_all add: word_vocab_def vocab_size_def)
  then have "i = blank_token tk \<longleftrightarrow> vocab_tokens tk ! i = blk"
    using True nth_eq_iff_index_eq[OF b(3) True b(1)] by simp
  moreover have "blk \<noteq> unk" by (simp add: blk_def unk_def lit_def)
  ultimately show ?thesis using True by (simp add: decode_step_def token_text_def Let_def)
qed (simp add: decode_step_def token_text_def)

lemma decoded_text:
  assumes "word_vocab tk"
  shows "fold (decode_step tk) ids s = s @ concat (map (token_text tk) ids)"
  by (induction ids arbitrary: s) (simp_all add: decode_step_text[OF assms])

lemma split_ws_skip:
  "list_all is_whitespace w \<Longrightarrow> split_ws [] (w @ s) = split_ws [] s"
  "list_all is_whitespace w \<Longrightarrow> split_ws acc (s @ w) = split_ws acc s"
proof -
  show "list_all is_whitespace w \<Longrightarrow> split_ws [] (w @ s) = split_ws [] s" by (induction w) auto
  have nil: "list_all is_whitespace w \<Longrightarrow> split_ws acc w = split_ws acc []" for acc
    by (induction w arbitrary: acc) auto
  show "list_all is_whitespace w \<Longrightarrow> split_ws acc (s @ w) = split_ws acc s"
    by (induction s arbitrary: acc) (auto simp: nil)
qed

lemma split_whitespace_trim: "split_whitespace (trim s) = split_whitespace s"
proof -
  have s: "list_all is_whitespace (takeWhile is_whitespace x)" for x
    by (auto simp: list_all_iff dest: set_takeWhileD)
  have e: "s = trim_end s @ rev (takeWhile is_whitespace (rev s))"
    unfolding trim_end_def by (metis rev_append rev_rev_ident takeWhile_dropWhile_id)
  have "split_ws [] s = split_ws [] (trim_end s)"
    by (subst e, rule split_ws_skip(2)) (use s[of "rev s"] in \<open>simp add: list_all_iff\<close>)
  moreover have "split_ws [] (trim_end s) = split_ws [] (trim s)"
    unfolding trim_def trim_start_def using split_ws_skip(1)[OF s, of "trim_end s"]
    by (metis takeWhile_dropWhile_id)
  ultimately show ?thesis by (simp add: split_whitespace_def)
qed

lemma word_step_words:
  assumes "word_vocab tk"
  shows "map word (out_words (word_step tk off t a)) @ split_ws (current_word (word_step tk off t a)) s
    = map word (out_words a) @ split_ws (current_word a) (spaced (token_text tk (token_id t)) @ s)"
proof -
  let ?p = "token_text tk (token_id t)"
  from word_vocab_piece[OF assms, of "token_id t"] consider "word_piece ?p" | "opens_word ?p" "word_piece (tl ?p)"
    by (auto simp: Let_def)
  then show ?thesis
  proof cases
    case 1
    then have ws: "\<forall>c \<in> set ?p. \<not> is_whitespace c" by (auto simp: word_piece_def list_all_iff)
    show ?thesis using opens_piece[OF 1] spaced_piece[OF 1] split_ws_token[OF ws]
      by (simp add: word_step_def Let_def push_text_def)
  next
    case 2
    then have p: "?p = WORD_BOUNDARY # tl ?p" by (cases ?p) (auto simp: opens_word_def)
    have sp: "spaced ?p = space # tl ?p" by (subst p) (use spaced_piece[OF 2(2)] in \<open>simp add: spaced_def\<close>)
    have ws: "\<forall>c \<in> set (tl ?p). \<not> is_whitespace c" using 2(2) by (auto simp: word_piece_def list_all_iff)
    have w: "is_whitespace space" by (simp add: is_whitespace_def space_def)
    show ?thesis using 2(1) sp w split_ws_token[OF ws, of "[]"]
      by (simp add: word_step_def Let_def push_text_def emit_word_def)
  qed
qed

lemma fold_word_step_words:
  assumes "word_vocab tk"
  shows "map word (out_words (fold (word_step tk off) ts a)) @ split_ws (current_word (fold (word_step tk off) ts a)) []
    = map word (out_words a) @ split_ws (current_word a) (spaced (concat (map (token_text tk \<circ> token_id) ts)))"
proof (induction ts arbitrary: a)
  case (Cons t ts)
  then show ?case using word_step_words[OF assms, of off t a "spaced (concat (map (token_text tk \<circ> token_id) ts))"]
    by (simp add: spaced_append comp_def)
qed (simp add: spaced_def)

lemma map_word_emit: "map word (out_words (if current_word a \<noteq> [] then emit_word off a else a))
    = map word (out_words a) @ split_ws (current_word a) []"
  by (simp add: emit_word_def)

lemma tokens_to_words_split:
  assumes "word_vocab tk"
  shows "map word (tokens_to_words tk ts off) = split_whitespace (decode_ids tk (map token_id ts))"
proof (cases "ts = []")
  case True
  then show ?thesis by (simp add: tokens_to_words_def decode_ids_def split_whitespace_def trim_def trim_start_def trim_end_def)
next
  case False
  then have "map word (tokens_to_words tk ts off) = split_whitespace (spaced (concat (map (token_text tk \<circ> token_id) ts)))"
    using fold_word_step_words[OF assms, of off ts acc_new]
    by (simp only: tokens_to_words_def Let_def map_word_emit if_False) (simp add: acc_new_def split_whitespace_def)
  then show ?thesis using decoded_text[OF assms, of "map token_id ts" "[]"]
    by (simp add: decode_ids_def split_whitespace_trim spaced_def comp_def)
qed

section \<open>When the words are\<close>

definition conf_in :: "rat \<Rightarrow> rat \<Rightarrow> rat \<Rightarrow> bool" where
  "conf_in lo hi c \<longleftrightarrow> lo \<le> c \<and> c \<le> hi"

definition word_ok :: "rat \<Rightarrow> rat \<Rightarrow> word_info \<Rightarrow> bool" where
  "word_ok lo hi w \<longleftrightarrow> word w \<noteq> [] \<and> w_start w \<le> w_end w \<and> conf_in lo hi (confidence w)"

definition acc_ok :: "nat \<Rightarrow> rat \<Rightarrow> rat \<Rightarrow> nat \<Rightarrow> word_acc \<Rightarrow> bool" where
  "acc_ok off lo hi f a \<longleftrightarrow>
     (case word_start_frame a of
        None \<Rightarrow> current_word a = [] \<and> word_confidences a = [] \<and> list_all (\<lambda>w. w_end w \<le> frame_seconds off f) (out_words a)
      | Some s \<Rightarrow> current_word a \<noteq> [] \<and> word_confidences a \<noteq> [] \<and> s \<le> word_end_frame a \<and> word_end_frame a \<le> f
          \<and> list_all (\<lambda>w. w_end w \<le> frame_seconds off s) (out_words a))
     \<and> list_all (conf_in lo hi) (word_confidences a)
     \<and> list_all (word_ok lo hi) (out_words a)
     \<and> sorted_wrt (\<lambda>v w. w_end v \<le> w_start w) (out_words a)"

lemma frame_seconds_mono: "f \<le> g \<Longrightarrow> frame_seconds off f \<le> frame_seconds off g"
  by (simp add: frame_seconds_def SECONDS_PER_FRAME_def HOP_LENGTH_def ENCODER_SUBSAMPLING_def)

lemma acc_ok_mono:
  assumes "acc_ok off lo hi f a" "f \<le> g"
  shows "acc_ok off lo hi g a"
  using assms frame_seconds_mono[OF assms(2), of off]
  by (auto simp: acc_ok_def list_all_iff split: option.splits)

lemma avg_conf_between:
  assumes "list_all (conf_in lo hi) cs" "cs \<noteq> []"
  shows "conf_in lo hi (avg_conf cs)"
proof -
  have "of_nat (length cs) * lo \<le> sum_list cs" "sum_list cs \<le> of_nat (length cs) * hi"
    using assms(1) by (induction cs) (auto simp: conf_in_def algebra_simps)
  moreover have "(0::rat) < of_nat (length cs)" using assms(2) by simp
  ultimately show ?thesis using assms(2)
    by (simp add: conf_in_def avg_conf_def pos_le_divide_eq pos_divide_le_eq mult.commute)
qed

lemma emit_word_ok:
  assumes "acc_ok off lo hi f a" "current_word a \<noteq> []"
  shows "acc_ok off lo hi f (emit_word off a)"
proof -
  obtain s where s: "word_start_frame a = Some s" using assms by (auto simp: acc_ok_def split: option.splits)
  have o: "s \<le> word_end_frame a" "word_end_frame a \<le> f" "word_confidences a \<noteq> []"
    "list_all (\<lambda>w. w_end w \<le> frame_seconds off s) (out_words a)"
    "list_all (conf_in lo hi) (word_confidences a)" "list_all (word_ok lo hi) (out_words a)"
    "sorted_wrt (\<lambda>v w. w_end v \<le> w_start w) (out_words a)"
    using assms(1) s by (simp_all add: acc_ok_def)
  have t: "frame_seconds off s \<le> frame_seconds off (word_end_frame a)" "frame_seconds off s \<le> frame_seconds off f"
    "frame_seconds off (word_end_frame a) \<le> frame_seconds off f"
    using o frame_seconds_mono by simp_all
  show ?thesis using assms(2) s o t avg_conf_between[OF o(5,3)]
    by (auto simp: acc_ok_def emit_word_def word_ok_def list_all_iff sorted_wrt_append)
qed

lemma push_text_ok:
  assumes "acc_ok off lo hi (frame_index t) a" "conf_in lo hi (tok_confidence t)"
  shows "acc_ok off lo hi (frame_index t) (push_text t clean a)"
  using assms by (auto simp: acc_ok_def push_text_def split: option.splits)

lemma word_step_ok:
  assumes "acc_ok off lo hi f a" "f \<le> frame_index t" "conf_in lo hi (tok_confidence t)"
  shows "acc_ok off lo hi (frame_index t) (word_step tk off t a)"
  using acc_ok_mono[OF assms(1,2)] assms(3) by (auto simp: word_step_def Let_def intro!: push_text_ok emit_word_ok)

lemma word_fold_ok:
  assumes "acc_ok off lo hi f a" "sorted (f # map frame_index ts)" "list_all (\<lambda>t. conf_in lo hi (tok_confidence t)) ts"
  shows "\<exists>g. acc_ok off lo hi g (fold (word_step tk off) ts a)"
  using assms
proof (induction ts arbitrary: f a)
  case (Cons t ts)
  have "acc_ok off lo hi (frame_index t) (word_step tk off t a)"
    using Cons.prems word_step_ok by simp
  from Cons.IH[OF this] Cons.prems show ?case by auto
qed auto

lemma tokens_to_words_ok:
  assumes "sorted (map frame_index ts)" "list_all (\<lambda>t. conf_in lo hi (tok_confidence t)) ts"
  shows "list_all (word_ok lo hi) (tokens_to_words tk ts off)
    \<and> sorted_wrt (\<lambda>v w. w_end v \<le> w_start w) (tokens_to_words tk ts off)"
proof -
  have "acc_ok off lo hi 0 acc_new" by (simp add: acc_ok_def acc_new_def)
  from word_fold_ok[OF this, of ts tk] assms obtain g where g: "acc_ok off lo hi g (fold (word_step tk off) ts acc_new)"
    by auto
  then have "acc_ok off lo hi g (if current_word (fold (word_step tk off) ts acc_new) \<noteq> []
      then emit_word off (fold (word_step tk off) ts acc_new) else fold (word_step tk off) ts acc_new)"
    using emit_word_ok by simp
  then show ?thesis by (simp add: tokens_to_words_def Let_def acc_ok_def)
qed

section \<open>The two heads agree\<close>

lemma ctc_word_step_eq:
  assumes "opens_word (token_text tk (token_id t)) \<Longrightarrow> tl (token_text tk (token_id t)) = []"
  shows "ctc_word_step tk off t a = word_step tk off t a"
  using assms by (auto simp: ctc_word_step_def word_step_def ctc_flush_def push_text_def Let_def)

lemma bare_boundary:
  assumes "list_all (\<lambda>t. opens_word t \<longrightarrow> tl t = []) (vocab_tokens tk)" "opens_word (token_text tk i)"
  shows "tl (token_text tk i) = []"
  using assms nth_mem[of i "vocab_tokens tk"] by (auto simp: token_text_def list_all_iff Let_def split: if_splits)

lemma ctc_words_eq:
  assumes "list_all (\<lambda>t. opens_word t \<longrightarrow> tl t = []) (vocab_tokens tk)"
  shows "ctc_tokens_to_words tk ts off = tokens_to_words tk ts off"
proof -
  have "ctc_word_step tk off = word_step tk off"
    by (intro ext ctc_word_step_eq bare_boundary[OF assms])
  then show ?thesis
    by (auto simp: ctc_tokens_to_words_def tokens_to_words_def ctc_flush_def Let_def acc_new_def)
qed

section \<open>Words of either head\<close>

lemma ctc_word_step_ok:
  assumes "acc_ok off lo hi f a" "f \<le> frame_index t" "conf_in lo hi (tok_confidence t)"
  shows "acc_ok off lo hi (frame_index t) (ctc_word_step tk off t a)"
  using acc_ok_mono[OF assms(1,2)] assms(3)
  by (auto simp: ctc_word_step_def ctc_flush_def Let_def intro!: push_text_ok emit_word_ok)

lemma ctc_word_fold_ok:
  assumes "acc_ok off lo hi f a" "sorted (f # map frame_index ts)" "list_all (\<lambda>t. conf_in lo hi (tok_confidence t)) ts"
  shows "\<exists>g. acc_ok off lo hi g (fold (ctc_word_step tk off) ts a)"
  using assms
proof (induction ts arbitrary: f a)
  case (Cons t ts)
  have "acc_ok off lo hi (frame_index t) (ctc_word_step tk off t a)"
    using Cons.prems ctc_word_step_ok by simp
  from Cons.IH[OF this] Cons.prems show ?case by auto
qed auto

lemma ctc_tokens_to_words_ok:
  assumes "sorted (map frame_index ts)" "list_all (\<lambda>t. conf_in lo hi (tok_confidence t)) ts"
  shows "list_all (word_ok lo hi) (ctc_tokens_to_words tk ts off)
    \<and> sorted_wrt (\<lambda>v w. w_end v \<le> w_start w) (ctc_tokens_to_words tk ts off)"
proof -
  have "acc_ok off lo hi 0 acc_new" by (simp add: acc_ok_def acc_new_def)
  from ctc_word_fold_ok[OF this, of ts tk] assms obtain g where g: "acc_ok off lo hi g (fold (ctc_word_step tk off) ts acc_new)"
    by auto
  then have "acc_ok off lo hi g (ctc_flush off (fold (ctc_word_step tk off) ts acc_new))"
    using emit_word_ok by (simp add: ctc_flush_def)
  then show ?thesis by (simp add: ctc_tokens_to_words_def acc_ok_def)
qed

text \<open>Every word starts and ends at the time of a frame below a bound that all tokens respect.\<close>

definition timed_below :: "nat \<Rightarrow> nat \<Rightarrow> word_acc \<Rightarrow> bool" where
  "timed_below off n a \<longleftrightarrow> (current_word a \<noteq> [] \<longrightarrow> word_end_frame a < n)
     \<and> list_all (\<lambda>w. frame_seconds off 0 \<le> w_start w \<and> w_end w < frame_seconds off n) (out_words a)"

lemma frame_seconds_less: "f < g \<Longrightarrow> frame_seconds off f < frame_seconds off g"
  by (simp add: frame_seconds_def SECONDS_PER_FRAME_def HOP_LENGTH_def ENCODER_SUBSAMPLING_def)

lemma emit_word_timed: "timed_below off n a \<Longrightarrow> current_word a \<noteq> [] \<Longrightarrow> timed_below off n (emit_word off a)"
  using frame_seconds_mono[of 0 _ off] frame_seconds_less[of "word_end_frame a" n off]
  by (auto simp: timed_below_def emit_word_def)

lemma push_text_timed: "timed_below off n a \<Longrightarrow> frame_index t < n \<Longrightarrow> timed_below off n (push_text t clean a)"
  by (auto simp: timed_below_def push_text_def)

lemma words_timed:
  assumes "list_all (\<lambda>t. frame_index t < n) ts"
  shows "list_all (\<lambda>w. frame_seconds off 0 \<le> w_start w \<and> w_end w < frame_seconds off n) (tokens_to_words tk ts off)"
    and "list_all (\<lambda>w. frame_seconds off 0 \<le> w_start w \<and> w_end w < frame_seconds off n) (ctc_tokens_to_words tk ts off)"
proof -
  have new: "timed_below off n acc_new" by (simp add: timed_below_def acc_new_def)
  have a: "timed_below off n (fold (word_step tk off) ts a)" if "timed_below off n a" for a
    using assms that
    by (induction ts arbitrary: a) (auto simp: word_step_def Let_def intro!: push_text_timed emit_word_timed)
  have b: "timed_below off n (fold (ctc_word_step tk off) ts a)" if "timed_below off n a" for a
    using assms that
    by (induction ts arbitrary: a) (auto simp: ctc_word_step_def ctc_flush_def Let_def intro!: push_text_timed emit_word_timed)
  have out: "timed_below off n a \<Longrightarrow>
      list_all (\<lambda>w. frame_seconds off 0 \<le> w_start w \<and> w_end w < frame_seconds off n) (out_words (ctc_flush off a))" for a
    using emit_word_timed[of off n a] by (auto simp: ctc_flush_def timed_below_def)
  show "list_all (\<lambda>w. frame_seconds off 0 \<le> w_start w \<and> w_end w < frame_seconds off n) (tokens_to_words tk ts off)"
    using out[OF a[OF new]] by (auto simp: tokens_to_words_def ctc_flush_def Let_def)
  show "list_all (\<lambda>w. frame_seconds off 0 \<le> w_start w \<and> w_end w < frame_seconds off n) (ctc_tokens_to_words tk ts off)"
    using out[OF b[OF new]] by (simp add: ctc_tokens_to_words_def)
qed

text \<open>
  C34: the words are the words of the decoded text, in order and in time. For a vocabulary whose
  tokens carry the boundary marker in front only, the words made of a token sequence are exactly
  the pieces between white space of the text the tokenizer decodes from the same ids, whatever
  the frame offset. When the frames of the tokens do not decrease, every word is non-empty, ends
  no earlier than it starts, ends before the next one starts, and its confidence lies within any
  bounds of the token confidences. The CTC grouping gives the same words whenever the boundary
  tokens are bare.
\<close>
theorem words_spell_decoded_text:
  assumes "word_vocab tk" and "sorted (map frame_index ts)"
    and "list_all (\<lambda>t. conf_in lo hi (tok_confidence t)) ts"
  shows "map word (tokens_to_words tk ts off) = split_whitespace (decode_ids tk (map token_id ts))
    \<and> list_all (word_ok lo hi) (tokens_to_words tk ts off)
    \<and> sorted_wrt (\<lambda>v w. w_end v \<le> w_start w) (tokens_to_words tk ts off)
    \<and> (list_all (\<lambda>t. opens_word t \<longrightarrow> tl t = []) (vocab_tokens tk)
        \<longrightarrow> ctc_tokens_to_words tk ts off = tokens_to_words tk ts off)"
  using tokens_to_words_split[OF assms(1)] tokens_to_words_ok[OF assms(2,3)] ctc_words_eq by blast

definition demo_tokens :: "token_info list" where
  "demo_tokens = [\<lparr>token_id = 0, frame_index = 2, tok_confidence = 9 / 10\<rparr>,
     \<lparr>token_id = 1, frame_index = 5, tok_confidence = 7 / 10\<rparr>, \<lparr>token_id = 0, frame_index = 5, tok_confidence = 1\<rparr>]"

definition demo_tokenizer :: tokenizer where
  "demo_tokenizer = \<lparr>vocab_tokens = [[WORD_BOUNDARY, 97], [98], blk], blank_token = 2\<rparr>"

lemma words_spell_decoded_text_witness:
  "map word (tokens_to_words demo_tokenizer demo_tokens 25) = [[97, 98], [97]]
    \<and> map w_start (tokens_to_words demo_tokenizer demo_tokens 25) = [27 / 25, 6 / 5]
    \<and> map word (tokens_to_words demo_tokenizer demo_tokens 25)
        = split_whitespace (decode_ids demo_tokenizer (map token_id demo_tokens))"
proof -
  have v: "word_vocab demo_tokenizer"
    by (simp add: word_vocab_def demo_tokenizer_def vocab_size_def word_piece_def opens_word_def blk_def lit_def
        WORD_BOUNDARY_def is_whitespace_def)
  have "map word (tokens_to_words demo_tokenizer demo_tokens 25)
      = split_whitespace (decode_ids demo_tokenizer (map token_id demo_tokens))"
    using words_spell_decoded_text[OF v, of demo_tokens 0 1 25] by (simp add: demo_tokens_def conf_in_def)
  moreover have "tokens_to_words demo_tokenizer demo_tokens 25
      = [\<lparr>word = [97, 98], w_start = 27 / 25, w_end = 6 / 5, confidence = 4 / 5, speaker = None\<rparr>,
         \<lparr>word = [97], w_start = 6 / 5, w_end = 6 / 5, confidence = 1, speaker = None\<rparr>]"
    by (simp add: tokens_to_words_def demo_tokens_def demo_tokenizer_def word_step_def token_text_def opens_word_def
        push_text_def emit_word_def acc_new_def frame_seconds_def SECONDS_PER_FRAME_def HOP_LENGTH_def
        ENCODER_SUBSAMPLING_def avg_conf_def blk_def unk_def lit_def WORD_BOUNDARY_def Let_def)
  ultimately show ?thesis by simp
qed

end
