(* ===== verification/Rnnt_Decode.thy ===== *)
theory Rnnt_Decode
  imports Hotword_Bias Token_Words
begin

text \<open>
  Greedy transducer decoding, \<open>inference/decode/mod.rs\<close>. The two networks are parameters: a
  prediction network from the previous token and the hidden state, a joiner from an encoder
  frame and the prediction output; both are deterministic and may fail, as the trait
  \<open>DecodeBackend\<close> allows. Tensor values are rationals, \<open>expf\<close> stands for \<open>f32::exp\<close>. The abort
  closure is a predicate on the number of the poll.
\<close>

section \<open>State\<close>

definition PRED_HIDDEN :: nat where "PRED_HIDDEN = 320"
definition ENC_DIM :: nat where "ENC_DIM = 768"
definition MAX_TOKENS_PER_STEP :: nat where "MAX_TOKENS_PER_STEP = 10"
definition MAX_BIAS_OVERRIDES_PER_STEP :: nat where "MAX_BIAS_OVERRIDES_PER_STEP = 1"

record decoder_state =
  hid :: "rat list"
  cell :: "rat list"
  prev_token :: int
  consecutive_blanks :: nat
  endpoint_blank_threshold :: nat

text \<open>\<open>EndpointSilence\<close>: a validated duration, rounded up to encoder frames.\<close>

definition endpoint_silence_new :: "nat \<Rightarrow> gigastt_error + nat" where
  "endpoint_silence_new milliseconds =
     (if \<not> (40 \<le> milliseconds \<and> milliseconds \<le> 2000)
      then Inl (InvalidInput ''endpoint_silence_ms must be between 40 and 2000'') else Inr milliseconds)"

definition silence_frames :: "nat \<Rightarrow> nat" where
  "silence_frames ms = div_ceil ms (HOP_LENGTH * ENCODER_SUBSAMPLING div 16)"

definition DEFAULT_SILENCE_MS :: nat where "DEFAULT_SILENCE_MS = 600"

definition decoder_state_new :: "nat \<Rightarrow> decoder_state" where
  "decoder_state_new blank_id =
     \<lparr>hid = replicate PRED_HIDDEN 0, cell = replicate PRED_HIDDEN 0, prev_token = int blank_id,
      consecutive_blanks = 0, endpoint_blank_threshold = silence_frames DEFAULT_SILENCE_MS\<rparr>"

record decoder_output =
  dec_data :: "rat list"
  new_h :: "rat list"
  new_c :: "rat list"

record decode_result =
  res_tokens :: "token_info list"
  endpoint_detected :: bool

section \<open>Logits\<close>

definition extract_encoder_frame :: "rat list \<Rightarrow> nat \<Rightarrow> nat \<Rightarrow> rat list" where
  "extract_encoder_frame encoded len t = map (\<lambda>ch. encoded ! (ch * len + t)) [0..<ENC_DIM]"

text \<open>\<open>max_by\<close> returns the last of several largest elements.\<close>

definition better_logit :: "nat \<times> rat \<Rightarrow> (nat \<times> rat) option \<Rightarrow> (nat \<times> rat) option" where
  "better_logit = (\<lambda>(i, x) best. case best of None \<Rightarrow> Some (i, x) | Some (j, y) \<Rightarrow> if y \<le> x then Some (i, x) else best)"

definition argmax :: "rat list \<Rightarrow> nat \<Rightarrow> nat" where
  "argmax logits blank_id =
     (case fold better_logit (enumerate 0 logits) None of Some (i, _) \<Rightarrow> i | None \<Rightarrow> blank_id)"

definition token_confidence :: "(rat \<Rightarrow> rat) \<Rightarrow> rat list \<Rightarrow> nat \<Rightarrow> rat" where
  "token_confidence expf logits tok =
     (if length logits \<le> tok then 0
      else let max_logit = fold max (tl logits) (hd logits);
               sum_exp = sum_list (map (\<lambda>l. expf (l - max_logit)) logits)
           in expf (logits ! tok - max_logit) / sum_exp)"

section \<open>The loop\<close>

text \<open>
  \<open>DecodePanic\<close> is not an error value of the source: it is the panic of a \<open>copy_from_slice\<close> between
  slices of two lengths, or of an index out of bounds, and ends the call as one.
\<close>

datatype decode_error = DecoderFailed | JoinerFailed | StateShape nat nat | StaleCache | EncoderSize | DecodePanic

record rnnt =
  decoder_net :: "int \<Rightarrow> rat list \<Rightarrow> rat list \<Rightarrow> decode_error + decoder_output"
  joiner_net :: "rat list \<Rightarrow> rat list \<Rightarrow> decode_error + rat list"
  expf :: "rat \<Rightarrow> rat"
  rn_blank :: nat
  rn_biaser :: "biaser option"
  rn_abort :: "(nat \<Rightarrow> bool) option"

record rn_state =
  rn_tokens :: "token_info list"
  rn_endpoint :: bool
  dstate :: decoder_state
  dout :: decoder_output
  cache_valid :: bool
  in_blank_run :: bool
  bstate :: "bias_state option"
  rn_polls :: nat
  decoder_calls :: nat
  joiner_calls :: nat
  skipped_calls :: nat

text \<open>
  The calls of the two sessions. Their inputs are copied into tensors of fixed size; the outputs
  replace the reusable buffers whatever their lengths are.
\<close>

definition run_decoder :: "rnnt \<Rightarrow> decoder_state \<Rightarrow> decode_error + decoder_output" where
  "run_decoder net st =
     (if length (hid st) \<noteq> PRED_HIDDEN \<or> length (cell st) \<noteq> PRED_HIDDEN then Inl DecodePanic
      else decoder_net net (prev_token st) (hid st) (cell st))"

definition run_joiner_single :: "rnnt \<Rightarrow> rat list \<Rightarrow> rat list \<Rightarrow> decode_error + rat list" where
  "run_joiner_single net enc_frame decoded =
     (if length enc_frame \<noteq> ENC_DIM \<or> length decoded \<noteq> PRED_HIDDEN then Inl DecodePanic
      else joiner_net net enc_frame decoded)"

definition select_token :: "rat list \<Rightarrow> nat \<Rightarrow> biaser option \<Rightarrow> bias_state option \<Rightarrow> nat \<Rightarrow> nat \<times> bool" where
  "select_token logits blank_id biaser_opt state_opt bias_overrides =
     (case (biaser_opt, state_opt) of
        (Some b, Some bs) \<Rightarrow>
          if bias_overrides < MAX_BIAS_OVERRIDES_PER_STEP
          then let boosted = argmax (boost_logits b bs logits) blank_id
               in (boosted, boosted \<noteq> argmax logits blank_id)
          else (argmax logits blank_id, False)
      | _ \<Rightarrow> (argmax logits blank_id, False))"

definition commit_non_blank :: "nat \<Rightarrow> biaser option \<Rightarrow> rn_state \<Rightarrow> decode_error + rn_state" where
  "commit_non_blank tok biaser_opt s =
     (let st = (dstate s)\<lparr>consecutive_blanks := 0, prev_token := int tok\<rparr>; pn_out = dout s
      in if length (new_h pn_out) \<noteq> PRED_HIDDEN \<or> length (new_c pn_out) \<noteq> PRED_HIDDEN
         then Inl (StateShape (length (new_h pn_out)) (length (new_c pn_out)))
         else Inr (s\<lparr>dstate := st\<lparr>hid := new_h pn_out, cell := new_c pn_out\<rparr>,
                     bstate := (case (biaser_opt, bstate s) of
                                  (Some b, Some bs) \<Rightarrow> Some (advance b bs tok) | _ \<Rightarrow> bstate s)\<rparr>))"

datatype step_end = NextFrame | StopFrames | SameFrame nat nat

text \<open>The decoder call of an iteration, skipped in a blank run.\<close>

definition call_decoder :: "rnnt \<Rightarrow> rn_state \<Rightarrow> decode_error + rn_state" where
  "call_decoder net s =
     (if in_blank_run s
      then (if \<not> cache_valid s then Inl StaleCache else Inr (s\<lparr>skipped_calls := skipped_calls s + 1\<rparr>))
      else (case run_decoder net (dstate s) of
              Inl e \<Rightarrow> Inl e
            | Inr pn_out \<Rightarrow> Inr (s\<lparr>dout := pn_out, cache_valid := True, decoder_calls := decoder_calls s + 1\<rparr>)))"

text \<open>What follows the joiner: a blank, the token cap, or a token to emit.\<close>

definition classify :: "rnnt \<Rightarrow> nat \<Rightarrow> rat list \<Rightarrow> nat \<Rightarrow> nat \<Rightarrow> rn_state \<Rightarrow> decode_error + step_end \<times> rn_state" where
  "classify net t logits tokens_this_step bias_overrides0 s =
     (let (tok, spent) = select_token logits (rn_blank net) (rn_biaser net) (bstate s) bias_overrides0;
          bias_overrides = (if spent then bias_overrides0 + 1 else bias_overrides0)
      in if tok = rn_blank net
         then let cb = consecutive_blanks (dstate s) + 1
              in Inr (NextFrame, s\<lparr>in_blank_run := True, dstate := (dstate s)\<lparr>consecutive_blanks := cb\<rparr>,
                   rn_endpoint := (if endpoint_blank_threshold (dstate s) \<le> cb \<and> rn_tokens s \<noteq> [] then True else rn_endpoint s)\<rparr>)
         else if MAX_TOKENS_PER_STEP \<le> tokens_this_step
         then Inr (NextFrame, s\<lparr>in_blank_run := False, cache_valid := False,
                   dstate := (dstate s)\<lparr>consecutive_blanks := 0\<rparr>, rn_endpoint := False\<rparr>)
         else (case commit_non_blank tok (rn_biaser net) (s\<lparr>rn_endpoint := False, in_blank_run := False\<rparr>) of
                 Inl e \<Rightarrow> Inl e
               | Inr s' \<Rightarrow> Inr (SameFrame (tokens_this_step + 1) bias_overrides,
                   s'\<lparr>rn_tokens := rn_tokens s' @
                        [\<lparr>token_id = tok, frame_index = t, tok_confidence = token_confidence (expf net) logits tok\<rparr>]\<rparr>)))"

definition poll :: "rnnt \<Rightarrow> rn_state \<Rightarrow> bool" where
  "poll net s = (case rn_abort net of None \<Rightarrow> False | Some f \<Rightarrow> f (rn_polls s))"

definition frame_step :: "rnnt \<Rightarrow> nat \<Rightarrow> rat list \<Rightarrow> nat \<Rightarrow> nat \<Rightarrow> rn_state \<Rightarrow> decode_error + step_end \<times> rn_state" where
  "frame_step net t enc_frame tokens_this_step bias_overrides s0 =
     (let s = s0\<lparr>rn_polls := rn_polls s0 + 1\<rparr>
      in if poll net s0 then Inr (StopFrames, s\<lparr>rn_endpoint := False\<rparr>)
         else (case call_decoder net s of
             Inl e \<Rightarrow> Inl e
           | Inr s \<Rightarrow>
               let s = s\<lparr>joiner_calls := joiner_calls s + 1\<rparr>
               in (case run_joiner_single net enc_frame (dec_data (dout s)) of
                     Inl e \<Rightarrow> Inl e
                   | Inr logits \<Rightarrow> classify net t logits tokens_this_step bias_overrides s)))"

lemma frame_step_same:
  assumes "frame_step net t f k o1 s = Inr (SameFrame k' o2, s')"
  shows "k < MAX_TOKENS_PER_STEP" "k' = Suc k" "MAX_TOKENS_PER_STEP - k' < MAX_TOKENS_PER_STEP - k"
proof -
  show k: "k < MAX_TOKENS_PER_STEP" "k' = Suc k"
    using assms by (auto simp: frame_step_def classify_def Let_def split: if_splits sum.splits prod.splits)
  then show "MAX_TOKENS_PER_STEP - k' < MAX_TOKENS_PER_STEP - k" by simp
qed

text \<open>The inner \<open>loop\<close>: it ends because a turn that stays in the frame emits a token.\<close>

function frame_loop :: "rnnt \<Rightarrow> nat \<Rightarrow> rat list \<Rightarrow> nat \<Rightarrow> nat \<Rightarrow> rn_state \<Rightarrow> decode_error + bool \<times> rn_state" where
  "frame_loop net t enc_frame k o1 s =
     (case frame_step net t enc_frame k o1 s of
        Inl e \<Rightarrow> Inl e
      | Inr (NextFrame, s') \<Rightarrow> Inr (True, s')
      | Inr (StopFrames, s') \<Rightarrow> Inr (False, s')
      | Inr (SameFrame k' o2, s') \<Rightarrow> frame_loop net t enc_frame k' o2 s')"
  by pat_completeness auto
termination
  by (relation "measure (\<lambda>(_, _, _, k, _, _). MAX_TOKENS_PER_STEP - k)") (auto dest: frame_step_same(3))

declare frame_loop.simps [simp del]

fun frames_loop :: "rnnt \<Rightarrow> rat list \<Rightarrow> nat \<Rightarrow> nat list \<Rightarrow> rn_state \<Rightarrow> decode_error + rn_state" where
  "frames_loop net encoded len [] s = Inr s"
| "frames_loop net encoded len (t # ts) s =
     (case frame_loop net t (extract_encoder_frame encoded len t) 0 0 s of
        Inl e \<Rightarrow> Inl e
      | Inr (True, s') \<Rightarrow> frames_loop net encoded len ts s'
      | Inr (False, s') \<Rightarrow> Inr s')"

definition output_default :: decoder_output where
  "output_default = \<lparr>dec_data = [], new_h = [], new_c = []\<rparr>"

definition rn_start :: "rnnt \<Rightarrow> decoder_state \<Rightarrow> rn_state" where
  "rn_start net st =
     \<lparr>rn_tokens = [], rn_endpoint = False, dstate = st, dout = output_default, cache_valid = False, in_blank_run = False,
      bstate = map_option (\<lambda>_. bias_state_new) (rn_biaser net), rn_polls = 0,
      decoder_calls = 0, joiner_calls = 0, skipped_calls = 0\<rparr>"

text \<open>
  The size test multiplies machine integers. A length whose product wraps past it leaves
  \<open>extract_encoder_frame\<close> an index out of bounds on the first frame.
\<close>

definition greedy_loop :: "rnnt \<Rightarrow> rat list \<Rightarrow> nat \<Rightarrow> decoder_state \<Rightarrow> decode_error + rn_state" where
  "greedy_loop net encoded len st =
     (if ENC_DIM * len \<le> length encoded then frames_loop net encoded len [0..<len] (rn_start net st)
      else if length encoded < ENC_DIM * len mod 2 ^ 64 then Inl EncoderSize
      else Inl DecodePanic)"

definition greedy_decode :: "rnnt \<Rightarrow> rat list \<Rightarrow> nat \<Rightarrow> decoder_state \<Rightarrow> decode_error + decode_result \<times> decoder_state" where
  "greedy_decode net encoded len st =
     (case greedy_loop net encoded len st of
        Inl e \<Rightarrow> Inl e
      | Inr s \<Rightarrow> Inr (\<lparr>res_tokens = rn_tokens s, endpoint_detected = rn_endpoint s\<rparr>, dstate s))"

section \<open>One turn\<close>

lemma run_decoder_blanks [simp]: "run_decoder net (st\<lparr>consecutive_blanks := n\<rparr>) = run_decoder net st"
  by (simp add: run_decoder_def)

lemma length_encoder_frame [simp]: "length (extract_encoder_frame encoded len t) = ENC_DIM"
  by (simp add: extract_encoder_frame_def)

lemma call_decoder_keeps:
  assumes "call_decoder net s = Inr s'"
  shows "rn_tokens s' = rn_tokens s" "rn_endpoint s' = rn_endpoint s" "dstate s' = dstate s" "bstate s' = bstate s"
    "rn_polls s' = rn_polls s" "joiner_calls s' = joiner_calls s" "cache_valid s'" "in_blank_run s' = in_blank_run s"
  using assms by (auto simp: call_decoder_def split: if_splits sum.splits)

lemma call_decoder_dout:
  assumes "call_decoder net s = Inr s'"
    and "in_blank_run s \<Longrightarrow> run_decoder net (dstate s) = Inr (dout s)"
  shows "run_decoder net (dstate s) = Inr (dout s')"
  using assms by (auto simp: call_decoder_def split: if_splits sum.splits)

text \<open>The three ways a turn can go, without the abort.\<close>

lemma classify_cases:
  assumes "classify net t logits k o1 s = Inr (e, s')"
  obtains (blank) "e = NextFrame"
      "s' = s\<lparr>in_blank_run := True, dstate := (dstate s)\<lparr>consecutive_blanks := consecutive_blanks (dstate s) + 1\<rparr>,
         rn_endpoint := (endpoint_blank_threshold (dstate s) \<le> consecutive_blanks (dstate s) + 1 \<and> rn_tokens s \<noteq> [] \<or> rn_endpoint s)\<rparr>"
    | (cap) "e = NextFrame" "MAX_TOKENS_PER_STEP \<le> k"
      "s' = s\<lparr>in_blank_run := False, cache_valid := False, dstate := (dstate s)\<lparr>consecutive_blanks := 0\<rparr>, rn_endpoint := False\<rparr>"
    | (emit) tok o2 where "e = SameFrame (Suc k) o2" "k < MAX_TOKENS_PER_STEP" "tok \<noteq> rn_blank net"
      "length (new_h (dout s)) = PRED_HIDDEN" "length (new_c (dout s)) = PRED_HIDDEN"
      "rn_tokens s' = rn_tokens s @ [\<lparr>token_id = tok, frame_index = t, tok_confidence = token_confidence (expf net) logits tok\<rparr>]"
      "\<not> rn_endpoint s'" "\<not> in_blank_run s'"
      "dstate s' = (dstate s)\<lparr>consecutive_blanks := 0, prev_token := int tok, hid := new_h (dout s), cell := new_c (dout s)\<rparr>"
      "rn_polls s' = rn_polls s" "joiner_calls s' = joiner_calls s"
  using assms
  by (auto simp: classify_def commit_non_blank_def Let_def split: prod.splits if_splits)

lemma frame_step_cases:
  assumes "frame_step net t f k o1 s = Inr (e, s')"
  obtains (abort) "poll net s" "e = StopFrames" "s' = s\<lparr>rn_polls := rn_polls s + 1, rn_endpoint := False\<rparr>"
    | (turn) s1 logits where "call_decoder net (s\<lparr>rn_polls := rn_polls s + 1\<rparr>) = Inr s1"
      "run_joiner_single net f (dec_data (dout s1)) = Inr logits"
      "classify net t logits k o1 (s1\<lparr>joiner_calls := joiner_calls s1 + 1\<rparr>) = Inr (e, s')"
  using assms by (auto simp: frame_step_def Let_def split: if_splits sum.splits)

section \<open>What is emitted\<close>

text \<open>Facts about a decode in progress: the tokens so far, the shape of the state, the endpoint flag.\<close>

definition emitted_ok :: "rnnt \<Rightarrow> nat \<Rightarrow> rn_state \<Rightarrow> bool" where
  "emitted_ok net t s \<longleftrightarrow> sorted (map frame_index (rn_tokens s))
     \<and> list_all (\<lambda>x. frame_index x \<le> t \<and> token_id x \<noteq> rn_blank net
          \<and> (\<exists>logits. tok_confidence x = token_confidence (expf net) logits (token_id x))) (rn_tokens s)
     \<and> length (hid (dstate s)) = PRED_HIDDEN \<and> length (cell (dstate s)) = PRED_HIDDEN"

definition in_frame :: "nat \<Rightarrow> token_info list \<Rightarrow> nat" where
  "in_frame t ts = length (filter (\<lambda>x. frame_index x = t) ts)"

definition endpoint_ok :: "rn_state \<Rightarrow> bool" where
  "endpoint_ok s \<longleftrightarrow> 0 < endpoint_blank_threshold (dstate s)
     \<and> (rn_endpoint s \<longleftrightarrow> rn_tokens s \<noteq> [] \<and> endpoint_blank_threshold (dstate s) \<le> consecutive_blanks (dstate s))"

lemma frame_step_ok:
  assumes "frame_step net t f k o1 s = Inr (e, s')" "emitted_ok net t s" "in_frame t (rn_tokens s) \<le> k"
  shows "emitted_ok net t s'"
    and "case e of SameFrame k' _ \<Rightarrow> k < MAX_TOKENS_PER_STEP \<and> k' = Suc k \<and> in_frame t (rn_tokens s') \<le> k'
       | _ \<Rightarrow> rn_tokens s' = rn_tokens s"
    and "joiner_calls s' \<le> Suc (joiner_calls s)"
    and "\<exists>new. rn_tokens s' = rn_tokens s @ new \<and> list_all (\<lambda>x. frame_index x = t) new"
    and "endpoint_ok s \<Longrightarrow> e \<noteq> StopFrames \<Longrightarrow> endpoint_ok s'"
    and "e = StopFrames \<Longrightarrow> \<not> rn_endpoint s'"
    and "endpoint_blank_threshold (dstate s') = endpoint_blank_threshold (dstate s)"
proof -
  have all: "emitted_ok net t s'
      \<and> (case e of SameFrame k' _ \<Rightarrow> k < MAX_TOKENS_PER_STEP \<and> k' = Suc k \<and> in_frame t (rn_tokens s') \<le> k'
         | _ \<Rightarrow> rn_tokens s' = rn_tokens s)
      \<and> joiner_calls s' \<le> Suc (joiner_calls s)
      \<and> (\<exists>new. rn_tokens s' = rn_tokens s @ new \<and> list_all (\<lambda>x. frame_index x = t) new)
      \<and> (endpoint_ok s \<longrightarrow> e \<noteq> StopFrames \<longrightarrow> endpoint_ok s') \<and> (e = StopFrames \<longrightarrow> \<not> rn_endpoint s')
      \<and> endpoint_blank_threshold (dstate s') = endpoint_blank_threshold (dstate s)"
    using assms(1)
  proof (cases rule: frame_step_cases)
    case abort
    then show ?thesis using assms(2) by (simp add: emitted_ok_def)
  next
    case (turn s1 logits)
    note k1 = call_decoder_keeps[OF turn(1), simplified]
    from turn(3) show ?thesis
    proof (cases rule: classify_cases)
      case blank
      then show ?thesis using assms(2) k1 by (auto simp: emitted_ok_def endpoint_ok_def)
    next
      case cap
      then show ?thesis using assms(2) k1 by (auto simp: emitted_ok_def endpoint_ok_def)
    next
      case (emit tok o2)
      then show ?thesis using assms(2,3) k1
        by (auto simp: emitted_ok_def endpoint_ok_def in_frame_def sorted_append list_all_iff)
    qed
  qed
  show "emitted_ok net t s'"
    "case e of SameFrame k' _ \<Rightarrow> k < MAX_TOKENS_PER_STEP \<and> k' = Suc k \<and> in_frame t (rn_tokens s') \<le> k'
       | _ \<Rightarrow> rn_tokens s' = rn_tokens s"
    "joiner_calls s' \<le> Suc (joiner_calls s)"
    "\<exists>new. rn_tokens s' = rn_tokens s @ new \<and> list_all (\<lambda>x. frame_index x = t) new"
    "endpoint_ok s \<Longrightarrow> e \<noteq> StopFrames \<Longrightarrow> endpoint_ok s'"
    "e = StopFrames \<Longrightarrow> \<not> rn_endpoint s'"
    "endpoint_blank_threshold (dstate s') = endpoint_blank_threshold (dstate s)" using all by blast+
qed

lemma frame_loop_ok:
  assumes "frame_loop net t f k o1 s = Inr (go, s')" "emitted_ok net t s" "in_frame t (rn_tokens s) \<le> k"
    "k \<le> MAX_TOKENS_PER_STEP"
  shows "emitted_ok net t s' \<and> in_frame t (rn_tokens s') \<le> MAX_TOKENS_PER_STEP
    \<and> joiner_calls s' \<le> joiner_calls s + Suc (MAX_TOKENS_PER_STEP - k)
    \<and> (\<exists>new. rn_tokens s' = rn_tokens s @ new \<and> list_all (\<lambda>x. frame_index x = t) new)
    \<and> (endpoint_ok s \<longrightarrow> go \<longrightarrow> endpoint_ok s') \<and> (\<not> go \<longrightarrow> \<not> rn_endpoint s')
    \<and> endpoint_blank_threshold (dstate s') = endpoint_blank_threshold (dstate s)"
  using assms
proof (induction net t f k o1 s rule: frame_loop.induct)
  case (1 net t f k o1 s)
  obtain e s1 where st: "frame_step net t f k o1 s = Inr (e, s1)"
    using "1.prems"(1) by (subst (asm) frame_loop.simps) (auto split: sum.splits)
  note ok = frame_step_ok[OF st "1.prems"(2,3)]
  show ?case
  proof (cases e)
    case NextFrame
    then have "go" "s' = s1" using "1.prems"(1) st by (subst (asm) frame_loop.simps, simp)+
    then show ?thesis using ok NextFrame "1.prems" by auto
  next
    case StopFrames
    then have "\<not> go" "s' = s1" using "1.prems"(1) st by (subst (asm) frame_loop.simps, simp)+
    then show ?thesis using ok StopFrames "1.prems" by auto
  next
    case (SameFrame k' o2)
    then have r: "frame_loop net t f k' o2 s1 = Inr (go, s')" using "1.prems"(1) st
      by (subst (asm) frame_loop.simps) simp
    have k': "k < MAX_TOKENS_PER_STEP" "k' = Suc k" "in_frame t (rn_tokens s1) \<le> k'" using ok(2) SameFrame by auto
    from "1.IH"[OF st refl SameFrame r ok(1) k'(3)] k' have ih: "emitted_ok net t s' \<and> in_frame t (rn_tokens s') \<le> MAX_TOKENS_PER_STEP
      \<and> joiner_calls s' \<le> joiner_calls s1 + Suc (MAX_TOKENS_PER_STEP - k')
      \<and> (\<exists>new. rn_tokens s' = rn_tokens s1 @ new \<and> list_all (\<lambda>x. frame_index x = t) new)
      \<and> (endpoint_ok s1 \<longrightarrow> go \<longrightarrow> endpoint_ok s') \<and> (\<not> go \<longrightarrow> \<not> rn_endpoint s')
      \<and> endpoint_blank_threshold (dstate s') = endpoint_blank_threshold (dstate s1)" by simp
    have j: "joiner_calls s' \<le> joiner_calls s + Suc (MAX_TOKENS_PER_STEP - k)" using ih ok(3) k' by linarith
    have n: "\<exists>new. rn_tokens s' = rn_tokens s @ new \<and> list_all (\<lambda>x. frame_index x = t) new"
      using ih ok(4) by (metis append.assoc list_all_append)
    show ?thesis using ih j n ok(5,7) SameFrame by simp
  qed
qed

lemma frame_loop_go:
  assumes "rn_abort net = None" "frame_loop net t f k o1 s = Inr (go, s')"
  shows "go"
  using assms
proof (induction net t f k o1 s rule: frame_loop.induct)
  case (1 net t f k o1 s)
  obtain e s1 where st: "frame_step net t f k o1 s = Inr (e, s1)"
    using "1.prems"(2) by (subst (asm) frame_loop.simps) (auto split: sum.splits)
  have "e \<noteq> StopFrames" using st "1.prems"(1)
  proof (cases rule: frame_step_cases)
    case (turn s2 logits)
    from turn(3) show ?thesis by (cases rule: classify_cases) simp_all
  qed (simp add: poll_def)
  moreover have "frame_loop net t f k o1 s = (case e of NextFrame \<Rightarrow> Inr (True, s1) | StopFrames \<Rightarrow> Inr (False, s1)
      | SameFrame k' o2 \<Rightarrow> frame_loop net t f k' o2 s1)"
    by (subst frame_loop.simps) (simp add: st split: step_end.split)
  ultimately show ?case using "1.prems"(2) "1.IH"[OF st refl _ "1.prems"(1)] by (cases e) simp_all
qed

lemma frames_loop_ok:
  assumes "frames_loop net encoded len [a..<b] s = Inr s'" "a \<le> b"
    and "emitted_ok net a s" "list_all (\<lambda>x. frame_index x < a) (rn_tokens s)"
    and "\<forall>u. in_frame u (rn_tokens s) \<le> MAX_TOKENS_PER_STEP"
  shows "emitted_ok net b s' \<and> list_all (\<lambda>x. frame_index x < b) (rn_tokens s')
    \<and> (\<forall>u. in_frame u (rn_tokens s') \<le> MAX_TOKENS_PER_STEP)
    \<and> joiner_calls s' \<le> joiner_calls s + Suc MAX_TOKENS_PER_STEP * (b - a)
    \<and> (endpoint_ok s \<longrightarrow> rn_abort net = None \<longrightarrow> endpoint_ok s')
    \<and> (endpoint_ok s \<longrightarrow> rn_endpoint s' \<longrightarrow> endpoint_ok s')
    \<and> endpoint_blank_threshold (dstate s') = endpoint_blank_threshold (dstate s)"
  using assms
proof (induction "b - a" arbitrary: a s)
  case 0
  then have "[a..<b] = []" "b = a" by simp_all
  then show ?case using 0 by simp
next
  case (Suc n)
  then have up: "[a..<b] = a # [Suc a..<b]" by (simp add: upt_conv_Cons)
  obtain go s1 where f: "frame_loop net a (extract_encoder_frame encoded len a) 0 0 s = Inr (go, s1)"
    using Suc.prems(1) unfolding up by (auto split: sum.splits)
  have z: "in_frame a (rn_tokens s) \<le> 0" using Suc.prems(4) by (auto simp: in_frame_def filter_empty_conv list_all_iff)
  from frame_loop_ok[OF f Suc.prems(3) z] have o: "emitted_ok net a s1" "in_frame a (rn_tokens s1) \<le> MAX_TOKENS_PER_STEP"
    "joiner_calls s1 \<le> joiner_calls s + Suc MAX_TOKENS_PER_STEP"
    "endpoint_ok s \<Longrightarrow> go \<Longrightarrow> endpoint_ok s1" "\<not> go \<Longrightarrow> \<not> rn_endpoint s1"
    "endpoint_blank_threshold (dstate s1) = endpoint_blank_threshold (dstate s)"
    and "\<exists>new. rn_tokens s1 = rn_tokens s @ new \<and> list_all (\<lambda>x. frame_index x = a) new" by auto
  then obtain new where new: "rn_tokens s1 = rn_tokens s @ new" "list_all (\<lambda>x. frame_index x = a) new" by blast
  have per: "in_frame u (rn_tokens s1) \<le> MAX_TOKENS_PER_STEP" for u
  proof (cases "u = a")
    case False
    then have "filter (\<lambda>x. frame_index x = u) new = []" using new(2) by (auto simp: filter_empty_conv list_all_iff)
    then have "in_frame u (rn_tokens s1) = in_frame u (rn_tokens s)" by (simp add: in_frame_def new(1))
    then show ?thesis using Suc.prems(5) by simp
  qed (use o(2) in simp)
  have lt: "list_all (\<lambda>x. frame_index x < Suc a) (rn_tokens s1)"
    using Suc.prems(4) new by (auto simp: list_all_iff less_Suc_eq)
  have em: "emitted_ok net (Suc a) s1" using o(1) by (auto simp: emitted_ok_def list_all_iff)
  have bl: "Suc a \<le> b" "n = b - Suc a" using Suc.hyps by simp_all
  show ?case
  proof (cases go)
    case True
    then have r: "frames_loop net encoded len [Suc a..<b] s1 = Inr s'" using Suc.prems(1) f unfolding up by simp
    from Suc.hyps(1)[OF bl(2) r bl(1) em lt] per
    have ih: "emitted_ok net b s' \<and> list_all (\<lambda>x. frame_index x < b) (rn_tokens s')
      \<and> (\<forall>u. in_frame u (rn_tokens s') \<le> MAX_TOKENS_PER_STEP)
      \<and> joiner_calls s' \<le> joiner_calls s1 + Suc MAX_TOKENS_PER_STEP * (b - Suc a)
      \<and> (endpoint_ok s1 \<longrightarrow> rn_abort net = None \<longrightarrow> endpoint_ok s')
      \<and> (endpoint_ok s1 \<longrightarrow> rn_endpoint s' \<longrightarrow> endpoint_ok s')
      \<and> endpoint_blank_threshold (dstate s') = endpoint_blank_threshold (dstate s1)" by blast
    have "b - a = Suc (b - Suc a)" using bl by simp
    then have "Suc MAX_TOKENS_PER_STEP * (b - a) = Suc MAX_TOKENS_PER_STEP + Suc MAX_TOKENS_PER_STEP * (b - Suc a)"
      by (simp only: mult_Suc_right)
    moreover have "joiner_calls s' \<le> joiner_calls s1 + Suc MAX_TOKENS_PER_STEP * (b - Suc a)" using ih by blast
    ultimately have "joiner_calls s' \<le> joiner_calls s + Suc MAX_TOKENS_PER_STEP * (b - a)" using o(3) by linarith
    then show ?thesis using ih o(4,6) True by simp
  next
    case False
    then have s': "s' = s1" using Suc.prems(1) f unfolding up by simp
    have "b - a = Suc (b - Suc a)" using bl by simp
    then have "Suc MAX_TOKENS_PER_STEP * (b - a) = Suc MAX_TOKENS_PER_STEP + Suc MAX_TOKENS_PER_STEP * (b - Suc a)"
      by (simp only: mult_Suc_right)
    then have j: "joiner_calls s' \<le> joiner_calls s + Suc MAX_TOKENS_PER_STEP * (b - a)"
      using o(3) unfolding s' by linarith
    have "list_all (\<lambda>x. frame_index x < b) (rn_tokens s')" "emitted_ok net b s'"
      using lt em bl(1) s' by (auto simp: list_all_iff emitted_ok_def)
    moreover have "rn_abort net \<noteq> None" using frame_loop_go[OF _ f] False by blast
    ultimately show ?thesis using j per o(5,6) False s' by auto
  qed
qed

lemma start_ok:
  assumes "length (hid st) = PRED_HIDDEN" "length (cell st) = PRED_HIDDEN"
  shows "emitted_ok net 0 (rn_start net st)"
    and "0 < endpoint_blank_threshold st \<Longrightarrow> endpoint_ok (rn_start net st)"
  using assms by (simp_all add: emitted_ok_def rn_start_def endpoint_ok_def)

lemma greedy_loop_bounds:
  assumes "greedy_loop net encoded len st = Inr s"
    and "length (hid st) = PRED_HIDDEN" "length (cell st) = PRED_HIDDEN" "0 < endpoint_blank_threshold st"
  shows "list_all (\<lambda>x. \<exists>logits. tok_confidence x = token_confidence (expf net) logits (token_id x)) (rn_tokens s)
    \<and> sorted (map frame_index (rn_tokens s))
    \<and> list_all (\<lambda>x. frame_index x < len \<and> token_id x \<noteq> rn_blank net) (rn_tokens s)
    \<and> length (filter (\<lambda>x. frame_index x = t) (rn_tokens s)) \<le> 10
    \<and> joiner_calls s \<le> 11 * len
    \<and> length (hid (dstate s)) = PRED_HIDDEN \<and> length (cell (dstate s)) = PRED_HIDDEN
    \<and> (rn_endpoint s \<longrightarrow> rn_tokens s \<noteq> [] \<and> endpoint_blank_threshold st \<le> consecutive_blanks (dstate s))
    \<and> (rn_abort net = None \<longrightarrow> rn_tokens s \<noteq> [] \<longrightarrow> endpoint_blank_threshold st \<le> consecutive_blanks (dstate s)
         \<longrightarrow> rn_endpoint s)"
proof -
  have f: "frames_loop net encoded len [0..<len] (rn_start net st) = Inr s"
    using assms(1) by (simp add: greedy_loop_def split: if_splits)
  have t: "rn_tokens (rn_start net st) = []" "joiner_calls (rn_start net st) = 0"
    "endpoint_blank_threshold (dstate (rn_start net st)) = endpoint_blank_threshold st" by (simp_all add: rn_start_def)
  from frames_loop_ok[OF f _ start_ok(1)[OF assms(2,3)]] start_ok(2)[OF assms(2-4), of net] t
  have "emitted_ok net len s" "list_all (\<lambda>x. frame_index x < len) (rn_tokens s)"
    "in_frame t (rn_tokens s) \<le> MAX_TOKENS_PER_STEP" "joiner_calls s \<le> Suc MAX_TOKENS_PER_STEP * len"
    "rn_abort net = None \<longrightarrow> endpoint_ok s" "rn_endpoint s \<longrightarrow> endpoint_ok s"
    "endpoint_blank_threshold (dstate s) = endpoint_blank_threshold st"
    by (auto simp: in_frame_def)
  note ok = this
  have tk: "list_all (\<lambda>x. frame_index x < len \<and> token_id x \<noteq> rn_blank net) (rn_tokens s)"
    using ok(1,2) by (simp add: emitted_ok_def list_all_iff)
  have n: "length (filter (\<lambda>x. frame_index x = t) (rn_tokens s)) \<le> 10" "joiner_calls s \<le> 11 * len"
    using ok(3,4) by (simp_all add: in_frame_def MAX_TOKENS_PER_STEP_def)
  have e: "rn_endpoint s \<longrightarrow> rn_tokens s \<noteq> [] \<and> endpoint_blank_threshold st \<le> consecutive_blanks (dstate s)"
    "rn_abort net = None \<longrightarrow> rn_tokens s \<noteq> [] \<longrightarrow> endpoint_blank_threshold st \<le> consecutive_blanks (dstate s)
       \<longrightarrow> rn_endpoint s"
    using ok(5-7) unfolding endpoint_ok_def by metis+
  show ?thesis using ok(1) tk n e by (simp add: emitted_ok_def list_all_iff)
qed

text \<open>
  C8: the transducer loop ends and stays within its budget. From a state of the right shape,
  whatever the networks answer, a decode that returns has emitted at most ten tokens on any
  encoder frame and none of them blank, in the order of the frames and inside the audio, has
  called the joiner at most eleven times per frame, and hands back a state of the right shape.
  The endpoint flag is raised exactly when something was recognized and the trailing run of blank
  frames has reached the threshold; an aborted decode never raises it without that.
\<close>
theorem transducer_decode_bounded:
  assumes "greedy_loop net encoded len st = Inr s"
    and "length (hid st) = PRED_HIDDEN" "length (cell st) = PRED_HIDDEN" "0 < endpoint_blank_threshold st"
  shows "sorted (map frame_index (rn_tokens s))
    \<and> list_all (\<lambda>x. frame_index x < len \<and> token_id x \<noteq> rn_blank net) (rn_tokens s)
    \<and> length (filter (\<lambda>x. frame_index x = t) (rn_tokens s)) \<le> 10
    \<and> joiner_calls s \<le> 11 * len
    \<and> length (hid (dstate s)) = PRED_HIDDEN \<and> length (cell (dstate s)) = PRED_HIDDEN
    \<and> (rn_endpoint s \<longrightarrow> rn_tokens s \<noteq> [] \<and> endpoint_blank_threshold st \<le> consecutive_blanks (dstate s))
    \<and> (rn_abort net = None \<longrightarrow> rn_tokens s \<noteq> [] \<longrightarrow> endpoint_blank_threshold st \<le> consecutive_blanks (dstate s)
         \<longrightarrow> rn_endpoint s)"
  using greedy_loop_bounds[OF assms] by blast

definition demo_net :: rnnt where
  "demo_net = \<lparr>
     decoder_net = (\<lambda>p h c. Inr \<lparr>dec_data = replicate PRED_HIDDEN (of_int p), new_h = replicate PRED_HIDDEN 0, new_c = replicate PRED_HIDDEN 0\<rparr>),
     joiner_net = (\<lambda>f d. Inr (if hd d = 2 then [0, 5, 1] else [0, 1, 5])),
     expf = (\<lambda>x. if x = 0 then 1 else 1 / 8), rn_blank = 2, rn_biaser = None, rn_abort = None\<rparr>"

lemma hd_pred: "hd (replicate PRED_HIDDEN x) = x"
  by (simp add: PRED_HIDDEN_def)

lemmas demo_net_simps = demo_net_def frame_loop.simps frame_step_def poll_def call_decoder_def classify_def select_token_def
  run_decoder_def run_joiner_single_def hd_pred
  argmax_def better_logit_def commit_non_blank_def MAX_TOKENS_PER_STEP_def token_confidence_def rn_start_def
  output_default_def

lemma demo_net_run:
  assumes "hid st = replicate PRED_HIDDEN 0" "cell st = replicate PRED_HIDDEN 0" "prev_token st = 2" "endpoint_blank_threshold st = 2"
  shows "\<exists>s. greedy_loop demo_net (replicate (ENC_DIM * 2) 0) 2 st = Inr s
     \<and> rn_tokens s = [\<lparr>token_id = 1, frame_index = 0, tok_confidence = 4 / 5\<rparr>]
     \<and> rn_endpoint s \<and> joiner_calls s = 3 \<and> decoder_calls s = 2"
  using assms by (simp add: greedy_loop_def upt_rec demo_net_simps)

lemma transducer_decode_bounded_witness:
  "\<exists>s. greedy_loop demo_net (replicate (ENC_DIM * 2) 0) 2 ((decoder_state_new 2)\<lparr>endpoint_blank_threshold := 2\<rparr>) = Inr s
     \<and> rn_endpoint s \<and> map token_id (rn_tokens s) = [1] \<and> joiner_calls s \<le> 11 * 2"
proof -
  let ?st = "(decoder_state_new 2)\<lparr>endpoint_blank_threshold := 2\<rparr>"
  have st: "hid ?st = replicate PRED_HIDDEN 0" "cell ?st = replicate PRED_HIDDEN 0" "prev_token ?st = 2"
    "endpoint_blank_threshold ?st = 2" by (simp_all add: decoder_state_new_def)
  obtain s where s: "greedy_loop demo_net (replicate (ENC_DIM * 2) 0) 2 ?st = Inr s"
    "rn_tokens s = [\<lparr>token_id = 1, frame_index = 0, tok_confidence = 4 / 5\<rparr>]" "rn_endpoint s"
    using demo_net_run[OF st] by blast
  have "joiner_calls s \<le> 11 * 2" using transducer_decode_bounded[OF s(1)] st by simp
  then show ?thesis using s by (intro exI[of _ s]) simp
qed

section \<open>The cache\<close>

text \<open>The reference: the same loop that forgets its blank run and so asks the network every time.\<close>

definition uncached_step :: "rnnt \<Rightarrow> nat \<Rightarrow> rat list \<Rightarrow> nat \<Rightarrow> nat \<Rightarrow> rn_state \<Rightarrow> decode_error + step_end \<times> rn_state" where
  "uncached_step net t f k o1 s = frame_step net t f k o1 (s\<lparr>in_blank_run := False\<rparr>)"

lemma uncached_step_same:
  "uncached_step net t f k o1 s = Inr (SameFrame k' o2, s') \<Longrightarrow> MAX_TOKENS_PER_STEP - k' < MAX_TOKENS_PER_STEP - k"
  unfolding uncached_step_def by (rule frame_step_same(3))

function uncached_frame :: "rnnt \<Rightarrow> nat \<Rightarrow> rat list \<Rightarrow> nat \<Rightarrow> nat \<Rightarrow> rn_state \<Rightarrow> decode_error + bool \<times> rn_state" where
  "uncached_frame net t f k o1 s =
     (case uncached_step net t f k o1 s of
        Inl e \<Rightarrow> Inl e
      | Inr (NextFrame, s') \<Rightarrow> Inr (True, s')
      | Inr (StopFrames, s') \<Rightarrow> Inr (False, s')
      | Inr (SameFrame k' o2, s') \<Rightarrow> uncached_frame net t f k' o2 s')"
  by pat_completeness auto
termination
  by (relation "measure (\<lambda>(_, _, _, k, _, _). MAX_TOKENS_PER_STEP - k)") (auto dest: uncached_step_same)

declare uncached_frame.simps [simp del]

fun uncached_frames :: "rnnt \<Rightarrow> rat list \<Rightarrow> nat \<Rightarrow> nat list \<Rightarrow> rn_state \<Rightarrow> decode_error + rn_state" where
  "uncached_frames net encoded len [] s = Inr s"
| "uncached_frames net encoded len (t # ts) s =
     (case uncached_frame net t (extract_encoder_frame encoded len t) 0 0 s of
        Inl e \<Rightarrow> Inl e
      | Inr (True, s') \<Rightarrow> uncached_frames net encoded len ts s'
      | Inr (False, s') \<Rightarrow> Inr s')"

definition uncached_decode :: "rnnt \<Rightarrow> rat list \<Rightarrow> nat \<Rightarrow> decoder_state \<Rightarrow> decode_error + decode_result \<times> decoder_state" where
  "uncached_decode net encoded len st =
     (if ENC_DIM * len \<le> length encoded
      then (case uncached_frames net encoded len [0..<len] (rn_start net st) of
              Inl e \<Rightarrow> Inl e
            | Inr s \<Rightarrow> Inr (\<lparr>res_tokens = rn_tokens s, endpoint_detected = rn_endpoint s\<rparr>, dstate s))
      else if length encoded < ENC_DIM * len mod 2 ^ 64 then Inl EncoderSize
      else Inl DecodePanic)"

definition same_decode :: "rnnt \<Rightarrow> rn_state \<Rightarrow> rn_state \<Rightarrow> bool" where
  "same_decode net s u \<longleftrightarrow> rn_tokens s = rn_tokens u \<and> rn_endpoint s = rn_endpoint u \<and> dstate s = dstate u
     \<and> bstate s = bstate u \<and> rn_polls s = rn_polls u
     \<and> (in_blank_run s \<longrightarrow> cache_valid s
          \<and> run_decoder net (dstate s) = Inr (dout s))"

text \<open>The results of the two loops, compared.\<close>

fun same_result :: "('e \<Rightarrow> 's \<Rightarrow> 's \<Rightarrow> bool) \<Rightarrow> decode_error + 'e \<times> 's \<Rightarrow> decode_error + 'e \<times> 's \<Rightarrow> bool" where
  "same_result R (Inl e) (Inl e') \<longleftrightarrow> e = e'"
| "same_result R (Inr (e, s)) (Inr (e', s')) \<longleftrightarrow> e = e' \<and> R e s s'"
| "same_result R _ _ \<longleftrightarrow> False"

lemma classify_same:
  assumes "same_decode net (s\<lparr>in_blank_run := False\<rparr>) (u\<lparr>in_blank_run := False\<rparr>)" "dout s = dout u"
    and "run_decoder net (dstate s) = Inr (dout s)" "cache_valid s"
  shows "same_result (\<lambda>_. same_decode net) (classify net t logits k o1 s) (classify net t logits k o1 u)"
proof -
  have e: "rn_tokens u = rn_tokens s" "rn_endpoint u = rn_endpoint s" "dstate u = dstate s" "bstate u = bstate s"
    "rn_polls u = rn_polls s" "dout u = dout s" using assms by (simp_all add: same_decode_def)
  obtain tok spent where sel: "select_token logits (rn_blank net) (rn_biaser net) (bstate s) o1 = (tok, spent)"
    by (cases "select_token logits (rn_blank net) (rn_biaser net) (bstate s) o1")
  show ?thesis
  proof (cases "tok = rn_blank net \<or> MAX_TOKENS_PER_STEP \<le> k")
    case True
    then show ?thesis using e sel assms(3,4) by (auto simp: classify_def same_decode_def Let_def)
  next
    case False
    then show ?thesis using e sel
      by (simp add: classify_def commit_non_blank_def same_decode_def Let_def split: option.split)
  qed
qed

lemma frame_step_uncached:
  assumes "same_decode net s u"
  shows "same_result (\<lambda>_. same_decode net) (frame_step net t f k o1 s) (uncached_step net t f k o1 u)"
proof (cases "poll net s")
  case True
  then show ?thesis using assms by (auto simp: frame_step_def uncached_step_def poll_def same_decode_def Let_def split: option.splits)
next
  case False
  then have pu: "\<not> poll net (u\<lparr>in_blank_run := False\<rparr>)" using assms by (auto simp: poll_def same_decode_def split: option.splits)
  let ?net = "run_decoder net (dstate s)"
  let ?s = "s\<lparr>rn_polls := rn_polls s + 1\<rparr>" and ?u = "u\<lparr>in_blank_run := False, rn_polls := rn_polls u + 1\<rparr>"
  have d: "dstate u = dstate s" using assms by (simp add: same_decode_def)
  have blank: "in_blank_run s \<Longrightarrow> ?net = Inr (dout s)" using assms unfolding same_decode_def by blast
  show ?thesis
  proof (cases ?net)
    case (Inl e)
    then have "call_decoder net ?s = Inl e" "call_decoder net ?u = Inl e"
      using assms d by (auto simp: call_decoder_def same_decode_def)
    then show ?thesis using False pu by (simp add: frame_step_def uncached_step_def Let_def)
  next
    case (Inr pn_out)
    have "\<exists>s1. call_decoder net ?s = Inr s1"
      using assms Inr by (cases "in_blank_run s") (simp_all add: call_decoder_def same_decode_def)
    then obtain s1 where s1: "call_decoder net ?s = Inr s1" by blast
    obtain u1 where u1: "call_decoder net ?u = Inr u1" "dout u1 = pn_out"
      using Inr d by (auto simp: call_decoder_def)
    note ks = call_decoder_keeps[OF s1, simplified] and ku = call_decoder_keeps[OF u1(1), simplified]
    have "in_blank_run ?s \<Longrightarrow> run_decoder net (dstate ?s) = Inr (dout ?s)"
      using blank by simp
    from call_decoder_dout[OF s1 this] have "?net = Inr (dout s1)" by simp
    then have ds: "dout s1 = pn_out" using Inr by simp
    have "same_result (\<lambda>_. same_decode net) (classify net t logits k o1 (s1\<lparr>joiner_calls := joiner_calls s1 + 1\<rparr>))
        (classify net t logits k o1 (u1\<lparr>joiner_calls := joiner_calls u1 + 1\<rparr>))" for logits
      by (rule classify_same) (use assms ks ku ds u1(2) Inr d in \<open>simp_all add: same_decode_def\<close>)
    then show ?thesis using False pu s1 u1 ds
      by (cases "run_joiner_single net f (dec_data pn_out)") (simp_all add: frame_step_def uncached_step_def Let_def)
  qed
qed

lemma frame_loop_uncached:
  "same_decode net s u \<Longrightarrow> same_result (\<lambda>_. same_decode net) (frame_loop net t f k o1 s) (uncached_frame net t f k o1 u)"
proof (induction net t f k o1 s arbitrary: u rule: frame_loop.induct)
  case (1 net t f k o1 s)
  note st = frame_step_uncached[OF "1.prems", of t f k o1]
  show ?case
  proof (cases "frame_step net t f k o1 s")
    case (Inl e)
    then have "uncached_step net t f k o1 u = Inl e" using st by (cases "uncached_step net t f k o1 u") auto
    then show ?thesis using Inl by (simp add: frame_loop.simps[of net t f k o1 s] uncached_frame.simps[of net t f k o1 u])
  next
    case (Inr p)
    obtain e s1 where p: "p = (e, s1)" by (cases p)
    obtain u1 where u: "uncached_step net t f k o1 u = Inr (e, u1)" "same_decode net s1 u1"
      using st Inr p by (cases "uncached_step net t f k o1 u") auto
    have st: "frame_step net t f k o1 s = Inr (e, s1)" using Inr p by simp
    show ?thesis using st u "1.IH"[OF st refl _ u(2)]
      by (simp add: frame_loop.simps[of net t f k o1 s] uncached_frame.simps[of net t f k o1 u] split: step_end.split)
  qed
qed

lemma frames_loop_uncached:
  "same_decode net s u \<Longrightarrow>
     (case frames_loop net encoded len ts s of
        Inl e \<Rightarrow> uncached_frames net encoded len ts u = Inl e
      | Inr s' \<Rightarrow> \<exists>u'. uncached_frames net encoded len ts u = Inr u' \<and> same_decode net s' u')"
proof (induction ts arbitrary: s u)
  case (Cons t ts)
  let ?f = "extract_encoder_frame encoded len t"
  note fr = frame_loop_uncached[OF Cons.prems, of t ?f 0 0]
  show ?case
  proof (cases "frame_loop net t ?f 0 0 s")
    case (Inl e)
    then show ?thesis using fr by (cases "uncached_frame net t ?f 0 0 u") auto
  next
    case (Inr p)
    obtain go s1 where p: "p = (go, s1)" by (cases p)
    obtain u1 where u1: "uncached_frame net t ?f 0 0 u = Inr (go, u1)" and sm: "same_decode net s1 u1"
      using fr Inr p by (cases "uncached_frame net t ?f 0 0 u") auto
    show ?thesis using Inr p u1 sm Cons.IH[OF sm] by (cases go) (auto split: sum.splits)
  qed
qed simp

lemma frames_uncached: "greedy_decode net encoded len st = uncached_decode net encoded len st"
proof -
  have "same_decode net (rn_start net st) (rn_start net st)" by (simp add: same_decode_def rn_start_def)
  from frames_loop_uncached[OF this, of encoded len "[0..<len]"] show ?thesis
    by (auto simp: greedy_decode_def greedy_loop_def uncached_decode_def same_decode_def split: sum.splits)
qed

text \<open>
  C14: the decoder cache changes no result. Skipping the prediction network in a run of blanks
  gives, for all networks, biasers and abort closures, the same tokens, confidences, endpoint flag,
  final state and errors as asking it in every turn.
\<close>
theorem cached_decode_equals_uncached:
  "greedy_decode net encoded len st = uncached_decode net encoded len st"
  by (rule frames_uncached)

section \<open>Errors\<close>

text \<open>
  The errors the networks can cause: their own, a hidden state of the wrong length, and the panic
  of copying an output of the wrong length into the joiner.
\<close>

definition net_error :: "rnnt \<Rightarrow> decode_error \<Rightarrow> bool" where
  "net_error net e \<longleftrightarrow> (\<exists>p h c. decoder_net net p h c = Inl e) \<or> (\<exists>f d. joiner_net net f d = Inl e)
     \<or> (\<exists>p h c y. decoder_net net p h c = Inr y \<and> (length (new_h y) \<noteq> PRED_HIDDEN \<or> length (new_c y) \<noteq> PRED_HIDDEN)
          \<and> e = StateShape (length (new_h y)) (length (new_c y)))
     \<or> (\<exists>p h c y. decoder_net net p h c = Inr y \<and> length (dec_data y) \<noteq> PRED_HIDDEN \<and> e = DecodePanic)"

definition shaped :: "decoder_state \<Rightarrow> bool" where
  "shaped st \<longleftrightarrow> length (hid st) = PRED_HIDDEN \<and> length (cell st) = PRED_HIDDEN"

lemma uncached_step_shaped:
  assumes "uncached_step net t f k o1 s = Inr (e, s')" "shaped (dstate s)"
  shows "shaped (dstate s')"
  using assms(1) unfolding uncached_step_def
proof (cases rule: frame_step_cases)
  case (turn s1 logits)
  note k1 = call_decoder_keeps[OF turn(1), simplified]
  from turn(3) show ?thesis by (cases rule: classify_cases) (use assms(2) k1 in \<open>simp_all add: shaped_def\<close>)
qed (use assms(2) in simp)

lemma uncached_step_error:
  assumes "uncached_step net t f k o1 s = Inl e" "shaped (dstate s)" "length f = ENC_DIM"
  shows "net_error net e"
proof -
  let ?s = "s\<lparr>in_blank_run := False, rn_polls := rn_polls s + 1\<rparr>"
  have run: "run_decoder net (dstate s) = decoder_net net (prev_token (dstate s)) (hid (dstate s)) (cell (dstate s))"
    using assms(2) by (simp add: run_decoder_def shaped_def)
  have "call_decoder net ?s = Inl e \<or> (\<exists>s1. call_decoder net ?s = Inr s1 \<and>
     (run_joiner_single net f (dec_data (dout s1)) = Inl e
      \<or> (\<exists>logits. classify net t logits k o1 (s1\<lparr>joiner_calls := joiner_calls s1 + 1\<rparr>) = Inl e)))"
    using assms(1) by (auto simp: uncached_step_def frame_step_def Let_def split: if_splits sum.splits)
  then consider "call_decoder net ?s = Inl e"
    | s1 where "call_decoder net ?s = Inr s1" "run_joiner_single net f (dec_data (dout s1)) = Inl e"
    | s1 logits where "call_decoder net ?s = Inr s1" "classify net t logits k o1 (s1\<lparr>joiner_calls := joiner_calls s1 + 1\<rparr>) = Inl e"
    by blast
  then show ?thesis
  proof cases
    case 1
    then show ?thesis by (auto simp: call_decoder_def net_error_def run split: sum.splits)
  next
    case (2 s1)
    have "decoder_net net (prev_token (dstate s)) (hid (dstate s)) (cell (dstate s)) = Inr (dout s1)"
      using 2(1) by (auto simp: call_decoder_def run split: sum.splits)
    then show ?thesis using 2(2) assms(3) unfolding net_error_def run_joiner_single_def by (auto split: if_splits)
  next
    case (3 s1 logits)
    have "decoder_net net (prev_token (dstate s)) (hid (dstate s)) (cell (dstate s)) = Inr (dout s1)"
      using 3(1) by (auto simp: call_decoder_def run split: sum.splits)
    moreover have "(length (new_h (dout s1)) \<noteq> PRED_HIDDEN \<or> length (new_c (dout s1)) \<noteq> PRED_HIDDEN)
        \<and> e = StateShape (length (new_h (dout s1))) (length (new_c (dout s1)))"
      using 3(2) by (auto simp: classify_def commit_non_blank_def Let_def split: prod.splits if_splits)
    ultimately show ?thesis unfolding net_error_def by blast
  qed
qed

lemma uncached_frame_facts:
  assumes "shaped (dstate s)" "length f = ENC_DIM"
  shows "uncached_frame net t f k o1 s = Inl e \<Longrightarrow> net_error net e"
    and "uncached_frame net t f k o1 s = Inr (go, s') \<Longrightarrow> shaped (dstate s')"
proof -
  have "case uncached_frame net t f k o1 s of Inl e \<Rightarrow> net_error net e | Inr (_, s') \<Rightarrow> shaped (dstate s')"
    using assms
  proof (induction net t f k o1 s rule: uncached_frame.induct)
    case (1 net t f k o1 s)
    show ?case
    proof (cases "uncached_step net t f k o1 s")
      case (Inl e')
      then show ?thesis using uncached_step_error[OF Inl "1.prems"] by (simp add: uncached_frame.simps[of net t f k o1 s])
    next
      case (Inr p)
      obtain x s1 where p: "p = (x, s1)" by (cases p)
      have st: "uncached_step net t f k o1 s = Inr (x, s1)" using Inr p by simp
      note sh = uncached_step_shaped[OF st "1.prems"(1)]
      show ?thesis
      proof (cases x)
        case (SameFrame k' o2)
        then show ?thesis using "1.IH"[OF st refl SameFrame sh "1.prems"(2)] st
          by (simp add: uncached_frame.simps[of net t f k o1 s])
      qed (use sh st in \<open>simp_all add: uncached_frame.simps[of net t f k o1 s]\<close>)
    qed
  qed
  then show "uncached_frame net t f k o1 s = Inl e \<Longrightarrow> net_error net e"
    "uncached_frame net t f k o1 s = Inr (go, s') \<Longrightarrow> shaped (dstate s')" by auto
qed

lemma uncached_frames_error: "uncached_frames net encoded len ts s = Inl e \<Longrightarrow> shaped (dstate s) \<Longrightarrow> net_error net e"
proof (induction ts arbitrary: s)
  case (Cons t ts)
  let ?f = "extract_encoder_frame encoded len t"
  have f: "length ?f = ENC_DIM" by simp
  note fr = uncached_frame_facts[OF Cons.prems(2) f]
  show ?case
  proof (cases "uncached_frame net t ?f 0 0 s")
    case (Inl e')
    then show ?thesis using Cons.prems(1) fr(1) by simp
  next
    case (Inr p)
    obtain go s1 where p: "p = (go, s1)" by (cases p)
    then show ?thesis using Cons.IH[of s1] Cons.prems(1) fr(2) Inr by (cases go) auto
  qed
qed simp

lemma decode_errors:
  assumes "greedy_decode net encoded len st = Inl e" "shaped st"
  shows "length encoded < ENC_DIM * len \<and> (e = EncoderSize \<or> e = DecodePanic \<and> 2 ^ 64 \<le> ENC_DIM * len) \<or> net_error net e"
proof (cases "ENC_DIM * len \<le> length encoded")
  case True
  then have "uncached_frames net encoded len [0..<len] (rn_start net st) = Inl e"
    using assms(1) by (auto simp: frames_uncached uncached_decode_def split: sum.splits)
  moreover have "shaped (dstate (rn_start net st))" using assms(2) by (simp add: rn_start_def)
  ultimately show ?thesis using uncached_frames_error by blast
next
  case False
  then have "e = EncoderSize \<or> e = DecodePanic \<and> \<not> length encoded < ENC_DIM * len mod 2 ^ 64"
    using assms(1) by (auto simp: frames_uncached uncached_decode_def split: if_splits)
  moreover have "2 ^ 64 \<le> ENC_DIM * len" if "\<not> length encoded < ENC_DIM * len mod 2 ^ 64"
    using that False by (intro leI notI) (simp add: mod_less)
  ultimately show ?thesis using False by auto
qed

text \<open>
  A decode fails only through its networks. From a state of the right shape, an error of the
  transducer decode is the size check of the encoder output, an error a network returned, or the
  refusal of a hidden state of the wrong length; it panics only on a decoder output of the wrong
  length or an encoder length whose size overflows; the internal error of a stale cache never
  occurs. So networks that answer with the right shapes give a result for every encoder output
  that is long enough.
\<close>
theorem transducer_decode_errors:
  assumes "shaped st"
  shows "(greedy_decode net encoded len st = Inl e \<longrightarrow>
      length encoded < ENC_DIM * len \<and> (e = EncoderSize \<or> e = DecodePanic \<and> 2 ^ 64 \<le> ENC_DIM * len) \<or> net_error net e)
   \<and> (ENC_DIM * len \<le> length encoded \<and> \<not> Ex (net_error net) \<longrightarrow> (\<exists>r. greedy_decode net encoded len st = Inr r))"
proof -
  have "\<exists>r. greedy_decode net encoded len st = Inr r" if "ENC_DIM * len \<le> length encoded" "\<not> Ex (net_error net)"
    using decode_errors[where net = net and encoded = encoded and len = len, OF _ assms] that by (cases "greedy_decode net encoded len st") auto
  then show ?thesis using decode_errors[OF _ assms] by blast
qed

lemma transducer_decode_errors_witness:
  "\<exists>r. greedy_decode demo_net (replicate (ENC_DIM * 2) 0) 2 (decoder_state_new 2) = Inr r"
proof -
  have "\<not> Ex (net_error demo_net)" by (simp add: net_error_def demo_net_def)
  moreover have "shaped (decoder_state_new 2)" by (simp add: shaped_def decoder_state_new_def)
  ultimately show ?thesis
    using transducer_decode_errors[of "decoder_state_new 2" demo_net "replicate (ENC_DIM * 2) 0" 2 StaleCache] by simp
qed

end
