(* ===== verification/Ctc_Decode.thy ===== *)
theory Ctc_Decode
  imports Rnnt_Decode
begin

text \<open>
  CTC decoding, \<open>inference/ctc.rs\<close>: the greedy decoder that collapses the per-frame best classes,
  and the prefix beam search that a hotword biaser switches on. Log-probabilities are rationals
  with \<open>None\<close> for \<open>NEG_INFINITY\<close>; the functions of the float library (\<open>exp\<close>, \<open>ln\<close>, \<open>ln_1p\<close>) are
  arguments. \<open>select_nth_unstable_by\<close> may choose among equal values, so the choice of the
  \<open>k\<close> best classes is an argument too.
\<close>

section \<open>Greedy decoding\<close>

definition ctc_row :: "rat list \<Rightarrow> nat \<Rightarrow> nat \<Rightarrow> rat list" where
  "ctc_row log_probs vocab t = subslice log_probs (t * vocab) ((t + 1) * vocab)"

definition usable_frames :: "rat list \<Rightarrow> nat \<Rightarrow> nat \<Rightarrow> nat" where
  "usable_frames log_probs t_len vocab = min t_len (length log_probs div vocab)"

primrec ctc_greedy_loop :: "(rat \<Rightarrow> rat) \<Rightarrow> rat list \<Rightarrow> nat \<Rightarrow> nat \<Rightarrow> (nat \<Rightarrow> bool) option \<Rightarrow> nat list \<Rightarrow> nat option \<Rightarrow> token_info list \<Rightarrow> token_info list" where
  "ctc_greedy_loop ex log_probs vocab blank_id abort [] prev acc = acc"
| "ctc_greedy_loop ex log_probs vocab blank_id abort (t # ts) prev acc =
     (if (case abort of None \<Rightarrow> False | Some f \<Rightarrow> f t) then acc
      else let row = ctc_row log_probs vocab t; i = argmax row blank_id
           in if Some i = prev then ctc_greedy_loop ex log_probs vocab blank_id abort ts prev acc
              else if i = blank_id then ctc_greedy_loop ex log_probs vocab blank_id abort ts (Some i) acc
              else ctc_greedy_loop ex log_probs vocab blank_id abort ts (Some i)
                     (acc @ [\<lparr>token_id = i, frame_index = t, tok_confidence = token_confidence ex row i\<rparr>]))"

definition ctc_greedy_decode :: "(rat \<Rightarrow> rat) \<Rightarrow> rat list \<Rightarrow> nat \<Rightarrow> nat \<Rightarrow> nat \<Rightarrow> (nat \<Rightarrow> bool) option \<Rightarrow> token_info list" where
  "ctc_greedy_decode ex log_probs t_len vocab blank_id abort =
     (if vocab = 0 then []
      else ctc_greedy_loop ex log_probs vocab blank_id abort [0..<usable_frames log_probs t_len vocab] None [])"

section \<open>Beam search: scores and hypotheses\<close>

definition BEAM_WIDTH :: nat where "BEAM_WIDTH = 8"
definition BEAM_TOP_K :: nat where "BEAM_TOP_K = 6"

type_synonym log_prob = "rat option"

definition add_score :: "log_prob \<Rightarrow> log_prob \<Rightarrow> log_prob" where
  "add_score a b = (case (a, b) of (Some x, Some y) \<Rightarrow> Some (x + y) | _ \<Rightarrow> None)"

record float_lib =
  f_exp :: "rat \<Rightarrow> rat"
  f_ln :: "rat \<Rightarrow> rat"
  f_ln_1p :: "rat \<Rightarrow> rat"

definition log_add_exp :: "float_lib \<Rightarrow> log_prob \<Rightarrow> log_prob \<Rightarrow> log_prob" where
  "log_add_exp fl a b =
     (case a of None \<Rightarrow> b
      | Some x \<Rightarrow> (case b of None \<Rightarrow> a
         | Some y \<Rightarrow> let (hi, lo) = (if y < x then (x, y) else (y, x)) in Some (hi + f_ln_1p fl (f_exp fl (lo - hi)))))"

text \<open>\<open>total_cmp\<close>, as a sort key: the largest score first.\<close>

definition descending :: "log_prob \<Rightarrow> bool \<times> rat" where
  "descending a = (case a of None \<Rightarrow> (True, 0) | Some x \<Rightarrow> (False, - x))"

record hypothesis =
  p_blank :: log_prob
  p_nonblank :: log_prob
  h_tokens :: "token_info list"
  h_bias :: bias_path
  anchor :: log_prob

definition hyp_score :: "float_lib \<Rightarrow> hypothesis \<Rightarrow> log_prob" where
  "hyp_score fl h = log_add_exp fl (p_blank h) (p_nonblank h)"

definition settled_total :: "float_lib \<Rightarrow> hypothesis \<Rightarrow> log_prob" where
  "settled_total fl h = add_score (hyp_score fl h) (Some (- pending (h_bias h)))"

type_synonym beam = "(nat list \<times> hypothesis) list"

datatype emission = Blank log_prob | Repeat log_prob

text \<open>\<open>merge\<close>: find the prefix or push it, then add to one of its two probabilities.\<close>

definition merged_slot :: "hypothesis \<Rightarrow> hypothesis" where
  "merged_slot from = \<lparr>p_blank = None, p_nonblank = None, h_tokens = h_tokens from, h_bias = h_bias from, anchor = anchor from\<rparr>"

definition apply_emission :: "float_lib \<Rightarrow> emission \<Rightarrow> hypothesis \<Rightarrow> hypothesis" where
  "apply_emission fl e h =
     (case e of Blank p \<Rightarrow> h\<lparr>p_blank := log_add_exp fl (p_blank h) p\<rparr>
      | Repeat p \<Rightarrow> h\<lparr>p_nonblank := log_add_exp fl (p_nonblank h) p\<rparr>)"

fun update_first :: "nat list \<Rightarrow> (hypothesis \<Rightarrow> hypothesis) \<Rightarrow> beam \<Rightarrow> beam" where
  "update_first labels f [] = []"
| "update_first labels f ((l, h) # bs) = (if l = labels then (l, f h) # bs else (l, h) # update_first labels f bs)"

definition merge :: "float_lib \<Rightarrow> nat list \<Rightarrow> hypothesis \<Rightarrow> emission \<Rightarrow> beam \<Rightarrow> beam" where
  "merge fl labels from e nxt =
     (if labels \<in> set (map fst nxt) then update_first labels (apply_emission fl e) nxt
      else nxt @ [(labels, apply_emission fl e (merged_slot from))])"

definition extend_tokens :: "hypothesis \<Rightarrow> nat \<Rightarrow> nat \<Rightarrow> rat \<Rightarrow> token_info list" where
  "extend_tokens from tok frame conf = h_tokens from @ [\<lparr>token_id = tok, frame_index = frame, tok_confidence = conf\<rparr>]"

definition score_less :: "log_prob \<Rightarrow> log_prob \<Rightarrow> bool" where
  "score_less a b \<longleftrightarrow> (case b of None \<Rightarrow> False | Some y \<Rightarrow> (case a of None \<Rightarrow> True | Some x \<Rightarrow> x < y))"

definition merge_extension :: "float_lib \<Rightarrow> nat list \<Rightarrow> hypothesis \<Rightarrow> nat \<Rightarrow> log_prob \<Rightarrow> bias_path \<Rightarrow> nat \<Rightarrow> rat \<Rightarrow> beam \<Rightarrow> beam" where
  "merge_extension fl labels from tok p bias frame conf nxt =
     (if p = None then nxt
      else let extended = labels @ [tok]
           in if extended \<in> set (map fst nxt)
              then update_first extended (\<lambda>h.
                     let h = h\<lparr>p_nonblank := log_add_exp fl (p_nonblank h) p\<rparr>
                     in if score_less (anchor h) p
                        then h\<lparr>h_tokens := extend_tokens from tok frame conf, h_bias := bias, anchor := p\<rparr> else h) nxt
              else nxt @ [(extended, \<lparr>p_blank = None, p_nonblank = p, h_tokens = extend_tokens from tok frame conf,
                                      h_bias = bias, anchor = p\<rparr>)])"

section \<open>Beam search: one frame\<close>

definition log_softmax :: "float_lib \<Rightarrow> rat list \<Rightarrow> log_prob list" where
  "log_softmax fl row =
     (let mx = fold max (tl row) (hd row);
          log_sum = mx + f_ln fl (sum_list (map (\<lambda>l. f_exp fl (l - mx)) row))
      in map (\<lambda>l. Some (l - log_sum)) row)"

definition top_k_by_sort :: "log_prob list \<Rightarrow> nat \<Rightarrow> nat list" where
  "top_k_by_sort lp k = take (min k (length lp)) (sort_key (\<lambda>i. descending (lp ! i)) [0..<length lp])"

definition candidates_of :: "(log_prob list \<Rightarrow> nat \<Rightarrow> nat list) \<Rightarrow> biaser \<Rightarrow> nat \<Rightarrow> nat \<Rightarrow> log_prob list \<Rightarrow> beam \<Rightarrow> nat list" where
  "candidates_of pick bs vocab blank_id lp beams =
     (let top = pick lp BEAM_TOP_K;
          top = (if blank_id \<in> set top then top else top @ [blank_id]);
          every = top @ concat (map (\<lambda>(_, h). continuations bs (h_bias h)) beams)
      in sorted_list_of_set {c \<in> set every. c < vocab})"

definition exp_score :: "float_lib \<Rightarrow> log_prob \<Rightarrow> rat" where
  "exp_score fl a = (case a of None \<Rightarrow> 0 | Some x \<Rightarrow> f_exp fl x)"

definition extend_one :: "float_lib \<Rightarrow> biaser \<Rightarrow> nat \<Rightarrow> nat \<Rightarrow> log_prob list \<Rightarrow> nat list \<times> hypothesis \<Rightarrow> nat \<Rightarrow> beam \<Rightarrow> beam" where
  "extend_one fl bs blank_id t lp = (\<lambda>(labels, h) c nxt.
     if lp ! c = None then nxt
     else if c = blank_id then merge fl labels h (Blank (add_score (hyp_score fl h) (lp ! c))) nxt
     else if labels \<noteq> [] \<and> last labels = c
     then let nxt = merge fl labels h (Repeat (add_score (p_nonblank h) (lp ! c))) nxt;
              (bonus, bias) = score_token bs (h_bias h) c
          in merge_extension fl labels h c (add_score (add_score (p_blank h) (lp ! c)) (Some bonus)) bias t (exp_score fl (lp ! c)) nxt
     else let (bonus, bias) = score_token bs (h_bias h) c
          in merge_extension fl labels h c (add_score (add_score (hyp_score fl h) (lp ! c)) (Some bonus)) bias t (exp_score fl (lp ! c)) nxt)"

definition frame_beam :: "float_lib \<Rightarrow> (log_prob list \<Rightarrow> nat \<Rightarrow> nat list) \<Rightarrow> biaser \<Rightarrow> nat \<Rightarrow> nat \<Rightarrow> nat \<Rightarrow> rat list \<Rightarrow> beam \<Rightarrow> beam" where
  "frame_beam fl pick bs vocab blank_id t row beams =
     (let lp = log_softmax fl row; cs = candidates_of pick bs vocab blank_id lp beams
      in fold (\<lambda>b. fold (extend_one fl bs blank_id t lp b) cs) beams [])"

definition prune :: "float_lib \<Rightarrow> beam \<Rightarrow> beam" where
  "prune fl nxt = take BEAM_WIDTH (sort_key (\<lambda>(_, h). descending (hyp_score fl h)) nxt)"

fun beam_loop :: "float_lib \<Rightarrow> (log_prob list \<Rightarrow> nat \<Rightarrow> nat list) \<Rightarrow> biaser \<Rightarrow> rat list \<Rightarrow> nat \<Rightarrow> nat \<Rightarrow> (nat \<Rightarrow> bool) option \<Rightarrow> nat list \<Rightarrow> beam \<Rightarrow> beam" where
  "beam_loop fl pick bs log_probs vocab blank_id abort [] beams = beams"
| "beam_loop fl pick bs log_probs vocab blank_id abort (t # ts) beams =
     (if (case abort of None \<Rightarrow> False | Some f \<Rightarrow> f t) then beams
      else let nxt = frame_beam fl pick bs vocab blank_id t (ctc_row log_probs vocab t) beams
           in if nxt = [] then beams
              else beam_loop fl pick bs log_probs vocab blank_id abort ts (prune fl nxt))"

definition beam_start :: beam where
  "beam_start = [([], \<lparr>p_blank = Some 0, p_nonblank = None, h_tokens = [], h_bias = path_default, anchor = Some 0\<rparr>)]"

text \<open>\<open>max_by\<close> returns the last of several best hypotheses.\<close>

definition best_hyp :: "float_lib \<Rightarrow> nat list \<times> hypothesis \<Rightarrow> (nat list \<times> hypothesis) option \<Rightarrow> (nat list \<times> hypothesis) option" where
  "best_hyp fl b best =
     (case best of None \<Rightarrow> Some b
      | Some a \<Rightarrow> if score_less (settled_total fl (snd b)) (settled_total fl (snd a)) then best else Some b)"

definition ctc_prefix_beam_decode :: "float_lib \<Rightarrow> (log_prob list \<Rightarrow> nat \<Rightarrow> nat list) \<Rightarrow> rat list \<Rightarrow> nat \<Rightarrow> nat \<Rightarrow> nat \<Rightarrow> biaser
    \<Rightarrow> (nat \<Rightarrow> bool) option \<Rightarrow> token_info list" where
  "ctc_prefix_beam_decode fl pick log_probs t_len vocab blank_id bs abort =
     (if vocab = 0 then []
      else let beams = beam_loop fl pick bs log_probs vocab blank_id abort [0..<usable_frames log_probs t_len vocab] beam_start
           in case fold (best_hyp fl) beams None of None \<Rightarrow> [] | Some (_, h) \<Rightarrow> h_tokens h)"

section \<open>Greedy decoding collapses\<close>

fun run_starts :: "nat option \<Rightarrow> (nat \<times> nat) list \<Rightarrow> (nat \<times> nat) list" where
  "run_starts prev [] = []"
| "run_starts prev ((t, i) # xs) = (if Some i = prev then run_starts prev xs else (t, i) # run_starts (Some i) xs)"

lemma run_starts_after: "map snd (run_starts (Some p) xs) = tl (remdups_adj (p # map snd xs))"
proof (induction xs arbitrary: p)
  case (Cons x xs)
  obtain t i where x: "x = (t, i)" by (cases x)
  show ?case using Cons[of i] Cons[of p] by (cases "map snd xs") (auto simp: x)
qed simp

lemma run_starts_adj: "map snd (run_starts None xs) = remdups_adj (map snd xs)"
proof (cases xs)
  case (Cons x ys)
  obtain t i where x: "x = (t, i)" by (cases x)
  have "remdups_adj (i # map snd ys) = i # tl (remdups_adj (i # map snd ys))"
    by (metis hd_remdups_adj list.collapse list.distinct(1) list.sel(1) remdups_adj_Nil_iff)
  then show ?thesis using run_starts_after[of i ys] by (simp add: Cons x)
qed simp

lemma run_starts_subseq: "subseq (run_starts prev xs) xs"
  by (induction prev xs rule: run_starts.induct) auto

lemma subseq_set: "subseq xs ys \<Longrightarrow> set xs \<subseteq> set ys"
  by (induction rule: list_emb.induct) auto

lemma sorted_wrt_subseq: "subseq xs ys \<Longrightarrow> sorted_wrt R ys \<Longrightarrow> sorted_wrt R xs"
  by (induction rule: list_emb.induct) (auto dest: subseq_set)

definition frame_ids :: "rat list \<Rightarrow> nat \<Rightarrow> nat \<Rightarrow> nat \<Rightarrow> nat" where
  "frame_ids log_probs vocab blank_id t = argmax (ctc_row log_probs vocab t) blank_id"

definition ctc_token :: "(rat \<Rightarrow> rat) \<Rightarrow> rat list \<Rightarrow> nat \<Rightarrow> nat \<times> nat \<Rightarrow> token_info" where
  "ctc_token ex log_probs vocab = (\<lambda>(t, i). \<lparr>token_id = i, frame_index = t,
     tok_confidence = token_confidence ex (ctc_row log_probs vocab t) i\<rparr>)"

lemma ctc_greedy_loop_runs:
  "ctc_greedy_loop ex lp vocab blank None ts prev acc
   = acc @ map (ctc_token ex lp vocab) (filter (\<lambda>(_, i). i \<noteq> blank) (run_starts prev (map (\<lambda>t. (t, frame_ids lp vocab blank t)) ts)))"
  by (induction ts arbitrary: prev acc) (simp_all add: frame_ids_def ctc_token_def Let_def)

lemma ctc_greedy_loop_prefix:
  "prefix acc (ctc_greedy_loop ex lp vocab blank ab ts prev acc)"
  by (induction ts arbitrary: prev acc) (auto simp: Let_def intro: append_prefixD)

lemma ctc_greedy_loop_abort:
  "prefix (ctc_greedy_loop ex lp vocab blank ab ts prev acc) (ctc_greedy_loop ex lp vocab blank None ts prev acc)"
proof (induction ts arbitrary: prev acc)
  case (Cons t ts)
  show ?case
  proof (cases "case ab of None \<Rightarrow> False | Some f \<Rightarrow> f t")
    case True
    then have "ctc_greedy_loop ex lp vocab blank ab (t # ts) prev acc = acc" by simp
    then show ?thesis using ctc_greedy_loop_prefix by metis
  next
    case False
    then show ?thesis using Cons by (simp add: Let_def)
  qed
qed simp

lemma map_filter_snd: "map snd (filter (\<lambda>(_, i). i \<noteq> b) xs) = filter (\<lambda>i. i \<noteq> b) (map snd xs)"
  by (induction xs) auto

lemma ctc_greedy_facts:
  "map token_id (ctc_greedy_decode ex lp t_len vocab blank None)
     = filter (\<lambda>i. i \<noteq> blank) (remdups_adj (map (frame_ids lp vocab blank) [0..<usable_frames lp t_len vocab]))
   \<and> sorted_wrt (<) (map frame_index (ctc_greedy_decode ex lp t_len vocab blank None))
   \<and> list_all (\<lambda>x. frame_index x < usable_frames lp t_len vocab \<and> token_id x = frame_ids lp vocab blank (frame_index x)
        \<and> tok_confidence x = token_confidence ex (ctc_row lp vocab (frame_index x)) (token_id x))
       (ctc_greedy_decode ex lp t_len vocab blank None)
   \<and> prefix (ctc_greedy_decode ex lp t_len vocab blank ab) (ctc_greedy_decode ex lp t_len vocab blank None)"
proof -
  let ?n = "usable_frames lp t_len vocab"
  let ?ps = "map (\<lambda>t. (t, frame_ids lp vocab blank t)) [0..<?n]"
  let ?rs = "filter (\<lambda>(_, i). i \<noteq> blank) (run_starts None ?ps)"
  have v0: "?n = 0" if "vocab = 0" using that by (simp add: usable_frames_def)
  have d: "ctc_greedy_decode ex lp t_len vocab blank None = map (ctc_token ex lp vocab) ?rs"
    using v0 by (simp add: ctc_greedy_decode_def ctc_greedy_loop_runs)
  have s: "subseq ?rs ?ps" using subseq_order.order_trans[OF subseq_filter_left run_starts_subseq] by blast
  have ids: "map token_id (map (ctc_token ex lp vocab) xs) = map snd xs" for xs
    by (simp add: ctc_token_def comp_def split_def)
  have frs: "map frame_index (map (ctc_token ex lp vocab) xs) = map fst xs" for xs
    by (simp add: ctc_token_def comp_def split_def)
  have "subseq (map fst ?rs) [0..<?n]" using subseq_map[OF s, of fst] by (simp add: comp_def)
  then have sorted: "sorted_wrt (<) (map fst ?rs)" by (rule sorted_wrt_subseq) simp
  have mem: "x \<in> set ?rs \<Longrightarrow> fst x < ?n \<and> snd x = frame_ids lp vocab blank (fst x)" for x
    using subseq_set[OF s] by auto
  show ?thesis
  proof (intro conjI)
    show "map token_id (ctc_greedy_decode ex lp t_len vocab blank None)
       = filter (\<lambda>i. i \<noteq> blank) (remdups_adj (map (frame_ids lp vocab blank) [0..<?n]))"
      unfolding d ids map_filter_snd run_starts_adj by (simp add: comp_def)
    show "sorted_wrt (<) (map frame_index (ctc_greedy_decode ex lp t_len vocab blank None))"
      unfolding d frs by (rule sorted)
    show "list_all (\<lambda>x. frame_index x < ?n \<and> token_id x = frame_ids lp vocab blank (frame_index x)
        \<and> tok_confidence x = token_confidence ex (ctc_row lp vocab (frame_index x)) (token_id x))
       (ctc_greedy_decode ex lp t_len vocab blank None)"
      unfolding d list_all_iff using mem by (auto simp: ctc_token_def split_def)
    show "prefix (ctc_greedy_decode ex lp t_len vocab blank ab) (ctc_greedy_decode ex lp t_len vocab blank None)"
      using ctc_greedy_loop_abort by (simp add: ctc_greedy_decode_def)
  qed
qed

text \<open>
  C12: greedy CTC decoding is the CTC collapse. The emitted ids are the best classes of the frames
  with adjacent repeats merged and blanks dropped, in that order, so two equal labels stay apart
  only if a blank lies between them. Every token sits at a frame inside the valid length, frames
  strictly increase, and its id is the best class of that frame with the softmax confidence of
  that frame. A decode cut short by the abort closure is a prefix of the full one.
\<close>
theorem ctc_greedy_is_collapse:
  "map token_id (ctc_greedy_decode ex lp t_len vocab blank None)
     = filter (\<lambda>i. i \<noteq> blank) (remdups_adj (map (frame_ids lp vocab blank) [0..<usable_frames lp t_len vocab]))
   \<and> sorted_wrt (<) (map frame_index (ctc_greedy_decode ex lp t_len vocab blank None))
   \<and> list_all (\<lambda>x. frame_index x < usable_frames lp t_len vocab \<and> token_id x = frame_ids lp vocab blank (frame_index x)
        \<and> tok_confidence x = token_confidence ex (ctc_row lp vocab (frame_index x)) (token_id x))
       (ctc_greedy_decode ex lp t_len vocab blank None)
   \<and> prefix (ctc_greedy_decode ex lp t_len vocab blank ab) (ctc_greedy_decode ex lp t_len vocab blank None)"
  by (rule ctc_greedy_facts)

section \<open>The beam keeps what it claims\<close>

definition bias_of :: "biaser \<Rightarrow> nat list \<Rightarrow> bias_path" where
  "bias_of bs labels = snd (score_run bs labels)"

lemma bias_of_snoc: "bias_of bs (labels @ [c]) = snd (score_token bs (bias_of bs labels) c)"
  by (simp add: bias_of_def score_run_def score_step_def split: prod.split)

definition hyp_ok :: "biaser \<Rightarrow> nat \<Rightarrow> nat \<Rightarrow> nat \<Rightarrow> nat list \<times> hypothesis \<Rightarrow> bool" where
  "hyp_ok bs vocab blank t = (\<lambda>(labels, h).
     map token_id (h_tokens h) = labels \<and> sorted_wrt (<) (map frame_index (h_tokens h))
     \<and> list_all (\<lambda>x. frame_index x < t \<and> token_id x < vocab \<and> token_id x \<noteq> blank) (h_tokens h)
     \<and> h_bias h = bias_of bs labels)"

definition beam_ok :: "biaser \<Rightarrow> nat \<Rightarrow> nat \<Rightarrow> nat \<Rightarrow> beam \<Rightarrow> bool" where
  "beam_ok bs vocab blank t b \<longleftrightarrow> list_all (hyp_ok bs vocab blank t) b \<and> distinct (map fst b)"

lemma map_fst_update [simp]: "map fst (update_first labels f b) = map fst b"
  by (induction labels f b rule: update_first.induct) auto

lemma update_first_ok:
  assumes "list_all P b" "\<And>h. P (labels, h) \<Longrightarrow> P (labels, f h)"
  shows "list_all P (update_first labels f b)"
  using assms by (induction labels f b rule: update_first.induct) auto

lemma hyp_ok_mono: "hyp_ok bs vocab blank t b \<Longrightarrow> hyp_ok bs vocab blank (Suc t) b"
  by (auto simp: hyp_ok_def list_all_iff less_Suc_eq split: prod.splits)

lemma hyp_ok_le: "hyp_ok bs vocab blank a b \<Longrightarrow> a \<le> t \<Longrightarrow> hyp_ok bs vocab blank t b"
  by (fastforce simp: hyp_ok_def list_all_iff split: prod.splits)

lemma apply_emission_ok: "hyp_ok bs vocab blank t (l, h) \<Longrightarrow> hyp_ok bs vocab blank t (l, apply_emission fl e h)"
  by (cases e) (simp_all add: hyp_ok_def apply_emission_def)

lemma merge_ok:
  assumes "beam_ok bs vocab blank t nxt" "hyp_ok bs vocab blank t (labels, from)"
  shows "beam_ok bs vocab blank t (merge fl labels from e nxt)"
proof (cases "labels \<in> set (map fst nxt)")
  case True
  then show ?thesis using assms(1) apply_emission_ok
    by (auto simp: beam_ok_def merge_def intro!: update_first_ok)
next
  case False
  have "hyp_ok bs vocab blank t (labels, merged_slot from)" using assms(2) by (simp add: hyp_ok_def merged_slot_def)
  then show ?thesis using assms(1) False apply_emission_ok by (simp add: beam_ok_def merge_def)
qed

lemma merge_extension_ok:
  assumes "beam_ok bs vocab blank (Suc t) nxt" "hyp_ok bs vocab blank t (labels, from)" "c < vocab" "c \<noteq> blank"
    and "bias = bias_of bs (labels @ [c])"
  shows "beam_ok bs vocab blank (Suc t) (merge_extension fl labels from c p bias t conf nxt)"
proof -
  have x: "map token_id (extend_tokens from c t conf) = labels @ [c]"
    "sorted_wrt (<) (map frame_index (extend_tokens from c t conf))"
    "list_all (\<lambda>x. frame_index x < Suc t \<and> token_id x < vocab \<and> token_id x \<noteq> blank) (extend_tokens from c t conf)"
    using assms(2-4) by (auto simp: hyp_ok_def extend_tokens_def sorted_wrt_append list_all_iff less_Suc_eq)
  then show ?thesis using assms(1,5)
    by (auto simp: beam_ok_def merge_extension_def Let_def hyp_ok_def intro!: update_first_ok)
qed

lemma extend_one_ok:
  assumes "beam_ok bs vocab blank (Suc t) nxt" "hyp_ok bs vocab blank t b" "c < vocab"
  shows "beam_ok bs vocab blank (Suc t) (extend_one fl bs blank t lp b c nxt)"
proof -
  obtain labels h where b: "b = (labels, h)" by (cases b)
  have h: "hyp_ok bs vocab blank (Suc t) (labels, h)" using hyp_ok_mono assms(2) by (simp add: b)
  obtain bonus bias where sc: "score_token bs (h_bias h) c = (bonus, bias)" by (cases "score_token bs (h_bias h) c")
  have "h_bias h = bias_of bs labels" using assms(2) by (simp add: b hyp_ok_def)
  then have bias: "bias = bias_of bs (labels @ [c])" using sc by (simp add: bias_of_snoc)
  show ?thesis
  proof (cases "c = blank")
    case True
    then show ?thesis using assms(1) merge_ok[OF assms(1) h] by (simp add: extend_one_def b)
  next
    case False
    show ?thesis using assms(1,2) merge_ok[OF assms(1) h] False sc
        merge_extension_ok[OF _ _ assms(3) False bias, where nxt = nxt and t = t]
        merge_extension_ok[OF _ _ assms(3) False bias, where t = t
          and nxt = "merge fl labels h (Repeat (add_score (p_nonblank h) (lp ! c))) nxt"]
      by (simp add: extend_one_def b Let_def)
  qed
qed

lemma candidates_in_vocab: "c \<in> set (candidates_of pick bs vocab blank lp beams) \<Longrightarrow> c < vocab"
  by (simp add: candidates_of_def Let_def)

lemma frame_beam_ok:
  assumes "beam_ok bs vocab blank t beams"
  shows "beam_ok bs vocab blank (Suc t) (frame_beam fl pick bs vocab blank t row beams)"
proof -
  let ?lp = "log_softmax fl row"
  let ?cs = "candidates_of pick bs vocab blank ?lp beams"
  have inner: "beam_ok bs vocab blank (Suc t) (fold (extend_one fl bs blank t ?lp b) cs nxt)"
    if "hyp_ok bs vocab blank t b" "\<forall>c \<in> set cs. c < vocab" "beam_ok bs vocab blank (Suc t) nxt" for b cs nxt
    using that by (induction cs arbitrary: nxt) (simp_all add: extend_one_ok)
  have "beam_ok bs vocab blank (Suc t) (fold (\<lambda>b. fold (extend_one fl bs blank t ?lp b) ?cs) ys nxt)"
    if "list_all (hyp_ok bs vocab blank t) ys" "beam_ok bs vocab blank (Suc t) nxt" for ys nxt
    using that by (induction ys arbitrary: nxt) (simp_all add: inner candidates_in_vocab)
  then show ?thesis using assms by (simp add: frame_beam_def Let_def beam_ok_def)
qed

lemma prune_ok:
  assumes "beam_ok bs vocab blank t nxt"
  shows "beam_ok bs vocab blank t (prune fl nxt)" and "length (prune fl nxt) \<le> BEAM_WIDTH"
    and "nxt \<noteq> [] \<Longrightarrow> prune fl nxt \<noteq> []"
proof -
  let ?k = "\<lambda>(_, h). descending (hyp_score fl h)"
  have "distinct (map fst (sort_key ?k nxt))"
    using assms by (simp add: beam_ok_def distinct_map)
  then have "distinct (map fst (prune fl nxt))" by (simp add: prune_def take_map[symmetric])
  moreover have "list_all (hyp_ok bs vocab blank t) (prune fl nxt)"
    using assms by (auto simp: beam_ok_def prune_def list_all_iff dest: in_set_takeD)
  ultimately show "beam_ok bs vocab blank t (prune fl nxt)" by (simp add: beam_ok_def)
  show "length (prune fl nxt) \<le> BEAM_WIDTH" by (simp add: prune_def)
  show "nxt \<noteq> [] \<Longrightarrow> prune fl nxt \<noteq> []"
    using length_sort[of "\<lambda>(_, h). descending (hyp_score fl h)" nxt] by (auto simp: prune_def BEAM_WIDTH_def simp del: length_sort)
qed

lemma beam_loop_ok:
  assumes "beam_ok bs vocab blank a beams" "beams \<noteq> []" "length beams \<le> BEAM_WIDTH" "a \<le> b"
  shows "beam_ok bs vocab blank b (beam_loop fl pick bs lp vocab blank ab [a..<b] beams)
    \<and> beam_loop fl pick bs lp vocab blank ab [a..<b] beams \<noteq> []
    \<and> length (beam_loop fl pick bs lp vocab blank ab [a..<b] beams) \<le> BEAM_WIDTH"
  using assms
proof (induction "b - a" arbitrary: a beams)
  case 0
  then show ?case by simp
next
  case (Suc n)
  have up: "[a..<b] = a # [Suc a..<b]" using Suc.hyps(2) by (simp add: upt_conv_Cons)
  have late: "beam_ok bs vocab blank b beams"
    using Suc.prems(1) hyp_ok_le[OF _ Suc.prems(4)] by (auto simp: beam_ok_def list_all_iff)
  let ?nxt = "frame_beam fl pick bs vocab blank a (ctc_row lp vocab a) beams"
  have f: "beam_ok bs vocab blank (Suc a) ?nxt" by (rule frame_beam_ok[OF Suc.prems(1)])
  note p = prune_ok[OF f, of fl]
  show ?case
  proof (cases "(case ab of None \<Rightarrow> False | Some f \<Rightarrow> f a) \<or> ?nxt = []")
    case True
    then show ?thesis using late Suc.prems(2,3) unfolding up by (auto simp: Let_def)
  next
    case False
    have "n = b - Suc a" "Suc a \<le> b" using Suc.hyps(2) by simp_all
    from Suc.hyps(1)[OF this(1) p(1) _ p(2) this(2)] p(3) False show ?thesis unfolding up by (simp add: Let_def)
  qed
qed

lemma best_hyp_in: "fold (best_hyp fl) beams best \<in> insert best (Some ` set beams)"
  by (induction beams arbitrary: best) (fastforce simp: best_hyp_def split: option.splits if_splits)+

lemma beam_facts:
  "(let beams = beam_loop fl pick bs lp vocab blank ab [0..<usable_frames lp t_len vocab] beam_start
    in beams \<noteq> [] \<and> length beams \<le> 8 \<and> distinct (map fst beams)
       \<and> list_all (\<lambda>(labels, h). map token_id (h_tokens h) = labels \<and> h_bias h = snd (score_run bs labels)) beams)
   \<and> sorted_wrt (<) (map frame_index (ctc_prefix_beam_decode fl pick lp t_len vocab blank bs ab))
   \<and> list_all (\<lambda>x. frame_index x < usable_frames lp t_len vocab \<and> token_id x < vocab \<and> token_id x \<noteq> blank)
       (ctc_prefix_beam_decode fl pick lp t_len vocab blank bs ab)"
proof -
  let ?n = "usable_frames lp t_len vocab"
  define beams where "beams = beam_loop fl pick bs lp vocab blank ab [0..<?n] beam_start"
  have s: "beam_ok bs vocab blank 0 beam_start" "beam_start \<noteq> []" "length beam_start \<le> BEAM_WIDTH"
    by (simp_all add: beam_start_def beam_ok_def hyp_ok_def bias_of_def score_run_def BEAM_WIDTH_def)
  have ok: "beam_ok bs vocab blank ?n beams" "beams \<noteq> []" "length beams \<le> BEAM_WIDTH"
    unfolding beams_def using beam_loop_ok[OF s, of ?n] by simp_all
  have all: "list_all (hyp_ok bs vocab blank ?n) beams" "distinct (map fst beams)" using ok(1) by (simp_all add: beam_ok_def)
  have "list_all (\<lambda>(labels, h). map token_id (h_tokens h) = labels \<and> h_bias h = snd (score_run bs labels)) beams"
    using all(1) by (auto simp: list_all_iff hyp_ok_def bias_of_def split: prod.splits)
  moreover have "sorted_wrt (<) (map frame_index (ctc_prefix_beam_decode fl pick lp t_len vocab blank bs ab))
     \<and> list_all (\<lambda>x. frame_index x < ?n \<and> token_id x < vocab \<and> token_id x \<noteq> blank)
       (ctc_prefix_beam_decode fl pick lp t_len vocab blank bs ab)"
  proof (cases "fold (best_hyp fl) beams None")
    case None
    then show ?thesis by (simp add: ctc_prefix_beam_decode_def Let_def beams_def[symmetric])
  next
    case (Some b)
    then have "b \<in> set beams" using best_hyp_in[of fl beams None] by auto
    then have "hyp_ok bs vocab blank ?n b" using all(1) by (auto simp: list_all_iff)
    then show ?thesis using Some
      by (auto simp: ctc_prefix_beam_decode_def Let_def beams_def[symmetric] hyp_ok_def split: prod.split)
  qed
  ultimately show ?thesis using ok(2,3) all(2) by (simp add: beams_def[symmetric] Let_def BEAM_WIDTH_def)
qed

text \<open>
  C36: the beam keeps what it claims. Whatever the float library computes, whichever of equal
  classes is picked, with or without abort: at most eight hypotheses survive, their label
  sequences are distinct, the tokens of each spell its labels at strictly increasing frames, and
  its place in the hotword trie and the boost it owes are those of scoring exactly its labels. The
  decoded tokens are labels of the vocabulary, never blank, at strictly increasing frames inside
  the valid length.
\<close>
theorem beam_hypotheses_sound:
  "(let beams = beam_loop fl pick bs lp vocab blank ab [0..<usable_frames lp t_len vocab] beam_start
    in beams \<noteq> [] \<and> length beams \<le> 8 \<and> distinct (map fst beams)
       \<and> list_all (\<lambda>(labels, h). map token_id (h_tokens h) = labels \<and> h_bias h = snd (score_run bs labels)) beams)
   \<and> sorted_wrt (<) (map frame_index (ctc_prefix_beam_decode fl pick lp t_len vocab blank bs ab))
   \<and> list_all (\<lambda>x. frame_index x < usable_frames lp t_len vocab \<and> token_id x < vocab \<and> token_id x \<noteq> blank)
       (ctc_prefix_beam_decode fl pick lp t_len vocab blank bs ab)"
  by (rule beam_facts)

end
