(* ===== verification/Inference.thy ===== *)
theory Inference
  imports Ctc_Decode
begin

text \<open>
  One inference call, \<open>inference/engine/infer.rs\<close>: encoder, then the decoder of the head, then the
  grouping into words. The encoder session is a parameter that returns its two output tensors, of
  whatever element type. Copying features of the wrong size into the encoder tensor panics.
\<close>

section \<open>The call\<close>

definition N_MELS :: nat where "N_MELS = 64"

datatype tensor_data = F32 "rat list" | I32 "int list" | I64 "int list" | OtherData

datatype infer_error =
    EncoderFailed
  | NegativeLength
  | LengthType
  | NotF32
  | NoDecoder
  | NoJoiner
  | DecodeFailed decode_error

record engine_head =
  eh_tokenizer :: tokenizer
  eh_ctc :: bool
  eh_float :: float_lib
  eh_pick :: "log_prob list \<Rightarrow> nat \<Rightarrow> nat list"

record triplet =
  tr_encoder :: "bool \<Rightarrow> rat list \<Rightarrow> nat \<Rightarrow> infer_error + tensor_data \<times> tensor_data"
  tr_decoder :: "(int \<Rightarrow> rat list \<Rightarrow> rat list \<Rightarrow> decode_error + decoder_output) option"
  tr_joiner :: "(rat list \<Rightarrow> rat list \<Rightarrow> decode_error + rat list) option"

definition encoder_length :: "tensor_data \<Rightarrow> infer_error fault + nat" where
  "encoder_length d =
     (case d of
        I32 v \<Rightarrow> if v = [] then Inl Panic else if hd v < 0 then Inl (Err NegativeLength) else Inr (nat (hd v))
      | I64 v \<Rightarrow> if v = [] then Inl Panic else if hd v < 0 then Inl (Err NegativeLength) else Inr (nat (hd v))
      | _ \<Rightarrow> Inl (Err LengthType))"

text \<open>The abort closure is polled once on entry, then by the decoders.\<close>

definition later_polls :: "(nat \<Rightarrow> bool) option \<Rightarrow> (nat \<Rightarrow> bool) option" where
  "later_polls abort = map_option (\<lambda>f k. f (Suc k)) abort"

definition decode_ctc :: "engine_head \<Rightarrow> rat list \<Rightarrow> nat \<Rightarrow> biaser option \<Rightarrow> (nat \<Rightarrow> bool) option \<Rightarrow> token_info list" where
  "decode_ctc eng log_probs enc_len bias_opt abort =
     (let tk = eh_tokenizer eng
      in case bias_opt of
           Some b \<Rightarrow> ctc_prefix_beam_decode (eh_float eng) (eh_pick eng) log_probs enc_len (vocab_size tk) (blank_token tk) b abort
         | None \<Rightarrow> ctc_greedy_decode (f_exp (eh_float eng)) log_probs enc_len (vocab_size tk) (blank_token tk) abort)"

definition run_inference :: "engine_head \<Rightarrow> triplet \<Rightarrow> rat list \<Rightarrow> nat \<Rightarrow> decoder_state \<Rightarrow> nat \<Rightarrow> bool \<Rightarrow> biaser option
    \<Rightarrow> (nat \<Rightarrow> bool) option \<Rightarrow> infer_error fault + (word_info list \<times> bool) \<times> decoder_state" where
  "run_inference eng tr features num_frames dst frame_offset low_latency bias_opt abort =
     (if (case abort of None \<Rightarrow> False | Some f \<Rightarrow> f 0) then Inr (([], False), dst)
      else if length features \<noteq> N_MELS * num_frames then Inl Panic
      else case tr_encoder tr low_latency features num_frames of
        Inl e \<Rightarrow> Inl (Err e)
      | Inr (data, len_data) \<Rightarrow>
          (case encoder_length len_data of
             Inl e \<Rightarrow> Inl e
           | Inr enc_len \<Rightarrow>
               if eh_ctc eng
               then (case data of
                       F32 log_probs \<Rightarrow>
                         let tokens = decode_ctc eng log_probs enc_len bias_opt (later_polls abort)
                         in Inr ((ctc_tokens_to_words (eh_tokenizer eng) tokens frame_offset, False), dst)
                     | _ \<Rightarrow> Inl (Err NotF32))
               else case tr_decoder tr of
                      None \<Rightarrow> Inl (Err NoDecoder)
                    | Some decoder \<Rightarrow>
                        (case tr_joiner tr of
                           None \<Rightarrow> Inl (Err NoJoiner)
                         | Some joiner \<Rightarrow>
                             (case data of
                                F32 encoded \<Rightarrow>
                                  (case greedy_decode
                                          \<lparr>decoder_net = decoder, joiner_net = joiner, expf = f_exp (eh_float eng),
                                           rn_blank = blank_token (eh_tokenizer eng), rn_biaser = bias_opt, rn_abort = later_polls abort\<rparr>
                                          encoded enc_len dst of
                                     Inl e \<Rightarrow> Inl (if e = DecodePanic then Panic else Err (DecodeFailed e))
                                   | Inr (r, dst') \<Rightarrow>
                                       Inr ((tokens_to_words (eh_tokenizer eng) (res_tokens r) frame_offset, endpoint_detected r), dst'))
                              | _ \<Rightarrow> Inl (Err NotF32)))))"

section \<open>What comes out\<close>

lemma softmax_range:
  assumes "\<And>x. 0 < ex x"
  shows "conf_in 0 1 (token_confidence ex logits tok)"
proof (cases "length logits \<le> tok")
  case False
  let ?e = "\<lambda>l. ex (l - fold max (tl logits) (hd logits))"
  have m: "?e (logits ! tok) \<in> set (map ?e logits)" using False by simp
  have "?e (logits ! tok) \<le> sum_list (map ?e logits)"
    using m assms by (intro member_le_sum_list) (auto intro: less_imp_le)
  moreover have "0 < ?e (logits ! tok)" by (rule assms)
  ultimately show ?thesis using False by (simp add: conf_in_def token_confidence_def Let_def)
qed (simp add: conf_in_def token_confidence_def)

lemma conf_bounds_exist: "\<exists>lo hi. list_all (\<lambda>t. conf_in lo hi (tok_confidence t)) ts"
proof (induction ts)
  case (Cons t ts)
  then obtain lo hi where "list_all (\<lambda>t. conf_in lo hi (tok_confidence t)) ts" by blast
  then have "list_all (\<lambda>t. conf_in (min lo (tok_confidence t0)) (max hi (tok_confidence t0)) (tok_confidence t)) ts" for t0
    by (auto simp: list_all_iff conf_in_def)
  then show ?case by (intro exI[of _ "min lo (tok_confidence t)"] exI[of _ "max hi (tok_confidence t)"])
      (auto simp: conf_in_def)
qed simp

definition words_sound :: "nat \<Rightarrow> nat \<Rightarrow> word_info list \<Rightarrow> bool" where
  "words_sound off len ws \<longleftrightarrow> sorted_wrt (\<lambda>v w. w_end v \<le> w_start w) ws
     \<and> list_all (\<lambda>w. word w \<noteq> [] \<and> w_start w \<le> w_end w \<and> frame_seconds off 0 \<le> w_start w \<and> w_end w < frame_seconds off len) ws"

lemma grouped_sound:
  assumes "sorted (map frame_index ts)" "list_all (\<lambda>t. frame_index t < len) ts"
  shows "words_sound off len (tokens_to_words tk ts off)" "words_sound off len (ctc_tokens_to_words tk ts off)"
proof -
  obtain lo hi where c: "list_all (\<lambda>t. conf_in lo hi (tok_confidence t)) ts" using conf_bounds_exist by blast
  show "words_sound off len (tokens_to_words tk ts off)"
    using tokens_to_words_ok[OF assms(1) c, of tk off] words_timed(1)[OF assms(2), of off tk]
    by (auto simp: words_sound_def word_ok_def list_all_iff)
  show "words_sound off len (ctc_tokens_to_words tk ts off)"
    using ctc_tokens_to_words_ok[OF assms(1) c, of tk off] words_timed(2)[OF assms(2), of off tk]
    by (auto simp: words_sound_def word_ok_def list_all_iff)
qed

lemma strictly_sorted: "sorted_wrt (<) xs \<Longrightarrow> sorted (xs :: nat list)"
  by (rule sorted_wrt_mono_rel[of _ "(<)"]) auto

lemma decode_ctc_ok:
  shows "sorted (map frame_index (decode_ctc eng lp len bias ab))"
    and "list_all (\<lambda>t. frame_index t < len) (decode_ctc eng lp len bias ab)"
    and "bias = None \<Longrightarrow> (\<And>x. 0 < f_exp (eh_float eng) x) \<Longrightarrow>
      list_all (\<lambda>t. conf_in 0 1 (tok_confidence t)) (decode_ctc eng lp len bias ab)"
proof -
  let ?v = "vocab_size (eh_tokenizer eng)" and ?b = "blank_token (eh_tokenizer eng)"
  have u: "usable_frames lp len ?v \<le> len" by (simp add: usable_frames_def)
  have full: "sorted (map frame_index (ctc_greedy_decode ex lp len ?v ?b None))"
    "list_all (\<lambda>t. frame_index t < len) (ctc_greedy_decode ex lp len ?v ?b None)"
    "(\<And>x. 0 < ex x) \<Longrightarrow> list_all (\<lambda>t. conf_in 0 1 (tok_confidence t)) (ctc_greedy_decode ex lp len ?v ?b None)" for ex
    using ctc_greedy_facts[of ex lp len ?v ?b ab] u softmax_range[of ex]
    by (auto simp: list_all_iff intro: strictly_sorted)
  have pre: "prefix (ctc_greedy_decode ex lp len ?v ?b ab) (ctc_greedy_decode ex lp len ?v ?b None)" for ex
    using ctc_greedy_facts[of ex lp len ?v ?b ab] by blast
  have cut: "sorted (map frame_index (ctc_greedy_decode ex lp len ?v ?b ab))"
    "list_all (\<lambda>t. frame_index t < len) (ctc_greedy_decode ex lp len ?v ?b ab)"
    "(\<And>x. 0 < ex x) \<Longrightarrow> list_all (\<lambda>t. conf_in 0 1 (tok_confidence t)) (ctc_greedy_decode ex lp len ?v ?b ab)" for ex
    using full[of ex] pre[of ex] by (auto simp: prefix_def sorted_append)
  have beam: "sorted (map frame_index (ctc_prefix_beam_decode fl pick lp len ?v ?b bs ab))"
    "list_all (\<lambda>t. frame_index t < len) (ctc_prefix_beam_decode fl pick lp len ?v ?b bs ab)" for fl pick bs
    using beam_facts[where fl = fl and pick = pick and bs = bs and lp = lp and t_len = len and vocab = ?v and blank = ?b and ab = ab] u
    by (auto simp: list_all_iff intro: strictly_sorted)
  show "sorted (map frame_index (decode_ctc eng lp len bias ab))"
    "list_all (\<lambda>t. frame_index t < len) (decode_ctc eng lp len bias ab)"
    using cut beam by (simp_all add: decode_ctc_def Let_def split: option.split)
  show "bias = None \<Longrightarrow> (\<And>x. 0 < f_exp (eh_float eng) x) \<Longrightarrow>
      list_all (\<lambda>t. conf_in 0 1 (tok_confidence t)) (decode_ctc eng lp len bias ab)"
    using cut(3) by (simp add: decode_ctc_def Let_def)
qed

lemma greedy_decode_ok:
  assumes "greedy_decode net encoded len dst = Inr (r, dst')"
    and "length (hid dst) = PRED_HIDDEN" "length (cell dst) = PRED_HIDDEN" "0 < endpoint_blank_threshold dst"
  shows "sorted (map frame_index (res_tokens r))" "list_all (\<lambda>t. frame_index t < len) (res_tokens r)"
    and "(\<And>x. 0 < expf net x) \<Longrightarrow> list_all (\<lambda>t. conf_in 0 1 (tok_confidence t)) (res_tokens r)"
    and "length (hid dst') = PRED_HIDDEN \<and> length (cell dst') = PRED_HIDDEN"
proof -
  obtain s where s: "greedy_loop net encoded len dst = Inr s" "r = \<lparr>res_tokens = rn_tokens s, endpoint_detected = rn_endpoint s\<rparr>"
    "dst' = dstate s" using assms(1) by (auto simp: greedy_decode_def split: sum.splits)
  note b = greedy_loop_bounds[OF s(1) assms(2-4)]
  show "sorted (map frame_index (res_tokens r))" "list_all (\<lambda>t. frame_index t < len) (res_tokens r)"
    "length (hid dst') = PRED_HIDDEN \<and> length (cell dst') = PRED_HIDDEN"
    using b by (auto simp: s(2,3) list_all_iff)
  show "(\<And>x. 0 < expf net x) \<Longrightarrow> list_all (\<lambda>t. conf_in 0 1 (tok_confidence t)) (res_tokens r)"
    using b softmax_range[of "expf net"] by (fastforce simp: s(2) list_all_iff)
qed

text \<open>The ways a call can return words.\<close>

lemma run_inference_cases:
  assumes "run_inference eng tr features n dst off low bias ab = Inr ((ws, ep), dst')"
  obtains (aborted) "ws = []" "ep = False" "dst' = dst"
    | (ctc) data ld len lp where "tr_encoder tr low features n = Inr (data, ld)" "encoder_length ld = Inr len" "data = F32 lp"
        "eh_ctc eng" "ws = ctc_tokens_to_words (eh_tokenizer eng) (decode_ctc eng lp len bias (later_polls ab)) off" "ep = False" "dst' = dst"
    | (rnnt) data ld len encoded net r where "tr_encoder tr low features n = Inr (data, ld)" "encoder_length ld = Inr len"
        "data = F32 encoded" "\<not> eh_ctc eng" "expf net = f_exp (eh_float eng)" "greedy_decode net encoded len dst = Inr (r, dst')"
        "ws = tokens_to_words (eh_tokenizer eng) (res_tokens r) off" "ep = endpoint_detected r"
proof (cases "(case ab of None \<Rightarrow> False | Some f \<Rightarrow> f 0)")
  case True
  then show ?thesis using assms aborted by (simp add: run_inference_def)
next
  case False
  then obtain data ld len where e: "tr_encoder tr low features n = Inr (data, ld)" "encoder_length ld = Inr len"
    using assms by (auto simp: run_inference_def simp del: split_paired_Ex split: if_splits sum.splits prod.splits)
  show ?thesis
  proof (cases "eh_ctc eng")
    case True
    then obtain lp where "data = F32 lp" using assms False e
      by (auto simp: run_inference_def split: if_splits tensor_data.splits)
    then show ?thesis using assms False True e ctc by (simp add: run_inference_def Let_def split: if_splits)
  next
    case nc: False
    let ?net = "\<lambda>d j. \<lparr>decoder_net = d, joiner_net = j, expf = f_exp (eh_float eng),
      rn_blank = blank_token (eh_tokenizer eng), rn_biaser = bias, rn_abort = later_polls ab\<rparr>"
    obtain d j encoded where dj: "tr_decoder tr = Some d" "tr_joiner tr = Some j" "data = F32 encoded"
      using assms False e nc by (auto simp: run_inference_def split: if_splits option.splits tensor_data.splits)
    obtain r where "greedy_decode (?net d j) encoded len dst = Inr (r, dst')"
      "ws = tokens_to_words (eh_tokenizer eng) (res_tokens r) off" "ep = endpoint_detected r"
      using assms False e nc dj by (auto simp: run_inference_def split: if_splits sum.splits)
    then show ?thesis using rnnt[OF e dj(3) nc, of "?net d j" r] by simp
  qed
qed

lemma run_inference_words:
  assumes r: "run_inference eng tr features n dst off low bias ab = Inr ((ws, ep), dst')"
    and s: "length (hid dst) = PRED_HIDDEN" "length (cell dst) = PRED_HIDDEN" "0 < endpoint_blank_threshold dst"
    and ex: "\<And>x. 0 < f_exp (eh_float eng) x"
  shows "(\<exists>data ld len. (ws = [] \<or> tr_encoder tr low features n = Inr (data, ld) \<and> encoder_length ld = Inr len) \<and> words_sound off len ws)
    \<and> (eh_ctc eng \<and> bias \<noteq> None \<or> list_all (\<lambda>w. conf_in 0 1 (confidence w)) ws)
    \<and> length (hid dst') = PRED_HIDDEN \<and> length (cell dst') = PRED_HIDDEN \<and> (eh_ctc eng \<longrightarrow> \<not> ep \<and> dst' = dst)"
  using r
proof (cases rule: run_inference_cases)
  case aborted
  then show ?thesis using s by (simp add: words_sound_def)
next
  case (ctc data ld len lp)
  note d = decode_ctc_ok[where eng = eng and lp = lp and len = len and bias = bias and ab = "later_polls ab"]
  have "bias = None \<Longrightarrow> list_all (\<lambda>w. conf_in 0 1 (confidence w)) ws"
    using ctc_tokens_to_words_ok[OF d(1) d(3), where tk = "eh_tokenizer eng" and off = off] ex by (auto simp: ctc(5) word_ok_def list_all_iff)
  then show ?thesis using grouped_sound(2)[OF d(1,2), where tk = "eh_tokenizer eng" and off = off] ctc s by (cases bias) auto
next
  case (rnnt data ld len encoded net r)
  note d = greedy_decode_ok[OF rnnt(6) s]
  have "list_all (\<lambda>w. conf_in 0 1 (confidence w)) ws"
    using tokens_to_words_ok[OF d(1) d(3), where tk = "eh_tokenizer eng" and off = off] ex by (auto simp: rnnt(5,7) word_ok_def list_all_iff)
  then show ?thesis using grouped_sound(1)[OF d(1,2), where tk = "eh_tokenizer eng" and off = off] rnnt d(4) by auto
qed

text \<open>
  C17: an inference call returns well-formed words, whatever the networks answer. From a decoder
  state of the right shape, a call that succeeds returns words that are not empty, in order of
  time and without overlap, within the encoder frames of its window shifted by the frame offset,
  with confidences between 0 and 1 unless a CTC head ran its beam; it hands back a state of the
  right shape, and a CTC head leaves the state alone and never signals an endpoint.
\<close>
theorem inference_words_well_formed:
  assumes "run_inference eng tr features n dst off low bias ab = Inr ((ws, ep), dst')"
    and "length (hid dst) = PRED_HIDDEN" "length (cell dst) = PRED_HIDDEN" "0 < endpoint_blank_threshold dst"
    and "\<And>x. 0 < f_exp (eh_float eng) x"
  shows "(\<exists>data ld len. (ws = [] \<or> tr_encoder tr low features n = Inr (data, ld) \<and> encoder_length ld = Inr len) \<and> words_sound off len ws)
    \<and> (eh_ctc eng \<and> bias \<noteq> None \<or> list_all (\<lambda>w. conf_in 0 1 (confidence w)) ws)
    \<and> length (hid dst') = PRED_HIDDEN \<and> length (cell dst') = PRED_HIDDEN \<and> (eh_ctc eng \<longrightarrow> \<not> ep \<and> dst' = dst)"
  by (rule run_inference_words[OF assms])

definition demo_engine :: engine_head where
  "demo_engine = \<lparr>eh_tokenizer = demo_tokenizer, eh_ctc = True,
     eh_float = \<lparr>f_exp = (\<lambda>x. if x = 0 then 1 else 1 / 8), f_ln = (\<lambda>_. 0), f_ln_1p = (\<lambda>_. 0)\<rparr>, eh_pick = top_k_by_sort\<rparr>"

definition demo_triplet :: triplet where
  "demo_triplet = \<lparr>tr_encoder = (\<lambda>_ _ _. Inr (F32 [1, 0, 0, 0, 0, 1, 0, 1, 0], I32 [3])), tr_decoder = None, tr_joiner = None\<rparr>"

lemma inference_words_well_formed_witness:
  "\<exists>ws. run_inference demo_engine demo_triplet [] 0 (decoder_state_new 2) 25 False None None = Inr ((ws, False), decoder_state_new 2)
     \<and> map word ws = [[98]] \<and> list_all (\<lambda>w. conf_in 0 1 (confidence w)) ws"
proof -
  let ?dst = "decoder_state_new 2"
  have run: "run_inference demo_engine demo_triplet [] 0 ?dst 25 False None None
      = Inr (([\<lparr>word = [98], w_start = 27 / 25, w_end = 27 / 25, confidence = 4 / 5, speaker = None\<rparr>], False), ?dst)"
    by (simp add: run_inference_def demo_engine_def demo_triplet_def encoder_length_def decode_ctc_def later_polls_def
        ctc_greedy_decode_def vocab_size_def demo_tokenizer_def usable_frames_def upt_rec ctc_row_def subslice_def
        argmax_def better_logit_def token_confidence_def ctc_tokens_to_words_def ctc_word_step_def token_text_def
        opens_word_def ctc_flush_def emit_word_def push_text_def acc_new_def frame_seconds_def SECONDS_PER_FRAME_def
        HOP_LENGTH_def ENCODER_SUBSAMPLING_def avg_conf_def blk_def unk_def lit_def WORD_BOUNDARY_def N_MELS_def Let_def)
  have "list_all (\<lambda>w. conf_in 0 1 (confidence w)) [\<lparr>word = [98], w_start = 27 / 25, w_end = 27 / 25, confidence = 4 / 5, speaker = None\<rparr>]"
    using inference_words_well_formed[OF run]
    by (simp add: decoder_state_new_def silence_frames_def div_ceil_def HOP_LENGTH_def ENCODER_SUBSAMPLING_def
        DEFAULT_SILENCE_MS_def demo_engine_def split: if_splits)
  then show ?thesis using run by simp
qed

end
