(* ===== verification/Mel_Features.thy ===== *)
theory Mel_Features
  imports Inference
begin

text \<open>
  The log-mel features of \<open>inference/features.rs\<close>: the Hann window, the triangular filterbank,
  its sparse form, and the loop that fills the feature matrix through three buffers that live
  across calls: the input of the Fourier transform with its scratch space, the power spectrum and
  the output. The transcendental functions and the transform are arguments; samples are finite
  floats, kept as rationals. A plan of \<open>rustfft\<close> overwrites its buffer with the transform, which does
  not depend on what the scratch space held, and leaves something unspecified in the scratch space.
\<close>

section \<open>Filterbank\<close>

record fft_plan =
  dft :: "(rat \<times> rat) list \<Rightarrow> (rat \<times> rat) list"
  left_in_scratch :: "(rat \<times> rat) list \<Rightarrow> (rat \<times> rat) list \<Rightarrow> (rat \<times> rat) list"
  inplace_scratch_len :: nat

record mel_math =
  m_pi :: rat
  m_cos :: "rat \<Rightarrow> rat"
  m_log10 :: "rat \<Rightarrow> rat"
  m_pow10 :: "rat \<Rightarrow> rat"
  m_ln :: "rat \<Rightarrow> rat"
  m_fft :: fft_plan

record mel_band =
  band_start :: nat
  band_weights :: "rat list"

record mel_spectrogram =
  n_fft :: nat
  hop_length :: nat
  hann :: "rat list"
  mel_bands :: "mel_band list"
  fft :: fft_plan

definition N_FFT :: nat where "N_FFT = 320"

definition hz_to_mel :: "mel_math \<Rightarrow> rat \<Rightarrow> rat" where
  "hz_to_mel M hz = 2595 * m_log10 M (1 + hz / 700)"

definition mel_to_hz :: "mel_math \<Rightarrow> rat \<Rightarrow> rat" where
  "mel_to_hz M mel = 700 * (m_pow10 M (mel / 2595) - 1)"

definition bin_points :: "mel_math \<Rightarrow> nat \<Rightarrow> nat \<Rightarrow> rat \<Rightarrow> rat \<Rightarrow> rat \<Rightarrow> rat list" where
  "bin_points M nf n_mels rate fmin fmax =
     (let mel_min = hz_to_mel M fmin; mel_max = hz_to_mel M fmax;
          mel_points = map (\<lambda>i. mel_min + (mel_max - mel_min) * of_nat i / of_nat (n_mels + 1)) [0..<n_mels + 2]
      in map (\<lambda>hz. hz * of_nat nf / rate) (map (mel_to_hz M) mel_points))"

definition triangle :: "rat \<Rightarrow> rat \<Rightarrow> rat \<Rightarrow> rat \<Rightarrow> rat" where
  "triangle f_left f_center f_right freq =
     (if f_left \<le> freq \<and> freq \<le> f_center \<and> f_left < f_center then (freq - f_left) / (f_center - f_left)
      else if f_center < freq \<and> freq \<le> f_right \<and> f_center < f_right then (f_right - freq) / (f_right - f_center)
      else 0)"

definition create_mel_filterbank :: "mel_math \<Rightarrow> nat \<Rightarrow> nat \<Rightarrow> rat \<Rightarrow> rat \<Rightarrow> rat \<Rightarrow> rat list" where
  "create_mel_filterbank M nf n_mels rate fmin fmax =
     (let bins = bin_points M nf n_mels rate fmin fmax; n_freqs = nf div 2 + 1
      in concat (map (\<lambda>m. map (\<lambda>k. triangle (bins ! m) (bins ! (m + 1)) (bins ! (m + 2)) (of_nat k)) [0..<n_freqs])
           [0..<n_mels]))"

primrec position :: "('a \<Rightarrow> bool) \<Rightarrow> 'a list \<Rightarrow> nat option" where
  "position p [] = None"
| "position p (x # xs) = (if p x then Some 0 else map_option Suc (position p xs))"

definition rposition :: "('a \<Rightarrow> bool) \<Rightarrow> 'a list \<Rightarrow> nat option" where
  "rposition p xs = map_option (\<lambda>i. length xs - 1 - i) (position p (rev xs))"

definition sparse_row :: "rat list \<Rightarrow> mel_band" where
  "sparse_row row =
     (case (position (\<lambda>w. w \<noteq> 0) row, rposition (\<lambda>w. w \<noteq> 0) row) of
        (Some start, Some last_bin) \<Rightarrow> \<lparr>band_start = start, band_weights = subslice row start (last_bin + 1)\<rparr>
      | _ \<Rightarrow> \<lparr>band_start = 0, band_weights = [0]\<rparr>)"

definition sparsify_mel_filterbank :: "rat list \<Rightarrow> nat \<Rightarrow> nat \<Rightarrow> mel_band list" where
  "sparsify_mel_filterbank fb n_mels n_freqs =
     map (\<lambda>m. sparse_row (subslice fb (m * n_freqs) ((m + 1) * n_freqs))) [0..<n_mels]"

definition mel_filterbank :: "mel_math \<Rightarrow> rat list" where
  "mel_filterbank M = create_mel_filterbank M N_FFT N_MELS 16000 0 (16000 / 2)"

definition mel_new :: "mel_math \<Rightarrow> mel_spectrogram" where
  "mel_new M =
     \<lparr>n_fft = N_FFT, hop_length = HOP_LENGTH,
      hann = map (\<lambda>n. 1 / 2 * (1 - m_cos M (2 * m_pi M * of_nat n / of_nat (N_FFT - 1)))) [0..<N_FFT],
      mel_bands = sparsify_mel_filterbank (mel_filterbank M) N_MELS (N_FFT div 2 + 1),
      fft = m_fft M\<rparr>"

section \<open>The feature loop\<close>

record mel_buffers =
  fb_fft :: "(rat \<times> rat) list"
  fb_power :: "rat list"
  fb_output :: "rat list"

definition fill_fft_input :: "mel_spectrogram \<Rightarrow> rat list \<Rightarrow> nat \<Rightarrow> (rat \<times> rat) list \<Rightarrow> (rat \<times> rat) list" where
  "fill_fft_input S samples start buf =
     fold (\<lambda>i b. b[i := ((if start + i < length samples then samples ! (start + i) else 0) * hann S ! i, 0)])
       [0..<n_fft S] buf"

text \<open>Both slices keep their lengths, whatever the plan computes.\<close>

definition process_with_scratch :: "fft_plan \<Rightarrow> (rat \<times> rat) list \<Rightarrow> (rat \<times> rat) list
    \<Rightarrow> (rat \<times> rat) list \<times> (rat \<times> rat) list" where
  "process_with_scratch plan buf scratch =
     (map (\<lambda>i. dft plan buf ! i) [0..<length buf],
      map (\<lambda>i. left_in_scratch plan buf scratch ! i) [0..<length scratch])"

definition transform :: "mel_spectrogram \<Rightarrow> (rat \<times> rat) list \<Rightarrow> (rat \<times> rat) list" where
  "transform S buf = (case process_with_scratch (fft S) (take (n_fft S) buf) (drop (n_fft S) buf) of (inp, scratch) \<Rightarrow> inp @ scratch)"

definition norm_sqr :: "rat \<times> rat \<Rightarrow> rat" where
  "norm_sqr z = fst z * fst z + snd z * snd z"

definition fill_power :: "mel_spectrogram \<Rightarrow> (rat \<times> rat) list \<Rightarrow> rat list \<Rightarrow> rat list" where
  "fill_power S buf pw = fold (\<lambda>k p. p[k := norm_sqr (buf ! k)]) [0..<n_fft S div 2 + 1] pw"

definition band_energy :: "rat list \<Rightarrow> mel_band \<Rightarrow> rat" where
  "band_energy pw b =
     fold (\<lambda>(i, w) e. e + w * pw ! (band_start b + i)) (enumerate 0 (band_weights b)) 0"

definition log_floor :: "mel_math \<Rightarrow> rat \<Rightarrow> rat" where
  "log_floor M e = m_ln M (max e (1 / 10000000000))"

definition fill_bands :: "mel_math \<Rightarrow> mel_spectrogram \<Rightarrow> nat \<Rightarrow> nat \<Rightarrow> rat list \<Rightarrow> rat list \<Rightarrow> rat list" where
  "fill_bands M S num_frames f pw outp =
     fold (\<lambda>(m, b) o'. o'[m * num_frames + f := log_floor M (band_energy pw b)]) (enumerate 0 (mel_bands S)) outp"

definition fill_frame :: "mel_math \<Rightarrow> mel_spectrogram \<Rightarrow> rat list \<Rightarrow> nat \<Rightarrow> nat \<Rightarrow> mel_buffers \<Rightarrow> mel_buffers" where
  "fill_frame M S samples num_frames f bufs =
     (let buf = transform S (fill_fft_input S samples (f * hop_length S) (fb_fft bufs));
          pw = fill_power S buf (fb_power bufs)
      in \<lparr>fb_fft = buf, fb_power = pw, fb_output = fill_bands M S num_frames f pw (fb_output bufs)\<rparr>)"

text \<open>The two calls of \<open>resize\<close> that only grow, and the one of the output, which may also cut it.\<close>

definition grow :: "nat \<Rightarrow> 'a \<Rightarrow> 'a list \<Rightarrow> 'a list" where
  "grow n x xs = (if length xs < n then xs @ replicate (n - length xs) x else xs)"

definition resize_output :: "nat \<Rightarrow> rat list \<Rightarrow> rat list" where
  "resize_output n outp = take n outp @ replicate (n - length outp) 0"

definition compute_with_buffers :: "mel_math \<Rightarrow> mel_spectrogram \<Rightarrow> rat list \<Rightarrow> mel_buffers \<Rightarrow> mel_buffers \<times> nat" where
  "compute_with_buffers M S samples bufs =
     (if length samples < n_fft S then (bufs\<lparr>fb_output := replicate (length (mel_bands S)) 0\<rparr>, 1)
      else let num_frames = (length samples - n_fft S) div hop_length S + 1;
               ready = \<lparr>fb_fft = grow (n_fft S + inplace_scratch_len (fft S)) (0, 0) (fb_fft bufs),
                        fb_power = grow (n_fft S div 2 + 1) 0 (fb_power bufs),
                        fb_output = resize_output (length (mel_bands S) * num_frames) (fb_output bufs)\<rparr>
           in (fold (fill_frame M S samples num_frames) [0..<num_frames] ready, num_frames))"

definition mel_compute :: "mel_math \<Rightarrow> mel_spectrogram \<Rightarrow> rat list \<Rightarrow> rat list \<times> nat" where
  "mel_compute M S samples =
     (case compute_with_buffers M S samples \<lparr>fb_fft = [], fb_power = replicate (n_fft S div 2 + 1) 0, fb_output = []\<rparr> of
        (bufs, num_frames) \<Rightarrow> (fb_output bufs, num_frames))"

section \<open>The dense reference\<close>

text \<open>The power spectrum of a frame, as a function of the samples alone.\<close>

definition frame_input :: "mel_spectrogram \<Rightarrow> rat list \<Rightarrow> nat \<Rightarrow> (rat \<times> rat) list" where
  "frame_input S samples start =
     map (\<lambda>i. ((if start + i < length samples then samples ! (start + i) else 0) * hann S ! i, 0)) [0..<n_fft S]"

definition power_spectrum :: "mel_spectrogram \<Rightarrow> rat list \<Rightarrow> nat \<Rightarrow> rat list" where
  "power_spectrum S samples f =
     (let spectrum = dft (fft S) (frame_input S samples (f * hop_length S))
      in map (\<lambda>k. norm_sqr (spectrum ! k)) [0..<n_fft S div 2 + 1])"

definition dense_energy :: "rat list \<Rightarrow> rat list \<Rightarrow> rat" where
  "dense_energy row pw = (\<Sum>k<length row. row ! k * pw ! k)"

lemma position_split:
  "position p xs = Some i \<Longrightarrow> i < length xs \<and> p (xs ! i) \<and> (\<forall>j < i. \<not> p (xs ! j))"
proof (induction xs arbitrary: i)
  case (Cons x xs)
  show ?case
  proof (cases "p x")
    case False
    then obtain k where k: "position p xs = Some k" "i = Suc k" using Cons.prems by auto
    from Cons.IH[OF k(1)] show ?thesis using False by (auto simp: k(2) nth_Cons split: nat.splits)
  qed (use Cons.prems in simp)
qed simp

lemma position_None: "position p xs = None \<Longrightarrow> \<forall>x \<in> set xs. \<not> p x"
  by (induction xs) (auto split: if_splits)

lemma rposition_split:
  assumes "rposition p xs = Some i"
  shows "i < length xs \<and> p (xs ! i) \<and> (\<forall>j. i < j \<longrightarrow> j < length xs \<longrightarrow> \<not> p (xs ! j))"
proof -
  obtain k where k: "position p (rev xs) = Some k" "i = length xs - 1 - k"
    using assms by (auto simp: rposition_def)
  note s = position_split[OF k(1)]
  have i: "i < length xs" "rev xs ! k = xs ! i" using s by (auto simp: k(2) rev_nth)
  have "\<not> p (xs ! j)" if "i < j" "j < length xs" for j
  proof -
    have "length xs - 1 - j < k" "rev xs ! (length xs - 1 - j) = xs ! j" using that s by (auto simp: k(2) rev_nth)
    then show ?thesis using s by metis
  qed
  then show ?thesis using s i by auto
qed

lemma band_energy_sum:
  "band_energy pw b = (\<Sum>i<length (band_weights b). band_weights b ! i * pw ! (band_start b + i))"
proof -
  have "fold (\<lambda>(i, w) e. e + w * pw ! (s + i)) (enumerate n ws) e0
      = e0 + (\<Sum>i<length ws. ws ! i * pw ! (s + (n + i)))" for s n ws e0
  proof (induction ws arbitrary: n e0)
    case (Cons w ws)
    have "(\<Sum>i<length (w # ws). (w # ws) ! i * pw ! (s + (n + i)))
        = w * pw ! (s + n) + (\<Sum>i<length ws. ws ! i * pw ! (s + (Suc n + i)))"
      by (simp add: sum.lessThan_Suc_shift del: sum.lessThan_Suc)
    then show ?case using Cons.IH[of "Suc n" "e0 + w * pw ! (s + n)"] by simp
  qed simp
  from this[of "band_start b" 0 "band_weights b" 0] show ?thesis by (simp add: band_energy_def)
qed

lemma sparse_row_energy: "band_energy pw (sparse_row row) = dense_energy row pw"
proof (cases "position (\<lambda>w. w \<noteq> 0) row")
  case None
  then have "\<forall>x \<in> set row. x = 0" using position_None[OF None] by simp
  then show ?thesis using None by (auto simp: sparse_row_def band_energy_sum dense_energy_def intro!: sum.neutral)
next
  case (Some s)
  note ps = position_split[OF Some]
  have "row ! s \<in> set (rev row)" using ps by simp
  then obtain e where e: "rposition (\<lambda>w. w \<noteq> 0) row = Some e"
    using position_None[of "\<lambda>w. w \<noteq> 0" "rev row"] ps by (cases "position (\<lambda>w. w \<noteq> 0) (rev row)") (auto simp: rposition_def)
  note pe = rposition_split[OF e]
  have se: "s \<le> e" using ps pe by (meson not_le)
  have "dense_energy row pw = (\<Sum>k \<in> {s..e}. row ! k * pw ! k)"
    unfolding dense_energy_def using ps pe
    by (intro sum.mono_neutral_right) (auto simp: not_le)
  also have "\<dots> = (\<Sum>i<Suc e - s. row ! (s + i) * pw ! (s + i))"
    by (rule sum.reindex_bij_witness[of _ "\<lambda>i. s + i" "\<lambda>k. k - s"]) (use se in auto)
  also have "\<dots> = band_energy pw (sparse_row row)"
    using Some e pe se by (auto simp: sparse_row_def band_energy_sum subslice_def intro!: sum.cong)
  finally show ?thesis by simp
qed

section \<open>The buffers\<close>

text \<open>Writing the first cells of a buffer one by one; the cells behind them stay.\<close>

lemma fold_cells:
  assumes "n \<le> length b"
  shows "fold (\<lambda>i b. b[i := g i]) [0..<n] b = map g [0..<n] @ drop n b"
  using assms
proof (induction n)
  case (Suc n)
  then have "drop n b = b ! n # drop (Suc n) b" by (simp add: Cons_nth_drop_Suc)
  then show ?case using Suc by (simp add: list_update_append)
qed simp

definition bufs_ok :: "mel_spectrogram \<Rightarrow> mel_buffers \<Rightarrow> bool" where
  "bufs_ok S bufs \<longleftrightarrow> n_fft S \<le> length (fb_fft bufs) \<and> n_fft S div 2 + 1 \<le> length (fb_power bufs)"

lemma length_transform [simp]: "length (transform S buf) = length buf"
  by (simp add: transform_def process_with_scratch_def min_def)

lemma transform_input:
  assumes "n_fft S \<le> length buf" "k < n_fft S"
  shows "transform S (fill_fft_input S samples start buf) ! k = dft (fft S) (frame_input S samples start) ! k"
  using assms by (simp add: transform_def process_with_scratch_def fill_fft_input_def fold_cells frame_input_def nth_append)

lemma fill_power_nth:
  assumes "n_fft S div 2 + 1 \<le> length pw"
  shows "length (fill_power S buf pw) = length pw"
    and "k < n_fft S div 2 + 1 \<Longrightarrow> fill_power S buf pw ! k = norm_sqr (buf ! k)"
  using fold_cells[OF assms, of "\<lambda>k. norm_sqr (buf ! k)"] assms
  by (simp_all add: fill_power_def nth_append del: upt_Suc)

text \<open>Only the first half of the spectrum is read, and it is the one of the present frame.\<close>

lemma frame_power:
  assumes "bufs_ok S bufs" "2 \<le> n_fft S" "k < n_fft S div 2 + 1"
  shows "fb_power (fill_frame M S samples nf f bufs) ! k = power_spectrum S samples f ! k"
proof -
  have "n_fft S div 2 + 1 \<le> n_fft S" using assms(2) by linarith
  then have "k < n_fft S" using assms(3) by linarith
  then show ?thesis
    using assms(1,3) fill_power_nth(2)[OF _ assms(3)] transform_input[of S "fb_fft bufs" k samples "f * hop_length S"]
    by (simp add: fill_frame_def Let_def bufs_ok_def power_spectrum_def del: upt_Suc)
qed

lemma fill_frame_ok:
  assumes "bufs_ok S bufs"
  shows "bufs_ok S (fill_frame M S samples nf f bufs)"
proof -
  have "length (fill_fft_input S samples st (fb_fft bufs)) = length (fb_fft bufs)" for st
    using assms by (simp add: fill_fft_input_def fold_cells bufs_ok_def)
  then show ?thesis using assms fill_power_nth(1) by (simp add: fill_frame_def Let_def bufs_ok_def)
qed

section \<open>The feature matrix\<close>

lemma length_fill_bands [simp]: "length (fill_bands M S nf f pw outp) = length outp"
proof -
  have "length (fold (\<lambda>(m, b) o'. o'[g m := h b]) bs outp) = length outp" for g :: "nat \<Rightarrow> nat" and h :: "mel_band \<Rightarrow> rat" and bs
    by (induction bs arbitrary: outp) auto
  then show ?thesis by (simp add: fill_bands_def)
qed

lemma fold_bands:
  assumes "f < nf" "i < length outp" "(n + length bs) * nf \<le> length outp"
  shows "fold (\<lambda>(m, b) o'. o'[m * nf + f := h b]) (enumerate n bs) outp ! i
    = (if i mod nf = f \<and> n \<le> i div nf \<and> i div nf < n + length bs then h (bs ! (i div nf - n)) else outp ! i)"
  using assms
proof (induction bs arbitrary: n outp)
  case (Cons b bs)
  have here: "(i = n * nf + f) = (i mod nf = f \<and> i div nf = n)"
    using Cons.prems(1) div_mult_mod_eq[of i nf] by auto
  have "n * nf + f < length outp" using Cons.prems by (simp add: algebra_simps)
  with Cons.IH[of "outp[n * nf + f := h b]" "Suc n"] Cons.prems here show ?case
    by (auto simp: nth_list_update nth_Cons' Suc_diff_le)
qed auto

lemma fill_bands_nth:
  assumes "f < nf" "length outp = length (mel_bands S) * nf" "i < length outp"
  shows "fill_bands M S nf f pw outp ! i
    = (if i mod nf = f then log_floor M (band_energy pw (mel_bands S ! (i div nf))) else outp ! i)"
proof -
  have "i div nf < length (mel_bands S)" using assms by (simp add: less_mult_imp_div_less)
  then show ?thesis
    using fold_bands[of f nf i outp 0 "mel_bands S" "\<lambda>b. log_floor M (band_energy pw b)"] assms
    by (simp add: fill_bands_def)
qed

lemma grid_nth: "i < n * nf \<Longrightarrow> concat (map (\<lambda>m. map (v m) [0..<nf]) [0..<n]) ! i = v (i div nf) (i mod nf)"
proof (induction n)
  case (Suc n)
  have len: "length (concat (map (\<lambda>m. map (v m) [0..<nf]) [0..<n])) = n * nf" for n
    by (induction n) simp_all
  show ?case
  proof (cases "i < n * nf")
    case False
    then have "i - n * nf < nf" using Suc.prems by simp
    moreover from this False have "i div nf = n" "i mod nf = i - n * nf"
      using div_mult_self3[of nf n "i - n * nf"] mod_mult_self3[of n nf "i - n * nf"] by (simp_all add: not_less)
    ultimately show ?thesis using False by (simp add: nth_append len)
  qed (use Suc in \<open>simp add: nth_append len\<close>)
qed simp

lemma length_grid: "length (concat (map (\<lambda>m. map (v m) [0..<nf]) [0..<n])) = n * nf"
  by (induction n) simp_all

definition filter_row :: "mel_math \<Rightarrow> nat \<Rightarrow> rat list" where
  "filter_row M m =
     (let bins = bin_points M N_FFT N_MELS 16000 0 (16000 / 2)
      in map (\<lambda>k. triangle (bins ! m) (bins ! (m + 1)) (bins ! (m + 2)) (of_nat k)) [0..<N_FFT div 2 + 1])"

lemma filterbank_row:
  assumes "m < N_MELS"
  shows "subslice (mel_filterbank M) (m * (N_FFT div 2 + 1)) ((m + 1) * (N_FFT div 2 + 1)) = filter_row M m"
proof -
  let ?nf = "N_FFT div 2 + 1"
  let ?v = "\<lambda>m k. filter_row M m ! k"
  have g: "mel_filterbank M = concat (map (\<lambda>m. map (?v m) [0..<?nf]) [0..<N_MELS])"
    unfolding mel_filterbank_def create_mel_filterbank_def Let_def
    by (intro arg_cong[where f = concat] map_cong refl) (simp add: filter_row_def Let_def del: upt_Suc)
  have len: "length (mel_filterbank M) = N_MELS * ?nf" by (simp only: g length_grid)
  have le: "(m + 1) * ?nf \<le> N_MELS * ?nf" using assms by (intro mult_le_mono1) simp
  have d: "(m * ?nf + k) div ?nf = m" "(m * ?nf + k) mod ?nf = k" if "k < ?nf" for k
    using that div_mult_self3[of ?nf m k] mod_mult_self3[of m ?nf k] by (simp_all del: add_Suc_right mult_Suc_right)
  show ?thesis
  proof (rule nth_equalityI)
    show l: "length (subslice (mel_filterbank M) (m * ?nf) ((m + 1) * ?nf)) = length (filter_row M m)"
      using le len by (simp add: filter_row_def Let_def)
    fix k assume "k < length (subslice (mel_filterbank M) (m * ?nf) ((m + 1) * ?nf))"
    then have k: "k < ?nf" by (simp add: l)
    have i: "m * ?nf + k < N_MELS * ?nf" using k le by simp
    have "subslice (mel_filterbank M) (m * ?nf) ((m + 1) * ?nf) ! k = mel_filterbank M ! (m * ?nf + k)"
      using k i len by (simp add: subslice_def)
    also have "\<dots> = filter_row M m ! k" unfolding g using grid_nth[OF i, of ?v] d[OF k] by simp
    finally show "subslice (mel_filterbank M) (m * ?nf) ((m + 1) * ?nf) ! k = filter_row M m ! k" .
  qed
qed

definition dense_features :: "mel_math \<Rightarrow> rat list \<Rightarrow> nat \<Rightarrow> rat list" where
  "dense_features M samples nf =
     concat (map (\<lambda>m. map (\<lambda>f. log_floor M (dense_energy (filter_row M m) (power_spectrum (mel_new M) samples f))) [0..<nf])
       [0..<N_MELS])"

lemma mel_new_simps [simp]: "n_fft (mel_new M) = N_FFT" "hop_length (mel_new M) = HOP_LENGTH" "length (mel_bands (mel_new M)) = N_MELS"
  by (simp_all add: mel_new_def sparsify_mel_filterbank_def)

lemma mel_band_energy:
  "m < N_MELS \<Longrightarrow> band_energy pw (mel_bands (mel_new M) ! m) = dense_energy (filter_row M m) pw"
  unfolding mel_new_def sparsify_mel_filterbank_def by (subst filterbank_row [symmetric]) (simp_all add: sparse_row_energy)

text \<open>An entry of the matrix, from the samples alone.\<close>

definition dense_value :: "mel_math \<Rightarrow> rat list \<Rightarrow> nat \<Rightarrow> nat \<Rightarrow> rat" where
  "dense_value M samples m f = log_floor M (dense_energy (filter_row M m) (power_spectrum (mel_new M) samples f))"

lemma fill_frame_nth:
  assumes "bufs_ok (mel_new M) bufs" "f < nf" "length (fb_output bufs) = N_MELS * nf" "i < N_MELS * nf"
  shows "fb_output (fill_frame M (mel_new M) samples nf f bufs) ! i
    = (if i mod nf = f then dense_value M samples (i div nf) f else fb_output bufs ! i)"
proof -
  let ?B = "fill_frame M (mel_new M) samples nf f bufs"
  have m: "i div nf < N_MELS" using assms(4) by (simp add: less_mult_imp_div_less)
  have "fb_power ?B ! k = power_spectrum (mel_new M) samples f ! k" if "k < length (filter_row M (i div nf))" for k
    using that frame_power[OF assms(1)] by (simp add: N_FFT_def filter_row_def Let_def del: upt_Suc)
  then have "dense_energy (filter_row M (i div nf)) (fb_power ?B) = dense_energy (filter_row M (i div nf)) (power_spectrum (mel_new M) samples f)"
    unfolding dense_energy_def by (intro sum.cong) simp_all
  then have "log_floor M (band_energy (fb_power ?B) (mel_bands (mel_new M) ! (i div nf))) = dense_value M samples (i div nf) f"
    using mel_band_energy[OF m, where M = M and pw = "fb_power ?B"] by (simp add: dense_value_def)
  moreover have "fb_output ?B = fill_bands M (mel_new M) nf f (fb_power ?B) (fb_output bufs)"
    by (simp add: fill_frame_def Let_def)
  ultimately show ?thesis using fill_bands_nth[where f = f and nf = nf and outp = "fb_output bufs" and S = "mel_new M" and i = i and M = M and pw = "fb_power ?B"] assms(2-4) by simp
qed

lemma fold_frames:
  assumes "bufs_ok (mel_new M) bufs" "k \<le> nf" "length (fb_output bufs) = N_MELS * nf"
  shows "bufs_ok (mel_new M) (fold (fill_frame M (mel_new M) samples nf) [0..<k] bufs)
    \<and> length (fb_output (fold (fill_frame M (mel_new M) samples nf) [0..<k] bufs)) = N_MELS * nf
    \<and> (\<forall>i < N_MELS * nf. fb_output (fold (fill_frame M (mel_new M) samples nf) [0..<k] bufs) ! i = (if i mod nf < k then dense_value M samples (i div nf) (i mod nf) else fb_output bufs ! i))"
  using assms(2)
proof (induction k)
  case (Suc k)
  let ?B = "fold (fill_frame M (mel_new M) samples nf) [0..<k] bufs"
  have ih: "bufs_ok (mel_new M) ?B" "length (fb_output ?B) = N_MELS * nf"
    "\<And>i. i < N_MELS * nf \<Longrightarrow> fb_output ?B ! i = (if i mod nf < k then dense_value M samples (i div nf) (i mod nf) else fb_output bufs ! i)"
    using Suc by auto
  have "length (fb_output (fill_frame M (mel_new M) samples nf k ?B)) = N_MELS * nf"
    using ih(2) by (simp add: fill_frame_def Let_def)
  then show ?case using fill_frame_ok[OF ih(1)] fill_frame_nth[OF ih(1) _ ih(2)] ih(3) Suc.prems by (auto simp: less_Suc_eq)
qed (use assms(1,3) in simp)

lemma features_facts:
  "fb_output (fst (compute_with_buffers M (mel_new M) samples bufs)) =
      (if length samples < N_FFT then replicate N_MELS 0
       else dense_features M samples ((length samples - N_FFT) div HOP_LENGTH + 1))
   \<and> snd (compute_with_buffers M (mel_new M) samples bufs) =
      (if length samples < N_FFT then 1 else (length samples - N_FFT) div HOP_LENGTH + 1)"
proof (cases "length samples < N_FFT")
  case False
  define nf where "nf = (length samples - N_FFT) div HOP_LENGTH + 1"
  define ready where "ready = \<lparr>fb_fft = grow (N_FFT + inplace_scratch_len (fft (mel_new M))) (0, 0) (fb_fft bufs),
      fb_power = grow (N_FFT div 2 + 1) 0 (fb_power bufs), fb_output = resize_output (N_MELS * nf) (fb_output bufs)\<rparr>"
  let ?B = "fold (fill_frame M (mel_new M) samples nf) [0..<nf] ready"
  have r: "bufs_ok (mel_new M) ready" "length (fb_output ready) = N_MELS * nf"
    by (simp_all add: ready_def bufs_ok_def grow_def resize_output_def)
  note B = fold_frames[OF r(1) order.refl r(2), of samples]
  have "fb_output ?B = dense_features M samples nf"
  proof (rule nth_equalityI)
    show "length (fb_output ?B) = length (dense_features M samples nf)"
      using B by (simp add: dense_features_def length_grid del: upt_Suc)
    fix i assume "i < length (fb_output ?B)"
    then have i: "i < N_MELS * nf" using B by simp
    have "i mod nf < nf" by (simp add: nf_def)
    then show "fb_output ?B ! i = dense_features M samples nf ! i"
      using B i by (simp add: dense_features_def grid_nth dense_value_def del: upt_Suc)
  qed
  then show ?thesis using False by (simp add: compute_with_buffers_def Let_def nf_def ready_def)
qed (simp add: compute_with_buffers_def)

lemma features_shape:
  assumes "compute_with_buffers M (mel_new M) samples bufs = (bufs', nf)"
  shows "length (fb_output bufs') = N_MELS * nf" "0 < nf"
proof -
  have r: "bufs' = fst (compute_with_buffers M (mel_new M) samples bufs)" "nf = snd (compute_with_buffers M (mel_new M) samples bufs)"
    by (simp_all add: assms)
  show "length (fb_output bufs') = N_MELS * nf" "0 < nf"
    unfolding r using features_facts[of M samples bufs] by (simp_all add: dense_features_def length_grid del: upt_Suc)
qed

section \<open>Properties\<close>

text \<open>
  C37: the reused buffers and the sparse filterbank do not show in the features. For any samples
  and whatever earlier calls left in the buffers of the Fourier transform and its scratch space, of
  the power spectrum and of the output, the result is the matrix of N\_MELS rows whose entry
  for a band and a frame is the logarithm, floored at 1e-10, of the full dense product of the
  filterbank row with the power spectrum of the samples of that frame, and so the same as with
  fresh buffers; input shorter than a frame gives one frame of zeros.
\<close>
theorem features_equal_dense_reference:
  "fb_output (fst (compute_with_buffers M (mel_new M) samples bufs)) =
      (if length samples < N_FFT then replicate N_MELS 0
       else dense_features M samples ((length samples - N_FFT) div HOP_LENGTH + 1))
   \<and> snd (compute_with_buffers M (mel_new M) samples bufs) =
      (if length samples < N_FFT then 1 else (length samples - N_FFT) div HOP_LENGTH + 1)
   \<and> mel_compute M (mel_new M) samples
      = (fb_output (fst (compute_with_buffers M (mel_new M) samples bufs)), snd (compute_with_buffers M (mel_new M) samples bufs))"
  using features_facts[of M samples bufs]
    features_facts[of M samples "\<lparr>fb_fft = [], fb_power = replicate (n_fft (mel_new M) div 2 + 1) 0, fb_output = []\<rparr>"]
  by (simp add: mel_compute_def case_prod_beta)

end
