(* ===== verification/Vad_Endpoint.thy ===== *)
theory Vad_Endpoint
  imports Vad_Regions
begin

text \<open>
  The streaming half of the voice activity detection, \<open>vad/endpoint.rs\<close>: the trailing-silence
  machine \<open>Hangover\<close> and \<open>VadEndpointer\<close>, which cuts the incoming chunks into frames, scores
  them and reports when an utterance has ended. A failing model leaves the frames of the chunk in
  \<open>leftover\<close> while the recurrent state and the machine keep what they did.
\<close>

section \<open>Hangover\<close>

record hangover =
  hang_threshold :: float_val
  min_silence_samples :: nat
  seen_speech :: bool
  trailing_silence :: nat
  armed :: bool

definition hangover_new :: "vad_config \<Rightarrow> hangover" where
  "hangover_new cfg =
     \<lparr>hang_threshold = threshold cfg, min_silence_samples = ms_to_samples (min_silence_ms cfg),
      seen_speech = False, trailing_silence = 0, armed = False\<rparr>"

definition hangover_update :: "float_val \<Rightarrow> nat \<Rightarrow> hangover \<Rightarrow> bool \<times> hangover" where
  "hangover_update prob frame_samples h =
     (if float_ge prob (hang_threshold h) then (False, h\<lparr>seen_speech := True, armed := True, trailing_silence := 0\<rparr>)
      else if \<not> seen_speech h then (False, h)
      else let h' = h\<lparr>trailing_silence := trailing_silence h + frame_samples\<rparr>
           in if armed h' \<and> min_silence_samples h' \<le> trailing_silence h' then (True, h'\<lparr>armed := False\<rparr>)
              else (False, h'))"

section \<open>VadEndpointer\<close>

record 'st endpointer =
  ep_state :: 'st
  leftover :: pcm
  ep_hangover :: hangover

definition endpointer_new :: "vad_config \<Rightarrow> 'st \<Rightarrow> 'st endpointer" where
  "endpointer_new cfg st0 = \<lparr>ep_state = st0, leftover = [], ep_hangover = hangover_new cfg\<rparr>"

text \<open>The frame loop of \<open>push\<close>: \<open>off\<close> is the offset, \<open>e\<close> the flag \<open>endpoint\<close>.\<close>

function ep_scan :: "'st scorer \<Rightarrow> pcm \<Rightarrow> nat \<Rightarrow> bool \<Rightarrow> 'st endpointer \<Rightarrow> (string + nat \<times> bool) \<times> 'st endpointer" where
  "ep_scan vad xs off e ep =
     (if off + VAD_FRAME_SAMPLES \<le> length xs
      then case run_frame vad (subslice xs off (off + VAD_FRAME_SAMPLES)) (ep_state ep) of
             Inl msg \<Rightarrow> (Inl msg, ep)
           | Inr (prob, st') \<Rightarrow>
               let (fired, h') = hangover_update prob VAD_FRAME_SAMPLES (ep_hangover ep)
               in ep_scan vad xs (off + VAD_FRAME_SAMPLES) (e \<or> fired) (ep\<lparr>ep_state := st', ep_hangover := h'\<rparr>)
      else (Inr (off, e), ep))"
  by pat_completeness auto
termination by (relation "measure (\<lambda>(vad, xs, off, e, ep). length xs - off)") auto

declare ep_scan.simps [simp del]

definition ep_push :: "'st scorer \<Rightarrow> pcm \<Rightarrow> 'st endpointer \<Rightarrow> (string + bool) \<times> 'st endpointer" where
  "ep_push vad samples ep =
     (let xs = leftover ep @ samples
      in case ep_scan vad xs 0 False (ep\<lparr>leftover := xs\<rparr>) of
           (Inl msg, ep') \<Rightarrow> (Inl msg, ep')
         | (Inr (off, e), ep') \<Rightarrow> (Inr e, if 0 < off then ep'\<lparr>leftover := drop off xs\<rparr> else ep'))"

primrec ep_pushes :: "'st scorer \<Rightarrow> pcm list \<Rightarrow> 'st endpointer \<Rightarrow> (string + bool) list \<times> 'st endpointer" where
  "ep_pushes vad [] ep = ([], ep)"
| "ep_pushes vad (c # cs) ep =
     (let (r, ep1) = ep_push vad c ep; (rs, ep2) = ep_pushes vad cs ep1 in (r # rs, ep2))"

section \<open>The specification\<close>

text \<open>The full frames of an audio stream, their probabilities, and where an utterance ends.\<close>

function frames_of :: "pcm \<Rightarrow> pcm list" where
  "frames_of xs =
     (if VAD_FRAME_SAMPLES \<le> length xs then take VAD_FRAME_SAMPLES xs # frames_of (drop VAD_FRAME_SAMPLES xs) else [])"
  by pat_completeness auto
termination by (relation "measure length") auto

declare frames_of.simps [simp del]

primrec stream_probs :: "(pcm \<Rightarrow> 'st \<Rightarrow> float_val \<times> 'st) \<Rightarrow> 'st \<Rightarrow> pcm list \<Rightarrow> float_val list" where
  "stream_probs net st [] = []"
| "stream_probs net st (f # fs) = (let (p, st') = net f st in p # stream_probs net st' fs)"

definition silence_needed :: "nat \<Rightarrow> nat" where
  "silence_needed m = max 1 (div_ceil m VAD_FRAME_SAMPLES)"

definition ends_utterance :: "float_val \<Rightarrow> nat \<Rightarrow> float_val list \<Rightarrow> nat \<Rightarrow> bool" where
  "ends_utterance thr m ps i =
     (let n = silence_needed m
      in n \<le> i \<and> float_ge (ps ! (i - n)) thr \<and> list_all (\<lambda>j. \<not> float_ge (ps ! j) thr) [i - n + 1..<i + 1])"

section \<open>The machine meets it\<close>

text \<open>The number of silent frames since the last speech frame, if there was one.\<close>

fun silent_run :: "float_val \<Rightarrow> float_val list \<Rightarrow> nat option" where
  "silent_run thr [] = None"
| "silent_run thr (p # ps) = (if float_ge p thr then Some 0 else map_option Suc (silent_run thr ps))"

definition hang_at :: "float_val \<Rightarrow> nat \<Rightarrow> float_val list \<Rightarrow> hangover" where
  "hang_at thr m ps =
     (case silent_run thr (rev ps) of
        None \<Rightarrow> \<lparr>hang_threshold = thr, min_silence_samples = m, seen_speech = False, trailing_silence = 0, armed = False\<rparr>
      | Some r \<Rightarrow> \<lparr>hang_threshold = thr, min_silence_samples = m, seen_speech = True,
                   trailing_silence = r * VAD_FRAME_SAMPLES, armed = (r < silence_needed m)\<rparr>)"

lemma silence_needed_le:
  assumes "0 < r"
  shows "silence_needed m \<le> r \<longleftrightarrow> m \<le> r * VAD_FRAME_SAMPLES"
proof -
  note b = div_ceil_bounds[of VAD_FRAME_SAMPLES m]
  have "div_ceil m VAD_FRAME_SAMPLES \<le> r \<longleftrightarrow> m \<le> r * VAD_FRAME_SAMPLES"
  proof
    assume "m \<le> r * VAD_FRAME_SAMPLES"
    then have "div_ceil m VAD_FRAME_SAMPLES * VAD_FRAME_SAMPLES \<le> r * VAD_FRAME_SAMPLES" by (intro div_ceil_le) simp_all
    then show "div_ceil m VAD_FRAME_SAMPLES \<le> r" by simp
  qed (use b(1) in \<open>simp add: order.trans\<close>)
  then show ?thesis using assms by (simp add: silence_needed_def)
qed

lemma silent_run_Some:
  "silent_run thr (rev ps) = Some r \<longleftrightarrow>
     r < length ps \<and> float_ge (ps ! (length ps - Suc r)) thr
     \<and> (\<forall>j. length ps - r \<le> j \<longrightarrow> j < length ps \<longrightarrow> \<not> float_ge (ps ! j) thr)"
proof (induction ps arbitrary: r rule: rev_induct)
  case (snoc p ps)
  show ?case
  proof (cases "float_ge p thr")
    case True
    then show ?thesis by (cases r) (auto simp: nth_append intro!: exI[of _ "length ps"])
  next
    case False
    then show ?thesis
    proof (cases r)
      case (Suc k)
      have "silent_run thr (rev (ps @ [p])) = Some r \<longleftrightarrow> silent_run thr (rev ps) = Some k"
        using False by (auto simp: Suc)
      also have "\<dots> \<longleftrightarrow> k < length ps \<and> float_ge (ps ! (length ps - Suc k)) thr
         \<and> (\<forall>j. length ps - k \<le> j \<longrightarrow> j < length ps \<longrightarrow> \<not> float_ge (ps ! j) thr)" by (rule snoc.IH)
      finally show ?thesis using False by (auto simp: Suc nth_append less_Suc_eq)
    qed auto
  qed
qed simp

lemma hang_step:
  "hangover_update p VAD_FRAME_SAMPLES (hang_at thr m ps) = (ends_utterance thr m (ps @ [p]) (length ps), hang_at thr m (ps @ [p]))"
proof (cases "float_ge p thr")
  case True
  have "silence_needed m \<le> length ps \<Longrightarrow> length ps \<in> set [length ps - silence_needed m + 1..<length ps + 1]"
    by (auto simp: silence_needed_def)
  then have "\<not> ends_utterance thr m (ps @ [p]) (length ps)"
    using True by (fastforce simp: ends_utterance_def Let_def list_all_iff nth_append)
  then show ?thesis using True
    by (auto simp: hangover_update_def hang_at_def silence_needed_def split: option.splits)
next
  case False
  have ends: "ends_utterance thr m (ps @ [p]) (length ps) \<longleftrightarrow> silent_run thr (rev (ps @ [p])) = Some (silence_needed m)"
    unfolding silent_run_Some[of thr "ps @ [p]"]
    by (auto simp: ends_utterance_def Let_def list_all_iff silence_needed_def less_Suc_eq_le Suc_diff_le)
  show ?thesis
  proof (cases "silent_run thr (rev ps)")
    case None
    then show ?thesis using False ends by (simp add: hangover_update_def hang_at_def)
  next
    case (Some r)
    have "silence_needed m \<le> Suc r \<longleftrightarrow> m \<le> VAD_FRAME_SAMPLES + r * VAD_FRAME_SAMPLES"
      using silence_needed_le[of "Suc r" m] by simp
    then show ?thesis using False Some ends
      by (auto simp: hangover_update_def hang_at_def Let_def)
  qed
qed

section \<open>The endpointer meets it\<close>

lemma length_frames_of: "length (frames_of xs) = length xs div VAD_FRAME_SAMPLES"
proof (induction xs rule: frames_of.induct)
  case (1 xs)
  then show ?case
    by (cases "VAD_FRAME_SAMPLES \<le> length xs") (simp_all add: frames_of.simps[of xs] le_div_geq)
qed

definition rest_of :: "pcm \<Rightarrow> pcm" where
  "rest_of xs = drop (length (frames_of xs) * VAD_FRAME_SAMPLES) xs"

lemma frames_of_append: "frames_of (xs @ ys) = frames_of xs @ frames_of (rest_of xs @ ys)"
proof (induction xs rule: frames_of.induct)
  case (1 xs)
  show ?case
  proof (cases "VAD_FRAME_SAMPLES \<le> length xs")
    case True
    have r: "rest_of (drop VAD_FRAME_SAMPLES xs) = rest_of xs"
      using True by (simp add: rest_of_def length_frames_of le_div_geq add.commute)
    have "frames_of (xs @ ys) = take VAD_FRAME_SAMPLES xs # frames_of (drop VAD_FRAME_SAMPLES xs @ ys)"
      using True by (subst frames_of.simps) simp
    also have "\<dots> = take VAD_FRAME_SAMPLES xs # frames_of (drop VAD_FRAME_SAMPLES xs) @ frames_of (rest_of xs @ ys)"
      using 1[OF True] r by simp
    also have "\<dots> = frames_of xs @ frames_of (rest_of xs @ ys)"
      using True by (subst (3) frames_of.simps) simp
    finally show ?thesis .
  next
    case False
    then have "frames_of xs = []" by (simp add: frames_of.simps)
    then show ?thesis by (simp add: rest_of_def)
  qed
qed

lemma stream_probs_append:
  "\<exists>st'. \<forall>gs. stream_probs net st (fs @ gs) = stream_probs net st fs @ stream_probs net st' gs"
  by (induction fs arbitrary: st) (auto simp: Let_def split: prod.splits)

primrec net_state :: "(pcm \<Rightarrow> 'st \<Rightarrow> float_val \<times> 'st) \<Rightarrow> 'st \<Rightarrow> pcm list \<Rightarrow> 'st" where
  "net_state net st [] = st"
| "net_state net st (f # fs) = net_state net (snd (net f st)) fs"

lemma stream_probs_split:
  "stream_probs net st (fs @ gs) = stream_probs net st fs @ stream_probs net (net_state net st fs) gs"
  "net_state net st (fs @ gs) = net_state net (net_state net st fs) gs"
  by (induction fs arbitrary: st) (auto simp: Let_def split: prod.splits)

lemma length_stream_probs [simp]: "length (stream_probs net st fs) = length fs"
  by (induction fs arbitrary: st) (auto simp: Let_def split: prod.splits)

lemma frames_full: "f \<in> set (frames_of xs) \<Longrightarrow> length f = VAD_FRAME_SAMPLES"
proof (induction xs rule: frames_of.induct)
  case (1 xs)
  then show ?case by (cases "VAD_FRAME_SAMPLES \<le> length xs") (auto simp: frames_of.simps[of xs])
qed

abbreviation total_vad :: "(pcm \<Rightarrow> 'st \<Rightarrow> float_val \<times> 'st) \<Rightarrow> 'st scorer" where
  "total_vad net \<equiv> \<lambda>f st. Inr (net f st)"

definition fires :: "float_val \<Rightarrow> nat \<Rightarrow> float_val list \<Rightarrow> nat \<Rightarrow> nat \<Rightarrow> bool" where
  "fires thr m ps a b \<longleftrightarrow> list_ex (ends_utterance thr m ps) [a..<b]"

lemma ends_utterance_cut: "i < length ps \<Longrightarrow> ends_utterance thr m (ps @ qs) i = ends_utterance thr m ps i"
  by (auto simp: ends_utterance_def Let_def list_all_iff nth_append silence_needed_def)

lemma fires_cut: "b \<le> length ps \<Longrightarrow> fires thr m (ps @ qs) a b = fires thr m ps a b"
  by (auto simp: fires_def list_ex_iff ends_utterance_cut)

lemma ep_scan_frames:
  assumes "off \<le> length xs" "ep_state ep = net_state net st0 fs0"
    and "ep_hangover ep = hang_at thr m (stream_probs net st0 fs0)"
  shows "ep_scan (total_vad net) xs off e ep =
     (let fs = fs0 @ frames_of (drop off xs); ps = stream_probs net st0 fs
      in (Inr (off + length (frames_of (drop off xs)) * VAD_FRAME_SAMPLES, e \<or> fires thr m ps (length fs0) (length fs)),
          ep\<lparr>ep_state := net_state net st0 fs, ep_hangover := hang_at thr m ps\<rparr>))"
  using assms
proof (induction "length xs - off" arbitrary: off e ep fs0 rule: less_induct)
  case less
  show ?case
  proof (cases "off + VAD_FRAME_SAMPLES \<le> length xs")
    case False
    then have "frames_of (drop off xs) = []" by (subst frames_of.simps) simp
    then show ?thesis using False less.prems by (simp add: ep_scan.simps fires_def)
  next
    case True
    let ?f = "take VAD_FRAME_SAMPLES (drop off xs)" and ?off = "off + VAD_FRAME_SAMPLES"
    have lf: "length ?f = VAD_FRAME_SAMPLES" using True by simp
    have fr: "frames_of (drop off xs) = ?f # frames_of (drop ?off xs)"
      using True by (subst frames_of.simps) (simp add: add.commute)
    obtain p st' where n: "net ?f (ep_state ep) = (p, st')" by fastforce
    have rf: "run_frame (total_vad net) (subslice xs off ?off) (ep_state ep) = Inr (p, st')"
      using n lf True by (simp add: run_frame_def subslice_def)
    let ?ps0 = "stream_probs net st0 fs0" and ?ps1 = "stream_probs net st0 (fs0 @ [?f])"
    have ps1: "?ps1 = ?ps0 @ [p]" "net_state net st0 (fs0 @ [?f]) = st'"
      using n less.prems(2) by (simp_all add: stream_probs_split)
    have hs: "hangover_update p VAD_FRAME_SAMPLES (ep_hangover ep)
        = (ends_utterance thr m ?ps1 (length fs0), hang_at thr m ?ps1)"
      using hang_step[of p thr m ?ps0] less.prems(3) ps1 by simp
    let ?ep = "ep\<lparr>ep_state := st', ep_hangover := hang_at thr m ?ps1\<rparr>"
    let ?fs = "fs0 @ frames_of (drop off xs)"
    let ?ps = "stream_probs net st0 ?fs"
    have fs: "?fs = (fs0 @ [?f]) @ frames_of (drop ?off xs)" by (simp add: fr)
    have ih: "ep_scan (total_vad net) xs ?off e' ?ep =
       (Inr (?off + length (frames_of (drop ?off xs)) * VAD_FRAME_SAMPLES, e' \<or> fires thr m ?ps (Suc (length fs0)) (length ?fs)),
        ?ep\<lparr>ep_state := net_state net st0 ?fs, ep_hangover := hang_at thr m ?ps\<rparr>)" for e'
      using less.hyps[of ?off ?ep "fs0 @ [?f]" e'] True ps1 unfolding fs by (simp add: Let_def)
    have e1: "ends_utterance thr m ?ps1 (length fs0) = ends_utterance thr m ?ps (length fs0)"
      unfolding fs stream_probs_split(1)[of net st0 "fs0 @ [?f]"] by (rule ends_utterance_cut[symmetric]) simp
    have "fires thr m ?ps (length fs0) (length ?fs) \<longleftrightarrow>
        ends_utterance thr m ?ps (length fs0) \<or> fires thr m ?ps (Suc (length fs0)) (length ?fs)"
      unfolding fires_def by (subst upt_conv_Cons) (simp_all add: fr)
    then show ?thesis using rf hs ih True
      by (subst ep_scan.simps) (simp add: Let_def e1[unfolded fs, simplified] fr)
  qed
qed

definition ep_at :: "(pcm \<Rightarrow> 'st \<Rightarrow> float_val \<times> 'st) \<Rightarrow> vad_config \<Rightarrow> 'st \<Rightarrow> pcm \<Rightarrow> 'st endpointer" where
  "ep_at net cfg st0 xs =
     \<lparr>ep_state = net_state net st0 (frames_of xs), leftover = rest_of xs,
      ep_hangover = hang_at (threshold cfg) (ms_to_samples (min_silence_ms cfg)) (stream_probs net st0 (frames_of xs))\<rparr>"

lemma ep_new_at: "endpointer_new cfg st0 = ep_at net cfg st0 []"
  by (simp add: endpointer_new_def ep_at_def hangover_new_def hang_at_def rest_of_def frames_of.simps)

lemma ep_push_at:
  "ep_push (total_vad net) c (ep_at net cfg st0 xs) =
     (Inr (fires (threshold cfg) (ms_to_samples (min_silence_ms cfg)) (stream_probs net st0 (frames_of (xs @ c)))
             (length xs div VAD_FRAME_SAMPLES) (length (xs @ c) div VAD_FRAME_SAMPLES)),
      ep_at net cfg st0 (xs @ c))"
proof -
  let ?cfgs = "threshold cfg" and ?m = "ms_to_samples (min_silence_ms cfg)"
  define ys where "ys = rest_of xs @ c"
  have fr: "frames_of (xs @ c) = frames_of xs @ frames_of ys" unfolding ys_def by (rule frames_of_append)
  have sc: "ep_scan (total_vad net) ys 0 False (ep_at net cfg st0 xs\<lparr>leftover := ys\<rparr>) =
    (Inr (length (frames_of ys) * VAD_FRAME_SAMPLES,
       fires ?cfgs ?m (stream_probs net st0 (frames_of (xs @ c))) (length (frames_of xs)) (length (frames_of (xs @ c)))),
     ep_at net cfg st0 (xs @ c)\<lparr>leftover := ys\<rparr>)"
    using ep_scan_frames[of 0 ys "ep_at net cfg st0 xs\<lparr>leftover := ys\<rparr>" net st0 "frames_of xs" ?cfgs ?m False]
    by (simp add: ep_at_def fr Let_def)
  have "length (frames_of xs) * VAD_FRAME_SAMPLES \<le> length xs" unfolding length_frames_of by (rule div_times_less_eq_dividend)
  then have ys: "ys = drop (length (frames_of xs) * VAD_FRAME_SAMPLES) (xs @ c)" by (simp add: rest_of_def ys_def)
  have "drop (length (frames_of ys) * VAD_FRAME_SAMPLES) ys
      = drop ((length (frames_of xs) + length (frames_of ys)) * VAD_FRAME_SAMPLES) (xs @ c)"
    unfolding ys(1) drop_drop by (simp add: add_mult_distrib add.commute flip: ys)
  then have rest: "drop (length (frames_of ys) * VAD_FRAME_SAMPLES) ys = rest_of (xs @ c)"
    by (simp only: rest_of_def[of "xs @ c"] fr length_append)
  have lv: "leftover (ep_at net cfg st0 xs) @ c = ys" by (simp add: ep_at_def ys_def)
  have keep: "ep_at net cfg st0 (xs @ c)\<lparr>leftover := rest_of (xs @ c)\<rparr> = ep_at net cfg st0 (xs @ c)" by (simp add: ep_at_def)
  have none: "length (frames_of ys) = 0 \<Longrightarrow> ys = rest_of (xs @ c)" using rest by simp
  have "ep_push (total_vad net) c (ep_at net cfg st0 xs) =
     (Inr (fires ?cfgs ?m (stream_probs net st0 (frames_of (xs @ c))) (length (frames_of xs)) (length (frames_of (xs @ c)))),
      ep_at net cfg st0 (xs @ c))"
    unfolding ep_push_def Let_def lv sc using keep none rest by (cases "length (frames_of ys) = 0") simp_all
  then show ?thesis by (simp only: length_frames_of)
qed

lemma ep_pushes_at:
  "ep_pushes (total_vad net) cs (ep_at net cfg st0 xs) =
     (map (\<lambda>k. Inr (fires (threshold cfg) (ms_to_samples (min_silence_ms cfg)) (stream_probs net st0 (frames_of (xs @ concat cs)))
             (length (xs @ concat (take k cs)) div VAD_FRAME_SAMPLES) (length (xs @ concat (take (Suc k) cs)) div VAD_FRAME_SAMPLES)))
        [0..<length cs],
      ep_at net cfg st0 (xs @ concat cs))"
proof (induction cs arbitrary: xs)
  case (Cons c cs)
  let ?thr = "threshold cfg" and ?m = "ms_to_samples (min_silence_ms cfg)"
  have "stream_probs net st0 (frames_of ((xs @ c) @ concat cs))
      = stream_probs net st0 (frames_of (xs @ c)) @ stream_probs net (net_state net st0 (frames_of (xs @ c))) (frames_of (rest_of (xs @ c) @ concat cs))"
    by (subst frames_of_append) (rule stream_probs_split)
  then have "fires ?thr ?m (stream_probs net st0 (frames_of ((xs @ c) @ concat cs))) a (length (xs @ c) div VAD_FRAME_SAMPLES)
      = fires ?thr ?m (stream_probs net st0 (frames_of (xs @ c))) a (length (xs @ c) div VAD_FRAME_SAMPLES)" for a
    using fires_cut[of "length (xs @ c) div VAD_FRAME_SAMPLES" "stream_probs net st0 (frames_of (xs @ c))" ?thr ?m]
    by (simp add: length_frames_of)
  then show ?case using Cons.IH[of "xs @ c"]
    by (simp add: ep_push_at Let_def upt_conv_Cons map_Suc_upt[symmetric] del: upt_Suc)
qed simp

section \<open>Properties\<close>

text \<open>
  C19: the VAD endpoint does not depend on how the audio is chunked. With a model that answers, a
  push reports an endpoint exactly if one of the 512-sample frames it completes ends an utterance:
  the frame is silent, it is the frame with which the silence first reaches \<open>min_silence_ms\<close>, and
  the silence was preceded by a speech frame; what happened in earlier pushes matters only through
  the audio received. Leftover and recurrent state are those of the whole stream.
\<close>
theorem vad_endpoint_ignores_chunking:
  "ep_pushes (\<lambda>f st. Inr (net f st)) cs (endpointer_new cfg st0) =
     (map (\<lambda>k. Inr (list_ex (ends_utterance (threshold cfg) (ms_to_samples (min_silence_ms cfg)) (stream_probs net st0 (frames_of (concat cs))))
             [length (concat (take k cs)) div VAD_FRAME_SAMPLES..<length (concat (take (Suc k) cs)) div VAD_FRAME_SAMPLES]))
        [0..<length cs],
      ep_at net cfg st0 (concat cs))"
  using ep_pushes_at[of net cs cfg st0 "[]"] by (simp add: ep_new_at[of cfg st0 net] fires_def)

end
