(* ===== verification/Stream_Engine.thy ===== *)
theory Stream_Engine
  imports Mel_Features Vad_Endpoint Snapshot
begin

text \<open>
  The streaming recogniser, \<open>inference/engine/stream.rs\<close> with the streaming parts of
  \<open>inference/state.rs\<close>, \<open>inference/windows.rs\<close> and \<open>inference/engine/config.rs\<close>. The audio of a
  stream is a list of finite samples; the window starts at sample \<open>window_start\<close> of it and is
  decoded anew each time. The clock, the cancellation flag and the diarizer are read at fixed
  places of an operation: a \<open>moment\<close> gives the values read there, so that other threads may set
  the flag at any point. The punctuation model and the networks are arguments.
\<close>

section \<open>Policies and constants\<close>

datatype endpoint_mode = Auto | Assistant | Manual

datatype commit_policy = PolicyAuto | OnFinalize | StablePrefix

definition mode_token :: "ustring \<Rightarrow> endpoint_mode option" where
  "mode_token s =
     (let t = to_ascii_lowercase (trim s)
      in if t = lit ''auto'' then Some Auto else if t = lit ''assistant'' then Some Assistant
         else if t = lit ''manual'' then Some Manual else None)"

definition mode_str :: "endpoint_mode \<Rightarrow> ustring" where
  "mode_str m = (case m of Auto \<Rightarrow> lit ''auto'' | Assistant \<Rightarrow> lit ''assistant'' | Manual \<Rightarrow> lit ''manual'')"

definition policy_token :: "ustring \<Rightarrow> commit_policy option" where
  "policy_token s =
     (let t = to_ascii_lowercase (trim s)
      in if t = lit ''auto'' then Some PolicyAuto else if t = lit ''on_finalize'' then Some OnFinalize
         else if t = lit ''stable_prefix'' then Some StablePrefix else None)"

definition STREAM_MAX_WINDOW_SAMPLES :: nat where "STREAM_MAX_WINDOW_SAMPLES = 16000 * 5 div 2"
definition MIN_STREAM_WINDOW_SECS :: rat where "MIN_STREAM_WINDOW_SECS = 24 / 10"
definition MAX_STREAM_WINDOW_SECS :: rat where "MAX_STREAM_WINDOW_SECS = 30"
definition STREAM_LEFT_CONTEXT_SAMPLES :: nat where "STREAM_LEFT_CONTEXT_SAMPLES = 16000 * 3 div 2"
definition STREAM_DECODE_STRIDE_SAMPLES :: nat where "STREAM_DECODE_STRIDE_SAMPLES = 16000 * 4 div 5"
definition STREAM_COMMIT_HORIZON_SECS :: rat where "STREAM_COMMIT_HORIZON_SECS = 1"
definition STREAM_CAP_STREAK_MAX :: nat where "STREAM_CAP_STREAK_MAX = 3"
definition F64_EPSILON :: rat where "F64_EPSILON = 1 / 2 ^ 52"

text \<open>\<open>x.round() as usize\<close> and \<open>x.floor() as usize\<close>: a negative value becomes 0.\<close>

definition round_usize :: "rat \<Rightarrow> nat" where
  "round_usize x = nat \<lfloor>x + 1 / 2\<rfloor>"

definition floor_usize :: "rat \<Rightarrow> nat" where
  "floor_usize x = nat \<lfloor>x\<rfloor>"

definition stream_max_window_samples :: "float_val \<Rightarrow> nat" where
  "stream_max_window_samples secs =
     (case secs of
        Fin s \<Rightarrow> round_usize (max MIN_STREAM_WINDOW_SECS (min s MAX_STREAM_WINDOW_SECS) * 16000)
      | _ \<Rightarrow> STREAM_MAX_WINDOW_SAMPLES)"

section \<open>Engine and stream\<close>

record 'st stream_engine =
  se_head :: engine_head
  se_math :: mel_math
  se_mel :: mel_spectrogram
  se_biaser :: "biaser option"
  se_punctuator :: "(ustring \<Rightarrow> ustring) option"
  se_itn :: bool
  se_vad :: "'st scorer option"
  se_vad_config :: vad_config
  se_endpoint_mode :: endpoint_mode
  se_endpoint_silence :: nat
  se_max_window :: nat
  se_stable_prefix :: bool

record 'st stream_state =
  commit_policy :: commit_policy
  has_abort :: bool
  partial_handle :: "snapshot option"
  failed :: bool
  audio_buffer :: "rat list"
  assembler :: assembler
  window_start :: nat
  context_samples :: nat
  pending_samples :: nat
  mel_bufs :: mel_buffers
  vad_endpointer :: "'st endpointer option"
  punctuation :: "bool option"
  itn :: "bool option"
  endpoint_mode :: endpoint_mode
  endpoint_silence :: nat
  agreed_prefix :: nat
  cap_streak :: nat

datatype site = Entry | WindowEntry | Infer nat | KeepTail | TrailingBlank | AfterDecode | FlushEntry | PostCheck nat

datatype clock_site = OnPublish | OnResult | OnPublishAgain

record moment =
  flag_at :: "site \<Rightarrow> bool"
  clock_at :: "clock_site \<Rightarrow> rat"
  turn_speaker :: "nat option"

datatype engine_error = StreamCancelled | StreamInference infer_error

definition create_state :: "'st stream_engine \<Rightarrow> 'st \<Rightarrow> 'st stream_state" where
  "create_state eng st0 =
     \<lparr>commit_policy = PolicyAuto, has_abort = False, partial_handle = None, failed = False, audio_buffer = [],
      assembler = assembler_new, window_start = 0, context_samples = 0, pending_samples = 0,
      mel_bufs = \<lparr>fb_fft = [], fb_power = [], fb_output = []\<rparr>,
      vad_endpointer = map_option (\<lambda>_. endpointer_new (se_vad_config eng) st0) (se_vad eng),
      punctuation = None, itn = None, endpoint_mode = se_endpoint_mode eng, endpoint_silence = se_endpoint_silence eng,
      agreed_prefix = 0, cap_streak = 0\<rparr>"

definition flag_set :: "moment \<Rightarrow> site \<Rightarrow> 'st stream_state \<Rightarrow> bool" where
  "flag_set mo site st \<longleftrightarrow> has_abort st \<and> flag_at mo site"

definition abort_requested :: "moment \<Rightarrow> site \<Rightarrow> 'st stream_state \<Rightarrow> bool" where
  "abort_requested mo site st \<longleftrightarrow> failed st \<or> flag_set mo site st"

definition stable_prefix_enabled :: "'st stream_engine \<Rightarrow> 'st stream_state \<Rightarrow> bool" where
  "stable_prefix_enabled eng st \<longleftrightarrow> se_stable_prefix eng \<or> commit_policy st = StablePrefix"

definition resolved_commit_policy :: "'st stream_engine \<Rightarrow> 'st stream_state \<Rightarrow> commit_policy" where
  "resolved_commit_policy eng st =
     (case commit_policy st of
        PolicyAuto \<Rightarrow>
          if (case itn st of Some b \<Rightarrow> b | None \<Rightarrow> se_itn eng)
             \<or> ((case punctuation st of Some b \<Rightarrow> b | None \<Rightarrow> True) \<and> se_punctuator eng \<noteq> None)
          then OnFinalize else StablePrefix
      | policy \<Rightarrow> policy)"

definition stream_partial :: "'st stream_engine \<Rightarrow> 'st stream_state \<Rightarrow> rat \<Rightarrow> transcript_segment" where
  "stream_partial eng st ts =
     (let segment = partial ts (assembler st)
      in if resolved_commit_policy eng st = OnFinalize then segment\<lparr>s_committed := [], tentative := s_text segment\<rparr>
         else segment)"

definition publish_stream_partial :: "'st stream_engine \<Rightarrow> rat \<Rightarrow> 'st stream_state \<Rightarrow> 'st stream_state" where
  "publish_stream_partial eng ts st =
     (case partial_handle st of
        None \<Rightarrow> st
      | Some snap \<Rightarrow> st\<lparr>partial_handle := Some (snapshot_store (stream_partial eng st ts) snap)\<rparr>)"

text \<open>\<open>apply_text_postprocess\<close>, with the three cancellation checks.\<close>

definition apply_text_postprocess ::
  "(ustring \<Rightarrow> ustring) option \<Rightarrow> ustring \<Rightarrow> bool \<Rightarrow> bool \<Rightarrow> (nat \<Rightarrow> bool) \<Rightarrow> engine_error + ustring" where
  "apply_text_postprocess punctuator txt0 with_itn with_punct aborted =
     (if aborted 0 then Inl StreamCancelled
      else let txt1 = (if with_itn then apply_itn txt0 else txt0)
      in if aborted 1 then Inl StreamCancelled
      else let txt2 = (case punctuator of Some p \<Rightarrow> if with_punct then p txt1 else txt1 | None \<Rightarrow> txt1)
      in if aborted 2 then Inl StreamCancelled else Inr txt2)"

definition finalize_stream_segment ::
  "'st stream_engine \<Rightarrow> moment \<Rightarrow> rat \<Rightarrow> endpoint_reason \<Rightarrow> 'st stream_state
     \<Rightarrow> (engine_error + transcript_segment) \<times> 'st stream_state" where
  "finalize_stream_segment eng mo ts rs st =
     (let p = stream_partial eng st ts
      in case apply_text_postprocess (se_punctuator eng) (trim_start (tentative p))
                (case itn st of Some b \<Rightarrow> b | None \<Rightarrow> se_itn eng)
                (case punctuation st of Some b \<Rightarrow> b | None \<Rightarrow> True) (\<lambda>k. flag_set mo (PostCheck k) st) of
           Inl e \<Rightarrow> (Inl e, st)
         | Inr tail \<Rightarrow>
             let (segment, asm') = finalize_with_reason ts rs (assembler st);
                 txt = (if s_committed p = [] then tail else if tail = [] then s_committed p
                        else s_committed p @ space # tail)
             in (Inr (segment\<lparr>s_text := txt, s_committed := txt, tentative := []\<rparr>),
                 st\<lparr>assembler := asm', partial_handle := map_option snapshot_clear (partial_handle st)\<rparr>))"

section \<open>Sliding the window\<close>

text \<open>\<open>buffer.copy_within(usable.., 0)\<close> panics, here None, if the range starts past the end.\<close>

definition consume_audio_buffer :: "'a list \<Rightarrow> nat \<Rightarrow> 'a list option" where
  "consume_audio_buffer buffer usable = (if usable \<le> length buffer then Some (drop usable buffer) else None)"

definition slide_off_front :: "nat \<Rightarrow> 'st stream_state \<Rightarrow> 'st stream_state option" where
  "slide_off_front n st =
     (if 0 < n
      then map_option (\<lambda>b. st\<lparr>audio_buffer := b, window_start := window_start st + n\<rparr>) (consume_audio_buffer (audio_buffer st) n)
      else Some st)"

definition slide_streaming_window :: "'st stream_state \<Rightarrow> 'st stream_state option" where
  "slide_streaming_window st =
     (let keep = min STREAM_LEFT_CONTEXT_SAMPLES (length (audio_buffer st))
      in map_option (\<lambda>s. s\<lparr>context_samples := keep\<rparr>) (slide_off_front (length (audio_buffer st) - keep) st))"

definition slide_streaming_window_anchored :: "rat option \<Rightarrow> 'st stream_state \<Rightarrow> 'st stream_state option" where
  "slide_streaming_window_anchored first_live_start_s st =
     (case committed_coverage_end (assembler st) of
        None \<Rightarrow> Some st
      | Some end_s \<Rightarrow>
          let boundary = round_usize (end_s * 16000)
          in if boundary \<le> window_start st then Some st
             else
               let start0 = max (boundary - STREAM_LEFT_CONTEXT_SAMPLES) (window_start st);
                   new_start = (case first_live_start_s of Some s \<Rightarrow> min start0 (floor_usize (s * 16000)) | None \<Rightarrow> start0)
               in case checked_sub new_start (window_start st) of
                    None \<Rightarrow> None
                  | Some n \<Rightarrow> map_option (\<lambda>s. s\<lparr>context_samples := boundary - new_start\<rparr>) (slide_off_front n st))"

text \<open>The two loops of \<open>cap_commit_stable_prefix\<close>.\<close>

primrec shrink_to_horizon :: "word_info list \<Rightarrow> rat \<Rightarrow> nat \<Rightarrow> nat" where
  "shrink_to_horizon live horizon 0 = 0"
| "shrink_to_horizon live horizon (Suc n) =
     (if horizon < w_end (live ! n) then shrink_to_horizon live horizon n else Suc n)"

function grow_to_horizon :: "word_info list \<Rightarrow> rat \<Rightarrow> nat \<Rightarrow> nat" where
  "grow_to_horizon live horizon n =
     (if n < length live \<and> w_end (live ! n) \<le> horizon then grow_to_horizon live horizon (n + 1) else n)"
  by pat_completeness auto
termination by (relation "measure (\<lambda>(live, horizon, n). length live - n)") auto

declare grow_to_horizon.simps [simp del]

definition cap_commit_stable_prefix :: "'st stream_state \<Rightarrow> nat \<times> 'st stream_state" where
  "cap_commit_stable_prefix st =
     (let live = live_words (assembler st);
          edge_s = of_nat (window_start st + length (audio_buffer st)) / 16000;
          horizon_s = edge_s - STREAM_COMMIT_HORIZON_SECS;
          n0 = shrink_to_horizon live horizon_s (min (agreed_prefix st) (length live));
          (n, streak) =
            (if n0 = 0 \<and> live \<noteq> []
             then if STREAM_CAP_STREAK_MAX \<le> cap_streak st + 1 then (grow_to_horizon live horizon_s n0, 0)
                  else (n0, cap_streak st + 1)
             else (n0, 0));
          (committed, asm') = commit_prefix n (assembler st)
      in (committed, st\<lparr>cap_streak := streak, assembler := asm'\<rparr>))"

definition speech_endpoint :: "endpoint_mode \<Rightarrow> bool \<Rightarrow> bool \<Rightarrow> bool \<Rightarrow> bool" where
  "speech_endpoint mode decoder_blank_endpoint vad_endpoint vad_attached =
     (let decoder_endpoint = (decoder_blank_endpoint \<and> \<not> vad_attached)
      in case mode of Auto \<Rightarrow> decoder_endpoint \<or> vad_endpoint | Assistant \<Rightarrow> vad_endpoint | Manual \<Rightarrow> False)"

section \<open>Decoding the window\<close>

fun agreement :: "word_info list \<Rightarrow> word_info list \<Rightarrow> nat" where
  "agreement (a # as) (b # bs) = (if word a = word b then Suc (agreement as bs) else 0)"
| "agreement _ _ = 0"

definition past_context :: "bool \<Rightarrow> rat \<Rightarrow> word_info \<Rightarrow> bool" where
  "past_context sp boundary w =
     (if sp then boundary \<le> 0 \<or> boundary + F64_EPSILON < w_end w else boundary \<le> w_start w + F64_EPSILON)"

definition drop_reemission :: "bool \<Rightarrow> rat \<Rightarrow> word_info option \<Rightarrow> word_info list \<Rightarrow> word_info list" where
  "drop_reemission sp boundary last_word tail =
     (case (last_word, tail) of
        (Some l, first # rest) \<Rightarrow>
          if sp \<and> word first = word l \<and> w_start first < boundary + 1 / 10 then rest else tail
      | _ \<Rightarrow> tail)"

definition label_turn :: "nat option \<Rightarrow> word_info list \<Rightarrow> word_info list" where
  "label_turn turn tail = (case turn of Some s \<Rightarrow> map (\<lambda>w. w\<lparr>speaker := Some s\<rparr>) tail | None \<Rightarrow> tail)"

definition accept_window :: "'st stream_engine \<Rightarrow> moment \<Rightarrow> nat \<Rightarrow> word_info list \<Rightarrow> 'st stream_state \<Rightarrow> 'st stream_state" where
  "accept_window eng mo frame_offset all_words st =
     (let window_start_s = of_nat frame_offset * SECONDS_PER_FRAME;
          context_boundary_s = window_start_s + of_nat (context_samples st) / 16000;
          sp = stable_prefix_enabled eng st;
          tail0 = filter (past_context sp context_boundary_s) all_words;
          tail1 = drop_reemission sp context_boundary_s (committed_last (assembler st)) tail0;
          st1 = st\<lparr>agreed_prefix := agreement (live_words (assembler st)) tail1\<rparr>;
          tail = label_turn (turn_speaker mo) tail1
      in if \<not> abort_requested mo KeepTail st1 \<or> live_word_count (assembler st1) < length tail
         then st1\<lparr>assembler := set_words tail (assembler st1)\<rparr> else st1)"

definition decode_window ::
  "'st stream_engine \<Rightarrow> triplet \<Rightarrow> moment \<Rightarrow> 'st stream_state \<Rightarrow> (infer_error fault + bool) \<times> 'st stream_state" where
  "decode_window eng tr mo st =
     (if abort_requested mo WindowEntry st then (Inr False, st\<lparr>failed := True\<rparr>)
      else
        let (bufs, num_frames) = compute_with_buffers (se_math eng) (se_mel eng) (audio_buffer st) (mel_bufs st);
            st1 = st\<lparr>mel_bufs := bufs\<rparr>
        in if num_frames = 0 then (Inr False, st1)
           else
             let frame_offset = window_start st1 div (HOP_LENGTH * ENCODER_SUBSAMPLING);
                 dst = (decoder_state_new (blank_token (eh_tokenizer (se_head eng))))
                         \<lparr>endpoint_blank_threshold := silence_frames (endpoint_silence st1)\<rparr>
             in case run_inference (se_head eng) tr (fb_output bufs) num_frames dst frame_offset True (se_biaser eng)
                       (Some (\<lambda>k. flag_set mo (Infer k) st1)) of
                  Inl e \<Rightarrow> (Inl e, st1)
                | Inr ((all_words, endpoint), dst') \<Rightarrow>
                    let st2 = accept_window eng mo frame_offset all_words st1;
                        trailing_blank_endpoint =
                          (\<not> abort_requested mo TrailingBlank st2 \<and> \<not> asm_is_empty (assembler st2)
                           \<and> silence_frames (endpoint_silence st2) \<le> consecutive_blanks dst')
                    in (Inr (endpoint \<or> trailing_blank_endpoint), st2))"

section \<open>The operations of a stream\<close>

definition feed_vad :: "'st stream_engine \<Rightarrow> rat list \<Rightarrow> 'st stream_state \<Rightarrow> bool \<times> 'st stream_state" where
  "feed_vad eng samples st =
     (case (se_vad eng, vad_endpointer st) of
        (Some vad, Some ep) \<Rightarrow>
          (case ep_push vad (map Fin samples) ep of
             (Inr fired, ep') \<Rightarrow> (fired, st\<lparr>vad_endpointer := Some ep'\<rparr>)
           | (Inl _, ep') \<Rightarrow> (False, st\<lparr>vad_endpointer := Some ep'\<rparr>))
      | _ \<Rightarrow> (False, st))"

definition cap_slide :: "'st stream_engine \<Rightarrow> 'st stream_state \<Rightarrow> 'st stream_state option" where
  "cap_slide eng st =
     (if stable_prefix_enabled eng st
      then let (committed, st1) = cap_commit_stable_prefix st
           in if 0 < committed
              then slide_streaming_window_anchored
                     (case live_words (assembler st1) of [] \<Rightarrow> None | w # _ \<Rightarrow> Some (w_start w)) st1
              else if live_word_count (assembler st1) = 0 then slide_streaming_window st1
              else Some st1
      else slide_streaming_window (st\<lparr>cap_streak := 0, assembler := commit_live (assembler st)\<rparr>))"

definition partial_result :: "'st stream_engine \<Rightarrow> rat \<Rightarrow> 'st stream_state \<Rightarrow> transcript_segment list" where
  "partial_result eng ts st = (if asm_is_empty (assembler st) then [] else [stream_partial eng st ts])"

type_synonym 'st stream_result = "(engine_error fault + transcript_segment list) \<times> 'st stream_state"

definition close_utterance :: "'st stream_engine \<Rightarrow> moment \<Rightarrow> endpoint_reason \<Rightarrow> 'st stream_state \<Rightarrow> 'st stream_result" where
  "close_utterance eng mo rs st =
     (case finalize_stream_segment eng mo (clock_at mo OnResult) rs st of
        (Inl e, st1) \<Rightarrow> (Inl (Err e), publish_stream_partial eng (clock_at mo OnPublishAgain) (st1\<lparr>failed := True\<rparr>))
      | (Inr seg, st1) \<Rightarrow>
          (case slide_streaming_window st1 of
             None \<Rightarrow> (Inl Panic, st1)
           | Some st2 \<Rightarrow> (Inr (if trim (s_text seg) = [] then [] else [seg]), st2)))"

text \<open>What \<open>process_chunk\<close> does with the answer of the decoder, and the chunk as a whole.\<close>

definition chunk_result ::
  "'st stream_engine \<Rightarrow> moment \<Rightarrow> bool \<Rightarrow> bool \<Rightarrow> bool \<Rightarrow> 'st stream_state \<Rightarrow> 'st stream_result" where
  "chunk_result eng mo vad_endpoint over_cap endpoint st =
     (if speech_endpoint (endpoint_mode st) endpoint vad_endpoint (vad_endpointer st \<noteq> None)
      then close_utterance eng mo (if vad_endpoint then Vad else endpoint_reason.Blank) st
      else if over_cap
      then case cap_slide eng st of
             None \<Rightarrow> (Inl Panic, st)
           | Some st1 \<Rightarrow>
               (Inr (partial_result eng (clock_at mo OnResult) st1), publish_stream_partial eng (clock_at mo OnPublishAgain) st1)
      else (Inr (partial_result eng (clock_at mo OnResult) st), st))"

definition chunk_decoded ::
  "'st stream_engine \<Rightarrow> triplet \<Rightarrow> moment \<Rightarrow> bool \<Rightarrow> bool \<Rightarrow> 'st stream_state \<Rightarrow> 'st stream_result" where
  "chunk_decoded eng tr mo vad_endpoint over_cap st =
     (let (decoded, st3) = decode_window eng tr mo st
      in if decoded = Inl Panic then (Inl Panic, st3)
         else
           let st4 = publish_stream_partial eng (clock_at mo OnPublish) st3
           in if abort_requested mo AfterDecode st4 then (Inl (Err StreamCancelled), st4\<lparr>failed := True\<rparr>)
              else case decoded of
                     Inl Panic \<Rightarrow> (Inl Panic, st4)
                   | Inl (Err e) \<Rightarrow> (Inl (Err (StreamInference e)), st4)
                   | Inr endpoint \<Rightarrow> chunk_result eng mo vad_endpoint over_cap endpoint (st4\<lparr>pending_samples := 0\<rparr>))"

definition process_chunk ::
  "'st stream_engine \<Rightarrow> triplet \<Rightarrow> moment \<Rightarrow> rat list \<Rightarrow> 'st stream_state \<Rightarrow> 'st stream_result" where
  "process_chunk eng tr mo samples st =
     (if abort_requested mo Entry st
      then (Inl (Err StreamCancelled), publish_stream_partial eng (clock_at mo OnPublish) (st\<lparr>failed := True\<rparr>))
      else if samples = [] then (Inr [], st)
      else
        let st1 = st\<lparr>audio_buffer := audio_buffer st @ samples, pending_samples := pending_samples st + length samples\<rparr>;
            (vad_endpoint, st2) = feed_vad eng samples st1;
            over_cap = (se_max_window eng \<le> length (audio_buffer st2));
            cap_forces_decode = (over_cap \<and> \<not> stable_prefix_enabled eng st2)
        in if pending_samples st2 < STREAM_DECODE_STRIDE_SAMPLES \<and> \<not> cap_forces_decode \<and> \<not> vad_endpoint
           then (Inr [], st2)
           else if length (audio_buffer st2) < N_FFT \<and> \<not> vad_endpoint \<and> \<not> over_cap then (Inr [], st2)
           else chunk_decoded eng tr mo vad_endpoint over_cap st2)"

definition flush_state :: "'st stream_engine \<Rightarrow> moment \<Rightarrow> 'st stream_state \<Rightarrow> transcript_segment option \<times> 'st stream_state" where
  "flush_state eng mo st =
     (if abort_requested mo FlushEntry st
      then let st1 = publish_stream_partial eng (clock_at mo OnPublish) (st\<lparr>failed := True\<rparr>)
           in (if \<not> asm_is_empty (assembler st1) then Some (stream_partial eng st1 (clock_at mo OnResult)) else None, st1)
      else if asm_is_empty (assembler st) then (None, st)
      else case finalize_stream_segment eng mo (clock_at mo OnResult) Stop st of
             (Inr segment, st1) \<Rightarrow> (Some segment, st1)
           | (Inl _, st1) \<Rightarrow>
               let st2 = publish_stream_partial eng (clock_at mo OnPublish) (st1\<lparr>failed := True\<rparr>)
               in (Some (stream_partial eng st2 (clock_at mo OnResult)), st2))"

definition flush_truncated :: "'st stream_engine \<Rightarrow> moment \<Rightarrow> 'st stream_state \<Rightarrow> transcript_segment \<times> 'st stream_state" where
  "flush_truncated eng mo st =
     (case flush_state eng mo st of
        (Some segment, st1) \<Rightarrow> (into_truncated_final segment, st1)
      | (None, st1) \<Rightarrow> (empty_truncated_final (clock_at mo OnResult), st1))"

text \<open>The closure that \<open>try_finish_stream\<close> runs under \<open>catch_unwind\<close>, and the three outcomes.\<close>

definition finish_body ::
  "'st stream_engine \<Rightarrow> triplet \<Rightarrow> moment \<Rightarrow> 'st stream_state
     \<Rightarrow> (engine_error fault + transcript_segment option) \<times> 'st stream_state" where
  "finish_body eng tr mo st =
     (if abort_requested mo Entry st then (Inl (Err StreamCancelled), st)
      else
        let (decoded, st1) =
              (if 0 < pending_samples st \<and> N_FFT \<le> length (audio_buffer st) then decode_window eng tr mo st else (Inr False, st))
        in case decoded of
             Inl Panic \<Rightarrow> (Inl Panic, st1)
           | Inl (Err e) \<Rightarrow> (Inl (Err (StreamInference e)), st1)
           | Inr _ \<Rightarrow>
               if abort_requested mo AfterDecode st1 then (Inl (Err StreamCancelled), st1)
               else
                 let (segment, st2) = flush_state eng mo st1
                 in if failed st2 then (Inl (Err StreamCancelled), st2)
                    else if N_FFT \<le> length (audio_buffer st2)
                    then case slide_streaming_window (st2\<lparr>pending_samples := 0\<rparr>) of
                           None \<Rightarrow> (Inl Panic, st2\<lparr>pending_samples := 0\<rparr>)
                         | Some st3 \<Rightarrow> (Inr segment, st3)
                    else (Inr segment, st2))"

definition try_finish_stream ::
  "'st stream_engine \<Rightarrow> triplet \<Rightarrow> moment \<Rightarrow> 'st stream_state
     \<Rightarrow> (engine_error fault + transcript_segment option) \<times> 'st stream_state" where
  "try_finish_stream eng tr mo st =
     (case finish_body eng tr mo st of
        (Inr segment, st1) \<Rightarrow> (Inr segment, st1)
      | (Inl e, st1) \<Rightarrow> (Inl e, publish_stream_partial eng (clock_at mo OnPublishAgain) (st1\<lparr>failed := True\<rparr>)))"

definition finish_stream_partial ::
  "'st stream_engine \<Rightarrow> triplet \<Rightarrow> moment \<Rightarrow> 'st stream_state \<Rightarrow> (unit + transcript_segment option) \<times> 'st stream_state" where
  "finish_stream_partial eng tr mo st =
     (case try_finish_stream eng tr mo st of
        (Inr segment, st1) \<Rightarrow> (Inr segment, st1)
      | (Inl (Err _), st1) \<Rightarrow> (let (segment, st2) = flush_state eng mo st1 in (Inr segment, st2))
      | (Inl Panic, st1) \<Rightarrow> (Inl (), st1))"

end
