(* ===== verification/Stream_Safety.thy ===== *)
theory Stream_Safety
  imports Stream_Engine
begin

text \<open>
  The properties of the streaming recogniser: what an operation may do to the audio window, to the
  committed text and to a failed stream. Every proof goes through \<open>process_chunk_elim\<close>, which
  lists the ways a chunk can end, and through the frame lemmas of the parts.
\<close>

section \<open>What the parts leave alone\<close>

abbreviation hear :: "rat list \<Rightarrow> 'st stream_state \<Rightarrow> 'st stream_state" where
  "hear samples st \<equiv> st\<lparr>audio_buffer := audio_buffer st @ samples, pending_samples := pending_samples st + length samples\<rparr>"

text \<open>The settings of a stream, which no operation changes.\<close>

definition settings ::
  "'st stream_state \<Rightarrow> commit_policy \<times> bool \<times> bool option \<times> bool option \<times> endpoint_mode \<times> nat \<times> bool" where
  "settings st = (commit_policy st, has_abort st, punctuation st, itn st, endpoint_mode st, endpoint_silence st,
                  vad_endpointer st \<noteq> None)"

definition window_of :: "'st stream_state \<Rightarrow> rat list \<times> nat \<times> nat" where
  "window_of st = (audio_buffer st, window_start st, context_samples st)"

definition committed_of :: "'st stream_state \<Rightarrow> ustring \<times> word_info list" where
  "committed_of st = (committed_text (assembler st), committed_words (assembler st))"

lemma settings_simps:
  assumes "settings s = settings t"
  shows "commit_policy s = commit_policy t" "has_abort s = has_abort t" "punctuation s = punctuation t" "itn s = itn t"
    "endpoint_mode s = endpoint_mode t" "endpoint_silence s = endpoint_silence t" "vad_endpointer s = None \<longleftrightarrow> vad_endpointer t = None"
    "stable_prefix_enabled eng s = stable_prefix_enabled eng t" "resolved_commit_policy eng s = resolved_commit_policy eng t"
  using assms by (auto simp: settings_def stable_prefix_enabled_def resolved_commit_policy_def)

lemma publish_keeps [simp]:
  "settings (publish_stream_partial eng ts st) = settings st" "window_of (publish_stream_partial eng ts st) = window_of st"
  "assembler (publish_stream_partial eng ts st) = assembler st" "failed (publish_stream_partial eng ts st) = failed st"
  "pending_samples (publish_stream_partial eng ts st) = pending_samples st"
  "audio_buffer (publish_stream_partial eng ts st) = audio_buffer st" "window_start (publish_stream_partial eng ts st) = window_start st"
  "context_samples (publish_stream_partial eng ts st) = context_samples st" "agreed_prefix (publish_stream_partial eng ts st) = agreed_prefix st"
  by (simp_all add: publish_stream_partial_def settings_def window_of_def split: option.split)

lemma feed_vad_keeps:
  assumes "feed_vad eng samples st = (fired, st')"
  shows "settings st' = settings st" "window_of st' = window_of st" "assembler st' = assembler st" "failed st' = failed st"
    "fired \<Longrightarrow> se_vad eng \<noteq> None \<and> vad_endpointer st \<noteq> None" "pending_samples st' = pending_samples st"
  using assms by (auto simp: feed_vad_def settings_def window_of_def split: option.splits prod.splits sum.splits)

lemma accept_window_keeps:
  "settings (accept_window eng mo off ws st) = settings st" "window_of (accept_window eng mo off ws st) = window_of st"
  "committed_of (accept_window eng mo off ws st) = committed_of st" "failed (accept_window eng mo off ws st) = failed st"
  "pending_samples (accept_window eng mo off ws st) = pending_samples st"
  by (simp_all add: accept_window_def Let_def settings_def window_of_def committed_of_def set_words_def)

definition fresh_decoder :: "'st stream_engine \<Rightarrow> 'st stream_state \<Rightarrow> decoder_state" where
  "fresh_decoder eng st =
     (decoder_state_new (blank_token (eh_tokenizer (se_head eng))))\<lparr>endpoint_blank_threshold := silence_frames (endpoint_silence st)\<rparr>"

abbreviation window_frame :: "'st stream_state \<Rightarrow> nat" where
  "window_frame st \<equiv> window_start st div (HOP_LENGTH * ENCODER_SUBSAMPLING)"

lemma decode_window_elim:
  assumes "decode_window eng tr mo st = (r, st')"
  obtains (aborted) "abort_requested mo WindowEntry st" "r = Inr False" "st' = st\<lparr>failed := True\<rparr>"
    | (no_frames) bufs where "compute_with_buffers (se_math eng) (se_mel eng) (audio_buffer st) (mel_bufs st) = (bufs, 0)"
        "r = Inr False" "st' = st\<lparr>mel_bufs := bufs\<rparr>"
    | (error) bufs n e where "compute_with_buffers (se_math eng) (se_mel eng) (audio_buffer st) (mel_bufs st) = (bufs, n)"
        "run_inference (se_head eng) tr (fb_output bufs) n (fresh_decoder eng st) (window_frame st) True (se_biaser eng)
           (Some (\<lambda>k. flag_set mo (Infer k) st)) = Inl e" "r = Inl e" "st' = st\<lparr>mel_bufs := bufs\<rparr>"
    | (decoded) bufs n ws ep dst where "compute_with_buffers (se_math eng) (se_mel eng) (audio_buffer st) (mel_bufs st) = (bufs, n)"
        "run_inference (se_head eng) tr (fb_output bufs) n (fresh_decoder eng st) (window_frame st) True (se_biaser eng)
           (Some (\<lambda>k. flag_set mo (Infer k) st)) = Inr ((ws, ep), dst)"
        "st' = accept_window eng mo (window_frame st) ws (st\<lparr>mel_bufs := bufs\<rparr>)"
        "r = Inr (ep \<or> (\<not> abort_requested mo TrailingBlank st' \<and> \<not> asm_is_empty (assembler st')
           \<and> silence_frames (endpoint_silence st') \<le> consecutive_blanks dst))"
proof (cases "abort_requested mo WindowEntry st")
  case True
  then show ?thesis using aborted assms by (simp add: decode_window_def)
next
  case False
  obtain bufs n where c: "compute_with_buffers (se_math eng) (se_mel eng) (audio_buffer st) (mel_bufs st) = (bufs, n)" by fastforce
  have f: "flag_set mo s (st\<lparr>mel_bufs := bufs\<rparr>) = flag_set mo s st" for s by (simp add: flag_set_def)
  let ?run = "run_inference (se_head eng) tr (fb_output bufs) n (fresh_decoder eng st) (window_frame st) True (se_biaser eng)
           (Some (\<lambda>k. flag_set mo (Infer k) st))"
  show ?thesis
  proof (cases "n = 0")
    case True
    then show ?thesis using no_frames[of bufs] assms False c by (simp add: decode_window_def)
  next
    case n: False
    show ?thesis
    proof (cases ?run)
      case (Inl e)
      then show ?thesis using error[OF c Inl] assms False c n
        by (simp add: decode_window_def fresh_decoder_def Let_def f)
    next
      case (Inr q)
      obtain ws ep dst where q: "q = ((ws, ep), dst)" by (metis surj_pair)
      have "st' = accept_window eng mo (window_frame st) ws (st\<lparr>mel_bufs := bufs\<rparr>)
        \<and> r = Inr (ep \<or> (\<not> abort_requested mo TrailingBlank st' \<and> \<not> asm_is_empty (assembler st')
           \<and> silence_frames (endpoint_silence st') \<le> consecutive_blanks dst))"
        using assms False c n Inr by (auto simp: decode_window_def fresh_decoder_def Let_def f q)
      then show ?thesis using decoded[OF c Inr[unfolded q]] by blast
    qed
  qed
qed

lemma decode_window_keeps:
  assumes "decode_window eng tr mo st = (r, st')"
  shows "settings st' = settings st" "window_of st' = window_of st" "committed_of st' = committed_of st"
    "failed st \<Longrightarrow> failed st'" "pending_samples st' = pending_samples st"
proof -
  have *: "settings st' = settings st \<and> window_of st' = window_of st \<and> committed_of st' = committed_of st
    \<and> (failed st \<longrightarrow> failed st') \<and> pending_samples st' = pending_samples st"
    using assms
  proof (cases rule: decode_window_elim)
    case (decoded bufs n ws ep dst)
    show ?thesis using accept_window_keeps[of eng mo "window_frame st" ws "st\<lparr>mel_bufs := bufs\<rparr>"]
      by (simp add: decoded(3)) (simp add: settings_def window_of_def committed_of_def)
  qed (simp_all add: settings_def window_of_def committed_of_def)
  show "settings st' = settings st" "window_of st' = window_of st" "committed_of st' = committed_of st"
    "failed st \<Longrightarrow> failed st'" "pending_samples st' = pending_samples st" using * by simp_all
qed

section \<open>The ways a chunk can end\<close>

definition due :: "'st stream_engine \<Rightarrow> bool \<Rightarrow> 'st stream_state \<Rightarrow> bool" where
  "due eng vad_endpoint st \<longleftrightarrow>
     \<not> (pending_samples st < STREAM_DECODE_STRIDE_SAMPLES
        \<and> \<not> (se_max_window eng \<le> length (audio_buffer st) \<and> \<not> stable_prefix_enabled eng st) \<and> \<not> vad_endpoint)
     \<and> \<not> (length (audio_buffer st) < N_FFT \<and> \<not> vad_endpoint \<and> \<not> se_max_window eng \<le> length (audio_buffer st))"

text \<open>The stream after the decode of a chunk, and how a chunk ends.\<close>

definition published :: "'st stream_engine \<Rightarrow> moment \<Rightarrow> 'st stream_state \<Rightarrow> 'st stream_state" where
  "published eng mo st = (publish_stream_partial eng (clock_at mo OnPublish) st)\<lparr>pending_samples := 0\<rparr>"

lemma published_keeps [simp]:
  "settings (published eng mo st) = settings st" "window_of (published eng mo st) = window_of st"
  "assembler (published eng mo st) = assembler st" "failed (published eng mo st) = failed st"
  "pending_samples (published eng mo st) = 0" "agreed_prefix (published eng mo st) = agreed_prefix st"
  using publish_keeps[of eng "clock_at mo OnPublish" st]
  by (auto simp: published_def settings_def window_of_def simp del: publish_keeps)

lemma chunk_decoded_elim:
  assumes "chunk_decoded eng tr mo fired over_cap st = (r, st')"
  obtains (panicked) "decode_window eng tr mo st = (Inl Panic, st')" "r = Inl Panic"
    | (aborted) d st3 where "decode_window eng tr mo st = (d, st3)" "r = Inl (Err StreamCancelled)"
        "st' = (publish_stream_partial eng (clock_at mo OnPublish) st3)\<lparr>failed := True\<rparr>"
    | (broken) e st3 where "decode_window eng tr mo st = (Inl (Err e), st3)" "r = Inl (Err (StreamInference e))"
        "st' = publish_stream_partial eng (clock_at mo OnPublish) st3"
    | (decoded) endpoint st3 where "decode_window eng tr mo st = (Inr endpoint, st3)"
        "\<not> abort_requested mo AfterDecode st3" "chunk_result eng mo fired over_cap endpoint (published eng mo st3) = (r, st')"
proof -
  obtain d st3 where w: "decode_window eng tr mo st = (d, st3)" by fastforce
  let ?st4 = "publish_stream_partial eng (clock_at mo OnPublish) st3"
  have a: "abort_requested mo AfterDecode ?st4 \<longleftrightarrow> abort_requested mo AfterDecode st3"
    by (simp add: abort_requested_def flag_set_def settings_simps(2)[OF publish_keeps(1)])
  show ?thesis
  proof (cases "d = Inl Panic")
    case True
    then show ?thesis using panicked assms w by (simp add: chunk_decoded_def)
  next
    case np: False
    show ?thesis
    proof (cases "abort_requested mo AfterDecode st3")
      case True
      then show ?thesis using aborted[OF w] assms w np a by (simp add: chunk_decoded_def Let_def)
    next
      case False
      show ?thesis
      proof (cases d)
        case (Inl f)
        then obtain e where "f = Err e" using np by (cases f) auto
        then show ?thesis using broken[of e st3] assms w np a False Inl by (simp add: chunk_decoded_def Let_def)
      next
        case (Inr endpoint)
        then show ?thesis using decoded[of endpoint st3] assms w np a False
          by (simp add: chunk_decoded_def Let_def published_def)
      qed
    qed
  qed
qed

lemma chunk_result_elim:
  assumes "chunk_result eng mo fired over_cap endpoint st = (r, st')"
  obtains (closed) "speech_endpoint (endpoint_mode st) endpoint fired (vad_endpointer st \<noteq> None)"
        "close_utterance eng mo (if fired then Vad else endpoint_reason.Blank) st = (r, st')"
    | (cap_panic) "\<not> speech_endpoint (endpoint_mode st) endpoint fired (vad_endpointer st \<noteq> None)" "over_cap"
        "cap_slide eng st = None" "r = Inl Panic" "st' = st"
    | (capped) st1 where "\<not> speech_endpoint (endpoint_mode st) endpoint fired (vad_endpointer st \<noteq> None)" "over_cap"
        "cap_slide eng st = Some st1" "r = Inr (partial_result eng (clock_at mo OnResult) st1)"
        "st' = publish_stream_partial eng (clock_at mo OnPublishAgain) st1"
    | (shown) "\<not> speech_endpoint (endpoint_mode st) endpoint fired (vad_endpointer st \<noteq> None)" "\<not> over_cap"
        "st' = st" "r = Inr (partial_result eng (clock_at mo OnResult) st)"
  using assms
  by (auto simp: chunk_result_def split: if_splits option.splits)

lemma process_chunk_elim:
  assumes "process_chunk eng tr mo samples st = (r, st')"
  obtains (cancelled) "abort_requested mo Entry st" "r = Inl (Err StreamCancelled)"
        "st' = publish_stream_partial eng (clock_at mo OnPublish) (st\<lparr>failed := True\<rparr>)"
    | (silent) "\<not> abort_requested mo Entry st" "samples = []" "r = Inr []" "st' = st"
    | (waiting) fired where "\<not> abort_requested mo Entry st" "feed_vad eng samples (hear samples st) = (fired, st')"
        "\<not> due eng fired st'" "r = Inr []"
    | (decoded) fired st2 where "\<not> abort_requested mo Entry st" "feed_vad eng samples (hear samples st) = (fired, st2)"
        "due eng fired st2" "chunk_decoded eng tr mo fired (se_max_window eng \<le> length (audio_buffer st2)) st2 = (r, st')"
proof (cases "abort_requested mo Entry st \<or> samples = []")
  case True
  then show ?thesis using cancelled silent assms by (auto simp: process_chunk_def split: if_splits)
next
  case False
  then have na: "\<not> abort_requested mo Entry st" and ns: "samples \<noteq> []" by simp_all
  obtain fired st2 where v: "feed_vad eng samples (hear samples st) = (fired, st2)" by fastforce
  show ?thesis
  proof (cases "due eng fired st2")
    case False
    then have "r = Inr []" "st' = st2" using assms na ns v by (auto simp: process_chunk_def Let_def due_def split: if_splits)
    then show ?thesis using waiting[OF na, of fired] v False by simp
  next
    case True
    then have "chunk_decoded eng tr mo fired (se_max_window eng \<le> length (audio_buffer st2)) st2 = (r, st')"
      using assms na ns v unfolding process_chunk_def due_def by (simp add: Let_def split: if_splits)
    then show ?thesis using decoded[OF na v True] by simp
  qed
qed

section \<open>Runs\<close>

datatype stream_op = Chunk "rat list" | TryFinish | FinishStream | FlushState | FlushTruncated

fun stream_step :: "'st stream_engine \<Rightarrow> triplet \<times> moment \<times> stream_op \<Rightarrow> 'st stream_state \<Rightarrow> 'st stream_result" where
  "stream_step eng (tr, mo, Chunk xs) st = process_chunk eng tr mo xs st"
| "stream_step eng (tr, mo, TryFinish) st =
     (case try_finish_stream eng tr mo st of
        (Inl e, st1) \<Rightarrow> (Inl e, st1) | (Inr g, st1) \<Rightarrow> (Inr (case g of Some s \<Rightarrow> [s] | None \<Rightarrow> []), st1))"
| "stream_step eng (tr, mo, FinishStream) st =
     (case finish_stream_partial eng tr mo st of
        (Inl _, st1) \<Rightarrow> (Inl Panic, st1) | (Inr g, st1) \<Rightarrow> (Inr (case g of Some s \<Rightarrow> [s] | None \<Rightarrow> []), st1))"
| "stream_step eng (tr, mo, FlushState) st =
     (let (g, st1) = flush_state eng mo st in (Inr (case g of Some s \<Rightarrow> [s] | None \<Rightarrow> []), st1))"
| "stream_step eng (tr, mo, FlushTruncated) st = (let (g, st1) = flush_truncated eng mo st in (Inr [g], st1))"

primrec stream_run :: "'st stream_engine \<Rightarrow> (triplet \<times> moment \<times> stream_op) list \<Rightarrow> 'st stream_state
    \<Rightarrow> (engine_error fault + transcript_segment list) list \<times> 'st stream_state" where
  "stream_run eng [] st = ([], st)"
| "stream_run eng (s # ss) st =
     (let (r, st1) = stream_step eng s st; (rs, st2) = stream_run eng ss st1 in (r # rs, st2))"

definition emitted :: "(engine_error fault + transcript_segment list) list \<Rightarrow> transcript_segment list" where
  "emitted rs = concat (map (\<lambda>r. case r of Inr gs \<Rightarrow> gs | Inl _ \<Rightarrow> []) rs)"

section \<open>Committed text\<close>

definition exposed :: "'st stream_engine \<Rightarrow> 'st stream_state \<Rightarrow> ustring" where
  "exposed eng st = (if resolved_commit_policy eng st = OnFinalize then [] else committed_text (assembler st))"

definition keeps_text :: "ustring \<Rightarrow> ustring \<Rightarrow> bool" where
  "keeps_text a b \<longleftrightarrow> prefix a b \<or> trim a = []"

definition segment_sound :: "transcript_segment \<Rightarrow> bool" where
  "segment_sound g \<longleftrightarrow> s_text g = s_committed g @ tentative g \<and> (is_final g \<longrightarrow> tentative g = [])"

fun continues :: "transcript_segment list \<Rightarrow> bool" where
  "continues (g # h # gs) \<longleftrightarrow> (is_final g \<or> keeps_text (s_committed g) (s_committed h)) \<and> continues (h # gs)"
| "continues _ \<longleftrightarrow> True"

lemma trim_Nil: "trim s = [] \<longleftrightarrow> (\<forall>c \<in> set s. is_whitespace c)"
  by (auto simp: trim_def trim_start_def trim_end_def dropWhile_eq_Nil_conv dest: set_dropWhileD)
    (metis (no_types, lifting) dropWhile_eq_Nil_conv set_rev in_set_conv_decomp dropWhile_append3 rev_is_Nil_conv)

lemma keeps_text_refl [simp]: "keeps_text a a"
  by (simp add: keeps_text_def)

lemma keeps_text_Nil [simp]: "keeps_text [] a"
  by (simp add: keeps_text_def)

lemma keeps_text_trans: "keeps_text a b \<Longrightarrow> keeps_text b c \<Longrightarrow> keeps_text a c"
  unfolding keeps_text_def trim_Nil by (auto intro: prefix_order.trans dest: set_mono_prefix)

lemma exposed_cong:
  assumes "settings s = settings t" "committed_of s = committed_of t"
  shows "exposed eng s = exposed eng t"
  using assms settings_simps(9)[OF assms(1)] by (simp add: exposed_def committed_of_def)

lemma exposed_grows:
  assumes "settings s = settings t" "prefix (committed_text (assembler s)) (committed_text (assembler t))"
  shows "prefix (exposed eng s) (exposed eng t)"
  using assms settings_simps(9)[OF assms(1)] by (simp add: exposed_def)

lemma stream_partial_facts:
  "s_committed (stream_partial eng st ts) = exposed eng st" "s_text (stream_partial eng st ts) = full_text (assembler st)"
  "segment_sound (stream_partial eng st ts)" "\<not> is_final (stream_partial eng st ts)" "\<not> truncated (stream_partial eng st ts)"
proof -
  have "committed_text a @ drop (length (committed_text a)) (full_text a) = full_text a" for a by (simp add: full_text_def)
  then show "s_committed (stream_partial eng st ts) = exposed eng st" "s_text (stream_partial eng st ts) = full_text (assembler st)"
    "segment_sound (stream_partial eng st ts)" "\<not> is_final (stream_partial eng st ts)" "\<not> truncated (stream_partial eng st ts)"
    by (simp_all add: stream_partial_def exposed_def partial_def segment_sound_def Let_def)
qed

lemma finalize_with_reason_facts:
  assumes "finalize_with_reason ts rs a = (seg, a')"
  shows "is_final seg" "\<not> truncated seg" "reason seg = Some rs" "a' = assembler_new"
  using assms by (auto simp: finalize_with_reason_def Let_def assembler_new_def)

text \<open>A final: its text extends what was exposed, and the assembler is empty afterwards.\<close>

lemma finalize_facts:
  assumes "finalize_stream_segment eng mo ts rs st = (r, st')"
  shows "settings st' = settings st" "window_of st' = window_of st" "failed st' = failed st"
    "pending_samples st' = pending_samples st" "agreed_prefix st' = agreed_prefix st"
    "r = Inl e \<Longrightarrow> st' = st \<and> e = StreamCancelled"
    "r = Inr g \<Longrightarrow> prefix (exposed eng st) (s_committed g) \<and> segment_sound g \<and> is_final g \<and> \<not> truncated g
       \<and> s_text g = s_committed g \<and> reason g = Some rs \<and> assembler st' = assembler_new"
proof -
  let ?p = "stream_partial eng st ts"
  let ?post = "apply_text_postprocess (se_punctuator eng) (trim_start (tentative ?p))
                (case itn st of Some b \<Rightarrow> b | None \<Rightarrow> se_itn eng)
                (case punctuation st of Some b \<Rightarrow> b | None \<Rightarrow> True) (\<lambda>k. flag_set mo (PostCheck k) st)"
  have *: "(?post = Inl StreamCancelled \<and> r = Inl StreamCancelled \<and> st' = st) \<or>
      (\<exists>tail g. ?post = Inr tail \<and> r = Inr g \<and> is_final g \<and> \<not> truncated g \<and> tentative g = [] \<and> reason g = Some rs
       \<and> s_text g = s_committed g \<and> prefix (exposed eng st) (s_committed g)
       \<and> st' = st\<lparr>assembler := assembler_new, partial_handle := map_option snapshot_clear (partial_handle st)\<rparr>)"
  proof (cases ?post)
    case (Inl e)
    then have "e = StreamCancelled" by (auto simp: apply_text_postprocess_def Let_def split: if_splits)
    then show ?thesis using Inl assms by (simp add: finalize_stream_segment_def)
  next
    case (Inr tail)
    let ?c = "exposed eng st"
    let ?txt = "if ?c = [] then tail else if tail = [] then ?c else ?c @ space # tail"
    obtain seg asm' where f: "finalize_with_reason ts rs (assembler st) = (seg, asm')" by fastforce
    note ff = finalize_with_reason_facts[OF f]
    have "r = Inr (seg\<lparr>s_text := ?txt, s_committed := ?txt, tentative := []\<rparr>)"
      "st' = st\<lparr>assembler := asm', partial_handle := map_option snapshot_clear (partial_handle st)\<rparr>"
      using assms Inr f unfolding finalize_stream_segment_def Let_def stream_partial_facts(1) by simp_all
    moreover have "prefix ?c ?txt" by simp
    ultimately show ?thesis using Inr ff by (intro disjI2 exI[of _ tail] exI[of _ "seg\<lparr>s_text := ?txt, s_committed := ?txt, tentative := []\<rparr>"]) simp
  qed
  show "settings st' = settings st" "window_of st' = window_of st" "failed st' = failed st"
    "pending_samples st' = pending_samples st" "agreed_prefix st' = agreed_prefix st"
    using * by (auto simp: settings_def window_of_def)
  show "r = Inl e \<Longrightarrow> st' = st \<and> e = StreamCancelled" using * by auto
  show "r = Inr g \<Longrightarrow> prefix (exposed eng st) (s_committed g) \<and> segment_sound g \<and> is_final g \<and> \<not> truncated g
       \<and> s_text g = s_committed g \<and> reason g = Some rs \<and> assembler st' = assembler_new" using * by (auto simp: segment_sound_def)
qed

lemma slide_off_front_facts:
  assumes "slide_off_front n st = Some st'"
  shows "settings st' = settings st" "assembler st' = assembler st" "failed st' = failed st" "pending_samples st' = pending_samples st"
    "agreed_prefix st' = agreed_prefix st" "n \<le> length (audio_buffer st)" "audio_buffer st' = drop n (audio_buffer st)"
    "window_start st' = window_start st + n" "context_samples st' = context_samples st"
  using assms by (auto simp: slide_off_front_def consume_audio_buffer_def settings_def split: if_splits)

lemma slide_total:
  "\<exists>st'. slide_streaming_window st = Some st' \<and> settings st' = settings st \<and> assembler st' = assembler st
     \<and> failed st' = failed st \<and> agreed_prefix st' = agreed_prefix st \<and> pending_samples st' = pending_samples st
     \<and> length (audio_buffer st') = min STREAM_LEFT_CONTEXT_SAMPLES (length (audio_buffer st)) \<and> context_samples st' = length (audio_buffer st')
     \<and> window_start st' + length (audio_buffer st') = window_start st + length (audio_buffer st)
     \<and> audio_buffer st' = drop (window_start st' - window_start st) (audio_buffer st) \<and> window_start st \<le> window_start st'"
  by (auto simp: slide_streaming_window_def Let_def slide_off_front_def consume_audio_buffer_def settings_def)

lemma slide_facts:
  assumes "slide_streaming_window st = Some st'"
  shows "settings st' = settings st" "assembler st' = assembler st" "failed st' = failed st" "agreed_prefix st' = agreed_prefix st"
    "pending_samples st' = pending_samples st"
    "length (audio_buffer st') = min STREAM_LEFT_CONTEXT_SAMPLES (length (audio_buffer st))" "context_samples st' = length (audio_buffer st')"
    "window_start st' + length (audio_buffer st') = window_start st + length (audio_buffer st)"
    "audio_buffer st' = drop (window_start st' - window_start st) (audio_buffer st)" "window_start st \<le> window_start st'"
  using assms slide_total[of st] by auto

lemma slide_some: "slide_streaming_window st \<noteq> None"
  using slide_total[of st] by auto

lemma anchored_elim:
  assumes "slide_streaming_window_anchored fl st = Some st'"
  obtains (kept) "st' = st"
    | (slid) boundary n s where "slide_off_front n st = Some s" "st' = s\<lparr>context_samples := boundary - (window_start st + n)\<rparr>"
        "\<exists>e. committed_coverage_end (assembler st) = Some e \<and> boundary = round_usize (e * 16000)"
        "window_start st < boundary" "window_start st + n \<le> max (boundary - STREAM_LEFT_CONTEXT_SAMPLES) (window_start st)"
        "\<And>f. fl = Some f \<Longrightarrow> window_start st + n \<le> max (window_start st) (floor_usize (f * 16000))"
proof (cases "committed_coverage_end (assembler st)")
  case None
  then show ?thesis using kept assms by (simp add: slide_streaming_window_anchored_def)
next
  case (Some e)
  let ?b = "round_usize (e * 16000)"
  let ?s0 = "max (?b - STREAM_LEFT_CONTEXT_SAMPLES) (window_start st)"
  let ?ns = "case fl of Some s \<Rightarrow> min ?s0 (floor_usize (s * 16000)) | None \<Rightarrow> ?s0"
  show ?thesis
  proof (cases "?b \<le> window_start st")
    case True
    then show ?thesis using kept assms Some by (simp add: slide_streaming_window_anchored_def Let_def)
  next
    case False
    then obtain n s where n: "checked_sub ?ns (window_start st) = Some n" "slide_off_front n st = Some s"
      "st' = s\<lparr>context_samples := ?b - ?ns\<rparr>"
      using assms Some by (auto simp: slide_streaming_window_anchored_def Let_def simp del: checked_sub_Some split: option.splits)
    then have ns: "?ns = window_start st + n" by simp
    have "window_start st + n \<le> ?s0" unfolding ns[symmetric] by (auto split: option.split)
    moreover have "\<And>f. fl = Some f \<Longrightarrow> window_start st + n \<le> max (window_start st) (floor_usize (f * 16000))"
      unfolding ns[symmetric] by auto
    ultimately show ?thesis using slid[of n s ?b] n(2) n(3)[unfolded ns] Some False by simp
  qed
qed

lemma anchored_facts:
  assumes "slide_streaming_window_anchored fl st = Some st'"
  shows "settings st' = settings st" "assembler st' = assembler st" "failed st' = failed st" "pending_samples st' = pending_samples st"
    "window_start st \<le> window_start st'" "window_start st' - window_start st \<le> length (audio_buffer st)"
    "audio_buffer st' = drop (window_start st' - window_start st) (audio_buffer st)"
    "fl = Some f \<Longrightarrow> window_start st' \<le> max (window_start st) (floor_usize (f * 16000))"
proof -
  have *: "settings st' = settings st \<and> assembler st' = assembler st \<and> failed st' = failed st \<and> pending_samples st' = pending_samples st
    \<and> window_start st \<le> window_start st' \<and> window_start st' - window_start st \<le> length (audio_buffer st)
    \<and> audio_buffer st' = drop (window_start st' - window_start st) (audio_buffer st)
    \<and> (fl = Some f \<longrightarrow> window_start st' \<le> max (window_start st) (floor_usize (f * 16000)))"
    using assms
  proof (cases rule: anchored_elim)
    case (slid boundary n s)
    note o = slide_off_front_facts[OF slid(1)]
    have "settings st' = settings s" by (simp add: slid(2) settings_def)
    then show ?thesis using o slid(6)[of f] by (simp add: slid(2))
  qed simp
  then show "settings st' = settings st" "assembler st' = assembler st" "failed st' = failed st" "pending_samples st' = pending_samples st"
    "window_start st \<le> window_start st'" "window_start st' - window_start st \<le> length (audio_buffer st)"
    "audio_buffer st' = drop (window_start st' - window_start st) (audio_buffer st)"
    "fl = Some f \<Longrightarrow> window_start st' \<le> max (window_start st) (floor_usize (f * 16000))" by blast+
qed

lemma commit_prefix_keeps:
  "prefix (committed_text a) (committed_text (snd (commit_prefix n a)))"
  using push_words_extends[of "committed_text a"] by (auto simp: commit_prefix_def Let_def prefix_def)

lemma cap_commit_facts:
  assumes "cap_commit_stable_prefix st = (n, st')"
  shows "settings st' = settings st" "window_of st' = window_of st" "failed st' = failed st" "pending_samples st' = pending_samples st"
    "prefix (committed_text (assembler st)) (committed_text (assembler st'))"
    "\<exists>k. commit_prefix k (assembler st) = (n, assembler st')
       \<and> (0 < k \<longrightarrow> k \<le> length (live_words (assembler st))
          \<and> w_end (live_words (assembler st) ! (k - 1)) \<le> of_nat (window_start st + length (audio_buffer st)) / 16000 - 1)"
proof -
  let ?a = "assembler st" and ?l = "live_words (assembler st)"
  let ?h = "rat_of_nat (window_start st + length (audio_buffer st)) / 16000 - 1"
  have sh: "shrink_to_horizon l h m \<le> m \<and> (0 < shrink_to_horizon l h m \<longrightarrow> w_end (l ! (shrink_to_horizon l h m - 1)) \<le> h)" for l h m
    by (induction m) auto
  have gr: "n0 \<le> length l \<Longrightarrow> (0 < n0 \<longrightarrow> w_end (l ! (n0 - 1)) \<le> h) \<Longrightarrow>
      grow_to_horizon l h n0 \<le> length l \<and> (0 < grow_to_horizon l h n0 \<longrightarrow> w_end (l ! (grow_to_horizon l h n0 - 1)) \<le> h)" for l h n0
    by (induction l h n0 rule: grow_to_horizon.induct) (subst (1 2 3) grow_to_horizon.simps, auto)
  let ?n0 = "shrink_to_horizon ?l ?h (min (agreed_prefix st) (length ?l))"
  obtain k where k: "commit_prefix k ?a = (n, assembler st')" "k = ?n0 \<or> k = grow_to_horizon ?l ?h ?n0"
    "st' = st\<lparr>cap_streak := cap_streak st', assembler := assembler st'\<rparr>"
    using assms by (auto simp: cap_commit_stable_prefix_def STREAM_COMMIT_HORIZON_SECS_def Let_def split: if_splits prod.splits)
  have b: "?n0 \<le> length ?l" "0 < ?n0 \<longrightarrow> w_end (?l ! (?n0 - 1)) \<le> ?h" using sh[of ?l ?h] by (auto simp: min_def intro: order.trans)
  have "0 < k \<longrightarrow> k \<le> length ?l \<and> w_end (?l ! (k - 1)) \<le> ?h"
    using k(2) b gr[OF b] by auto
  then show "\<exists>k. commit_prefix k ?a = (n, assembler st') \<and> (0 < k \<longrightarrow> k \<le> length ?l \<and> w_end (?l ! (k - 1)) \<le> ?h)" using k(1) by blast
  show "prefix (committed_text (assembler st)) (committed_text (assembler st'))"
    using commit_prefix_keeps[of ?a k] k(1) by simp
  show "settings st' = settings st" by (subst k(3)) (simp add: settings_def)
  show "window_of st' = window_of st" by (subst k(3)) (simp add: window_of_def)
  show "failed st' = failed st" by (subst k(3)) simp
  show "pending_samples st' = pending_samples st" by (subst k(3)) simp
qed

lemma cap_slide_facts:
  assumes "cap_slide eng st = Some st'"
  shows "settings st' = settings st" "failed st' = failed st" "pending_samples st' = pending_samples st"
    "prefix (committed_text (assembler st)) (committed_text (assembler st'))"
    "window_start st \<le> window_start st'" "window_start st' - window_start st \<le> length (audio_buffer st)"
    "audio_buffer st' = drop (window_start st' - window_start st) (audio_buffer st)"
proof -
  have *: "settings st' = settings st \<and> failed st' = failed st \<and> pending_samples st' = pending_samples st
    \<and> prefix (committed_text (assembler st)) (committed_text (assembler st'))
    \<and> window_start st \<le> window_start st' \<and> window_start st' - window_start st \<le> length (audio_buffer st)
    \<and> audio_buffer st' = drop (window_start st' - window_start st) (audio_buffer st)"
  proof (cases "stable_prefix_enabled eng st")
    case False
    let ?s = "st\<lparr>cap_streak := 0, assembler := commit_live (assembler st)\<rparr>"
    have sl: "slide_streaming_window ?s = Some st'" using assms False by (simp add: cap_slide_def)
    note f = slide_facts[OF sl]
    have se: "settings ?s = settings st" by (simp add: settings_def)
    have "prefix (committed_text (assembler st)) (committed_text (commit_live (assembler st)))" by (simp add: commit_live_def)
    then show ?thesis using f se by simp
  next
    case True
    obtain n s1 where c: "cap_commit_stable_prefix st = (n, s1)" by fastforce
    note cf = cap_commit_facts[OF c]
    have w1: "audio_buffer s1 = audio_buffer st" "window_start s1 = window_start st" using cf(2) by (simp_all add: window_of_def)
    let ?fl = "case live_words (assembler s1) of [] \<Rightarrow> None | w # _ \<Rightarrow> Some (w_start w)"
    have "cap_slide eng st = (if 0 < n then slide_streaming_window_anchored ?fl s1
        else if live_word_count (assembler s1) = 0 then slide_streaming_window s1 else Some s1)"
      unfolding cap_slide_def c by (simp only: True if_True prod.case Let_def)
    then consider "slide_streaming_window_anchored ?fl s1 = Some st'" | "slide_streaming_window s1 = Some st'" | "st' = s1"
      using assms by (metis option.inject)
    then show ?thesis
    proof cases
      case 1
      show ?thesis using anchored_facts(1-7)[OF 1] cf w1 by simp
    next
      case 2
      show ?thesis using slide_facts[OF 2] cf w1 by simp
    next
      case 3
      then show ?thesis using cf w1 by simp
    qed
  qed
  then show "settings st' = settings st" "failed st' = failed st" "pending_samples st' = pending_samples st"
    "prefix (committed_text (assembler st)) (committed_text (assembler st'))"
    "window_start st \<le> window_start st'" "window_start st' - window_start st \<le> length (audio_buffer st)"
    "audio_buffer st' = drop (window_start st' - window_start st) (audio_buffer st)" by blast+
qed

text \<open>One operation and the committed text.\<close>

definition text_step :: "'st stream_engine \<Rightarrow> 'st stream_state \<Rightarrow> transcript_segment list \<Rightarrow> 'st stream_state \<Rightarrow> bool" where
  "text_step eng st gs st' \<longleftrightarrow> settings st' = settings st \<and>
     (gs = [] \<and> keeps_text (exposed eng st) (exposed eng st')
      \<or> (\<exists>g. gs = [g] \<and> segment_sound g \<and> prefix (exposed eng st) (s_committed g)
          \<and> (is_final g \<or> s_committed g = exposed eng st')))"

lemma text_step_silent: "settings st' = settings st \<Longrightarrow> committed_of st' = committed_of st \<Longrightarrow> text_step eng st [] st'"
  using exposed_cong[of st st'] by (simp add: text_step_def)

lemma text_step_before:
  assumes "settings s = settings st" "committed_of s = committed_of st" "text_step eng s gs st'"
  shows "text_step eng st gs st'"
  using assms(3) exposed_cong[OF assms(1,2), of eng] assms(1) by (simp add: text_step_def)

lemma partial_result_step:
  assumes "settings st' = settings st" "prefix (committed_text (assembler st)) (committed_text (assembler s))"
    "settings s = settings st" "committed_of st' = committed_of s"
  shows "text_step eng st (partial_result eng ts s) st'"
proof -
  have e: "exposed eng st' = exposed eng s" using assms by (intro exposed_cong) simp_all
  have "prefix (exposed eng st) (exposed eng s)" using exposed_grows[of st s eng] assms by simp
  then show ?thesis using assms(1) e stream_partial_facts[of eng s ts]
    by (simp add: text_step_def partial_result_def keeps_text_def)
qed

lemma publish_committed [simp]: "committed_of (publish_stream_partial eng ts st) = committed_of st"
  by (simp add: committed_of_def)

lemma published_committed [simp]: "committed_of (published eng mo st) = committed_of st"
  by (simp add: committed_of_def)

lemma failed_update [simp]: "settings (st\<lparr>failed := b\<rparr>) = settings st" "committed_of (st\<lparr>failed := b\<rparr>) = committed_of st"
  "window_of (st\<lparr>failed := b\<rparr>) = window_of st"
  by (simp_all add: settings_def committed_of_def window_of_def)

lemma buffer_update [simp]: "settings (st\<lparr>audio_buffer := b\<rparr>) = settings st" "committed_of (st\<lparr>audio_buffer := b\<rparr>) = committed_of st"
  by (simp_all add: settings_def committed_of_def)

lemma hear_keeps [simp]: "settings (hear samples st) = settings st" "committed_of (hear samples st) = committed_of st"
  by (simp_all add: settings_def committed_of_def)

lemma close_utterance_step:
  assumes "close_utterance eng mo rs st = (r, st')"
  shows "text_step eng st (case r of Inr gs \<Rightarrow> gs | Inl _ \<Rightarrow> []) st'"
proof -
  obtain f s1 where fin: "finalize_stream_segment eng mo (clock_at mo OnResult) rs st = (f, s1)" by fastforce
  note ff = finalize_facts[OF fin]
  show ?thesis
  proof (cases f)
    case (Inl e)
    then have "r = Inl (Err e)" "st' = publish_stream_partial eng (clock_at mo OnPublishAgain) (s1\<lparr>failed := True\<rparr>)" "s1 = st"
      using assms fin ff(6) by (auto simp: close_utterance_def)
    then show ?thesis by (simp add: text_step_silent)
  next
    case (Inr g)
    obtain s2 where s2: "slide_streaming_window s1 = Some s2" using slide_some[of s1] by auto
    have r: "r = Inr (if trim (s_text g) = [] then [] else [g])" "st' = s2" using assms fin Inr s2 by (auto simp: close_utterance_def)
    have se: "settings s2 = settings st" using slide_facts(1)[OF s2] ff(1) by simp
    note g = ff(7)[OF Inr]
    have "trim (s_text g) = [] \<Longrightarrow> trim (exposed eng st) = []"
      using g unfolding trim_Nil by (auto dest: set_mono_prefix)
    then show ?thesis using g se by (simp add: r text_step_def keeps_text_def)
  qed
qed

lemma process_chunk_step:
  assumes "process_chunk eng tr mo samples st = (r, st')"
  shows "text_step eng st (case r of Inr gs \<Rightarrow> gs | Inl _ \<Rightarrow> []) st'"
  using assms
proof (cases rule: process_chunk_elim)
  case (decoded fired st2)
  note v = feed_vad_keeps[OF decoded(2)]
  have b2: "settings st2 = settings st" "committed_of st2 = committed_of st" using v by (simp_all add: committed_of_def)
  from decoded(4) have "text_step eng st2 (case r of Inr gs \<Rightarrow> gs | Inl _ \<Rightarrow> []) st'"
  proof (cases rule: chunk_decoded_elim)
    case panicked
    then show ?thesis using decode_window_keeps[OF panicked(1)] by (simp add: text_step_silent)
  next
    case (aborted d st3)
    then show ?thesis using decode_window_keeps[OF aborted(1)] by (simp add: text_step_silent)
  next
    case (broken e st3)
    then show ?thesis using decode_window_keeps[OF broken(1)] by (simp add: text_step_silent)
  next
    case (decoded endpoint st3)
    note w = decode_window_keeps[OF decoded(1)]
    let ?s5 = "published eng mo st3"
    have b5: "settings ?s5 = settings st2" "committed_of ?s5 = committed_of st2" using w by simp_all
    from decoded(3) have "text_step eng ?s5 (case r of Inr gs \<Rightarrow> gs | Inl _ \<Rightarrow> []) st'"
    proof (cases rule: chunk_result_elim)
      case closed
      from closed(2) show ?thesis by (rule close_utterance_step)
    next
      case (capped st1)
      note c = cap_slide_facts[OF capped(3)]
      have "text_step eng ?s5 (partial_result eng (clock_at mo OnResult) st1) st'"
        by (rule partial_result_step[where s = st1]) (use c capped(5) in simp_all)
      then show ?thesis by (simp add: capped(4))
    qed (simp_all add: text_step_silent partial_result_step)
    then show ?thesis using b5 by (rule text_step_before[rotated 2])
  qed
  then show ?thesis using b2 by (rule text_step_before[rotated 2])
next
  case (waiting fired)
  then show ?thesis using feed_vad_keeps[OF waiting(2)] by (simp add: text_step_silent committed_of_def)
qed (simp_all add: text_step_silent)

text \<open>The flushes. What follows an abort or a failure is a partial; otherwise a final.\<close>

lemma flush_state_elim:
  assumes "flush_state eng mo st = (g, st')"
  obtains (aborted) "abort_requested mo FlushEntry st" "st' = publish_stream_partial eng (clock_at mo OnPublish) (st\<lparr>failed := True\<rparr>)"
        "g = (if asm_is_empty (assembler st) then None else Some (stream_partial eng st' (clock_at mo OnResult)))"
    | (idle) "\<not> abort_requested mo FlushEntry st" "asm_is_empty (assembler st)" "g = None" "st' = st"
    | (final) seg where "\<not> abort_requested mo FlushEntry st" "\<not> asm_is_empty (assembler st)" "g = Some seg"
        "finalize_stream_segment eng mo (clock_at mo OnResult) Stop st = (Inr seg, st')"
    | (cancelled) "\<not> abort_requested mo FlushEntry st" "\<not> asm_is_empty (assembler st)"
        "st' = publish_stream_partial eng (clock_at mo OnPublish) (st\<lparr>failed := True\<rparr>)"
        "g = Some (stream_partial eng st' (clock_at mo OnResult))"
proof -
  consider "abort_requested mo FlushEntry st" | "\<not> abort_requested mo FlushEntry st" "asm_is_empty (assembler st)"
    | (go) "\<not> abort_requested mo FlushEntry st" "\<not> asm_is_empty (assembler st)" by blast
  then show ?thesis
  proof cases
  case 1
  have "st' = publish_stream_partial eng (clock_at mo OnPublish) (st\<lparr>failed := True\<rparr>)"
    "g = (if asm_is_empty (assembler st) then None else Some (stream_partial eng st' (clock_at mo OnResult)))"
    using assms 1 by (auto simp: flush_state_def Let_def)
  then show ?thesis by (rule aborted[OF 1])
next
  case 2
  then have "g = None" "st' = st" using assms by (simp_all add: flush_state_def)
  then show ?thesis by (rule idle[OF 2])
next
  case False: go
  obtain f s1 where fin: "finalize_stream_segment eng mo (clock_at mo OnResult) Stop st = (f, s1)" by fastforce
  show ?thesis
  proof (cases f)
    case (Inl e)
    then have "s1 = st" using finalize_facts(6)[OF fin] by simp
    then have "st' = publish_stream_partial eng (clock_at mo OnPublish) (st\<lparr>failed := True\<rparr>)"
      "g = Some (stream_partial eng st' (clock_at mo OnResult))"
      using assms False fin Inl by (auto simp: flush_state_def Let_def)
    then show ?thesis by (rule cancelled[OF False])
  next
    case (Inr seg)
    then have "g = Some seg" "st' = s1" using assms False fin by (auto simp: flush_state_def)
    then show ?thesis using final[OF False, of seg] fin Inr by simp
  qed
qed
qed

abbreviation seg_list :: "transcript_segment option \<Rightarrow> transcript_segment list" where
  "seg_list g \<equiv> (case g of Some s \<Rightarrow> [s] | None \<Rightarrow> [])"

lemma partial_text_step:
  assumes "settings st' = settings st" "committed_of st' = committed_of st"
  shows "text_step eng st [stream_partial eng st' ts] st'"
  using assms exposed_cong[OF assms, of eng] stream_partial_facts[of eng st' ts] by (simp add: text_step_def)

lemma flush_state_step:
  assumes "flush_state eng mo st = (g, st')"
  shows "text_step eng st (seg_list g) st'" "window_of st' = window_of st" "pending_samples st' = pending_samples st"
proof -
  have "text_step eng st (seg_list g) st' \<and> window_of st' = window_of st \<and> pending_samples st' = pending_samples st"
    using assms
  proof (cases rule: flush_state_elim)
    case (final seg)
    note f = finalize_facts[OF final(4)]
    show ?thesis using f(1,2,4) f(7)[OF refl] by (simp add: final(3) text_step_def)
  qed (simp_all add: text_step_silent partial_text_step)
  then show "text_step eng st (seg_list g) st'" "window_of st' = window_of st" "pending_samples st' = pending_samples st" by simp_all
qed

lemma flush_truncated_elim:
  assumes "flush_truncated eng mo st = (g, st')"
  obtains (empty) "flush_state eng mo st = (None, st')" "g = empty_truncated_final (clock_at mo OnResult)"
    | (segment) s where "flush_state eng mo st = (Some s, st')" "g = into_truncated_final s"
  using assms by (auto simp: flush_truncated_def split: prod.splits option.splits)

lemma into_truncated_facts:
  "is_final (into_truncated_final s)" "truncated (into_truncated_final s)"
  "segment_sound s \<Longrightarrow> segment_sound (into_truncated_final s) \<and> s_committed (into_truncated_final s) = s_text s
     \<and> s_text (into_truncated_final s) = s_text s"
  by (auto simp: into_truncated_final_def segment_sound_def Let_def)

lemma flush_truncated_step:
  assumes "flush_truncated eng mo st = (g, st')"
  shows "text_step eng st [g] st'" "window_of st' = window_of st" "pending_samples st' = pending_samples st"
proof -
  have "text_step eng st [g] st' \<and> window_of st' = window_of st \<and> pending_samples st' = pending_samples st"
    using assms
  proof (cases rule: flush_truncated_elim)
    case empty
    have "asm_is_empty (assembler st)" using empty(1) by (cases rule: flush_state_elim) (auto split: if_splits)
    then have "exposed eng st = []" by (simp add: exposed_def asm_is_empty_def)
    then show ?thesis using flush_state_step[OF empty(1)]
      by (simp add: empty(2) text_step_def empty_truncated_final_def empty_final_def segment_sound_def)
  next
    case (segment s)
    note f = flush_state_step[OF segment(1)]
    then have "segment_sound s" "prefix (exposed eng st) (s_committed s)" "settings st' = settings st" by (auto simp: text_step_def)
    then show ?thesis using into_truncated_facts[of s] f(2,3)
      by (auto simp: segment(2) text_step_def segment_sound_def intro: prefix_order.trans prefixI)
  qed
  then show "text_step eng st [g] st'" "window_of st' = window_of st" "pending_samples st' = pending_samples st" by simp_all
qed

text \<open>The finish: the window may be decoded, the assembler is flushed, the window slides.\<close>

lemma finish_body_elim:
  assumes "finish_body eng tr mo st = (r, st')"
  obtains (entry) "abort_requested mo Entry st" "r = Inl (Err StreamCancelled)" "st' = st"
    | (panicked) "decode_window eng tr mo st = (Inl Panic, st')" "r = Inl Panic" "\<not> abort_requested mo Entry st"
    | (broken) e where "decode_window eng tr mo st = (Inl (Err e), st')" "r = Inl (Err (StreamInference e))" "\<not> abort_requested mo Entry st"
    | (aborted) d s1 where "decode_window eng tr mo st = (d, s1) \<or> s1 = st" "abort_requested mo AfterDecode s1"
        "r = Inl (Err StreamCancelled)" "st' = s1" "\<not> abort_requested mo Entry st"
    | (flushed) d s1 g s2 where "decode_window eng tr mo st = (d, s1) \<or> s1 = st" "\<not> abort_requested mo AfterDecode s1"
        "flush_state eng mo s1 = (g, s2)" "failed s2" "r = Inl (Err StreamCancelled)" "st' = s2" "\<not> abort_requested mo Entry st"
    | (finished) d s1 g s2 where "decode_window eng tr mo st = (d, s1) \<or> s1 = st" "\<not> abort_requested mo AfterDecode s1"
        "flush_state eng mo s1 = (g, s2)" "\<not> failed s2" "r = Inr g" "\<not> abort_requested mo Entry st"
        "st' = s2 \<or> slide_streaming_window (s2\<lparr>pending_samples := 0\<rparr>) = Some st'"
proof (cases "abort_requested mo Entry st")
  case True
  then show ?thesis using entry assms by (simp add: finish_body_def)
next
  case na: False
  let ?dec = "if 0 < pending_samples st \<and> N_FFT \<le> length (audio_buffer st) then decode_window eng tr mo st else (Inr False, st)"
  obtain d s1 where d: "?dec = (d, s1)" by fastforce
  then have ds: "decode_window eng tr mo st = (d, s1) \<or> s1 = st" and dl: "\<And>e. d = Inl e \<Longrightarrow> decode_window eng tr mo st = (d, s1)"
    by (auto split: if_splits)
  obtain g s2 where f: "flush_state eng mo s1 = (g, s2)" by fastforce
  have b: "finish_body eng tr mo st =
      (case d of
             Inl Panic \<Rightarrow> (Inl Panic, s1)
           | Inl (Err e) \<Rightarrow> (Inl (Err (StreamInference e)), s1)
           | Inr _ \<Rightarrow>
               if abort_requested mo AfterDecode s1 then (Inl (Err StreamCancelled), s1)
               else if failed s2 then (Inl (Err StreamCancelled), s2)
                    else if N_FFT \<le> length (audio_buffer s2)
                    then case slide_streaming_window (s2\<lparr>pending_samples := 0\<rparr>) of
                           None \<Rightarrow> (Inl Panic, s2\<lparr>pending_samples := 0\<rparr>)
                         | Some st3 \<Rightarrow> (Inr g, st3)
                    else (Inr g, s2))"
    unfolding finish_body_def using na by (simp only: d f if_False prod.case Let_def)
  show ?thesis
  proof (cases d)
    case (Inl e)
    then show ?thesis using panicked broken b assms na dl by (cases e) auto
  next
    case (Inr x)
    show ?thesis
    proof (cases "abort_requested mo AfterDecode s1 \<or> failed s2")
      case True
      then show ?thesis using aborted[OF ds] flushed[OF ds _ f] b assms na Inr by (auto split: if_splits)
    next
      case False
      obtain s3 where "slide_streaming_window (s2\<lparr>pending_samples := 0\<rparr>) = Some s3" using slide_some by (metis option.exhaust)
      then show ?thesis using finished[OF ds _ f] b assms na Inr False by (auto split: if_splits)
    qed
  qed
qed

lemma decoded_or_same:
  assumes "decode_window eng tr mo st = (d, s1) \<or> s1 = st"
  shows "settings s1 = settings st" "window_of s1 = window_of st" "committed_of s1 = committed_of st"
  using assms decode_window_keeps[of eng tr mo st d s1] by auto

lemma pending_update [simp]: "settings (st\<lparr>pending_samples := n\<rparr>) = settings st" "committed_of (st\<lparr>pending_samples := n\<rparr>) = committed_of st"
  by (simp_all add: settings_def committed_of_def)

lemma finish_body_step:
  assumes "finish_body eng tr mo st = (r, st')"
  shows "text_step eng st (case r of Inr g \<Rightarrow> seg_list g | Inl _ \<Rightarrow> []) st'
    \<or> (\<exists>e. r = Inl e) \<and> settings st' = settings st \<and> keeps_text (exposed eng st) (exposed eng st')"
  using assms
proof (cases rule: finish_body_elim)
  case (panicked)
  then show ?thesis using decode_window_keeps[OF panicked(1)] by (simp add: text_step_silent)
next
  case (broken e)
  then show ?thesis using decode_window_keeps[OF broken(1)] by (simp add: text_step_silent)
next
  case (aborted d s1)
  then show ?thesis using decoded_or_same[OF aborted(1)] by (simp add: text_step_silent)
next
  case (flushed d s1 g s2)
  note k = decoded_or_same[OF flushed(1)] and f = flush_state_step[OF flushed(3)]
  have "committed_of s2 = committed_of s1 \<or> assembler s2 = assembler_new \<and> failed s2 = failed s1"
    using flushed(3)
  proof (cases rule: flush_state_elim)
    case (final seg)
    then show ?thesis using finalize_facts[OF final(4)] by simp
  qed simp_all
  moreover have "\<not> failed s1" using flushed(2) by (simp add: abort_requested_def)
  ultimately have "committed_of s2 = committed_of s1" using flushed(4) by auto
  moreover have "settings s2 = settings s1" using f(1) by (simp add: text_step_def)
  ultimately show ?thesis using k flushed(5,6) by (simp add: text_step_silent)
next
  case (finished d s1 g s2)
  note k = decoded_or_same[OF finished(1)] and f = flush_state_step[OF finished(3)]
  have s: "settings st' = settings s2" "committed_of st' = committed_of s2"
    using finished(7) slide_facts(1,2)[of "s2\<lparr>pending_samples := 0\<rparr>" st'] by (auto simp: committed_of_def)
  have "text_step eng s1 (seg_list g) st'"
    using f(1) s exposed_cong[OF s, of eng] by (simp add: text_step_def)
  then have "text_step eng st (seg_list g) st'" using k by (intro text_step_before[of s1 st]) simp_all
  then show ?thesis by (simp add: finished(5))
qed (simp add: text_step_silent)

lemma try_finish_step:
  assumes "try_finish_stream eng tr mo st = (r, st')"
  shows "text_step eng st (case r of Inr g \<Rightarrow> seg_list g | Inl _ \<Rightarrow> []) st'"
proof -
  obtain q s1 where b: "finish_body eng tr mo st = (q, s1)" by fastforce
  note f = finish_body_step[OF b]
  show ?thesis
  proof (cases q)
    case (Inr g)
    then show ?thesis using f assms b by (auto simp: try_finish_stream_def)
  next
    case (Inl e)
    then have "r = Inl e" "st' = publish_stream_partial eng (clock_at mo OnPublishAgain) (s1\<lparr>failed := True\<rparr>)"
      using assms b by (auto simp: try_finish_stream_def)
    moreover have "exposed eng (publish_stream_partial eng ts (s1\<lparr>failed := True\<rparr>)) = exposed eng s1" for ts
      by (rule exposed_cong) simp_all
    ultimately show ?thesis using f Inl by (auto simp: text_step_def)
  qed
qed

lemma text_step_trans:
  assumes "text_step eng st [] s1" "text_step eng s1 gs st'" "committed_of s1 = committed_of st"
  shows "text_step eng st gs st'"
  using assms by (intro text_step_before[of s1 st]) (simp_all add: text_step_def)

lemma finish_error_keeps:
  assumes "try_finish_stream eng tr mo st = (Inl e, st')"
  shows "failed st'" "committed_of st' = committed_of st" "settings st' = settings st"
proof -
  obtain s1 where b: "finish_body eng tr mo st = (Inl e, s1)" and s: "st' = publish_stream_partial eng (clock_at mo OnPublishAgain) (s1\<lparr>failed := True\<rparr>)"
    using assms by (auto simp: try_finish_stream_def split: prod.splits sum.splits)
  show "failed st'" by (simp add: s)
  have "committed_of s1 = committed_of st \<and> settings s1 = settings st"
    using b
  proof (cases rule: finish_body_elim)
    case panicked
    then show ?thesis using decode_window_keeps[OF panicked(1)] by simp
  next
    case (broken e)
    then show ?thesis using decode_window_keeps[OF broken(1)] by simp
  next
    case (aborted d s1')
    then show ?thesis using decoded_or_same[OF aborted(1)] by simp
  next
    case (flushed d s1' g s2)
    note k = decoded_or_same[OF flushed(1)] and f = flush_state_step[OF flushed(3)]
    have "committed_of s2 = committed_of s1' \<or> failed s2 = failed s1'"
      using flushed(3)
    proof (cases rule: flush_state_elim)
      case (final seg)
      then show ?thesis using finalize_facts[OF final(4)] by simp
    qed simp_all
    then show ?thesis using k f flushed(2,4,6) by (auto simp: abort_requested_def text_step_def)
  qed simp_all
  then show "committed_of st' = committed_of st" "settings st' = settings st" by (simp_all add: s)
qed

lemma finish_stream_partial_elim:
  assumes "finish_stream_partial eng tr mo st = (r, st')"
  obtains (ok) g where "try_finish_stream eng tr mo st = (Inr g, st')" "r = Inr g"
    | (fallback) e s1 g where "try_finish_stream eng tr mo st = (Inl (Err e), s1)" "flush_state eng mo s1 = (g, st')" "r = Inr g"
    | (panicked) "try_finish_stream eng tr mo st = (Inl Panic, st')" "r = Inl ()"
  using assms by (auto simp: finish_stream_partial_def split: prod.splits sum.splits fault.splits)

lemma stream_step_text:
  assumes "stream_step eng s st = (r, st')"
  shows "text_step eng st (case r of Inr gs \<Rightarrow> gs | Inl _ \<Rightarrow> []) st'"
proof -
  obtain tr mo opn where s: "s = (tr, mo, opn)" by (metis surj_pair)
  show ?thesis
  proof (cases opn)
    case (Chunk xs)
    then show ?thesis using process_chunk_step assms by (simp add: s)
  next
    case TryFinish
    obtain q s1 where t: "try_finish_stream eng tr mo st = (q, s1)" by fastforce
    show ?thesis using try_finish_step[OF t] assms t by (cases q) (auto simp: s TryFinish)
  next
    case FinishStream
    obtain q s1 where t: "finish_stream_partial eng tr mo st = (q, s1)" by fastforce
    from t have "text_step eng st (case q of Inr g \<Rightarrow> seg_list g | Inl _ \<Rightarrow> []) s1"
    proof (cases rule: finish_stream_partial_elim)
      case (ok g)
      then show ?thesis using try_finish_step[OF ok(1)] by simp
    next
      case (fallback e s2 g)
      show ?thesis using try_finish_step[OF fallback(1)] flush_state_step(1)[OF fallback(2)] finish_error_keeps(2)[OF fallback(1)]
        by (auto simp: fallback(3) intro: text_step_trans)
    next
      case panicked
      then show ?thesis using try_finish_step[OF panicked(1)] by simp
    qed
    then show ?thesis using assms t by (cases q) (auto simp: s FinishStream)
  next
    case FlushState
    obtain g s1 where t: "flush_state eng mo st = (g, s1)" by fastforce
    show ?thesis using flush_state_step(1)[OF t] assms t by (auto simp: s FlushState)
  next
    case FlushTruncated
    obtain g s1 where t: "flush_truncated eng mo st = (g, s1)" by fastforce
    show ?thesis using flush_truncated_step(1)[OF t] assms t by (auto simp: s FlushTruncated)
  qed
qed

lemma emitted_simps [simp]: "emitted [] = []" "emitted (r # rs) = (case r of Inr gs \<Rightarrow> gs | Inl _ \<Rightarrow> []) @ emitted rs"
  by (simp_all add: emitted_def)

lemma stream_run_text:
  assumes "stream_run eng ss st = (rs, st')"
  shows "list_all segment_sound (emitted rs) \<and> continues (emitted rs)
    \<and> (emitted rs \<noteq> [] \<longrightarrow> keeps_text (exposed eng st) (s_committed (hd (emitted rs))))"
  using assms
proof (induction ss arbitrary: st rs)
  case (Cons s ss)
  obtain r s1 where r: "stream_step eng s st = (r, s1)" by fastforce
  obtain qs where q: "stream_run eng ss s1 = (qs, st')" "rs = r # qs" using Cons.prems r by (auto split: prod.splits)
  note ih = Cons.IH[OF q(1)] and step = stream_step_text[OF r]
  let ?gs = "case r of Inr gs \<Rightarrow> gs | Inl _ \<Rightarrow> []"
  consider "?gs = []" "keeps_text (exposed eng st) (exposed eng s1)"
    | g where "?gs = [g]" "segment_sound g" "prefix (exposed eng st) (s_committed g)" "is_final g \<or> s_committed g = exposed eng s1"
    using step by (auto simp: text_step_def)
  then show ?case
  proof cases
    case 1
    then show ?thesis using ih q(2) by (auto intro: keeps_text_trans)
  next
    case (2 g)
    have "continues (g # emitted qs)" using ih 2(4) by (cases "emitted qs") auto
    then show ?thesis using ih 2 q(2) by (simp add: keeps_text_def)
  qed
qed simp

section \<open>The audio window\<close>

text \<open>What an operation adds to the audio of the stream, and a slide: the window loses a front part.\<close>

fun step_audio :: "triplet \<times> moment \<times> stream_op \<Rightarrow> 'st stream_state \<Rightarrow> rat list" where
  "step_audio (tr, mo, Chunk xs) st = (if abort_requested mo Entry st then [] else xs)"
| "step_audio _ st = []"

primrec heard :: "'st stream_engine \<Rightarrow> (triplet \<times> moment \<times> stream_op) list \<Rightarrow> 'st stream_state \<Rightarrow> rat list" where
  "heard eng [] st = []"
| "heard eng (s # ss) st = step_audio s st @ heard eng ss (snd (stream_step eng s st))"

definition slid :: "'st stream_state \<Rightarrow> 'st stream_state \<Rightarrow> bool" where
  "slid st st' \<longleftrightarrow> window_start st \<le> window_start st' \<and> window_start st' - window_start st \<le> length (audio_buffer st)
     \<and> audio_buffer st' = drop (window_start st' - window_start st) (audio_buffer st)
     \<and> (context_samples st \<le> length (audio_buffer st) \<longrightarrow> context_samples st' \<le> length (audio_buffer st'))"

lemma slid_same: "window_of st' = window_of st \<Longrightarrow> slid st st'"
  by (simp add: slid_def window_of_def)

lemma slid_windows:
  "slid s t \<longleftrightarrow> (case (window_of s, window_of t) of ((b, w, c), (b', w', c')) \<Rightarrow>
     w \<le> w' \<and> w' - w \<le> length b \<and> b' = drop (w' - w) b \<and> (c \<le> length b \<longrightarrow> c' \<le> length b'))"
  by (simp add: slid_def window_of_def)

lemma slid_window: "window_of s = window_of s' \<Longrightarrow> window_of t = window_of t' \<Longrightarrow> slid s t \<Longrightarrow> slid s' t'"
  by (simp only: slid_windows)

lemma slide_slid: "slide_streaming_window st = Some st' \<Longrightarrow> slid st st'"
  using slide_facts[of st st'] by (auto simp: slid_def)

lemma slid_trans: "slid s t \<Longrightarrow> slid t u \<Longrightarrow> slid s u"
  by (auto simp: slid_def)

text \<open>The words in order of time, and the boundary of a commit at the cap.\<close>

definition timed :: "word_info list \<Rightarrow> bool" where
  "timed ws \<longleftrightarrow> sorted_wrt (\<lambda>v w. w_end v \<le> w_start w) ws \<and> list_all (\<lambda>w. w_start w \<le> w_end w) ws"

lemma timed_drop: "timed ws \<Longrightarrow> timed (drop n ws)"
  by (simp add: timed_def sorted_wrt_drop list_all_iff) (meson in_set_dropD)

lemma commit_prefix_words:
  assumes "commit_prefix k a = (n, a')"
  shows "committed_words a' = committed_words a @ take k (live_words a)" "live_words a' = drop k (live_words a)"
    "n = min k (length (live_words a))"
proof -
  have *: "committed_words (snd (commit_prefix k a)) = committed_words a @ take k (live_words a)"
    "live_words (snd (commit_prefix k a)) = drop k (live_words a)" "fst (commit_prefix k a) = min k (length (live_words a))"
    by (auto simp: commit_prefix_def Let_def min_def)
  show "committed_words a' = committed_words a @ take k (live_words a)" "live_words a' = drop k (live_words a)"
    "n = min k (length (live_words a))" using * by (simp_all add: assms)
qed

lemma cap_anchor:
  assumes "cap_commit_stable_prefix st = (n, s1)" "0 < n"
  obtains e where "committed_coverage_end (assembler s1) = Some e"
    "round_usize (e * 16000) \<le> window_start st + length (audio_buffer st)"
    "timed (live_words (assembler st)) \<Longrightarrow> \<forall>w \<in> set (live_words (assembler s1)). e \<le> w_start w"
proof -
  let ?l = "live_words (assembler st)" and ?edge = "window_start st + length (audio_buffer st)"
  obtain m where m: "commit_prefix m (assembler st) = (n, assembler s1)" "0 < m \<longrightarrow> m \<le> length ?l
      \<and> w_end (?l ! (m - 1)) \<le> of_nat ?edge / 16000 - 1"
    using cap_commit_facts(6)[OF assms(1)] by blast
  note c = commit_prefix_words[OF m(1)]
  have mn: "0 < m" "m \<le> length ?l" using assms(2) c(3) m(2) by (cases m; simp)+
  let ?e = "w_end (?l ! (m - 1))"
  have tl: "take m ?l \<noteq> []" using mn by auto
  have "last (take m ?l) = ?l ! (m - 1)" using mn last_conv_nth[OF tl] by (simp add: min_absorb2)
  then have ce: "committed_coverage_end (assembler s1) = Some ?e" using tl by (simp add: committed_coverage_end_def c(1))
  have "?e * 16000 + 1 / 2 \<le> of_nat ?edge" using m(2) mn by (simp add: field_simps)
  then have "\<lfloor>?e * 16000 + 1 / 2\<rfloor> \<le> int ?edge" by (metis floor_mono floor_of_nat)
  then have "round_usize (?e * 16000) \<le> ?edge" unfolding round_usize_def by linarith
  moreover have "timed ?l \<Longrightarrow> \<forall>w \<in> set (live_words (assembler s1)). ?e \<le> w_start w"
    unfolding c(2) timed_def using mn by (auto simp: in_set_conv_nth sorted_wrt_iff_nth_less)
  ultimately show ?thesis using that[OF ce] by blast
qed

lemma cap_slide_cases:
  assumes "stable_prefix_enabled eng st" "cap_commit_stable_prefix st = (n, s1)"
  shows "cap_slide eng st = (if 0 < n
     then slide_streaming_window_anchored (case live_words (assembler s1) of [] \<Rightarrow> None | w # _ \<Rightarrow> Some (w_start w)) s1
     else if live_word_count (assembler s1) = 0 then slide_streaming_window s1 else Some s1)"
  unfolding cap_slide_def assms(2) by (simp only: assms(1) if_True prod.case Let_def)

lemma cap_slide_slid:
  assumes "cap_slide eng st = Some st'"
  shows "slid st st'"
proof -
  note f = cap_slide_facts(5-7)[OF assms]
  have "context_samples st' \<le> length (audio_buffer st')" if c: "context_samples st \<le> length (audio_buffer st)"
  proof (cases "stable_prefix_enabled eng st")
    case False
    then have "slide_streaming_window (st\<lparr>cap_streak := 0, assembler := commit_live (assembler st)\<rparr>) = Some st'"
      using assms by (simp add: cap_slide_def)
    from slide_facts(7)[OF this] show ?thesis by simp
  next
    case True
    obtain n s1 where k: "cap_commit_stable_prefix st = (n, s1)" by fastforce
    have w: "window_of s1 = window_of st" using cap_commit_facts(2)[OF k] .
    let ?fl = "case live_words (assembler s1) of [] \<Rightarrow> None | w # _ \<Rightarrow> Some (w_start w)"
    consider "0 < n" "slide_streaming_window_anchored ?fl s1 = Some st'" | "slide_streaming_window s1 = Some st'" | "st' = s1"
      using assms cap_slide_cases[OF True k] by (metis option.inject)
    then show ?thesis
    proof cases
      case 1
      obtain e where e: "committed_coverage_end (assembler s1) = Some e"
        "round_usize (e * 16000) \<le> window_start st + length (audio_buffer st)" by (rule cap_anchor[OF k 1(1)])
      from 1(2) show ?thesis
      proof (cases rule: anchored_elim)
        case kept
        then show ?thesis using w c by (simp add: window_of_def)
      next
        case (slid b k s)
        have "b = round_usize (e * 16000)" using slid(3) e(1) by auto
        then show ?thesis using slide_off_front_facts[OF slid(1)] w e(2) by (simp add: slid(2) window_of_def)
      qed
    next
      case 2
      then show ?thesis using slide_facts(7)[OF 2] by simp
    next
      case 3
      then show ?thesis using w c by (simp add: window_of_def)
    qed
  qed
  then show ?thesis using f by (simp add: slid_def)
qed

lemma hear_window [simp]: "window_of (hear xs st) = (audio_buffer st @ xs, window_start st, context_samples st)"
  by (simp add: window_of_def)

lemma process_chunk_slid:
  assumes "process_chunk eng tr mo xs st = (r, st')"
  shows "slid (st\<lparr>audio_buffer := audio_buffer st @ step_audio (tr, mo, Chunk xs) st\<rparr>) st'"
  using assms
proof (cases rule: process_chunk_elim)
  case cancelled
  then show ?thesis by (intro slid_same) (simp add: window_of_def)
next
  case silent
  then show ?thesis by (intro slid_same) (simp add: window_of_def)
next
  case (waiting fired)
  then show ?thesis using feed_vad_keeps(2)[OF waiting(2)] by (intro slid_same) (simp add: window_of_def)
next
  case (decoded fired st2)
  have b: "window_of st2 = window_of (st\<lparr>audio_buffer := audio_buffer st @ step_audio (tr, mo, Chunk xs) st\<rparr>)"
    using feed_vad_keeps(2)[OF decoded(2)] decoded(1) by (simp add: window_of_def)
  from decoded(4) have "slid st2 st'"
  proof (cases rule: chunk_decoded_elim)
    case panicked
    then show ?thesis using decode_window_keeps(2)[OF panicked(1)] by (simp add: slid_same)
  next
    case (aborted d st3)
    then show ?thesis using decode_window_keeps(2)[OF aborted(1)] by (simp add: slid_same)
  next
    case (broken e st3)
    then show ?thesis using decode_window_keeps(2)[OF broken(1)] by (simp add: slid_same)
  next
    case (decoded endpoint st3)
    have w: "window_of (published eng mo st3) = window_of st2" using decode_window_keeps(2)[OF decoded(1)] by simp
    from decoded(3) have "slid (published eng mo st3) st'"
    proof (cases rule: chunk_result_elim)
      case closed
      obtain f s1 where fin: "finalize_stream_segment eng mo (clock_at mo OnResult) (if fired then Vad else endpoint_reason.Blank) (published eng mo st3) = (f, s1)" by fastforce
      note ff = finalize_facts[OF fin]
      obtain s2 where s2: "slide_streaming_window s1 = Some s2" using slide_some[of s1] by auto
      have "st' = s2 \<or> st' = publish_stream_partial eng (clock_at mo OnPublishAgain) (s1\<lparr>failed := True\<rparr>)"
        using closed(2) fin s2 by (cases f) (auto simp: close_utterance_def)
      then show ?thesis using slide_slid[OF s2] slid_window[OF ff(2) refl] slid_same[of st' "published eng mo st3"] ff(2) by auto
    next
      case (capped st1)
      show ?thesis using slid_window[OF refl _ cap_slide_slid[OF capped(3)], of st'] capped(5) by simp
    qed (simp_all add: slid_same)
    then show ?thesis by (rule slid_window[OF w refl])
  qed
  then show ?thesis by (rule slid_window[OF b refl])
qed

lemma finish_body_slid:
  assumes "finish_body eng tr mo st = (r, st')"
  shows "slid st st'"
  using assms
proof (cases rule: finish_body_elim)
  case (finished d s1 g s2)
  have w: "window_of (s2\<lparr>pending_samples := 0\<rparr>) = window_of st" "window_of s2 = window_of st"
    using decoded_or_same(2)[OF finished(1)] flush_state_step(2)[OF finished(3)] by (simp_all add: window_of_def)
  then show ?thesis using finished(7) slide_slid[of "s2\<lparr>pending_samples := 0\<rparr>" st'] slid_window[OF w(1) refl] by (auto intro: slid_same)
next
  case panicked
  then show ?thesis using decode_window_keeps(2)[OF panicked(1)] by (simp add: slid_same)
next
  case (broken e)
  then show ?thesis using decode_window_keeps(2)[OF broken(1)] by (simp add: slid_same)
next
  case (aborted d s1)
  then show ?thesis using decoded_or_same(2)[OF aborted(1)] by (simp add: slid_same)
next
  case (flushed d s1 g s2)
  then show ?thesis using decoded_or_same(2)[OF flushed(1)] flush_state_step(2)[OF flushed(3)] by (simp add: slid_same)
qed (simp add: slid_same)

lemma try_finish_slid:
  assumes "try_finish_stream eng tr mo st = (r, st')"
  shows "slid st st'"
proof -
  obtain q s1 where b: "finish_body eng tr mo st = (q, s1)" by fastforce
  have "window_of st' = window_of s1" using assms b by (cases q) (auto simp: try_finish_stream_def)
  then show ?thesis using slid_window[OF refl _ finish_body_slid[OF b]] by simp
qed

lemma stream_step_slid:
  assumes "stream_step eng s st = (r, st')"
  shows "slid (st\<lparr>audio_buffer := audio_buffer st @ step_audio s st\<rparr>) st'"
proof -
  obtain tr mo opn where s: "s = (tr, mo, opn)" by (metis surj_pair)
  show ?thesis
  proof (cases opn)
    case (Chunk xs)
    then show ?thesis using process_chunk_slid[of eng tr mo xs st r st'] assms by (simp add: s)
  next
    case TryFinish
    obtain q s1 where t: "try_finish_stream eng tr mo st = (q, s1)" by fastforce
    show ?thesis using try_finish_slid[OF t] assms t by (cases q) (auto simp: s TryFinish)
  next
    case FinishStream
    obtain q s1 where t: "finish_stream_partial eng tr mo st = (q, s1)" by fastforce
    from t have "slid st s1"
    proof (cases rule: finish_stream_partial_elim)
      case (fallback e s2 g)
      show ?thesis using slid_window[OF refl _ try_finish_slid[OF fallback(1)]] flush_state_step(2)[OF fallback(2)] by simp
    qed (auto dest: try_finish_slid)
    then show ?thesis using assms t by (cases q) (auto simp: s FinishStream)
  next
    case FlushState
    obtain g s1 where t: "flush_state eng mo st = (g, s1)" by fastforce
    show ?thesis using slid_same[OF flush_state_step(2)[OF t]] assms t by (auto simp: s FlushState)
  next
    case FlushTruncated
    obtain g s1 where t: "flush_truncated eng mo st = (g, s1)" by fastforce
    show ?thesis using slid_same[OF flush_truncated_step(2)[OF t]] assms t by (auto simp: s FlushTruncated)
  qed
qed

definition window_inv :: "rat list \<Rightarrow> 'st stream_state \<Rightarrow> bool" where
  "window_inv audio st \<longleftrightarrow> window_start st \<le> length audio \<and> audio_buffer st = drop (window_start st) audio
     \<and> context_samples st \<le> length (audio_buffer st)"

lemma slid_inv:
  assumes "window_inv audio st" "slid (st\<lparr>audio_buffer := audio_buffer st @ xs\<rparr>) st'"
  shows "window_inv (audio @ xs) st'"
proof -
  have "audio_buffer st @ xs = drop (window_start st) (audio @ xs)" using assms(1) by (simp add: window_inv_def)
  then show ?thesis using assms by (auto simp: window_inv_def slid_def)
qed

lemma stream_run_window:
  assumes "window_inv audio st" "stream_run eng ss st = (rs, st')"
  shows "window_inv (audio @ heard eng ss st) st'"
  using assms
proof (induction ss arbitrary: st rs audio)
  case (Cons s ss)
  obtain r s1 where r: "stream_step eng s st = (r, s1)" by fastforce
  obtain qs where q: "stream_run eng ss s1 = (qs, st')" using Cons.prems r by (auto split: prod.splits)
  show ?case using Cons.IH[OF slid_inv[OF Cons.prems(1) stream_step_slid[OF r]] q] r by simp
qed simp

section \<open>Cancelled and failed streams\<close>

definition echoes :: "assembler \<Rightarrow> transcript_segment \<Rightarrow> bool" where
  "echoes a g \<longleftrightarrow> s_text g = full_text a \<and> (is_final g \<longleftrightarrow> truncated g)"

lemma echoes_partial: "assembler st = a \<Longrightarrow> echoes a (stream_partial eng st ts)"
  using stream_partial_facts[of eng st ts] by (simp add: echoes_def)

lemma full_text_empty: "asm_is_empty a \<longleftrightarrow> full_text a = []"
  by (auto simp: asm_is_empty_def full_text_def)

lemma flush_failed:
  assumes "failed st" "flush_state eng mo st = (g, st')"
  shows "failed st'" "assembler st' = assembler st" "list_all (echoes (assembler st)) (seg_list g)" "g = None \<Longrightarrow> asm_is_empty (assembler st)"
proof -
  have a: "abort_requested mo FlushEntry st" using assms(1) by (simp add: abort_requested_def)
  have *: "failed st' \<and> assembler st' = assembler st \<and> list_all (echoes (assembler st)) (seg_list g)
    \<and> (g = None \<longrightarrow> asm_is_empty (assembler st))"
    using assms(2)
  proof (cases rule: flush_state_elim)
    case aborted
    then show ?thesis by (auto simp: echoes_partial)
  qed (use a in simp_all)
  then show "failed st'" "assembler st' = assembler st" "list_all (echoes (assembler st)) (seg_list g)" "g = None \<Longrightarrow> asm_is_empty (assembler st)"
    by simp_all
qed

lemma finish_failed:
  assumes "failed st"
  shows "try_finish_stream eng tr mo st = (Inl (Err StreamCancelled), publish_stream_partial eng (clock_at mo OnPublishAgain) (st\<lparr>failed := True\<rparr>))"
  using assms by (simp add: try_finish_stream_def finish_body_def abort_requested_def)

lemma failed_step:
  assumes "failed st" "stream_step eng s st = (r, st')"
  shows "failed st' \<and> assembler st' = assembler st \<and> window_of st' = window_of st
    \<and> list_all (echoes (assembler st)) (case r of Inr gs \<Rightarrow> gs | Inl _ \<Rightarrow> [])"
proof -
  obtain tr mo opn where s: "s = (tr, mo, opn)" by (metis surj_pair)
  have ab: "abort_requested mo site st" for site using assms(1) by (simp add: abort_requested_def)
  let ?s1 = "publish_stream_partial eng (clock_at mo OnPublishAgain) (st\<lparr>failed := True\<rparr>)"
  show ?thesis
  proof (cases opn)
    case (Chunk xs)
    have "r = Inl (Err StreamCancelled)" "st' = publish_stream_partial eng (clock_at mo OnPublish) (st\<lparr>failed := True\<rparr>)"
      using assms(2) ab by (simp_all add: s Chunk process_chunk_def)
    then show ?thesis by simp
  next
    case TryFinish
    then show ?thesis using assms(2) finish_failed[OF assms(1), of eng tr mo] by (auto simp: s TryFinish)
  next
    case FinishStream
    obtain g s2 where f: "flush_state eng mo ?s1 = (g, s2)" by fastforce
    have "r = Inr (seg_list g)" "st' = s2"
      using assms(2) f by (auto simp: s FinishStream finish_stream_partial_def finish_failed[OF assms(1)])
    then show ?thesis using flush_failed[OF _ f] flush_state_step(2)[OF f] by simp
  next
    case FlushState
    obtain g s1 where t: "flush_state eng mo st = (g, s1)" by fastforce
    show ?thesis using flush_failed[OF assms(1) t] flush_state_step(2)[OF t] assms(2) t by (auto simp: s FlushState)
  next
    case FlushTruncated
    obtain g s1 where t: "flush_truncated eng mo st = (g, s1)" by fastforce
    from t have "echoes (assembler st) g \<and> failed s1 \<and> assembler s1 = assembler st"
    proof (cases rule: flush_truncated_elim)
      case empty
      note e = flush_failed[OF assms(1) empty(1)]
      then show ?thesis by (simp add: empty(2) echoes_def empty_truncated_final_def empty_final_def full_text_empty)
    next
      case (segment x)
      note e = flush_failed[OF assms(1) segment(1)]
      have "segment_sound x" using flush_state_step(1)[OF segment(1)] by (simp add: text_step_def)
      then show ?thesis using e into_truncated_facts[of x] by (simp add: segment(2) echoes_def)
    qed
    then show ?thesis using flush_truncated_step(2)[OF t] assms(2) t by (auto simp: s FlushTruncated)
  qed
qed

lemma failed_run:
  assumes "failed st" "stream_run eng ss st = (rs, st')"
  shows "failed st' \<and> assembler st' = assembler st \<and> window_of st' = window_of st \<and> list_all (echoes (assembler st)) (emitted rs)"
  using assms
proof (induction ss arbitrary: st rs)
  case (Cons s ss)
  obtain r s1 where r: "stream_step eng s st = (r, s1)" by fastforce
  obtain qs where q: "stream_run eng ss s1 = (qs, st')" "rs = r # qs" using Cons.prems r by (auto split: prod.splits)
  show ?case using Cons.IH[OF _ q(1)] failed_step[OF Cons.prems(1) r] q(2) by simp
qed simp

lemma close_utterance_error:
  assumes "close_utterance eng mo rs st = (Inl (Err e), st')"
  shows "e = StreamCancelled" "failed st'" "assembler st' = assembler st"
proof -
  obtain f s1 where fin: "finalize_stream_segment eng mo (clock_at mo OnResult) rs st = (f, s1)" by fastforce
  note ff = finalize_facts(6)[OF fin]
  have "e = StreamCancelled \<and> failed st' \<and> assembler st' = assembler st"
    using assms fin ff by (cases f) (auto simp: close_utterance_def split: option.splits)
  then show "e = StreamCancelled" "failed st'" "assembler st' = assembler st" by simp_all
qed

lemma cancelled_step:
  assumes "stream_step eng s st = (Inl (Err StreamCancelled), st')"
  shows "failed st'" "committed_of st' = committed_of st"
proof -
  obtain tr mo opn where s: "s = (tr, mo, opn)" by (metis surj_pair)
  have "failed st' \<and> committed_of st' = committed_of st"
  proof (cases opn)
    case (Chunk xs)
    have "process_chunk eng tr mo xs st = (Inl (Err StreamCancelled), st')" using assms by (simp add: s Chunk)
    then show ?thesis
    proof (cases rule: process_chunk_elim)
      case (decoded fired st2)
      have b: "committed_of st2 = committed_of st" using feed_vad_keeps[OF decoded(2)] by (simp add: committed_of_def)
      from decoded(4) show ?thesis
      proof (cases rule: chunk_decoded_elim)
        case (aborted d st3)
        then show ?thesis using decode_window_keeps[OF aborted(1)] b by simp
      next
        case (decoded endpoint st3)
        from decoded(3) show ?thesis
        proof (cases rule: chunk_result_elim)
          case closed
          show ?thesis using close_utterance_error[OF closed(2)] decode_window_keeps[OF decoded(1)] b by (simp add: committed_of_def)
        qed simp_all
      qed simp_all
    qed simp_all
  next
    case TryFinish
    then have "try_finish_stream eng tr mo st = (Inl (Err StreamCancelled), st')"
      using assms by (auto simp: s split: prod.splits sum.splits)
    from finish_error_keeps[OF this] show ?thesis by simp
  qed (use assms in \<open>auto simp: s split: prod.splits sum.splits\<close>)
  then show "failed st'" "committed_of st' = committed_of st" by simp_all
qed

section \<open>Endpoints\<close>

definition final_allowed :: "'st stream_state \<Rightarrow> bool \<Rightarrow> transcript_segment \<Rightarrow> bool" where
  "final_allowed st fired g \<longleftrightarrow> is_final g \<longrightarrow>
     reason g = Some Vad \<and> fired \<and> endpoint_mode st \<noteq> Manual
     \<or> reason g = Some endpoint_reason.Blank \<and> \<not> fired \<and> endpoint_mode st = Auto \<and> vad_endpointer st = None"

lemma partial_result_allowed: "list_all (final_allowed st fired) (partial_result eng ts s)"
  using stream_partial_facts(4)[of eng s ts] by (simp add: partial_result_def final_allowed_def)

lemma chunk_finals:
  "list_all (final_allowed st (fst (feed_vad eng xs (hear xs st)))) (emitted [fst (process_chunk eng tr mo xs st)])"
proof -
  obtain r st' where p: "process_chunk eng tr mo xs st = (r, st')" by fastforce
  have "list_all (final_allowed st (fst (feed_vad eng xs (hear xs st)))) (case r of Inr gs \<Rightarrow> gs | Inl _ \<Rightarrow> [])"
    using p
  proof (cases rule: process_chunk_elim)
    case (decoded fired st2)
    have f: "fst (feed_vad eng xs (hear xs st)) = fired" using decoded(2) by simp
    have s2: "settings st2 = settings st" using feed_vad_keeps(1)[OF decoded(2)] by simp
    from decoded(4) show ?thesis unfolding f
    proof (cases rule: chunk_decoded_elim)
      case (decoded endpoint st3)
      let ?s = "published eng mo st3"
      have "settings ?s = settings st" using decode_window_keeps(1)[OF decoded(1)] s2 by simp
      note m = settings_simps(5,7)[OF this]
      from decoded(3) show "list_all (final_allowed st fired) (case r of Inr gs \<Rightarrow> gs | Inl _ \<Rightarrow> [])"
      proof (cases rule: chunk_result_elim)
        case closed
        let ?rs = "if fired then Vad else endpoint_reason.Blank"
        obtain q s1 where fin: "finalize_stream_segment eng mo (clock_at mo OnResult) ?rs ?s = (q, s1)" by fastforce
        show ?thesis
        proof (cases q)
          case (Inl e)
          then show ?thesis using closed(2) fin by (auto simp: close_utterance_def)
        next
          case (Inr g)
          have "reason g = Some ?rs" using finalize_facts(7)[OF fin Inr] by simp
          moreover have "fired \<and> endpoint_mode st \<noteq> Manual \<or> \<not> fired \<and> endpoint_mode st = Auto \<and> vad_endpointer st = None"
            using closed(1) m by (auto simp: speech_endpoint_def Let_def split: endpoint_mode.splits)
          ultimately have "final_allowed st fired g" by (auto simp: final_allowed_def)
          then show ?thesis using closed(2) fin Inr slide_some[of s1]
            by (auto simp: close_utterance_def split: option.splits)
        qed
      qed (simp_all add: partial_result_allowed)
    qed simp_all
  qed simp_all
  then show ?thesis by (simp add: p)
qed

end
