(* ===== verification/Stream_Properties.thy ===== *)
theory Stream_Properties
  imports Stream_Safety
begin

text \<open>
  The words of the window in order of time, the panics that cannot happen, and the properties of
  the streaming recogniser with their witnesses.
\<close>

section \<open>Words of a decode\<close>

lemma words_sound_timed: "words_sound off len ws \<Longrightarrow> timed ws"
  by (auto simp: words_sound_def timed_def list_all_iff)

lemma run_inference_timed:
  assumes r: "run_inference eng tr features n dst off low bias ab = Inr ((ws, ep), dst')"
    and s: "length (hid dst) = PRED_HIDDEN" "length (cell dst) = PRED_HIDDEN" "0 < endpoint_blank_threshold dst"
  shows "timed ws"
  using r
proof (cases rule: run_inference_cases)
  case aborted
  then show ?thesis by (simp add: timed_def)
next
  case (ctc data ld len lp)
  note d = decode_ctc_ok[where eng = eng and lp = lp and len = len and bias = bias and ab = "later_polls ab"]
  show ?thesis using grouped_sound(2)[OF d(1,2), where tk = "eh_tokenizer eng" and off = off] by (simp add: ctc(5) words_sound_timed)
next
  case (rnnt data ld len encoded net r)
  note d = greedy_decode_ok[OF rnnt(6) s]
  show ?thesis using grouped_sound(1)[OF d(1,2), where tk = "eh_tokenizer eng" and off = off] by (simp add: rnnt(7) words_sound_timed)
qed

text \<open>
  What the sessions are relied on for: the encoder reports a length, and not one whose output
  would not fit in the address space; the prediction network answers with outputs of its declared
  size; the sessions themselves do not panic.
\<close>

definition encoder_answers :: "triplet \<Rightarrow> bool" where
  "encoder_answers tr \<longleftrightarrow> (\<forall>low x n d ld. tr_encoder tr low x n = Inr (d, ld) \<longrightarrow> ld \<noteq> I32 [] \<and> ld \<noteq> I64 []
     \<and> (\<forall>len. encoder_length ld = Inr len \<longrightarrow> ENC_DIM * len < 2 ^ 64))"

definition decoder_answers :: "triplet \<Rightarrow> bool" where
  "decoder_answers tr \<longleftrightarrow>
     (\<forall>decoder p h c. tr_decoder tr = Some decoder \<longrightarrow> decoder p h c \<noteq> Inl DecodePanic
        \<and> (\<forall>y. decoder p h c = Inr y \<longrightarrow> length (dec_data y) = PRED_HIDDEN))
     \<and> (\<forall>joiner f d. tr_joiner tr = Some joiner \<longrightarrow> joiner f d \<noteq> Inl DecodePanic)"

definition sessions_answer :: "triplet \<Rightarrow> bool" where
  "sessions_answer tr \<longleftrightarrow> encoder_answers tr \<and> decoder_answers tr"

lemma greedy_decode_no_panic:
  assumes "sessions_answer tr" "tr_decoder tr = Some decoder" "tr_joiner tr = Some joiner" "ENC_DIM * len < 2 ^ 64" "shaped dst"
    and "decoder_net net = decoder" "joiner_net net = joiner"
  shows "greedy_decode net encoded len dst \<noteq> Inl DecodePanic"
proof
  assume "greedy_decode net encoded len dst = Inl DecodePanic"
  from decode_errors[OF this assms(5)] assms(4) have "net_error net DecodePanic" by auto
  then show False using assms(1-3,6,7) by (auto simp: net_error_def sessions_answer_def decoder_answers_def)
qed

lemma run_inference_no_panic:
  assumes "length features = N_MELS * n" "sessions_answer tr" "shaped dst"
  shows "run_inference eng tr features n dst off low bias ab \<noteq> Inl Panic"
proof
  assume p: "run_inference eng tr features n dst off low bias ab = Inl Panic"
  then obtain d ld where e: "tr_encoder tr low features n = Inr (d, ld)"
    using assms(1) by (auto simp: run_inference_def simp del: split_paired_Ex split: if_splits sum.splits prod.splits)
  then have ld: "ld \<noteq> I32 []" "ld \<noteq> I64 []" "\<And>len. encoder_length ld = Inr len \<Longrightarrow> ENC_DIM * len < 2 ^ 64"
    using assms(2) unfolding sessions_answer_def encoder_answers_def by blast+
  then have l: "encoder_length ld \<noteq> Inl Panic" by (auto simp: encoder_length_def split: tensor_data.splits)
  show False
  proof (cases "encoder_length ld")
    case (Inr len)
    have "greedy_decode net encoded len dst \<noteq> Inl DecodePanic"
      if "tr_decoder tr = Some (decoder_net net)" "tr_joiner tr = Some (joiner_net net)" for net encoded
      using greedy_decode_no_panic[OF assms(2) that ld(3)[OF Inr] assms(3)] by simp
    then show False using p assms(1) e Inr
      by (auto simp: run_inference_def Let_def split: if_splits sum.splits prod.splits option.splits tensor_data.splits)
  qed (use p assms(1) e l in \<open>auto simp: run_inference_def Let_def split: if_splits sum.splits prod.splits option.splits tensor_data.splits\<close>)
qed

section \<open>The order of the live words\<close>

definition stream_inv :: "'st stream_state \<Rightarrow> bool" where
  "stream_inv st \<longleftrightarrow> timed (live_words (assembler st)) \<and> 0 < endpoint_silence st"

lemma silence_frames_pos: "0 < ms \<Longrightarrow> 0 < silence_frames ms"
  by (auto simp: silence_frames_def div_ceil_def HOP_LENGTH_def ENCODER_SUBSAMPLING_def elim: dvdE)

lemma fresh_decoder_ok:
  "length (hid (fresh_decoder eng st)) = PRED_HIDDEN" "length (cell (fresh_decoder eng st)) = PRED_HIDDEN"
  "0 < endpoint_silence st \<Longrightarrow> 0 < endpoint_blank_threshold (fresh_decoder eng st)"
  by (simp_all add: fresh_decoder_def decoder_state_new_def silence_frames_pos)

lemma timed_filter: "timed ws \<Longrightarrow> timed (filter p ws)"
  by (simp add: timed_def sorted_wrt_filter list_all_iff)

lemma timed_tl: "timed (w # ws) \<Longrightarrow> timed ws"
  by (simp add: timed_def)

lemma timed_label: "timed ws \<Longrightarrow> timed (label_turn t ws)"
  by (simp add: timed_def label_turn_def sorted_wrt_map list_all_iff split: option.split)

lemma timed_reemission: "timed ws \<Longrightarrow> timed (drop_reemission sp b l ws)"
  by (auto simp: drop_reemission_def dest: timed_tl split: option.split list.split)

lemma inv_cong:
  fixes s t :: "'st stream_state"
  shows "settings s = settings t \<Longrightarrow> assembler s = assembler t \<Longrightarrow> stream_inv s = stream_inv t"
  using settings_simps(6)[of s t] by (simp add: stream_inv_def)

lemma accept_window_inv:
  assumes "timed ws" "stream_inv st"
  shows "stream_inv (accept_window eng mo off ws st)"
proof -
  have "timed (live_words (assembler (accept_window eng mo off ws st)))"
    using assms timed_label timed_reemission timed_filter
    by (simp add: accept_window_def Let_def set_words_def stream_inv_def)
  moreover have "endpoint_silence (accept_window eng mo off ws st) = endpoint_silence st"
    by (rule settings_simps(6)) (rule accept_window_keeps)
  ultimately show ?thesis using assms(2) by (simp add: stream_inv_def)
qed

lemma decode_window_inv:
  assumes "stream_inv st" "decode_window eng tr mo st = (r, st')"
  shows "stream_inv st'"
  using assms(2)
proof (cases rule: decode_window_elim)
  case (decoded features n ws ep dst)
  have "timed ws" using run_inference_timed[OF decoded(2) fresh_decoder_ok(1,2) fresh_decoder_ok(3)] assms(1)
    by (simp add: stream_inv_def)
  then show ?thesis unfolding decoded(3) using assms(1) by (intro accept_window_inv) (simp_all add: stream_inv_def)
qed (use assms(1) in \<open>simp_all add: stream_inv_def\<close>)

text \<open>The features always fit the encoder, so a decode panics only on an empty length tensor.\<close>

lemma decode_window_no_panic:
  assumes "se_mel eng = mel_new (se_math eng)" "sessions_answer tr"
  shows "decode_window eng tr mo st \<noteq> (Inl Panic, st')"
proof
  assume d: "decode_window eng tr mo st = (Inl Panic, st')"
  then show False
  proof (cases rule: decode_window_elim)
    case (error bufs n e)
    have "length (fb_output bufs) = N_MELS * n" using features_shape(1) error(1) assms(1) by simp
    moreover have "shaped (fresh_decoder eng st)" by (simp add: shaped_def fresh_decoder_def decoder_state_new_def)
    ultimately have "Inl e \<noteq> (Inl Panic :: infer_error fault + (word_info list \<times> bool) \<times> decoder_state)"
      unfolding error(2)[symmetric] by (rule run_inference_no_panic[OF _ assms(2)])
    then show ?thesis using error(3) by simp
  qed simp_all
qed

lemma finalize_inv:
  assumes "stream_inv st" "finalize_stream_segment eng mo ts rs st = (r, st')"
  shows "stream_inv st'"
proof (cases r)
  case (Inl e)
  then show ?thesis using finalize_facts(6)[OF assms(2)] assms(1) by simp
next
  case (Inr g)
  then show ?thesis using finalize_facts(7)[OF assms(2) Inr] settings_simps(6)[OF finalize_facts(1)[OF assms(2)]] assms(1)
    by (auto simp: stream_inv_def timed_def assembler_new_def)
qed

section \<open>The slide at the cap\<close>

lemma cap_words:
  assumes "cap_slide eng st = Some st'"
  shows "\<exists>k. live_words (assembler st') = drop k (live_words (assembler st)) \<or> live_words (assembler st') = []"
proof (cases "stable_prefix_enabled eng st")
  case False
  then have "slide_streaming_window (st\<lparr>cap_streak := 0, assembler := commit_live (assembler st)\<rparr>) = Some st'"
    using assms by (simp add: cap_slide_def)
  from slide_facts(2)[OF this] show ?thesis by (simp add: commit_live_def)
next
  case True
  obtain n s1 where k: "cap_commit_stable_prefix st = (n, s1)" by fastforce
  obtain m where m: "commit_prefix m (assembler st) = (n, assembler s1)" using cap_commit_facts(6)[OF k] by blast
  have "assembler st' = assembler s1"
    using assms cap_slide_cases[OF True k] slide_facts(2) anchored_facts(2) by (metis option.inject)
  then show ?thesis using commit_prefix_words(2)[OF m] by auto
qed

lemma cap_inv:
  assumes "stream_inv st" "cap_slide eng st = Some st'"
  shows "stream_inv st'"
  using cap_words[OF assms(2)] timed_drop[of "live_words (assembler st)"] assms(1)
    settings_simps(6)[OF cap_slide_facts(1)[OF assms(2)]]
  by (auto simp: stream_inv_def timed_def)

lemma floor_above_boundary: "b < round_usize (e * 16000) \<Longrightarrow> e \<le> s \<Longrightarrow> b \<le> floor_usize (s * 16000)"
proof -
  assume b: "b < round_usize (e * 16000)" and e: "e \<le> s"
  have "int b + 1 \<le> \<lfloor>e * 16000 + 1 / 2\<rfloor>" using b unfolding round_usize_def by linarith
  then have "of_nat b + 1 \<le> e * 16000 + 1 / 2" by (simp add: le_floor_iff)
  then have "of_nat b \<le> s * 16000" using e by linarith
  then have "int b \<le> \<lfloor>s * 16000\<rfloor>" by (simp add: le_floor_iff)
  then show "b \<le> floor_usize (s * 16000)" unfolding floor_usize_def by linarith
qed

lemma cap_slide_some:
  assumes "stream_inv st"
  shows "cap_slide eng st \<noteq> None"
proof (cases "stable_prefix_enabled eng st")
  case False
  then show ?thesis using slide_some by (simp add: cap_slide_def)
next
  case True
  obtain n s1 where k: "cap_commit_stable_prefix st = (n, s1)" by fastforce
  have w: "window_start s1 = window_start st" "audio_buffer s1 = audio_buffer st"
    using cap_commit_facts(2)[OF k] by (simp_all add: window_of_def)
  let ?fl = "case live_words (assembler s1) of [] \<Rightarrow> None | w # _ \<Rightarrow> Some (w_start w)"
  have "slide_streaming_window_anchored ?fl s1 \<noteq> None" if n: "0 < n"
  proof -
    obtain e where e: "committed_coverage_end (assembler s1) = Some e"
      "round_usize (e * 16000) \<le> window_start st + length (audio_buffer st)"
      "\<forall>w \<in> set (live_words (assembler s1)). e \<le> w_start w"
      using cap_anchor[OF k n] assms unfolding stream_inv_def by metis
    let ?b = "round_usize (e * 16000)"
    let ?s0 = "max (?b - STREAM_LEFT_CONTEXT_SAMPLES) (window_start s1)"
    let ?ns = "case ?fl of Some s \<Rightarrow> min ?s0 (floor_usize (s * 16000)) | None \<Rightarrow> ?s0"
    show ?thesis
    proof (cases "?b \<le> window_start s1")
      case True
      then show ?thesis using e(1) by (simp add: slide_streaming_window_anchored_def Let_def)
    next
      case False
      have "window_start s1 \<le> ?ns"
        using floor_above_boundary[of "window_start s1" e] False e(3) assms
        by (auto simp: stream_inv_def not_le split: list.split)
      moreover have "?ns \<le> ?s0" by (auto split: option.split)
      moreover have "?s0 \<le> window_start s1 + length (audio_buffer s1)" using e(2) w by simp
      ultimately have "checked_sub ?ns (window_start s1) = Some (?ns - window_start s1)"
        "?ns - window_start s1 \<le> length (audio_buffer s1)"
        unfolding checked_sub_Some by linarith+
      then show ?thesis using e(1) False
        by (simp add: slide_streaming_window_anchored_def Let_def slide_off_front_def consume_audio_buffer_def
            del: checked_sub_Some)
    qed
  qed
  then show ?thesis using cap_slide_cases[OF True k] slide_some by auto
qed

section \<open>No operation panics\<close>

definition engine_built :: "'st stream_engine \<Rightarrow> bool" where
  "engine_built eng \<longleftrightarrow> se_mel eng = mel_new (se_math eng)"

lemma close_utterance_inv:
  assumes "stream_inv st" "close_utterance eng mo rs st = (r, st')"
  shows "stream_inv st' \<and> r \<noteq> Inl Panic"
proof -
  obtain f s1 where fin: "finalize_stream_segment eng mo (clock_at mo OnResult) rs st = (f, s1)" by fastforce
  have i1: "stream_inv s1" by (rule finalize_inv[OF assms(1) fin])
  obtain s2 where s2: "slide_streaming_window s1 = Some s2" using slide_some[of s1] by auto
  have "stream_inv s2" using i1 slide_facts(1,2)[OF s2] inv_cong[of s2 s1] by simp
  moreover have "stream_inv (publish_stream_partial eng ts (s1\<lparr>failed := True\<rparr>))" for ts
    using i1 inv_cong[of "publish_stream_partial eng ts (s1\<lparr>failed := True\<rparr>)" s1] by simp
  ultimately show ?thesis using assms(2) fin s2 by (cases f) (auto simp: close_utterance_def)
qed

lemma process_chunk_inv:
  assumes "stream_inv st" "engine_built eng" "sessions_answer tr" "process_chunk eng tr mo xs st = (r, st')"
  shows "stream_inv st' \<and> r \<noteq> Inl Panic"
  using assms(4)
proof (cases rule: process_chunk_elim)
  case cancelled
  then show ?thesis using inv_cong[of st' st] assms(1) by simp
next
  case (waiting fired)
  then show ?thesis using inv_cong[of st' st] feed_vad_keeps(1,3)[OF waiting(2)] assms(1) by simp
next
  case (decoded fired st2)
  have i2: "stream_inv st2" using inv_cong[of st2 st] feed_vad_keeps(1,3)[OF decoded(2)] assms(1) by simp
  from decoded(4) show ?thesis
  proof (cases rule: chunk_decoded_elim)
    case panicked
    then show ?thesis using decode_window_no_panic[of eng tr mo st2 st'] assms(2,3) by (simp add: engine_built_def)
  next
    case (aborted d st3)
    then show ?thesis using decode_window_inv[OF i2 aborted(1)] inv_cong[of st' st3] by simp
  next
    case (broken e st3)
    then show ?thesis using decode_window_inv[OF i2 broken(1)] inv_cong[of st' st3] by simp
  next
    case (decoded endpoint st3)
    let ?s = "published eng mo st3"
    have i3: "stream_inv ?s" using decode_window_inv[OF i2 decoded(1)] inv_cong[of ?s st3] by simp
    from decoded(3) show ?thesis
    proof (cases rule: chunk_result_elim)
      case closed
      from close_utterance_inv[OF i3 closed(2)] show ?thesis .
    next
      case cap_panic
      then show ?thesis using cap_slide_some[OF i3] by simp
    next
      case (capped st1)
      then show ?thesis using cap_inv[OF i3 capped(3)] inv_cong[of st' st1] by simp
    next
      case shown
      then show ?thesis using i3 by simp
    qed
  qed
qed (use assms(1) in simp_all)

lemma flush_inv:
  assumes "stream_inv st" "flush_state eng mo st = (g, st')"
  shows "stream_inv st'"
  using assms(2)
proof (cases rule: flush_state_elim)
  case (final seg)
  show ?thesis by (rule finalize_inv[OF assms(1) final(4)])
qed (use assms(1) inv_cong[of st' st] in simp_all)

lemma finish_body_inv:
  assumes "stream_inv st" "engine_built eng" "sessions_answer tr" "finish_body eng tr mo st = (r, st')"
  shows "stream_inv st' \<and> r \<noteq> Inl Panic"
proof -
  have i1: "stream_inv s1" if "decode_window eng tr mo st = (d, s1) \<or> s1 = st" for d s1
    using that decode_window_inv[OF assms(1)] assms(1) by auto
  show ?thesis using assms(4)
  proof (cases rule: finish_body_elim)
    case panicked
    then show ?thesis using decode_window_no_panic[of eng tr mo st st'] assms(2,3) by (simp add: engine_built_def)
  next
    case (broken e)
    then show ?thesis using i1 by auto
  next
    case (aborted d s1)
    then show ?thesis using i1 by auto
  next
    case (flushed d s1 g s2)
    then show ?thesis using flush_inv[OF i1[OF flushed(1)] flushed(3)] by simp
  next
    case (finished d s1 g s2)
    have i2: "stream_inv s2" by (rule flush_inv[OF i1[OF finished(1)] finished(3)])
    have "slide_streaming_window (s2\<lparr>pending_samples := 0\<rparr>) = Some st' \<Longrightarrow> stream_inv st'"
      using slide_facts(1,2)[of "s2\<lparr>pending_samples := 0\<rparr>" st'] inv_cong[of st' s2] i2 by simp
    then show ?thesis using finished(5,7) i2 by auto
  qed (use assms(1) in simp)
qed

lemma try_finish_inv:
  assumes "stream_inv st" "engine_built eng" "sessions_answer tr" "try_finish_stream eng tr mo st = (r, st')"
  shows "stream_inv st' \<and> r \<noteq> Inl Panic"
proof -
  obtain q s1 where b: "finish_body eng tr mo st = (q, s1)" by fastforce
  have "stream_inv s1 \<and> q \<noteq> Inl Panic" by (rule finish_body_inv[OF assms(1-3) b])
  moreover have "stream_inv (publish_stream_partial eng ts (s1\<lparr>failed := True\<rparr>)) = stream_inv s1" for ts
    by (rule inv_cong) simp_all
  ultimately show ?thesis using assms(4) b by (cases q) (auto simp: try_finish_stream_def)
qed

lemma stream_step_inv:
  assumes "stream_inv st" "engine_built eng" "sessions_answer (fst s)" "stream_step eng s st = (r, st')"
  shows "stream_inv st' \<and> r \<noteq> Inl Panic"
proof -
  obtain tr mo opn where s: "s = (tr, mo, opn)" by (metis surj_pair)
  have tr: "sessions_answer tr" using assms(3) by (simp add: s)
  show ?thesis
  proof (cases opn)
    case (Chunk xs)
    then show ?thesis using process_chunk_inv[OF assms(1,2) tr] assms(4) by (simp add: s)
  next
    case TryFinish
    obtain q s1 where t: "try_finish_stream eng tr mo st = (q, s1)" by fastforce
    show ?thesis using try_finish_inv[OF assms(1,2) tr t] assms(4) t by (cases q) (auto simp: s TryFinish)
  next
    case FinishStream
    obtain q s1 where t: "finish_stream_partial eng tr mo st = (q, s1)" by fastforce
    from t have "stream_inv s1 \<and> q \<noteq> Inl ()"
    proof (cases rule: finish_stream_partial_elim)
      case (ok g)
      then show ?thesis using try_finish_inv[OF assms(1,2) tr ok(1)] by simp
    next
      case (fallback e s2 g)
      then show ?thesis using try_finish_inv[OF assms(1,2) tr fallback(1)] flush_inv by auto
    next
      case panicked
      then show ?thesis using try_finish_inv[OF assms(1,2) tr panicked(1)] by simp
    qed
    then show ?thesis using assms(4) t by (cases q) (auto simp: s FinishStream)
  next
    case FlushState
    obtain g s1 where t: "flush_state eng mo st = (g, s1)" by fastforce
    show ?thesis using flush_inv[OF assms(1) t] assms(4) t by (auto simp: s FlushState)
  next
    case FlushTruncated
    obtain g s1 where t: "flush_truncated eng mo st = (g, s1)" by fastforce
    from t have "stream_inv s1" by (cases rule: flush_truncated_elim) (auto intro: flush_inv[OF assms(1)])
    then show ?thesis using assms(4) t by (auto simp: s FlushTruncated)
  qed
qed

lemma stream_run_inv:
  assumes "stream_inv st" "engine_built eng" "list_all (\<lambda>s. sessions_answer (fst s)) ss" "stream_run eng ss st = (rs, st')"
  shows "stream_inv st' \<and> Inl Panic \<notin> set rs"
  using assms
proof (induction ss arbitrary: st rs)
  case (Cons s ss)
  obtain r s1 where r: "stream_step eng s st = (r, s1)" by fastforce
  obtain qs where q: "stream_run eng ss s1 = (qs, st')" "rs = r # qs" using Cons.prems r by (auto split: prod.splits)
  have "stream_inv s1 \<and> r \<noteq> Inl Panic" using stream_step_inv[OF Cons.prems(1,2) _ r] Cons.prems(3) by simp
  then show ?case using Cons.IH[OF _ Cons.prems(2) _ q(1)] Cons.prems(3) q(2) by auto
qed simp

section \<open>Retained audio\<close>

lemma window_samples_bounds: "38400 \<le> stream_max_window_samples secs" "stream_max_window_samples secs \<le> 480000"
proof -
  have "38400 \<le> stream_max_window_samples secs \<and> stream_max_window_samples secs \<le> 480000"
  proof (cases secs)
    case (Fin s)
    let ?x = "max MIN_STREAM_WINDOW_SECS (min s MAX_STREAM_WINDOW_SECS) * 16000"
    have b: "38400 \<le> ?x" "?x \<le> 480000" by (auto simp: MIN_STREAM_WINDOW_SECS_def MAX_STREAM_WINDOW_SECS_def)
    then have "of_int 38400 \<le> ?x + 1 / 2" "?x + 1 / 2 < of_int 480000 + 1" by linarith+
    then have "38400 \<le> \<lfloor>?x + 1 / 2\<rfloor>" "\<lfloor>?x + 1 / 2\<rfloor> \<le> 480000" unfolding le_floor_iff floor_le_iff .
    then show ?thesis unfolding Fin stream_max_window_samples_def float_val.case round_usize_def by linarith
  qed (simp_all add: stream_max_window_samples_def STREAM_MAX_WINDOW_SAMPLES_def)
  then show "38400 \<le> stream_max_window_samples secs" "stream_max_window_samples secs \<le> 480000" by simp_all
qed

lemma legacy_window_bound:
  assumes "process_chunk eng tr mo xs st = (Inr gs, st')" "xs \<noteq> []" "\<not> stable_prefix_enabled eng st"
    and "se_max_window eng = stream_max_window_samples secs"
  shows "length (audio_buffer st') < se_max_window eng"
proof -
  have big: "STREAM_LEFT_CONTEXT_SAMPLES < se_max_window eng"
    using window_samples_bounds(1)[of secs] by (simp add: assms(4) STREAM_LEFT_CONTEXT_SAMPLES_def)
  from assms(1) show ?thesis
  proof (cases rule: process_chunk_elim)
    case (waiting fired)
    have "settings st' = settings st" using feed_vad_keeps(1)[OF waiting(2)] by simp
    from settings_simps(8)[OF this, of eng] show ?thesis using waiting(3) assms(3) by (auto simp: due_def)
  next
    case (decoded fired st2)
    have s2: "settings st2 = settings st" using feed_vad_keeps(1)[OF decoded(2)] by simp
    from decoded(4) show ?thesis
    proof (cases rule: chunk_decoded_elim)
      case (decoded endpoint st3)
      note w = decode_window_keeps[OF decoded(1)]
      let ?s = "published eng mo st3"
      have se: "settings ?s = settings st" using w(1) s2 by simp
      have nst: "\<not> stable_prefix_enabled eng ?s" using settings_simps(8)[OF se] assms(3) by simp
      have buf: "audio_buffer ?s = audio_buffer st2" using w(2) published_keeps(2)[of eng mo st3] by (simp add: window_of_def)
      from decoded(3) show ?thesis
      proof (cases rule: chunk_result_elim)
        case closed
        obtain f s1 where fin: "finalize_stream_segment eng mo (clock_at mo OnResult) (if fired then Vad else endpoint_reason.Blank) ?s = (f, s1)" by fastforce
        obtain s2 where sl: "slide_streaming_window s1 = Some s2" using slide_some[of s1] by auto
        have "st' = s2" using closed(2) fin sl by (cases f) (auto simp: close_utterance_def)
        then show ?thesis using slide_facts(6)[OF sl] big by simp
      next
        case (capped st1)
        have "slide_streaming_window (?s\<lparr>cap_streak := 0, assembler := commit_live (assembler ?s)\<rparr>) = Some st1"
          using capped(3) nst by (simp add: cap_slide_def)
        from slide_facts(6)[OF this] show ?thesis using big by (simp add: capped(5))
      next
        case shown
        then show ?thesis using buf by simp
      qed simp
    qed simp_all
  qed (use assms(2) in simp_all)
qed

section \<open>Audio of revisable words\<close>

definition audio_kept :: "nat \<Rightarrow> 'st stream_state \<Rightarrow> bool" where
  "audio_kept w0 st \<longleftrightarrow> list_all (\<lambda>w. window_start st \<le> max w0 (floor_usize (w_start w * 16000))) (live_words (assembler st))"

lemma floor_usize_mono: "x \<le> y \<Longrightarrow> floor_usize x \<le> floor_usize y"
  unfolding floor_usize_def by (intro nat_mono floor_mono)

lemma cap_keeps_audio:
  assumes "stream_inv st" "stable_prefix_enabled eng st" "cap_slide eng st = Some st'"
  shows "audio_kept (window_start st) st'"
proof -
  obtain n s1 where k: "cap_commit_stable_prefix st = (n, s1)" by fastforce
  have w: "window_start s1 = window_start st" using cap_commit_facts(2)[OF k] by (simp add: window_of_def)
  have t1: "timed (live_words (assembler s1))"
    using cap_commit_facts(6)[OF k] commit_prefix_words(2) timed_drop assms(1) unfolding stream_inv_def by metis
  let ?fl = "case live_words (assembler s1) of [] \<Rightarrow> None | w # _ \<Rightarrow> Some (w_start w)"
  consider "slide_streaming_window_anchored ?fl s1 = Some st'" | "live_word_count (assembler s1) = 0" "slide_streaming_window s1 = Some st'" | "st' = s1"
    using assms(3) cap_slide_cases[OF assms(2) k] by (metis option.inject)
  then show ?thesis
  proof cases
    case 1
    note a = anchored_facts[OF 1]
    show ?thesis
    proof (cases "live_words (assembler s1)")
      case Nil
      then show ?thesis using a(2) by (simp add: audio_kept_def)
    next
      case (Cons f fs)
      have "window_start st' \<le> max (window_start s1) (floor_usize (w_start f * 16000))"
        using anchored_facts(8)[OF 1, of "w_start f"] Cons by simp
      moreover have "w_start f \<le> w_start v" if "v \<in> set (f # fs)" for v
        using t1 that by (auto simp: Cons timed_def list_all_iff intro: order.trans)
      then have "floor_usize (w_start f * 16000) \<le> floor_usize (w_start v * 16000)" if "v \<in> set (f # fs)" for v
        using that by (intro floor_usize_mono) simp
      ultimately show ?thesis using a(2) w Cons by (fastforce simp: audio_kept_def list_all_iff)
    qed
  next
    case 2
    then show ?thesis using slide_facts(2)[OF 2(2)] by (simp add: audio_kept_def live_word_count_def)
  next
    case 3
    then show ?thesis using w by (simp add: audio_kept_def list_all_iff)
  qed
qed

lemma chunk_keeps_audio:
  assumes "stream_inv st" "stable_prefix_enabled eng st" "process_chunk eng tr mo xs st = (Inr gs, st')"
  shows "audio_kept (window_start st) st'"
  using assms(3)
proof (cases rule: process_chunk_elim)
  case (waiting fired)
  then show ?thesis using feed_vad_keeps(2)[OF waiting(2)] by (simp add: audio_kept_def list_all_iff window_of_def)
next
  case (decoded fired st2)
  note v = feed_vad_keeps[OF decoded(2)]
  have i2: "stream_inv st2" using inv_cong[of st2 st] v(1,3) assms(1) by simp
  from decoded(4) show ?thesis
  proof (cases rule: chunk_decoded_elim)
    case (decoded endpoint st3)
    note w = decode_window_keeps[OF decoded(1)]
    let ?s = "published eng mo st3"
    have i3: "stream_inv ?s" using decode_window_inv[OF i2 decoded(1)] inv_cong[of ?s st3] by simp
    have se: "settings ?s = settings st" using w(1) v(1) by simp
    have sp: "stable_prefix_enabled eng ?s" using settings_simps(8)[OF se] assms(2) by simp
    have ws: "window_start ?s = window_start st" using w(2) v(2) published_keeps(2)[of eng mo st3] by (simp add: window_of_def)
    from decoded(3) show ?thesis
    proof (cases rule: chunk_result_elim)
      case closed
      obtain f s1 where fin: "finalize_stream_segment eng mo (clock_at mo OnResult) (if fired then Vad else endpoint_reason.Blank) ?s = (f, s1)" by fastforce
      obtain g where g: "f = Inr g" using closed(2) fin by (cases f) (auto simp: close_utterance_def)
      obtain s2 where sl: "slide_streaming_window s1 = Some s2" using slide_some[of s1] by auto
      have "st' = s2" using closed(2) fin sl g by (auto simp: close_utterance_def)
      then show ?thesis using slide_facts(2)[OF sl] finalize_facts(7)[OF fin g] by (simp add: audio_kept_def assembler_new_def)
    next
      case (capped st1)
      show ?thesis using cap_keeps_audio[OF i3 sp capped(3)] ws by (simp add: capped(5) audio_kept_def)
    next
      case shown
      then show ?thesis using ws by (simp add: audio_kept_def list_all_iff)
    qed simp
  qed simp_all
qed (simp_all add: audio_kept_def list_all_iff)

section \<open>Properties\<close>

text \<open>
  C2: committed text survives. Whatever chunks, finishes and flushes a stream gets, in whatever
  order and with whatever cancellations, and whatever the networks answer: every segment it emits
  has as text its committed part followed by its tentative part, a final leaves nothing tentative,
  and from a partial to the next segment of the utterance the committed text is only extended. The
  one exception is committed text of white space alone, which a blank final drops in silence.
\<close>
theorem committed_text_survives:
  "list_all segment_sound (emitted (fst (stream_run eng ss st))) \<and> continues (emitted (fst (stream_run eng ss st)))"
  using stream_run_text[of eng ss st "fst (stream_run eng ss st)" "snd (stream_run eng ss st)"] by simp

text \<open>
  C9: the window is the end of the stream. After any operations on a fresh stream the retained
  audio is exactly the audio accepted so far from sample \<open>window_start\<close> on: no sample is lost,
  repeated or reordered by the slides, word times are offsets into the stream, and the context
  that is already transcribed lies inside the window.
\<close>
theorem window_is_suffix_of_stream:
  "window_inv (heard eng ss (create_state eng st0)) (snd (stream_run eng ss (create_state eng st0)))"
proof -
  have "window_inv [] (create_state eng st0)" by (simp add: window_inv_def create_state_def)
  from stream_run_window[OF this, of eng ss "fst (stream_run eng ss (create_state eng st0))"] show ?thesis by simp
qed

text \<open>
  C38: a cancelled stream is over and keeps its text. When an operation answers that it was
  cancelled, the committed words are the ones from before, and from then on every operation leaves
  transcript and audio alone, no operation succeeds with anything but the whole text kept so far,
  and a final is only issued as truncated.
\<close>
theorem cancelled_stream_keeps_text:
  assumes "stream_step eng s st = (Inl (Err StreamCancelled), s1)" and "stream_run eng ss s1 = (rs, s2)"
  shows "committed_of s1 = committed_of st \<and> failed s2 \<and> assembler s2 = assembler s1 \<and> window_of s2 = window_of s1
    \<and> list_all (echoes (assembler s1)) (emitted rs)"
  using cancelled_step[OF assms(1)] failed_run[OF _ assms(2)] by simp

text \<open>
  Only an endpoint ends an utterance. A chunk yields a final only if the voice activity
  detector fired on it and the mode is not manual, with the reason \<open>Vad\<close>, or if the decoder met
  its run of blanks in the automatic mode of a stream without detector, with the reason \<open>Blank\<close>;
  reaching the cap of the window never does.
\<close>
theorem finals_need_endpoint:
  "list_all (final_allowed st (fst (feed_vad eng xs (hear xs st)))) (emitted [fst (process_chunk eng tr mo xs st)])"
  by (rule chunk_finals)

text \<open>
  The audio retained in legacy mode is bounded. Without stable prefixes, every chunk of audio
  that is processed with success leaves fewer samples than the configured window, which is between
  2.4 and 30 seconds whatever was asked for, even if earlier chunks failed and piled up audio.
\<close>
theorem legacy_stream_bounded:
  assumes "process_chunk eng tr mo xs st = (Inr gs, st')" and "xs \<noteq> []" and "\<not> stable_prefix_enabled eng st"
    and "se_max_window eng = stream_max_window_samples secs"
  shows "length (audio_buffer st') < se_max_window eng \<and> 38400 \<le> se_max_window eng \<and> se_max_window eng \<le> 480000"
  using legacy_window_bound[OF assms] window_samples_bounds[of secs] by (simp add: assms(4))

text \<open>
  C6: a stream does not panic. On an engine with its own feature extractor, and sessions that
  answer with an encoder length and with decoder outputs of the size the joiner takes, no sequence
  of operations reaches an out-of-range slice, a subtraction below zero, or a copy into an encoder,
  decoder or joiner tensor of another size, from any state whose live words are in order of time;
  in particular the anchored slide never starts before the window or beyond its end, and the
  hidden state copied into the decoder keeps its size.
\<close>
theorem streaming_never_panics:
  assumes "stream_inv st" and "engine_built eng" and "list_all (\<lambda>s. sessions_answer (fst s)) ss"
    and "stream_run eng ss st = (rs, st')"
  shows "Inl Panic \<notin> set rs \<and> stream_inv st'"
  using stream_run_inv[OF assms] by simp

text \<open>
  C13: revisable words keep their audio. With stable prefixes, a chunk never moves the start of the
  window past the beginning of a word that is still uncommitted: what slides off is transcribed
  and committed, or silence.
\<close>
theorem uncommitted_audio_is_kept:
  assumes "stream_inv st" and "stable_prefix_enabled eng st" and "process_chunk eng tr mo xs st = (Inr gs, st')"
  shows "list_all (\<lambda>w. window_start st' \<le> max (window_start st) (floor_usize (w_start w * 16000))) (live_words (assembler st'))"
  using chunk_keeps_audio[OF assms] by (simp add: audio_kept_def)

section \<open>A stream\<close>

definition demo_math :: mel_math where
  "demo_math = \<lparr>m_pi = 3, m_cos = (\<lambda>_. 0), m_log10 = (\<lambda>x. x), m_pow10 = (\<lambda>x. x), m_ln = (\<lambda>x. x), 
     m_fft = \<lparr>dft = (\<lambda>z. z), left_in_scratch = (\<lambda>_ s. s), inplace_scratch_len = 0\<rparr>\<rparr>"

definition demo_stream :: "bool \<Rightarrow> nat stream_engine" where
  "demo_stream sp = \<lparr>se_head = demo_engine, se_math = demo_math, se_mel = mel_new demo_math, se_biaser = None,
     se_punctuator = None, se_itn = False, se_vad = None, se_vad_config = vad_config_default,
     se_endpoint_mode = Auto, se_endpoint_silence = 600, se_max_window = stream_max_window_samples NaN, se_stable_prefix = sp\<rparr>"

definition demo_moment :: "bool \<Rightarrow> moment" where
  "demo_moment b = \<lparr>flag_at = (\<lambda>_. b), clock_at = (\<lambda>_. 0), turn_speaker = None\<rparr>"

definition demo_word :: word_info where
  "demo_word = word_new [98] (2 / 25) (2 / 25) 1 None"

definition demo_state :: "bool \<Rightarrow> nat stream_state" where
  "demo_state sp = (create_state (demo_stream sp) 0)\<lparr>has_abort := True, assembler := set_words [demo_word] assembler_new\<rparr>"

lemma cancelled_stream_keeps_text_witness:
  "\<exists>s1 rs s2. stream_step (demo_stream True) (demo_triplet, demo_moment True, Chunk [0]) (demo_state True) = (Inl (Err StreamCancelled), s1)
     \<and> stream_run (demo_stream True) [(demo_triplet, demo_moment False, Chunk [0]), (demo_triplet, demo_moment False, FlushTruncated)] s1 = (rs, s2)
     \<and> map s_text (emitted rs) = [[98]] \<and> map is_final (emitted rs) = [True] \<and> failed s2"
proof -
  let ?eng = "demo_stream True" and ?st = "demo_state True"
  let ?ss = "[(demo_triplet, demo_moment False, Chunk [0]), (demo_triplet, demo_moment False, FlushTruncated)]"
  let ?s1 = "?st\<lparr>failed := True\<rparr>"
  have step: "stream_step ?eng (demo_triplet, demo_moment True, Chunk [0]) ?st = (Inl (Err StreamCancelled), ?s1)"
    by (simp add: process_chunk_def abort_requested_def flag_set_def demo_moment_def demo_state_def publish_stream_partial_def create_state_def)
  obtain rs s2 where run: "stream_run ?eng ?ss ?s1 = (rs, s2)" by fastforce
  then have len: "length (emitted rs) = 1"
    by (auto simp: process_chunk_def abort_requested_def flush_truncated_def split: prod.splits option.splits)
  note t = cancelled_stream_keeps_text[OF step run]
  obtain g where g: "emitted rs = [g]" using len by (auto simp: length_Suc_conv)
  have "full_text (assembler ?s1) = [98]" by (simp add: demo_state_def set_words_def assembler_new_def full_text_def demo_word_def word_new_def)
  then have "s_text g = [98]" using t g by (simp add: echoes_def)
  moreover have "is_final g"
    using run g by (auto simp: process_chunk_def abort_requested_def flush_truncated_def empty_truncated_final_def empty_final_def into_truncated_facts split: prod.splits option.splits)
  ultimately show ?thesis using step run t g by auto
qed

lemma legacy_stream_bounded_witness:
  "\<exists>gs st'. process_chunk (demo_stream False) demo_triplet (demo_moment False) [0, 0] (demo_state False) = (Inr gs, st')
     \<and> length (audio_buffer st') < stream_max_window_samples NaN"
proof -
  let ?eng = "demo_stream False" and ?st = "demo_state False"
  have run: "process_chunk ?eng demo_triplet (demo_moment False) [0, 0] ?st = (Inr [], hear [0, 0] ?st)"
    using window_samples_bounds(1)[of NaN]
    by (simp add: process_chunk_def abort_requested_def flag_set_def demo_moment_def demo_state_def create_state_def feed_vad_def
        demo_stream_def STREAM_DECODE_STRIDE_SAMPLES_def)
  have "length (audio_buffer (hear [0, 0] ?st)) < se_max_window ?eng"
    using legacy_stream_bounded[OF run, of NaN] by (simp add: demo_stream_def demo_state_def create_state_def stable_prefix_enabled_def)
  then show ?thesis using run by (simp add: demo_stream_def)
qed

lemma demo_state_inv: "stream_inv (demo_state sp)"
  by (simp add: stream_inv_def demo_state_def create_state_def demo_stream_def set_words_def timed_def demo_word_def word_new_def)

definition demo_transducer :: triplet where
  "demo_transducer = \<lparr>tr_encoder = (\<lambda>_ _ _. Inr (F32 (replicate (ENC_DIM * 2) 0), I32 [2])),
     tr_decoder = Some (decoder_net demo_net), tr_joiner = Some (joiner_net demo_net)\<rparr>"

lemma streaming_never_panics_witness:
  "\<exists>rs st'. stream_run ((demo_stream True)\<lparr>se_head := demo_engine\<lparr>eh_ctc := False\<rparr>\<rparr>)
       [(demo_transducer, demo_moment False, Chunk (replicate 40000 0)), (demo_transducer, demo_moment False, FinishStream)]
       (demo_state True) = (rs, st') \<and> length rs = 2 \<and> Inl Panic \<notin> set rs"
proof -
  let ?eng = "(demo_stream True)\<lparr>se_head := demo_engine\<lparr>eh_ctc := False\<rparr>\<rparr>"
  let ?ss = "[(demo_transducer, demo_moment False, Chunk (replicate 40000 0)), (demo_transducer, demo_moment False, FinishStream)]"
  obtain rs st' where run: "stream_run ?eng ?ss (demo_state True) = (rs, st')" by fastforce
  have "engine_built ?eng" by (simp add: engine_built_def demo_stream_def)
  moreover have "encoder_answers demo_transducer" by (simp add: encoder_answers_def encoder_length_def demo_transducer_def ENC_DIM_def)
  then have "list_all (\<lambda>s. sessions_answer (fst s)) ?ss"
    by (simp add: sessions_answer_def decoder_answers_def demo_transducer_def demo_net_def)
  ultimately have "Inl Panic \<notin> set rs" using streaming_never_panics[OF demo_state_inv _ _ run] by simp
  moreover have "length rs = 2" using run by (auto split: prod.splits)
  ultimately show ?thesis using run by blast
qed

lemma uncommitted_audio_is_kept_witness:
  "\<exists>gs st'. process_chunk (demo_stream True) demo_triplet (demo_moment False) [0, 0] ((demo_state True)\<lparr>window_start := 1000\<rparr>) = (Inr gs, st')
     \<and> live_words (assembler st') = [demo_word] \<and> window_start st' \<le> max 1000 1280"
proof -
  let ?eng = "demo_stream True" and ?st = "(demo_state True)\<lparr>window_start := 1000\<rparr>"
  let ?st' = "hear [0, 0] ?st"
  have run: "process_chunk ?eng demo_triplet (demo_moment False) [0, 0] ?st = (Inr [], ?st')"
    using window_samples_bounds(1)[of NaN]
    by (simp add: process_chunk_def abort_requested_def flag_set_def demo_moment_def demo_state_def create_state_def feed_vad_def
        demo_stream_def STREAM_DECODE_STRIDE_SAMPLES_def)
  have i: "stream_inv ?st" using demo_state_inv[of True] by (simp add: stream_inv_def)
  have l: "live_words (assembler ?st') = [demo_word]" by (simp add: demo_state_def set_words_def)
  have "window_start ?st' \<le> max 1000 (floor_usize (w_start demo_word * 16000))"
    using uncommitted_audio_is_kept[OF i _ run] by (simp add: demo_stream_def demo_state_def set_words_def stable_prefix_enabled_def)
  then have "window_start ?st' \<le> max 1000 1280" by (simp add: demo_word_def word_new_def floor_usize_def)
  then show ?thesis using run l by blast
qed

end
