(* ===== verification/Diarization.thy ===== *)
theory Diarization
  imports Window_Words Job_Store
begin

text \<open>
  Speaker labels, \<open>inference/diarization.rs\<close>: the lazily loaded speaker encoder, the offline run
  with its cancellation checks and the assignment of turns to words. The clustering pipeline and
  the speaker network are those of the polyvoice crate; a run of them is an argument, a function
  of the samples and of the answers to its abort polls that also tells how often it polled. The
  times of turns come from the pipeline and are floats that may be non-finite; word times are
  rationals.
\<close>

section \<open>The lazily loaded encoder\<close>

datatype 'e load_slot = Pending | Ready 'e | LoadFailed

text \<open>The answer, the new slot and whether the model file was opened.\<close>

definition get_or_load :: "(string + 'e) \<Rightarrow> 'e load_slot \<Rightarrow> 'e option \<times> 'e load_slot \<times> bool" where
  "get_or_load loaded slot =
     (case slot of
        Ready enc \<Rightarrow> (Some enc, Ready enc, False)
      | LoadFailed \<Rightarrow> (None, LoadFailed, False)
      | Pending \<Rightarrow>
          (case loaded of
             Inr enc \<Rightarrow> (Some enc, Ready enc, True)
           | Inl _ \<Rightarrow> (None, LoadFailed, True)))"

text \<open>One load at most, and one answer for good.\<close>

lemma get_or_load_once:
  "get_or_load l1 slot = (a1, slot1, opened1) \<Longrightarrow> get_or_load l2 slot1 = (a1, slot1, False)"
  by (auto simp: get_or_load_def split: load_slot.splits sum.splits)

section \<open>The offline run\<close>

record labeled_turn =
  turn_start :: float_val
  turn_end :: float_val
  turn_label :: nat

datatype pipeline_error = PipelineTooLong rat rat | PipelineOther string

datatype offline_error = RunCancelled | Declined diarization_outcome

type_synonym diarizer = "pcm \<Rightarrow> (nat \<Rightarrow> bool) \<Rightarrow> (pipeline_error + labeled_turn list) \<times> nat"

definition classify_offline_error :: "pipeline_error \<Rightarrow> diarization_outcome" where
  "classify_offline_error e =
     (case e of PipelineTooLong actual_secs max_secs \<Rightarrow> DurationCeiling actual_secs max_secs | PipelineOther _ \<Rightarrow> DiarFailed)"

definition run_offline :: "diarizer \<Rightarrow> pcm \<Rightarrow> diarization_outcome + labeled_turn list" where
  "run_offline d xs =
     (case fst (d xs (\<lambda>_. False)) of Inl e \<Rightarrow> Inl (classify_offline_error e) | Inr turns \<Rightarrow> Inr turns)"

definition run_offline_with_abort ::
  "diarizer \<Rightarrow> pcm \<Rightarrow> decode_controls \<Rightarrow> effects \<Rightarrow> (offline_error + labeled_turn list) \<times> effects" where
  "run_offline_with_abort d xs ctl e =
     (case abort_flag ctl of
        None \<Rightarrow> (case run_offline d xs of Inl o1 \<Rightarrow> Inl (Declined o1) | Inr turns \<Rightarrow> Inr turns, e)
      | Some f \<Rightarrow>
          (case aborted ctl e of (stop, e1) \<Rightarrow>
             if stop then (Inl RunCancelled, e1)
             else case d xs (\<lambda>i. f (polls e1 + i)) of (r, k) \<Rightarrow>
               (case aborted ctl (e1\<lparr>polls := polls e1 + k\<rparr>) of (stop2, e2) \<Rightarrow>
                  if stop2 then (Inl RunCancelled, e2)
                  else (case r of Inl er \<Rightarrow> Inl (Declined (classify_offline_error er)) | Inr turns \<Rightarrow> Inr turns, e2))))"

section \<open>Turns to words\<close>

definition midpoint :: "word_info \<Rightarrow> float_val" where
  "midpoint w = Fin ((w_start w + w_end w) / 2)"

definition turn_contains :: "labeled_turn \<Rightarrow> float_val \<Rightarrow> bool" where
  "turn_contains t m \<longleftrightarrow> float_ge m (turn_start t) \<and> float_ge (turn_end t) m"

definition is_finite_float :: "float_val \<Rightarrow> bool" where
  "is_finite_float x = (case x of Fin _ \<Rightarrow> True | _ \<Rightarrow> False)"

definition ordered_turns :: "labeled_turn list \<Rightarrow> bool" where
  "ordered_turns ts \<longleftrightarrow>
     list_all (\<lambda>t. is_finite_float (turn_start t) \<and> is_finite_float (turn_end t) \<and> float_ge (turn_end t) (turn_start t)) ts
     \<and> successively (\<lambda>a b. float_ge (turn_start b) (turn_end a)) ts"

text \<open>The \<open>try_fold\<close> over the words: every midpoint is at least the previous one.\<close>

fun midpoints_from :: "float_val \<Rightarrow> word_info list \<Rightarrow> bool" where
  "midpoints_from prev [] = True"
| "midpoints_from prev (w # ws) = (is_finite_float (midpoint w) \<and> float_ge (midpoint w) prev \<and> midpoints_from (midpoint w) ws)"

definition give_speaker :: "labeled_turn \<Rightarrow> word_info \<Rightarrow> word_info" where
  "give_speaker t w = w\<lparr>speaker := Some (turn_label t)\<rparr>"

text \<open>\<open>turns[cursor].end < mid\<close>; the turns are those from the cursor on.\<close>

definition ends_before :: "float_val \<Rightarrow> labeled_turn \<Rightarrow> bool" where
  "ends_before m t \<longleftrightarrow> float_ge m (turn_end t) \<and> \<not> float_ge (turn_end t) m"

fun scan_speakers :: "labeled_turn list \<Rightarrow> word_info list \<Rightarrow> word_info list" where
  "scan_speakers ts [] = []"
| "scan_speakers ts (w # ws) =
     (let rest = dropWhile (ends_before (midpoint w)) ts
      in (case rest of t # _ \<Rightarrow> if turn_contains t (midpoint w) then give_speaker t w else w | [] \<Rightarrow> w)
         # scan_speakers rest ws)"

definition first_match :: "labeled_turn list \<Rightarrow> word_info \<Rightarrow> word_info" where
  "first_match ts w = (case find (\<lambda>t. turn_contains t (midpoint w)) ts of Some t \<Rightarrow> give_speaker t w | None \<Rightarrow> w)"

definition assign_speakers_by_midpoint :: "labeled_turn list \<Rightarrow> word_info list \<Rightarrow> word_info list" where
  "assign_speakers_by_midpoint ts ws =
     (if ts = [] \<or> ws = [] then ws
      else if ordered_turns ts \<and> midpoints_from NInf ws then scan_speakers ts ws
      else map (first_match ts) ws)"

section \<open>The linear scan finds the first matching turn\<close>

lemma ends_before_later:
  "is_finite_float (midpoint v) \<Longrightarrow> float_ge (midpoint v) (midpoint w) \<Longrightarrow> ends_before (midpoint w) t \<Longrightarrow> ends_before (midpoint v) t"
  by (cases "turn_end t") (auto simp: ends_before_def midpoint_def)

lemma ends_before_not_contains: "ends_before m t \<Longrightarrow> \<not> turn_contains t m"
  by (simp add: ends_before_def turn_contains_def)

lemma float_ge_trans: "float_ge a b \<Longrightarrow> float_ge b c \<Longrightarrow> float_ge a c"
  by (cases a; cases b; cases c) auto

lemma ordered_turns_Cons:
  "ordered_turns (t # ts) \<Longrightarrow> ordered_turns ts \<and> (\<forall>u \<in> set ts. float_ge (turn_start u) (turn_end t))"
proof (induction ts arbitrary: t)
  case (Cons u us)
  have o: "ordered_turns (u # us)" and t: "float_ge (turn_start u) (turn_end t)" "float_ge (turn_end u) (turn_start u)"
    using Cons.prems by (simp_all add: ordered_turns_def)
  have u: "ordered_turns us" "\<forall>v \<in> set us. float_ge (turn_start v) (turn_end u)" using Cons.IH[OF o] by blast+
  have "float_ge (turn_start v) (turn_end t)" if "v \<in> set us" for v
    using float_ge_trans[OF float_ge_trans[OF bspec[OF u(2) that] t(2)] t(1)] .
  then show ?case using o t(1) by simp
qed (simp add: ordered_turns_def)

lemma head_decides:
  assumes "ordered_turns (t # ts)" "\<not> ends_before (midpoint w) t"
  shows "find (\<lambda>t. turn_contains t (midpoint w)) (t # ts) = (if turn_contains t (midpoint w) then Some t else None)"
proof (cases "turn_contains t (midpoint w)")
  case False
  have fin: "is_finite_float (turn_end t)" "is_finite_float (turn_start t)" "float_ge (turn_end t) (turn_start t)"
    using assms(1) by (auto simp: ordered_turns_def)
  have "\<not> turn_contains u (midpoint w)" if "u \<in> set ts" for u
  proof -
    have "float_ge (turn_start u) (turn_end t)" using ordered_turns_Cons[OF assms(1)] that by blast
    then show ?thesis using False assms(2) fin
      by (cases "turn_start u"; cases "turn_end t"; cases "turn_start t")
         (auto simp: ends_before_def turn_contains_def midpoint_def is_finite_float_def)
  qed
  then have "find (\<lambda>t. turn_contains t (midpoint w)) ts = None" by (simp add: find_None_iff)
  then show ?thesis using False by simp
qed simp

lemma find_dropWhile:
  "find (\<lambda>t. turn_contains t m) ts = find (\<lambda>t. turn_contains t m) (dropWhile (ends_before m) ts)"
  by (induction ts) (auto dest: ends_before_not_contains)

lemma ordered_turns_dropWhile: "ordered_turns ts \<Longrightarrow> ordered_turns (dropWhile P ts)"
  by (induction ts) (auto dest: ordered_turns_Cons)

lemma midpoints_from_mono: "midpoints_from (midpoint w) ws \<Longrightarrow> v \<in> set ws \<Longrightarrow> is_finite_float (midpoint v) \<and> float_ge (midpoint v) (midpoint w)"
proof (induction ws arbitrary: w)
  case (Cons u us)
  then show ?case by (cases "v = u") (fastforce simp: midpoint_def)+
qed simp

lemma first_match_dropWhile:
  assumes "midpoints_from (midpoint w) ws" "v \<in> set ws"
  shows "first_match (dropWhile (ends_before (midpoint w)) ts) v = first_match ts v"
proof -
  note v = midpoints_from_mono[OF assms]
  have "find (\<lambda>t. turn_contains t (midpoint v)) (dropWhile (ends_before (midpoint w)) ts) = find (\<lambda>t. turn_contains t (midpoint v)) ts"
    using ends_before_later[of v w] ends_before_not_contains[of "midpoint v"] v by (induction ts) auto
  then show ?thesis by (simp only: first_match_def)
qed

lemma scan_speakers_first_match:
  "ordered_turns ts \<Longrightarrow> midpoints_from p ws \<Longrightarrow> scan_speakers ts ws = map (first_match ts) ws"
proof (induction ws arbitrary: ts p)
  case (Cons w ws)
  let ?rest = "dropWhile (ends_before (midpoint w)) ts"
  have o: "ordered_turns ?rest" by (rule ordered_turns_dropWhile[OF Cons.prems(1)])
  have m: "midpoints_from (midpoint w) ws" using Cons.prems(2) by simp
  have "scan_speakers ?rest ws = map (first_match ts) ws"
    using Cons.IH[OF o m] first_match_dropWhile[OF m, of _ ts] by simp
  moreover have "(case ?rest of t # _ \<Rightarrow> if turn_contains t (midpoint w) then give_speaker t w else w | [] \<Rightarrow> w) = first_match ts w"
  proof (cases ?rest)
    case Nil
    then show ?thesis unfolding first_match_def find_dropWhile[of "midpoint w" ts] Nil by simp
  next
    case (Cons t us)
    then have "\<not> ends_before (midpoint w) t" using hd_dropWhile[of "ends_before (midpoint w)" ts] by (metis list.sel(1) list.distinct(1))
    then show ?thesis using head_decides[of t us w] o
      unfolding first_match_def find_dropWhile[of "midpoint w" ts] Cons by simp
  qed
  ultimately show ?case by (simp add: Let_def)
qed simp

text \<open>
  C40: The linear scan that assigns speakers to words is the plain search. Whatever the turns and
  the words are, unordered, overlapping or with non-finite turn times, every word gets the speaker
  of the first turn that contains its midpoint, a word outside all turns keeps its label, and
  nothing else of a word changes.
\<close>

theorem speakers_are_first_matches:
  "assign_speakers_by_midpoint ts ws = map (first_match ts) ws
   \<and> map (\<lambda>w. w\<lparr>speaker := None\<rparr>) (assign_speakers_by_midpoint ts ws) = map (\<lambda>w. w\<lparr>speaker := None\<rparr>) ws"
proof
  show a: "assign_speakers_by_midpoint ts ws = map (first_match ts) ws"
    using scan_speakers_first_match[of ts NInf ws] map_idI[of ws "first_match []"]
    by (auto simp: assign_speakers_by_midpoint_def first_match_def)
  show "map (\<lambda>w. w\<lparr>speaker := None\<rparr>) (assign_speakers_by_midpoint ts ws) = map (\<lambda>w. w\<lparr>speaker := None\<rparr>) ws"
    unfolding a by (auto simp: first_match_def give_speaker_def split: option.split)
qed

end
