(* ===== verification/Transcribe_Engine.thy ===== *)
theory Transcribe_Engine
  imports Diarization Vad_Windows Stream_Engine
begin

text \<open>
  File transcription, \<open>inference/engine/transcribe.rs\<close>, \<open>file_stream.rs\<close>, \<open>channels.rs\<close>, the entry
  points of \<open>words.rs\<close> and the request settings of \<open>engine/config.rs\<close>: which way the samples go
  (one pass, windows, VAD regions, channels), the mapping of word times back to the recording and
  the post-processing. The recogniser is a function of the chosen hotword biaser; the Silero
  network, the punctuation model and the container parser are arguments. The abort flag may change
  at any time: the polls of the decode read it through \<open>decode_controls\<close>, those made inside the
  VAD scan through a reading \<open>vf\<close> of their own.
\<close>

section \<open>The engine and a request\<close>

record 'st transcriber =
  ane_encoder :: bool
  ctc_head :: bool
  recognize :: "biaser option \<Rightarrow> recognizer"
  tr_vad :: "('st scorer \<times> 'st) option"
  tr_vad_config :: vad_config
  file_window_concurrency :: nat
  tr_itn :: bool
  tr_punctuator :: "(ustring \<Rightarrow> ustring) option"
  boot_biaser :: "biaser option"
  tr_tokenizer :: tokenizer
  lower_fn :: "ustring \<Rightarrow> ustring"
  tr_unicode :: unicode
  speaker_encoder :: "diarizer option"      \<comment> \<open>what \<open>get_or_load\<close> answers\<close>

record transcribe_overrides =
  o_punctuation :: "bool option"
  o_itn :: "bool option"
  o_vad :: "bool option"

definition no_overrides :: transcribe_overrides where
  "no_overrides = \<lparr>o_punctuation = None, o_itn = None, o_vad = None\<rparr>"

record hotword_override =
  phrases :: "ustring list"
  hot_boost :: "rat option"

datatype override_error = VadNotLoaded | PunctuationNotAvailable
datatype hotword_error = TooManyHotwords | PhraseTooLong

definition MAX_HOTWORDS_PER_REQUEST :: nat where "MAX_HOTWORDS_PER_REQUEST = 64"
definition MAX_HOTWORD_PHRASE_CHARS :: nat where "MAX_HOTWORD_PHRASE_CHARS = 64"
definition DEFAULT_HOTWORDS_BOOST :: rat where "DEFAULT_HOTWORDS_BOOST = 5"

definition validate_overrides :: "'st transcriber \<Rightarrow> transcribe_overrides \<Rightarrow> override_error + unit" where
  "validate_overrides eng ov =
     (if o_vad ov = Some True \<and> tr_vad eng = None then Inl VadNotLoaded
      else if o_punctuation ov = Some True \<and> tr_punctuator eng = None then Inl PunctuationNotAvailable
      else Inr ())"

definition validate_hotwords :: "hotword_override \<Rightarrow> hotword_error + unit" where
  "validate_hotwords hw =
     (if MAX_HOTWORDS_PER_REQUEST < length (phrases hw) then Inl TooManyHotwords
      else if list_ex (\<lambda>p. MAX_HOTWORD_PHRASE_CHARS < length p) (phrases hw) then Inl PhraseTooLong
      else Inr ())"

definition build_request_biaser :: "'st transcriber \<Rightarrow> hotword_override \<Rightarrow> biaser option" where
  "build_request_biaser eng hw =
     (if phrases hw = [] then None
      else from_phrases (lower_fn eng) (tr_tokenizer eng) (map (\<lambda>p. (p, 1)) (phrases hw))
             (case hot_boost hw of Some b \<Rightarrow> b | None \<Rightarrow> DEFAULT_HOTWORDS_BOOST))"

definition select_biaser :: "'st transcriber \<Rightarrow> hotword_override option \<Rightarrow> biaser option \<Rightarrow> biaser option" where
  "select_biaser eng hotwords request_biaser = (case hotwords of None \<Rightarrow> boot_biaser eng | Some _ \<Rightarrow> request_biaser)"

definition effective_biaser :: "'st transcriber \<Rightarrow> hotword_override option \<Rightarrow> biaser option" where
  "effective_biaser eng hotwords =
     select_biaser eng hotwords (case hotwords of None \<Rightarrow> None | Some hw \<Rightarrow> build_request_biaser eng hw)"

definition engine_spec :: "'st transcriber \<Rightarrow> window_spec" where
  "engine_spec eng = window_spec_for (ane_encoder eng) (ctc_head eng)"

definition use_vad :: "'st transcriber \<Rightarrow> transcribe_overrides \<Rightarrow> bool" where
  "use_vad eng ov \<longleftrightarrow> tr_vad eng \<noteq> None \<and> (case o_vad ov of Some b \<Rightarrow> b | None \<Rightarrow> True)"

section \<open>Times of the compressed timeline\<close>

fun remap_from :: "rat \<Rightarrow> rat \<Rightarrow> rat \<Rightarrow> (nat \<times> nat) list \<Rightarrow> rat option" where
  "remap_from rate target acc [] = None"
| "remap_from rate target acc ((s, e) # rs) =
     (let len = of_nat (e - s)
      in if target \<le> acc + len then Some ((of_nat s + max (target - acc) 0) / rate)
         else remap_from rate target (acc + len) rs)"

definition remap_compressed_seconds :: "rat \<Rightarrow> (nat \<times> nat) list \<Rightarrow> rat \<Rightarrow> rat" where
  "remap_compressed_seconds t rs rate =
     (if rs = [] then t
      else case remap_from rate (max (t * rate) 0) 0 rs of
             Some x \<Rightarrow> x
           | None \<Rightarrow> of_nat (snd (last rs)) / rate)"

definition remap_times :: "(nat \<times> nat) list \<Rightarrow> word_info \<Rightarrow> word_info" where
  "remap_times rs w =
     w\<lparr>w_start := remap_compressed_seconds (w_start w) rs 16000, w_end := remap_compressed_seconds (w_end w) rs 16000\<rparr>"

definition vad_remapping :: "('r, 'st) vad_source rolling remapping" where
  "vad_remapping =
     \<lparr>remap_word = (\<lambda>s. remap_times (vw_regions s)), remap_stable_before = (\<lambda>s. Some (of_nat (avail_total s) / 16000))\<rparr>"

section \<open>Words of a buffer\<close>

text \<open>
  Controls whose sinks transform what they get before the outer sinks see it: \<open>up\<close> the updates,
  \<open>rep\<close> the sample counts.
\<close>

definition through_sinks :: "(word_update \<Rightarrow> word_update) \<Rightarrow> (nat \<Rightarrow> nat) \<Rightarrow> (effects \<Rightarrow> ('x \<times> effects) option)
    \<Rightarrow> effects \<Rightarrow> ('x \<times> effects) option" where
  "through_sinks up rep run e =
     (case run (e\<lparr>reported := [], published := []\<rparr>) of
        None \<Rightarrow> None
      | Some (r, e') \<Rightarrow>
          Some (r, e'\<lparr>reported := reported e @ map rep (reported e'), published := published e @ map up (published e')\<rparr>))"

definition decode_words :: "'st transcriber \<Rightarrow> nat option \<Rightarrow> biaser option \<Rightarrow> decode_controls \<Rightarrow> pcm \<Rightarrow> effects
    \<Rightarrow> (word_info list result \<times> effects) option" where
  "decode_words eng checkout b ctl xs e =
     (if is_single_pass (engine_spec eng) (length xs) then
        (case check_abort ctl e of
           (Inl er, e1) \<Rightarrow> Some (Inl er, e1)
         | (Inr _, e1) \<Rightarrow>
             (case infer_window (recognize eng b) ctl (0, xs) e1 of
                (Inl er, e2) \<Rightarrow> Some (Inl er, e2)
              | (Inr ws, e2) \<Rightarrow>
                  (case check_abort ctl (publish_words ctl ws e2) of
                     (Inl er, e3) \<Rightarrow> Some (Inl er, e3)
                   | (Inr _, e3) \<Rightarrow> Some (Inr ws, report ctl (length xs) e3))))
      else map_option (\<lambda>(r, s, e'). (r, e'))
             (decode_words_streaming slice_next (tr_unicode eng) (recognize eng b) no_remapping ctl
                (file_window_concurrency eng) checkout (slice_windows_new xs (engine_spec eng)) e))"

definition decode_speech_regions :: "'st transcriber \<Rightarrow> nat option \<Rightarrow> biaser option \<Rightarrow> decode_controls \<Rightarrow> pcm
    \<Rightarrow> (nat \<times> nat) list \<Rightarrow> effects \<Rightarrow> (word_info list result \<times> effects) option" where
  "decode_speech_regions eng checkout b ctl xs rs e =
     (case check_abort ctl e of
        (Inl er, e1) \<Rightarrow> Some (Inl er, e1)
      | (Inr _, e1) \<Rightarrow>
          if rs = [] then Some (Inr [], e1)
          else if list_ex (\<lambda>(s, f). f < s \<or> length xs < f) rs then Some (Inl Panic, e1)
          else
            (case through_sinks (\<lambda>up. up\<lparr>u_words := map (remap_times rs) (u_words up)\<rparr>) (\<lambda>n. n)
                    (decode_words eng checkout b ctl (speech_of xs rs)) e1 of
               None \<Rightarrow> None
             | Some (Inl er, e2) \<Rightarrow> Some (Inl er, e2)
             | Some (Inr ws, e2) \<Rightarrow> Some (Inr (map (remap_times rs) ws), e2)))"

definition decode_words_for_samples :: "'st transcriber \<Rightarrow> nat option \<Rightarrow> (nat \<Rightarrow> bool) \<Rightarrow> transcribe_overrides
    \<Rightarrow> hotword_override option \<Rightarrow> decode_controls \<Rightarrow> pcm \<Rightarrow> effects \<Rightarrow> (word_info list result \<times> effects) option" where
  "decode_words_for_samples eng checkout vf ov hotwords ctl xs e =
     (let b = effective_biaser eng hotwords
      in case (if use_vad eng ov then tr_vad eng else None) of
           Some (score, st0) \<Rightarrow>
             (case speech_regions_with_abort score st0 xs (tr_vad_config eng) (map_option (\<lambda>_. vf) (abort_flag ctl)) of
                Inr [] \<Rightarrow> decode_words eng checkout b ctl xs e
              | Inr rs \<Rightarrow> decode_speech_regions eng checkout b ctl xs rs e
              | Inl _ \<Rightarrow>
                  (case check_abort ctl e of
                     (Inl er, e1) \<Rightarrow> Some (Inl er, e1)
                   | (Inr _, e1) \<Rightarrow> decode_words eng checkout b ctl xs e1))
         | None \<Rightarrow> decode_words eng checkout b ctl xs e)"

section \<open>The result\<close>

text \<open>\<open>apply_text_postprocess\<close> polls up to three times.\<close>

definition postprocess :: "'st transcriber \<Rightarrow> transcribe_overrides \<Rightarrow> decode_controls \<Rightarrow> ustring \<Rightarrow> effects
    \<Rightarrow> ustring result \<times> effects" where
  "postprocess eng ov ctl txt0 e =
     (let answers = (case abort_flag ctl of None \<Rightarrow> (\<lambda>_. False) | Some f \<Rightarrow> (\<lambda>k. f (polls e + k)));
          asked = (if answers 0 then 1 else if answers 1 then 2 else 3);
          e1 = (if abort_flag ctl = None then e else e\<lparr>polls := polls e + asked\<rparr>)
      in (case apply_text_postprocess (tr_punctuator eng) txt0 (case o_itn ov of Some b \<Rightarrow> b | None \<Rightarrow> tr_itn eng)
                 (case o_punctuation ov of Some b \<Rightarrow> b | None \<Rightarrow> True) answers of
            Inl _ \<Rightarrow> Inl (Err gigastt_error.Cancelled)
          | Inr txt1 \<Rightarrow> Inr txt1, e1))"

definition finish_transcribe_result :: "'st transcriber \<Rightarrow> word_info list \<Rightarrow> rat \<Rightarrow> transcribe_overrides \<Rightarrow> decode_controls
    \<Rightarrow> effects \<Rightarrow> transcribe_result result \<times> effects" where
  "finish_transcribe_result eng ws dur ov ctl e =
     (case check_abort ctl e of
        (Inl er, e1) \<Rightarrow> (Inl er, e1)
      | (Inr _, e1) \<Rightarrow>
          (case postprocess eng ov ctl (join (map word ws)) e1 of
             (Inl er, e2) \<Rightarrow> (Inl er, e2)
           | (Inr txt1, e2) \<Rightarrow>
               (case check_abort ctl e2 of
                  (Inl er, e3) \<Rightarrow> (Inl er, e3)
                | (Inr _, e3) \<Rightarrow>
                    (Inr \<lparr>r_text = txt1, r_words = ws, duration_s = dur, r_confidence = aggregate_confidence ws\<rparr>, e3))))"

section \<open>Whole buffers\<close>

text \<open>
  The speaker labels of a request that asked for them, with the outcome that goes to the
  write-once sink; \<open>None\<close> is the error that cancels the request.
\<close>

definition diarize_words :: "'st transcriber \<Rightarrow> decode_controls \<Rightarrow> pcm \<Rightarrow> word_info list \<Rightarrow> effects
    \<Rightarrow> (word_info list \<times> diarization_outcome) result \<times> effects" where
  "diarize_words eng ctl xs ws e =
     (case check_abort ctl e of
        (Inl er, e1) \<Rightarrow> (Inl er, e1)
      | (Inr _, e1) \<Rightarrow>
          (case (case speaker_encoder eng of
                   None \<Rightarrow> (Inr (ws, NoSpeakerModel), e1)
                 | Some d \<Rightarrow>
                     (case run_offline_with_abort d xs ctl e1 of
                        (Inl RunCancelled, e2) \<Rightarrow> (Inl (Err gigastt_error.Cancelled), e2)
                      | (Inl (Declined why), e2) \<Rightarrow> (Inr (ws, why), e2)
                      | (Inr turns, e2) \<Rightarrow>
                          (case check_abort ctl e2 of
                             (Inl er, e3) \<Rightarrow> (Inl er, e3)
                           | (Inr _, e3) \<Rightarrow> (Inr (assign_speakers_by_midpoint turns ws, DiarApplied), e3)))) of
             (Inl er, e4) \<Rightarrow> (Inl er, e4)
           | (Inr res, e4) \<Rightarrow>
               (case check_abort ctl e4 of (Inl er, e5) \<Rightarrow> (Inl er, e5) | (Inr _, e5) \<Rightarrow> (Inr res, e5))))"

text \<open>The sink is \<open>None\<close> when the request has none, and is set at most once.\<close>

definition set_sink :: "'a \<Rightarrow> 'a option option \<Rightarrow> 'a option option" where
  "set_sink x sink = map_option (\<lambda>old. case old of None \<Rightarrow> Some x | Some y \<Rightarrow> Some y) sink"

type_synonym transcription = "transcribe_result result \<times> diarization_outcome option option \<times> effects"

definition transcribe_samples_with_overrides :: "'st transcriber \<Rightarrow> nat option \<Rightarrow> (nat \<Rightarrow> bool) \<Rightarrow> pcm \<Rightarrow> transcribe_overrides
    \<Rightarrow> hotword_override option \<Rightarrow> bool \<Rightarrow> diarization_outcome option option \<Rightarrow> decode_controls \<Rightarrow> effects
    \<Rightarrow> transcription option" where
  "transcribe_samples_with_overrides eng checkout vf xs ov hotwords diarize sink ctl e =
     (case check_abort ctl e of
        (Inl er, e1) \<Rightarrow> Some (Inl er, sink, e1)
      | (Inr _, e1) \<Rightarrow>
          (case decode_words_for_samples eng checkout vf ov hotwords ctl xs e1 of
             None \<Rightarrow> None
           | Some (Inl er, e2) \<Rightarrow> Some (Inl er, sink, e2)
           | Some (Inr ws, e2) \<Rightarrow>
               (case check_abort ctl e2 of
                  (Inl er, e3) \<Rightarrow> Some (Inl er, sink, e3)
                | (Inr _, e3) \<Rightarrow>
                    if diarize then
                      (case diarize_words eng ctl xs ws e3 of
                         (Inl er, e4) \<Rightarrow> Some (Inl er, sink, e4)
                       | (Inr (labelled, why), e4) \<Rightarrow>
                           (case finish_transcribe_result eng labelled (of_nat (length xs) / 16000) ov ctl e4 of
                              (r, e5) \<Rightarrow> Some (r, set_sink why sink, e5)))
                    else
                      (case finish_transcribe_result eng ws (of_nat (length xs) / 16000) ov ctl e3 of
                         (r, e4) \<Rightarrow> Some (r, sink, e4)))))"

section \<open>Streamed files\<close>

text \<open>
  A WAVE container: its rate and what the parser sends for a channel selection and a limit of
  seconds. Opening it again reads it from the start.
\<close>

record container =
  c_rate :: nat
  c_blocks :: "channel_select \<Rightarrow> float_val option \<Rightarrow> (wave_err + wave_block) list"
  c_panics :: bool

definition open_container :: "container \<Rightarrow> channel_select \<Rightarrow> float_val option \<Rightarrow> window_spec \<Rightarrow> 'c wave_source rolling result" where
  "open_container c sel limit sp =
     (case wave_source_from (c_rate c) limit (c_blocks c sel limit) (c_panics c) of
        Inl er \<Rightarrow> Inl er
      | Inr w \<Rightarrow> Inr (rolling_new w sp))"

definition clip_seconds :: "nat \<Rightarrow> rat" where
  "clip_seconds n = of_nat n / 16000"

definition transcribe_stream_mono :: "'st transcriber \<Rightarrow> nat option \<Rightarrow> 'c rubato_ops \<Rightarrow> 'c wave_source rolling
    \<Rightarrow> transcribe_overrides \<Rightarrow> hotword_override option \<Rightarrow> decode_controls \<Rightarrow> effects
    \<Rightarrow> (transcribe_result result \<times> effects) option" where
  "transcribe_stream_mono eng checkout ops windows ov hotwords ctl e =
     (case decode_words_streaming (file_next_window ops) (tr_unicode eng) (recognize eng (effective_biaser eng hotwords))
             no_remapping ctl (file_window_concurrency eng) checkout windows e of
        None \<Rightarrow> None
      | Some (Inl er, _, e1) \<Rightarrow> Some (Inl er, e1)
      | Some (Inr ws, s, e1) \<Rightarrow> Some (finish_transcribe_result eng ws (clip_seconds (avail_total s)) ov ctl e1))"

definition transcribe_stream_file :: "'st transcriber \<Rightarrow> nat option \<Rightarrow> (nat \<Rightarrow> bool) \<Rightarrow> 'c rubato_ops
    \<Rightarrow> (window_spec \<Rightarrow> 'c wave_source rolling result) \<Rightarrow> transcribe_overrides \<Rightarrow> hotword_override option
    \<Rightarrow> decode_controls \<Rightarrow> effects \<Rightarrow> (transcribe_result result \<times> effects) option" where
  "transcribe_stream_file eng checkout vf ops opn ov hotwords ctl e =
     (let whole = (\<lambda>e. case check_abort ctl e of
              (Inl er, e1) \<Rightarrow> Some (Inl er, e1)
            | (Inr _, e1) \<Rightarrow>
                (case opn (engine_spec eng) of
                   Inl er \<Rightarrow> Some (Inl er, e1)
                 | Inr windows \<Rightarrow> transcribe_stream_mono eng checkout ops windows ov hotwords ctl e1))
      in case check_abort ctl e of
           (Inl er, e1) \<Rightarrow> Some (Inl er, e1)
         | (Inr _, e1) \<Rightarrow>
             (case (if use_vad eng ov then tr_vad eng else None) of
                None \<Rightarrow> whole e1
              | Some (score, st0) \<Rightarrow>
                  (case opn vad_pull_spec of
                     Inl er \<Rightarrow> Some (Inl er, e1)
                   | Inr raw_windows \<Rightarrow>
                       (case decode_words_streaming
                               (vad_next_window (raw_next_window ops) avail_total score (map_option (\<lambda>_. vf) (abort_flag ctl)))
                               (tr_unicode eng) (recognize eng (effective_biaser eng hotwords)) vad_remapping ctl
                               (file_window_concurrency eng) checkout
                               (vad_windows_new raw_windows st0 (tr_vad_config eng) (engine_spec eng)) e1 of
                          None \<Rightarrow> None
                        | Some (Inl er, _, e2) \<Rightarrow> Some (Inl er, e2)
                        | Some (Inr ws, s, e2) \<Rightarrow>
                            (case check_abort ctl e2 of
                               (Inl er, e3) \<Rightarrow> Some (Inl er, e3)
                             | (Inr _, e3) \<Rightarrow>
                                 if needs_fallback avail_total s then whole e3
                                 else Some (finish_transcribe_result eng (map (remap_times (vw_regions s)) ws)
                                        (clip_seconds (avail_total (vw_raw (src s)))) ov ctl e3))))))"

section \<open>Channels\<close>

text \<open>The sinks of channel \<open>k\<close>: updates carry the channel, progress counts the finished channels.\<close>

definition on_channel :: "nat \<Rightarrow> nat \<Rightarrow> (effects \<Rightarrow> ('x \<times> effects) option) \<Rightarrow> effects \<Rightarrow> ('x \<times> effects) option" where
  "on_channel k completed = through_sinks (\<lambda>up. up\<lparr>u_channel := Some k\<rparr>) (sat_add completed)"

definition channel_result :: "word_info list \<Rightarrow> nat \<Rightarrow> transcribe_result" where
  "channel_result ws n = \<lparr>r_text = [], r_words = ws, duration_s = clip_seconds n, r_confidence = aggregate_confidence ws\<rparr>"

text \<open>
  The loop over the channels: \<open>decode k\<close> decodes channel \<open>k\<close> and tells its length at 16 kHz.
\<close>

fun channel_loop :: "(nat \<Rightarrow> effects \<Rightarrow> ((word_info list \<times> nat) result \<times> effects) option) \<Rightarrow> decode_controls \<Rightarrow> nat list
    \<Rightarrow> nat \<Rightarrow> transcribe_result list \<Rightarrow> effects \<Rightarrow> (transcribe_result list result \<times> effects) option" where
  "channel_loop decode ctl [] completed acc e = Some (Inr acc, e)"
| "channel_loop decode ctl (k # ks) completed acc e =
     (case on_channel k completed (decode k) e of
        None \<Rightarrow> None
      | Some (Inl er, e1) \<Rightarrow> Some (Inl er, e1)
      | Some (Inr (ws, n), e1) \<Rightarrow>
          (case check_abort ctl e1 of
             (Inl er, e2) \<Rightarrow> Some (Inl er, e2)
           | (Inr _, e2) \<Rightarrow>
               let completed' = sat_add completed n
               in channel_loop decode ctl ks completed' (acc @ [channel_result ws n]) (report ctl completed' e2)))"

definition merged_transcription :: "'st transcriber \<Rightarrow> transcribe_overrides \<Rightarrow> decode_controls
    \<Rightarrow> (transcribe_result list result \<times> effects) option \<Rightarrow> (transcribe_result result \<times> effects) option" where
  "merged_transcription eng ov ctl per_channel =
     (case per_channel of
        None \<Rightarrow> None
      | Some (Inl er, e) \<Rightarrow> Some (Inl er, e)
      | Some (Inr rs, e) \<Rightarrow>
          let m = merge_channel_results rs in Some (finish_transcribe_result eng (r_words m) (duration_s m) ov ctl e))"

definition transcribe_channels_inner :: "'st transcriber \<Rightarrow> nat option \<Rightarrow> (nat \<Rightarrow> nat \<Rightarrow> bool) \<Rightarrow> pcm list
    \<Rightarrow> transcribe_overrides \<Rightarrow> hotword_override option \<Rightarrow> decode_controls \<Rightarrow> effects
    \<Rightarrow> (transcribe_result result \<times> effects) option" where
  "transcribe_channels_inner eng checkout vf pcms ov hotwords ctl e =
     (if pcms = [] then Some (Inr \<lparr>r_text = [], r_words = [], duration_s = 0, r_confidence = None\<rparr>, e)
      else merged_transcription eng ov ctl
             (channel_loop
                (\<lambda>k e. map_option (apfst (map_sum id (\<lambda>ws. (ws, length (pcms ! k)))))
                   (decode_words_for_samples eng checkout (vf k) ov hotwords ctl (pcms ! k) e))
                ctl [0..<length pcms] 0 [] e))"

definition transcribe_channel_streams :: "'st transcriber \<Rightarrow> nat option \<Rightarrow> 'c rubato_ops \<Rightarrow> container \<Rightarrow> nat
    \<Rightarrow> float_val option \<Rightarrow> transcribe_overrides \<Rightarrow> hotword_override option \<Rightarrow> decode_controls \<Rightarrow> effects
    \<Rightarrow> (transcribe_result result \<times> effects) option" where
  "transcribe_channel_streams eng checkout ops c n limit ov hotwords ctl e =
     merged_transcription eng ov ctl
       (channel_loop
          (\<lambda>k e. case open_container c (One k) limit (engine_spec eng) of
             Inl er \<Rightarrow> Some (Inl er, e)
           | Inr windows \<Rightarrow>
               map_option (\<lambda>(r, s, e'). (map_sum id (\<lambda>ws. (ws, avail_total s)) r, e'))
                 (decode_words_streaming (file_next_window ops) (tr_unicode eng) (recognize eng (effective_biaser eng hotwords))
                    no_remapping ctl (file_window_concurrency eng) checkout windows e))
          ctl [0..<n] 0 [] e)"

section \<open>Requests\<close>

datatype transcribe_source = Encoded container | Samples pcm | Channels "pcm list" | ChannelStreams container nat

record transcribe_request =
  source :: transcribe_source
  req_overrides :: transcribe_overrides
  req_hotwords :: "hotword_override option"
  diarization :: bool
  diarization_outcome :: "diarization_outcome option option"
  max_audio_secs :: "float_val option"

definition WHOLE_BUFFER_MAX_AUDIO_SECS :: rat where "WHOLE_BUFFER_MAX_AUDIO_SECS = 1800"

definition whole_buffer_limit_secs :: "float_val option \<Rightarrow> float_val" where
  "whole_buffer_limit_secs user =
     (case user of
        Some (Fin secs) \<Rightarrow> if 0 < secs then Fin (min secs WHOLE_BUFFER_MAX_AUDIO_SECS) else Fin WHOLE_BUFFER_MAX_AUDIO_SECS
      | _ \<Rightarrow> Fin WHOLE_BUFFER_MAX_AUDIO_SECS)"

definition validate_source_budget :: "transcribe_request \<Rightarrow> gigastt_error + unit" where
  "validate_source_budget req =
     (case max_audio_secs req of
        Some (Fin limit) \<Rightarrow>
          if limit \<le> 0 then Inr ()
          else
            (case (case source req of
                     Samples xs \<Rightarrow> Some (length xs)
                   | Channels cs \<Rightarrow> Some (fold max (map length cs) 0)
                   | _ \<Rightarrow> None) of
               None \<Rightarrow> Inr ()
             | Some n \<Rightarrow>
                 if min (nat \<lfloor>limit * 16000\<rfloor>) usize_max < n then Inl (AudioTooLong (Fin (clip_seconds n)) (Fin limit))
                 else Inr ())
      | _ \<Rightarrow> Inr ())"

definition stream_eligible :: "bool \<Rightarrow> bool" where
  "stream_eligible diarize \<longleftrightarrow> \<not> diarize"

text \<open>\<open>decode_audio_bytes_with_abort\<close>: the flat decode within the whole-buffer ceiling.\<close>

definition decode_audio_with_abort :: "'c rubato_ops \<Rightarrow> container \<Rightarrow> float_val option \<Rightarrow> (nat \<Rightarrow> bool) \<Rightarrow> decode_controls
    \<Rightarrow> effects \<Rightarrow> pcm result \<times> effects" where
  "decode_audio_with_abort ops c limit vf ctl e =
     (case check_abort ctl e of
        (Inl er, e1) \<Rightarrow> (Inl er, e1)
      | (Inr _, e1) \<Rightarrow>
          (case open_container c Mono (Some (whole_buffer_limit_secs limit)) flat_spec of
             Inl er \<Rightarrow> (Inl er, e1)
           | Inr windows \<Rightarrow> (drain_to_vec_with_abort ops (map_option (\<lambda>_. vf) (abort_flag ctl)) windows, e1)))"

definition with_sink :: "'s \<Rightarrow> ('x \<times> 'e) option \<Rightarrow> ('x \<times> 's \<times> 'e) option" where
  "with_sink sink r = map_option (\<lambda>(x, e). (x, sink, e)) r"

definition transcribe_request_with :: "'st transcriber \<Rightarrow> nat option \<Rightarrow> (nat \<Rightarrow> nat \<Rightarrow> bool) \<Rightarrow> 'c rubato_ops
    \<Rightarrow> transcribe_request \<Rightarrow> decode_controls \<Rightarrow> effects \<Rightarrow> transcription option" where
  "transcribe_request_with eng checkout vf ops req ctl e =
     (let ov = req_overrides req; hotwords = req_hotwords req; sink = diarization_outcome req; limit = max_audio_secs req
      in case check_abort ctl e of
           (Inl er, e1) \<Rightarrow> Some (Inl er, sink, e1)
         | (Inr _, e1) \<Rightarrow>
             (case validate_source_budget req of
                Inl er \<Rightarrow> Some (Inl (Err er), sink, e1)
              | Inr _ \<Rightarrow>
                  (case source req of
                     Encoded c \<Rightarrow>
                       if stream_eligible (diarization req)
                       then with_sink sink
                              (transcribe_stream_file eng checkout (vf 0) ops (open_container c Mono limit) ov hotwords ctl e1)
                       else (case decode_audio_with_abort ops c limit (vf 1) ctl e1 of
                               (Inl er, e2) \<Rightarrow> Some (Inl er, sink, e2)
                             | (Inr xs, e2) \<Rightarrow>
                                 transcribe_samples_with_overrides eng checkout (vf 0) xs ov hotwords (diarization req) sink ctl e2)
                   | Samples xs \<Rightarrow>
                       transcribe_samples_with_overrides eng checkout (vf 0) xs ov hotwords (diarization req) sink ctl e1
                   | ChannelStreams c n \<Rightarrow> with_sink sink (transcribe_channel_streams eng checkout ops c n limit ov hotwords ctl e1)
                   | Channels cs \<Rightarrow> with_sink sink (transcribe_channels_inner eng checkout vf cs ov hotwords ctl e1))))"

text \<open>The snapshot that the partial handle of a request shows after the published updates.\<close>

definition partial_snapshot :: "rat \<Rightarrow> word_update list \<Rightarrow> publisher \<times> snapshot \<Rightarrow> publisher \<times> snapshot" where
  "partial_snapshot ts ups =
     fold (\<lambda>up (p, s). publish (u_retained up) (u_words up) (u_channel up) ts p s) ups"

end
