(* ===== verification/Transcribe_Properties.thy ===== *)
theory Transcribe_Properties
  imports Transcribe_Engine
begin

text \<open>
  Properties of file transcription: streaming a file gives what decoding the whole buffer gives,
  with and without the VAD, and the VAD maps times back into the speech regions of the recording.
\<close>

section \<open>A quiet VAD scan\<close>

lemma frame_scan_quiet:
  "\<forall>k. \<not> vf k \<Longrightarrow> frame_scan (Some vf) score xs i st a p acc = frame_scan None score xs i st 0 0 acc"
proof (induction "length xs - i" arbitrary: i st a p acc rule: less_induct)
  case less
  show ?case
  proof (cases "length xs \<le> i")
    case True
    then show ?thesis by (subst (1 2) frame_scan.simps) simp
  next
    case False
    let ?fin = "min (i + VAD_FRAME_SAMPLES) (length xs)"
    have IH: "frame_scan (Some vf) score xs ?fin st' a' p' acc' = frame_scan None score xs ?fin st' 0 0 acc'" for st' a' p' acc'
      by (rule less.hyps) (use False less.prems in auto)
    show ?thesis using False less.prems
      by (subst (1 2) frame_scan.simps) (simp add: Let_def IH[simplified] split: sum.split)
  qed
qed

lemma speech_regions_quiet:
  assumes "\<forall>k. \<not> vf k"
  shows "speech_regions_with_abort score st0 xs cfg (map_option (\<lambda>_. vf) ab) = speech_regions_with_abort score st0 xs cfg None"
  by (cases ab) (simp_all add: speech_regions_with_abort_def frame_probs_with_abort_def frame_scan_quiet[OF assms])

section \<open>Buffers\<close>

lemma engine_spec_valid: "valid_spec (engine_spec eng)"
  unfolding engine_spec_def window_spec_for_def
  by (rule window_spec_new_valid) (simp add: chunk_window_samples_def CHUNK_WINDOW_SAMPLES_ANE_def CHUNK_WINDOW_SAMPLES_ORT_def)

lemma windows_of_single:
  assumes "is_single_pass sp (length xs)" "valid_spec sp" "xs \<noteq> []"
  shows "windows_of sp xs = [(0, xs)]"
proof -
  have "length xs \<le> last_window_max sp" using assms(1) by (simp add: is_single_pass_def last_window_max_def)
  then have "ref_windows sp (length xs) = [(0, length xs)]" using ref_windows_single[OF assms(2)] assms(3) by simp
  then show ?thesis by (simp add: windows_of_def)
qed

lemma stitched_first [simp]: "stitched u [] 0 (0, xs) ws = (ws, 0)"
  by (simp add: stitched_def overlap_seconds_def stitch_chunk_words_retained_def)

lemma decoded_words_single:
  "decoded_words u infer [(0, xs)] [] 0 = recognized infer (0, xs)"
  by (simp split: sum.split)

text \<open>The words that the engine finds in a buffer when nobody interrupts it.\<close>

definition buffer_words :: "'st transcriber \<Rightarrow> biaser option \<Rightarrow> pcm \<Rightarrow> word_info list result" where
  "buffer_words eng b xs = decoded_words (tr_unicode eng) (recognize eng b) (windows_of (engine_spec eng) xs) [] 0"

definition buffer_reports :: "'st transcriber \<Rightarrow> decode_controls \<Rightarrow> pcm \<Rightarrow> nat list" where
  "buffer_reports eng ctl xs = (if has_progress ctl then map window_end (windows_of (engine_spec eng) xs) else [])"

lemma decode_words_quiet:
  assumes q: "quiet_controls ctl" and ne: "xs \<noteq> []"
  shows "\<exists>e'. decode_words eng (Some extras) b ctl xs e = Some (buffer_words eng b xs, e')
    \<and> (\<forall>r. buffer_words eng b xs = Inr r \<longrightarrow> reported e' = reported e @ buffer_reports eng ctl xs)"
proof (cases "is_single_pass (engine_spec eng) (length xs)")
  case True
  note w = windows_of_single[OF True engine_spec_valid ne]
  obtain e1 where e1: "check_abort ctl e = (Inr (), e1)" "seen e1 = seen e" using check_abort_quiet[OF q] by blast
  obtain e2 where e2: "infer_window (recognize eng b) ctl (0, xs) e1 = (recognized (recognize eng b) (0, xs), e2)" "seen e2 = seen e1"
    using infer_window_quiet[OF q] by blast
  show ?thesis
  proof (cases "recognized (recognize eng b) (0, xs)")
    case (Inl er)
    then show ?thesis using True e1 e2 by (simp add: decode_words_def buffer_words_def w decoded_words_single)
  next
    case (Inr ws)
    obtain e3 where "check_abort ctl (publish_words ctl ws e2) = (Inr (), e3)" "seen e3 = seen (publish_words ctl ws e2)"
      using check_abort_quiet[OF q] by blast
    then show ?thesis using True e1 e2 Inr
      by (simp add: decode_words_def buffer_words_def buffer_reports_def w decoded_words_single report_def
          publish_words_def publish_update_def seen_def window_end_def split: if_splits)
  qed
next
  case False
  note d = slice_source.streaming_decodes[OF q slice_remaining_new[OF engine_spec_valid[of eng], of xs],
      of "tr_unicode eng" "recognize eng b" no_remapping "file_window_concurrency eng" extras e]
  show ?thesis using d False unfolding decode_words_def buffer_words_def buffer_reports_def by auto
qed

lemma speech_of_empty:
  assumes "separated rs" "\<forall>(s, e) \<in> set rs. e \<le> length xs" "rs \<noteq> []"
  shows "speech_of xs rs \<noteq> []"
proof -
  obtain s e ts where rs: "rs = (s, e) # ts" using assms(3) by (cases rs) auto
  then have "s < e" "e \<le> length xs" using assms separated_member[of rs s e] by auto
  then have "subslice xs s e \<noteq> []" by (metis length_subslice list.size(3) min.absorb1 zero_less_diff less_irrefl)
  then show ?thesis by (simp add: speech_of_def rs)
qed

lemma decode_speech_regions_quiet:
  assumes q: "quiet_controls ctl" and rs: "separated rs" "\<forall>(s, e) \<in> set rs. e \<le> length xs" "rs \<noteq> []"
  shows "\<exists>e'. decode_speech_regions eng (Some extras) b ctl xs rs e
        = Some (map_sum id (map (remap_times rs)) (buffer_words eng b (speech_of xs rs)), e')
    \<and> (\<forall>r. buffer_words eng b (speech_of xs rs) = Inr r \<longrightarrow> reported e' = reported e @ buffer_reports eng ctl (speech_of xs rs))"
proof -
  obtain e1 where e1: "check_abort ctl e = (Inr (), e1)" "seen e1 = seen e" using check_abort_quiet[OF q] by blast
  have ok: "\<not> list_ex (\<lambda>(s, f). f < s \<or> length xs < f) rs"
    using rs(2) separated_member[OF rs(1)] by (fastforce simp: list_ex_iff)
  obtain e2 where e2: "decode_words eng (Some extras) b ctl (speech_of xs rs) (e1\<lparr>reported := [], published := []\<rparr>)
      = Some (buffer_words eng b (speech_of xs rs), e2)"
    "\<forall>r. buffer_words eng b (speech_of xs rs) = Inr r \<longrightarrow> reported e2 = buffer_reports eng ctl (speech_of xs rs)"
    using decode_words_quiet[OF q speech_of_empty[OF rs], of eng extras b "e1\<lparr>reported := [], published := []\<rparr>"] by auto
  show ?thesis
    using e1 e2 rs(3) ok by (cases "buffer_words eng b (speech_of xs rs)")
      (simp_all add: decode_speech_regions_def through_sinks_def seen_def)
qed

text \<open>What the engine makes of a clip: the VAD decides which samples are decoded.\<close>

definition clip_words :: "'st transcriber \<Rightarrow> transcribe_overrides \<Rightarrow> biaser option \<Rightarrow> pcm \<Rightarrow> word_info list result" where
  "clip_words eng ov b xs =
     (case (if use_vad eng ov then tr_vad eng else None) of
        None \<Rightarrow> buffer_words eng b xs
      | Some (score, st0) \<Rightarrow>
          (case speech_regions_with_abort score st0 xs (tr_vad_config eng) None of
             Inl _ \<Rightarrow> buffer_words eng b xs
           | Inr rs \<Rightarrow>
               if rs = [] then buffer_words eng b xs
               else map_sum id (map (remap_times rs)) (buffer_words eng b (speech_of xs rs))))"

definition clip_reports :: "'st transcriber \<Rightarrow> transcribe_overrides \<Rightarrow> decode_controls \<Rightarrow> pcm \<Rightarrow> nat list" where
  "clip_reports eng ov ctl xs =
     (case (if use_vad eng ov then tr_vad eng else None) of
        None \<Rightarrow> buffer_reports eng ctl xs
      | Some (score, st0) \<Rightarrow>
          (case speech_regions_with_abort score st0 xs (tr_vad_config eng) None of
             Inl _ \<Rightarrow> buffer_reports eng ctl xs
           | Inr rs \<Rightarrow> buffer_reports eng ctl (if rs = [] then xs else speech_of xs rs)))"

lemma regions_shape:
  assumes "speech_regions_with_abort score st0 xs cfg None = Inr rs"
  shows "separated rs \<and> (\<forall>(s, e) \<in> set rs. e \<le> length xs)"
  using batch_regions_shape[of score st0 cfg xs rs "speech_of xs rs"] assms by (simp add: batch_speech_def)

lemma decode_words_for_samples_quiet:
  assumes q: "quiet_controls ctl" and vf: "\<forall>k. \<not> vf k" and ne: "xs \<noteq> []"
  shows "\<exists>e'. decode_words_for_samples eng (Some extras) vf ov hotwords ctl xs e
        = Some (clip_words eng ov (effective_biaser eng hotwords) xs, e')
    \<and> (\<forall>r. clip_words eng ov (effective_biaser eng hotwords) xs = Inr r \<longrightarrow> reported e' = reported e @ clip_reports eng ov ctl xs)"
proof (cases "if use_vad eng ov then tr_vad eng else None")
  case None
  show ?thesis using decode_words_quiet[OF q ne]
    unfolding decode_words_for_samples_def clip_words_def clip_reports_def None Let_def option.case by blast
next
  case (Some p)
  obtain score st0 where p: "p = (score, st0)" by (cases p)
  have sp: "speech_regions_with_abort score st0 xs (tr_vad_config eng) (map_option (\<lambda>_. vf) (abort_flag ctl))
      = speech_regions_with_abort score st0 xs (tr_vad_config eng) None" by (rule speech_regions_quiet[OF vf])
  note unf = decode_words_for_samples_def clip_words_def clip_reports_def Some p Let_def option.case prod.case sp
  show ?thesis
  proof (cases "speech_regions_with_abort score st0 xs (tr_vad_config eng) None")
    case (Inl msg)
    obtain e1 where e1: "check_abort ctl e = (Inr (), e1)" "seen e1 = seen e" using check_abort_quiet[OF q] by blast
    have "reported e1 = reported e" using e1(2) by (simp add: seen_def)
    then show ?thesis using decode_words_quiet[OF q ne, of eng extras "effective_biaser eng hotwords" e1]
      unfolding unf Inl sum.case e1(1) by simp
  next
    case (Inr rs)
    show ?thesis
    proof (cases "rs = []")
      case True
      then show ?thesis using decode_words_quiet[OF q ne] unfolding unf Inr sum.case True by simp
    next
      case False
      then obtain r rs' where c: "rs = r # rs'" by (cases rs) auto
      have m: "map_sum id f (y :: _ result) = Inr z \<Longrightarrow> \<exists>w. y = Inr w" for f y z by (cases y) auto
      have d: "decode_words_for_samples eng (Some extras) vf ov hotwords ctl xs e
          = decode_speech_regions eng (Some extras) (effective_biaser eng hotwords) ctl xs rs e"
        unfolding unf Inr sum.case c by simp
      have w: "clip_words eng ov (effective_biaser eng hotwords) xs
          = map_sum id (map (remap_times rs)) (buffer_words eng (effective_biaser eng hotwords) (speech_of xs rs))"
        "clip_reports eng ov ctl xs = buffer_reports eng ctl (speech_of xs rs)"
        unfolding unf Inr sum.case using False by simp_all
      from regions_shape[OF Inr] have sh: "separated rs" "\<forall>(s, e) \<in> set rs. e \<le> length xs" by blast+
      from decode_speech_regions_quiet[OF q sh False, of eng extras "effective_biaser eng hotwords" e]
      show ?thesis unfolding d w using m by fastforce
    qed
  qed
qed

section \<open>Finishing\<close>

definition finished_result :: "'st transcriber \<Rightarrow> transcribe_overrides \<Rightarrow> word_info list \<Rightarrow> rat \<Rightarrow> transcribe_result" where
  "finished_result eng ov ws dur =
     (let txt1 = (if (case o_itn ov of Some b \<Rightarrow> b | None \<Rightarrow> tr_itn eng) then apply_itn (join (map word ws)) else join (map word ws));
          txt2 = (case tr_punctuator eng of Some p \<Rightarrow> if (case o_punctuation ov of Some b \<Rightarrow> b | None \<Rightarrow> True) then p txt1 else txt1
                  | None \<Rightarrow> txt1)
      in \<lparr>r_text = txt2, r_words = ws, duration_s = dur, r_confidence = aggregate_confidence ws\<rparr>)"

lemma finish_quiet:
  assumes q: "quiet_controls ctl"
  shows "\<exists>e'. finish_transcribe_result eng ws dur ov ctl e = (Inr (finished_result eng ov ws dur), e') \<and> seen e' = seen e"
proof -
  have a: "(case abort_flag ctl of None \<Rightarrow> (\<lambda>_. False) | Some f \<Rightarrow> (\<lambda>k. f (polls x + k))) = (\<lambda>_. False)" for x :: effects
    using q by (auto simp: quiet_controls_def split: option.split)
  obtain e1 where e1: "check_abort ctl e = (Inr (), e1)" "seen e1 = seen e" using check_abort_quiet[OF q] by blast
  define e2 where "e2 = (if abort_flag ctl = None then e1 else e1\<lparr>polls := polls e1 + 3\<rparr>)"
  have p: "postprocess eng ov ctl (join (map word ws)) e1 = (Inr (r_text (finished_result eng ov ws dur)), e2)"
    unfolding postprocess_def a e2_def by (simp add: apply_text_postprocess_def finished_result_def Let_def)
  obtain e3 where e3: "check_abort ctl e2 = (Inr (), e3)" "seen e3 = seen e2" using check_abort_quiet[OF q] by blast
  have "seen e2 = seen e1" by (simp add: e2_def seen_def)
  then show ?thesis using e1 p e3 by (simp add: finish_transcribe_result_def) (simp add: finished_result_def Let_def)
qed

text \<open>The undisturbed result of a clip, and the reports of its decode.\<close>

definition clip_result :: "'st transcriber \<Rightarrow> transcribe_overrides \<Rightarrow> hotword_override option \<Rightarrow> pcm \<Rightarrow> transcribe_result result" where
  "clip_result eng ov hotwords xs =
     map_sum id (\<lambda>ws. finished_result eng ov ws (clip_seconds (length xs))) (clip_words eng ov (effective_biaser eng hotwords) xs)"

lemma transcribe_samples_quiet:
  assumes q: "quiet_controls ctl" and vf: "\<forall>k. \<not> vf k" and ne: "xs \<noteq> []"
  shows "\<exists>e'. transcribe_samples_with_overrides eng (Some extras) vf xs ov hotwords False sink ctl e
        = Some (clip_result eng ov hotwords xs, sink, e')
    \<and> (\<forall>r. clip_result eng ov hotwords xs = Inr r \<longrightarrow> reported e' = reported e @ clip_reports eng ov ctl xs)"
proof -
  let ?b = "effective_biaser eng hotwords"
  obtain e1 where e1: "check_abort ctl e = (Inr (), e1)" "seen e1 = seen e" using check_abort_quiet[OF q] by blast
  obtain e2 where e2: "decode_words_for_samples eng (Some extras) vf ov hotwords ctl xs e1 = Some (clip_words eng ov ?b xs, e2)"
    "\<forall>r. clip_words eng ov ?b xs = Inr r \<longrightarrow> reported e2 = reported e1 @ clip_reports eng ov ctl xs"
    using decode_words_for_samples_quiet[OF q vf ne] by blast
  show ?thesis
  proof (cases "clip_words eng ov ?b xs")
    case (Inl er)
    then show ?thesis using e1(1) e2(1) by (simp add: transcribe_samples_with_overrides_def clip_result_def)
  next
    case (Inr ws)
    obtain e3 where e3: "check_abort ctl e2 = (Inr (), e3)" "seen e3 = seen e2" using check_abort_quiet[OF q] by blast
    obtain e4 where e4: "finish_transcribe_result eng ws (clip_seconds (length xs)) ov ctl e3
        = (Inr (finished_result eng ov ws (clip_seconds (length xs))), e4)" "seen e4 = seen e3"
      using finish_quiet[OF q] by blast
    have "reported e4 = reported e @ clip_reports eng ov ctl xs"
      using e1(2) e2(2) e3(2) e4(2) Inr by (simp add: seen_def)
    then show ?thesis using e1(1) e2(1) e3(1) e4(1) Inr
      by (simp add: transcribe_samples_with_overrides_def clip_result_def clip_seconds_def)
  qed
qed

section \<open>Streams\<close>

text \<open>
  The two streamed sources, each with the length of its stream: a drained one knows its length,
  and behind the VAD also its regions.
\<close>

lemma file_next_window_via: "file_next_window ops = next_window_via (fill_to ops) False"
  by (simp add: fun_eq_iff file_next_window_def)

interpretation file_decode: pcm_windows "file_next_window ops" "\<lambda>s ws. rolling_remaining (file_yields ops) s ws n"
  for ops n
  unfolding file_next_window_via
  by unfold_locales (use wave_file.counted_Cons wave_file.counted_Nil in blast)+

interpretation vad_decode: pcm_windows "vad_next_window (raw_next_window ops) avail_total score ab"
    "\<lambda>s ws. rolling_remaining (vad_yields (rolling_remaining (file_yields ops)) avail_total score ab rs n) s ws k"
  for ops score ab rs n k
  unfolding vad_next_window_def
  by unfold_locales (use vad_file.counted_Cons vad_file.counted_Nil in blast)+

lemma file_drained:
  "drained_by (file_next_window ops) (\<lambda>s ws. rolling_remaining (file_yields ops) s ws n) s' \<Longrightarrow> avail_total s' = n"
  unfolding drained_by_def file_next_window_via by (auto dest: wave_file.counted_Nil[where skip = False])

lemma vad_drained:
  assumes "drained_by (vad_next_window (raw_next_window ops) avail_total score ab)
    (\<lambda>s ws. rolling_remaining (vad_yields (rolling_remaining (file_yields ops)) avail_total score ab rs n) s ws k) s'"
  shows "vw_regions s' = rs \<and> \<not> vad_failed (src s') \<and> avail_total (vw_raw (src s')) = n"
proof -
  from assms obtain s where s: "rolling_remaining (vad_yields (rolling_remaining (file_yields ops)) avail_total score ab rs n) s [] k"
    "next_window_via (vad_fill_to (raw_next_window ops) avail_total score ab) True s = (Inr None, s')"
    by (auto simp: drained_by_def vad_next_window_def)
  from vad_file.drained_eof[OF s] obtain zs where
    "src_eof s'" "vad_yields (rolling_remaining (file_yields ops)) avail_total score ab rs n s' zs" by blast
  then show ?thesis by (simp add: vad_yields_def)
qed

lemma vad_remaining_new:
  assumes live: "file_live ops xs (rolling_new w vad_pull_spec)" and lim: "length xs < usize_max"
    and b: "batch_speech score st0 cfg xs = Inr (rs, ys)" and q: "quiet ab" and v: "valid_spec sp"
  shows "rolling_remaining (vad_yields (rolling_remaining (file_yields ops)) avail_total score ab rs (length xs))
      (vad_windows_new (rolling_new w vad_pull_spec) st0 cfg sp) (windows_of sp ys) (length ys)"
proof -
  have pull: "rolling_remaining (file_yields ops) (rolling_new w vad_pull_spec) (windows_of pull_spec xs) (length xs)"
    using file_remaining_new[OF _ live lim] by (simp add: vad_pull_spec_eq)
  have "stream_speech score st0 cfg (map snd (windows_of pull_spec xs)) = Inr (rs, ys)"
    unfolding stream_speech_batch windows_of_pull by (rule b)
  from wave_file.vad_yields_new[OF pull _ q this, where sp = sp] windows_of_pull[of xs]
  have "vad_yields (rolling_remaining (file_yields ops)) avail_total score ab rs (length xs)
      (vad_windows_new (rolling_new w vad_pull_spec) st0 cfg sp) ys" by simp
  moreover have "length ys < usize_max" using batch_speech_length[OF b] lim by simp
  ultimately show ?thesis unfolding vad_windows_new_def by (intro rolling_remaining_new v)
qed

lemma stream_mono_quiet:
  assumes q: "quiet_controls ctl" and live: "\<And>sp. file_live ops xs (rolling_new w sp)" and lim: "length xs < usize_max"
  shows "\<exists>e'. transcribe_stream_mono eng (Some extras) ops (rolling_new w (engine_spec eng)) ov hotwords ctl e
      = Some (map_sum id (\<lambda>ws. finished_result eng ov ws (clip_seconds (length xs))) (buffer_words eng (effective_biaser eng hotwords) xs), e')
    \<and> (\<forall>r. buffer_words eng (effective_biaser eng hotwords) xs = Inr r \<longrightarrow> reported e' = reported e @ buffer_reports eng ctl xs)"
proof -
  let ?b = "effective_biaser eng hotwords"
  note rem = file_remaining_new[OF engine_spec_valid live lim]
  from file_decode.streaming_decodes[OF q rem, where u = "tr_unicode eng" and infer = "recognize eng ?b" and rm = no_remapping
      and cap = "file_window_concurrency eng" and extras = extras and e = e]
  obtain s' e1 where d: "decode_words_streaming (file_next_window ops) (tr_unicode eng) (recognize eng ?b) no_remapping ctl
        (file_window_concurrency eng) (Some extras) (rolling_new w (engine_spec eng)) e = Some (buffer_words eng ?b xs, s', e1)"
    and ok: "\<forall>r. buffer_words eng ?b xs = Inr r \<longrightarrow> reported e1 = reported e @ buffer_reports eng ctl xs
      \<and> drained_by (file_next_window ops) (\<lambda>s ws. rolling_remaining (file_yields ops) s ws (length xs)) s'"
    unfolding buffer_words_def buffer_reports_def by blast
  show ?thesis
  proof (cases "buffer_words eng ?b xs")
    case (Inl er)
    then show ?thesis using d by (simp add: transcribe_stream_mono_def)
  next
    case (Inr ws)
    then have "avail_total s' = length xs" using ok file_drained by blast
    moreover obtain e2 where "finish_transcribe_result eng ws (clip_seconds (length xs)) ov ctl e1
        = (Inr (finished_result eng ov ws (clip_seconds (length xs))), e2)" "seen e2 = seen e1" using finish_quiet[OF q] by blast
    ultimately show ?thesis using d ok Inr by (simp add: transcribe_stream_mono_def seen_def)
  qed
qed


text \<open>The decode in front of the VAD: its words are on the compressed timeline.\<close>

lemma vad_stream_quiet:
  assumes q: "quiet_controls ctl" "quiet ab" and live: "file_live ops xs (rolling_new w vad_pull_spec)" and lim: "length xs < usize_max"
    and b: "speech_regions_with_abort score st0 xs (tr_vad_config eng) None = Inr rs"
  shows "\<exists>s' e'. decode_words_streaming (vad_next_window (raw_next_window ops) avail_total score ab) (tr_unicode eng)
        (recognize eng bi) vad_remapping ctl (file_window_concurrency eng) (Some extras)
        (vad_windows_new (rolling_new w vad_pull_spec) st0 (tr_vad_config eng) (engine_spec eng)) e
      = Some (buffer_words eng bi (speech_of xs rs), s', e')
    \<and> (\<forall>r. buffer_words eng bi (speech_of xs rs) = Inr r \<longrightarrow>
         reported e' = reported e @ buffer_reports eng ctl (speech_of xs rs)
         \<and> vw_regions s' = rs \<and> \<not> vad_failed (src s') \<and> avail_total (vw_raw (src s')) = length xs)"
proof -
  have bs: "batch_speech score st0 (tr_vad_config eng) xs = Inr (rs, speech_of xs rs)" using b by (simp add: batch_speech_def)
  note rem = vad_remaining_new[OF live lim bs q(2) engine_spec_valid[of eng]]
  from vad_decode.streaming_decodes[OF q(1) rem, where u = "tr_unicode eng" and infer = "recognize eng bi" and rm = vad_remapping
      and cap = "file_window_concurrency eng" and extras = extras and e = e]
  show ?thesis unfolding buffer_words_def buffer_reports_def using vad_drained by blast
qed

lemma buffer_words_empty [simp]: "buffer_words eng b [] = Inr []" "buffer_reports eng ctl [] = []"
  by (simp_all add: buffer_words_def buffer_reports_def windows_of_def ref_windows_def)

lemma transcribe_stream_quiet:
  assumes q: "quiet_controls ctl" and vf: "\<forall>k. \<not> vf k" and ne: "xs \<noteq> []" and lim: "length xs < usize_max"
    and opn: "\<And>sp. opn sp = Inr (rolling_new w sp)" and live: "\<And>sp. file_live ops xs (rolling_new w sp)"
    and vad: "\<And>score st0. tr_vad eng = Some (score, st0) \<Longrightarrow>
      \<not> isl (speech_regions_with_abort score st0 xs (tr_vad_config eng) None)"
  shows "\<exists>e'. transcribe_stream_file eng (Some extras) vf ops opn ov hotwords ctl e = Some (clip_result eng ov hotwords xs, e')
    \<and> (\<forall>r. clip_result eng ov hotwords xs = Inr r \<longrightarrow> reported e' = reported e @ clip_reports eng ov ctl xs)"
proof -
  let ?b = "effective_biaser eng hotwords"
  let ?fin = "\<lambda>ws. finished_result eng ov ws (clip_seconds (length xs))"
  define whole where "whole = (\<lambda>e. case check_abort ctl e of (Inl er, e1) \<Rightarrow> Some (Inl er, e1)
      | (Inr _, e1) \<Rightarrow> (case opn (engine_spec eng) of Inl er \<Rightarrow> Some (Inl er, e1)
          | Inr windows \<Rightarrow> transcribe_stream_mono eng (Some extras) ops windows ov hotwords ctl e1))"
  have whole: "\<exists>e'. whole e = Some (map_sum id ?fin (buffer_words eng ?b xs), e')
      \<and> (\<forall>r. buffer_words eng ?b xs = Inr r \<longrightarrow> reported e' = reported e @ buffer_reports eng ctl xs)" for e
  proof -
    obtain e1 where "check_abort ctl e = (Inr (), e1)" "seen e1 = seen e" using check_abort_quiet[OF q] by blast
    then show ?thesis using stream_mono_quiet[OF q live lim, of eng extras ov hotwords e1]
      by (simp add: whole_def opn seen_def)
  qed
  obtain e1 where e1: "check_abort ctl e = (Inr (), e1)" "seen e1 = seen e" using check_abort_quiet[OF q] by blast
  have r1: "reported e1 = reported e" using e1(2) by (simp add: seen_def)
  have whole_result: "\<exists>e'. whole e0 = Some (clip_result eng ov hotwords xs, e')
      \<and> (\<forall>r. clip_result eng ov hotwords xs = Inr r \<longrightarrow> reported e' = reported e @ clip_reports eng ov ctl xs)"
    if c: "clip_result eng ov hotwords xs = map_sum id ?fin (buffer_words eng ?b xs)"
      "clip_reports eng ov ctl xs = buffer_reports eng ctl xs" and r: "reported e0 = reported e" for e0
  proof -
    obtain e' where "whole e0 = Some (map_sum id ?fin (buffer_words eng ?b xs), e')"
      "\<forall>r. buffer_words eng ?b xs = Inr r \<longrightarrow> reported e' = reported e0 @ buffer_reports eng ctl xs" using whole by blast
    then show ?thesis unfolding c r[symmetric] by (cases "buffer_words eng ?b xs") simp_all
  qed
  have start: "transcribe_stream_file eng (Some extras) vf ops opn ov hotwords ctl e =
      (case (if use_vad eng ov then tr_vad eng else None) of
         None \<Rightarrow> whole e1
       | Some (score, st0) \<Rightarrow>
           (case decode_words_streaming (vad_next_window (raw_next_window ops) avail_total score (map_option (\<lambda>_. vf) (abort_flag ctl)))
                   (tr_unicode eng) (recognize eng ?b) vad_remapping ctl (file_window_concurrency eng) (Some extras)
                   (vad_windows_new (rolling_new w vad_pull_spec) st0 (tr_vad_config eng) (engine_spec eng)) e1 of
              None \<Rightarrow> None
            | Some (Inl er, _, e2) \<Rightarrow> Some (Inl er, e2)
            | Some (Inr ws, s, e2) \<Rightarrow>
                (case check_abort ctl e2 of
                   (Inl er, e3) \<Rightarrow> Some (Inl er, e3)
                 | (Inr _, e3) \<Rightarrow>
                     if needs_fallback avail_total s then whole e3
                     else Some (finish_transcribe_result eng (map (remap_times (vw_regions s)) ws)
                            (clip_seconds (avail_total (vw_raw (src s)))) ov ctl e3))))"
    unfolding transcribe_stream_file_def whole_def[symmetric] unfolding Let_def e1(1) prod.case sum.case opn by (rule refl)
  show ?thesis
  proof (cases "if use_vad eng ov then tr_vad eng else None")
    case None
    show ?thesis unfolding start None option.case
      by (rule whole_result) (simp_all add: clip_result_def clip_words_def clip_reports_def None r1)
  next
    case (Some p)
    obtain score st0 where p: "p = (score, st0)" by (cases p)
    have "tr_vad eng = Some (score, st0)" using Some p by (auto split: if_splits)
    then obtain rs where rs: "speech_regions_with_abort score st0 xs (tr_vad_config eng) None = Inr rs"
      using vad by (cases "speech_regions_with_abort score st0 xs (tr_vad_config eng) None") auto
    have qa: "quiet (map_option (\<lambda>_. vf) (abort_flag ctl))" using vf by (auto simp: quiet_def)
    obtain s' e2 where d: "decode_words_streaming (vad_next_window (raw_next_window ops) avail_total score (map_option (\<lambda>_. vf) (abort_flag ctl)))
        (tr_unicode eng) (recognize eng ?b) vad_remapping ctl (file_window_concurrency eng) (Some extras)
        (vad_windows_new (rolling_new w vad_pull_spec) st0 (tr_vad_config eng) (engine_spec eng)) e1
        = Some (buffer_words eng ?b (speech_of xs rs), s', e2)"
      and ok: "\<forall>r. buffer_words eng ?b (speech_of xs rs) = Inr r \<longrightarrow>
         reported e2 = reported e1 @ buffer_reports eng ctl (speech_of xs rs)
         \<and> vw_regions s' = rs \<and> \<not> vad_failed (src s') \<and> avail_total (vw_raw (src s')) = length xs"
      using vad_stream_quiet[OF q qa live lim rs] by blast
    note unf = start Some p option.case prod.case d clip_result_def clip_words_def clip_reports_def rs
    obtain e3 where e3: "check_abort ctl e2 = (Inr (), e3)" "seen e3 = seen e2" using check_abort_quiet[OF q] by blast
    show ?thesis
    proof (cases "rs = []")
      case True
      then have nf: "needs_fallback avail_total s'" and r3: "reported e3 = reported e"
        using ok ne e3(2) r1 by (simp_all add: needs_fallback_def speech_of_def seen_def)
      have t: "transcribe_stream_file eng (Some extras) vf ops opn ov hotwords ctl e = whole e3"
        unfolding start Some p option.case prod.case d True speech_of_def list.map concat.simps buffer_words_empty sum.case e3(1)
        using nf by simp
      have c: "clip_result eng ov hotwords xs = map_sum id ?fin (buffer_words eng ?b xs)"
        "clip_reports eng ov ctl xs = buffer_reports eng ctl xs"
        unfolding clip_result_def clip_words_def clip_reports_def Some p option.case prod.case rs sum.case True by simp_all
      show ?thesis unfolding t by (rule whole_result[OF c r3])
    next
      case False
      show ?thesis
      proof (cases "buffer_words eng ?b (speech_of xs rs)")
        case (Inl er)
        then show ?thesis using False unfolding unf by simp
      next
        case (Inr ws)
        have nf: "\<not> needs_fallback avail_total s'" using ok Inr False by (simp add: needs_fallback_def)
        obtain e4 where "finish_transcribe_result eng (map (remap_times rs) ws) (clip_seconds (length xs)) ov ctl e3
            = (Inr (?fin (map (remap_times rs) ws)), e4)" "seen e4 = seen e3" using finish_quiet[OF q] by blast
        then show ?thesis using False Inr nf ok e3 r1 unfolding unf by (simp add: seen_def)
      qed
    qed
  qed
qed

section \<open>The compressed timeline\<close>

text \<open>The samples that the regions keep.\<close>

definition kept_samples :: "(nat \<times> nat) list \<Rightarrow> nat" where
  "kept_samples rs = (\<Sum>(s, e)\<leftarrow>rs. e - s)"

lemma kept_samples_simps [simp]:
  "kept_samples [] = 0" "kept_samples ((s, e) # rs) = (e - s) + kept_samples rs"
  by (simp_all add: kept_samples_def)

lemma length_speech_of: "\<forall>(s, e) \<in> set rs. e \<le> length xs \<Longrightarrow> length (speech_of xs rs) = kept_samples rs"
  by (induction rs) (auto simp: speech_of_def kept_samples_def min_def)

lemma remap_from_append:
  "rat_of_nat (kept_samples pre) + acc < target \<Longrightarrow>
   remap_from rate target acc (pre @ rs) = remap_from rate target (acc + of_nat (kept_samples pre)) rs"
proof (induction pre arbitrary: acc)
  case (Cons r pre)
  obtain s e where r: "r = (s, e)" by (cases r)
  have "\<not> target \<le> acc + of_nat (e - s)" using Cons.prems of_nat_0_le_iff[of "kept_samples pre", where 'a = rat] by (simp add: r)
  then show ?case using Cons.IH[of "acc + of_nat (e - s)"] Cons.prems by (simp add: r Let_def algebra_simps)
qed simp

lemma remap_inside:
  assumes "0 < rate" "s < n" "n \<le> e"
  shows "remap_compressed_seconds (of_nat (kept_samples pre + (n - s)) / rate) (pre @ (s, e) # post) rate = of_nat n / rate"
proof -
  let ?t = "rat_of_nat (kept_samples pre + (n - s))"
  have t: "max (?t / rate * rate) 0 = ?t" using assms(1) by simp
  have "remap_from rate ?t 0 (pre @ (s, e) # post) = remap_from rate ?t (of_nat (kept_samples pre)) ((s, e) # post)"
    using remap_from_append[of pre 0 ?t rate "(s, e) # post"] assms by simp
  also have "\<dots> = Some (of_nat n / rate)" using assms by (simp add: Let_def max_def of_nat_diff)
  finally show ?thesis using t by (simp add: remap_compressed_seconds_def)
qed

text \<open>The mapping of a sample position, with the clamp at the end, is monotone and stays within the regions.\<close>

definition remap_target :: "rat \<Rightarrow> rat \<Rightarrow> rat \<Rightarrow> (nat \<times> nat) list \<Rightarrow> rat" where
  "remap_target rate target acc rs =
     (case remap_from rate target acc rs of Some x \<Rightarrow> x | None \<Rightarrow> of_nat (snd (last rs)) / rate)"

lemma remap_target_Cons:
  assumes "rs \<noteq> []"
  shows "remap_target rate target acc ((s, e) # rs) =
    (if target \<le> acc + of_nat (e - s) then (of_nat s + max (target - acc) 0) / rate
     else remap_target rate target (acc + of_nat (e - s)) rs)"
  using assms by (simp add: remap_target_def Let_def split: option.split)

lemma remap_target_single:
  "remap_target rate target acc [(s, e)] =
    (if target \<le> acc + of_nat (e - s) then (of_nat s + max (target - acc) 0) / rate else of_nat e / rate)"
  by (simp add: remap_target_def Let_def)

lemma remap_target_range:
  assumes "0 < rate" "separated rs" "rs \<noteq> []"
  shows "of_nat (fst (hd rs)) / rate \<le> remap_target rate target acc rs
    \<and> remap_target rate target acc rs \<le> of_nat (snd (last rs)) / rate"
  using assms(2,3)
proof (induction rs arbitrary: acc rule: separated.induct)
  case (2 s e)
  then have "rat_of_nat (e - s) = of_nat e - of_nat s" by (simp add: of_nat_diff)
  then show ?case using assms(1) 2 unfolding remap_target_single by (auto simp: divide_right_mono max_def)
next
  case (3 s e s' e' rs)
  let ?ts = "(s', e') # rs"
  from 3 have o: "s < e" "e < s'" and IH: "rat_of_nat s' / rate \<le> remap_target rate target (acc + of_nat (e - s)) ?ts"
    "remap_target rate target (acc + of_nat (e - s)) ?ts \<le> of_nat (snd (last ?ts)) / rate" by auto
  have d: "rat_of_nat (e - s) = of_nat e - of_nat s" using o by (simp add: of_nat_diff)
  have "last ?ts \<in> set ?ts" by (rule last_in_set) simp
  then obtain a b where l: "last ?ts = (a, b)" "(a, b) \<in> set ?ts" by (metis surj_pair)
  have sep: "separated ?ts" using 3(2) by simp
  have "a < b" "s' < e'" "(s', e') = (a, b) \<or> e' < a"
    using separated_member[OF sep l(2)] separated_member[OF sep, of s' e'] separated_last[OF sep, of s' e'] l(1) by auto
  then have "e \<le> snd (last ?ts)" using o unfolding l(1) by auto
  then have e: "rat_of_nat e / rate \<le> of_nat (snd (last ?ts)) / rate" using assms(1) by (simp add: divide_right_mono)
  have s: "rat_of_nat s / rate \<le> of_nat s' / rate" using assms(1) o by (simp add: divide_right_mono)
  show ?case
  proof (cases "target \<le> acc + of_nat (e - s)")
    case True
    then have "of_nat s + max (target - acc) 0 \<le> rat_of_nat e" using d o by (auto simp: max_def)
    then have "(of_nat s + max (target - acc) 0) / rate \<le> rat_of_nat e / rate" using assms(1) by (simp add: divide_right_mono)
    moreover have "rat_of_nat s / rate \<le> (of_nat s + max (target - acc) 0) / rate" using assms(1) by (simp add: divide_right_mono)
    ultimately show ?thesis using True e by (simp add: remap_target_Cons)
  next
    case False
    then show ?thesis using IH s by (simp add: remap_target_Cons)
  qed
qed simp

lemma remap_target_mono:
  assumes "0 < rate" "separated rs" "rs \<noteq> []" "target \<le> target'"
  shows "remap_target rate target acc rs \<le> remap_target rate target' acc rs"
  using assms(2,3)
proof (induction rs arbitrary: acc rule: separated.induct)
  case (2 s e)
  then have "rat_of_nat (e - s) = of_nat e - of_nat s" by (simp add: of_nat_diff)
  then show ?case using assms(1,4) 2 unfolding remap_target_single by (auto simp: divide_right_mono max_def)
next
  case (3 s e s' e' rs)
  let ?ts = "(s', e') # rs"
  from 3 have o: "s < e" "e < s'" and
    IH: "remap_target rate target (acc + of_nat (e - s)) ?ts \<le> remap_target rate target' (acc + of_nat (e - s)) ?ts" by auto
  have d: "rat_of_nat (e - s) = of_nat e - of_nat s" using o by (simp add: of_nat_diff)
  have low: "rat_of_nat s' / rate \<le> remap_target rate target' (acc + of_nat (e - s)) ?ts"
    using remap_target_range[OF assms(1), of ?ts target' "acc + of_nat (e - s)"] 3(2) by simp
  consider "target' \<le> acc + of_nat (e - s)" | "target \<le> acc + of_nat (e - s)" "\<not> target' \<le> acc + of_nat (e - s)"
    | "\<not> target \<le> acc + of_nat (e - s)" by blast
  then show ?case
  proof cases
    case 1
    then show ?thesis using assms(1,4) by (simp add: remap_target_Cons divide_right_mono max_def)
  next
    case 2
    then have "of_nat s + max (target - acc) 0 \<le> rat_of_nat s'" using d o by (auto simp: max_def)
    then have "(of_nat s + max (target - acc) 0) / rate \<le> rat_of_nat s' / rate" using assms(1) by (simp add: divide_right_mono)
    then show ?thesis using 2 low by (simp add: remap_target_Cons)
  next
    case 3
    then show ?thesis using IH assms(4) by (simp add: remap_target_Cons)
  qed
qed simp

lemma remap_is_target: "rs \<noteq> [] \<Longrightarrow> remap_compressed_seconds t rs rate = remap_target rate (max (t * rate) 0) 0 rs"
  by (simp add: remap_compressed_seconds_def remap_target_def)

section \<open>Properties\<close>

text \<open>
  C1: Streaming a file is decoding it whole. Let a WAVE container decode flat, under the limit of
  the request, to the non-empty samples \<open>xs\<close>, let nobody abort, and let the VAD model, if the
  engine has one, answer on \<open>xs\<close>. Then the request for the container, which never holds the whole
  recording, returns, and so does the request for the samples, with the same result: the windows of
  the kept speech recognised in order and stitched, with their times mapped back to the recording
  and the text post-processed, or the error of the recogniser (\<open>clip_result\<close>). This holds with and without
  the VAD, also when the VAD finds no speech and the file is read again, with any overrides and
  hotwords, and whatever extra session triplets either request gets. A successful request reports
  the same progress.
\<close>

theorem streamed_file_equals_samples:
  assumes "open_container c Mono (max_audio_secs req) flat_spec = Inr windows" "\<not> c_panics c"
    and "drain_to_vec ops windows = Inr xs" "xs \<noteq> []" "length xs < usize_max"
    and "quiet_controls ctl" "\<forall>j k. \<not> vf j k"
    and "\<forall>score st0. tr_vad eng = Some (score, st0) \<longrightarrow> \<not> isl (frame_probs_with_abort score st0 xs None)"
    and "source req = Encoded c" "\<not> diarization req"
  shows "\<exists>e1 e2.
      transcribe_request_with eng (Some extras) vf ops req ctl e
        = Some (clip_result eng (req_overrides req) (req_hotwords req) xs, diarization_outcome req, e1)
    \<and> transcribe_request_with eng (Some extras') vf ops (req\<lparr>source := Samples xs, max_audio_secs := None\<rparr>) ctl e
        = Some (clip_result eng (req_overrides req) (req_hotwords req) xs, diarization_outcome req, e2)
    \<and> (\<forall>x. clip_result eng (req_overrides req) (req_hotwords req) xs = Inr x \<longrightarrow> reported e1 = reported e2)"
proof -
  let ?ov = "req_overrides req" and ?hot = "req_hotwords req" and ?limit = "max_audio_secs req"
  obtain w where w: "wave_source_from (c_rate c) ?limit (c_blocks c Mono ?limit) False = Inr w" "windows = rolling_new w flat_spec"
    using assms(1,2) by (auto simp: open_container_def split: sum.splits)
  have opn: "open_container c Mono ?limit sp = Inr (rolling_new w sp)" for sp
    using w(1) assms(2) by (simp add: open_container_def)
  have live: "file_live ops xs (rolling_new w sp)" for sp
    by (rule wave_open_drained[OF w(1) _ assms(5)]) (use assms(3) w(2) in simp)
  have vad: "\<not> isl (speech_regions_with_abort score st0 xs (tr_vad_config eng) None)" if "tr_vad eng = Some (score, st0)" for score st0
    using assms(8) that by (auto simp: speech_regions_with_abort_def isl_def split: sum.split)
  have vf: "\<forall>k. \<not> vf 0 k" using assms(7) by blast
  obtain e0 where e0: "check_abort ctl e = (Inr (), e0)" using check_abort_quiet[OF assms(6)] by blast
  obtain e1 where e1: "transcribe_stream_file eng (Some extras) (vf 0) ops (open_container c Mono ?limit) ?ov ?hot ctl e0
      = Some (clip_result eng ?ov ?hot xs, e1)"
    "\<forall>r. clip_result eng ?ov ?hot xs = Inr r \<longrightarrow> reported e1 = reported e0 @ clip_reports eng ?ov ctl xs"
    using transcribe_stream_quiet[OF assms(6) vf assms(4,5) opn live vad] by blast
  obtain e2 where e2: "transcribe_samples_with_overrides eng (Some extras') (vf 0) xs ?ov ?hot False (diarization_outcome req) ctl e0
      = Some (clip_result eng ?ov ?hot xs, diarization_outcome req, e2)"
    "\<forall>r. clip_result eng ?ov ?hot xs = Inr r \<longrightarrow> reported e2 = reported e0 @ clip_reports eng ?ov ctl xs"
    using transcribe_samples_quiet[OF assms(6) vf assms(4)] by blast
  have "validate_source_budget req = Inr ()"
    "validate_source_budget (req\<lparr>source := Samples xs, max_audio_secs := None\<rparr>) = Inr ()"
    using assms(9) by (auto simp: validate_source_budget_def split: option.split float_val.split)
  then show ?thesis using e0 e1 e2 assms(9,10) by (simp add: transcribe_request_with_def stream_eligible_def with_sink_def)
qed

text \<open>
  C39: The map from the silence-free timeline back to the recording undoes the compression. For
  ordered, separated regions, a position inside a region, or at its end, goes back to itself: the
  time of the \<open>n\<close>-th sample, counted without the silence, becomes \<open>n / rate\<close>. The map is monotone,
  so words keep their order, and every time it gives lies between the start of the first and the
  end of the last region.
\<close>

theorem remap_undoes_compression:
  assumes "0 < rate" "separated rs" "rs \<noteq> []" "\<forall>(s, e) \<in> set rs. e \<le> length xs"
  shows "(\<forall>pre s e post n. rs = pre @ (s, e) # post \<longrightarrow> s < n \<longrightarrow> n \<le> e \<longrightarrow>
      remap_compressed_seconds (of_nat (length (speech_of xs pre) + (n - s)) / rate) rs rate = of_nat n / rate)
    \<and> (\<forall>t t'. t \<le> t' \<longrightarrow> remap_compressed_seconds t rs rate \<le> remap_compressed_seconds t' rs rate)
    \<and> (\<forall>t. of_nat (fst (hd rs)) / rate \<le> remap_compressed_seconds t rs rate
      \<and> remap_compressed_seconds t rs rate \<le> of_nat (snd (last rs)) / rate)"
proof (intro conjI allI impI)
  fix pre s e post n
  assume "rs = pre @ (s, e) # post" and n: "s < n" "n \<le> e"
  moreover from this(1) have "length (speech_of xs pre) = kept_samples pre" using assms(4) by (intro length_speech_of) auto
  ultimately show "remap_compressed_seconds (of_nat (length (speech_of xs pre) + (n - s)) / rate) rs rate = of_nat n / rate"
    using remap_inside[OF assms(1) n, of pre post] by simp
next
  fix t t' :: rat
  assume "t \<le> t'"
  then have "max (t * rate) 0 \<le> max (t' * rate) 0" using assms(1) by (auto simp: max_def mult_right_mono dest: mult_right_mono[of t t' rate])
  then show "remap_compressed_seconds t rs rate \<le> remap_compressed_seconds t' rs rate"
    unfolding remap_is_target[OF assms(3)] by (rule remap_target_mono[OF assms(1-3)])
next
  fix t :: rat
  show "of_nat (fst (hd rs)) / rate \<le> remap_compressed_seconds t rs rate"
    "remap_compressed_seconds t rs rate \<le> of_nat (snd (last rs)) / rate"
    unfolding remap_is_target[OF assms(3)] using remap_target_range[OF assms(1-3)] by blast+
qed

lemma remap_undoes_compression_witness:
  "remap_compressed_seconds 3 [(0, 2), (5, 7)] 1 = 6"
proof -
  have "\<forall>(s, e) \<in> set [(0, 2), (5, 7)]. e \<le> length (replicate 8 (Fin 0))" by simp
  from remap_undoes_compression [OF _ _ _ this, of 1] have
    "\<forall>pre s e post n. [(0, 2), (5, 7)] = pre @ (s, e) # post \<longrightarrow> s < n \<longrightarrow> n \<le> e \<longrightarrow>
      remap_compressed_seconds (of_nat (length (speech_of (replicate 8 (Fin 0)) pre) + (n - s)) / 1) [(0, 2), (5, 7)] 1 = of_nat n / 1"
    by simp
  from this[rule_format, of "[(0, 2)]" 5 7 "[]" 6] show ?thesis by (simp add: speech_of_def subslice_def)
qed

definition demo_container :: container where
  "demo_container = \<lparr>c_rate = 16000, c_blocks = (\<lambda>_ _. demo_messages), c_panics = False\<rparr>"

definition demo_transcriber :: "unit transcriber" where
  "demo_transcriber = \<lparr>ane_encoder = False, ctc_head = True, recognize = (\<lambda>_. one_word), tr_vad = Some (\<lambda>f st. Inr (Fin 0, st), ()),
     tr_vad_config = vad_config_default, file_window_concurrency = 4, tr_itn = False, tr_punctuator = None, boot_biaser = None,
     tr_tokenizer = \<lparr>vocab_tokens = [], blank_token = 0\<rparr>, lower_fn = (\<lambda>s. s), tr_unicode = plain_unicode, speaker_encoder = None\<rparr>"

definition demo_request :: transcribe_request where
  "demo_request = \<lparr>source = Encoded demo_container, req_overrides = no_overrides, req_hotwords = None, diarization = False,
     diarization_outcome = None, max_audio_secs = None\<rparr>"

lemma streamed_file_equals_samples_witness:
  "\<exists>x e1 e2. transcribe_request_with demo_transcriber (Some 2) (\<lambda>_ _. False) demo_rubato demo_request
      \<lparr>abort_flag = Some (\<lambda>_. False), has_progress = True, has_partial = False\<rparr> \<lparr>polls = 0, reported = [], published = []\<rparr>
      = Some (Inr x, None, e1)
    \<and> transcribe_request_with demo_transcriber (Some 0) (\<lambda>_ _. False) demo_rubato
        (demo_request\<lparr>source := Samples [Fin 1, Fin 2], max_audio_secs := None\<rparr>)
      \<lparr>abort_flag = Some (\<lambda>_. False), has_progress = True, has_partial = False\<rparr> \<lparr>polls = 0, reported = [], published = []\<rparr>
      = Some (Inr x, None, e2)
    \<and> r_words x = [word_new [1076, 1072] 0 1 1 None] \<and> duration_s x = 2 / 16000 \<and> reported e1 = reported e2"
proof -
  let ?ctl = "\<lparr>abort_flag = Some (\<lambda>_. False), has_progress = True, has_partial = False\<rparr>"
  let ?e = "\<lparr>polls = 0, reported = [], published = []\<rparr>"
  obtain w :: "unit wave_source" where w: "wave_source_from 16000 None demo_messages False = Inr w"
    "drain_to_vec demo_rubato (rolling_new w flat_spec) = Inr [Fin 1, Fin 2]" using demo_source by blast
  have o: "open_container demo_container Mono (max_audio_secs demo_request) flat_spec = Inr (rolling_new w flat_spec)"
    using w(1) by (simp add: open_container_def demo_container_def demo_request_def)
  have q: "quiet_controls ?ctl" by (simp add: quiet_controls_def)
  have scan: "frame_probs_with_abort (\<lambda>f st. Inr (Fin 0, st)) () [Fin 1, Fin 2] None = Inr [Fin 0]"
    by (simp add: frame_probs_with_abort_def frame_scan.simps Let_def)
  have vad: "\<forall>score st0. tr_vad demo_transcriber = Some (score, st0) \<longrightarrow> \<not> isl (frame_probs_with_abort score st0 [Fin 1, Fin 2] None)"
    using scan by (auto simp: demo_transcriber_def)
  have "single_pass_max (engine_spec demo_transcriber) \<ge> 2"
    by (simp add: engine_spec_def window_spec_for_def window_spec_new_def CHUNK_THRESHOLD_SAMPLES_def)
  then have "windows_of (engine_spec demo_transcriber) [Fin 1, Fin 2] = [(0, [Fin 1, Fin 2])]"
    by (intro windows_of_single engine_spec_valid) (simp_all add: is_single_pass_def)
  then have "buffer_words demo_transcriber b [Fin 1, Fin 2] = Inr [word_new [1076, 1072] 0 1 1 None]" for b
    by (simp add: buffer_words_def decoded_words_single recognized_def one_word_def demo_transcriber_def)
  moreover have "speech_regions_with_abort (\<lambda>f st. Inr (Fin 0, st)) () [Fin 1, Fin 2] vad_config_default None = Inr []"
    unfolding speech_regions_with_abort_def scan by (simp add: regions_from_probs_def raw_runs_def vad_config_default_def Let_def)
  ultimately have "clip_words demo_transcriber ov b [Fin 1, Fin 2] = Inr [word_new [1076, 1072] 0 1 1 None]" for ov b
    by (simp add: clip_words_def demo_transcriber_def)
  then have c: "clip_result demo_transcriber ov hot [Fin 1, Fin 2]
      = Inr (finished_result demo_transcriber ov [word_new [1076, 1072] 0 1 1 None] (2 / 16000))" for ov hot
    by (simp add: clip_result_def clip_seconds_def)
  from streamed_file_equals_samples [OF o _ w(2) _ _ q _ vad, of "\<lambda>_ _. False" 2 ?e 0]
  show ?thesis by (auto simp: demo_request_def demo_container_def usize_max_def c finished_result_def Let_def)
qed

end
