(* ===== verification/Spec2Isabelle.thy ===== *)
theory Spec2Isabelle
  imports Vad_Windows Session_Pool Opus_Framing Job_Api Rate_Limit Export_Http Window_Words Stream_Properties Transcribe_Properties
begin

text \<open>
  Verification library for gigastt, a speech recognition server and library. The core crate
  (\<open>src/crates/gigastt-core/src\<close>, "core" below) turns audio into words; the server crate
  (\<open>src/crates/gigastt/src\<close>) queues jobs, limits clients and renders transcripts.

  \<^bold>\<open>The program and its theories.\<close> Prelude holds the arithmetic of \<open>usize\<close>, slices, finite floats and
  \<open>fault\<close>, the type of a result that may also be a panic.

  \<^item> Audio into windows. Window\_Cursor is \<open>WindowSpec\<close> and \<open>WindowCursor\<close> of core
    \<open>inference/audio/stream.rs\<close>; Resample is \<open>audio/resample.rs\<close>; Pcm\_Sources is the trait
    \<open>PcmWindows\<close> with \<open>SliceWindows\<close> and the rolling buffer; File\_Windows is the WAVE variant of
    \<open>FileWindows\<close> with its decode thread (\<open>audio/stream/file.rs\<close>, \<open>audio/wave.rs\<close>); Audio\_Chunks is
    \<open>audio/chunks.rs\<close>; Opus\_Framing is \<open>audio/opus/framing.rs\<close>.
  \<^item> Voice activity. Vad\_Regions is the batch detector, Vad\_Segmenter the streaming one,
    Vad\_Endpoint the end-of-speech detector (\<open>vad/regions.rs\<close>, \<open>segmenter.rs\<close>, \<open>endpoint.rs\<close>), and
    Vad\_Windows the source of windows without silence (\<open>audio/vad_windows.rs\<close>).
  \<^item> Samples into tokens. Mel\_Features is \<open>inference/features.rs\<close> with its three reused buffers;
    Rnnt\_Decode is \<open>inference/decode/mod.rs\<close>; Ctc\_Decode is \<open>inference/ctc.rs\<close>; Hotword\_Bias is
    \<open>inference/bias.rs\<close>; Inference is \<open>run_inference\<close> of \<open>inference/engine/infer.rs\<close>, which calls them.
  \<^item> Tokens into text. Tokenizer, Token\_Words, Stitch and Itn are \<open>inference/tokenizer.rs\<close>,
    \<open>token_format.rs\<close>, \<open>token_format/stitch.rs\<close> and \<open>itn.rs\<close>. Transcript, Assembler and Snapshot are
    the words, the committed and tentative text, and the published partial transcript of
    \<open>inference/types.rs\<close>, \<open>state.rs\<close> and \<open>state/snapshot.rs\<close>.
  \<^item> The recognisers. Window\_Words decodes the windows of a source one by one or in waves of
    workers (\<open>inference/engine/words.rs\<close>); Transcribe\_Engine is file transcription up to
    \<open>transcribe_request\<close>; Diarization labels words with speakers (\<open>inference/diarization.rs\<close>);
    Stream\_Engine is the stream (\<open>inference/engine/stream.rs\<close>: chunk, flush, finish, reset, cancel),
    with its features, decoder, endpointer and assembler as modelled above. Session\_Pool is
    \<open>inference/pool.rs\<close>.
  \<^item> The server. Job\_Store is \<open>server/jobs/store.rs\<close>, Job\_Queue its clients and workers
    (\<open>jobs/queue.rs\<close>, \<open>jobs/executor.rs\<close>, \<open>http/jobs_api.rs\<close>); Rate\_Limit is \<open>server/rate_limit.rs\<close> with
    the sweep of \<open>server/listen.rs\<close>; Export and Export\_Http are \<open>core/src/export/mod.rs\<close> and
    \<open>server/http/export.rs\<close>.

  A struct is a record with the fields of the source, an enum a datatype, an operation a
  function with the name of the source, prefixed where that name is taken; the manifest maps
  each definition to its lines. A method on \<open>&mut self\<close> takes the record and returns it updated; an
  early return, an error and a panic are values of sum types.

  \<^bold>\<open>What the lemmas show.\<close> The properties stand at the end of the theory of their component, each with
  its number and, where it has hypotheses, a witness. Equivalences: streamed file transcription and
  decoding of all samples; parallel and serial windows; streaming and batch voice activity
  detection; packet-wise and whole resampling; cached and uncached transducer decoding; greedy CTC
  and its collapse; reused feature buffers and a dense reference; linear and first-match speaker
  assignment. Refinements: the assembler and the snapshot against plain lists, file windows and the
  cursor against closed forms. Invariants of reachable states: the pool keeps its items, the job
  system (Job\_System, Job\_Steps, Job\_Api) its ownership, bounds and listeners, the stream
  (Stream\_Safety, Stream\_Properties) its text, its window and the absence of panics. Optimality
  and order: the seam alignment and the stitched words. Round trips and formats: phrases,
  numbers, cues, headers, Opus packets.

  \<^bold>\<open>Interfaces.\<close> The locales \<open>pcm_windows\<close>, \<open>counted_windows\<close> and \<open>rolling_fill\<close> state what a source of
  windows promises; slices, files and speech regions are instances, and the decoders are proved
  over the locale. The locale \<open>job_store_api\<close> is the trait \<open>JobStore\<close> with its default methods; the
  store in memory is its instance.

  \<^bold>\<open>Loops and bounds.\<close> No definition is fuelled. A loop that ends for every input is a total function
  with a measure, as the transducer loop, which leaves a frame after ten tokens. A loop over a
  source that may never end is a partial function into an option, and the theorems about it show
  that it returns. Constants are those of the source: 64 bands, frames of 320 samples, a
  prediction state of 320 and an encoder frame of 768 values, 32 listeners per job, 100000
  rate buckets, a sweep after 300 seconds. Machine integers are natural numbers with the subtractions and
  slices of the source checked, and words where bits matter; the size of an encoder output,
  a product with a number that the encoder answers, wraps in \<open>greedy_loop\<close>.

  \<^bold>\<open>What is idealised.\<close> Floats are rationals, with infinities and NaN where the code tests for them; so
  rounding is not modelled. Networks, the Fourier transform, \<open>exp\<close> and \<open>ln\<close>, the resampling filter,
  the WAVE parser, Unicode tables and the diarizer are parameters; what a theorem relies on is a
  hypothesis of it, as \<open>sessions_answer\<close> for the absence of panics in a stream: the sessions do not
  panic themselves, the encoder returns its output and a length that fits, the prediction network
  returns an output of 320 values. An abort flag and a clock are functions from the place or the
  number of the reading to its answer, so any timing is covered. Threads are the interleavings of
  their critical sections in the pool and the job system; the workers of a wave run one after
  the other, and a panic that ends a thread of theirs is not modelled.

  \<^bold>\<open>What is not modelled.\<close> Sources of audio other than WAVE files and raw samples (symphonia, the Opus
  codec, G.711), the punctuation model and its wordpiece tokenizer, network runtimes, model
  download and loading, the asynchronous shell of the server (routes, sockets, middleware, upload,
  metrics, configuration), the command line, the language bindings and quantisation: they are
  I/O, numerical kernels, or calls of what is modelled here. JSON and serde output is a parameter of
  the export formats.
\<close>

end
